(* ===== verification/Prelude.thy ===== *)
theory Prelude
  imports Main "HOL-Library.Word" "HOL-Library.Monad_Syntax"
begin

unbundle bit_operations_syntax

text \<open>
  Shared material of the development: the C integer types as words, a buffer of bytes whose
  reads and writes are checked (an access outside the buffer is \<open>None\<close>, so that a result
  \<open>Some\<close> is also a proof that the code stays inside its allocation), little endian
  encodings of integers, and the generic list and option lemmas of the component theories.
\<close>

section \<open>Types\<close>

type_synonym byte = "8 word"
type_synonym uint32 = "32 word"
type_synonym uint64 = "64 word"
type_synonym int64 = "64 word"

text \<open>
  \<open>mem_simps\<close> collects the rewriting rules of checked buffers.
\<close>

named_theorems mem_simps

section \<open>Words\<close>

lemma word_eqI_uint: "uint a = uint b \<Longrightarrow> a = b"
  by (simp add: word_uint_eq_iff)

lemma unat_of_nat_small: "n < 2 ^ LENGTH('a) \<Longrightarrow> unat (of_nat n :: 'a::len word) = n"
  by (simp add: unsigned_of_nat take_bit_nat_eq_self)

lemma unat_word_of_int_small:
  "0 \<le> i \<Longrightarrow> i < 2 ^ LENGTH('a) \<Longrightarrow> unat (word_of_int i :: 'a::len word) = nat i"
  by (simp add: unat_eq_nat_uint unsigned_of_int take_bit_int_eq_self)

lemma unat_less_exp: "unat (w :: 'a::len word) < 2 ^ LENGTH('a)"
  by (simp add: unsigned_less)

section \<open>Checked buffers\<close>

definition mem_read :: "byte list \<Rightarrow> nat \<Rightarrow> nat \<Rightarrow> byte list option" where
  "mem_read xs off n = (if off + n \<le> length xs then Some (take n (drop off xs)) else None)"

definition mem_write :: "byte list \<Rightarrow> nat \<Rightarrow> byte list \<Rightarrow> byte list option" where
  "mem_write xs off bs =
     (if off + length bs \<le> length xs
      then Some (take off xs @ bs @ drop (off + length bs) xs) else None)"

text \<open>Single bytes: \<open>xs[i]\<close> and \<open>xs[i] = b\<close>.\<close>

definition mem_get :: "byte list \<Rightarrow> nat \<Rightarrow> byte option" where
  "mem_get xs i = (if i < length xs then Some (xs ! i) else None)"

definition mem_set :: "byte list \<Rightarrow> nat \<Rightarrow> byte \<Rightarrow> byte list option" where
  "mem_set xs i b = (if i < length xs then Some (xs[i := b]) else None)"

text \<open>\<open>memmove(base+dst, base+src, n)\<close>: the source is read before the target is written.\<close>

definition mem_move :: "byte list \<Rightarrow> nat \<Rightarrow> nat \<Rightarrow> nat \<Rightarrow> byte list option" where
  "mem_move xs dst src n = do { bs \<leftarrow> mem_read xs src n; mem_write xs dst bs }"

text \<open>
  \<open>realloc\<close> keeps the common prefix; the bytes it adds are indeterminate and given by a
  parameter \<open>junk\<close> over which the theorems are universally quantified.
\<close>

definition mem_realloc :: "(nat \<Rightarrow> byte) \<Rightarrow> byte list \<Rightarrow> nat \<Rightarrow> byte list" where
  "mem_realloc junk xs n = take n xs @ map junk [length xs..<n]"

lemma length_mem_realloc [simp]: "length (mem_realloc junk xs n) = n"
  by (simp add: mem_realloc_def)

lemma mem_realloc_grow: "length xs \<le> n \<Longrightarrow> \<exists>ys. mem_realloc junk xs n = xs @ ys \<and> length ys = n - length xs"
  by (simp add: mem_realloc_def)

lemma mem_realloc_shrink: "n \<le> length xs \<Longrightarrow> mem_realloc junk xs n = take n xs"
  by (simp add: mem_realloc_def)

lemma mem_set_middle [mem_simps]:
  "length xs = i \<Longrightarrow> mem_set (xs @ a # ys) i b = Some (xs @ b # ys)"
  by (auto simp: mem_set_def)

lemma mem_realloc_prefix: "length xs = n \<Longrightarrow> mem_realloc junk (xs @ ys) n = xs"
  by (auto simp: mem_realloc_def)

lemma mem_read_Some [mem_simps]:
  "off + n \<le> length xs \<Longrightarrow> mem_read xs off n = Some (take n (drop off xs))"
  by (simp add: mem_read_def)

lemma mem_write_Some [mem_simps]:
  "off + length bs \<le> length xs \<Longrightarrow>
   mem_write xs off bs = Some (take off xs @ bs @ drop (off + length bs) xs)"
  by (simp add: mem_write_def)

lemma length_mem_write: "mem_write xs off bs = Some ys \<Longrightarrow> length ys = length xs"
  by (auto simp: mem_write_def split: if_splits)

lemma mem_read_middle [mem_simps]:
  "length xs = off \<Longrightarrow> length bs = n \<Longrightarrow> mem_read (xs @ bs @ ys) off n = Some bs"
  by (auto simp: mem_read_def)

lemma mem_write_middle [mem_simps]:
  "length xs = off \<Longrightarrow> length bs = length cs \<Longrightarrow>
   mem_write (xs @ bs @ ys) off cs = Some (xs @ cs @ ys)"
  by (auto simp: mem_write_def)

text \<open>Moving the tail of a buffer up by the room at its end, and down over a gap.\<close>

lemma mem_move_up [mem_simps]:
  "length A = a \<Longrightarrow> length B = b \<Longrightarrow> length J = w \<Longrightarrow>
   mem_move (A @ B @ J) (a + w) a b = Some (A @ take w (B @ J) @ B)"
  by (auto simp: mem_move_def mem_read_def mem_write_def)

lemma mem_move_down [mem_simps]:
  "length A = a \<Longrightarrow> length X = w \<Longrightarrow> length B = b \<Longrightarrow>
   mem_move (A @ X @ B) a (a + w) b = Some (A @ B @ drop b (X @ B))"
  by (auto simp: mem_move_def mem_read_def mem_write_def)

section \<open>Little endian integers\<close>

fun le_bytes :: "nat \<Rightarrow> int \<Rightarrow> byte list" where
  "le_bytes 0 v = []"
| "le_bytes (Suc k) v = word_of_int v # le_bytes k (v div 256)"

fun le_uint :: "byte list \<Rightarrow> int" where
  "le_uint [] = 0"
| "le_uint (b # bs) = uint b + 256 * le_uint bs"

definition le_sint :: "byte list \<Rightarrow> int" where
  "le_sint bs = signed_take_bit (8 * length bs - 1) (le_uint bs)"

lemma le_bytes_numeral [simp]:
  "le_bytes (numeral n) v = word_of_int v # le_bytes (pred_numeral n) (v div 256)"
  by (simp add: numeral_eq_Suc)

lemma length_le_bytes [simp]: "length (le_bytes k v) = k"
  by (induction k arbitrary: v) auto

lemma take_bit_byte_step:
  "take_bit (8 + n) (v::int) = take_bit 8 v + 256 * take_bit n (v div 256)"
proof -
  have "v mod 2 ^ (8 + n) = 256 * (v div 256 mod 2 ^ n) + v mod 256"
    using zmod_zmult2_eq [of "2 ^ n" v 256] by (simp add: power_add)
  then show ?thesis by (simp add: take_bit_eq_mod)
qed

lemma le_uint_le_bytes: "le_uint (le_bytes k v) = take_bit (8 * k) v"
proof (induction k arbitrary: v)
  case 0
  then show ?case by simp
next
  case (Suc k)
  have "take_bit (8 * Suc k) v = take_bit 8 v + 256 * take_bit (8 * k) (v div 256)"
    using take_bit_byte_step [of "8 * k" v] by (simp add: algebra_simps)
  with Suc show ?case by (simp add: unsigned_of_int)
qed

lemma le_uint_bounds: "0 \<le> le_uint bs \<and> le_uint bs < 2 ^ (8 * length bs)"
proof (induction bs)
  case Nil
  then show ?case by simp
next
  case (Cons b bs)
  have "uint b < 256" using uint_lt2p [of b] by simp
  with Cons show ?case by (simp add: power_add)
qed

lemma le_bytes_le_uint: "length bs = k \<Longrightarrow> le_bytes k (le_uint bs) = bs"
proof (induction bs arbitrary: k)
  case Nil
  then show ?case by simp
next
  case (Cons b bs)
  have b: "0 \<le> uint b" "uint b < 256" using uint_lt2p [of b] by simp_all
  then have "(uint b + 256 * le_uint bs) div 256 = le_uint bs" by simp
  moreover have "word_of_int (uint b + 256 * le_uint bs) = (word_of_int (uint b) :: byte)"
    unfolding word_of_int_eq_iff by (simp add: take_bit_eq_mod)
  ultimately show ?case using Cons by auto
qed

lemma le_sint_le_bytes: "0 < k \<Longrightarrow> le_sint (le_bytes k v) = signed_take_bit (8 * k - 1) v"
  unfolding le_sint_def le_uint_le_bytes length_le_bytes signed_take_bit_take_bit by auto

lemma le_sint_le_bytes_id:
  "0 < k \<Longrightarrow> - (2 ^ (8 * k - 1)) \<le> v \<Longrightarrow> v < 2 ^ (8 * k - 1) \<Longrightarrow> le_sint (le_bytes k v) = v"
  by (simp add: le_sint_le_bytes signed_take_bit_int_eq_self)

lemma le_sint_bounds:
  "- (2 ^ (8 * length bs - 1)) \<le> le_sint bs \<and> le_sint bs < 2 ^ (8 * length bs - 1)"
  by (simp add: le_sint_def signed_take_bit_int_greater_eq_minus_exp signed_take_bit_int_less_exp)

section \<open>Conversion to int\<close>

text \<open>What is left of a wider integer that C converts to the 32-bit type \<^verbatim>\<open>int\<close>.\<close>

definition c_int :: "int \<Rightarrow> int" where
  "c_int v = signed_take_bit 31 v"

lemma c_int_id: "- (2 ^ 31) \<le> v \<Longrightarrow> v < 2 ^ 31 \<Longrightarrow> c_int v = v"
  unfolding c_int_def by (rule signed_take_bit_int_eq_self) simp_all

lemma c_int_of_nat: "n < 2 ^ 31 \<Longrightarrow> c_int (int n) = int n"
  by (rule c_int_id) simp_all

section \<open>Characters\<close>

text \<open>The C function \<^verbatim>\<open>tolower\<close> in the C locale.\<close>

definition tolower :: "byte \<Rightarrow> byte" where
  "tolower b = (if 65 \<le> b \<and> b \<le> 90 then b + 32 else b)"

text \<open>\<^verbatim>\<open>strlen\<close> of a buffer that holds a terminator.\<close>

definition c_str :: "byte list \<Rightarrow> byte list" where
  "c_str buf = takeWhile (\<lambda>b. b \<noteq> 0) buf"

text \<open>\<^verbatim>\<open>!strcasecmp(a, name)\<close> for a name in lower case.\<close>

definition strcase_eq :: "byte list \<Rightarrow> string \<Rightarrow> bool" where
  "strcase_eq a name \<longleftrightarrow> map tolower (c_str a) = map of_char name"

end
