(* ===== verification/Endianconv.thy ===== *)
theory Endianconv
  imports Prelude
begin

text \<open>
  \<^verbatim>\<open>endianconv.c\<close>: in-place byte swaps of 16, 32 and 64 bit integers. The swaps are
  modelled statement by statement on a buffer of bytes. \<open>host_bytes\<close> is how a host of the
  given byte order lays an integer out; the \<open>intrev\<close> functions are the swaps applied to
  the bytes of their argument, on a little endian host.
\<close>

section \<open>The swaps\<close>

text \<open>\<open>t = x[i]; x[i] = x[j]; x[j] = t\<close>\<close>

definition swap_bytes :: "nat \<Rightarrow> nat \<Rightarrow> byte list \<Rightarrow> byte list option" where
  "swap_bytes i j x =
     (if i < length x \<and> j < length x then Some ((x[i := x ! j])[j := x ! i]) else None)"

definition memrev16 :: "byte list \<Rightarrow> byte list option" where
  "memrev16 x = swap_bytes 0 1 x"

definition memrev32 :: "byte list \<Rightarrow> byte list option" where
  "memrev32 x = do { x \<leftarrow> swap_bytes 0 3 x; swap_bytes 1 2 x }"

definition memrev64 :: "byte list \<Rightarrow> byte list option" where
  "memrev64 x = do {
     x \<leftarrow> swap_bytes 0 7 x;
     x \<leftarrow> swap_bytes 1 6 x;
     x \<leftarrow> swap_bytes 2 5 x;
     swap_bytes 3 4 x }"

definition intrev16 :: "16 word \<Rightarrow> 16 word option" where
  "intrev16 v = map_option (\<lambda>x. word_of_int (le_uint x)) (memrev16 (le_bytes 2 (uint v)))"

definition intrev32 :: "uint32 \<Rightarrow> uint32 option" where
  "intrev32 v = map_option (\<lambda>x. word_of_int (le_uint x)) (memrev32 (le_bytes 4 (uint v)))"

definition intrev64 :: "uint64 \<Rightarrow> uint64 option" where
  "intrev64 v = map_option (\<lambda>x. word_of_int (le_uint x)) (memrev64 (le_bytes 8 (uint v)))"

text \<open>
  The \<open>ifbe\<close> macros of the header swap on a big endian host only (\<open>big\<close> is
  \<open>BYTE_ORDER == BIG_ENDIAN\<close>).
\<close>

definition memrev16ifbe :: "bool \<Rightarrow> byte list \<Rightarrow> byte list option" where
  "memrev16ifbe big p = (if big then memrev16 p else Some p)"

definition memrev32ifbe :: "bool \<Rightarrow> byte list \<Rightarrow> byte list option" where
  "memrev32ifbe big p = (if big then memrev32 p else Some p)"

definition memrev64ifbe :: "bool \<Rightarrow> byte list \<Rightarrow> byte list option" where
  "memrev64ifbe big p = (if big then memrev64 p else Some p)"

text \<open>The layout of an integer in memory on a host of the given byte order.\<close>

definition host_bytes :: "bool \<Rightarrow> nat \<Rightarrow> int \<Rightarrow> byte list" where
  "host_bytes big k v = (if big then rev (le_bytes k v) else le_bytes k v)"

section \<open>The swaps reverse the bytes\<close>

lemma length_2_conv: "length x = 2 \<longleftrightarrow> (\<exists>a b. x = [a, b])"
  by (auto simp: numeral_eq_Suc length_Suc_conv)

lemma length_4_conv: "length x = 4 \<longleftrightarrow> (\<exists>a b c d. x = [a, b, c, d])"
  by (auto simp: numeral_eq_Suc length_Suc_conv)

lemma length_8_conv:
  "length x = 8 \<longleftrightarrow> (\<exists>a b c d e f g h. x = [a, b, c, d, e, f, g, h])"
  by (auto simp: numeral_eq_Suc length_Suc_conv)

lemma memrev16_rev: "length x = 2 \<Longrightarrow> memrev16 x = Some (rev x)"
  by (auto simp: length_2_conv memrev16_def swap_bytes_def)

lemma memrev32_rev: "length x = 4 \<Longrightarrow> memrev32 x = Some (rev x)"
  by (auto simp: length_4_conv memrev32_def swap_bytes_def)

lemma memrev64_rev: "length x = 8 \<Longrightarrow> memrev64 x = Some (rev x)"
  by (auto simp: length_8_conv memrev64_def swap_bytes_def)

lemma uint_of_le_uint:
  "length x * 8 = LENGTH('a::len) \<Longrightarrow> uint (word_of_int (le_uint x) :: 'a word) = le_uint x"
  using le_uint_bounds [of x]
  by (simp add: unsigned_of_int take_bit_int_eq_self mult.commute)

lemma word_of_le_bytes:
  "k * 8 = LENGTH('a::len) \<Longrightarrow> word_of_int (le_uint (le_bytes k (uint v))) = (v :: 'a word)"
  using uint_lt2p [of v]
  by (simp add: le_uint_le_bytes take_bit_int_eq_self mult.commute)

lemma intrev16_eq: "intrev16 v = Some (word_of_int (le_uint (rev (le_bytes 2 (uint v)))))"
  by (simp add: intrev16_def memrev16_rev)

lemma intrev32_eq: "intrev32 v = Some (word_of_int (le_uint (rev (le_bytes 4 (uint v)))))"
  by (simp add: intrev32_def memrev32_rev)

lemma intrev64_eq: "intrev64 v = Some (word_of_int (le_uint (rev (le_bytes 8 (uint v)))))"
  by (simp add: intrev64_def memrev64_rev)

text \<open>
  \<^verbatim>\<open>intrev16\<close>, \<^verbatim>\<open>intrev32\<close> and \<^verbatim>\<open>intrev64\<close> are involutions: what a host stores
  after the swap, the same host reads back by swapping again.
\<close>

theorem intrev_involution:
  "do { a \<leftarrow> intrev16 u; intrev16 a } = Some u \<and>
   do { b \<leftarrow> intrev32 v; intrev32 b } = Some v \<and>
   do { c \<leftarrow> intrev64 w; intrev64 c } = Some w"
  by (simp add: intrev16_eq intrev32_eq intrev64_eq uint_of_le_uint le_bytes_le_uint
      word_of_le_bytes del: le_bytes_numeral)

text \<open>
  On either kind of host the \<open>ifbe\<close> swaps turn the host's layout of an integer into the
  same little endian bytes, without touching memory outside the integer: the serialised form of
  intsets and ziplists does not depend on the machine.
\<close>

theorem memrev_ifbe_portable:
  "memrev16ifbe big (host_bytes big 2 v) = Some (le_bytes 2 v) \<and>
   memrev32ifbe big (host_bytes big 4 v) = Some (le_bytes 4 v) \<and>
   memrev64ifbe big (host_bytes big 8 v) = Some (le_bytes 8 v)"
  by (simp add: memrev16ifbe_def memrev32ifbe_def memrev64ifbe_def host_bytes_def
      memrev16_rev memrev32_rev memrev64_rev del: le_bytes_numeral)

end
