(* ===== verification/Intset.thy ===== *)
theory Intset
  imports Prelude
begin

text \<open>
  \<^verbatim>\<open>intset.c\<close>: a sorted array of integers in a single allocation, all elements stored
  with the same width (2, 4 or 8 bytes), which grows when an element needs it. The model keeps
  the allocation as bytes: every read and write of an element is a checked access of
  \<open>contents\<close>, so a result \<open>Some\<close> shows that the code stays inside the allocation. The
  32 bit fields and the 32 bit size computations wrap around as in C.

  First the operations in the order of the source, then the representation predicate
  \<open>intset_rep\<close>, the element access lemmas, the binary search, the in-place upgrade, and
  the interface theorem: add, remove and find implement a finite set of 64 bit integers.
\<close>

section \<open>State and operations\<close>

record intset =
  is_encoding :: uint32
  is_length :: uint32
  contents :: "byte list"

abbreviation "INTSET_ENC_INT16 \<equiv> (2 :: uint32)"
abbreviation "INTSET_ENC_INT32 \<equiv> (4 :: uint32)"
abbreviation "INTSET_ENC_INT64 \<equiv> (8 :: uint32)"

definition intsetValueEncoding :: "int64 \<Rightarrow> uint32" where
  "intsetValueEncoding v =
     (if sint v < - (2 ^ 31) \<or> sint v > 2 ^ 31 - 1 then INTSET_ENC_INT64
      else if sint v < - (2 ^ 15) \<or> sint v > 2 ^ 15 - 1 then INTSET_ENC_INT32
      else INTSET_ENC_INT16)"

definition intsetGetEncoded :: "intset \<Rightarrow> nat \<Rightarrow> uint32 \<Rightarrow> int64 option" where
  "intsetGetEncoded is pos enc =
     (if enc = INTSET_ENC_INT64 then
        map_option (\<lambda>b. word_of_int (le_sint b)) (mem_read (contents is) (8 * pos) 8)
      else if enc = INTSET_ENC_INT32 then
        map_option (\<lambda>b. word_of_int (le_sint b)) (mem_read (contents is) (4 * pos) 4)
      else
        map_option (\<lambda>b. word_of_int (le_sint b)) (mem_read (contents is) (2 * pos) 2))"

text \<open>The source's static \<^verbatim>\<open>_intsetGet\<close> and \<^verbatim>\<open>_intsetSet\<close>.\<close>

definition intsetGetAt :: "intset \<Rightarrow> nat \<Rightarrow> int64 option" where
  "intsetGetAt is pos = intsetGetEncoded is pos (is_encoding is)"

definition intsetSetAt :: "intset \<Rightarrow> nat \<Rightarrow> int64 \<Rightarrow> intset option" where
  "intsetSetAt is pos value =
     (if is_encoding is = INTSET_ENC_INT64 then
        map_option (\<lambda>c. is\<lparr>contents := c\<rparr>)
          (mem_write (contents is) (8 * pos) (le_bytes 8 (sint value)))
      else if is_encoding is = INTSET_ENC_INT32 then
        map_option (\<lambda>c. is\<lparr>contents := c\<rparr>)
          (mem_write (contents is) (4 * pos) (le_bytes 4 (sint value)))
      else
        map_option (\<lambda>c. is\<lparr>contents := c\<rparr>)
          (mem_write (contents is) (2 * pos) (le_bytes 2 (sint value))))"

definition intsetNew :: intset where
  "intsetNew = \<lparr>is_encoding = INTSET_ENC_INT16, is_length = 0, contents = []\<rparr>"

definition intsetResize :: "(nat \<Rightarrow> byte) \<Rightarrow> intset \<Rightarrow> uint32 \<Rightarrow> intset" where
  "intsetResize junk is len =
     (let size = len * is_encoding is
      in is\<lparr>contents := mem_realloc junk (contents is) (unat size)\<rparr>)"

text \<open>
  The loop of \<^verbatim>\<open>intsetSearch\<close>; \<open>min\<close>, \<open>max\<close> and \<open>mid\<close> are C ints and the
  midpoint is computed on unsigned ints. The result is the final \<open>(min, mid, cur)\<close>.
\<close>

partial_function (option) intsetSearch_loop ::
  "intset \<Rightarrow> int64 \<Rightarrow> int \<Rightarrow> int \<Rightarrow> int \<Rightarrow> int64 \<Rightarrow> (int \<times> int \<times> int64) option" where
  "intsetSearch_loop is value mn mx mid cur =
     (if mx \<ge> mn then
        let mid = ((mn mod 2 ^ 32 + mx mod 2 ^ 32) mod 2 ^ 32) div 2
        in Option.bind (intsetGetAt is (nat mid)) (\<lambda>cur.
             if sint value > sint cur then intsetSearch_loop is value (mid + 1) mx mid cur
             else if sint value < sint cur then intsetSearch_loop is value mn (mid - 1) mid cur
             else Some (mn, mid, cur))
      else Some (mn, mid, cur))"

definition intsetSearch :: "intset \<Rightarrow> int64 \<Rightarrow> (bool \<times> uint32) option" where
  "intsetSearch is value =
     (if is_length is = 0 then Some (False, 0)
      else do {
        lst \<leftarrow> intsetGetAt is (unat (is_length is - 1));
        if sint value > sint lst then Some (False, is_length is)
        else do {
          fst \<leftarrow> intsetGetAt is 0;
          if sint value < sint fst then Some (False, 0)
          else do {
            (mn, mid, cur) \<leftarrow>
              intsetSearch_loop is value 0 (sint (is_length is - 1)) (-1) (-1);
            if value = cur then Some (True, word_of_int mid)
            else Some (False, word_of_int mn)
          }
        }
      })"

text \<open>\<open>while(length--) _intsetSet(is,length+prepend,_intsetGetEncoded(is,length,curenc));\<close>\<close>

fun upgrade_loop :: "uint32 \<Rightarrow> nat \<Rightarrow> nat \<Rightarrow> intset \<Rightarrow> intset option" where
  "upgrade_loop curenc prepend 0 is = Some is"
| "upgrade_loop curenc prepend (Suc len) is = do {
     v \<leftarrow> intsetGetEncoded is len curenc;
     is \<leftarrow> intsetSetAt is (len + prepend) v;
     upgrade_loop curenc prepend len is }"

definition intsetUpgradeAndAdd :: "(nat \<Rightarrow> byte) \<Rightarrow> intset \<Rightarrow> int64 \<Rightarrow> intset option" where
  "intsetUpgradeAndAdd junk is value =
     (let curenc = is_encoding is;
          newenc = intsetValueEncoding value;
          len = unat (is_length is);
          prepend = (if sint value < 0 then 1 else 0);
          is = is\<lparr>is_encoding := newenc\<rparr>;
          is = intsetResize junk is (is_length is + 1)
      in do {
        is \<leftarrow> upgrade_loop curenc prepend len is;
        is \<leftarrow> (if prepend \<noteq> 0 then intsetSetAt is 0 value
               else intsetSetAt is (unat (is_length is)) value);
        Some (is\<lparr>is_length := is_length is + 1\<rparr>) })"

definition intsetMoveTail :: "intset \<Rightarrow> uint32 \<Rightarrow> uint32 \<Rightarrow> intset option" where
  "intsetMoveTail is from to =
     (let bytes = is_length is - from;
          width = (if is_encoding is = INTSET_ENC_INT64 then 8
                   else if is_encoding is = INTSET_ENC_INT32 then 4 else 2);
          src = width * unat from;
          dst = width * unat to;
          bytes = bytes * of_nat width
      in map_option (\<lambda>c. is\<lparr>contents := c\<rparr>) (mem_move (contents is) dst src (unat bytes)))"

text \<open>The second component of the result is \<open>*success\<close>.\<close>

definition intsetAdd :: "(nat \<Rightarrow> byte) \<Rightarrow> intset \<Rightarrow> int64 \<Rightarrow> (intset \<times> bool) option" where
  "intsetAdd junk is value =
     (let valenc = intsetValueEncoding value
      in if valenc > is_encoding is
         then map_option (\<lambda>is. (is, True)) (intsetUpgradeAndAdd junk is value)
         else do {
           (found, pos) \<leftarrow> intsetSearch is value;
           if found then Some (is, False)
           else do {
             let is = intsetResize junk is (is_length is + 1);
             is \<leftarrow> (if pos < is_length is then intsetMoveTail is pos (pos + 1) else Some is);
             is \<leftarrow> intsetSetAt is (unat pos) value;
             Some (is\<lparr>is_length := is_length is + 1\<rparr>, True)
           }
         })"

definition intsetRemove :: "(nat \<Rightarrow> byte) \<Rightarrow> intset \<Rightarrow> int64 \<Rightarrow> (intset \<times> bool) option" where
  "intsetRemove junk is value =
     (let valenc = intsetValueEncoding value
      in if valenc \<le> is_encoding is
         then do {
           (found, pos) \<leftarrow> intsetSearch is value;
           if found
           then do {
             let len = is_length is;
             is \<leftarrow> (if pos < len - 1 then intsetMoveTail is (pos + 1) pos else Some is);
             let is = intsetResize junk is (len - 1);
             Some (is\<lparr>is_length := len - 1\<rparr>, True)
           }
           else Some (is, False)
         }
         else Some (is, False))"

definition intsetFind :: "intset \<Rightarrow> int64 \<Rightarrow> bool option" where
  "intsetFind is value =
     (if intsetValueEncoding value \<le> is_encoding is
      then map_option fst (intsetSearch is value) else Some False)"

text \<open>\<open>r\<close> is the value of \<^verbatim>\<open>rand()\<close>; the remainder by 0 is undefined.\<close>

definition intsetRandom :: "uint32 \<Rightarrow> intset \<Rightarrow> int64 option" where
  "intsetRandom r is =
     (if is_length is = 0 then None else intsetGetAt is (unat (r mod is_length is)))"

text \<open>
  The outer option is the memory check of the model, the inner one the source's return value
  with \<open>*value\<close>.
\<close>

definition intsetGet :: "intset \<Rightarrow> uint32 \<Rightarrow> int64 option option" where
  "intsetGet is pos =
     (if pos < is_length is then map_option Some (intsetGetAt is (unat pos)) else Some None)"

definition intsetLen :: "intset \<Rightarrow> uint32" where
  "intsetLen is = is_length is"

text \<open>The two header fields take 8 bytes; the product is computed on 32 bits.\<close>

definition intsetBlobLen :: "intset \<Rightarrow> uint64" where
  "intsetBlobLen is = 8 + ucast (is_length is * is_encoding is)"

section \<open>Representation\<close>

text \<open>
  \<open>enc_list k xs\<close> is the array of the elements \<open>xs\<close> in \<open>k\<close> bytes each;
  \<open>fits k v\<close> says that \<open>v\<close> can be stored in \<open>k\<close> bytes.
\<close>

definition enc_list :: "nat \<Rightarrow> int64 list \<Rightarrow> byte list" where
  "enc_list k xs = concat (map (\<lambda>v. le_bytes k (sint v)) xs)"

definition fits :: "nat \<Rightarrow> int64 \<Rightarrow> bool" where
  "fits k v \<longleftrightarrow> - (2 ^ (8 * k - 1)) \<le> sint v \<and> sint v < 2 ^ (8 * k - 1)"

definition valid_enc :: "uint32 \<Rightarrow> bool" where
  "valid_enc e \<longleftrightarrow> e = INTSET_ENC_INT16 \<or> e = INTSET_ENC_INT32 \<or> e = INTSET_ENC_INT64"

text \<open>
  \<open>intset_rep is xs\<close>: the intset holds the strictly increasing list \<open>xs\<close>. The number
  of elements is below \<open>2 ^ 29\<close>, so that the 32 bit sizes the code computes do not wrap.
\<close>

definition intset_rep :: "intset \<Rightarrow> int64 list \<Rightarrow> bool" where
  "intset_rep is xs \<longleftrightarrow>
     valid_enc (is_encoding is) \<and>
     contents is = enc_list (unat (is_encoding is)) xs \<and>
     is_length is = of_nat (length xs) \<and>
     length xs < 2 ^ 29 \<and>
     (\<forall>v \<in> set xs. fits (unat (is_encoding is)) v) \<and>
     sorted_wrt (\<lambda>a b. sint a < sint b) xs"

text \<open>The elements, read back through the code's own accessor.\<close>

definition intset_elems :: "intset \<Rightarrow> int64 list" where
  "intset_elems is = map (\<lambda>i. the (intsetGetAt is i)) [0..<unat (is_length is)]"

definition intset_inv :: "intset \<Rightarrow> bool" where
  "intset_inv is \<longleftrightarrow> intset_rep is (intset_elems is)"

named_theorems intset_simps

lemma enc_list_simps [simp]:
  "enc_list k [] = []"
  "enc_list k (v # vs) = le_bytes k (sint v) @ enc_list k vs"
  "enc_list k (xs @ ys) = enc_list k xs @ enc_list k ys"
  by (simp_all add: enc_list_def)

lemma length_enc_list [simp]: "length (enc_list k xs) = k * length xs"
  by (induction xs) (auto simp: algebra_simps)

lemma valid_enc_cases:
  assumes "valid_enc e"
  obtains "e = 2" "unat e = 2" | "e = 4" "unat e = 4" | "e = 8" "unat e = 8"
  using assms by (auto simp: valid_enc_def)

lemma valid_enc_width:
  "valid_enc e \<Longrightarrow> (if e = INTSET_ENC_INT64 then 8 else if e = INTSET_ENC_INT32 then 4 else 2) = unat e"
  by (elim valid_enc_cases) simp_all

lemma valid_encD: "valid_enc e \<Longrightarrow> 0 < unat e \<and> unat e \<le> 8"
  by (elim valid_enc_cases) simp_all

lemma get_encoded_eq:
  "valid_enc e \<Longrightarrow> intsetGetEncoded is pos e =
     map_option (\<lambda>b. word_of_int (le_sint b)) (mem_read (contents is) (unat e * pos) (unat e))"
  by (elim valid_enc_cases) (simp_all add: intsetGetEncoded_def)

lemma set_at_eq:
  "valid_enc (is_encoding is) \<Longrightarrow> intsetSetAt is pos v =
     map_option (\<lambda>c. is\<lparr>contents := c\<rparr>)
       (mem_write (contents is) (unat (is_encoding is) * pos)
         (le_bytes (unat (is_encoding is)) (sint v)))"
  by (elim valid_enc_cases) (simp_all add: intsetSetAt_def)

lemma word_of_le_sint:
  "0 < k \<Longrightarrow> fits k v \<Longrightarrow> word_of_int (le_sint (le_bytes k (sint v))) = v"
  by (simp add: fits_def le_sint_le_bytes_id)

text \<open>Reading element \<open>i\<close> of a buffer that starts with an array of \<open>k\<close>-byte elements.\<close>

lemma read_element:
  assumes "i < length xs"
  shows "mem_read (enc_list k xs @ ys) (k * i) k = Some (le_bytes k (sint (xs ! i)))"
proof -
  have "xs = take i xs @ xs ! i # drop (Suc i) xs"
    using assms by (rule id_take_nth_drop)
  then have "enc_list k xs = enc_list k (take i xs) @ le_bytes k (sint (xs ! i)) @
      enc_list k (drop (Suc i) xs)"
    by (metis enc_list_simps(2,3))
  then show ?thesis
    using assms by (simp add: mem_read_middle)
qed

lemma get_element:
  assumes "valid_enc e" "i < length xs" "\<forall>v \<in> set xs. fits (unat e) v"
    "contents is = enc_list (unat e) xs @ ys"
  shows "intsetGetEncoded is i e = Some (xs ! i)"
  using assms valid_encD [of e]
  by (simp add: get_encoded_eq read_element word_of_le_sint)

lemma rep_get_at:
  "intset_rep is xs \<Longrightarrow> i < length xs \<Longrightarrow> intsetGetAt is i = Some (xs ! i)"
  unfolding intsetGetAt_def intset_rep_def by (rule get_element [where ys = "[]"]) auto

lemma rep_length: "intset_rep is xs \<Longrightarrow> unat (is_length is) = length xs"
  unfolding intset_rep_def by (simp add: unat_of_nat_small)

lemma rep_elems: "intset_rep is xs \<Longrightarrow> intset_elems is = xs"
  by (rule nth_equalityI) (auto simp: intset_elems_def rep_length [of "is" xs] rep_get_at [of "is" xs])

lemma rep_inv: "intset_rep is xs \<Longrightarrow> intset_inv is"
  by (simp add: intset_inv_def rep_elems)

lemma intset_new_rep: "intset_rep intsetNew []"
  by (simp add: intset_rep_def intsetNew_def valid_enc_def)

section \<open>Binary search\<close>

text \<open>\<open>split_at xs v p\<close>: \<open>p\<close> is where \<open>v\<close> belongs in the sorted list \<open>xs\<close>.\<close>

definition split_at :: "int64 list \<Rightarrow> int64 \<Rightarrow> nat \<Rightarrow> bool" where
  "split_at xs v p \<longleftrightarrow> p \<le> length xs \<and>
     (\<forall>i < p. sint (xs ! i) < sint v) \<and> (\<forall>i < length xs. p \<le> i \<longrightarrow> sint v < sint (xs ! i))"

lemma split_at_not_in: "split_at xs v p \<Longrightarrow> v \<notin> set xs"
  by (fastforce simp: split_at_def in_set_conv_nth not_less)

lemma sorted_nth_less:
  assumes "sorted_wrt (\<lambda>a b. sint a < sint b) xs" "i < j" "j < length xs"
  shows "sint (xs ! i) < sint (xs ! j)"
  using assms by (rule sorted_wrt_nth_less)

text \<open>The state of the loop: everything before \<open>mn\<close> is smaller, everything after \<open>mx\<close> larger.\<close>

definition search_inv :: "int64 list \<Rightarrow> int64 \<Rightarrow> int \<Rightarrow> int \<Rightarrow> bool" where
  "search_inv xs v mn mx \<longleftrightarrow> 0 \<le> mn \<and> mn \<le> mx + 1 \<and> mx < int (length xs) \<and>
     (\<forall>i. int i < mn \<longrightarrow> sint (xs ! i) < sint v) \<and>
     (\<forall>i < length xs. mx < int i \<longrightarrow> sint v < sint (xs ! i))"

lemma search_inv_done: "search_inv xs v mn mx \<Longrightarrow> mx < mn \<Longrightarrow> split_at xs v (nat mn)"
  by (auto simp: search_inv_def split_at_def)

lemma search_inv_up:
  assumes "sorted_wrt (\<lambda>a b. sint a < sint b) xs" "search_inv xs v mn mx"
    "mn \<le> mid" "mid \<le> mx" "sint (xs ! nat mid) < sint v"
  shows "search_inv xs v (mid + 1) mx"
proof -
  have "sint (xs ! i) < sint v" if "int i < mid + 1" for i
  proof (cases "i = nat mid")
    case False
    then have "i < nat mid" "nat mid < length xs"
      using that assms by (auto simp: search_inv_def)
    with sorted_nth_less [OF assms(1)] assms(5) show ?thesis by fastforce
  qed (use assms in simp)
  with assms show ?thesis by (auto simp: search_inv_def)
qed

lemma search_inv_down:
  assumes "sorted_wrt (\<lambda>a b. sint a < sint b) xs" "search_inv xs v mn mx"
    "mn \<le> mid" "mid \<le> mx" "sint v < sint (xs ! nat mid)"
  shows "search_inv xs v mn (mid - 1)"
proof -
  have "sint v < sint (xs ! i)" if "i < length xs" "mid - 1 < int i" for i
  proof (cases "i = nat mid")
    case False
    then have "nat mid < i" using that assms by (auto simp: search_inv_def)
    with sorted_nth_less [OF assms(1) _ that(1)] assms(5) show ?thesis by fastforce
  qed (use assms in simp)
  with assms show ?thesis by (auto simp: search_inv_def)
qed

fun search_ok :: "int64 list \<Rightarrow> int64 \<Rightarrow> int \<times> int \<times> int64 \<Rightarrow> bool" where
  "search_ok xs v (mn, mid, cur) \<longleftrightarrow>
     (if v = cur then 0 \<le> mid \<and> nat mid < length xs \<and> xs ! nat mid = v
      else 0 \<le> mn \<and> split_at xs v (nat mn))"

lemma search_loop_correct:
  assumes rep: "intset_rep is xs"
  shows "search_inv xs v mn mx \<Longrightarrow> mn \<le> mx \<or> v \<noteq> cur \<Longrightarrow>
    \<exists>r. intsetSearch_loop is v mn mx mid cur = Some r \<and> search_ok xs v r"
proof (induction "nat (mx - mn + 1)" arbitrary: mn mx mid cur rule: less_induct)
  case less
  show ?case
  proof (cases "mn \<le> mx")
    case False
    with less.prems search_inv_done [of xs v mn mx] show ?thesis
      by (subst intsetSearch_loop.simps) (auto simp: search_inv_def)
  next
    case True
    define m where "m = (mn + mx) div 2"
    have srt: "sorted_wrt (\<lambda>a b. sint a < sint b) xs" and small: "length xs < 2 ^ 29"
      using rep by (simp_all add: intset_rep_def)
    have b: "0 \<le> mn" "mx < int (length xs)" using less.prems(1) by (auto simp: search_inv_def)
    have m: "mn \<le> m" "m \<le> mx" using True by (auto simp: m_def)
    have mid: "((mn mod 2 ^ 32 + mx mod 2 ^ 32) mod 2 ^ 32) div 2 = m"
      using b True small by (simp add: m_def)
    have get: "intsetGetAt is (nat m) = Some (xs ! nat m)"
      using rep b m by (intro rep_get_at) auto
    have step: "intsetSearch_loop is v mn mx mid cur =
        (if sint v > sint (xs ! nat m) then intsetSearch_loop is v (m + 1) mx m (xs ! nat m)
         else if sint v < sint (xs ! nat m) then intsetSearch_loop is v mn (m - 1) m (xs ! nat m)
         else Some (mn, m, xs ! nat m))" for mid cur
      by (subst intsetSearch_loop.simps) (simp add: True mid [simplified] get)
    consider "sint (xs ! nat m) < sint v" | "sint v < sint (xs ! nat m)" | "v = xs ! nat m"
      by (metis linorder_neqE sint_sbintrunc' signed_word_eqI)
    then show ?thesis
    proof cases
      case 1
      have "search_inv xs v (m + 1) mx" using srt less.prems(1) m 1 by (rule search_inv_up)
      moreover have "v \<noteq> xs ! nat m" using 1 by auto
      ultimately show ?thesis
        using less.hyps [of mx "m + 1" "xs ! nat m" m] 1 m
        by (simp add: step del: search_ok.simps split_paired_Ex)
    next
      case 2
      have "search_inv xs v mn (m - 1)" using srt less.prems(1) m 2 by (rule search_inv_down)
      moreover have "v \<noteq> xs ! nat m" using 2 by auto
      ultimately show ?thesis
        using less.hyps [of "m - 1" mn "xs ! nat m" m] 2 m
        by (simp add: step del: search_ok.simps split_paired_Ex)
    next
      case 3
      then have "intsetSearch_loop is v mn mx mid cur = Some (mn, m, v)"
        unfolding step by simp
      moreover have "search_ok xs v (mn, m, v)" using 3 b m by simp
      ultimately show ?thesis by blast
    qed
  qed
qed

text \<open>What \<^verbatim>\<open>intsetSearch\<close> returns: the position of the value, or where to insert it.\<close>

definition search_result :: "int64 list \<Rightarrow> int64 \<Rightarrow> bool \<times> uint32 \<Rightarrow> bool" where
  "search_result xs v r \<longleftrightarrow>
     (if fst r then unat (snd r) < length xs \<and> xs ! unat (snd r) = v
      else split_at xs v (unat (snd r)))"

lemma sorted_split_ends:
  assumes srt: "sorted_wrt (\<lambda>a b. sint a < sint b) xs" and ne: "xs \<noteq> []"
  shows "sint (xs ! (length xs - 1)) < sint v \<Longrightarrow> split_at xs v (length xs)"
    and "sint v < sint (xs ! 0) \<Longrightarrow> split_at xs v 0"
proof -
  show "split_at xs v (length xs)" if v: "sint (xs ! (length xs - 1)) < sint v"
  proof -
    have "sint (xs ! i) < sint v" if i: "i < length xs" for i
    proof (cases "i = length xs - 1")
      case False
      then have "sint (xs ! i) < sint (xs ! (length xs - 1))"
        using i by (intro sorted_nth_less [OF srt]) auto
      with v show ?thesis by simp
    qed (use v in simp)
    then show ?thesis by (simp add: split_at_def)
  qed
  show "split_at xs v 0" if v: "sint v < sint (xs ! 0)"
  proof -
    have "sint v < sint (xs ! i)" if i: "i < length xs" for i
    proof (cases "i = 0")
      case False
      then have "sint (xs ! 0) < sint (xs ! i)"
        using i by (intro sorted_nth_less [OF srt]) auto
      with v show ?thesis by simp
    qed (use v in simp)
    then show ?thesis by (simp add: split_at_def)
  qed
qed

lemma rep_length_minus_1:
  assumes "intset_rep is xs" "xs \<noteq> []"
  shows "unat (is_length is - 1) = length xs - 1" "sint (is_length is - 1) = int (length xs) - 1"
proof -
  have len: "unat (is_length is) = length xs" and small: "length xs < 2 ^ 29"
    using assms rep_length by (auto simp: intset_rep_def)
  then have "is_length is \<noteq> 0" using assms(2) by auto
  then show u: "unat (is_length is - 1) = length xs - 1"
    using len by (simp add: unat_minus_one)
  have "uint (is_length is - 1) = int (length xs) - 1"
    using u assms(2) by (metis Suc_diff_1 int_ops(4) length_greater_0_conv of_nat_Suc uint_nat
        add_diff_cancel_left' add.commute)
  then show "sint (is_length is - 1) = int (length xs) - 1"
    using small by (simp add: sint_uint signed_take_bit_int_eq_self)
qed

lemma search_correct:
  assumes rep: "intset_rep is xs"
  shows "\<exists>r. intsetSearch is v = Some r \<and> search_result xs v r"
proof (cases "xs = []")
  case True
  with rep show ?thesis
    by (simp add: intset_rep_def intsetSearch_def search_result_def split_at_def)
next
  case False
  note ln = rep_length_minus_1 [OF rep False]
  have srt: "sorted_wrt (\<lambda>a b. sint a < sint b) xs" and small: "length xs < 2 ^ 29"
    using rep by (simp_all add: intset_rep_def)
  have len: "unat (is_length is) = length xs" using rep by (rule rep_length)
  then have nz: "is_length is \<noteq> 0" using False by auto
  have lst: "intsetGetAt is (unat (is_length is - 1)) = Some (xs ! (length xs - 1))"
    and fst: "intsetGetAt is 0 = Some (xs ! 0)"
    using rep False ln by (simp_all add: rep_get_at)
  have "search_inv xs v 0 (int (length xs) - 1)"
    using False by (auto simp: search_inv_def)
  then obtain mn mid cur where
    loop: "intsetSearch_loop is v 0 (int (length xs) - 1) (-1) (-1) = Some (mn, mid, cur)"
    and ok: "search_ok xs v (mn, mid, cur)"
    using search_loop_correct [OF rep, of v 0 "int (length xs) - 1" "-1" "-1"] False
    by (auto simp: Suc_leI simp del: search_ok.simps)
  have w: "unat (word_of_int i :: uint32) = nat i" if "0 \<le> i" "nat i \<le> length xs" for i
    using that small by (intro unat_word_of_int_small) auto
  consider (hi) "sint (xs ! (length xs - 1)) < sint v" | (lo) "\<not> sint (xs ! (length xs - 1)) < sint v"
      "sint v < sint (xs ! 0)" | (mid) "\<not> sint (xs ! (length xs - 1)) < sint v"
      "\<not> sint v < sint (xs ! 0)"
    by blast
  then show ?thesis
  proof cases
    case hi
    then show ?thesis
      using sorted_split_ends(1) [OF srt False]
      by (simp add: intsetSearch_def nz lst search_result_def len)
  next
    case lo
    then show ?thesis
      using sorted_split_ends(2) [OF srt False]
      by (simp add: intsetSearch_def nz lst fst search_result_def)
  next
    case mid
    then have "intsetSearch is v =
        Some (if v = cur then (True, word_of_int mid) else (False, word_of_int mn))"
      by (simp add: intsetSearch_def nz lst fst ln(2) loop)
    then show ?thesis
      using ok w [of mid] w [of mn] by (auto simp: search_result_def split_at_def)
  qed
qed

section \<open>Encodings\<close>

lemma value_encoding_valid: "valid_enc (intsetValueEncoding v)"
  by (simp add: intsetValueEncoding_def valid_enc_def)

lemma sint64_bounds: "- (2 ^ 63) \<le> sint (v :: int64)" "sint (v :: int64) < 2 ^ 63"
  using sint_ge [of v] sint_lt [of v] by simp_all

lemma value_encoding_fits: "fits (unat (intsetValueEncoding v)) v"
  using sint64_bounds [of v] by (simp add: intsetValueEncoding_def fits_def)

lemma value_encoding_least: "valid_enc e \<Longrightarrow> fits (unat e) v \<Longrightarrow> intsetValueEncoding v \<le> e"
  by (elim valid_enc_cases) (auto simp: intsetValueEncoding_def fits_def)

lemma fits_mono: "fits k v \<Longrightarrow> k \<le> l \<Longrightarrow> fits l v"
proof -
  assume f: "fits k v" and kl: "k \<le> l"
  have "(2::int) ^ (8 * k - 1) \<le> 2 ^ (8 * l - 1)"
    using kl by (intro power_increasing) auto
  with f show ?thesis unfolding fits_def by linarith
qed

lemma fits_encoding_iff:
  "valid_enc e \<Longrightarrow> fits (unat e) v \<longleftrightarrow> intsetValueEncoding v \<le> e"
  using value_encoding_least [of e v] value_encoding_fits [of v]
  by (metis fits_mono word_le_nat_alt)

text \<open>A value that needs a wider encoding lies outside the range of the stored ones.\<close>

lemma wider_value_outside:
  assumes e: "valid_enc e" and v: "\<not> fits (unat e) v" and xs: "\<forall>x \<in> set xs. fits (unat e) x"
  shows "split_at xs v (if sint v < 0 then 0 else length xs)"
proof -
  define M :: int where "M = 2 ^ (8 * unat e - 1)"
  have x: "- M \<le> sint (xs ! i) \<and> sint (xs ! i) < M" if "i < length xs" for i
    using xs nth_mem [OF that] unfolding fits_def M_def by blast
  have "0 < M" by (simp add: M_def)
  moreover have "sint v < - M \<or> M \<le> sint v" using v unfolding fits_def M_def by linarith
  ultimately show ?thesis
    unfolding split_at_def using x by fastforce
qed

section \<open>The in-place upgrade\<close>

lemma upgrade_loop_correct:
  assumes c: "valid_enc c" and fit: "\<forall>x \<in> set xs. fits (unat c) x"
  shows "valid_enc (is_encoding is) \<Longrightarrow> unat c \<le> unat (is_encoding is) \<Longrightarrow> n \<le> length xs \<Longrightarrow>
    unat (is_encoding is) * (n + p) \<le> length (contents is) \<Longrightarrow>
    take (unat c * n) (contents is) = enc_list (unat c) (take n xs) \<Longrightarrow>
    \<exists>cs. upgrade_loop c p n is = Some (is\<lparr>contents := cs\<rparr>) \<and> length cs = length (contents is) \<and>
      drop (unat (is_encoding is) * p) cs =
        enc_list (unat (is_encoding is)) (take n xs) @
        drop (unat (is_encoding is) * (n + p)) (contents is)"
proof (induction n arbitrary: "is")
  case 0
  then show ?case by (intro exI [of _ "contents is"]) simp
next
  case (Suc n)
  let ?w = "unat (is_encoding is)" and ?c = "unat c" and ?b = "contents is"
  let ?e = "le_bytes ?w (sint (xs ! n))"
  define b' where "b' = take (?w * (n + p)) ?b @ ?e @ drop (?w * (n + p) + ?w) ?b"
  have len: "?w * (n + p) + ?w \<le> length ?b" using Suc.prems(4) by (simp add: algebra_simps)
  have cw: "?c * n \<le> ?w * (n + p)"
    using Suc.prems(2) by (simp add: mult_le_mono)
  have split: "?b = enc_list ?c (take (Suc n) xs) @ drop (?c * Suc n) ?b"
    using Suc.prems(5) append_take_drop_id by metis
  have get: "intsetGetEncoded is n c = Some (xs ! n)"
  proof -
    have "intsetGetEncoded is n c = Some (take (Suc n) xs ! n)"
      using c _ _ split
      by (rule get_element) (use Suc.prems(3) fit in \<open>auto dest: in_set_takeD\<close>)
    then show ?thesis by simp
  qed
  have set: "intsetSetAt is (n + p) (xs ! n) = Some (is\<lparr>contents := b'\<rparr>)"
    using Suc.prems(1) len by (simp add: set_at_eq mem_write_Some b'_def)
  have len': "length b' = length ?b" using len by (simp add: b'_def)
  have "take (?c * n) b' = take (?c * n) ?b"
    using cw len by (simp add: b'_def min_absorb1)
  also have "\<dots> = take (?c * n) (take (?c * Suc n) ?b)" by (simp add: min_absorb1)
  also have "\<dots> = enc_list ?c (take n xs)"
    using Suc.prems(3,5) by (simp add: take_Suc_conv_app_nth)
  finally have tk: "take (?c * n) b' = enc_list ?c (take n xs)" .
  have dr: "drop (?w * (n + p)) b' = ?e @ drop (?w * (Suc n + p)) ?b"
    using len by (simp add: b'_def algebra_simps)
  obtain cs where cs: "upgrade_loop c p n (is\<lparr>contents := b'\<rparr>) = Some (is\<lparr>contents := cs\<rparr>)"
    "length cs = length b'" "drop (?w * p) cs = enc_list ?w (take n xs) @ drop (?w * (n + p)) b'"
    using Suc.IH [of "is\<lparr>contents := b'\<rparr>"] Suc.prems len len' tk by auto
  then show ?case
    using get set len' dr Suc.prems(3)
    by (auto simp: take_Suc_conv_app_nth intro!: exI [of _ cs])
qed

section \<open>Adding and removing\<close>

definition insert_at :: "nat \<Rightarrow> 'a \<Rightarrow> 'a list \<Rightarrow> 'a list" where
  "insert_at p v xs = take p xs @ v # drop p xs"

lemma length_insert_at [simp]: "length (insert_at p v xs) = Suc (length xs)"
  by (simp add: insert_at_def)

lemma set_insert_at [simp]: "set (insert_at p v xs) = insert v (set xs)"
  unfolding insert_at_def by (metis Un_insert_right append_take_drop_id list.simps(15) set_append)

lemma sorted_insert_at:
  assumes "sorted_wrt (\<lambda>a b. sint a < sint b) xs" "split_at xs v p"
  shows "sorted_wrt (\<lambda>a b. sint a < sint b) (insert_at p v xs)"
proof -
  have "sorted_wrt (\<lambda>a b. sint a < sint b) (take p xs @ drop p xs)" using assms(1) by simp
  moreover have "\<forall>x \<in> set (take p xs). sint x < sint v" "\<forall>x \<in> set (drop p xs). sint v < sint x"
    using assms(2) by (auto simp: split_at_def in_set_conv_nth)
  ultimately show ?thesis
    unfolding insert_at_def sorted_wrt_append by (auto simp del: append_take_drop_id)
qed

lemma unat_size:
  "n < 2 ^ 29 \<Longrightarrow> valid_enc e \<Longrightarrow> unat (of_nat n * e) = unat e * n"
proof -
  assume n: "n < 2 ^ 29" and e: "valid_enc e"
  have u: "unat (of_nat n :: uint32) = n" using n by (simp add: unat_of_nat_small)
  have "n * unat e \<le> n * 8" using valid_encD [OF e] by (intro mult_le_mono2) simp
  also have "n * 8 < 2 ^ 32" using n by simp
  finally have "n * unat e < 2 ^ 32" .
  then have "unat (of_nat n * e) = n * unat e"
    using unat_mult_lem [of "of_nat n" e] by (simp add: u)
  then show ?thesis by simp
qed

text \<open>
  The resulting representation: given the bytes, the other conditions of \<open>intset_rep\<close> follow.
\<close>

lemma rep_insertI:
  assumes "sorted_wrt (\<lambda>a b. sint a < sint b) xs" "split_at xs v p" "Suc (length xs) < 2 ^ 29"
    "valid_enc e" "\<forall>x \<in> set xs. fits (unat e) x" "fits (unat e) v"
    "is_encoding is = e" "contents is = enc_list (unat e) (insert_at p v xs)"
    "is_length is = of_nat (Suc (length xs))"
  shows "intset_rep is (insert_at p v xs)"
  using assms sorted_insert_at [OF assms(1,2)] by (simp add: intset_rep_def)

lemma resize_grow:
  assumes "valid_enc e" "length (contents is) \<le> unat e * Suc n" "Suc n < 2 ^ 29" "is_encoding is = e"
    "l = of_nat n"
  obtains J where "intsetResize junk is (l + 1) = is\<lparr>contents := contents is @ J\<rparr>"
    "length (contents is @ J) = unat e * Suc n"
proof -
  have "unat ((l + 1) * e) = unat e * Suc n"
    using unat_size [of "Suc n" e] assms by (simp add: add.commute)
  then have r: "intsetResize junk is (l + 1) =
      is\<lparr>contents := mem_realloc junk (contents is) (unat e * Suc n)\<rparr>"
    using assms(4) by (simp add: intsetResize_def)
  obtain J where "mem_realloc junk (contents is) (unat e * Suc n) = contents is @ J"
    using mem_realloc_grow [OF assms(2)] by blast
  moreover from this have "length (contents is @ J) = unat e * Suc n"
    by (metis length_mem_realloc)
  ultimately show ?thesis using r by (intro that) simp_all
qed

lemma upgrade_add_rep:
  assumes rep: "intset_rep is xs" and wide: "is_encoding is < intsetValueEncoding v"
    and room: "Suc (length xs) < 2 ^ 29"
  shows "\<exists>is'. intsetUpgradeAndAdd junk is v = Some is' \<and>
    intset_rep is' (insert_at (if sint v < 0 then 0 else length xs) v xs) \<and>
    is_encoding is' = intsetValueEncoding v"
proof -
  let ?e = "intsetValueEncoding v" and ?c = "is_encoding is"
  let ?w = "unat ?e"
  define p :: nat where "p = (if sint v < 0 then 1 else 0)"
  have e: "valid_enc ?e" and c: "valid_enc ?c" using rep by (simp_all add: value_encoding_valid intset_rep_def)
  have cw: "unat ?c \<le> ?w" using wide by (simp add: word_less_nat_alt)
  have fit: "\<forall>x \<in> set xs. fits (unat ?c) x" and cont: "contents is = enc_list (unat ?c) xs"
    and l: "is_length is = of_nat (length xs)" and ul: "unat (is_length is) = length xs"
    and srt: "sorted_wrt (\<lambda>a b. sint a < sint b) xs"
    using rep rep_length [OF rep] by (simp_all add: intset_rep_def)
  have nf: "\<not> fits (unat ?c) v" using wide fits_encoding_iff [OF c] by (simp add: not_le)
  have spl: "split_at xs v (if sint v < 0 then 0 else length xs)"
    using c nf fit by (rule wider_value_outside)
  have fit': "\<forall>x \<in> set xs. fits ?w x" using fit cw fits_mono by blast
  let ?is = "is\<lparr>is_encoding := ?e\<rparr>"
  have "length (contents ?is) \<le> ?w * Suc (length xs)"
    using cw by (simp add: cont) (meson le_trans mult_le_mono1 trans_le_add2)
  then obtain J where J: "intsetResize junk ?is (is_length is + 1) = ?is\<lparr>contents := contents is @ J\<rparr>"
    and lJ: "length (contents is @ J) = ?w * Suc (length xs)"
    using resize_grow [OF e, of ?is "length xs" "is_length is" junk] room l by auto
  define B where "B = contents is @ J"
  have pB: "?w * (length xs + p) \<le> length B"
    unfolding B_def lJ by (intro mult_le_mono2) (simp add: p_def)
  have tB: "take (unat ?c * length xs) B = enc_list (unat ?c) xs" by (simp add: B_def cont)
  obtain cs where up: "upgrade_loop ?c p (length xs) (?is\<lparr>contents := B\<rparr>) =
      Some (?is\<lparr>contents := cs\<rparr>)" and lcs: "length cs = ?w * Suc (length xs)"
    and dcs: "drop (?w * p) cs = enc_list ?w xs @ drop (?w * (length xs + p)) B"
    using upgrade_loop_correct [OF c fit, of "?is\<lparr>contents := B\<rparr>" "length xs" p]
      e cw pB tB lJ [folded B_def] by auto
  note upg = up [unfolded p_def B_def]
  show ?thesis
  proof (cases "sint v < 0")
    case True
    have "take ?w cs @ drop ?w cs = cs" by simp
    moreover have "drop ?w cs = enc_list ?w xs" using dcs True lJ by (simp add: p_def B_def)
    ultimately have "mem_write cs 0 (le_bytes ?w (sint v)) = Some (le_bytes ?w (sint v) @ enc_list ?w xs)"
      using lcs by (simp add: mem_write_Some)
    then show ?thesis
      using True upg J ul e rep_insertI [OF srt spl room e fit' value_encoding_fits [of v]]
      by (simp add: intsetUpgradeAndAdd_def Let_def set_at_eq insert_at_def l)
  next
    case False
    have "mem_write cs (?w * length xs) (le_bytes ?w (sint v)) =
        Some (enc_list ?w xs @ le_bytes ?w (sint v))"
      using dcs False lcs lJ by (simp add: mem_write_Some p_def)
    then show ?thesis
      using False upg J ul e rep_insertI [OF srt spl room e fit' value_encoding_fits [of v]]
      by (simp add: intsetUpgradeAndAdd_def Let_def set_at_eq insert_at_def l)
  qed
qed

lemma move_tail_right:
  assumes "contents is = enc_list w xs @ J" "length J = w" "w = unat (is_encoding is)"
    "valid_enc (is_encoding is)" "is_length is = of_nat (length xs)" "Suc (length xs) < 2 ^ 29"
    "unat pos \<le> length xs"
  shows "\<exists>X. length X = w \<and> intsetMoveTail is pos (pos + 1) =
    Some (is\<lparr>contents := enc_list w (take (unat pos) xs) @ X @ enc_list w (drop (unat pos) xs)\<rparr>)"
proof -
  let ?p = "unat pos" and ?A = "enc_list w (take (unat pos) xs)" and ?B = "enc_list w (drop (unat pos) xs)"
  have AB: "contents is = ?A @ ?B @ J"
    using assms(1) by (metis append_assoc append_take_drop_id enc_list_simps(3))
  have p1: "unat (pos + 1) = Suc ?p"
    using assms(6,7) by (simp add: unat_word_ariths(1))
  have pos: "pos = of_nat ?p" by simp
  have "unat ((is_length is - pos) * of_nat w) = w * (length xs - ?p)"
  proof -
    have "is_length is - pos = of_nat (length xs - ?p)"
      using assms(5,7) by (metis of_nat_diff pos)
    then show ?thesis
      using unat_size [of "length xs - ?p" "is_encoding is"] assms(3,4,6) by simp
  qed
  then have mv: "intsetMoveTail is pos (pos + 1) =
      map_option (\<lambda>c. is\<lparr>contents := c\<rparr>) (mem_move (contents is) (w * Suc ?p) (w * ?p) (length ?B))"
    using assms(3) valid_enc_width [OF assms(4)]
    by (simp add: intsetMoveTail_def Let_def p1)
  have "mem_move (contents is) (w * ?p + w) (w * ?p) (length ?B) = Some (?A @ take w (?B @ J) @ ?B)"
    unfolding AB using assms(2,7) by (intro mem_move_up) simp_all
  then show ?thesis
    using assms(2) unfolding mv by (intro exI [of _ "take w (?B @ J)"]) (simp add: add.commute)
qed

lemma add_rep:
  assumes rep: "intset_rep is xs" and room: "Suc (length xs) < 2 ^ 29"
  shows "\<exists>is' p. intsetAdd junk is v = Some (is', v \<notin> set xs) \<and>
    intset_rep is' (if v \<in> set xs then xs else insert_at p v xs) \<and>
    is_encoding is' = max (is_encoding is) (intsetValueEncoding v)"
proof (cases "is_encoding is < intsetValueEncoding v")
  case True
  have "\<not> fits (unat (is_encoding is)) v"
    using True fits_encoding_iff [of "is_encoding is" v] rep by (simp add: intset_rep_def not_le)
  then have "v \<notin> set xs" using rep by (auto simp: intset_rep_def)
  moreover obtain is' where "intsetUpgradeAndAdd junk is v = Some is'"
    "intset_rep is' (insert_at (if sint v < 0 then 0 else length xs) v xs)"
    "is_encoding is' = intsetValueEncoding v"
    using upgrade_add_rep [OF rep True room] by blast
  ultimately show ?thesis
    using True by (auto simp: intsetAdd_def Let_def max_def)
next
  case False
  let ?e = "is_encoding is" and ?w = "unat (is_encoding is)"
  have e: "valid_enc ?e" and cont: "contents is = enc_list ?w xs"
    and l: "is_length is = of_nat (length xs)" and fit: "\<forall>x \<in> set xs. fits ?w x"
    and srt: "sorted_wrt (\<lambda>a b. sint a < sint b) xs"
    using rep by (simp_all add: intset_rep_def)
  have fv: "fits ?w v" using False fits_encoding_iff [OF e] by (simp add: not_less)
  have mx: "max ?e (intsetValueEncoding v) = ?e" using False by (simp add: max_def)
  obtain found pos where s: "intsetSearch is v = Some (found, pos)" "search_result xs v (found, pos)"
    using search_correct [OF rep] by fastforce
  show ?thesis
  proof (cases found)
    case True
    then have "v \<in> set xs" using s(2) by (auto simp: search_result_def)
    with True s(1) False rep mx show ?thesis by (auto simp: intsetAdd_def Let_def)
  next
    case nf: False
    then have spl: "split_at xs v (unat pos)" using s(2) by (simp add: search_result_def)
    then have nin: "v \<notin> set xs" by (rule split_at_not_in)
    have pl: "unat pos \<le> length xs" using spl by (simp add: split_at_def)
    obtain J where J: "intsetResize junk is (is_length is + 1) = is\<lparr>contents := contents is @ J\<rparr>"
      and lJ: "length (contents is @ J) = ?w * Suc (length xs)"
      using resize_grow [OF e, of "is" "length xs" "is_length is" junk] room l cont by auto
    have J': "length J = ?w" using lJ cont by simp
    define is1 where "is1 = is\<lparr>contents := contents is @ J\<rparr>"
    have ul: "unat (is_length is) = length xs" using rep by (rule rep_length)
    have "\<exists>X. length X = ?w \<and>
        (if pos < is_length is1 then intsetMoveTail is1 pos (pos + 1) else Some is1) =
        Some (is\<lparr>contents := enc_list ?w (take (unat pos) xs) @ X @ enc_list ?w (drop (unat pos) xs)\<rparr>)"
    proof (cases "pos < is_length is1")
      case True
      have "\<exists>X. length X = ?w \<and> intsetMoveTail is1 pos (pos + 1) = Some (is1\<lparr>contents :=
          enc_list ?w (take (unat pos) xs) @ X @ enc_list ?w (drop (unat pos) xs)\<rparr>)"
        by (rule move_tail_right [where J = J]) (use room in \<open>simp_all add: is1_def J' cont e l pl\<close>)
      with True show ?thesis by (simp add: is1_def)
    next
      case False
      then have "unat pos = length xs" using pl ul by (simp add: is1_def word_less_nat_alt)
      then show ?thesis using False J' cont by (auto simp: is1_def)
    qed
    then obtain X where X: "length X = ?w"
      and mv: "(if pos < is_length is1 then intsetMoveTail is1 pos (pos + 1) else Some is1) =
        Some (is\<lparr>contents := enc_list ?w (take (unat pos) xs) @ X @ enc_list ?w (drop (unat pos) xs)\<rparr>)"
      by blast
    have wr: "mem_write (enc_list ?w (take (unat pos) xs) @ X @ enc_list ?w (drop (unat pos) xs))
        (?w * unat pos) (le_bytes ?w (sint v)) = Some (enc_list ?w (insert_at (unat pos) v xs))"
      using X pl by (subst mem_write_middle) (simp_all add: insert_at_def)
    have "intsetAdd junk is v = Some (\<lparr>is_encoding = ?e, is_length = is_length is + 1,
        contents = enc_list ?w (insert_at (unat pos) v xs)\<rparr>, True)"
      using False s(1) nf mv J e wr
      by (simp add: intsetAdd_def Let_def is1_def [symmetric] set_at_eq)
    moreover have "intset_rep \<lparr>is_encoding = ?e, is_length = is_length is + 1,
        contents = enc_list ?w (insert_at (unat pos) v xs)\<rparr> (insert_at (unat pos) v xs)"
      using srt spl room e fit fv by (rule rep_insertI) (simp_all add: l)
    ultimately show ?thesis using nin mx by auto
  qed
qed

lemma move_tail_left:
  assumes "contents is = enc_list w (xs @ y # ys)" "w = unat (is_encoding is)"
    "valid_enc (is_encoding is)" "is_length is = of_nat (Suc (length xs + length ys))"
    "Suc (length xs + length ys) < 2 ^ 29" "unat pos = length xs"
  shows "\<exists>X. intsetMoveTail is (pos + 1) pos =
    Some (is\<lparr>contents := enc_list w (xs @ ys) @ X\<rparr>)"
proof -
  have p1: "unat (pos + 1) = Suc (length xs)"
    using assms(5,6) by (simp add: unat_word_ariths(1))
  have "pos + 1 = of_nat (unat (pos + 1))" by simp
  then have pos: "pos + 1 = of_nat (Suc (length xs))" unfolding p1 .
  have "unat ((is_length is - (pos + 1)) * of_nat w) = w * length ys"
    using unat_size [of "length ys" "is_encoding is"] assms(2,3,5)
    by (simp add: assms(4) pos)
  then have mv: "intsetMoveTail is (pos + 1) pos =
      map_option (\<lambda>c. is\<lparr>contents := c\<rparr>)
        (mem_move (contents is) (w * length xs) (w + w * length xs) (w * length ys))"
    using assms(2,6) valid_enc_width [OF assms(3)]
    by (simp add: intsetMoveTail_def Let_def p1)
  have "mem_move (contents is) (w * length xs) (w * length xs + w) (w * length ys) =
      Some (enc_list w xs @ enc_list w ys @ drop (w * length ys) (le_bytes w (sint y) @ enc_list w ys))"
    unfolding assms(1) enc_list_simps by (intro mem_move_down) simp_all
  then show ?thesis
    by (intro exI [of _ "drop (w * length ys) (le_bytes w (sint y) @ enc_list w ys)"])
      (simp add: mv add.commute [of w])
qed

lemma remove_rep:
  assumes rep: "intset_rep is xs"
  shows "\<exists>is'. intsetRemove junk is v = Some (is', v \<in> set xs) \<and>
    intset_rep is' (remove1 v xs) \<and> is_encoding is' = is_encoding is"
proof -
  let ?e = "is_encoding is" and ?w = "unat (is_encoding is)"
  have e: "valid_enc ?e" and cont: "contents is = enc_list ?w xs" and small: "length xs < 2 ^ 29"
    and l: "is_length is = of_nat (length xs)" and fit: "\<forall>x \<in> set xs. fits ?w x"
    and srt: "sorted_wrt (\<lambda>a b. sint a < sint b) xs"
    using rep by (simp_all add: intset_rep_def)
  obtain found pos where s: "intsetSearch is v = Some (found, pos)" "search_result xs v (found, pos)"
    using search_correct [OF rep] by fastforce
  show ?thesis
  proof (cases "intsetValueEncoding v \<le> ?e \<and> found")
    case False
    have "v \<notin> set xs"
    proof (cases found)
      case True
      with False show ?thesis using fit fits_encoding_iff [OF e] by blast
    qed (use s(2) in \<open>auto simp: search_result_def dest: split_at_not_in\<close>)
    with False s(1) rep show ?thesis
      by (auto simp: intsetRemove_def Let_def remove1_idem)
  next
    case True
    then have p: "unat pos < length xs" "xs ! unat pos = v"
      using s(2) by (auto simp: search_result_def)
    define ys zs where "ys = take (unat pos) xs" and "zs = drop (Suc (unat pos)) xs"
    have xs: "xs = ys @ v # zs" using id_take_nth_drop [OF p(1)] p(2) by (simp add: ys_def zs_def)
    have ly: "unat pos = length ys" using p(1) by (simp add: ys_def)
    have nin: "v \<notin> set ys" using srt unfolding xs sorted_wrt_append by auto
    have ul: "unat (is_length is - 1) = length (ys @ zs)"
      using rep_length_minus_1(1) [OF rep] xs by simp
    have "\<exists>X. (if pos < is_length is - 1 then intsetMoveTail is (pos + 1) pos else Some is) =
        Some (is\<lparr>contents := enc_list ?w (ys @ zs) @ X\<rparr>)"
    proof (cases "pos < is_length is - 1")
      case True
      have "\<exists>X. intsetMoveTail is (pos + 1) pos = Some (is\<lparr>contents := enc_list ?w (ys @ zs) @ X\<rparr>)"
        by (rule move_tail_left) (use cont xs e l small ly in simp_all)
      with True show ?thesis by simp
    next
      case False
      then have "zs = []" using ul ly by (simp add: word_less_nat_alt)
      then have "contents is = enc_list ?w (ys @ zs) @ le_bytes ?w (sint v)"
        using cont xs by simp
      moreover have "is = is\<lparr>contents := contents is\<rparr>" by simp
      ultimately show ?thesis using False by metis
    qed
    then obtain X where mv: "(if pos < is_length is - 1 then intsetMoveTail is (pos + 1) pos else Some is) =
        Some (is\<lparr>contents := enc_list ?w (ys @ zs) @ X\<rparr>)" by blast
    have l1: "is_length is - 1 = of_nat (length (ys @ zs))" using l xs by simp
    have "length (ys @ zs) < 2 ^ 29" using small xs by simp
    then have "unat ((is_length is - 1) * ?e) = ?w * length (ys @ zs)"
      unfolding l1 using e by (rule unat_size)
    moreover have "mem_realloc junk (enc_list ?w (ys @ zs) @ X) (?w * length (ys @ zs)) =
        enc_list ?w (ys @ zs)"
      by (rule mem_realloc_prefix) (simp only: length_enc_list)
    ultimately have "intsetRemove junk is v = Some (\<lparr>is_encoding = ?e, is_length = is_length is - 1,
        contents = enc_list ?w (ys @ zs)\<rparr>, True)"
      using True s(1) mv
      by (simp add: intsetRemove_def Let_def intsetResize_def)
    moreover have "intset_rep \<lparr>is_encoding = ?e, is_length = is_length is - 1,
        contents = enc_list ?w (ys @ zs)\<rparr> (ys @ zs)"
      using e fit small srt l1 xs by (auto simp: intset_rep_def sorted_wrt_append)
    moreover have "remove1 v xs = ys @ zs" using nin xs by (simp add: remove1_append)
    ultimately show ?thesis using xs by simp
  qed
qed

lemma find_rep:
  assumes rep: "intset_rep is xs"
  shows "intsetFind is v = Some (v \<in> set xs)"
proof -
  have e: "valid_enc (is_encoding is)" and fit: "\<forall>x \<in> set xs. fits (unat (is_encoding is)) x"
    using rep by (simp_all add: intset_rep_def)
  obtain found pos where "intsetSearch is v = Some (found, pos)" "search_result xs v (found, pos)"
    using search_correct [OF rep] by fastforce
  then show ?thesis
    using fits_encoding_iff [OF e, of v] fit
    by (auto simp: intsetFind_def search_result_def dest: split_at_not_in split: if_splits)
qed

section \<open>The set interface\<close>

text \<open>
  The contract of a bounded mutable set: \<open>add\<close> and \<open>remove\<close> may only be called in a state
  of the invariant, \<open>add\<close> also needs room; they report whether the set changed and their
  result refines insertion and deletion. \<open>None\<close> is an access outside the allocation.
\<close>

locale bounded_set =
  fixes add :: "'s \<Rightarrow> 'a \<Rightarrow> ('s \<times> bool) option"
    and remove :: "'s \<Rightarrow> 'a \<Rightarrow> ('s \<times> bool) option"
    and mem :: "'s \<Rightarrow> 'a \<Rightarrow> bool option"
    and abs_set :: "'s \<Rightarrow> 'a set"
    and invar :: "'s \<Rightarrow> bool"
    and capacity :: nat
  assumes add_spec: "invar s \<Longrightarrow> Suc (card (abs_set s)) < capacity \<Longrightarrow>
      \<exists>s'. add s v = Some (s', v \<notin> abs_set s) \<and> invar s' \<and> abs_set s' = insert v (abs_set s)"
    and remove_spec: "invar s \<Longrightarrow>
      \<exists>s'. remove s v = Some (s', v \<in> abs_set s) \<and> invar s' \<and> abs_set s' = abs_set s - {v}"
    and mem_spec: "invar s \<Longrightarrow> mem s v = Some (v \<in> abs_set s)"
    and finite_abs: "invar s \<Longrightarrow> finite (abs_set s)"

datatype 'a set_op = SetAdd 'a | SetRemove 'a

text \<open>A sequence of operations and what it means for the abstract set.\<close>

fun run_ops :: "('s \<Rightarrow> 'a \<Rightarrow> ('s \<times> bool) option) \<Rightarrow> ('s \<Rightarrow> 'a \<Rightarrow> ('s \<times> bool) option) \<Rightarrow>
    's \<Rightarrow> 'a set_op list \<Rightarrow> 's option" where
  "run_ops add remove s [] = Some s"
| "run_ops add remove s (SetAdd v # ops) = do { (s, _) \<leftarrow> add s v; run_ops add remove s ops }"
| "run_ops add remove s (SetRemove v # ops) = do { (s, _) \<leftarrow> remove s v; run_ops add remove s ops }"

fun abs_ops :: "'a set \<Rightarrow> 'a set_op list \<Rightarrow> 'a set" where
  "abs_ops S [] = S"
| "abs_ops S (SetAdd v # ops) = abs_ops (insert v S) ops"
| "abs_ops S (SetRemove v # ops) = abs_ops (S - {v}) ops"

context bounded_set
begin

text \<open>Any sequence that is short enough for the capacity succeeds and refines the set operations.\<close>

lemma run_refines:
  "invar s \<Longrightarrow> card (abs_set s) + length ops < capacity \<Longrightarrow>
   \<exists>s'. run_ops add remove s ops = Some s' \<and> invar s' \<and> abs_set s' = abs_ops (abs_set s) ops"
proof (induction ops arbitrary: s)
  case Nil
  then show ?case by simp
next
  case (Cons op ops)
  show ?case
  proof (cases op)
    case (SetAdd v)
    from Cons.prems obtain s' where s': "add s v = Some (s', v \<notin> abs_set s)" "invar s'"
      "abs_set s' = insert v (abs_set s)"
      using add_spec [of s v] by auto
    moreover have "card (abs_set s') \<le> Suc (card (abs_set s))"
      using s'(3) by (simp add: card_insert_le_m1)
    ultimately show ?thesis using Cons.IH [of s'] Cons.prems(2) SetAdd by simp
  next
    case (SetRemove v)
    from Cons.prems obtain s' where s': "remove s v = Some (s', v \<in> abs_set s)" "invar s'"
      "abs_set s' = abs_set s - {v}"
      using remove_spec [of s v] by auto
    moreover have "card (abs_set s') \<le> card (abs_set s)"
      using s'(3) Cons.prems(1) by (simp add: card_Diff1_le finite_abs)
    ultimately show ?thesis using Cons.IH [of s'] Cons.prems(2) SetRemove by simp
  qed
qed

end

definition intset_abs :: "intset \<Rightarrow> int64 set" where
  "intset_abs is = set (intset_elems is)"

lemma sorted_distinct: "sorted_wrt (\<lambda>a b. sint a < sint b) xs \<Longrightarrow> distinct xs"
  by (induction xs) auto

lemma rep_distinct: "intset_rep is xs \<Longrightarrow> distinct xs"
  by (simp add: intset_rep_def sorted_distinct)

lemma rep_card: "intset_rep is xs \<Longrightarrow> card (intset_abs is) = length xs"
  using rep_elems [of "is" xs] rep_distinct [of "is" xs] by (simp add: intset_abs_def distinct_card)

interpretation is_set: bounded_set "intsetAdd junk" "intsetRemove junk" intsetFind intset_abs
    intset_inv "2 ^ 29" for junk
proof unfold_locales
  fix s v
  assume "intset_inv s"
  then have rep: "intset_rep s (intset_elems s)" by (simp add: intset_inv_def)
  show "\<exists>s'. intsetAdd junk s v = Some (s', v \<notin> intset_abs s) \<and> intset_inv s' \<and>
      intset_abs s' = insert v (intset_abs s)" if "Suc (card (intset_abs s)) < 2 ^ 29"
    using add_rep [OF rep, of junk v] that rep_card [OF rep] rep_elems rep_inv
    by (fastforce simp: intset_abs_def insert_absorb split: if_splits)
  show "\<exists>s'. intsetRemove junk s v = Some (s', v \<in> intset_abs s) \<and> intset_inv s' \<and>
      intset_abs s' = intset_abs s - {v}"
    using remove_rep [OF rep, of junk v] rep_elems rep_inv rep_distinct [OF rep]
    by (fastforce simp: intset_abs_def set_remove1_eq)
  show "intsetFind s v = Some (v \<in> intset_abs s)"
    using find_rep [OF rep] by (simp add: intset_abs_def)
  show "finite (intset_abs s)" by (simp add: intset_abs_def)
qed

section \<open>Properties\<close>

text \<open>
  \<^verbatim>\<open>intsetAdd\<close> on a well-formed intset with fewer than \<open>2 ^ 29 - 1\<close> elements never
  leaves its allocation, reports success exactly when the value was absent, and returns a
  well-formed intset (sorted, without duplicates, one width for all elements) whose elements are
  the old ones and the value; the width is the larger of the old one and the one the value
  needs. This covers the in-place upgrade, which rewrites the elements back to front.
\<close>

theorem intsetAdd_correct:
  assumes "intset_inv is" "Suc (card (intset_abs is)) < 2 ^ 29"
  shows "\<exists>is'. intsetAdd junk is v = Some (is', v \<notin> intset_abs is) \<and> intset_inv is' \<and>
    intset_abs is' = insert v (intset_abs is) \<and>
    is_encoding is' = max (is_encoding is) (intsetValueEncoding v)"
proof -
  have rep: "intset_rep is (intset_elems is)" using assms(1) by (simp add: intset_inv_def)
  show ?thesis
    using add_rep [OF rep, of junk v] is_set.add_spec [OF assms, of junk v] assms(2)
      rep_card [OF rep] by auto
qed

text \<open>
  \<^verbatim>\<open>intsetRemove\<close> reports whether the value was present and deletes exactly it, and
  \<^verbatim>\<open>intsetFind\<close> decides membership.
\<close>

theorem intsetRemove_correct:
  assumes "intset_inv is"
  shows "\<exists>is'. intsetRemove junk is v = Some (is', v \<in> intset_abs is) \<and> intset_inv is' \<and>
    intset_abs is' = intset_abs is - {v} \<and> intsetFind is' w = Some (w \<in> intset_abs is \<and> w \<noteq> v)"
  using is_set.remove_spec [OF assms, of junk v] is_set.mem_spec [of _ w] by fastforce

text \<open>
  C26. Every sequence of additions and removals that starts from \<^verbatim>\<open>intsetNew\<close> and is shorter
  than \<open>2 ^ 29\<close> runs to its end and refines the operations on sets.
\<close>

theorem intset_run_refines:
  assumes "length ops < 2 ^ 29"
  shows "\<exists>is'. run_ops (intsetAdd junk) (intsetRemove junk) intsetNew ops = Some is' \<and>
    intset_inv is' \<and> intset_abs is' = abs_ops {} ops"
  using is_set.run_refines [OF rep_inv [OF intset_new_rep], of ops junk] assms
    rep_elems [OF intset_new_rep] by (simp add: intset_abs_def)

text \<open>
  \<^verbatim>\<open>intsetGet\<close> returns the element at a position below \<^verbatim>\<open>intsetLen\<close> and nothing
  above it, \<^verbatim>\<open>intsetRandom\<close> returns a member, and \<^verbatim>\<open>intsetBlobLen\<close> is the size of the
  header and the elements.
\<close>

theorem intset_read_correct:
  assumes "intset_inv is"
  shows "intsetGet is pos = Some (if unat pos < unat (intsetLen is)
       then Some (intset_elems is ! unat pos) else None) \<and>
    (intset_abs is \<noteq> {} \<longrightarrow> (\<exists>v \<in> intset_abs is. intsetRandom r is = Some v)) \<and>
    unat (intsetLen is) = card (intset_abs is) \<and>
    unat (intsetBlobLen is) = 8 + length (contents is)"
proof -
  have rep: "intset_rep is (intset_elems is)" using assms by (simp add: intset_inv_def)
  note len = rep_length [OF rep]
  have rnd: "unat (r mod is_length is) < length (intset_elems is)" if "intset_elems is \<noteq> []"
    using that len by (simp add: unat_mod)
  have "unat (is_length is * is_encoding is) = length (contents is)"
    using rep unat_size [of "length (intset_elems is)" "is_encoding is"]
    by (simp add: intset_rep_def)
  moreover have "length (contents is) < 2 ^ 32"
    using calculation unat_less_exp [of "is_length is * is_encoding is"] by simp
  ultimately have "unat (intsetBlobLen is) = 8 + length (contents is)"
    by (simp add: intsetBlobLen_def unat_word_ariths(1) unsigned_ucast_eq take_bit_nat_eq_self)
  then show ?thesis
    using rnd rep_get_at [OF rep] rep_card [OF rep] len
    by (auto simp: intsetGet_def intsetLen_def intsetRandom_def word_less_nat_alt intset_abs_def)
qed

text \<open>Witnesses: a set with elements of two widths, where adding 70000 forces the upgrade.\<close>

definition sample_set :: intset where
  "sample_set = \<lparr>is_encoding = 2, is_length = 2, contents = [251, 255, 9, 0]\<rparr>"

lemma sample_set_rep: "intset_rep sample_set [-5, 9]"
  by (simp add: intset_rep_def sample_set_def valid_enc_def fits_def)

lemma sample_set_inv: "intset_inv sample_set"
  using sample_set_rep by (rule rep_inv)

lemma sample_set_abs: "intset_abs sample_set = {-5, 9}"
  using rep_elems [OF sample_set_rep] by (simp add: intset_abs_def)

theorem intsetAdd_correct_witness:
  "\<exists>is'. intsetAdd (\<lambda>_. 170) sample_set 70000 = Some (is', 70000 \<notin> intset_abs sample_set) \<and>
     intset_inv is' \<and> intset_abs is' = insert 70000 (intset_abs sample_set) \<and>
     is_encoding is' = max (is_encoding sample_set) (intsetValueEncoding 70000)"
  by (rule intsetAdd_correct) (simp_all add: sample_set_inv sample_set_abs)

theorem intsetRemove_correct_witness:
  "\<exists>is'. intsetRemove (\<lambda>_. 170) sample_set 9 = Some (is', 9 \<in> intset_abs sample_set) \<and>
     intset_inv is' \<and> intset_abs is' = intset_abs sample_set - {9} \<and>
     intsetFind is' (-5) = Some (-5 \<in> intset_abs sample_set \<and> (-5 :: int64) \<noteq> 9)"
  by (rule intsetRemove_correct) (rule sample_set_inv)

theorem intset_run_refines_witness:
  "\<exists>is'. run_ops (intsetAdd (\<lambda>_. 0)) (intsetRemove (\<lambda>_. 0)) intsetNew
      [SetAdd 7, SetAdd (-100000), SetRemove 7] = Some is' \<and>
    intset_inv is' \<and> intset_abs is' = abs_ops {} [SetAdd 7, SetAdd (-100000), SetRemove 7]"
  by (rule intset_run_refines) simp

theorem intset_read_correct_witness:
  "intsetGet sample_set 1 = Some (Some (intset_elems sample_set ! 1)) \<and>
    (\<exists>v \<in> intset_abs sample_set. intsetRandom 12345 sample_set = Some v) \<and>
    unat (intsetLen sample_set) = card (intset_abs sample_set) \<and>
    unat (intsetBlobLen sample_set) = 8 + length (contents sample_set)"
  using intset_read_correct [OF sample_set_inv, of 1 12345] sample_set_abs
  by (simp add: intsetLen_def sample_set_def)

end
