(* ===== verification/Util.thy ===== *)
theory Util
  imports Prelude
begin

text \<open>
  \<^verbatim>\<open>util.c\<close>: conversions between 64 bit integers and decimal strings. Strings are lists
  of bytes. The integers keep their width: \<open>unsigned long long\<close> and \<open>long long\<close> are
  64 bit words (\<open>sint\<close> reads a signed one), \<open>uint32_t\<close> indices wrap around, and the
  destination buffer of \<^verbatim>\<open>ll2string\<close> is a checked buffer.

  The reference is \<open>sdec\<close>, the canonical decimal representation: \<^verbatim>\<open>string2ll\<close> accepts
  exactly the strings \<open>sdec v\<close> and returns \<open>v\<close>, and \<^verbatim>\<open>ll2string\<close> writes \<open>sdec v\<close>.
\<close>

section \<open>Operations\<close>

function digits10 :: "uint64 \<Rightarrow> uint32" where
  "digits10 v =
     (if v < 10 then 1
      else if v < 100 then 2
      else if v < 1000 then 3
      else if v < 1000000000000 then
        if v < 100000000 then
          if v < 1000000 then
            if v < 10000 then 4
            else 5 + of_bool (v \<ge> 100000)
          else 7 + of_bool (v \<ge> 10000000)
        else if v < 10000000000 then 9 + of_bool (v \<ge> 1000000000)
        else 11 + of_bool (v \<ge> 100000000000)
      else 12 + digits10 (v div 1000000000000))"
  by pat_completeness auto
termination
  by (relation "measure unat") (auto simp: word_less_nat_alt unat_div)

declare digits10.simps [simp del]

text \<open>\<open>LLONG_MIN\<close> and \<open>LLONG_MAX\<close> as 64 bit words.\<close>

abbreviation "LLONG_MIN \<equiv> (0x8000000000000000 :: int64)"
abbreviation "LLONG_MAX \<equiv> (0x7FFFFFFFFFFFFFFF :: int64)"
abbreviation "ULLONG_MAX \<equiv> (0xFFFFFFFFFFFFFFFF :: uint64)"

definition sdigits10 :: "int64 \<Rightarrow> uint32" where
  "sdigits10 v =
     (if sint v < 0 then
        let uv = (if v \<noteq> LLONG_MIN then - v else LLONG_MAX + 1)
        in digits10 uv + 1
      else digits10 v)"

text \<open>The static table of the two digit numbers.\<close>

definition digits_table :: "byte list" where
  "digits_table = map of_char (concat [
     ''0001020304050607080910111213141516171819'',
     ''2021222324252627282930313233343536373839'',
     ''4041424344454647484950515253545556575859'',
     ''6061626364656667686970717273747576777879'',
     ''8081828384858687888990919293949596979899''])"

text \<open>The loop over two digits at a time; it returns the buffer, the rest of the value and \<open>next\<close>.\<close>

function ll2string_loop :: "byte list \<Rightarrow> uint64 \<Rightarrow> uint32 \<Rightarrow> (byte list \<times> uint64 \<times> uint32) option" where
  "ll2string_loop dst value next =
     (if value \<ge> 100 then
        let i = unat (value mod 100) * 2;
            value' = value div 100
        in case mem_get digits_table (i + 1) of None \<Rightarrow> None
           | Some c \<Rightarrow> (case mem_set dst (unat next) c of None \<Rightarrow> None
           | Some dst \<Rightarrow> (case mem_get digits_table i of None \<Rightarrow> None
           | Some c \<Rightarrow> (case mem_set dst (unat (next - 1)) c of None \<Rightarrow> None
           | Some dst \<Rightarrow> ll2string_loop dst value' (next - 2))))
      else Some (dst, value, next))"
  by pat_completeness auto
termination
  by (relation "measure (\<lambda>(dst, value, next). unat value)")
    (auto simp: word_le_nat_alt unat_div)

declare ll2string_loop.simps [simp del]

text \<open>\<open>Handle last 1-2 digits\<close>\<close>

definition ll2string_last :: "byte list \<Rightarrow> uint64 \<Rightarrow> uint32 \<Rightarrow> byte list option" where
  "ll2string_last dst value next =
     (if value < 10 then mem_set dst (unat next) (48 + ucast value)
      else do {
        let i = unat value * 2;
        c \<leftarrow> mem_get digits_table (i + 1);
        dst \<leftarrow> mem_set dst (unat next) c;
        c \<leftarrow> mem_get digits_table i;
        mem_set dst (unat (next - 1)) c })"

text \<open>The result is the destination buffer and the returned length.\<close>

definition ll2string :: "byte list \<Rightarrow> nat \<Rightarrow> int64 \<Rightarrow> (byte list \<times> uint32) option" where
  "ll2string dst dstlen svalue =
     (let (value, negative) =
        (if sint svalue < 0 then
           if svalue \<noteq> LLONG_MIN then (- svalue, True) else (LLONG_MAX + 1, True)
         else (svalue, False));
        len = digits10 value + of_bool negative
      in if unat len \<ge> dstlen then Some (dst, 0)
         else do {
           let next = len;
           dst \<leftarrow> mem_set dst (unat next) 0;
           (dst, value, next) \<leftarrow> ll2string_loop dst value (next - 1);
           dst \<leftarrow> ll2string_last dst value next;
           dst \<leftarrow> (if negative then mem_set dst 0 45 else Some dst);
           Some (dst, len) })"

text \<open>
  The digit loop of \<^verbatim>\<open>string2ll\<close>: \<open>None\<close> is the overflow return, otherwise the value
  and the bytes that were not used.
\<close>

fun string2ll_loop :: "uint64 \<Rightarrow> byte list \<Rightarrow> (uint64 \<times> byte list) option" where
  "string2ll_loop v [] = Some (v, [])"
| "string2ll_loop v (c # p) =
     (if c \<ge> 48 \<and> c \<le> 57 then
        if v > ULLONG_MAX div 10 then None
        else let v = v * 10
             in if v > ULLONG_MAX - ucast (c - 48) then None
                else string2ll_loop (v + ucast (c - 48)) p
      else Some (v, c # p))"

definition string2ll :: "byte list \<Rightarrow> int64 option" where
  "string2ll s =
     (if s = [] then None
      else if length s = 1 \<and> s ! 0 = 48 then Some 0
      else
        let negative = (s ! 0 = 45); p = (if negative then tl s else s)
        in if p = [] then None
           else if p ! 0 \<ge> 49 \<and> p ! 0 \<le> 57 then
             case string2ll_loop (ucast (p ! 0 - 48)) (tl p) of
               None \<Rightarrow> None
             | Some (v, rest) \<Rightarrow>
                 if rest \<noteq> [] then None
                 else if negative then
                   if v > - (LLONG_MIN + 1) + 1 then None else Some (- v)
                 else if v > LLONG_MAX then None else Some v
           else if p ! 0 = 48 \<and> length s = 1 then Some 0
           else None)"

text \<open>\<open>long\<close> has 64 bits (LP64).\<close>

definition string2l :: "byte list \<Rightarrow> int64 option" where
  "string2l s = (case string2ll s of None \<Rightarrow> None
     | Some llval \<Rightarrow>
         if sint llval < - (2 ^ 63) \<or> sint llval > 2 ^ 63 - 1 then None else Some llval)"

section \<open>Canonical decimal strings\<close>

fun dec :: "nat \<Rightarrow> byte list" where
  "dec n = (if n < 10 then [48 + of_nat n] else dec (n div 10) @ [48 + of_nat (n mod 10)])"

declare dec.simps [simp del]

definition sdec :: "int64 \<Rightarrow> byte list" where
  "sdec v = (if sint v < 0 then 45 # dec (nat (- sint v)) else dec (nat (sint v)))"

lemma dec_small: "n < 10 \<Longrightarrow> dec n = [48 + of_nat n]"
  by (subst dec.simps) simp

lemma dec_step: "10 \<le> n \<Longrightarrow> dec n = dec (n div 10) @ [48 + of_nat (n mod 10)]"
  by (subst dec.simps) simp

lemma dec_not_Nil [simp]: "dec n \<noteq> []"
  by (subst dec.simps) simp

lemma length_dec_div: "10 ^ k \<le> n \<Longrightarrow> length (dec n) = k + length (dec (n div 10 ^ k))"
proof (induction k arbitrary: n)
  case 0
  then show ?case by simp
next
  case (Suc k)
  have "1 \<le> (10::nat) ^ k" by (rule one_le_power) simp
  then have ge: "10 \<le> n" using Suc.prems unfolding power_Suc by linarith
  have "10 ^ k \<le> n div 10"
    using div_le_mono [OF Suc.prems, of 10] by simp
  then have "length (dec (n div 10)) = k + length (dec (n div 10 div 10 ^ k))"
    by (rule Suc.IH)
  then show ?case using dec_step [OF ge] by (simp add: div_mult2_eq)
qed

lemma length_dec: "10 ^ k \<le> n \<Longrightarrow> n < 10 ^ Suc k \<Longrightarrow> length (dec n) = Suc k"
  using length_dec_div [of k n] by (simp add: dec_small less_mult_imp_div_less)

lemma length_dec_le: "n < 10 ^ Suc k \<Longrightarrow> length (dec n) \<le> Suc k"
proof (induction k arbitrary: n)
  case 0
  then show ?case by (simp add: dec_small)
next
  case (Suc k)
  show ?case
  proof (cases "n < 10")
    case False
    then have "n div 10 < 10 ^ Suc k" using Suc.prems by (simp add: less_mult_imp_div_less)
    with False Suc.IH [of "n div 10"] show ?thesis by (simp add: dec_step)
  qed (simp add: dec_small)
qed

lemma digits10_eq: "unat (digits10 v) = length (dec (unat v))"
proof (induction v rule: digits10.induct)
  case (1 v)
  let ?n = "unat v"
  show ?case
  proof (cases "v < 1000000000000")
    case True
    then show ?thesis
      using length_dec [of 0 ?n] length_dec [of 1 ?n] length_dec [of 2 ?n] length_dec [of 3 ?n]
        length_dec [of 4 ?n] length_dec [of 5 ?n] length_dec [of 6 ?n] length_dec [of 7 ?n]
        length_dec [of 8 ?n] length_dec [of 9 ?n] length_dec [of 10 ?n] length_dec [of 11 ?n]
      by (subst digits10.simps) (auto simp: word_less_nat_alt word_le_nat_alt dec_small)
  next
    case False
    then have ge: "\<not> v < 10" "\<not> v < 100" "\<not> v < 1000" "10 ^ 12 \<le> ?n"
      by (simp_all add: word_less_nat_alt)
    have d: "unat (v div 1000000000000) = ?n div 10 ^ 12" by (simp add: unat_div)
    have IH: "unat (digits10 (v div 1000000000000)) = length (dec (?n div 10 ^ 12))"
      using 1 ge False d by simp
    have "?n < 10 ^ 12 * 10 ^ 8" using unat_less_exp [of v] by simp
    then have "?n div 10 ^ 12 < 10 ^ Suc 7" by (simp add: less_mult_imp_div_less)
    then have "length (dec (?n div 10 ^ 12)) \<le> 8" using length_dec_le [of _ 7] by simp
    then have "unat (12 + digits10 (v div 1000000000000)) = 12 + length (dec (?n div 10 ^ 12))"
      using IH by (simp add: unat_word_ariths(1))
    then show ?thesis
      using ge False length_dec_div [OF ge(4)] by (subst digits10.simps) simp
  qed
qed

text \<open>The magnitude of a signed value, as \<^verbatim>\<open>ll2string\<close> and \<^verbatim>\<open>sdigits10\<close> compute it.\<close>

definition magnitude :: "int64 \<Rightarrow> uint64" where
  "magnitude v = (if sint v < 0 then (if v \<noteq> LLONG_MIN then - v else LLONG_MAX + 1) else v)"

lemma sint_uint_64:
  "sint (v :: int64) = (if uint v < 2 ^ 63 then uint v else uint v - 2 ^ 64)"
proof -
  define N :: int where "N = 2 ^ 63"
  have b: "0 \<le> uint v" "uint v < 2 * N" using uint_lt2p [of v] by (simp_all add: N_def)
  have "sint v = (uint v + N) mod (2 * N) - N"
    by (simp add: sint_uint signed_take_bit_eq_take_bit_shift take_bit_eq_mod N_def)
  moreover have "(uint v + N) mod (2 * N) = (if uint v < N then uint v + N else uint v - N)"
  proof (cases "uint v < N")
    case True
    then have "(uint v + N) mod (2 * N) = uint v + N"
      using b by (intro mod_pos_pos_trivial) linarith+
    with True show ?thesis by simp
  next
    case False
    have "(uint v + N) mod (2 * N) = ((uint v - N) + 2 * N) mod (2 * N)" by (simp add: add.commute)
    also have "\<dots> = (uint v - N) mod (2 * N)" by (rule mod_add_self2)
    finally show ?thesis using False b by simp
  qed
  ultimately show ?thesis by (simp add: N_def)
qed

lemma uint_minus_64: "uint (- v :: int64) = (if uint v = 0 then 0 else 2 ^ 64 - uint v)"
proof -
  define N :: int where "N = 2 ^ 64"
  have b: "0 \<le> uint v" "uint v < N" using uint_lt2p [of v] by (simp_all add: N_def)
  have "uint (- v) = (- uint v) mod N" by (simp add: uint_word_ariths N_def)
  then have "uint (- v) = (if uint v = 0 then 0 else N - uint v)"
    using b by (simp add: zmod_zminus1_eq_if)
  then show ?thesis by (simp add: N_def)
qed

lemma unat_magnitude: "unat (magnitude v) = nat \<bar>sint v\<bar>"
proof -
  have b: "0 \<le> uint v" "uint v < 2 ^ 64" using uint_lt2p [of v] by simp_all
  show ?thesis
  proof (cases "v = LLONG_MIN")
    case True
    then show ?thesis by (simp add: magnitude_def)
  next
    case False
    show ?thesis
    proof (cases "uint v < 2 ^ 63")
      case True
      then have "sint v = uint v" unfolding sint_uint_64 by (simp only: if_True)
      then show ?thesis using b(1) by (simp add: magnitude_def)
    next
      case ge: False
      then have "sint v = uint v - 2 ^ 64" unfolding sint_uint_64 by (simp only: if_False)
      moreover from this b(2) have "sint v < 0" by linarith
      moreover from ge have "uint v \<noteq> 0" by auto
      ultimately have s: "sint v = uint v - 2 ^ 64" "sint v < 0" "uint v \<noteq> 0" .
      have "magnitude v = - v" unfolding magnitude_def using s(2) False by (simp only: if_True) simp
      then have "unat (magnitude v) = nat (2 ^ 64 - uint v)"
        using s(3) by (simp only: unat_eq_nat_uint uint_minus_64 if_False)
      then show ?thesis using s(1,2) by (simp only: abs_of_neg minus_diff_eq)
    qed
  qed
qed

lemma sdec_magnitude:
  "sdec v = (if sint v < 0 then 45 # dec (unat (magnitude v)) else dec (unat (magnitude v)))"
  by (simp add: sdec_def unat_magnitude)

lemma unat_digits10_Suc: "unat (digits10 v + 1) = Suc (length (dec (unat v)))"
proof -
  have "unat v < 10 ^ Suc 19" using unat_less_exp [of v] by simp
  then have "length (dec (unat v)) \<le> 20" using length_dec_le [of "unat v" 19] by simp
  then show ?thesis by (simp add: unat_word_ariths(1) digits10_eq)
qed

lemma sdigits10_eq: "unat (sdigits10 v) = length (sdec v)"
  by (simp add: sdigits10_def sdec_magnitude magnitude_def digits10_eq unat_digits10_Suc Let_def)

section \<open>\<^verbatim>\<open>ll2string\<close> writes the canonical string\<close>

lemma length_digits_table: "length digits_table = 200"
  by (simp add: digits_table_def)

lemma digits_table_pairs:
  "digits_table = concat (map (\<lambda>k. [48 + of_nat (k div 10), 48 + of_nat (k mod 10)]) [0..<100])"
  by (simp add: digits_table_def upt_conv_Cons)

lemma nth_concat_pairs:
  "k < n \<Longrightarrow> concat (map (\<lambda>k. [f k, g k]) [0..<n]) ! (2 * k) = f k \<and>
   concat (map (\<lambda>k. [f k, g k]) [0..<n]) ! Suc (2 * k) = g k"
proof (induction n)
  case (Suc n)
  have len: "length (concat (map (\<lambda>k. [f k, g k]) [0..<m])) = 2 * m" for m
    by (induction m) auto
  from Suc show ?case
    by (cases "k = n") (auto simp: nth_append len)
qed simp

lemma table_lookup:
  assumes "k < 100"
  shows "mem_get digits_table (k * 2) = Some (48 + of_nat (k div 10))"
    and "mem_get digits_table (k * 2 + 1) = Some (48 + of_nat (k mod 10))"
  using nth_concat_pairs [OF assms, of "\<lambda>k. 48 + of_nat (k div 10) :: byte"
      "\<lambda>k. 48 + of_nat (k mod 10)"] assms
  by (simp_all add: mem_get_def length_digits_table digits_table_pairs [symmetric] mult.commute)

lemma dec_two: "10 \<le> n \<Longrightarrow> n < 100 \<Longrightarrow> dec n = [48 + of_nat (n div 10), 48 + of_nat (n mod 10)]"
  by (simp add: dec_step dec_small)

lemma dec_hundred:
  "100 \<le> n \<Longrightarrow> dec n = dec (n div 100) @
     [48 + of_nat (n mod 100 div 10), 48 + of_nat (n mod 100 mod 10)]"
proof -
  assume n: "100 \<le> n"
  have "dec n = dec (n div 10 div 10) @ [48 + of_nat (n div 10 mod 10)] @ [48 + of_nat (n mod 10)]"
    using n by (simp add: dec_step)
  moreover have "n div 10 mod 10 = n mod 100 div 10" "n mod 10 = n mod 100 mod 10"
    using mod_mult2_eq [of n 10 10] by (simp_all add: mod_mod_cancel)
  ultimately show ?thesis by (simp add: div_mult2_eq [of n 10 10, simplified, symmetric])
qed

lemma split_last_two:
  assumes "length B = length D + 2"
  obtains B' x y where "B = B' @ [x, y]" "length B' = length D"
proof -
  have "B = take (length D) B @ drop (length D) B" by simp
  moreover have "\<exists>x y. drop (length D) B = [x, y]"
  proof (cases "drop (length D) B")
    case (Cons x C)
    with assms have "length C = 1" by (metis One_nat_def add_diff_cancel_left' diff_Suc_1 length_Cons
          length_drop one_add_one plus_1_eq_Suc)
    with Cons show ?thesis by (cases C) auto
  qed (use assms in simp)
  then obtain x y where "drop (length D) B = [x, y]" by blast
  ultimately show ?thesis using that [of "take (length D) B" x y] assms by simp
qed

lemma ll2string_digits:
  "length A + length B = Suc (unat next) \<Longrightarrow> length B = length (dec (unat value)) \<Longrightarrow>
   do { (dst, value, next) \<leftarrow> ll2string_loop (A @ B @ C) value next;
        ll2string_last dst value next } = Some (A @ dec (unat value) @ C)"
proof (induction "unat value" arbitrary: "value" B C "next" rule: less_induct)
  case less
  let ?n = "unat value"
  have pred: "unat (next - 1) = length A + length B - 2" if "2 \<le> length B"
    using less.prems(1) that by (subst unat_sub) (auto simp: word_le_nat_alt)
  show ?case
  proof (cases "100 \<le> value")
    case True
    then have ge: "100 \<le> ?n" by (simp add: word_le_nat_alt)
    let ?k = "?n mod 100"
    have um: "unat (value mod 100) = ?k" and ud: "unat (value div 100) = ?n div 100"
      by (simp_all add: unat_mod unat_div)
    have dn: "dec ?n = dec (?n div 100) @ [48 + of_nat (?k div 10), 48 + of_nat (?k mod 10)]"
      using ge by (rule dec_hundred)
    obtain B' x y where B: "B = B' @ [x, y]" and lB: "length B' = length (dec (?n div 100))"
      using less.prems(2) dn by (auto intro: split_last_two)
    have nx: "unat next = length (A @ B' @ [x])" using less.prems(1) B by simp
    have nx1: "unat (next - 1) = length (A @ B')" using pred B by simp
    have "0 < length B'" using lB by simp
    then have "2 \<le> unat next" "unat next = Suc (length A + length B')"
      using nx by (simp_all add: Suc_le_eq)
    then have nx2: "length A + length B' = Suc (unat (next - 2))"
      by (subst unat_sub) (simp_all add: word_le_nat_alt)
    have w1: "mem_set (A @ B @ C) (unat next) b = Some (A @ B' @ x # b # C)" for b
      unfolding B nx using mem_set_middle [of "A @ B' @ [x]" _ y C b] by simp
    have w2: "mem_set (A @ B' @ x # b # C) (unat (next - 1)) a = Some (A @ B' @ a # b # C)" for a b
      unfolding nx1 using mem_set_middle [of "A @ B'" _ x "b # C" a] by simp
    have step: "ll2string_loop (A @ B @ C) value next =
        ll2string_loop (A @ B' @ (48 + of_nat (?k div 10)) # (48 + of_nat (?k mod 10)) # C)
          (value div 100) (next - 2)"
      using True table_lookup [of ?k]
      by (subst ll2string_loop.simps) (simp add: um w1 w2)
    show ?thesis
      unfolding step
      using less.hyps [of "value div 100" B' "next - 2"] ge lB nx2 dn by (simp add: ud)
  next
    case False
    then have loop: "ll2string_loop (A @ B @ C) value next = Some (A @ B @ C, value, next)"
      by (subst ll2string_loop.simps) simp
    have lt: "?n < 100" using False by (simp add: word_le_nat_alt)
    show ?thesis
    proof (cases "value < 10")
      case True
      then have n: "?n < 10" by (simp add: word_less_nat_alt)
      then obtain x where "B = [x]" using less.prems(2) by (auto simp: dec_small length_Suc_conv)
      then show ?thesis
        using True n loop less.prems(1)
        by (simp add: ll2string_last_def dec_small mem_set_middle)
    next
      case nlt: False
      then have n: "10 \<le> ?n" by (simp add: word_less_nat_alt)
      obtain x y where B: "B = [x, y]"
        using less.prems(2) dec_two [OF n lt] by (auto simp: length_Suc_conv)
      have nx: "unat next = length (A @ [x])" and nx1: "unat (next - 1) = length A"
        using less.prems(1) pred B by simp_all
      have "mem_set (A @ [x, y] @ C) (unat next) b = Some (A @ x # b # C)"
        "mem_set (A @ x # b # C) (unat (next - 1)) a = Some (A @ a # b # C)" for a b
        using mem_set_middle [of "A @ [x]" "unat next" y C b] mem_set_middle [OF nx1 [symmetric]]
          nx by simp_all
      then show ?thesis
        using nlt loop table_lookup [OF lt] dec_two [OF n lt] B
        by (simp add: ll2string_last_def)
    qed
  qed
qed

lemma ll2string_eq:
  "ll2string dst dstlen v =
     (let n = length (sdec v)
      in if dstlen \<le> n then Some (dst, 0)
         else if length dst \<le> n then None
         else Some (sdec v @ 0 # drop (Suc n) dst, of_nat n))"
proof -
  define neg where "neg = (sint v < 0)"
  define len where "len = digits10 (magnitude v) + of_bool neg"
  have start: "ll2string dst dstlen v =
     (if unat len \<ge> dstlen then Some (dst, 0)
      else do {
        dst \<leftarrow> mem_set dst (unat len) 0;
        dst \<leftarrow> do { (dst, value, next) \<leftarrow> ll2string_loop dst (magnitude v) (len - 1);
                   ll2string_last dst value next };
        dst \<leftarrow> (if neg then mem_set dst 0 45 else Some dst);
        Some (dst, len) })"
    by (simp add: ll2string_def magnitude_def neg_def len_def Let_def case_prod_beta')
  let ?d = "dec (unat (magnitude v))"
  have ul: "unat len = length (sdec v)"
    by (simp add: len_def neg_def sdec_magnitude unat_digits10_Suc digits10_eq)
  have len: "len = of_nat (length (sdec v))" unfolding ul [symmetric] by simp
  show ?thesis
  proof (cases "length (sdec v) < dstlen \<and> length (sdec v) < length dst")
    case False
    then show ?thesis by (auto simp: start ul len [symmetric] Let_def mem_set_def)
  next
    case True
    define A where "A = take (of_bool neg) dst"
    define B where "B = drop (of_bool neg) (take (unat len) dst)"
    let ?C = "0 # drop (Suc (unat len)) dst"
    have lA: "length A = of_bool neg" using True by (auto simp: A_def)
    have lsd: "length (sdec v) = of_bool neg + length ?d" by (simp add: sdec_magnitude neg_def)
    have lB: "length B = length ?d" using True ul lsd by (simp add: B_def)
    have "mem_set dst (unat len) 0 = Some (take (unat len) dst @ ?C)"
      using True ul by (simp add: mem_set_def upd_conv_take_nth_drop)
    moreover have "take (unat len) dst = A @ B"
    proof -
      have "A = take (of_bool neg) (take (unat len) dst)" using lsd ul by (simp add: A_def min_def)
      then show ?thesis unfolding B_def by (simp only: append_take_drop_id)
    qed
    ultimately have s0: "mem_set dst (unat len) 0 = Some (A @ B @ ?C)" by simp
    have "unat (len - 1) = unat len - 1"
      using ul lsd by (subst unat_sub) (simp_all add: word_le_nat_alt Suc_le_eq)
    then have "length A + length B = Suc (unat (len - 1))"
      using lA lB lsd ul by (simp add: Suc_le_eq)
    then have s1: "do { (dst, value, next) \<leftarrow> ll2string_loop (A @ B @ ?C) (magnitude v) (len - 1);
        ll2string_last dst value next } = Some (A @ ?d @ ?C)"
      using lB by (rule ll2string_digits)
    have "(if neg then mem_set (A @ ?d @ ?C) 0 45 else Some (A @ ?d @ ?C)) = Some (sdec v @ ?C)"
      using lA by (cases neg; cases A) (auto simp: mem_set_def sdec_magnitude neg_def)
    then show ?thesis
      using True ul s0 s1
      by (cases neg) (simp_all add: start Let_def len [symmetric] del: Option.bind_assoc)
  qed
qed

section \<open>\<^verbatim>\<open>string2ll\<close> accepts exactly the canonical strings\<close>

text \<open>\<open>dec_val n p\<close>: the value of the digits \<open>p\<close> read after the value \<open>n\<close>.\<close>

fun dec_val :: "nat \<Rightarrow> byte list \<Rightarrow> nat" where
  "dec_val n [] = n"
| "dec_val n (c # p) = dec_val (n * 10 + unat (c - 48)) p"

abbreviation is_digit :: "byte \<Rightarrow> bool" where
  "is_digit c \<equiv> 48 \<le> c \<and> c \<le> 57"

lemma dec_val_append: "dec_val n (p @ q) = dec_val (dec_val n p) q"
  by (induction p arbitrary: n) auto

lemma dec_val_ge: "n \<le> dec_val n p"
proof (induction p arbitrary: n)
  case (Cons c p)
  have "n \<le> n * 10 + unat (c - 48)" by simp
  also have "\<dots> \<le> dec_val (n * 10 + unat (c - 48)) p" by (rule Cons)
  finally show ?case by simp
qed simp

lemma digit_of_nat:
  assumes "d < 10"
  shows "is_digit (48 + of_nat d)" "unat (48 + of_nat d - 48 :: byte) = d"
    "0 < d \<Longrightarrow> 49 \<le> (48 + of_nat d :: byte)"
proof -
  have u: "unat (of_nat d :: byte) = d" using assms by (simp add: unat_of_nat_small)
  then have "unat (48 + of_nat d :: byte) = 48 + d" using assms by (simp add: unat_word_ariths(1))
  then show "is_digit (48 + of_nat d)" "0 < d \<Longrightarrow> 49 \<le> (48 + of_nat d :: byte)"
    using assms by (simp_all add: word_le_nat_alt)
  show "unat (48 + of_nat d - 48 :: byte) = d" using u by simp
qed

lemma digit_split: "is_digit c \<Longrightarrow> \<exists>d < 10. c = 48 + of_nat d"
proof -
  assume c: "is_digit c"
  then have "unat (c - 48) < 10" by (subst unat_sub) (auto simp: word_le_nat_alt)
  moreover have "c = 48 + of_nat (unat (c - 48))" by simp
  ultimately show ?thesis by blast
qed

lemma digit_not_special: "49 \<le> (c :: byte) \<Longrightarrow> c \<noteq> 45 \<and> c \<noteq> 48"
  by (auto simp: word_le_nat_alt)

text \<open>A string of digits without leading zero is the canonical string of its value.\<close>

lemma dec_dec_val:
  "\<forall>c \<in> set p. is_digit c \<Longrightarrow> 0 < n \<Longrightarrow> dec (dec_val n p) = dec n @ p"
proof (induction p arbitrary: n)
  case (Cons c p)
  obtain d where d: "d < 10" "c = 48 + of_nat d" using Cons.prems(1) digit_split by auto
  then have u: "unat (c - 48) = d" using digit_of_nat(2) by simp
  have "dec (n * 10 + d) = dec n @ [c]"
    using Cons.prems(2) d by (subst dec_step) simp_all
  with Cons.IH [of "n * 10 + d"] Cons.prems show ?case by (simp add: u)
qed simp

lemma dec_shape:
  assumes "0 < n"
  obtains d p where "dec n = (48 + of_nat d) # p" "0 < d" "d < 10" "\<forall>c \<in> set p. is_digit c"
    "dec_val d p = n"
proof -
  have "\<exists>d p. dec n = (48 + of_nat d) # p \<and> 0 < d \<and> d < 10 \<and> (\<forall>c \<in> set p. is_digit c) \<and> dec_val d p = n"
    using assms
  proof (induction n rule: less_induct)
    case (less n)
    show ?case
    proof (cases "n < 10")
      case False
      then obtain d p where "dec (n div 10) = (48 + of_nat d) # p" "0 < d" "d < 10"
        "\<forall>c \<in> set p. is_digit c" "dec_val d p = n div 10"
        using less.IH [of "n div 10"] by (auto simp: div_greater_zero_iff)
      with False show ?thesis
        using digit_of_nat(1,2) [of "n mod 10"]
        by (intro exI [of _ d] exI [of _ "p @ [48 + of_nat (n mod 10)]"])
          (simp add: dec_step dec_val_append)
    qed (use less.prems in \<open>auto simp: dec_small\<close>)
  qed
  then show ?thesis using that by blast
qed

lemma string2ll_loop_spec:
  "string2ll_loop v p =
     (let ds = takeWhile is_digit p; n = dec_val (unat v) ds
      in if n < 2 ^ 64 then Some (of_nat n, dropWhile is_digit p) else None)"
proof (induction v p rule: string2ll_loop.induct)
  case (1 v)
  then show ?case using unat_less_exp [of v] by simp
next
  case (2 v c p)
  show ?case
  proof (cases "is_digit c")
    case False
    then show ?thesis using unat_less_exp [of v] by (auto simp: not_le)
  next
    case True
    define d where "d = unat (c - 48)"
    obtain d' where "d' < 10" "c = 48 + of_nat d'" using digit_split [OF True] by blast
    then have d: "d < 10" using digit_of_nat(2) by (simp add: d_def)
    have uc: "unat (ucast (c - 48) :: uint64) = d"
      using d by (simp add: d_def unsigned_ucast_eq take_bit_nat_eq_self)
    let ?n = "unat v * 10 + d"
    have ge: "?n \<le> dec_val ?n q" for q by (rule dec_val_ge)
    have m: "unat (ULLONG_MAX div 10) = 1844674407370955161" by (simp add: unat_div)
    show ?thesis
    proof (cases "?n < 2 ^ 64")
      case False
      have "string2ll_loop v (c # p) = None"
      proof (cases "v > ULLONG_MAX div 10")
        case ok: False
        then have v: "unat v * 10 < 2 ^ 64" using m by (simp add: word_less_nat_alt)
        then have "unat (v * 10) = unat v * 10" by (simp add: unat_word_ariths(2))
        moreover have "unat (ULLONG_MAX - ucast (c - 48)) = 2 ^ 64 - 1 - d"
          using uc d by (subst unat_sub) (simp_all add: word_le_nat_alt)
        ultimately have "v * 10 > ULLONG_MAX - ucast (c - 48)"
          using False d by (simp add: word_less_nat_alt)
        with True show ?thesis by (simp add: Let_def)
      qed (use True in simp)
      moreover have "\<not> dec_val ?n (takeWhile is_digit p) < 2 ^ 64"
        using ge [of "takeWhile is_digit p"] False by simp
      ultimately show ?thesis using True by (simp add: Let_def d_def)
    next
      case lt: True
      then have v: "\<not> v > ULLONG_MAX div 10" using m by (simp add: word_less_nat_alt)
      have u10: "unat (v * 10) = unat v * 10" using lt by (simp add: unat_word_ariths(2))
      have "unat (ULLONG_MAX - ucast (c - 48)) = 2 ^ 64 - 1 - d"
        using uc d by (subst unat_sub) (simp_all add: word_le_nat_alt)
      then have nle: "\<not> v * 10 > ULLONG_MAX - ucast (c - 48)"
        using lt u10 by (simp add: word_less_nat_alt)
      have "unat (v * 10 + ucast (c - 48)) = ?n"
        using lt uc u10 by (simp add: unat_word_ariths(1))
      then show ?thesis
        using 2 [OF True v refl nle] True v nle by (simp add: Let_def d_def)
    qed
  qed
qed

lemma string2ll_unfold:
  assumes "49 \<le> c" "c \<le> 57" "sg = [] \<or> sg = [45]"
  shows "string2ll (sg @ c # p) = (case string2ll_loop (ucast (c - 48)) p of None \<Rightarrow> None
      | Some (v, rest) \<Rightarrow> if rest \<noteq> [] then None
          else if sg = [45] then if v > - (LLONG_MIN + 1) + 1 then None else Some (- v)
          else if v > LLONG_MAX then None else Some v)"
  using assms(3)
proof
  assume "sg = []"
  then show ?thesis
    using assms(1,2) digit_not_special [OF assms(1)]
    by (simp add: string2ll_def Let_def split: option.split)
next
  assume "sg = [45]"
  then show ?thesis
    using assms(1,2) digit_not_special [OF assms(1)]
    by (simp add: string2ll_def Let_def split: option.split)
qed

text \<open>The result of \<^verbatim>\<open>string2ll\<close> over the sign and the digits.\<close>

lemma string2ll_digits:
  assumes d: "0 < d" "d < 10" and sg: "sg = [] \<or> sg = [45]"
  shows "string2ll (sg @ (48 + of_nat d) # p) =
    (if (\<forall>c \<in> set p. is_digit c) \<and> dec_val d p < 2 ^ 63 + of_bool (sg = [45])
     then Some (if sg = [45] then - of_nat (dec_val d p) else of_nat (dec_val d p)) else None)"
proof -
  let ?c = "48 + of_nat d :: byte"
  define n where "n = dec_val d (takeWhile is_digit p)"
  have c: "is_digit ?c" "49 \<le> ?c" using digit_of_nat [of d] d by auto
  have uc: "unat (ucast (?c - 48) :: uint64) = d"
    using digit_of_nat(2) [of d] d by (simp add: unsigned_ucast_eq take_bit_nat_eq_self)
  have loop: "string2ll_loop (ucast (?c - 48)) p =
      (if n < 2 ^ 64 then Some (of_nat n, dropWhile is_digit p) else None)"
    unfolding string2ll_loop_spec uc by (simp add: Let_def n_def)
  have un: "unat (of_nat n :: uint64) = n" if "n < 2 ^ 64"
    using that by (simp add: unat_of_nat_small)
  have all: "(\<forall>c \<in> set p. is_digit c) \<longleftrightarrow> dropWhile is_digit p = []"
    by (simp add: dropWhile_eq_Nil_conv)
  have n: "dec_val d p = n" if "dropWhile is_digit p = []"
  proof -
    have "takeWhile is_digit p @ [] = p" using takeWhile_dropWhile_id [of is_digit p] unfolding that .
    then show ?thesis unfolding n_def by (simp only: append_Nil2)
  qed
  note eq = string2ll_unfold [OF c(2) conjunct2 [OF c(1)] sg, of p]
  show ?thesis
  proof (cases "dropWhile is_digit p = [] \<and> n < 2 ^ 64")
    case True
    then show ?thesis
      using sg un n unfolding eq loop all by (elim disjE) (simp_all add: word_less_nat_alt)
  next
    case False
    then show ?thesis
      using n unfolding eq loop all by auto
  qed
qed

lemma sint_of_int_small: "- (2 ^ 63) \<le> k \<Longrightarrow> k < 2 ^ 63 \<Longrightarrow> sint (of_int k :: int64) = k"
  by (simp add: signed_of_int signed_take_bit_int_eq_self)

lemma sdec_of_nat:
  "n < 2 ^ 63 \<Longrightarrow> sdec (of_nat n) = dec n"
  "0 < n \<Longrightarrow> n \<le> 2 ^ 63 \<Longrightarrow> sdec (- of_nat n) = 45 # dec n"
  using sint_of_int_small [of "int n"] sint_of_int_small [of "- int n"] by (simp_all add: sdec_def)

lemma string2ll_iff: "string2ll s = Some v \<longleftrightarrow> s = sdec v"
proof
  assume s: "s = sdec v"
  have b: "- (2 ^ 63) \<le> sint v" "sint v < 2 ^ 63" using sint_ge [of v] sint_lt [of v] by simp_all
  define n where "n = nat \<bar>sint v\<bar>"
  have v: "v = (if sint v < 0 then - of_nat n else of_nat n)"
  proof -
    have "v = of_int (sint v)" by simp
    also have "\<dots> = (if sint v < 0 then - of_nat n else of_nat n)" by (simp add: n_def)
    finally show ?thesis .
  qed
  show "string2ll s = Some v"
  proof (cases "n = 0")
    case True
    then have "v = 0" using v by (simp split: if_splits)
    then show ?thesis using s by (simp add: sdec_def dec_small string2ll_def)
  next
    case False
    then obtain d p where "dec n = (48 + of_nat d) # p" "0 < d" "d < 10" "\<forall>c \<in> set p. is_digit c"
      "dec_val d p = n" using dec_shape [of n] by blast
    then show ?thesis
      using s v b string2ll_digits [of d "[]" p] string2ll_digits [of d "[45]" p]
      by (auto simp: sdec_def n_def)
  qed
next
  assume s: "string2ll s = Some v"
  show "s = sdec v"
  proof (cases "s = [48]")
    case True
    with s show ?thesis by (simp add: string2ll_def sdec_def dec_small)
  next
    case False
    have "\<exists>sg c p. s = sg @ c # p \<and> (sg = [] \<or> sg = [45]) \<and> 49 \<le> c \<and> c \<le> 57"
    proof (cases s)
      case (Cons a q)
      show ?thesis
      proof (cases "a = 45")
        case True
        then obtain b r where "q = b # r" "49 \<le> b" "b \<le> 57"
          using s Cons False by (cases q) (auto simp: string2ll_def Let_def split: if_splits)
        then show ?thesis using Cons True by (intro exI [of _ "[45]"]) auto
      next
        case ne: False
        then have "49 \<le> a" "a \<le> 57"
          using s Cons False by (auto simp: string2ll_def Let_def split: if_splits)
        then show ?thesis using Cons by (intro exI [of _ "[]"]) auto
      qed
    qed (use s in \<open>simp add: string2ll_def\<close>)
    then obtain sg c p where sp: "s = sg @ c # p" "sg = [] \<or> sg = [45]" "49 \<le> c" "c \<le> 57"
      by blast
    then obtain d where d: "d < 10" "c = 48 + of_nat d" using digit_split [of c] by (auto simp: word_le_nat_alt)
    then have "0 < d" using sp(3) by (cases d) (auto simp: word_le_nat_alt)
    then have dp: "(\<forall>c \<in> set p. is_digit c)" "dec_val d p < 2 ^ 63 + of_bool (sg = [45])"
      "v = (if sg = [45] then - of_nat (dec_val d p) else of_nat (dec_val d p))"
      using s sp d string2ll_digits [of d sg p] by (auto split: if_splits)
    have "dec (dec_val d p) = c # p"
      using dec_dec_val [OF dp(1) \<open>0 < d\<close>] d by (simp add: dec_small)
    moreover have "0 < dec_val d p" using dec_val_ge [of d p] \<open>0 < d\<close> by simp
    ultimately show ?thesis
      using sp dp sdec_of_nat [of "dec_val d p"] by auto
  qed
qed

section \<open>Properties\<close>

lemma length_sdec: "length (sdec v) \<le> 20"
proof -
  have b: "- (2 ^ 63) \<le> sint v" "sint v < 2 ^ 63" using sint_ge [of v] sint_lt [of v] by simp_all
  then have "nat \<bar>sint v\<bar> \<le> 2 ^ 63" by simp
  then have "nat \<bar>sint v\<bar> < 10 ^ Suc 18" by (rule le_less_trans) simp
  then have "length (dec (nat \<bar>sint v\<bar>)) \<le> 19" using length_dec_le [of _ 18] by simp
  then show ?thesis by (auto simp: sdec_def)
qed

text \<open>
  C27. \<^verbatim>\<open>string2ll\<close> accepts a string exactly when it is the canonical decimal
  representation of a signed 64 bit value (no leading zero, no plus sign, no \<open>-0\<close>, nothing
  after the digits, no overflow), and then returns that value. \<^verbatim>\<open>string2l\<close> does the same.
\<close>

theorem string2ll_exact:
  "(string2ll s = Some v \<longleftrightarrow> s = sdec v) \<and> (string2l s = Some v \<longleftrightarrow> s = sdec v)"
proof -
  have "\<not> (sint w < - (2 ^ 63) \<or> sint w > 2 ^ 63 - 1)" for w :: int64
    using sint_ge [of w] sint_lt [of w] by simp
  then have "string2l s = string2ll s"
    unfolding string2l_def by (cases "string2ll s") (simp_all only: option.case if_False)
  then show ?thesis by (simp add: string2ll_iff)
qed

text \<open>
  \<^verbatim>\<open>ll2string\<close> on a buffer of at least \<open>dstlen\<close> bytes never writes outside it. When the
  string and its terminator fit it writes the canonical representation and a null byte, leaves
  the rest of the buffer alone and returns the length; otherwise it returns 0 and writes nothing.
\<close>

theorem ll2string_correct:
  assumes "dstlen \<le> length dst"
  shows "ll2string dst dstlen v =
    (if length (sdec v) < dstlen
     then Some (sdec v @ 0 # drop (Suc (length (sdec v))) dst, of_nat (length (sdec v)))
     else Some (dst, 0))"
  using assms by (auto simp: ll2string_eq Let_def)

theorem ll2string_correct_witness:
  "ll2string [1, 2, 3, 4, 5, 6] 6 (-1234) =
    (if length (sdec (-1234)) < 6
     then Some (sdec (-1234) @ 0 # drop (Suc (length (sdec (-1234)))) [1, 2, 3, 4, 5, 6],
       of_nat (length (sdec (-1234))))
     else Some ([1, 2, 3, 4, 5, 6], 0))"
  by (rule ll2string_correct) simp

text \<open>
  The round trip: with the 21 bytes that every caller provides, printing any 64 bit value and
  parsing what was printed gives the value back.
\<close>

theorem ll2string_string2ll:
  assumes "length dst = 21"
  shows "\<exists>buf n. ll2string dst 21 v = Some (buf, n) \<and> string2ll (take (unat n) buf) = Some v"
proof -
  have "unat (of_nat (length (sdec v)) :: uint32) = length (sdec v)"
    using length_sdec [of v] by (simp add: unat_of_nat_small)
  then show ?thesis
    using length_sdec [of v] assms by (simp add: ll2string_eq Let_def string2ll_iff)
qed

theorem ll2string_string2ll_witness:
  "\<exists>buf n. ll2string (replicate 21 7) 21 LLONG_MIN = Some (buf, n) \<and>
     string2ll (take (unat n) buf) = Some LLONG_MIN"
  by (rule ll2string_string2ll) simp

text \<open>
  \<^verbatim>\<open>digits10\<close> computes the number of decimal digits of every unsigned 64 bit value, and
  \<^verbatim>\<open>sdigits10\<close> the length of the signed representation, also for the most negative value.
\<close>

theorem digits10_correct:
  "unat (digits10 v) = length (dec (unat v)) \<and> unat (sdigits10 w) = length (sdec w)"
  by (simp add: digits10_eq sdigits10_eq)

end
