(* ===== verification/Dict.thy ===== *)
theory Dict
  imports Prelude "HOL-Library.Multiset"
begin

text \<open>
  \<^verbatim>\<open>dict.c\<close>: the hash table of the server, with chaining and incremental rehashing between
  two tables. A bucket is the list of its chained entries, a table is a list of buckets (the
  empty list is the null table), an entry pointer is a triple of table number, bucket and
  position in the chain. \<open>None\<close> stands for a failed assertion, an access outside a table or a
  loop that does not end, so a result \<open>Some\<close> excludes them. Counters and table sizes are
  natural numbers (they count allocated memory); the hash values and the \<open>int\<close> bucket index of
  \<^verbatim>\<open>_dictKeyIndex\<close> keep their 32 bits.

  The operations come first, in the order of the source; then the invariant \<open>dict_inv\<close>, the
  rehashing lemmas, the map interface \<open>dict_map\<close> and the interpretation that shows that the
  dictionary implements a finite map whatever rehashing does meanwhile.
\<close>

section \<open>State\<close>

record ('k, 'v) dictType =
  hashFunction :: "'k \<Rightarrow> uint32"
  keyDup :: "('k \<Rightarrow> 'k) option"
  valDup :: "('v \<Rightarrow> 'v) option"
  keyCompare :: "('k \<Rightarrow> 'k \<Rightarrow> bool) option"

record ('k, 'v) dictht =
  table :: "('k \<times> 'v) list list"
  ht_size :: nat
  sizemask :: nat
  used :: nat

record ('k, 'v) dict =
  dtype :: "('k, 'v) dictType"
  ht0 :: "('k, 'v) dictht"
  ht1 :: "('k, 'v) dictht"
  rehashidx :: int
  iterators :: int

text \<open>An entry pointer: table, bucket, position in the chain.\<close>

type_synonym entry_ref = "nat \<times> nat \<times> nat"

section \<open>Hash functions\<close>

text \<open>The mixing steps are C's wrapping 32 bit operations.\<close>

definition dictIntHashFunction :: "uint32 \<Rightarrow> uint32" where
  "dictIntHashFunction key =
     (let key = key + NOT (push_bit 15 key);
          key = key XOR drop_bit 10 key;
          key = key + push_bit 3 key;
          key = key XOR drop_bit 6 key;
          key = key + NOT (push_bit 11 key);
          key = key XOR drop_bit 16 key
      in key)"

text \<open>
  \<^verbatim>\<open>dictGenHashFunction\<close> (MurmurHash2) on a little endian host: four bytes at a time, then
  the fall-through switch over the last bytes. The seed is the static variable of the file.
\<close>

abbreviation "murmur_m \<equiv> (0x5bd1e995 :: uint32)"

fun murmur_loop :: "uint32 \<Rightarrow> byte list \<Rightarrow> uint32" where
  "murmur_loop h (a # b # c # d # data) =
     (let k = word_of_int (le_uint [a, b, c, d]);
          k = k * murmur_m;
          k = k XOR drop_bit 24 k;
          k = k * murmur_m;
          h = h * murmur_m;
          h = h XOR k
      in murmur_loop h data)"
| "murmur_loop h [a, b, c] =
     (let h = h XOR push_bit 16 (ucast c);
          h = h XOR push_bit 8 (ucast b)
      in (h XOR ucast a) * murmur_m)"
| "murmur_loop h [a, b] = (let h = h XOR push_bit 8 (ucast b) in (h XOR ucast a) * murmur_m)"
| "murmur_loop h [a] = (h XOR ucast a) * murmur_m"
| "murmur_loop h [] = h"

definition dictGenHashFunction :: "uint32 \<Rightarrow> byte list \<Rightarrow> uint32" where
  "dictGenHashFunction seed key =
     (let h = murmur_loop (seed XOR of_nat (length key)) key;
          h = h XOR drop_bit 13 h;
          h = h * murmur_m;
          h = h XOR drop_bit 15 h
      in h)"

fun caseHash_loop :: "uint32 \<Rightarrow> byte list \<Rightarrow> uint32" where
  "caseHash_loop hash [] = hash"
| "caseHash_loop hash (c # buf) = caseHash_loop ((push_bit 5 hash + hash) + ucast (tolower c)) buf"

definition dictGenCaseHashFunction :: "uint32 \<Rightarrow> byte list \<Rightarrow> uint32" where
  "dictGenCaseHashFunction seed buf = caseHash_loop seed buf"

section \<open>Macros of the header\<close>

definition dictIsRehashing :: "('k, 'v) dict \<Rightarrow> bool" where
  "dictIsRehashing d \<longleftrightarrow> rehashidx d \<noteq> -1"

definition dictSize :: "('k, 'v) dict \<Rightarrow> nat" where
  "dictSize d = used (ht0 d) + used (ht1 d)"

definition dictSlots :: "('k, 'v) dict \<Rightarrow> nat" where
  "dictSlots d = ht_size (ht0 d) + ht_size (ht1 d)"

definition dictCompareKeys :: "('k, 'v) dict \<Rightarrow> 'k \<Rightarrow> 'k \<Rightarrow> bool" where
  "dictCompareKeys d key1 key2 =
     (case keyCompare (dtype d) of Some f \<Rightarrow> f key1 key2 | None \<Rightarrow> key1 = key2)"

definition dictHashKey :: "('k, 'v) dict \<Rightarrow> 'k \<Rightarrow> uint32" where
  "dictHashKey d key = hashFunction (dtype d) key"

definition dup :: "('a \<Rightarrow> 'a) option \<Rightarrow> 'a \<Rightarrow> 'a" where
  "dup f x = (case f of Some g \<Rightarrow> g x | None \<Rightarrow> x)"

text \<open>\<open>d->ht[i]\<close> and its update.\<close>

definition get_ht :: "('k, 'v) dict \<Rightarrow> nat \<Rightarrow> ('k, 'v) dictht" where
  "get_ht d i = (if i = 0 then ht0 d else ht1 d)"

definition set_ht :: "('k, 'v) dict \<Rightarrow> nat \<Rightarrow> ('k, 'v) dictht \<Rightarrow> ('k, 'v) dict" where
  "set_ht d i t = (if i = 0 then d\<lparr>ht0 := t\<rparr> else d\<lparr>ht1 := t\<rparr>)"

definition bucket_get :: "('k, 'v) dictht \<Rightarrow> nat \<Rightarrow> ('k \<times> 'v) list option" where
  "bucket_get t i = (if i < length (table t) then Some (table t ! i) else None)"

definition bucket_set :: "('k, 'v) dictht \<Rightarrow> nat \<Rightarrow> ('k \<times> 'v) list \<Rightarrow> ('k, 'v) dictht option" where
  "bucket_set t i c = (if i < length (table t) then Some (t\<lparr>table := (table t)[i := c]\<rparr>) else None)"

section \<open>Creation, resizing, rehashing\<close>

definition dictReset :: "('k, 'v) dictht" where
  "dictReset = \<lparr>table = [], ht_size = 0, sizemask = 0, used = 0\<rparr>"

definition dictCreate :: "('k, 'v) dictType \<Rightarrow> ('k, 'v) dict" where
  "dictCreate t = \<lparr>dtype = t, ht0 = dictReset, ht1 = dictReset, rehashidx = -1, iterators = 0\<rparr>"

abbreviation "DICT_HT_INITIAL_SIZE \<equiv> (4 :: nat)"

partial_function (option) dictNextPower_loop :: "nat \<Rightarrow> nat \<Rightarrow> nat option" where
  "dictNextPower_loop i sz = (if i \<ge> sz then Some i else dictNextPower_loop (i * 2) sz)"

declare dictNextPower_loop.simps [code]

definition dictNextPower :: "nat \<Rightarrow> nat option" where
  "dictNextPower sz =
     (if sz \<ge> 2 ^ 63 - 1 then Some (2 ^ 63 - 1)
      else dictNextPower_loop DICT_HT_INITIAL_SIZE sz)"

text \<open>The flag of the result is \<open>True\<close> for \<open>DICT_OK\<close>.\<close>

definition dictExpand :: "('k, 'v) dict \<Rightarrow> nat \<Rightarrow> (('k, 'v) dict \<times> bool) option" where
  "dictExpand d sz = do {
     realsize \<leftarrow> dictNextPower sz;
     if dictIsRehashing d \<or> used (ht0 d) > sz then Some (d, False)
     else if realsize = ht_size (ht0 d) then Some (d, False)
     else
       let n = \<lparr>table = replicate realsize [], ht_size = realsize,
                sizemask = realsize - 1, used = 0\<rparr>
       in if table (ht0 d) = [] then Some (d\<lparr>ht0 := n\<rparr>, True)
          else Some (d\<lparr>ht1 := n, rehashidx := 0\<rparr>, True) }"

text \<open>
  \<open>can_resize\<close> is the static variable \<^verbatim>\<open>dict_can_resize\<close>. The number of elements is converted to an int; a
  negative one is below the initial size.
\<close>

definition dictResize :: "bool \<Rightarrow> ('k, 'v) dict \<Rightarrow> (('k, 'v) dict \<times> bool) option" where
  "dictResize can_resize d =
     (if \<not> can_resize \<or> dictIsRehashing d then Some (d, False)
      else dictExpand d (nat (max (c_int (int (used (ht0 d)))) (int DICT_HT_INITIAL_SIZE))))"

text \<open>
  The inner loop of \<^verbatim>\<open>dictRehash\<close> over empty buckets: the new index, the remaining visits and
  whether the function returns early.
\<close>

function skip_empty :: "('k \<times> 'v) list list \<Rightarrow> nat \<Rightarrow> int \<Rightarrow> (nat \<times> int \<times> bool) option" where
  "skip_empty tbl idx empty_visits =
     (if idx < length tbl then
        if tbl ! idx = [] then
          if empty_visits - 1 = 0 then Some (idx + 1, 0, True)
          else skip_empty tbl (idx + 1) (empty_visits - 1)
        else Some (idx, empty_visits, False)
      else None)"
  by pat_completeness auto
termination
  by (relation "measure (\<lambda>(tbl, idx, _). length tbl - idx)") auto

declare skip_empty.simps [simp del]

text \<open>Moving the entries of one chain to the new table, each to the front of its bucket.\<close>

fun move_chain :: "('k \<times> 'v) list \<Rightarrow> ('k, 'v) dict \<Rightarrow> ('k, 'v) dict option" where
  "move_chain [] d = Some d"
| "move_chain (e # nextde) d = do {
     let h = unat (dictHashKey d (fst e)) AND sizemask (ht1 d);
     c \<leftarrow> bucket_get (ht1 d) h;
     t1 \<leftarrow> bucket_set (ht1 d) h (e # c);
     move_chain nextde
       (d\<lparr>ht0 := (ht0 d)\<lparr>used := used (ht0 d) - 1\<rparr>, ht1 := t1\<lparr>used := used t1 + 1\<rparr>\<rparr>) }"

text \<open>The check after the loop: is the whole table rehashed? The flag is the return value.\<close>

definition rehash_finish :: "('k, 'v) dict \<Rightarrow> ('k, 'v) dict \<times> bool" where
  "rehash_finish d =
     (if used (ht0 d) = 0
      then (d\<lparr>ht0 := ht1 d, ht1 := dictReset, rehashidx := -1\<rparr>, False)
      else (d, True))"

fun dictRehash_loop :: "nat \<Rightarrow> int \<Rightarrow> ('k, 'v) dict \<Rightarrow> (('k, 'v) dict \<times> bool) option" where
  "dictRehash_loop 0 empty_visits d = Some (rehash_finish d)"
| "dictRehash_loop (Suc n) empty_visits d =
     (if used (ht0 d) \<noteq> 0 then
        if int (ht_size (ht0 d)) > rehashidx d then do {
          (idx, empty_visits, early) \<leftarrow> skip_empty (table (ht0 d)) (nat (rehashidx d)) empty_visits;
          let d = d\<lparr>rehashidx := int idx\<rparr>;
          if early then Some (d, True)
          else do {
            de \<leftarrow> bucket_get (ht0 d) idx;
            d \<leftarrow> move_chain de d;
            t0 \<leftarrow> bucket_set (ht0 d) idx [];
            dictRehash_loop n empty_visits (d\<lparr>ht0 := t0, rehashidx := int idx + 1\<rparr>)
          }
        }
        else None
      else Some (rehash_finish d))"

definition dictRehash :: "('k, 'v) dict \<Rightarrow> nat \<Rightarrow> (('k, 'v) dict \<times> bool) option" where
  "dictRehash d n =
     (if \<not> dictIsRehashing d then Some (d, False)
      else dictRehash_loop n (int n * 10) d)"

definition dictRehashStep :: "('k, 'v) dict \<Rightarrow> ('k, 'v) dict option" where
  "dictRehashStep d = (if iterators d = 0 then map_option fst (dictRehash d 1) else Some d)"

text \<open>\<open>if (dictIsRehashing(d)) _dictRehashStep(d);\<close>\<close>

definition step_if_rehashing :: "('k, 'v) dict \<Rightarrow> ('k, 'v) dict option" where
  "step_if_rehashing d = (if dictIsRehashing d then dictRehashStep d else Some d)"

text \<open>
  \<^verbatim>\<open>dictRehashMilliseconds\<close>: \<open>expired\<close> lists, for each check of the clock, whether the time
  is over; the loop ends when the table is rehashed or the clock says so.
\<close>

fun dictRehashMilliseconds :: "bool list \<Rightarrow> nat \<Rightarrow> ('k, 'v) dict \<Rightarrow> (('k, 'v) dict \<times> nat) option" where
  "dictRehashMilliseconds [] rehashes d = None"
| "dictRehashMilliseconds (e # expired) rehashes d = do {
     (d, again) \<leftarrow> dictRehash d 100;
     if \<not> again then Some (d, rehashes)
     else if e then Some (d, rehashes + 100)
     else dictRehashMilliseconds expired (rehashes + 100) d }"

section \<open>Lookup, insertion, deletion\<close>

text \<open>The position of a key in a chain.\<close>

fun chain_find :: "('k, 'v) dict \<Rightarrow> 'k \<Rightarrow> nat \<Rightarrow> ('k \<times> 'v) list \<Rightarrow> nat option" where
  "chain_find d key pos [] = None"
| "chain_find d key pos (he # rest) =
     (if dictCompareKeys d key (fst he) then Some pos else chain_find d key (Suc pos) rest)"

definition dictExpandIfNeeded :: "bool \<Rightarrow> ('k, 'v) dict \<Rightarrow> (('k, 'v) dict \<times> bool) option" where
  "dictExpandIfNeeded can_resize d =
     (if dictIsRehashing d then Some (d, True)
      else if ht_size (ht0 d) = 0 then dictExpand d DICT_HT_INITIAL_SIZE
      else if used (ht0 d) \<ge> ht_size (ht0 d) \<and>
              (can_resize \<or> used (ht0 d) div ht_size (ht0 d) > 5)
      then dictExpand d (used (ht0 d) * 2)
      else Some (d, True))"

text \<open>The bucket index is an unsigned int that is returned as an int.\<close>

definition int_index :: "nat \<Rightarrow> int" where
  "int_index idx = sint (of_nat idx :: uint32)"

definition dictKeyIndex :: "bool \<Rightarrow> ('k, 'v) dict \<Rightarrow> 'k \<Rightarrow> (('k, 'v) dict \<times> int) option" where
  "dictKeyIndex can_resize d key = do {
     (d, ok) \<leftarrow> dictExpandIfNeeded can_resize d;
     if \<not> ok then Some (d, -1)
     else do {
       let h = unat (dictHashKey d key);
       let idx = h AND sizemask (ht0 d);
       he \<leftarrow> bucket_get (ht0 d) idx;
       if chain_find d key 0 he \<noteq> None then Some (d, -1)
       else if \<not> dictIsRehashing d then Some (d, int_index idx)
       else do {
         let idx = h AND sizemask (ht1 d);
         he \<leftarrow> bucket_get (ht1 d) idx;
         if chain_find d key 0 he \<noteq> None then Some (d, -1)
         else Some (d, int_index idx)
       }
     } }"

text \<open>
  \<open>uninit\<close> is the content of the value field of the new entry, which the code leaves to the
  caller to fill in.
\<close>

definition dictAddRaw ::
  "bool \<Rightarrow> 'v \<Rightarrow> ('k, 'v) dict \<Rightarrow> 'k \<Rightarrow> (('k, 'v) dict \<times> entry_ref option) option" where
  "dictAddRaw can_resize uninit d key = do {
     d \<leftarrow> step_if_rehashing d;
     (d, index) \<leftarrow> dictKeyIndex can_resize d key;
     if index = -1 then Some (d, None)
     else if index < 0 then None
     else do {
       let i = (if dictIsRehashing d then 1 else 0);
       let ht = get_ht d i;
       c \<leftarrow> bucket_get ht (nat index);
       ht \<leftarrow> bucket_set ht (nat index) ((dup (keyDup (dtype d)) key, uninit) # c);
       Some (set_ht d i (ht\<lparr>used := used ht + 1\<rparr>), Some (i, nat index, 0))
     } }"

definition entry_at :: "('k, 'v) dict \<Rightarrow> entry_ref \<Rightarrow> ('k \<times> 'v) option" where
  "entry_at d r = (case r of (i, b, p) \<Rightarrow> do {
     c \<leftarrow> bucket_get (get_ht d i) b;
     if p < length c then Some (c ! p) else None })"

definition dictSetVal :: "('k, 'v) dict \<Rightarrow> entry_ref \<Rightarrow> 'v \<Rightarrow> ('k, 'v) dict option" where
  "dictSetVal d r val = (case r of (i, b, p) \<Rightarrow> do {
     c \<leftarrow> bucket_get (get_ht d i) b;
     if p < length c then do {
       ht \<leftarrow> bucket_set (get_ht d i) b (c[p := (fst (c ! p), dup (valDup (dtype d)) val)]);
       Some (set_ht d i ht)
     } else None })"

definition dictAdd ::
  "bool \<Rightarrow> 'v \<Rightarrow> ('k, 'v) dict \<Rightarrow> 'k \<Rightarrow> 'v \<Rightarrow> (('k, 'v) dict \<times> bool) option" where
  "dictAdd can_resize uninit d key val = do {
     (d, entry) \<leftarrow> dictAddRaw can_resize uninit d key;
     case entry of None \<Rightarrow> Some (d, False)
     | Some r \<Rightarrow> do { d \<leftarrow> dictSetVal d r val; Some (d, True) } }"

text \<open>The search loop over the two tables, from table \<open>i\<close> on.\<close>

definition find_in :: "('k, 'v) dict \<Rightarrow> nat \<Rightarrow> 'k \<Rightarrow> entry_ref option option" where
  "find_in d i key = do {
     let idx = unat (dictHashKey d key) AND sizemask (get_ht d i);
     he \<leftarrow> bucket_get (get_ht d i) idx;
     Some (map_option (\<lambda>p. (i, idx, p)) (chain_find d key 0 he)) }"

definition dictFind :: "('k, 'v) dict \<Rightarrow> 'k \<Rightarrow> (('k, 'v) dict \<times> entry_ref option) option" where
  "dictFind d key =
     (if used (ht0 d) + used (ht1 d) = 0 then Some (d, None)
      else do {
        d \<leftarrow> step_if_rehashing d;
        r \<leftarrow> find_in d 0 key;
        if r \<noteq> None then Some (d, r)
        else if \<not> dictIsRehashing d then Some (d, None)
        else do { r \<leftarrow> find_in d 1 key; Some (d, r) }
      })"

definition dictFetchValue :: "('k, 'v) dict \<Rightarrow> 'k \<Rightarrow> (('k, 'v) dict \<times> 'v option) option" where
  "dictFetchValue d key = do {
     (d, he) \<leftarrow> dictFind d key;
     case he of None \<Rightarrow> Some (d, None)
     | Some r \<Rightarrow> do { e \<leftarrow> entry_at d r; Some (d, Some (snd e)) } }"

text \<open>The flag is \<open>True\<close> when the key was added from scratch.\<close>

definition dictReplace ::
  "bool \<Rightarrow> 'v \<Rightarrow> ('k, 'v) dict \<Rightarrow> 'k \<Rightarrow> 'v \<Rightarrow> (('k, 'v) dict \<times> bool) option" where
  "dictReplace can_resize uninit d key val = do {
     (d, ok) \<leftarrow> dictAdd can_resize uninit d key val;
     if ok then Some (d, True)
     else do {
       (d, entry) \<leftarrow> dictFind d key;
       r \<leftarrow> entry;
       d \<leftarrow> dictSetVal d r val;
       Some (d, False)
     } }"

definition dictReplaceRaw ::
  "bool \<Rightarrow> 'v \<Rightarrow> ('k, 'v) dict \<Rightarrow> 'k \<Rightarrow> (('k, 'v) dict \<times> entry_ref option) option" where
  "dictReplaceRaw can_resize uninit d key = do {
     (d, entry) \<leftarrow> dictFind d key;
     if entry \<noteq> None then Some (d, entry) else dictAddRaw can_resize uninit d key }"

text \<open>Unlinking the entry at a position of a chain; the flag of the results is \<open>DICT_OK\<close>.\<close>

definition unlink :: "('k, 'v) dict \<Rightarrow> entry_ref \<Rightarrow> ('k, 'v) dict option" where
  "unlink d r = (case r of (i, b, p) \<Rightarrow> do {
     c \<leftarrow> bucket_get (get_ht d i) b;
     ht \<leftarrow> bucket_set (get_ht d i) b (take p c @ drop (Suc p) c);
     Some (set_ht d i (ht\<lparr>used := used ht - 1\<rparr>)) })"

definition dictGenericDelete :: "('k, 'v) dict \<Rightarrow> 'k \<Rightarrow> (('k, 'v) dict \<times> bool) option" where
  "dictGenericDelete d key =
     (if ht_size (ht0 d) = 0 then Some (d, False)
      else do {
        d \<leftarrow> step_if_rehashing d;
        r \<leftarrow> find_in d 0 key;
        case r of Some e \<Rightarrow> do { d \<leftarrow> unlink d e; Some (d, True) }
        | None \<Rightarrow>
            if \<not> dictIsRehashing d then Some (d, False)
            else do {
              r \<leftarrow> find_in d 1 key;
              case r of Some e \<Rightarrow> do { d \<leftarrow> unlink d e; Some (d, True) }
              | None \<Rightarrow> Some (d, False)
            }
      })"

definition dictDelete :: "('k, 'v) dict \<Rightarrow> 'k \<Rightarrow> (('k, 'v) dict \<times> bool) option" where
  "dictDelete d key = dictGenericDelete d key"

text \<open>
  \<^verbatim>\<open>_dictClear\<close> frees every entry and the table (memory that the model does not track) and
  re-initialises the table.
\<close>

definition dictClear :: "('k, 'v) dictht \<Rightarrow> ('k, 'v) dictht" where
  "dictClear ht = dictReset"

definition dictEmpty :: "('k, 'v) dict \<Rightarrow> ('k, 'v) dict" where
  "dictEmpty d = d\<lparr>ht0 := dictClear (ht0 d), ht1 := dictClear (ht1 d), rehashidx := -1, iterators := 0\<rparr>"

section \<open>Invariant and abstraction\<close>

text \<open>
  The callbacks of a dictionary type copy keys and values faithfully and compare keys by their
  content; this is what every type table of \<^verbatim>\<open>server.c\<close> with sds keys and \<^verbatim>\<open>dictSdsKeyCompare\<close> provides.
\<close>

definition dictType_ok :: "('k, 'v) dictType \<Rightarrow> bool" where
  "dictType_ok t \<longleftrightarrow> (\<forall>k. dup (keyDup t) k = k) \<and> (\<forall>v. dup (valDup t) v = v) \<and>
     (\<forall>a b. (case keyCompare t of Some f \<Rightarrow> f a b | None \<Rightarrow> a = b) = (a = b))"

text \<open>
  A proper table: a power of two of buckets, at most \<open>2 ^ 31\<close> because bucket indices are ints,
  an exact element count, and every entry in the bucket of its hash.
\<close>

definition ht_ok :: "('k \<Rightarrow> uint32) \<Rightarrow> ('k, 'v) dictht \<Rightarrow> bool" where
  "ht_ok hf t \<longleftrightarrow> (\<exists>k \<in> {2..31}. ht_size t = 2 ^ k) \<and> length (table t) = ht_size t \<and>
     sizemask t = ht_size t - 1 \<and> used t = length (concat (table t)) \<and>
     (\<forall>i < length (table t). \<forall>e \<in> set (table t ! i). unat (hf (fst e)) AND sizemask t = i)"

definition entries :: "('k, 'v) dict \<Rightarrow> ('k \<times> 'v) list" where
  "entries d = concat (table (ht0 d)) @ concat (table (ht1 d))"

definition dict_inv :: "('k, 'v) dict \<Rightarrow> bool" where
  "dict_inv d \<longleftrightarrow> distinct (map fst (entries d)) \<and>
     (if dictIsRehashing d
      then ht_ok (dictHashKey d) (ht0 d) \<and> ht_ok (dictHashKey d) (ht1 d) \<and>
        0 \<le> rehashidx d \<and> rehashidx d \<le> int (ht_size (ht0 d)) \<and>
        (\<forall>i < nat (rehashidx d). table (ht0 d) ! i = [])
      else (ht0 d = dictReset \<or> ht_ok (dictHashKey d) (ht0 d)) \<and> ht1 d = dictReset)"

definition dict_map :: "('k, 'v) dict \<Rightarrow> 'k \<Rightarrow> 'v option" where
  "dict_map d = map_of (entries d)"

section \<open>Tables\<close>

lemma and_mask_less:
  "ht_ok hf t \<Longrightarrow> x AND sizemask t < length (table t)"
proof -
  assume "ht_ok hf t"
  then obtain k where k: "length (table t) = 2 ^ k" "sizemask t = 2 ^ k - 1"
    by (auto simp: ht_ok_def)
  have "x AND (2 ^ k - 1) = take_bit k x"
    unfolding take_bit_eq_mask mask_eq_exp_minus_1 ..
  also have "\<dots> = x mod 2 ^ k" by (rule take_bit_eq_mod)
  finally show ?thesis unfolding k by simp
qed

lemma mset_concat_update:
  "i < length tbl \<Longrightarrow> mset (concat (tbl[i := c])) + mset (tbl ! i) = mset (concat tbl) + mset c"
proof (induction tbl arbitrary: i)
  case (Cons a tbl)
  then show ?case by (cases i) (auto simp: ac_simps)
qed simp

lemma ht_ok_hash:
  "ht_ok hf t \<Longrightarrow> i < length (table t) \<Longrightarrow> e \<in> set (table t ! i) \<Longrightarrow>
   unat (hf (fst e)) AND sizemask t = i"
  unfolding ht_ok_def by blast

lemma ht_ok_mem_iff:
  assumes "ht_ok hf t"
  shows "e \<in> set (concat (table t)) \<longleftrightarrow> e \<in> set (table t ! (unat (hf (fst e)) AND sizemask t))"
proof
  assume "e \<in> set (concat (table t))"
  then obtain c where "c \<in> set (table t)" "e \<in> set c" by auto
  then obtain i where "i < length (table t)" "e \<in> set (table t ! i)"
    by (auto simp: in_set_conv_nth [of c])
  then show "e \<in> set (table t ! (unat (hf (fst e)) AND sizemask t))"
    using ht_ok_hash [OF assms] by simp
next
  assume "e \<in> set (table t ! (unat (hf (fst e)) AND sizemask t))"
  then show "e \<in> set (concat (table t))"
    using and_mask_less [OF assms] nth_mem by fastforce
qed

text \<open>
  Replacing one bucket by a chain whose entries hash to it keeps the table proper when \<open>used\<close>
  follows the length.
\<close>

lemma ht_ok_update:
  assumes ok: "ht_ok hf t" and i: "i < length (table t)"
    and c: "\<forall>e \<in> set c. unat (hf (fst e)) AND sizemask t = i"
    and u: "u + length (table t ! i) = used t + length c"
  shows "ht_ok hf (t\<lparr>table := (table t)[i := c], used := u\<rparr>)"
proof -
  have "size (mset (concat ((table t)[i := c])) + mset (table t ! i)) =
      size (mset (concat (table t)) + mset c)"
    using mset_concat_update [OF i, of c] by simp
  then have "length (concat ((table t)[i := c])) + length (table t ! i) = used t + length c"
    using ok by (simp add: ht_ok_def)
  then have "u = length (concat ((table t)[i := c]))" using u by linarith
  moreover have "unat (hf (fst e)) AND sizemask t = j"
    if "j < length (table t)" "e \<in> set ((table t)[i := c] ! j)" for j e
    using that c ht_ok_hash [OF ok that(1)] by (cases "j = i") auto
  ultimately show ?thesis using ok unfolding ht_ok_def by (simp del: length_concat)
qed

lemma ht_ok_push:
  assumes ok: "ht_ok hf t" and i: "i = unat (hf (fst e)) AND sizemask t"
  shows "ht_ok hf (t\<lparr>table := (table t)[i := e # table t ! i], used := used t + 1\<rparr>)"
    and "mset (concat ((table t)[i := e # table t ! i])) = add_mset e (mset (concat (table t)))"
proof -
  have l: "i < length (table t)" using and_mask_less [OF ok] i by simp
  show "ht_ok hf (t\<lparr>table := (table t)[i := e # table t ! i], used := used t + 1\<rparr>)"
    using ok l by (rule ht_ok_update) (use i ht_ok_hash [OF ok l] in auto)
  show "mset (concat ((table t)[i := e # table t ! i])) = add_mset e (mset (concat (table t)))"
    using mset_concat_update [OF l, of "e # table t ! i"] by simp
qed

section \<open>Rehashing keeps the entries\<close>

lemma move_chain_ok:
  "ht_ok (dictHashKey d) (ht1 d) \<Longrightarrow> length c \<le> used (ht0 d) \<Longrightarrow>
   \<exists>t1. move_chain c d = Some (d\<lparr>ht0 := (ht0 d)\<lparr>used := used (ht0 d) - length c\<rparr>, ht1 := t1\<rparr>) \<and>
     ht_ok (dictHashKey d) t1 \<and>
     mset (concat (table t1)) = mset (concat (table (ht1 d))) + mset c"
proof (induction c arbitrary: d)
  case Nil
  then show ?case by (intro exI [of _ "ht1 d"]) simp
next
  case (Cons e c)
  define h where "h = unat (dictHashKey d (fst e)) AND sizemask (ht1 d)"
  define t1 where "t1 = (ht1 d)\<lparr>table := (table (ht1 d))[h := e # table (ht1 d) ! h],
      used := used (ht1 d) + 1\<rparr>"
  define d' where "d' = d\<lparr>ht0 := (ht0 d)\<lparr>used := used (ht0 d) - 1\<rparr>, ht1 := t1\<rparr>"
  have l: "h < length (table (ht1 d))" using and_mask_less [OF Cons.prems(1)] by (simp add: h_def)
  have hk: "dictHashKey d' = dictHashKey d" by (rule ext) (simp add: d'_def dictHashKey_def)
  note push = ht_ok_push [OF Cons.prems(1) h_def, folded t1_def]
  have step: "move_chain (e # c) d = move_chain c d'"
    using l by (simp add: h_def [symmetric] bucket_get_def bucket_set_def d'_def t1_def)
  have "ht_ok (dictHashKey d') (ht1 d')" "length c \<le> used (ht0 d')"
    using push(1) Cons.prems(2) unfolding hk by (simp_all add: d'_def)
  then obtain t2 where t2: "move_chain c d' = Some (d'\<lparr>ht0 := (ht0 d')\<lparr>used := used (ht0 d') - length c\<rparr>, ht1 := t2\<rparr>)"
    "ht_ok (dictHashKey d') t2" "mset (concat (table t2)) = mset (concat (table (ht1 d'))) + mset c"
    using Cons.IH by blast
  have "mset (concat (table (ht1 d'))) = add_mset e (mset (concat (table (ht1 d))))"
    using push(2) by (simp add: d'_def t1_def)
  then show ?case
    using t2 step unfolding hk by (intro exI [of _ t2]) (simp add: d'_def)
qed

text \<open>What skipping from \<open>idx\<close> yields when bucket \<open>j\<close> is not empty.\<close>

fun skip_ok :: "('k \<times> 'v) list list \<Rightarrow> nat \<Rightarrow> nat \<Rightarrow> nat \<times> int \<times> bool \<Rightarrow> bool" where
  "skip_ok tbl idx j (idx', ev', early) \<longleftrightarrow> idx \<le> idx' \<and> idx' \<le> j \<and>
     (\<forall>i \<in> {idx..<idx'}. tbl ! i = []) \<and> (early \<longrightarrow> idx < idx') \<and> (\<not> early \<longrightarrow> tbl ! idx' \<noteq> [])"

lemma skip_ok_Suc:
  assumes "skip_ok tbl (Suc idx) j r" "tbl ! idx = []"
  shows "skip_ok tbl idx j r"
proof -
  obtain idx' ev' early where r: "r = (idx', ev', early)" by (cases r)
  have "tbl ! i = []" if "i \<in> {idx..<idx'}" for i
    using assms that unfolding r by (cases "i = idx") auto
  then show ?thesis using assms(1) unfolding r by auto
qed

lemma skip_empty_ok:
  "j < length tbl \<Longrightarrow> tbl ! j \<noteq> [] \<Longrightarrow> idx \<le> j \<Longrightarrow>
   \<exists>r. skip_empty tbl idx ev = Some r \<and> skip_ok tbl idx j r"
proof (induction tbl idx ev rule: skip_empty.induct)
  case (1 tbl idx ev)
  show ?case
  proof (cases "tbl ! idx = []")
    case True
    then have lt: "idx < j" using 1 by (cases "idx = j") auto
    then have len: "idx < length tbl" using 1 by simp
    show ?thesis
    proof (cases "ev - 1 = 0")
      case ev: True
      then have "skip_empty tbl idx ev = Some (idx + 1, 0, True)"
        using True len by (subst skip_empty.simps) simp
      then show ?thesis using lt True by (intro exI [of _ "(idx + 1, 0, True)"]) auto
    next
      case ev: False
      then have "skip_empty tbl idx ev = skip_empty tbl (idx + 1) (ev - 1)"
        using True len by (subst skip_empty.simps) simp
      moreover obtain r where "skip_empty tbl (idx + 1) (ev - 1) = Some r" "skip_ok tbl (Suc idx) j r"
        using 1(1) [OF len True ev 1(2,3)] lt by auto
      ultimately show ?thesis using skip_ok_Suc [OF _ True] by auto
    qed
  next
    case False
    then have "skip_empty tbl idx ev = Some (idx, ev, False)"
      using 1 by (subst skip_empty.simps) simp
    then show ?thesis using False 1 by (intro exI [of _ "(idx, ev, False)"]) auto
  qed
qed

text \<open>
  What a run of \<open>n\<close> rehashing steps leaves: the invariant, the same entries, the same type
  and iterator count; the flag tells whether rehashing goes on, and then the index has advanced.
\<close>

fun rehash_ok :: "nat \<Rightarrow> ('k, 'v) dict \<Rightarrow> ('k, 'v) dict \<times> bool \<Rightarrow> bool" where
  "rehash_ok n d (d', again) \<longleftrightarrow> dict_inv d' \<and> mset (entries d') = mset (entries d) \<and>
     dtype d' = dtype d \<and> iterators d' = iterators d \<and> (again \<longleftrightarrow> dictIsRehashing d') \<and>
     ht_ok (hashFunction (dtype d)) (ht0 d') \<and>
     (again \<longrightarrow> ht_size (ht0 d') = ht_size (ht0 d) \<and> rehashidx d \<le> rehashidx d' \<and>
       (n \<noteq> 0 \<longrightarrow> rehashidx d < rehashidx d'))"

lemma hash_of_type: "dictHashKey d = hashFunction (dtype d)"
  by (rule ext) (simp add: dictHashKey_def)

lemma rehash_ok_trans:
  assumes "dict_inv d'" "mset (entries d') = mset (entries d)" "dtype d' = dtype d"
    "iterators d' = iterators d" "ht_size (ht0 d') = ht_size (ht0 d)" "rehashidx d < rehashidx d'"
    and "rehash_ok n d' r"
  shows "rehash_ok m d r"
  using assms by (cases r) (simp, linarith)

lemma dict_inv_entries:
  "mset (entries d') = mset (entries d) \<Longrightarrow>
   distinct (map fst (entries d')) \<longleftrightarrow> distinct (map fst (entries d))"
  using mset_eq_imp_distinct_iff [of "map fst (entries d')" "map fst (entries d)"] by simp

lemma rehash_finish_ok:
  assumes inv: "dict_inv d" and rh: "dictIsRehashing d" and n: "n = 0 \<or> used (ht0 d) = 0"
  shows "rehash_ok n d (rehash_finish d)"
proof (cases "used (ht0 d) = 0")
  case True
  have ok: "ht_ok (dictHashKey d) (ht0 d)" "ht_ok (dictHashKey d) (ht1 d)"
    using inv rh unfolding dict_inv_def by simp_all
  then have "length (concat (table (ht0 d))) = 0" using True unfolding ht_ok_def by presburger
  then have e: "concat (table (ht0 d)) = []" by (metis length_0_conv)
  have hk: "dictHashKey (d\<lparr>ht0 := ht1 d, ht1 := dictReset, rehashidx := -1\<rparr>) = dictHashKey d"
    by (rule ext) (simp add: dictHashKey_def)
  have en: "entries (d\<lparr>ht0 := ht1 d, ht1 := dictReset, rehashidx := -1\<rparr>) = entries d"
    using e by (simp add: entries_def dictReset_def)
  then show ?thesis using True ok inv unfolding rehash_finish_def dict_inv_def hk en
    by (simp add: dictIsRehashing_def dict_inv_def hk en hash_of_type)
next
  case False
  moreover have "ht_ok (hashFunction (dtype d)) (ht0 d)"
    using inv rh unfolding dict_inv_def hash_of_type by simp
  ultimately show ?thesis using assms by (simp add: rehash_finish_def)
qed

lemma nonempty_bucket:
  assumes inv: "dict_inv d" and rh: "dictIsRehashing d" and u: "used (ht0 d) \<noteq> 0"
  shows "\<exists>j < length (table (ht0 d)). table (ht0 d) ! j \<noteq> [] \<and> nat (rehashidx d) \<le> j"
proof -
  have ok: "ht_ok (dictHashKey d) (ht0 d)" and e: "\<forall>i < nat (rehashidx d). table (ht0 d) ! i = []"
    using inv rh unfolding dict_inv_def by simp_all
  have "concat (table (ht0 d)) \<noteq> []" using ok u unfolding ht_ok_def by (metis length_0_conv)
  then obtain c where "c \<in> set (table (ht0 d))" "c \<noteq> []" by auto
  then obtain j where "j < length (table (ht0 d))" "table (ht0 d) ! j \<noteq> []"
    by (auto simp: in_set_conv_nth)
  then show ?thesis using e by (meson not_less)
qed

text \<open>Moving one whole bucket.\<close>

lemma rehash_bucket:
  assumes inv: "dict_inv d" and rh: "dictIsRehashing d"
    and idx: "idx < length (table (ht0 d))" "nat (rehashidx d) \<le> idx"
    and e: "\<forall>i \<in> {nat (rehashidx d)..<idx}. table (ht0 d) ! i = []"
  defines "d1 \<equiv> d\<lparr>rehashidx := int idx\<rparr>"
  shows "\<exists>d2 t0. move_chain (table (ht0 d) ! idx) d1 = Some d2 \<and> bucket_set (ht0 d2) idx [] = Some t0 \<and>
    rehash_ok 1 d (d2\<lparr>ht0 := t0, rehashidx := int idx + 1\<rparr>, True)"
proof -
  define c where "c = table (ht0 d) ! idx"
  have ok: "ht_ok (dictHashKey d) (ht0 d)" "ht_ok (dictHashKey d) (ht1 d)" and pos: "0 \<le> rehashidx d"
    and emp: "\<forall>i < nat (rehashidx d). table (ht0 d) ! i = []" and dis: "distinct (map fst (entries d))"
    using inv rh unfolding dict_inv_def by simp_all
  have ms: "mset (concat ((table (ht0 d))[idx := []])) + mset c = mset (concat (table (ht0 d)))"
    using mset_concat_update [OF idx(1), of "[]"] by (simp add: c_def)
  from arg_cong [OF ms, of size] have lc: "length c \<le> used (ht0 d)"
    using ok(1) by (simp add: ht_ok_def del: length_concat)
  have "dictHashKey d1 = dictHashKey d" by (rule ext) (simp add: d1_def dictHashKey_def)
  then obtain t1 where mv: "move_chain c d1 = Some (d1\<lparr>ht0 := (ht0 d1)\<lparr>used := used (ht0 d1) - length c\<rparr>, ht1 := t1\<rparr>)"
    and t1: "ht_ok (dictHashKey d) t1" "mset (concat (table t1)) = mset (concat (table (ht1 d))) + mset c"
    using move_chain_ok [of d1 c] ok lc by (auto simp: d1_def)
  define t0 where "t0 = (ht0 d)\<lparr>table := (table (ht0 d))[idx := []], used := used (ht0 d) - length c\<rparr>"
  have t0: "ht_ok (dictHashKey d) t0" unfolding t0_def
    by (rule ht_ok_update [OF ok(1) idx(1)]) (use lc in \<open>simp_all add: c_def\<close>)
  define d3 where "d3 = d\<lparr>ht0 := t0, ht1 := t1, rehashidx := int idx + 1\<rparr>"
  have en: "mset (entries d3) = mset (entries d)"
    using ms t1(2) by (simp add: entries_def d3_def t0_def)
  have hk: "dictHashKey d3 = dictHashKey d" by (rule ext) (simp add: dictHashKey_def d3_def)
  have sz: "length (table (ht0 d)) = ht_size (ht0 d)" using ok(1) unfolding ht_ok_def by simp
  have "table t0 ! i = []" if "i < Suc idx" for i
    using that emp e idx(1) by (cases "i = idx") (auto simp: t0_def not_less)
  then have "dict_inv d3"
    using t0 t1(1) dis en idx(1) sz unfolding dict_inv_def hk dict_inv_entries [OF en]
    by (auto simp: d3_def dictIsRehashing_def t0_def nat_add_distrib)
  then have "rehash_ok 1 d (d3, True)"
    using en idx(2) pos t0 by (auto simp: d3_def t0_def dictIsRehashing_def hash_of_type)
  moreover define d2 where "d2 = d1\<lparr>ht0 := (ht0 d1)\<lparr>used := used (ht0 d1) - length c\<rparr>, ht1 := t1\<rparr>"
  moreover have "bucket_set (ht0 d2) idx [] = Some t0"
    using idx(1) by (simp add: bucket_set_def d2_def d1_def t0_def)
  moreover have "d2\<lparr>ht0 := t0, rehashidx := int idx + 1\<rparr> = d3"
    by (simp add: d2_def d1_def d3_def)
  ultimately show ?thesis using mv unfolding c_def [symmetric] by metis
qed

lemma rehash_early:
  assumes inv: "dict_inv d" and rh: "dictIsRehashing d"
    and idx: "idx < length (table (ht0 d))" "nat (rehashidx d) \<le> idx"
    and e: "\<forall>i \<in> {nat (rehashidx d)..<idx}. table (ht0 d) ! i = []"
    and lt: "nat (rehashidx d) < idx"
  shows "rehash_ok n d (d\<lparr>rehashidx := int idx\<rparr>, True)"
proof -
  have hk: "dictHashKey (d\<lparr>rehashidx := int idx\<rparr>) = dictHashKey d"
    by (rule ext) (simp add: dictHashKey_def)
  have "table (ht0 d) ! i = []" if "i < idx" for i
    using inv rh e that unfolding dict_inv_def by (cases "i < nat (rehashidx d)") auto
  moreover have "ht_ok (dictHashKey d) (ht0 d)" "ht_ok (dictHashKey d) (ht1 d)"
    "0 \<le> rehashidx d" "distinct (map fst (entries d))"
    using inv rh unfolding dict_inv_def by simp_all
  moreover have "length (table (ht0 d)) = ht_size (ht0 d)"
    using calculation(2) unfolding ht_ok_def by simp
  moreover have "entries (d\<lparr>rehashidx := int idx\<rparr>) = entries d" by (simp add: entries_def)
  moreover have "rehashidx d < int idx" using lt by simp
  ultimately show ?thesis
    using idx by (simp add: dict_inv_def hk dictIsRehashing_def hash_of_type [symmetric] del: if_split)
qed

lemma dictRehash_loop_ok:
  "dict_inv d \<Longrightarrow> dictIsRehashing d \<Longrightarrow>
   \<exists>r. dictRehash_loop n ev d = Some r \<and> rehash_ok n d r"
proof (induction n ev d rule: dictRehash_loop.induct)
  case (1 ev d)
  then show ?case using rehash_finish_ok [of d 0] by simp
next
  case (2 n ev d)
  show ?case
  proof (cases "used (ht0 d) = 0")
    case True
    then show ?thesis using rehash_finish_ok [OF 2(2,3), of "Suc n"] by simp
  next
    case False
    obtain j where j: "j < length (table (ht0 d))" "table (ht0 d) ! j \<noteq> []" "nat (rehashidx d) \<le> j"
      using nonempty_bucket [OF 2(2,3) False] by auto
    have ok: "ht_ok (dictHashKey d) (ht0 d)" and pos: "0 \<le> rehashidx d"
      using 2(2,3) unfolding dict_inv_def by simp_all
    then have lt: "rehashidx d < int (ht_size (ht0 d))" using j unfolding ht_ok_def by linarith
    obtain idx ev' early where sk: "skip_empty (table (ht0 d)) (nat (rehashidx d)) ev = Some (idx, ev', early)"
      and so: "skip_ok (table (ht0 d)) (nat (rehashidx d)) j (idx, ev', early)"
      using skip_empty_ok [OF j] by (metis prod.exhaust)
    have idx: "idx < length (table (ht0 d))" "nat (rehashidx d) \<le> idx"
      and e: "\<forall>i \<in> {nat (rehashidx d)..<idx}. table (ht0 d) ! i = []" using so j by auto
    show ?thesis
    proof (cases early)
      case True
      have "rehash_ok (Suc n) d (d\<lparr>rehashidx := int idx\<rparr>, True)"
        using so True by (intro rehash_early [OF 2(2,3) idx e]) simp
      then show ?thesis using sk lt False True by simp
    next
      case ne: False
      obtain d2 t0 where mv: "move_chain (table (ht0 d) ! idx) (d\<lparr>rehashidx := int idx\<rparr>) = Some d2"
        "bucket_set (ht0 d2) idx [] = Some t0"
        and ok3: "rehash_ok 1 d (d2\<lparr>ht0 := t0, rehashidx := int idx + 1\<rparr>, True)"
        using rehash_bucket [OF 2(2,3) idx e] by blast
      define d3 where "d3 = d2\<lparr>ht0 := t0, rehashidx := int idx + 1\<rparr>"
      have get: "bucket_get (ht0 (d\<lparr>rehashidx := int idx\<rparr>)) idx = Some (table (ht0 d) ! idx)"
        using idx(1) by (simp add: bucket_get_def)
      have step: "dictRehash_loop (Suc n) ev d = dictRehash_loop n ev' d3"
        using sk lt False ne get mv by (simp add: d3_def)
      have "\<exists>r. dictRehash_loop n ev' d3 = Some r \<and> rehash_ok n d3 r"
        unfolding d3_def
        by (rule 2(1) [OF _ _ sk refl refl refl]) (use False lt ne get mv ok3 in simp_all)
      then show ?thesis using step ok3 rehash_ok_trans unfolding d3_def by fastforce
    qed
  qed
qed

lemma dictRehash_ok:
  assumes "dict_inv d" "dictIsRehashing d"
  shows "\<exists>r. dictRehash d n = Some r \<and> rehash_ok n d r"
  using dictRehash_loop_ok [OF assms] assms(2) by (simp add: dictRehash_def)

text \<open>
  The states an operation may replace \<open>d\<close> by behind the caller's back: same entries, same type.
\<close>

definition keeps :: "('k, 'v) dict \<Rightarrow> ('k, 'v) dict \<Rightarrow> bool" where
  "keeps d d' \<longleftrightarrow> dict_inv d' \<and> mset (entries d') = mset (entries d) \<and> dtype d' = dtype d \<and>
     iterators d' = iterators d \<and>
     (ht_ok (hashFunction (dtype d)) (ht0 d) \<longrightarrow> ht_ok (hashFunction (dtype d)) (ht0 d'))"

lemma keeps_refl: "dict_inv d \<Longrightarrow> keeps d d"
  by (simp add: keeps_def)

lemma keeps_trans: "keeps d d' \<Longrightarrow> keeps d' d'' \<Longrightarrow> keeps d d''"
  by (simp add: keeps_def)

lemma step_if_rehashing_ok:
  assumes "dict_inv d"
  shows "\<exists>d'. step_if_rehashing d = Some d' \<and> keeps d d'"
proof (cases "dictIsRehashing d \<and> iterators d = 0")
  case True
  obtain d' again where "dictRehash d 1 = Some (d', again)" "rehash_ok 1 d (d', again)"
    using dictRehash_ok [OF assms, of 1] True by auto
  then show ?thesis
    using True by (simp add: step_if_rehashing_def dictRehashStep_def keeps_def)
next
  case False
  then show ?thesis
    using keeps_refl [OF assms] by (auto simp: step_if_rehashing_def dictRehashStep_def)
qed

section \<open>The map a dictionary stands for\<close>

lemma dict_map_iff: "dict_inv d \<Longrightarrow> dict_map d k = Some v \<longleftrightarrow> (k, v) \<in># mset (entries d)"
  unfolding dict_map_def dict_inv_def by (simp add: map_of_eq_Some_iff)

lemma dict_map_eqI:
  assumes "dict_inv d" "\<And>k v. (k, v) \<in># mset (entries d) \<longleftrightarrow> m k = Some v"
  shows "dict_map d = m"
proof
  fix k
  show "dict_map d k = m k"
    using dict_map_iff [OF assms(1), of k] assms(2) [of k] by (metis not_None_eq)
qed

lemma dict_map_keeps: "dict_inv d \<Longrightarrow> keeps d d' \<Longrightarrow> dict_map d' = dict_map d"
  using dict_map_iff [of d] by (intro dict_map_eqI) (simp_all add: keeps_def)

lemma dict_dom: "k \<in> dom (dict_map d) \<longleftrightarrow> k \<in> fst ` set_mset (mset (entries d))"
  unfolding dict_map_def dom_map_of_conv_image_fst by simp

lemma entries_unique:
  assumes "dict_inv d" "(k, v) \<in># mset (entries d)" "(k, w) \<in># mset (entries d)"
  shows "v = w"
  using dict_map_iff [OF assms(1), of k] assms(2,3) by (metis option.inject)

lemma dictSize_length: "dict_inv d \<Longrightarrow> dictSize d = length (entries d)"
  unfolding dictSize_def dict_inv_def entries_def ht_ok_def
  by (auto simp del: length_concat simp: dictReset_def split: if_splits)

lemma dictSize_card:
  assumes "dict_inv d"
  shows "dictSize d = card (dom (dict_map d))"
  using distinct_card [of "map fst (entries d)"] assms
  by (simp add: dictSize_length dict_map_def dom_map_of_conv_image_fst dict_inv_def)

section \<open>Searching\<close>

lemma compare_eq: "dictType_ok (dtype d) \<Longrightarrow> dictCompareKeys d a b = (a = b)"
  unfolding dictType_ok_def dictCompareKeys_def by blast

lemma chain_find_None:
  "dictType_ok (dtype d) \<Longrightarrow> chain_find d key pos c = None \<longleftrightarrow> key \<notin> fst ` set c"
  by (induction c arbitrary: pos) (auto simp: compare_eq)

lemma chain_find_Some:
  "dictType_ok (dtype d) \<Longrightarrow> chain_find d key pos c = Some q \<Longrightarrow>
   \<exists>p < length c. q = pos + p \<and> fst (c ! p) = key"
proof (induction c arbitrary: pos)
  case (Cons e c)
  show ?case
  proof (cases "fst e = key")
    case True
    then show ?thesis using Cons.prems by (auto simp: compare_eq)
  next
    case False
    then have "chain_find d key (Suc pos) c = Some q" using Cons.prems by (auto simp: compare_eq)
    then obtain p where "p < length c" "q = Suc pos + p" "fst (c ! p) = key"
      using Cons.IH Cons.prems(1) by blast
    then show ?thesis by (intro exI [of _ "Suc p"]) simp
  qed
qed simp

text \<open>What a search of one table finds: nothing when the key is not there, else its entry.\<close>

definition found :: "('k, 'v) dict \<Rightarrow> 'k \<Rightarrow> nat \<Rightarrow> entry_ref option \<Rightarrow> bool" where
  "found d key i r = (case r of
     None \<Rightarrow> key \<notin> fst ` set (concat (table (get_ht d i)))
   | Some e \<Rightarrow> fst e = i \<and> (\<exists>v. entry_at d e = Some (key, v)))"

lemma find_in_ok:
  assumes ty: "dictType_ok (dtype d)" and ok: "ht_ok (hashFunction (dtype d)) (get_ht d i)"
  shows "\<exists>r. find_in d i key = Some r \<and> found d key i r"
proof -
  define idx where "idx = unat (dictHashKey d key) AND sizemask (get_ht d i)"
  define c where "c = table (get_ht d i) ! idx"
  have l: "idx < length (table (get_ht d i))" using and_mask_less [OF ok] by (simp add: idx_def)
  have f: "find_in d i key = Some (map_option (\<lambda>p. (i, idx, p)) (chain_find d key 0 c))"
    using l unfolding find_in_def idx_def [symmetric] by (simp add: bucket_get_def c_def)
  show ?thesis
  proof (cases "chain_find d key 0 c")
    case None
    then have "key \<notin> fst ` set c" using chain_find_None [OF ty] by metis
    then have "key \<notin> fst ` set (concat (table (get_ht d i)))"
      using ht_ok_mem_iff [OF ok] unfolding c_def idx_def hash_of_type by force
    then show ?thesis using f None by (simp add: found_def)
  next
    case (Some q)
    then obtain p where "p < length c" "q = p" "fst (c ! p) = key"
      using chain_find_Some [OF ty] by fastforce
    then have "entry_at d (i, idx, q) = Some (key, snd (c ! p))"
      using l by (simp add: entry_at_def bucket_get_def c_def [symmetric] prod_eq_iff)
    then show ?thesis using f Some by (simp add: found_def)
  qed
qed

lemma entry_at_mem: "entry_at d e = Some kv \<Longrightarrow> kv \<in># mset (entries d)"
  unfolding entry_at_def bucket_get_def get_ht_def entries_def
  by (auto split: prod.splits if_splits simp: in_set_conv_nth) (metis nth_mem)+

text \<open>The result of a search of the whole dictionary.\<close>

definition find_result :: "('k, 'v) dict \<Rightarrow> 'k \<Rightarrow> ('k, 'v) dict \<Rightarrow> entry_ref option \<Rightarrow> bool" where
  "find_result d key d' r \<longleftrightarrow> keeps d d' \<and> (case r of
     None \<Rightarrow> dict_map d key = None
   | Some e \<Rightarrow> fst e \<le> 1 \<and> (\<exists>v. entry_at d' e = Some (key, v) \<and> dict_map d key = Some v))"

lemma find_result_Some:
  assumes inv: "dict_inv d" and k: "keeps d d'" and f: "found d' key i (Some e)" and i: "i \<le> 1"
  shows "find_result d key d' (Some e)"
proof -
  obtain v where v: "entry_at d' e = Some (key, v)" using f by (auto simp: found_def)
  then have "dict_map d key = Some v"
    using entry_at_mem [OF v] k unfolding dict_map_iff [OF inv] keeps_def by simp
  then show ?thesis using v k i f by (simp add: find_result_def found_def)
qed

text \<open>
  The two searches of \<^verbatim>\<open>dictFind\<close> and \<^verbatim>\<open>dictGenericDelete\<close>: table 0, then table 1 when
  the dictionary is rehashing.
\<close>

definition find_both :: "('k, 'v) dict \<Rightarrow> 'k \<Rightarrow> entry_ref option option" where
  "find_both d key = do {
     r \<leftarrow> find_in d 0 key;
     if r \<noteq> None then Some r
     else if \<not> dictIsRehashing d then Some None
     else find_in d 1 key }"

lemma find_both_ok:
  assumes inv: "dict_inv d" and ty: "dictType_ok (dtype d)" and k: "keeps d d'"
    and ok: "ht_ok (hashFunction (dtype d)) (ht0 d')"
  shows "\<exists>r. find_both d' key = Some r \<and> find_result d key d' r"
proof -
  have inv': "dict_inv d'" and ty': "dictType_ok (dtype d')" and ok': "ht_ok (hashFunction (dtype d')) (get_ht d' 0)"
    using k ty ok by (simp_all add: keeps_def get_ht_def)
  obtain r where r: "find_in d' 0 key = Some r" "found d' key 0 r" using find_in_ok [OF ty' ok'] by blast
  have none: "find_result d key d' None"
    if "key \<notin> fst ` set (concat (table (ht0 d')))" "key \<notin> fst ` set (concat (table (ht1 d')))"
  proof -
    have "dict_map d' key = None"
      using that dict_dom [of key d'] unfolding entries_def by (auto simp: image_Un)
    then show ?thesis using dict_map_keeps [OF inv k] k by (simp add: find_result_def)
  qed
  consider (hit) e where "r = Some e" | (single) "r = None" "\<not> dictIsRehashing d'"
    | (second) "r = None" "dictIsRehashing d'" by fastforce
  then show ?thesis
  proof cases
    case hit
    then show ?thesis using r find_result_Some [OF inv k, of key 0] by (cases e) (simp add: find_both_def)
  next
    case single
    then have "ht1 d' = dictReset" using inv' by (simp add: dict_inv_def)
    then show ?thesis
      using r single none by (simp add: find_both_def found_def get_ht_def dictReset_def)
  next
    case second
    then have "ht_ok (hashFunction (dtype d')) (get_ht d' 1)"
      using inv' by (simp add: dict_inv_def get_ht_def hash_of_type)
    then obtain r1 where r1: "find_in d' 1 key = Some r1" "found d' key 1 r1" using find_in_ok [OF ty'] by blast
    then have "find_result d key d' r1"
      using second r none find_result_Some [OF inv k, of key 1]
      by (cases r1) (simp_all add: found_def get_ht_def)
    then show ?thesis using r second r1 by (simp add: find_both_def)
  qed
qed

lemma ht0_proper: "dict_inv d \<Longrightarrow> ht0 d \<noteq> dictReset \<Longrightarrow> ht_ok (hashFunction (dtype d)) (ht0 d)"
  unfolding dict_inv_def hash_of_type by (auto split: if_splits)

lemma dictFind_ok:
  assumes inv: "dict_inv d" and ty: "dictType_ok (dtype d)"
  shows "\<exists>d' r. dictFind d key = Some (d', r) \<and> find_result d key d' r"
proof (cases "dictSize d = 0")
  case True
  then have "dict_map d key = None" using dictSize_length [OF inv] by (simp add: dict_map_def)
  then show ?thesis
    using True keeps_refl [OF inv] by (simp add: dictFind_def dictSize_def find_result_def)
next
  case False
  have "ht0 d \<noteq> dictReset"
  proof
    assume "ht0 d = dictReset"
    then have "ht1 d = dictReset" using inv unfolding dict_inv_def ht_ok_def
      by (auto simp: dictReset_def split: if_splits)
    then show False using False \<open>ht0 d = dictReset\<close> by (simp add: dictSize_def dictReset_def)
  qed
  then have ok: "ht_ok (hashFunction (dtype d)) (ht0 d)" by (rule ht0_proper [OF inv])
  obtain d' where d': "step_if_rehashing d = Some d'" "keeps d d'"
    using step_if_rehashing_ok [OF inv] by blast
  then obtain r where r: "find_both d' key = Some r" "find_result d key d' r"
    using find_both_ok [OF inv ty d'(2)] ok by (auto simp: keeps_def)
  have "dictFind d key = map_option (\<lambda>r. (d', r)) (find_both d' key)"
    using False d'(1) by (auto simp: dictFind_def dictSize_def find_both_def split: option.split Option.bind_split)
  then show ?thesis using r by simp
qed

section \<open>Growing\<close>

lemma dictNextPower_loop_ok:
  "k \<le> m \<Longrightarrow> sz \<le> 2 ^ m \<Longrightarrow>
   \<exists>j \<in> {k..m}. dictNextPower_loop (2 ^ k) sz = Some (2 ^ j) \<and> sz \<le> 2 ^ j \<and> (j = k \<or> 2 ^ (j - 1) < sz)"
proof (induction "m - k" arbitrary: k)
  case 0
  then show ?case by (intro bexI [of _ k]) (auto simp: dictNextPower_loop.simps)
next
  case (Suc n)
  show ?case
  proof (cases "sz \<le> 2 ^ k")
    case True
    then show ?thesis using Suc by (intro bexI [of _ k]) (auto simp: dictNextPower_loop.simps)
  next
    case False
    obtain j where j: "j \<in> {Suc k..m}" "dictNextPower_loop (2 ^ Suc k) sz = Some (2 ^ j)" "sz \<le> 2 ^ j"
      "j = Suc k \<or> 2 ^ (j - 1) < sz"
      using Suc.hyps(1) [of "Suc k"] Suc by force
    moreover have "dictNextPower_loop (2 ^ k) sz = dictNextPower_loop (2 ^ Suc k) sz"
      using False by (subst dictNextPower_loop.simps) (simp add: mult.commute)
    ultimately show ?thesis using False by (intro bexI [of _ j]) auto
  qed
qed

lemma dictNextPower_ok:
  assumes "sz \<le> 2 ^ 31"
  shows "\<exists>k \<in> {2..31}. dictNextPower sz = Some (2 ^ k) \<and> sz \<le> 2 ^ k"
proof -
  have "\<not> 2 ^ 63 - 1 \<le> sz" using assms by simp
  then have "dictNextPower sz = dictNextPower_loop (2 ^ 2) sz" by (simp add: dictNextPower_def)
  then show ?thesis using dictNextPower_loop_ok [of 2 31 sz] assms by auto
qed

lemma ht_ok_new:
  "k \<in> {2..31} \<Longrightarrow> ht_ok hf \<lparr>table = replicate (2 ^ k) [], ht_size = 2 ^ k, sizemask = 2 ^ k - 1, used = 0\<rparr>"
  by (auto simp: ht_ok_def)

text \<open>
  A table that is not being rehashed and whose new size differs from the old one is replaced,
  or gets a second table beside it.
\<close>

lemma dictExpand_ok:
  assumes inv: "dict_inv d" and nr: "\<not> dictIsRehashing d" and sz: "sz \<le> 2 ^ 31"
    and u: "used (ht0 d) \<le> sz" and grow: "ht_size (ht0 d) < sz"
  shows "\<exists>d'. dictExpand d sz = Some (d', True) \<and> keeps d d' \<and> ht_ok (hashFunction (dtype d)) (ht0 d')"
proof -
  obtain k where k: "k \<in> {2..31}" "dictNextPower sz = Some (2 ^ k)" "sz \<le> 2 ^ k"
    using dictNextPower_ok [OF sz] by blast
  define n :: "('a, 'b) dictht" where "n = \<lparr>table = replicate (2 ^ k) [], ht_size = 2 ^ k, sizemask = 2 ^ k - 1, used = 0\<rparr>"
  have n: "ht_ok hf n" "concat (table n) = []" for hf using ht_ok_new [OF k(1)] by (simp_all add: n_def)
  have r1: "ht1 d = dictReset" "ht0 d = dictReset \<or> ht_ok (dictHashKey d) (ht0 d)"
    "distinct (map fst (entries d))" "rehashidx d = -1"
    using inv nr by (simp_all add: dict_inv_def dictIsRehashing_def)
  have ne: "2 ^ k \<noteq> ht_size (ht0 d)" using grow k(3) by simp
  show ?thesis
  proof (cases "table (ht0 d) = []")
    case True
    then have z: "ht0 d = dictReset" using r1(2) by (auto simp: ht_ok_def)
    have "dictExpand d sz = Some (d\<lparr>ht0 := n\<rparr>, True)"
      using k nr u ne True by (simp add: dictExpand_def n_def)
    moreover have "entries (d\<lparr>ht0 := n\<rparr>) = entries d" using True n(2) by (simp add: entries_def)
    ultimately show ?thesis
      using n r1 nr z by (simp add: keeps_def dict_inv_def hash_of_type dictIsRehashing_def)
  next
    case False
    then have ok: "ht_ok (dictHashKey d) (ht0 d)" using r1(2) by (auto simp: dictReset_def)
    have "dictExpand d sz = Some (d\<lparr>ht1 := n, rehashidx := 0\<rparr>, True)"
      using k nr u ne False by (simp add: dictExpand_def n_def)
    moreover have "entries (d\<lparr>ht1 := n, rehashidx := 0\<rparr>) = entries d"
      using r1(1) n(2) by (simp add: entries_def dictReset_def)
    ultimately show ?thesis
      using n r1 ok by (simp add: keeps_def dict_inv_def hash_of_type dictIsRehashing_def)
  qed
qed

lemma dictExpandIfNeeded_ok:
  assumes inv: "dict_inv d" and room: "dictSize d < 2 ^ 30"
  shows "\<exists>d'. dictExpandIfNeeded cr d = Some (d', True) \<and> keeps d d' \<and> ht_ok (hashFunction (dtype d)) (ht0 d')"
proof -
  consider (stay) "dictIsRehashing d \<or> ht_size (ht0 d) \<noteq> 0 \<and> dictExpandIfNeeded cr d = Some (d, True)"
    | (fresh) "\<not> dictIsRehashing d" "ht_size (ht0 d) = 0"
    | (full) "\<not> dictIsRehashing d" "ht_size (ht0 d) \<noteq> 0" "used (ht0 d) \<ge> ht_size (ht0 d)"
      "dictExpandIfNeeded cr d = dictExpand d (used (ht0 d) * 2)"
    unfolding dictExpandIfNeeded_def by argo
  then show ?thesis
  proof cases
    case stay
    then have "ht0 d \<noteq> dictReset"
      using inv by (auto simp: dict_inv_def ht_ok_def dictReset_def)
    then have "ht_ok (hashFunction (dtype d)) (ht0 d)" by (rule ht0_proper [OF inv])
    then show ?thesis using stay keeps_refl [OF inv] by (auto simp: dictExpandIfNeeded_def)
  next
    case fresh
    then have "used (ht0 d) = 0"
      using inv by (auto simp: dict_inv_def ht_ok_def dictReset_def)
    then show ?thesis
      using fresh dictExpand_ok [OF inv fresh(1), of 4] by (simp add: dictExpandIfNeeded_def)
  next
    case full
    moreover have "used (ht0 d) * 2 \<le> 2 ^ 31" using room by (simp add: dictSize_def)
    ultimately show ?thesis
      using dictExpand_ok [OF inv full(1), of "used (ht0 d) * 2"] by simp
  qed
qed

section \<open>Insertion\<close>

abbreviation target :: "('k, 'v) dict \<Rightarrow> nat" where
  "target d \<equiv> (if dictIsRehashing d then 1 else 0)"

lemma target_ok:
  assumes "dict_inv d" "ht_ok (hashFunction (dtype d)) (ht0 d)"
  shows "ht_ok (hashFunction (dtype d)) (get_ht d (target d))"
  using assms unfolding dict_inv_def hash_of_type by (auto simp: get_ht_def split: if_splits)

lemma int_index_ok:
  assumes "ht_ok hf t"
  shows "int_index (x AND sizemask t) = int (x AND sizemask t)"
proof -
  obtain k where k: "k \<in> {2..31}" "length (table t) = 2 ^ k" using assms by (auto simp: ht_ok_def)
  then have "(2::nat) ^ k \<le> 2 ^ 31" by (intro power_increasing) auto
  then have "x AND sizemask t < 2 ^ 31" using and_mask_less [OF assms, of x] k(2) by linarith
  then show ?thesis
    by (simp add: int_index_def signed_of_nat signed_take_bit_int_eq_self_iff)
qed

text \<open>
  The index computation is the search of both tables; it yields \<open>-1\<close> for a key that exists and
  a valid bucket of the table that takes new entries otherwise.
\<close>

lemma dictKeyIndex_find:
  assumes "ht_ok (hashFunction (dtype d)) (ht0 d)" "dict_inv d" "find_both d key = Some r"
    and "dictExpandIfNeeded cr d0 = Some (d, True)"
  shows "dictKeyIndex cr d0 key = Some (d, if r \<noteq> None then -1
     else int (unat (dictHashKey d key) AND sizemask (get_ht d (target d))))"
proof -
  let ?h = "unat (dictHashKey d key)"
  have i0: "int_index (?h AND sizemask (ht0 d)) = int (?h AND sizemask (ht0 d))"
    by (rule int_index_ok [OF assms(1)])
  have i1: "dictIsRehashing d \<Longrightarrow> int_index (?h AND sizemask (ht1 d)) = int (?h AND sizemask (ht1 d))"
    using target_ok [OF assms(2,1)] int_index_ok by (fastforce simp: get_ht_def)
  show ?thesis
    using assms(3,4) i0 i1 unfolding dictKeyIndex_def find_both_def find_in_def
    by (cases "bucket_get (ht0 d) (?h AND sizemask (ht0 d))";
        cases "bucket_get (ht1 d) (?h AND sizemask (ht1 d))")
       (auto simp: get_ht_def split: if_splits)
qed

lemma dictKeyIndex_ok:
  assumes inv: "dict_inv d" and ty: "dictType_ok (dtype d)" and room: "dictSize d < 2 ^ 30"
  shows "\<exists>d'. dictKeyIndex cr d key = Some (d', if key \<in> dom (dict_map d) then -1
       else int (unat (dictHashKey d' key) AND sizemask (get_ht d' (target d')))) \<and>
     keeps d d' \<and> ht_ok (hashFunction (dtype d)) (ht0 d')"
proof -
  obtain d' where d': "dictExpandIfNeeded cr d = Some (d', True)" "keeps d d'"
    and ok: "ht_ok (hashFunction (dtype d)) (ht0 d')"
    using dictExpandIfNeeded_ok [OF inv room] by blast
  obtain r where r: "find_both d' key = Some r" "find_result d key d' r"
    using find_both_ok [OF inv ty d'(2) ok] by blast
  have inv': "dict_inv d'" and ok': "ht_ok (hashFunction (dtype d')) (ht0 d')"
    using d'(2) ok by (simp_all add: keeps_def)
  have "r \<noteq> None \<longleftrightarrow> key \<in> dom (dict_map d)"
    using r(2) by (auto simp: find_result_def split: option.splits)
  then show ?thesis using dictKeyIndex_find [OF ok' inv' r(1) d'(1)] d'(2) ok by auto
qed

text \<open>Replacing table \<open>i\<close> by a proper table with other entries.\<close>

lemma set_ht_inv:
  assumes inv: "dict_inv d" and i: "i = 1 \<longrightarrow> dictIsRehashing d" "i \<le> 1"
    and ok: "ht_ok (hashFunction (dtype d)) t" and sz: "ht_size t = ht_size (get_ht d i)"
    and empty: "i = 0 \<Longrightarrow> \<forall>j < nat (rehashidx d). table (ht0 d) ! j = [] \<longrightarrow> table t ! j = []"
    and dis: "distinct (map fst (entries (set_ht d i t)))"
  shows "dict_inv (set_ht d i t)"
proof (cases "i = 0")
  case True
  then show ?thesis
    using inv ok sz dis empty unfolding dict_inv_def hash_of_type
    by (auto simp: set_ht_def get_ht_def dictIsRehashing_def)
next
  case False
  then have "i = 1" "dictIsRehashing d" using i by auto
  then show ?thesis
    using inv ok sz dis unfolding dict_inv_def hash_of_type
    by (simp add: set_ht_def get_ht_def dictIsRehashing_def)
qed

lemma entries_set_ht:
  "i \<le> 1 \<Longrightarrow> mset (entries (set_ht d i t)) + mset (concat (table (get_ht d i))) =
     mset (entries d) + mset (concat (table t))"
  by (auto simp: entries_def set_ht_def get_ht_def)

lemma dtype_set_ht [simp]: "dtype (set_ht d i t) = dtype d" "iterators (set_ht d i t) = iterators d"
  "get_ht (set_ht d i t) i = t"
  by (simp_all add: set_ht_def get_ht_def)

text \<open>What an insertion of a bare entry does: nothing for a key that exists, else one more entry.\<close>

definition add_result ::
  "('k, 'v) dict \<Rightarrow> 'k \<Rightarrow> 'v \<Rightarrow> ('k, 'v) dict \<Rightarrow> entry_ref option \<Rightarrow> bool" where
  "add_result d key v d' r \<longleftrightarrow> (case r of
     None \<Rightarrow> key \<in> dom (dict_map d) \<and> keeps d d'
   | Some e \<Rightarrow> key \<notin> dom (dict_map d) \<and> dict_inv d' \<and> dtype d' = dtype d \<and> iterators d' = iterators d \<and>
       fst e \<le> 1 \<and> entry_at d' e = Some (key, v) \<and> mset (entries d') = add_mset (key, v) (mset (entries d)))"

lemma add_result_keeps:
  "dict_inv d \<Longrightarrow> keeps d d1 \<Longrightarrow> add_result d1 key v d' r \<Longrightarrow> add_result d key v d' r"
  using dict_map_keeps [of d d1]
  by (cases r) (auto simp: add_result_def keeps_def)

lemma push_entry_ok:
  fixes d :: "('k, 'v) dict" and v :: 'v
  assumes inv: "dict_inv d" and ok: "ht_ok (hashFunction (dtype d)) (ht0 d)"
    and new: "key \<notin> dom (dict_map d)" and i: "i = target d"
    and idx: "idx = unat (dictHashKey d key) AND sizemask (get_ht d i)"
  defines "t \<equiv> get_ht d i"
  defines "t' \<equiv> t\<lparr>table := (table t)[idx := (key, v) # table t ! idx], used := used t + 1\<rparr>"
  shows "add_result d key v (set_ht d i t') (Some (i, idx, 0))"
proof -
  have tok: "ht_ok (hashFunction (dtype d)) t" using target_ok [OF inv ok] by (simp add: i t_def)
  have idx': "idx = unat (hashFunction (dtype d) (fst (key, v))) AND sizemask t"
    by (simp add: idx t_def hash_of_type)
  note push = ht_ok_push [OF tok idx']
  have len: "idx < length (table t)" using and_mask_less [OF tok] idx' by simp
  have i1: "i \<le> 1" by (simp add: i)
  have ms: "mset (entries (set_ht d i t')) = add_mset (key, v) (mset (entries d))"
    using entries_set_ht [OF i1, of d t'] push(2) by (simp add: t'_def t_def)
  have "distinct (map fst (entries (set_ht d i t')))"
  proof -
    have "key \<notin> fst ` set (entries d)" "distinct (map fst (entries d))"
      using new inv by (auto simp: dict_map_def dom_map_of_conv_image_fst dict_inv_def)
    then have "distinct (map fst ((key, v) # entries d))" by simp
    moreover have "mset ((key, v) # entries d) = mset (entries (set_ht d i t'))" using ms by simp
    ultimately show ?thesis
      by (metis mset_eq_imp_distinct_iff mset_map)
  qed
  then have "dict_inv (set_ht d i t')"
    using i push(1) by (intro set_ht_inv [OF inv])
      (auto simp: t'_def t_def get_ht_def dictIsRehashing_def split: if_splits)
  moreover have "entry_at (set_ht d i t') (i, idx, 0) = Some (key, v)"
    using len by (simp add: entry_at_def bucket_get_def t'_def)
  ultimately show ?thesis using ms new i1 by (simp add: add_result_def)
qed

lemma dictAddRaw_ok:
  assumes inv: "dict_inv d" and ty: "dictType_ok (dtype d)" and room: "dictSize d < 2 ^ 30"
  shows "\<exists>d' r. dictAddRaw cr v d key = Some (d', r) \<and> add_result d key v d' r"
proof -
  obtain d1 where d1: "step_if_rehashing d = Some d1" "keeps d d1"
    using step_if_rehashing_ok [OF inv] by blast
  have a1: "dict_inv d1" "dictType_ok (dtype d1)" "dictSize d1 < 2 ^ 30"
    using d1(2) ty room dictSize_length [OF inv] dictSize_length [of d1]
    by (auto simp: keeps_def dest: mset_eq_length)
  obtain d2 where ki: "dictKeyIndex cr d1 key = Some (d2, if key \<in> dom (dict_map d1) then -1
       else int (unat (dictHashKey d2 key) AND sizemask (get_ht d2 (target d2))))"
    and d2: "keeps d1 d2" "ht_ok (hashFunction (dtype d1)) (ht0 d2)"
    using dictKeyIndex_ok [OF a1] by blast
  have inv2: "dict_inv d2" and ok2: "ht_ok (hashFunction (dtype d2)) (ht0 d2)"
    using d2 by (simp_all add: keeps_def)
  have k2: "keeps d d2" using keeps_trans [OF d1(2) d2(1)] .
  have dom: "dom (dict_map d1) = dom (dict_map d)" "dom (dict_map d2) = dom (dict_map d)"
    using dict_map_keeps [OF inv d1(2)] dict_map_keeps [OF inv k2] by simp_all
  show ?thesis
  proof (cases "key \<in> dom (dict_map d)")
    case True
    then have "dictAddRaw cr v d key = Some (d2, None)"
      using d1 ki dom by (simp add: dictAddRaw_def)
    then show ?thesis using True k2 by (simp add: add_result_def)
  next
    case False
    define i where "i = target d2"
    define idx where "idx = unat (dictHashKey d2 key) AND sizemask (get_ht d2 i)"
    define t where "t = get_ht d2 i"
    define t' where "t' = t\<lparr>table := (table t)[idx := (key, v) # table t ! idx], used := used t + 1\<rparr>"
    have "idx < length (table t)"
      using and_mask_less target_ok [OF inv2 ok2] unfolding idx_def t_def i_def by blast
    moreover have "dup (keyDup (dtype d2)) key = key"
      using ty k2 by (simp add: dictType_ok_def keeps_def)
    ultimately have "dictAddRaw cr v d key = Some (set_ht d2 i t', Some (i, idx, 0))"
      using d1 ki dom False idx_def [folded t_def]
      by (simp add: dictAddRaw_def i_def [symmetric] t_def [symmetric]
          bucket_get_def bucket_set_def t'_def del: of_nat_and_eq)
    moreover have "add_result d2 key v (set_ht d2 i t') (Some (i, idx, 0))"
      using push_entry_ok [OF inv2 ok2 _ i_def idx_def, of v] False dom
      by (simp add: t'_def t_def)
    ultimately show ?thesis using add_result_keeps [OF inv k2] by blast
  qed
qed

section \<open>Changing and unlinking an entry\<close>

text \<open>
  Replacing the chain of an existing entry by one with other contents but the same keys, or
  fewer: the shape of \<^verbatim>\<open>dictSetVal\<close> and of unlinking.
\<close>

lemma distinct_subset_mset:
  assumes "mset xs \<subseteq># mset ys" "distinct ys"
  shows "distinct xs"
proof -
  obtain zs where "mset ys = mset (xs @ zs)"
    using assms(1) by (metis ex_mset mset_append subset_mset.le_iff_add)
  then show ?thesis using assms(2) by (metis distinct_append mset_eq_imp_distinct_iff)
qed

lemma sub_mset_one:
  assumes "A + {#x#} = B + I" "I = {#} \<or> I = {#x#}"
  shows "A \<subseteq># B"
  using assms(2)
proof
  assume "I = {#}"
  then show ?thesis using assms(1) by (metis add.right_neutral mset_subset_eq_add_left)
next
  assume "I = {#x#}"
  then show ?thesis using assms(1) by simp
qed

lemma entry_at_bucket:
  assumes "entry_at d (i, b, p) = Some kv"
  shows "b < length (table (get_ht d i))" "p < length (table (get_ht d i) ! b)"
    "table (get_ht d i) ! b ! p = kv"
  using assms by (auto simp: entry_at_def bucket_get_def split: if_splits)

lemma entry_at_table:
  assumes inv: "dict_inv d" and e: "entry_at d (i, b, p) = Some kv" and i: "i \<le> 1"
  shows "ht_ok (hashFunction (dtype d)) (get_ht d i)" "i = 1 \<longrightarrow> dictIsRehashing d"
  using inv entry_at_bucket(1) [OF e] i unfolding dict_inv_def hash_of_type
  by (auto simp: get_ht_def dictReset_def split: if_splits)

lemma replace_bucket_ok:
  assumes inv: "dict_inv d" and e: "entry_at d (i, b, p) = Some kv" and i: "i \<le> 1"
    and c: "mset c + {#kv#} = mset (table (get_ht d i) ! b) + M"
    and M: "M = {#} \<or> (\<exists>v. M = {#(fst kv, v)#})"
    and u: "u = used (get_ht d i) - 1 + size M"
  defines "t' \<equiv> (get_ht d i)\<lparr>table := (table (get_ht d i))[b := c], used := u\<rparr>"
  shows "dict_inv (set_ht d i t')" "mset (entries (set_ht d i t')) + {#kv#} = mset (entries d) + M"
proof -
  let ?t = "get_ht d i"
  note ok = entry_at_table [OF inv e i] and bk = entry_at_bucket [OF e]
  have "kv \<in> set (table ?t ! b)" using bk by (metis nth_mem)
  then have fstc: "fst ` set c \<subseteq> fst ` set (table ?t ! b)"
    using arg_cong [OF c, of set_mset] M by auto
  have "\<forall>x \<in> set c. unat (hashFunction (dtype d) (fst x)) AND sizemask ?t = b"
  proof
    fix x assume "x \<in> set c"
    then obtain y where "y \<in> set (table ?t ! b)" "fst x = fst y" using fstc by auto
    then show "unat (hashFunction (dtype d) (fst x)) AND sizemask ?t = b"
      using ht_ok_hash [OF ok(1) bk(1)] by simp
  qed
  moreover have len: "length c + 1 = length (table ?t ! b) + size M"
    using arg_cong [OF c, of size] by simp
  moreover have upos: "length (table ?t ! b) \<le> used ?t"
    using ok(1) arg_cong [OF mset_concat_update [OF bk(1), of "[]"], of size]
    by (simp add: ht_ok_def del: length_concat)
  ultimately have tok: "ht_ok (hashFunction (dtype d)) t'"
    using bk(2) unfolding t'_def by (intro ht_ok_update [OF ok(1) bk(1)]) (simp_all add: u)
  have "mset (concat (table t')) + mset (table ?t ! b) = mset (concat (table ?t)) + mset c"
    using mset_concat_update [OF bk(1), of c] by (simp add: t'_def)
  then have "mset (concat (table t')) + (mset (table ?t ! b) + {#kv#}) =
      mset (concat (table ?t)) + (mset c + {#kv#})"
    by (simp add: union_assoc [symmetric])
  then have ct: "mset (concat (table t')) + {#kv#} = mset (concat (table ?t)) + M"
    unfolding c by (simp add: ac_simps)
  have "mset (entries (set_ht d i t')) + mset (concat (table ?t)) + {#kv#} =
      mset (entries d) + mset (concat (table ?t)) + M"
    using entries_set_ht [OF i, of d t'] ct by (metis add.assoc add.commute)
  then show ms: "mset (entries (set_ht d i t')) + {#kv#} = mset (entries d) + M"
    by (simp add: ac_simps)
  have "image_mset fst (mset (entries (set_ht d i t'))) + {#fst kv#} =
      image_mset fst (mset (entries d)) + image_mset fst M"
    using arg_cong [OF ms, of "image_mset fst"] by simp
  then have "mset (map fst (entries (set_ht d i t'))) \<subseteq># mset (map fst (entries d))"
    using M by (intro sub_mset_one [of _ "fst kv" _ "image_mset fst M"]) auto
  then have "distinct (map fst (entries (set_ht d i t')))"
    using inv distinct_subset_mset unfolding dict_inv_def by blast
  moreover have "table t' ! j = []" if "j < nat (rehashidx d)" "i = 0" "table (ht0 d) ! j = []" for j
    using that bk by (cases "j = b") (auto simp: t'_def get_ht_def)
  ultimately show "dict_inv (set_ht d i t')"
    using i ok(2) tok by (intro set_ht_inv [OF inv]) (auto simp: t'_def)
qed

lemma mset_remove_nth:
  assumes "p < length c"
  shows "mset (take p c @ drop (Suc p) c) + {#c ! p#} = mset c"
  using arg_cong [OF id_take_nth_drop [OF assms], of mset] by simp

lemma mset_update_nth:
  assumes "p < length c"
  shows "mset (c[p := x]) + {#c ! p#} = mset c + {#x#}"
  using assms by (simp add: mset_update)

lemma dictSetVal_ok:
  assumes inv: "dict_inv d" and ty: "dictType_ok (dtype d)"
    and e: "entry_at d r = Some (key, v0)" and i: "fst r \<le> 1"
  shows "\<exists>d'. dictSetVal d r v = Some d' \<and> dict_inv d' \<and> dtype d' = dtype d \<and> iterators d' = iterators d \<and>
     mset (entries d') + {#(key, v0)#} = mset (entries d) + {#(key, v)#}"
proof -
  obtain j b p where r: "r = (j, b, p)" by (cases r)
  let ?t = "get_ht d j"
  note e' = e [unfolded r] and j = i [unfolded r fst_conv]
  note bk = entry_at_bucket [OF e']
  define c where "c = (table ?t ! b)[p := (key, v)]"
  define t' where "t' = ?t\<lparr>table := (table ?t)[b := c], used := used ?t\<rparr>"
  have c: "mset c + {#(key, v0)#} = mset (table ?t ! b) + {#(key, v)#}"
    using mset_update_nth [OF bk(2), of "(key, v)"] bk(3) by (simp add: c_def)
  have "concat (table ?t) \<noteq> []" using bk nth_mem by fastforce
  then have "used ?t \<noteq> 0"
    using entry_at_table(1) [OF inv e' j] by (simp add: ht_ok_def del: length_concat concat_eq_Nil_conv)
  then have u: "used ?t = used ?t - 1 + size {#(key, v)#}" by simp
  have "dictSetVal d r v = Some (set_ht d j t')"
    using bk ty by (simp add: r dictSetVal_def bucket_get_def bucket_set_def c_def t'_def dictType_ok_def)
  then show ?thesis
    using replace_bucket_ok [OF inv e' j c _ u] by (simp add: t'_def)
qed

lemma unlink_ok:
  assumes inv: "dict_inv d" and e: "entry_at d r = Some (key, v0)" and i: "fst r \<le> 1"
  shows "\<exists>d'. unlink d r = Some d' \<and> dict_inv d' \<and> dtype d' = dtype d \<and> iterators d' = iterators d \<and>
     mset (entries d') + {#(key, v0)#} = mset (entries d)"
proof -
  obtain j b p where r: "r = (j, b, p)" by (cases r)
  let ?t = "get_ht d j"
  note e' = e [unfolded r] and j = i [unfolded r fst_conv]
  note bk = entry_at_bucket [OF e']
  define c where "c = take p (table ?t ! b) @ drop (Suc p) (table ?t ! b)"
  define t' where "t' = ?t\<lparr>table := (table ?t)[b := c], used := used ?t - 1\<rparr>"
  have c: "mset c + {#(key, v0)#} = mset (table ?t ! b) + {#}"
    using mset_remove_nth [OF bk(2)] bk(3) by (simp add: c_def)
  have u: "used ?t - 1 = used ?t - 1 + size {#}" by simp
  have "unlink d r = Some (set_ht d j t')"
    using bk by (simp add: r unlink_def bucket_get_def bucket_set_def c_def t'_def)
  then show ?thesis
    using replace_bucket_ok [OF inv e' j c _ u] by (simp add: t'_def)
qed

text \<open>The effect of such a change on the map.\<close>

lemma dict_map_add:
  assumes inv: "dict_inv d" and inv': "dict_inv d'" and ms: "mset (entries d') = add_mset (key, v) (mset (entries d))"
  shows "key \<notin> dom (dict_map d)" "dict_map d' = (dict_map d)(key \<mapsto> v)"
proof -
  have "mset (map fst (entries d')) = mset (map fst ((key, v) # entries d))" using ms by simp
  then have "distinct (map fst ((key, v) # entries d))"
    using inv' mset_eq_imp_distinct_iff unfolding dict_inv_def by blast
  then show new: "key \<notin> dom (dict_map d)" by (simp add: dict_map_def dom_map_of_conv_image_fst)
  show "dict_map d' = (dict_map d)(key \<mapsto> v)"
    using new dict_map_iff [OF inv] unfolding ms
    by (intro dict_map_eqI [OF inv']) (auto simp: ms)
qed

lemma dict_map_remove:
  assumes inv: "dict_inv d" and inv': "dict_inv d'" and ms: "mset (entries d') + {#(key, v)#} = mset (entries d)"
  shows "dict_map d' = (dict_map d)(key := None)"
proof -
  have ms': "mset (entries d) = add_mset (key, v) (mset (entries d'))" using ms by simp
  note a = dict_map_add [OF inv' inv ms']
  then show ?thesis by auto
qed

lemma dict_map_update:
  assumes inv: "dict_inv d" and inv': "dict_inv d'" and m: "dict_map d key = Some v0"
    and ms: "mset (entries d') + {#(key, v0)#} = mset (entries d) + {#(key, v)#}"
  shows "dict_map d' = (dict_map d)(key \<mapsto> v)"
proof (cases "v = v0")
  case True
  then have "dict_map d' = dict_map d"
    using ms dict_map_iff [OF inv] by (intro dict_map_eqI [OF inv']) simp
  then show ?thesis using m True by auto
next
  case False
  have key: "(key, v) \<in># mset (entries d')"
    using False arg_cong [OF ms, of set_mset] by auto
  have other: "(k, w) \<in># mset (entries d') \<longleftrightarrow> (k, w) \<in># mset (entries d)" if "k \<noteq> key" for k w
    using that arg_cong [OF ms, of set_mset] by auto
  show ?thesis
  proof (rule dict_map_eqI [OF inv'])
    fix k w
    show "(k, w) \<in># mset (entries d') \<longleftrightarrow> ((dict_map d)(key \<mapsto> v)) k = Some w"
      using key other [of k w] entries_unique [OF inv' key, of w] dict_map_iff [OF inv, of k w]
      by (cases "k = key") auto
  qed
qed

section \<open>The operations on the map\<close>

text \<open>What every operation keeps besides the map it changes.\<close>

definition frame :: "('k, 'v) dict \<Rightarrow> ('k, 'v) dict \<Rightarrow> bool" where
  "frame d d' \<longleftrightarrow> dict_inv d' \<and> dtype d' = dtype d \<and> iterators d' = iterators d"

lemma frame_trans: "frame d d' \<Longrightarrow> frame d' d'' \<Longrightarrow> frame d d''"
  by (simp add: frame_def)

lemma keeps_frame: "keeps d d' \<Longrightarrow> frame d d'"
  by (simp add: keeps_def frame_def)

lemma dictFetchValue_ok:
  assumes "dict_inv d" "dictType_ok (dtype d)"
  shows "\<exists>d'. dictFetchValue d key = Some (d', dict_map d key) \<and> frame d d' \<and> dict_map d' = dict_map d"
proof -
  obtain d' r where f: "dictFind d key = Some (d', r)" "find_result d key d' r"
    using dictFind_ok [OF assms] by blast
  then have k: "keeps d d'" by (simp add: find_result_def)
  have "dictFetchValue d key = Some (d', dict_map d key)"
    using f by (cases r) (auto simp: dictFetchValue_def find_result_def)
  then show ?thesis using keeps_frame [OF k] dict_map_keeps [OF assms(1) k] by blast
qed

lemma dictAdd_ok:
  assumes inv: "dict_inv d" and ty: "dictType_ok (dtype d)" and room: "dictSize d < 2 ^ 30"
  shows "\<exists>d'. dictAdd cr u d key v = Some (d', key \<notin> dom (dict_map d)) \<and> frame d d' \<and>
     dict_map d' = (if key \<in> dom (dict_map d) then dict_map d else (dict_map d)(key \<mapsto> v))"
proof -
  obtain d1 r where a: "dictAddRaw cr u d key = Some (d1, r)" "add_result d key u d1 r"
    using dictAddRaw_ok [OF assms] by blast
  show ?thesis
  proof (cases r)
    case None
    then have k: "keeps d d1" and dom: "key \<in> dom (dict_map d)" using a(2) by (simp_all add: add_result_def)
    have "dictAdd cr u d key v = Some (d1, key \<notin> dom (dict_map d))"
      using a(1) None dom by (simp add: dictAdd_def)
    then show ?thesis using keeps_frame [OF k] dict_map_keeps [OF inv k] dom by simp
  next
    case (Some e)
    then have d1: "key \<notin> dom (dict_map d)" "dict_inv d1" "dtype d1 = dtype d" "iterators d1 = iterators d"
      "fst e \<le> 1" "entry_at d1 e = Some (key, u)" and ms: "mset (entries d1) = add_mset (key, u) (mset (entries d))"
      using a(2) by (simp_all add: add_result_def)
    obtain d2 where d2: "dictSetVal d1 e v = Some d2" "dict_inv d2" "dtype d2 = dtype d1" "iterators d2 = iterators d1"
      "mset (entries d2) + {#(key, u)#} = mset (entries d1) + {#(key, v)#}"
      using dictSetVal_ok [OF d1(2) _ d1(6,5)] ty d1(3) by auto
    then have "mset (entries d2) = add_mset (key, v) (mset (entries d))" using ms by simp
    then have "dict_map d2 = (dict_map d)(key \<mapsto> v)" using dict_map_add [OF inv d2(2)] by blast
    moreover have "dictAdd cr u d key v = Some (d2, key \<notin> dom (dict_map d))"
      using a(1) Some d1(1) d2(1) by (simp add: dictAdd_def)
    ultimately show ?thesis using d1 d2 by (simp add: frame_def)
  qed
qed

lemma dictReplace_ok:
  assumes inv: "dict_inv d" and ty: "dictType_ok (dtype d)" and room: "dictSize d < 2 ^ 30"
  shows "\<exists>d'. dictReplace cr u d key v = Some (d', key \<notin> dom (dict_map d)) \<and> frame d d' \<and>
     dict_map d' = (dict_map d)(key \<mapsto> v)"
proof -
  obtain d1 where a: "dictAdd cr u d key v = Some (d1, key \<notin> dom (dict_map d))" and fr: "frame d d1"
    and m1: "dict_map d1 = (if key \<in> dom (dict_map d) then dict_map d else (dict_map d)(key \<mapsto> v))"
    using dictAdd_ok [OF assms] by blast
  show ?thesis
  proof (cases "key \<in> dom (dict_map d)")
    case False
    then show ?thesis using a fr m1 by (simp add: dictReplace_def)
  next
    case True
    have inv1: "dict_inv d1" and ty1: "dictType_ok (dtype d1)" using fr ty by (simp_all add: frame_def)
    obtain d2 r where f: "dictFind d1 key = Some (d2, r)" "find_result d1 key d2 r"
      using dictFind_ok [OF inv1 ty1] by blast
    then have k: "keeps d1 d2" by (simp add: find_result_def)
    have "r \<noteq> None" using f(2) True m1 by (cases r) (auto simp: find_result_def)
    then obtain e v0 where e: "r = Some e" "fst e \<le> 1" "entry_at d2 e = Some (key, v0)" "dict_map d1 key = Some v0"
      using f(2) by (auto simp: find_result_def)
    have inv2: "dict_inv d2" and ty2: "dictType_ok (dtype d2)" using k ty1 by (simp_all add: keeps_def)
    obtain d3 where d3: "dictSetVal d2 e v = Some d3" "dict_inv d3" "dtype d3 = dtype d2" "iterators d3 = iterators d2"
      "mset (entries d3) + {#(key, v0)#} = mset (entries d2) + {#(key, v)#}"
      using dictSetVal_ok [OF inv2 ty2 e(3,2)] by blast
    have m2: "dict_map d2 = dict_map d1" by (rule dict_map_keeps [OF inv1 k])
    then have "dict_map d3 = (dict_map d)(key \<mapsto> v)"
      using dict_map_update [OF inv2 d3(2) _ d3(5)] e(4) m1 True by simp
    moreover have "dictReplace cr u d key v = Some (d3, key \<notin> dom (dict_map d))"
      using a True f(1) e(1) d3(1) by (simp add: dictReplace_def)
    moreover have "frame d d3" using fr k d3 by (simp add: frame_def keeps_def)
    ultimately show ?thesis by blast
  qed
qed

lemma dictDelete_ok:
  assumes inv: "dict_inv d" and ty: "dictType_ok (dtype d)"
  shows "\<exists>d'. dictDelete d key = Some (d', key \<in> dom (dict_map d)) \<and> frame d d' \<and>
     dict_map d' = (dict_map d)(key := None)"
proof (cases "ht_size (ht0 d) = 0")
  case True
  then have "ht0 d = dictReset" "ht1 d = dictReset"
    using inv unfolding dict_inv_def ht_ok_def by (auto split: if_splits)
  then have "dict_map d = Map.empty" by (simp add: dict_map_def entries_def dictReset_def)
  then show ?thesis
    using True inv by (simp add: dictDelete_def dictGenericDelete_def frame_def)
next
  case False
  then have "ht0 d \<noteq> dictReset" by (auto simp: dictReset_def)
  then have ok: "ht_ok (hashFunction (dtype d)) (ht0 d)" by (rule ht0_proper [OF inv])
  obtain d1 where d1: "step_if_rehashing d = Some d1" "keeps d d1"
    using step_if_rehashing_ok [OF inv] by blast
  obtain r where r: "find_both d1 key = Some r" "find_result d key d1 r"
    using find_both_ok [OF inv ty d1(2)] d1(2) ok by (auto simp: keeps_def)
  have del: "dictDelete d key = (case r of None \<Rightarrow> Some (d1, False)
      | Some e \<Rightarrow> map_option (\<lambda>d. (d, True)) (unlink d1 e))"
    using False d1(1) r(1)
    by (auto simp: dictDelete_def dictGenericDelete_def find_both_def map_option_case
        split: option.splits if_splits Option.bind_splits)
  have m1: "dict_map d1 = dict_map d" and inv1: "dict_inv d1"
    using dict_map_keeps [OF inv d1(2)] d1(2) by (simp_all add: keeps_def)
  show ?thesis
  proof (cases r)
    case None
    then have "dict_map d key = None" using r(2) by (simp add: find_result_def)
    moreover have "(dict_map d)(key := None) = dict_map d" using calculation by auto
    ultimately show ?thesis using del None keeps_frame [OF d1(2)] m1 by (simp add: domIff)
  next
    case (Some e)
    then obtain v0 where e: "fst e \<le> 1" "entry_at d1 e = Some (key, v0)" "dict_map d key = Some v0"
      using r(2) by (auto simp: find_result_def)
    obtain d2 where d2: "unlink d1 e = Some d2" "dict_inv d2" "dtype d2 = dtype d1" "iterators d2 = iterators d1"
      "mset (entries d2) + {#(key, v0)#} = mset (entries d1)"
      using unlink_ok [OF inv1 e(2,1)] by blast
    then have "dict_map d2 = (dict_map d)(key := None)"
      using dict_map_remove [OF inv1 d2(2,5)] m1 by simp
    then show ?thesis using del Some d2 e(3) d1(2) by (simp add: frame_def keeps_def domIff)
  qed
qed

lemma dictCreate_inv [simp]:
  "dict_inv (dictCreate t)" "dict_map (dictCreate t) = Map.empty" "dtype (dictCreate t) = t"
  by (simp_all add: dict_inv_def dictCreate_def dictIsRehashing_def entries_def dictReset_def dict_map_def)

lemma dictEmpty_ok:
  "dict_inv (dictEmpty d)" "dict_map (dictEmpty d) = Map.empty" "dtype (dictEmpty d) = dtype d"
  by (simp_all add: dict_inv_def dictEmpty_def dictClear_def dictIsRehashing_def entries_def
      dictReset_def dict_map_def)

section \<open>The map interface\<close>

text \<open>
  What the users of a dictionary rely on: every operation succeeds, keeps the invariant, returns
  what the map says and changes the map as its name tells. \<open>'e\<close> is the environment of an
  operation (for \<^verbatim>\<open>dict.c\<close> the resize switch and the contents of fresh memory), which has no
  influence on results.
\<close>

datatype ('e, 'k, 'v) map_op = Fetch 'k | Add 'e 'k 'v | Replace 'e 'k 'v | Delete 'k

datatype 'v map_out = Found "'v option" | Flag bool

fun store_run ::
  "('s \<Rightarrow> 'k \<Rightarrow> ('s \<times> 'v option) option) \<Rightarrow> ('e \<Rightarrow> 's \<Rightarrow> 'k \<Rightarrow> 'v \<Rightarrow> ('s \<times> bool) option) \<Rightarrow>
   ('e \<Rightarrow> 's \<Rightarrow> 'k \<Rightarrow> 'v \<Rightarrow> ('s \<times> bool) option) \<Rightarrow> ('s \<Rightarrow> 'k \<Rightarrow> ('s \<times> bool) option) \<Rightarrow>
   ('e, 'k, 'v) map_op list \<Rightarrow> 's \<Rightarrow> ('s \<times> 'v map_out list) option" where
  "store_run fetch add repl del [] s = Some (s, [])"
| "store_run fetch add repl del (op # ops) s = do {
     (s, out) \<leftarrow> (case op of
        Fetch k \<Rightarrow> map_option (map_prod id Found) (fetch s k)
      | Add e k v \<Rightarrow> map_option (map_prod id Flag) (add e s k v)
      | Replace e k v \<Rightarrow> map_option (map_prod id Flag) (repl e s k v)
      | Delete k \<Rightarrow> map_option (map_prod id Flag) (del s k));
     (s, outs) \<leftarrow> store_run fetch add repl del ops s;
     Some (s, out # outs) }"

fun map_step :: "('e, 'k, 'v) map_op \<Rightarrow> ('k \<Rightarrow> 'v option) \<Rightarrow> ('k \<Rightarrow> 'v option) \<times> 'v map_out" where
  "map_step (Fetch k) m = (m, Found (m k))"
| "map_step (Add e k v) m = (if k \<in> dom m then (m, Flag False) else (m(k \<mapsto> v), Flag True))"
| "map_step (Replace e k v) m = (m(k \<mapsto> v), Flag (k \<notin> dom m))"
| "map_step (Delete k) m = (m(k := None), Flag (k \<in> dom m))"

fun map_run :: "('e, 'k, 'v) map_op list \<Rightarrow> ('k \<Rightarrow> 'v option) \<Rightarrow> ('k \<Rightarrow> 'v option) \<times> 'v map_out list" where
  "map_run [] m = (m, [])"
| "map_run (op # ops) m = (case map_step op m of (m, out) \<Rightarrow> (case map_run ops m of (m, outs) \<Rightarrow> (m, out # outs)))"

locale map_store =
  fixes invar :: "'s \<Rightarrow> bool"
    and abs_map :: "'s \<Rightarrow> 'k \<Rightarrow> 'v option"
    and fetch :: "'s \<Rightarrow> 'k \<Rightarrow> ('s \<times> 'v option) option"
    and add :: "'e \<Rightarrow> 's \<Rightarrow> 'k \<Rightarrow> 'v \<Rightarrow> ('s \<times> bool) option"
    and repl :: "'e \<Rightarrow> 's \<Rightarrow> 'k \<Rightarrow> 'v \<Rightarrow> ('s \<times> bool) option"
    and del :: "'s \<Rightarrow> 'k \<Rightarrow> ('s \<times> bool) option"
    and capacity :: nat
  assumes finite_dom: "invar s \<Longrightarrow> finite (dom (abs_map s))"
    and fetch_spec: "invar s \<Longrightarrow> \<exists>s'. fetch s k = Some (s', abs_map s k) \<and> invar s' \<and> abs_map s' = abs_map s"
    and add_spec: "invar s \<Longrightarrow> card (dom (abs_map s)) < capacity \<Longrightarrow>
      \<exists>s'. add e s k v = Some (s', k \<notin> dom (abs_map s)) \<and> invar s' \<and>
        abs_map s' = (if k \<in> dom (abs_map s) then abs_map s else (abs_map s)(k \<mapsto> v))"
    and repl_spec: "invar s \<Longrightarrow> card (dom (abs_map s)) < capacity \<Longrightarrow>
      \<exists>s'. repl e s k v = Some (s', k \<notin> dom (abs_map s)) \<and> invar s' \<and> abs_map s' = (abs_map s)(k \<mapsto> v)"
    and del_spec: "invar s \<Longrightarrow>
      \<exists>s'. del s k = Some (s', k \<in> dom (abs_map s)) \<and> invar s' \<and> abs_map s' = (abs_map s)(k := None)"
begin

text \<open>One operation is simulated by its meaning on maps.\<close>

lemma step_refines:
  assumes "invar s" "card (dom (abs_map s)) < capacity"
  shows "\<exists>s' out. (case op of
        Fetch k \<Rightarrow> map_option (map_prod id Found) (fetch s k)
      | Add e k v \<Rightarrow> map_option (map_prod id Flag) (add e s k v)
      | Replace e k v \<Rightarrow> map_option (map_prod id Flag) (repl e s k v)
      | Delete k \<Rightarrow> map_option (map_prod id Flag) (del s k)) = Some (s', out) \<and>
    invar s' \<and> map_step op (abs_map s) = (abs_map s', out)"
proof (cases op)
  case (Fetch k)
  then show ?thesis using fetch_spec [OF assms(1), of k] by auto
next
  case (Add e k v)
  then show ?thesis using add_spec [OF assms, of e k v] by (auto split: if_splits)
next
  case (Replace e k v)
  then show ?thesis using repl_spec [OF assms, of e k v] by auto
next
  case (Delete k)
  then show ?thesis using del_spec [OF assms(1), of k] by auto
qed

lemma step_card: "finite (dom m) \<Longrightarrow> card (dom (fst (map_step op m))) \<le> Suc (card (dom m))"
  by (cases op) (auto simp: card_insert_if intro: card_mono le_SucI)

theorem run_refines:
  "invar s \<Longrightarrow> card (dom (abs_map s)) + length ops \<le> capacity \<Longrightarrow>
   \<exists>s' outs. store_run fetch add repl del ops s = Some (s', outs) \<and> invar s' \<and>
     map_run ops (abs_map s) = (abs_map s', outs)"
proof (induction ops arbitrary: s)
  case (Cons op ops)
  obtain s1 out where s1: "(case op of
        Fetch k \<Rightarrow> map_option (map_prod id Found) (fetch s k)
      | Add e k v \<Rightarrow> map_option (map_prod id Flag) (add e s k v)
      | Replace e k v \<Rightarrow> map_option (map_prod id Flag) (repl e s k v)
      | Delete k \<Rightarrow> map_option (map_prod id Flag) (del s k)) = Some (s1, out)"
    "invar s1" "map_step op (abs_map s) = (abs_map s1, out)"
    using step_refines [OF Cons.prems(1), of op] Cons.prems(2) by auto
  have "card (dom (abs_map s1)) \<le> Suc (card (dom (abs_map s)))"
    using step_card [OF finite_dom [OF Cons.prems(1)], of op] s1(3) by simp
  then obtain s' outs where "store_run fetch add repl del ops s1 = Some (s', outs)" "invar s'"
    "map_run ops (abs_map s1) = (abs_map s', outs)"
    using Cons.IH [OF s1(2)] Cons.prems(2) by auto
  then show ?case using s1 by simp
qed simp

end

interpretation hash_dict: map_store
  "\<lambda>d. dict_inv d \<and> dictType_ok (dtype d)" dict_map dictFetchValue
  "\<lambda>(cr, u). dictAdd cr u" "\<lambda>(cr, u). dictReplace cr u" dictDelete "2 ^ 30"
proof (unfold_locales, goal_cases)
  case (1 s)
  then show ?case by (simp add: dict_map_def finite_dom_map_of)
next
  case (2 s k)
  then show ?case using dictFetchValue_ok [of s k] by (auto simp: frame_def)
next
  case (3 s e k v)
  then show ?case using dictAdd_ok [of s "fst e" "snd e" k v] dictSize_card [of s] by (cases e) (auto simp: frame_def)
next
  case (4 s e k v)
  then show ?case using dictReplace_ok [of s "fst e" "snd e" k v] dictSize_card [of s] by (cases e) (auto simp: frame_def)
next
  case (5 s k)
  then show ?case using dictDelete_ok [of s k] by (auto simp: frame_def)
qed

section \<open>Rehashing comes to an end\<close>

text \<open>Calling \<^verbatim>\<open>dictRehash(d,1)\<close> again and again, as the operations do.\<close>

fun rehash_steps :: "nat \<Rightarrow> ('k, 'v) dict \<Rightarrow> ('k, 'v) dict option" where
  "rehash_steps 0 d = Some d"
| "rehash_steps (Suc k) d = do { (d, _) \<leftarrow> dictRehash d 1; rehash_steps k d }"

lemma rehash_idle: "\<not> dictIsRehashing d \<Longrightarrow> dictRehash d n = Some (d, False)"
  by (simp add: dictRehash_def)

lemma rehash_steps_idle: "\<not> dictIsRehashing d \<Longrightarrow> rehash_steps k d = Some d"
  by (induction k) (simp_all add: rehash_idle)

lemma rehash_ok_keeps:
  "rehash_ok n d (d', again) \<Longrightarrow> keeps d d'"
  by (simp add: keeps_def)

lemma rehash_steps_ok:
  "dict_inv d \<Longrightarrow> dictIsRehashing d \<Longrightarrow> ht_size (ht0 d) < nat (rehashidx d) + k \<Longrightarrow>
   \<exists>d'. rehash_steps k d = Some d' \<and> keeps d d' \<and> \<not> dictIsRehashing d'"
proof (induction k arbitrary: d)
  case 0
  then have "rehashidx d \<le> int (ht_size (ht0 d))" by (simp add: dict_inv_def)
  then show ?case using 0 by linarith
next
  case (Suc k)
  obtain d1 again where r: "dictRehash d 1 = Some (d1, again)" "rehash_ok 1 d (d1, again)"
    using dictRehash_ok [OF Suc.prems(1,2), of 1] by auto
  have k1: "keeps d d1" using rehash_ok_keeps [OF r(2)] .
  show ?case
  proof (cases again)
    case True
    have "0 \<le> rehashidx d" using Suc.prems(1,2) by (simp add: dict_inv_def)
    then have "\<exists>d'. rehash_steps k d1 = Some d' \<and> keeps d1 d' \<and> \<not> dictIsRehashing d'"
      using r(2) True Suc.prems(3) by (intro Suc.IH) auto
    then show ?thesis using r(1) keeps_trans [OF k1] by auto
  next
    case False
    then have "\<not> dictIsRehashing d1" using r(2) by simp
    then show ?thesis using r(1) rehash_steps_idle [of d1 k] k1 by simp
  qed
qed

lemma dictRehashMilliseconds_ok:
  "dict_inv d \<Longrightarrow> True \<in> set expired \<or> ht_size (ht0 d) + 1 < nat (rehashidx d + 1) + length expired \<Longrightarrow>
   \<exists>d' n. dictRehashMilliseconds expired rehashes d = Some (d', n) \<and> keeps d d' \<and>
     (True \<notin> set expired \<longrightarrow> \<not> dictIsRehashing d')"
proof (induction expired rehashes d rule: dictRehashMilliseconds.induct)
  case (1 rehashes d)
  then show ?case by (auto simp: dict_inv_def dictIsRehashing_def split: if_splits)
next
  case (2 e expired rehashes d)
  show ?case
  proof (cases "dictIsRehashing d")
    case False
    then show ?thesis using keeps_refl [OF 2(2)] by (simp add: rehash_idle)
  next
    case True
    obtain d1 again where r: "dictRehash d 100 = Some (d1, again)" "rehash_ok 100 d (d1, again)"
      using dictRehash_ok [OF 2(2) True, of 100] by auto
    have k1: "keeps d d1" using rehash_ok_keeps [OF r(2)] .
    consider "\<not> again" | "again" "e" | "again" "\<not> e" by blast
    then show ?thesis
    proof cases
      case 3
      have "0 \<le> rehashidx d" using 2(2) True by (simp add: dict_inv_def)
      then have "\<exists>d' n. dictRehashMilliseconds expired (rehashes + 100) d1 = Some (d', n) \<and> keeps d1 d' \<and>
          (True \<notin> set expired \<longrightarrow> \<not> dictIsRehashing d')"
        using r 2(3) 3 by (intro 2(1)) auto
      then show ?thesis using r(1) 3 keeps_trans [OF k1] by auto
    qed (use r k1 in auto)
  qed
qed

section \<open>Properties\<close>

definition dict_run ::
  "(bool \<times> 'v, 'k, 'v) map_op list \<Rightarrow> ('k, 'v) dict \<Rightarrow> (('k, 'v) dict \<times> 'v map_out list) option" where
  "dict_run = store_run dictFetchValue (\<lambda>(cr, u). dictAdd cr u) (\<lambda>(cr, u). dictReplace cr u) dictDelete"

text \<open>A type with integer keys, compared by the default comparison, for the examples.\<close>

definition intDictType :: "(uint32, nat) dictType" where
  "intDictType = \<lparr>hashFunction = dictIntHashFunction, keyDup = None, valDup = None, keyCompare = None\<rparr>"

lemma intDictType_ok: "dictType_ok intDictType"
  by (simp add: dictType_ok_def intDictType_def dup_def)

text \<open>A dictionary in the middle of a resize from 4 to 8 buckets.\<close>

definition rehash_sample :: "(uint32, nat) dict" where
  "rehash_sample =
     \<lparr>dtype = \<lparr>hashFunction = (\<lambda>k. k), keyDup = None, valDup = None, keyCompare = None\<rparr>,
      ht0 = \<lparr>table = [[], [], [(2, 20)], [(3, 30), (7, 70)]], ht_size = 4, sizemask = 3, used = 3\<rparr>,
      ht1 = \<lparr>table = [[], [(1, 10)], [], [], [], [], [], []], ht_size = 8, sizemask = 7, used = 1\<rparr>,
      rehashidx = 2, iterators = 0\<rparr>"

lemma rehash_sample_inv: "dict_inv rehash_sample" "dictIsRehashing rehash_sample"
  by code_simp+

text \<open>
  C5. Refinement of the hash table to a map: from any state that satisfies the invariant, any
  sequence of lookups, insertions, replacements and deletions that can not exceed \<open>2 ^ 30\<close>
  entries runs without a failed assertion, an access outside a table or an endless loop, keeps
  the invariant, returns for every operation what the finite map returns (the value found, whether
  the key was added, replaced or deleted) and leaves the map that results, although every operation
  may rehash a bucket, start a resize or finish one.
\<close>

theorem dict_run_refines_map:
  assumes "dict_inv d" "dictType_ok (dtype d)" "dictSize d + length ops \<le> 2 ^ 30"
  shows "\<exists>d' outs. dict_run ops d = Some (d', outs) \<and> dict_inv d' \<and> dictType_ok (dtype d') \<and>
    map_run ops (dict_map d) = (dict_map d', outs)"
  using hash_dict.run_refines [of d ops] assms dictSize_card [of d] unfolding dict_run_def by auto

theorem dict_run_refines_map_witness:
  "\<exists>d' outs. dict_run [Add (True, 0) 7 1, Add (True, 0) 7 2, Replace (False, 9) 7 3, Fetch 7, Delete 7, Fetch 7]
      (dictCreate intDictType) = Some (d', outs) \<and> dict_inv d' \<and> dictType_ok (dtype d') \<and>
    map_run [Add (True, 0) 7 1, Add (True, 0) 7 2, Replace (False, 9 :: nat) 7 3, Fetch 7, Delete 7, Fetch 7]
      (dict_map (dictCreate intDictType)) = (dict_map d', outs)"
  by (rule dict_run_refines_map) (simp_all add: intDictType_ok dictSize_def dictCreate_def dictReset_def
      dict_inv_def dictIsRehashing_def entries_def)

text \<open>
  Incremental rehashing: a call of \<^verbatim>\<open>dictRehash\<close> with any number of steps on a rehashing
  dictionary returns, keeps the invariant and the map, reports whether rehashing goes on, and has
  moved the index forward when it does.
\<close>

theorem dictRehash_keeps_map:
  assumes "dict_inv d" "dictIsRehashing d"
  shows "\<exists>d' again. dictRehash d n = Some (d', again) \<and> dict_inv d' \<and> dict_map d' = dict_map d \<and>
    dictSize d' = dictSize d \<and> again = dictIsRehashing d' \<and>
    (again \<and> n \<noteq> 0 \<longrightarrow> rehashidx d < rehashidx d' \<and> rehashidx d' \<le> int (ht_size (ht0 d')))"
proof -
  obtain d' again where r: "dictRehash d n = Some (d', again)" "rehash_ok n d (d', again)"
    using dictRehash_ok [OF assms] by fastforce
  then have k: "keeps d d'" using rehash_ok_keeps by blast
  have "dictSize d' = dictSize d"
    using k dictSize_length [OF assms(1)] dictSize_length [of d'] by (auto simp: keeps_def dest: mset_eq_length)
  then show ?thesis using r dict_map_keeps [OF assms(1) k] by (auto simp: dict_inv_def)
qed

theorem dictRehash_keeps_map_witness:
  "\<exists>d' again. dictRehash rehash_sample 1 = Some (d', again) \<and> dict_inv d' \<and>
    dict_map d' = dict_map rehash_sample \<and> dictSize d' = dictSize rehash_sample \<and>
    again = dictIsRehashing d'"
  using dictRehash_keeps_map [OF rehash_sample_inv, of 1] by blast

text \<open>
  C28. Rehashing ends: one step per bucket of the old table, and one more, is always enough, and
  the dictionary then holds the same map in one table.
\<close>

theorem dictRehash_completes:
  assumes "dict_inv d" "dictIsRehashing d"
  shows "\<exists>d'. rehash_steps (Suc (ht_size (ht0 d))) d = Some d' \<and> \<not> dictIsRehashing d' \<and>
    dict_inv d' \<and> dict_map d' = dict_map d"
  using rehash_steps_ok [OF assms, of "Suc (ht_size (ht0 d))"] dict_map_keeps [OF assms(1)]
  by (auto simp: keeps_def)

theorem dictRehash_completes_witness:
  "\<exists>d'. rehash_steps (Suc (ht_size (ht0 rehash_sample))) rehash_sample = Some d' \<and> \<not> dictIsRehashing d' \<and>
    dict_inv d' \<and> dict_map d' = dict_map rehash_sample"
  by (rule dictRehash_completes [OF rehash_sample_inv])

text \<open>
  \<^verbatim>\<open>dictRehashMilliseconds\<close> returns whenever its clock runs out or is checked more often
  than the table has buckets, and keeps the map; when the clock does not run out the whole table
  is rehashed.
\<close>

theorem dictRehashMilliseconds_correct:
  assumes "dict_inv d" "True \<in> set expired \<or> ht_size (ht0 d) + 1 < length expired"
  shows "\<exists>d' n. dictRehashMilliseconds expired 0 d = Some (d', n) \<and> dict_inv d' \<and>
    dict_map d' = dict_map d \<and> (True \<notin> set expired \<longrightarrow> \<not> dictIsRehashing d')"
proof -
  have "True \<in> set expired \<or> ht_size (ht0 d) + 1 < nat (rehashidx d + 1) + length expired"
    using assms(2) by auto
  then obtain d' n where "dictRehashMilliseconds expired 0 d = Some (d', n)" "keeps d d'"
    "True \<notin> set expired \<longrightarrow> \<not> dictIsRehashing d'"
    using dictRehashMilliseconds_ok [OF assms(1)] by blast
  then show ?thesis using dict_map_keeps [OF assms(1)] by (auto simp: keeps_def)
qed

theorem dictRehashMilliseconds_correct_witness:
  "\<exists>d' n. dictRehashMilliseconds (replicate 10 False) 0 rehash_sample = Some (d', n) \<and> dict_inv d' \<and>
    dict_map d' = dict_map rehash_sample \<and> \<not> dictIsRehashing d'"
proof -
  have "ht_size (ht0 rehash_sample) + 1 < length (replicate 10 False)" by (simp add: rehash_sample_def)
  then show ?thesis
    using dictRehashMilliseconds_correct [OF rehash_sample_inv(1), of "replicate 10 False"] by auto
qed

text \<open>
  Table sizes: for every request below \<open>LONG_MAX\<close> the size computed is the least power of two
  from 4 on that is not smaller than the request.
\<close>

theorem dictNextPower_correct:
  assumes "sz < 2 ^ 63 - 1"
  shows "\<exists>k \<in> {2..63}. dictNextPower sz = Some (2 ^ k) \<and> sz \<le> 2 ^ k \<and> (k = 2 \<or> 2 ^ (k - 1) < sz)"
proof -
  have "dictNextPower sz = dictNextPower_loop (2 ^ 2) sz" using assms by (simp add: dictNextPower_def)
  moreover have "sz \<le> 2 ^ 63" using assms by simp
  ultimately show ?thesis using dictNextPower_loop_ok [of 2 63 sz] by auto
qed

theorem dictNextPower_correct_witness:
  "\<exists>k \<in> {2..63}. dictNextPower 1000 = Some (2 ^ k) \<and> 1000 \<le> (2::nat) ^ k \<and> (k = 2 \<or> 2 ^ (k - 1) < (1000::nat))"
  by (rule dictNextPower_correct) simp

end
