(* ===== verification/DictScan.thy ===== *)
theory DictScan
  imports Dict
begin

text \<open>
  \<^verbatim>\<open>dictScan\<close> of \<^verbatim>\<open>dict.c\<close>: the stateless iteration over a hash table that may be resized
  between the calls. The cursor is an unsigned long whose bits are incremented from the highest
  bit of the table mask downwards. The theory shows that the bit reversal is one, that a call
  emits exactly the entries whose reversed hash lies in the interval the cursor moves over, and
  from that the promise of the comment of the function: an element that stays in the dictionary from
  the start to the end of an iteration is returned, however the tables change in between. The promise
  needs a side condition on cursors that meet a shrinking table; a concrete run without it misses
  an element.
\<close>

section \<open>Bit reversal\<close>

function rev_loop :: "nat \<Rightarrow> uint64 \<Rightarrow> uint64 \<Rightarrow> uint64" where
  "rev_loop s msk v =
     (let s = s div 2 in
      if s > 0 then
        let msk = msk XOR push_bit s msk;
            v = (drop_bit s v AND msk) OR (push_bit s v AND NOT msk)
        in rev_loop s msk v
      else v)"
  by pat_completeness auto
termination
  by (relation "measure (\<lambda>(s, _, _). s)") auto

declare rev_loop.simps [simp del]

definition rev_ulong :: "uint64 \<Rightarrow> uint64" where
  "rev_ulong v = rev_loop (8 * 8) (NOT 0) v"

section \<open>Scanning\<close>

text \<open>
  The loop over the buckets of the larger table that expand the cursor; the entries passed to
  the callback are collected in order.
\<close>

partial_function (option) scan_expand ::
  "('k, 'v) dictht \<Rightarrow> uint64 \<Rightarrow> uint64 \<Rightarrow> uint64 \<Rightarrow> (uint64 \<times> ('k \<times> 'v) list) option" where
  "scan_expand t1 m0 m1 v = do {
     de \<leftarrow> bucket_get t1 (unat (v AND m1));
     let v = (((v OR m0) + 1) AND NOT m0) OR (v AND m0);
     if v AND (m0 XOR m1) \<noteq> 0 then do {
       (v, es) \<leftarrow> scan_expand t1 m0 m1 v;
       Some (v, de @ es)
     } else Some (v, de) }"

declare scan_expand.simps [code]

definition scan_advance :: "uint64 \<Rightarrow> uint64 \<Rightarrow> uint64" where
  "scan_advance m0 v = (let v = v OR NOT m0; v = rev_ulong v; v = v + 1 in rev_ulong v)"

definition dictScan :: "('k, 'v) dict \<Rightarrow> uint64 \<Rightarrow> (uint64 \<times> ('k \<times> 'v) list) option" where
  "dictScan d v =
     (if dictSize d = 0 then Some (0, [])
      else if \<not> dictIsRehashing d then do {
        let t0 = ht0 d;
        let m0 = of_nat (sizemask t0);
        de \<leftarrow> bucket_get t0 (unat (v AND m0));
        Some (scan_advance m0 v, de)
      }
      else do {
        let (t0, t1) = (if ht_size (ht0 d) > ht_size (ht1 d) then (ht1 d, ht0 d) else (ht0 d, ht1 d));
        let m0 = of_nat (sizemask t0);
        let m1 = of_nat (sizemask t1);
        de \<leftarrow> bucket_get t0 (unat (v AND m0));
        (v, es) \<leftarrow> scan_expand t1 m0 m1 v;
        Some (scan_advance m0 v, de @ es)
      })"

section \<open>The reversal reverses\<close>

definition swap :: "nat \<Rightarrow> uint64 \<Rightarrow> uint64 \<Rightarrow> uint64" where
  "swap s m v = (drop_bit s v AND m) OR (push_bit s v AND NOT m)"

lemma bit_swap:
  "i < 64 \<Longrightarrow> bit (swap s m v) i \<longleftrightarrow> (if bit m i then bit v (s + i) else s \<le> i \<and> bit v (i - s))"
  by (auto simp: swap_def bit_simps)

lemma rev_loop_step:
  assumes "0 < s" "msk XOR push_bit s msk = m"
  shows "rev_loop (2 * s) msk v = rev_loop s m (swap s m v)"
  using assms by (subst rev_loop.simps) (simp add: Let_def swap_def)

lemma rev_masks:
  "NOT 0 XOR push_bit 32 (NOT 0) = (0xFFFFFFFF :: uint64)"
  "(0xFFFFFFFF :: uint64) XOR push_bit 16 0xFFFFFFFF = 0xFFFF0000FFFF"
  "(0xFFFF0000FFFF :: uint64) XOR push_bit 8 0xFFFF0000FFFF = 0xFF00FF00FF00FF"
  "(0xFF00FF00FF00FF :: uint64) XOR push_bit 4 0xFF00FF00FF00FF = 0xF0F0F0F0F0F0F0F"
  "(0xF0F0F0F0F0F0F0F :: uint64) XOR push_bit 2 0xF0F0F0F0F0F0F0F = 0x3333333333333333"
  "(0x3333333333333333 :: uint64) XOR push_bit 1 0x3333333333333333 = 0x5555555555555555"
  by code_simp+

lemma rev_steps:
  "rev_ulong v = swap 1 0x5555555555555555 (swap 2 0x3333333333333333 (swap 4 0xF0F0F0F0F0F0F0F
     (swap 8 0xFF00FF00FF00FF (swap 16 0xFFFF0000FFFF (swap 32 0xFFFFFFFF v)))))"
proof -
  have last: "rev_loop 1 m w = w" for m w by (subst rev_loop.simps) simp
  show ?thesis
    using rev_loop_step [OF _ rev_masks(1)] rev_loop_step [OF _ rev_masks(2)] rev_loop_step [OF _ rev_masks(3)]
      rev_loop_step [OF _ rev_masks(4)] rev_loop_step [OF _ rev_masks(5)] rev_loop_step [OF _ rev_masks(6)] last
    unfolding rev_ulong_def by simp
qed

lemma bit_rev_ulong:
  assumes "i < 64"
  shows "bit (rev_ulong v) i \<longleftrightarrow> bit v (63 - i)"
proof -
  have "\<forall>i \<in> set [0..<64]. bit (rev_ulong v) i \<longleftrightarrow> bit v (63 - i)"
    unfolding rev_steps by (simp add: bit_swap upt_rec)
  then show ?thesis using assms by simp
qed

lemma rev_rev: "rev_ulong (rev_ulong v) = v"
  by (rule bit_word_eqI) (simp add: bit_rev_ulong)

lemma rev_0 [simp]: "rev_ulong 0 = 0"
  by (rule bit_word_eqI) (simp add: bit_rev_ulong)

lemma rev_eq_0: "rev_ulong v = 0 \<longleftrightarrow> v = 0"
  by (metis rev_0 rev_rev)

section \<open>Words and divisions\<close>

lemma unat_drop: "unat (drop_bit k v) = unat v div 2 ^ k" for v :: uint64
proof -
  have "take_bit 64 (unat v) = unat v" using unat_less_exp [of v] by (simp add: take_bit_nat_eq_self)
  then show ?thesis by (simp add: unsigned_drop_bit_eq flip: drop_bit_eq_div)
qed

lemma unat_and_mask: "unat (v AND mask k) = unat v mod 2 ^ k" for v :: uint64
  by (metis take_bit_eq_mask take_bit_eq_mod unsigned_take_bit_eq)

lemma and_mask_eqI: "drop_bit (64 - k) (rev_ulong a) = drop_bit (64 - k) (rev_ulong b) \<Longrightarrow>
   k \<le> 64 \<Longrightarrow> a AND mask k = b AND mask k"
proof (rule bit_word_eqI)
  fix i
  assume e: "drop_bit (64 - k) (rev_ulong a) = drop_bit (64 - k) (rev_ulong b)" and "k \<le> 64" "i < LENGTH(64)"
  have "bit a i = bit b i" if "i < k"
  proof -
    have "bit (drop_bit (64 - k) (rev_ulong a)) (k - 1 - i) = bit (drop_bit (64 - k) (rev_ulong b)) (k - 1 - i)"
      using e by simp
    then show ?thesis using that \<open>k \<le> 64\<close> by (simp add: bit_drop_bit_eq bit_rev_ulong)
  qed
  then show "bit (a AND mask k) i = bit (b AND mask k) i" by (auto simp: bit_simps)
qed

lemma drop_between:
  fixes x r :: uint64
  assumes "r \<le> x" "x \<le> r OR mask n"
  shows "drop_bit n x = drop_bit n r"
proof -
  have "drop_bit n (r OR mask n) = drop_bit n r"
    by (rule bit_word_eqI) (auto simp: bit_simps)
  then have "unat (r OR mask n) div 2 ^ n = unat r div 2 ^ n" by (metis unat_drop)
  moreover have "unat r \<le> unat x" "unat x \<le> unat (r OR mask n)" using assms by (simp_all add: word_le_nat_alt)
  ultimately have "unat (drop_bit n r) = unat (drop_bit n x)"
    unfolding unat_drop using div_le_mono [of "unat r" "unat x" "2 ^ n"] div_le_mono [of "unat x" _ "2 ^ n"]
    by fastforce
  then show ?thesis by (simp add: word_unat_eq_iff)
qed

text \<open>The cursor, read in reverse, moves to the end of its block.\<close>

lemma rev_advance:
  assumes "k \<le> 64"
  shows "rev_ulong (scan_advance (mask k) v) = (rev_ulong v OR mask (64 - k)) + 1"
proof -
  have "rev_ulong (v OR NOT (mask k)) = rev_ulong v OR mask (64 - k)"
    by (rule bit_word_eqI) (use assms in \<open>auto simp: bit_simps bit_rev_ulong\<close>)
  then show ?thesis by (simp add: scan_advance_def Let_def rev_rev)
qed

lemma cursor_interval:
  assumes "k \<le> 64" "rev_ulong v \<le> x"
    and "scan_advance (mask k) v = 0 \<or> \<not> rev_ulong (scan_advance (mask k) v) \<le> x"
  shows "drop_bit (64 - k) x = drop_bit (64 - k) (rev_ulong v)"
proof (rule drop_between [OF assms(2)])
  let ?a = "rev_ulong v OR mask (64 - k)"
  have "?a + 1 = 0 \<or> ?a + 1 \<noteq> 0 \<and> x < ?a + 1"
    using assms(3) unfolding rev_eq_0 [of "scan_advance (mask k) v", symmetric] rev_advance [OF assms(1)]
    by (simp add: not_le) blast
  then show "x \<le> ?a"
  proof
    assume "?a + 1 = 0"
    then have "?a = - 1" by (simp add: eq_neg_iff_add_eq_0)
    then show ?thesis by simp
  next
    assume "?a + 1 \<noteq> 0 \<and> x < ?a + 1"
    then show ?thesis using unatSuc [of ?a] by (simp add: word_less_nat_alt word_le_nat_alt add.commute)
  qed
qed

section \<open>Expansions of the cursor\<close>

text \<open>The part of the cursor between two masks, as a number.\<close>

definition extra :: "nat \<Rightarrow> nat \<Rightarrow> uint64 \<Rightarrow> nat" where
  "extra k0 k1 v = (unat v div 2 ^ k0) mod 2 ^ (k1 - k0)"

lemma extra_less: "extra k0 k1 v < 2 ^ (k1 - k0)"
  by (simp add: extra_def)

lemma unat_and_split:
  assumes "k0 \<le> k1"
  shows "unat (v AND mask k1) = 2 ^ k0 * extra k0 k1 v + unat (v AND mask k0)"
proof -
  have "(2::nat) ^ k1 = 2 ^ k0 * 2 ^ (k1 - k0)" using assms by (simp flip: power_add)
  then show ?thesis by (simp add: unat_and_mask extra_def mod_mult2_eq)
qed

lemma and_xor_mask:
  assumes "k0 \<le> k1"
  shows "v AND (mask k0 XOR mask k1) = 0 \<longleftrightarrow> extra k0 k1 v = 0"
proof -
  have "unat (v AND mask k1) = unat (v AND mask k0) \<longleftrightarrow> extra k0 k1 v = 0"
    using unat_and_split [OF assms, of v] by simp
  then have "v AND mask k1 = v AND mask k0 \<longleftrightarrow> extra k0 k1 v = 0" by (simp add: word_unat_eq_iff)
  moreover have "v AND mask k1 = v AND mask k0 \<longleftrightarrow> v AND (mask k0 XOR mask k1) = 0"
    using assms by (auto simp: bit_eq_iff bit_simps)
  ultimately show ?thesis by simp
qed

definition expand_next :: "nat \<Rightarrow> uint64 \<Rightarrow> uint64" where
  "expand_next k0 v = (((v OR mask k0) + 1) AND NOT (mask k0)) OR (v AND mask k0)"

lemma expand_next_low: "expand_next k0 v AND mask k0 = v AND mask k0"
  unfolding expand_next_def by (rule bit_word_eqI) (auto simp: bit_simps)

lemma unat_mask: "k \<le> 64 \<Longrightarrow> unat (mask k :: uint64) = mask k"
  by (rule bit_eqI) (auto simp: bit_simps)

lemma expand_next_high:
  assumes "k0 \<le> 64"
  shows "unat (expand_next k0 v) div 2 ^ k0 = (unat v div 2 ^ k0 + 1) mod 2 ^ (64 - k0)"
proof -
  let ?w = "v OR mask k0" and ?K = "2 ^ k0 :: nat"
  have "drop_bit k0 (expand_next k0 v) = drop_bit k0 (?w + 1)"
    unfolding expand_next_def by (rule bit_word_eqI) (auto simp: bit_simps dest: bit_imp_le_length)
  then have e: "unat (expand_next k0 v) div ?K = unat (?w + 1) div ?K" by (metis unat_drop)
  have "drop_bit k0 ?w = drop_bit k0 v" by (rule bit_word_eqI) (auto simp: bit_simps)
  then have d: "unat ?w div ?K = unat v div ?K" by (metis unat_drop)
  have "?w AND mask k0 = mask k0" by (rule bit_word_eqI) (auto simp: bit_simps)
  then have "unat ?w mod ?K = unat (mask k0 :: uint64)" by (metis unat_and_mask)
  also have "\<dots> = ?K - 1"
    using assms unat_mask by (simp add: mask_eq_exp_minus_1)
  finally have "unat ?w = unat v div ?K * ?K + (?K - 1)"
    using div_mult_mod_eq [of "unat ?w" ?K] unfolding d by simp
  moreover have "0 < ?K" by simp
  ultimately have "unat ?w + 1 = unat v div ?K * ?K + ?K" by linarith
  then have "unat ?w + 1 = ?K * (unat v div ?K + 1)" by (simp add: algebra_simps)
  then have "unat (?w + 1) = ?K * (unat v div ?K + 1) mod (?K * 2 ^ (64 - k0))"
    using assms by (simp add: unat_word_ariths flip: power_add)
  then have "unat (?w + 1) = ?K * ((unat v div ?K + 1) mod 2 ^ (64 - k0))"
    by (simp only: mult_mod_right)
  then show ?thesis unfolding e by simp
qed

lemma extra_next:
  assumes "k0 \<le> k1" "k1 \<le> 64"
  shows "extra k0 k1 (expand_next k0 v) = (extra k0 k1 v + 1) mod 2 ^ (k1 - k0)"
proof -
  have "(2::nat) ^ (k1 - k0) dvd 2 ^ (64 - k0)" using assms by (intro le_imp_power_dvd) simp
  then show ?thesis
    using assms unfolding extra_def by (simp add: expand_next_high mod_mod_cancel mod_Suc_eq)
qed

lemma scan_expand_ok:
  assumes len: "length (table t1) = 2 ^ k1" and k: "k0 \<le> k1" "k1 \<le> 64"
  shows "\<exists>v' es. scan_expand t1 (mask k0) (mask k1) v = Some (v', es) \<and> v' AND mask k0 = v AND mask k0 \<and>
    set es \<subseteq> set (concat (table t1)) \<and>
    (\<forall>i \<in> {extra k0 k1 v..<2 ^ (k1 - k0)}. set (table t1 ! (2 ^ k0 * i + unat (v AND mask k0))) \<subseteq> set es)"
proof (induction "2 ^ (k1 - k0) - extra k0 k1 v" arbitrary: v rule: less_induct)
  case less
  let ?n = "expand_next k0 v" and ?b = "2 ^ k0 * extra k0 k1 v + unat (v AND mask k0)"
  have ub: "unat (v AND mask k1) = ?b" by (rule unat_and_split [OF k(1)])
  have "?b < length (table t1)" using unat_and_mask [of v k1] unfolding ub len by simp
  then have get: "bucket_get t1 (unat (v AND mask k1)) = Some (table t1 ! ?b)" "set (table t1 ! ?b) \<subseteq> set (concat (table t1))"
    unfolding ub by (auto simp: bucket_get_def intro: nth_mem)
  have ex: "extra k0 k1 ?n = (extra k0 k1 v + 1) mod 2 ^ (k1 - k0)" by (rule extra_next [OF k])
  have rng: "i = extra k0 k1 v \<or> i \<in> {extra k0 k1 v + 1..<2 ^ (k1 - k0)}" if "i \<in> {extra k0 k1 v..<2 ^ (k1 - k0)}" for i
    using that by auto
  show ?case
  proof (cases "extra k0 k1 ?n = 0")
    case True
    then have "2 ^ (k1 - k0) dvd extra k0 k1 v + 1" using ex by auto
    then have "{extra k0 k1 v + 1..<2 ^ (k1 - k0)} = {}"
      using dvd_imp_le by fastforce
    moreover have "scan_expand t1 (mask k0) (mask k1) v = Some (?n, table t1 ! ?b)"
      using get True by (subst scan_expand.simps) (simp add: and_xor_mask [OF k(1)] expand_next_def [symmetric])
    moreover have "\<forall>i \<in> {extra k0 k1 v..<2 ^ (k1 - k0)}.
        set (table t1 ! (2 ^ k0 * i + unat (v AND mask k0))) \<subseteq> set (table t1 ! ?b)"
      using rng calculation(1) by blast
    ultimately show ?thesis using get(2) expand_next_low by blast
  next
    case False
    then have e1: "extra k0 k1 ?n = extra k0 k1 v + 1"
      using ex extra_less [of k0 k1 v] by (metis Suc_eq_plus1 Suc_lessI mod_less mod_self)
    then have "2 ^ (k1 - k0) - extra k0 k1 ?n < 2 ^ (k1 - k0) - extra k0 k1 v"
      using extra_less [of k0 k1 ?n] by linarith
    then obtain v' es where ih: "scan_expand t1 (mask k0) (mask k1) ?n = Some (v', es)" "v' AND mask k0 = ?n AND mask k0"
      "set es \<subseteq> set (concat (table t1))"
      "\<forall>i \<in> {extra k0 k1 ?n..<2 ^ (k1 - k0)}. set (table t1 ! (2 ^ k0 * i + unat (?n AND mask k0))) \<subseteq> set es"
      using less by blast
    have "scan_expand t1 (mask k0) (mask k1) v = Some (v', table t1 ! ?b @ es)"
      using get False ih(1) by (subst scan_expand.simps) (simp add: and_xor_mask [OF k(1)] expand_next_def [symmetric])
    moreover have "set (table t1 ! (2 ^ k0 * i + unat (v AND mask k0))) \<subseteq> set (table t1 ! ?b @ es)"
      if "i \<in> {extra k0 k1 v..<2 ^ (k1 - k0)}" for i
      using rng [OF that] ih(4) unfolding e1 expand_next_low by auto
    ultimately show ?thesis using get(2) ih(2,3) expand_next_low by auto
  qed
qed

section \<open>One call\<close>

text \<open>The hash of a key as the cursor sees it.\<close>

definition key_pos :: "('k, 'v) dict \<Rightarrow> 'k \<Rightarrow> uint64" where
  "key_pos d key = ucast (dictHashKey d key)"

lemma ht_ok_mask:
  assumes "ht_ok hf t"
  obtains k where "2 \<le> k" "k \<le> 31" "ht_size t = 2 ^ k" "length (table t) = 2 ^ k"
    "sizemask t = 2 ^ k - 1" "of_nat (sizemask t) = (mask k :: uint64)"
proof -
  obtain k where k: "k \<in> {2..31}" "ht_size t = 2 ^ k" "length (table t) = 2 ^ k" "sizemask t = 2 ^ k - 1"
    using assms by (auto simp: ht_ok_def)
  have "(of_nat (2 ^ k - 1) :: uint64) = mask k"
    by (simp add: mask_eq_exp_minus_1 of_nat_diff)
  then show thesis using that [of k] k by simp
qed

lemma key_pos_bucket:
  "unat (key_pos d key AND mask k) = unat (dictHashKey d key) AND (2 ^ k - 1)"
proof -
  have "unat (key_pos d key) = unat (dictHashKey d key)"
    unfolding key_pos_def using unat_less_exp [of "dictHashKey d key"]
    by (simp add: unsigned_ucast_eq take_bit_nat_eq_self)
  moreover have "unat (dictHashKey d key) AND (2 ^ k - 1) = unat (dictHashKey d key) mod 2 ^ k"
    by (metis mask_eq_exp_minus_1 take_bit_eq_mask take_bit_eq_mod)
  ultimately show ?thesis by (simp add: unat_and_mask)
qed

lemma entry_bucket:
  assumes ok: "ht_ok (dictHashKey d) t" and e: "e \<in> set (concat (table t))" and k: "sizemask t = 2 ^ k - 1"
  shows "e \<in> set (table t ! unat (key_pos d (fst e) AND mask k))"
  using e ht_ok_mem_iff [OF ok, of e] unfolding key_pos_bucket k by simp

text \<open>
  A cursor meets a pair of tables safely when it has no bits between the two masks, or when one table
  has twice the size of the other.
\<close>

definition scan_safe :: "('k, 'v) dict \<Rightarrow> uint64 \<Rightarrow> bool" where
  "scan_safe d v \<longleftrightarrow> dictIsRehashing d \<longrightarrow>
     v AND (of_nat (sizemask (ht0 d)) XOR of_nat (sizemask (ht1 d))) = 0 \<or>
     ht_size (ht0 d) = 2 * ht_size (ht1 d) \<or> ht_size (ht1 d) = 2 * ht_size (ht0 d)"

text \<open>What a call that moves from \<open>v\<close> to \<open>v'\<close> owes to an entry.\<close>

definition covers :: "uint64 \<Rightarrow> uint64 \<Rightarrow> uint64 \<Rightarrow> bool" where
  "covers v v' x \<longleftrightarrow> rev_ulong v \<le> rev_ulong x \<and> (v' = 0 \<or> \<not> rev_ulong v' \<le> rev_ulong x)"

lemma covers_low:
  assumes "k \<le> 64" "covers v (scan_advance (mask k) v) x"
  shows "x AND mask k = v AND mask k"
  using assms cursor_interval [OF assms(1), of v "rev_ulong x"]
  by (intro and_mask_eqI) (auto simp: covers_def)

lemma scan_advance_cong:
  assumes "v' AND mask k = v AND mask k"
  shows "scan_advance (mask k) v' = scan_advance (mask k) v"
proof -
  have "v' OR NOT (mask k) = v OR NOT (mask k)"
    using assms by (auto simp: bit_eq_iff bit_simps)
  then show ?thesis by (simp add: scan_advance_def)
qed

lemma bit_unat_div: "odd (unat v div 2 ^ i) \<longleftrightarrow> bit v i" for v :: uint64
proof -
  have "bit (unat v) i \<longleftrightarrow> bit v i" by (auto simp: bit_simps dest: bit_imp_le_length)
  then show ?thesis unfolding bit_iff_odd [of "unat v"] .
qed

lemma extra_one: "extra k (Suc k) v = of_bool (bit v k)"
  using bit_unat_div [of v k] by (simp add: extra_def mod_2_eq_odd)

lemma odd_even_half: "odd a \<Longrightarrow> even b \<Longrightarrow> a \<le> b \<Longrightarrow> a div 2 = b div 2 \<Longrightarrow> False" for a b :: nat
  by presburger

lemma covers_extra:
  assumes k: "k0 < 64" and low: "x AND mask k0 = v AND mask k0" and le: "rev_ulong v \<le> rev_ulong x"
  shows "extra k0 (Suc k0) v \<le> extra k0 (Suc k0) x"
proof (rule ccontr)
  assume "\<not> ?thesis"
  then have b: "bit v k0" "\<not> bit x k0" by (simp_all add: extra_one split: if_splits)
  let ?A = "unat (rev_ulong v) div 2 ^ (63 - k0)" and ?B = "unat (rev_ulong x) div 2 ^ (63 - k0)"
  have "odd ?A" "even ?B"
    using b k bit_unat_div [of "rev_ulong v" "63 - k0"] bit_unat_div [of "rev_ulong x" "63 - k0"]
    by (simp_all add: bit_rev_ulong)
  moreover have "?A \<le> ?B" using le by (simp add: word_le_nat_alt div_le_mono)
  moreover have "?A div 2 = ?B div 2"
  proof -
    have "bit x i = bit v i" if "i < k0" for i
      using arg_cong [OF low, of "\<lambda>w. bit w i"] that k by (simp add: bit_simps)
    then have "bit (rev_ulong v) i = bit (rev_ulong x) i" if "64 - k0 \<le> i" for i
      using that k bit_imp_le_length [of "rev_ulong v" i] bit_imp_le_length [of "rev_ulong x" i]
      by (cases "i < 64") (auto simp: bit_rev_ulong)
    then have "drop_bit (64 - k0) (rev_ulong v) = drop_bit (64 - k0) (rev_ulong x)"
      by (intro bit_word_eqI) (simp add: bit_drop_bit_eq)
    then have "unat (rev_ulong v) div 2 ^ (64 - k0) = unat (rev_ulong x) div 2 ^ (64 - k0)" by (metis unat_drop)
    moreover have "64 - k0 = Suc (63 - k0)" using k by simp
    then have "(2::nat) ^ (64 - k0) = 2 ^ (63 - k0) * 2" by simp
    ultimately show ?thesis by (simp add: div_mult2_eq)
  qed
  ultimately show False by (rule odd_even_half)
qed

text \<open>The smaller table first, as the function takes them.\<close>

lemma scan_pair_ok:
  assumes ok: "ht_ok (dictHashKey d) t0" "ht_ok (dictHashKey d) t1" and le: "ht_size t0 \<le> ht_size t1"
    and safe: "v AND (of_nat (sizemask t0) XOR of_nat (sizemask t1)) = 0 \<or> ht_size t1 = 2 * ht_size t0"
  shows "\<exists>de v' es. bucket_get t0 (unat (v AND of_nat (sizemask t0))) = Some de \<and>
    scan_expand t1 (of_nat (sizemask t0)) (of_nat (sizemask t1)) v = Some (v', es) \<and>
    set (de @ es) \<subseteq> set (concat (table t0)) \<union> set (concat (table t1)) \<and>
    (\<forall>e \<in> set (concat (table t0)) \<union> set (concat (table t1)).
       covers v (scan_advance (of_nat (sizemask t0)) v') (key_pos d (fst e)) \<longrightarrow> e \<in> set (de @ es))"
proof -
  obtain k0 where k0: "2 \<le> k0" "k0 \<le> 31" "ht_size t0 = 2 ^ k0" "length (table t0) = 2 ^ k0"
    "sizemask t0 = 2 ^ k0 - 1" and m0: "of_nat (sizemask t0) = (mask k0 :: uint64)"
    using ok(1) by (rule ht_ok_mask)
  obtain k1 where k1: "2 \<le> k1" "k1 \<le> 31" "ht_size t1 = 2 ^ k1" "length (table t1) = 2 ^ k1"
    "sizemask t1 = 2 ^ k1 - 1" and m1: "of_nat (sizemask t1) = (mask k1 :: uint64)"
    using ok(2) by (rule ht_ok_mask)
  have k01: "k0 \<le> k1" using le k0(3) k1(3) by simp
  let ?b = "unat (v AND mask k0)"
  have "?b < length (table t0)" unfolding unat_and_mask k0(4) by simp
  then have get: "bucket_get t0 ?b = Some (table t0 ! ?b)" "set (table t0 ! ?b) \<subseteq> set (concat (table t0))"
    by (auto simp: bucket_get_def intro: nth_mem)
  have "k1 \<le> 64" using k1(2) by simp
  then obtain v' es where ex: "scan_expand t1 (mask k0) (mask k1) v = Some (v', es)" "v' AND mask k0 = v AND mask k0"
    "set es \<subseteq> set (concat (table t1))"
    "\<forall>i \<in> {extra k0 k1 v..<2 ^ (k1 - k0)}. set (table t1 ! (2 ^ k0 * i + ?b)) \<subseteq> set es"
    using scan_expand_ok [OF k1(4) k01] by blast
  have safe': "extra k0 k1 v = 0 \<or> k1 = Suc k0"
    using safe and_xor_mask [OF k01] k0(3) k1(3) unfolding m0 m1
    by (metis nat_power_eq_Suc_0_iff numeral_2_eq_2 power_Suc power_inject_exp one_less_numeral_iff semiring_norm(76))
  have cov: "e \<in> set (table t0 ! ?b @ es)"
    if e: "e \<in> set (concat (table t0)) \<union> set (concat (table t1))"
      and c: "covers v (scan_advance (mask k0) v') (key_pos d (fst e))" for e
  proof -
    let ?x = "key_pos d (fst e)"
    have c': "covers v (scan_advance (mask k0) v) ?x" using c scan_advance_cong [OF ex(2)] by simp
    have low: "?x AND mask k0 = v AND mask k0" using covers_low [OF _ c'] k0(2) by simp
    show ?thesis
    proof (cases "e \<in> set (concat (table t0))")
      case True
      then show ?thesis using entry_bucket [OF ok(1) True k0(5)] low by simp
    next
      case False
      then have "e \<in> set (table t1 ! unat (?x AND mask k1))" using e entry_bucket [OF ok(2) _ k1(5)] by simp
      then have "e \<in> set (table t1 ! (2 ^ k0 * extra k0 k1 ?x + ?b))"
        unfolding unat_and_split [OF k01] low .
      moreover have "extra k0 k1 v \<le> extra k0 k1 ?x"
        using safe' covers_extra [OF _ low] c k0(2) by (auto simp: covers_def)
      ultimately show ?thesis using ex(4) extra_less [of k0 k1 ?x] by auto
    qed
  qed
  show ?thesis
    unfolding m0 m1
    by (rule exI [of _ "table t0 ! ?b"], rule exI [of _ v'], rule exI [of _ es])
       (use get ex(1,3) cov in auto)
qed

lemma dictScan_ok:
  assumes inv: "dict_inv d" and safe: "scan_safe d v"
  shows "\<exists>v' es. dictScan d v = Some (v', es) \<and> set es \<subseteq> set (entries d) \<and>
    (\<forall>e \<in> set (entries d). covers v v' (key_pos d (fst e)) \<longrightarrow> e \<in> set es)"
proof -
  consider (none) "dictSize d = 0" | (one) "dictSize d \<noteq> 0" "\<not> dictIsRehashing d"
    | (two) "dictSize d \<noteq> 0" "dictIsRehashing d" by blast
  then show ?thesis
  proof cases
    case none
    then show ?thesis using dictSize_length [OF inv] by (simp add: dictScan_def)
  next
    case one
    then have "ht1 d = dictReset" "ht0 d \<noteq> dictReset" "ht0 d = dictReset \<or> ht_ok (dictHashKey d) (ht0 d)"
      using inv by (auto simp: dict_inv_def dictSize_def dictReset_def)
    then have en: "entries d = concat (table (ht0 d))" and ok: "ht_ok (dictHashKey d) (ht0 d)"
      by (simp_all add: entries_def dictReset_def)
    obtain k where k: "k \<le> 31" "length (table (ht0 d)) = 2 ^ k" "sizemask (ht0 d) = 2 ^ k - 1"
      and m: "of_nat (sizemask (ht0 d)) = (mask k :: uint64)"
      using ok by (rule ht_ok_mask)
    let ?b = "unat (v AND mask k)"
    have b: "?b < length (table (ht0 d))" unfolding unat_and_mask k(2) by simp
    then have "dictScan d v = Some (scan_advance (mask k) v, table (ht0 d) ! ?b)"
      using one by (simp add: dictScan_def m bucket_get_def Let_def)
    moreover have "set (table (ht0 d) ! ?b) \<subseteq> set (entries d)" unfolding en using b by (auto intro: nth_mem)
    moreover have "e \<in> set (table (ht0 d) ! ?b)"
      if "e \<in> set (entries d)" "covers v (scan_advance (mask k) v) (key_pos d (fst e))" for e
      using entry_bucket [OF ok that(1) [unfolded en] k(3)] covers_low [OF _ that(2)] k(1) by simp
    ultimately show ?thesis by blast
  next
    case two
    then have ok: "ht_ok (dictHashKey d) (ht0 d)" "ht_ok (dictHashKey d) (ht1 d)"
      using inv by (simp_all add: dict_inv_def)
    have xc: "a XOR b = b XOR a" for a b :: uint64 by (simp add: xor.commute)
    have se: "set (entries d) = set (concat (table (ht0 d))) \<union> set (concat (table (ht1 d)))"
      unfolding entries_def by (rule set_append)
    show ?thesis
    proof (cases "ht_size (ht0 d) > ht_size (ht1 d)")
      case True
      have "v AND (of_nat (sizemask (ht1 d)) XOR of_nat (sizemask (ht0 d))) = 0 \<or> ht_size (ht0 d) = 2 * ht_size (ht1 d)"
        using safe two True by (auto simp: scan_safe_def xc)
      from scan_pair_ok [OF ok(2,1) less_imp_le [OF True] this] obtain de v' es where
        g: "bucket_get (ht1 d) (unat (v AND of_nat (sizemask (ht1 d)))) = Some de"
        "scan_expand (ht0 d) (of_nat (sizemask (ht1 d))) (of_nat (sizemask (ht0 d))) v = Some (v', es)"
        and s: "set (de @ es) \<subseteq> set (entries d)" "\<forall>e \<in> set (entries d).
           covers v (scan_advance (of_nat (sizemask (ht1 d))) v') (key_pos d (fst e)) \<longrightarrow> e \<in> set (de @ es)"
        unfolding se by (metis Un_commute)
      have "dictScan d v = Some (scan_advance (of_nat (sizemask (ht1 d))) v', de @ es)"
        using g two True by (simp add: dictScan_def)
      then show ?thesis using s by blast
    next
      case False
      have "v AND (of_nat (sizemask (ht0 d)) XOR of_nat (sizemask (ht1 d))) = 0 \<or> ht_size (ht1 d) = 2 * ht_size (ht0 d)"
        using safe two False by (auto simp: scan_safe_def)
      from scan_pair_ok [OF ok leI [OF False] this] obtain de v' es where
        g: "bucket_get (ht0 d) (unat (v AND of_nat (sizemask (ht0 d)))) = Some de"
        "scan_expand (ht1 d) (of_nat (sizemask (ht0 d))) (of_nat (sizemask (ht1 d))) v = Some (v', es)"
        and s: "set (de @ es) \<subseteq> set (entries d)" "\<forall>e \<in> set (entries d).
           covers v (scan_advance (of_nat (sizemask (ht0 d))) v') (key_pos d (fst e)) \<longrightarrow> e \<in> set (de @ es)"
        unfolding se by (metis Un_commute)
      have "dictScan d v = Some (scan_advance (of_nat (sizemask (ht0 d))) v', de @ es)"
        using g two False by (simp add: dictScan_def)
      then show ?thesis using s by blast
    qed
  qed
qed

section \<open>Whole iterations\<close>

text \<open>
  The calls of one iteration, each on the state the dictionary has then, with the cursor handed on
  from call to call, and the entries that were emitted.
\<close>

fun scan_run :: "('k, 'v) dict list \<Rightarrow> uint64 \<Rightarrow> (uint64 \<times> ('k \<times> 'v) list) option" where
  "scan_run [] v = Some (v, [])"
| "scan_run (d # ds) v = do {
     (v, es) \<leftarrow> dictScan d v;
     (v, es') \<leftarrow> scan_run ds v;
     Some (v, es @ es') }"

fun scan_run_safe :: "('k, 'v) dict list \<Rightarrow> uint64 \<Rightarrow> bool" where
  "scan_run_safe [] v = True"
| "scan_run_safe (d # ds) v \<longleftrightarrow> scan_safe d v \<and>
     (case dictScan d v of None \<Rightarrow> True | Some (v', _) \<Rightarrow> scan_run_safe ds v')"

lemma scan_run_ok:
  "\<forall>d \<in> set ds. dict_inv d \<and> dtype d = ty \<and> key \<in> dom (dict_map d) \<Longrightarrow> scan_run_safe ds v \<Longrightarrow>
   \<exists>v' es. scan_run ds v = Some (v', es) \<and>
     (rev_ulong v \<le> rev_ulong (ucast (hashFunction ty key)) \<longrightarrow>
       key \<in> fst ` set es \<or> (ds \<noteq> [] \<longrightarrow> v' \<noteq> 0) \<and> rev_ulong v' \<le> rev_ulong (ucast (hashFunction ty key)))"
proof (induction ds arbitrary: v)
  case (Cons d ds)
  let ?x = "ucast (hashFunction ty key) :: uint64"
  have d: "dict_inv d" "key \<in> dom (dict_map d)" and x: "key_pos d key = ?x"
    using Cons.prems(1) by (auto simp: key_pos_def hash_of_type)
  then obtain w where w: "(key, w) \<in> set (entries d)" using dict_map_iff [OF d(1), of key] by auto
  obtain v1 es1 where s: "dictScan d v = Some (v1, es1)"
    and c: "\<forall>e \<in> set (entries d). covers v v1 (key_pos d (fst e)) \<longrightarrow> e \<in> set es1"
    using dictScan_ok [OF d(1), of v] Cons.prems(2) by auto
  obtain v2 es2 where r: "scan_run ds v1 = Some (v2, es2)"
    and ih: "rev_ulong v1 \<le> rev_ulong ?x \<longrightarrow>
       key \<in> fst ` set es2 \<or> (ds \<noteq> [] \<longrightarrow> v2 \<noteq> 0) \<and> rev_ulong v2 \<le> rev_ulong ?x"
    using Cons.IH [of v1] Cons.prems s by auto
  have "key \<in> fst ` set (es1 @ es2) \<or> v2 \<noteq> 0 \<and> rev_ulong v2 \<le> rev_ulong ?x" if le: "rev_ulong v \<le> rev_ulong ?x"
  proof (cases "covers v v1 ?x")
    case True
    then have "(key, w) \<in> set es1" using c w x by force
    then show ?thesis by force
  next
    case False
    then have "v1 \<noteq> 0" "rev_ulong v1 \<le> rev_ulong ?x" using le by (auto simp: covers_def)
    then show ?thesis using ih r by (cases ds) auto
  qed
  then show ?case using s r by auto
qed simp

section \<open>An unchanged table\<close>

text \<open>The cursor after \<open>j\<close> calls.\<close>

definition cursor :: "nat \<Rightarrow> nat \<Rightarrow> uint64" where
  "cursor k j = rev_ulong (push_bit (64 - k) (of_nat j))"

lemma push_or_mask: "(push_bit n w OR mask n) + 1 = push_bit n (w + 1)" for w :: uint64
proof -
  have "push_bit n w OR mask n = push_bit n w + mask n"
    by (rule disjunctive_add [symmetric]) (auto simp: bit_simps)
  then show ?thesis by (simp add: push_bit_eq_mult mask_eq_exp_minus_1 algebra_simps)
qed

lemma cursor_step:
  assumes "k \<le> 64"
  shows "scan_advance (mask k) (cursor k j) = cursor k (Suc j)"
proof -
  have "rev_ulong (scan_advance (mask k) (cursor k j)) = push_bit (64 - k) (of_nat (Suc j))"
    using rev_advance [OF assms, of "cursor k j"] push_or_mask [of "64 - k" "of_nat j"]
    by (simp add: cursor_def rev_rev add.commute)
  then show ?thesis by (metis cursor_def rev_rev)
qed

lemma cursor_end:
  assumes "k \<le> 64"
  shows "cursor k 0 = 0" "cursor k (2 ^ k) = 0"
proof -
  have "push_bit (64 - k) (of_nat (2 ^ k)) = (2 ^ (64 - k) * 2 ^ k :: uint64)"
    by (simp add: push_bit_eq_mult mult.commute)
  also have "\<dots> = 2 ^ LENGTH(64)" using assms by (simp flip: power_add)
  also have "\<dots> = 0" by (rule exp_eq_zero_iff [THEN iffD2]) simp
  finally show "cursor k (2 ^ k) = 0" by (simp add: cursor_def)
  show "cursor k 0 = 0" by (simp add: cursor_def)
qed

lemma bit_cursor: "i < k \<Longrightarrow> k \<le> 31 \<Longrightarrow> bit (cursor k j AND mask k) i \<longleftrightarrow> bit j (k - 1 - i)"
  by (auto simp: bit_simps cursor_def bit_rev_ulong)

lemma cursor_inj:
  assumes "k \<le> 31"
  shows "inj_on (\<lambda>j. unat (cursor k j AND mask k)) {0..<2 ^ k}"
proof (rule inj_onI)
  fix i j
  assume r: "i \<in> {0..<2 ^ k}" "j \<in> {0..<2 ^ k}" and e: "unat (cursor k i AND mask k) = unat (cursor k j AND mask k)"
  then have w: "cursor k i AND mask k = cursor k j AND mask k" by (simp add: word_unat_eq_iff)
  have "bit i n = bit j n" if "n < k" for n
    using arg_cong [OF w, of "\<lambda>w. bit w (k - 1 - n)"] bit_cursor [of "k - 1 - n" k] that assms by simp
  then have "take_bit k i = take_bit k j" by (auto simp: bit_eq_iff bit_take_bit_iff)
  then show "i = j" using r by (simp add: take_bit_nat_eq_self)
qed

lemma mset_concat_perm: "mset xs = mset ys \<Longrightarrow> mset (concat (map f xs)) = mset (concat (map f ys))"
  by (simp add: mset_concat comp_def flip: sum_mset_sum_list)

text \<open>The buckets met by the cursors are all buckets, each once.\<close>

lemma cursor_buckets:
  assumes "k \<le> 31" "length tbl = 2 ^ k"
  shows "mset (concat (map (\<lambda>j. tbl ! unat (cursor k j AND mask k)) [0..<2 ^ k])) = mset (concat tbl)"
proof -
  let ?f = "\<lambda>j. unat (cursor k j AND mask k)"
  have "?f ` {0..<2 ^ k} \<subseteq> {0..<2 ^ k}" by (auto simp: unat_and_mask)
  then have "?f ` {0..<2 ^ k} = {0..<2 ^ k}"
    using cursor_inj [OF assms(1)] by (simp add: endo_inj_surj)
  then have "set (map ?f [0..<2 ^ k]) = set [0..<2 ^ k]" by simp
  moreover have "distinct (map ?f [0..<2 ^ k])" using cursor_inj [OF assms(1)] by (simp add: distinct_map)
  ultimately have "mset (map ?f [0..<2 ^ k]) = mset [0..<2 ^ k]"
    using set_eq_iff_mset_eq_distinct distinct_upt by blast
  from mset_concat_perm [OF this, of "nth tbl"] show ?thesis
    using map_nth [of tbl] assms(2) by (simp add: comp_def)
qed

lemma scan_run_append:
  "scan_run (ds @ ds') v = do { (v, es) \<leftarrow> scan_run ds v; (v, es') \<leftarrow> scan_run ds' v; Some (v, es @ es') }"
  by (induction ds arbitrary: v) (auto split: Option.bind_split)

lemma scan_static:
  assumes ne: "dictSize d \<noteq> 0" and nr: "\<not> dictIsRehashing d" and k: "k \<le> 31"
    and len: "length (table (ht0 d)) = 2 ^ k" and m: "of_nat (sizemask (ht0 d)) = (mask k :: uint64)"
  shows "scan_run (replicate n d) 0 =
    Some (cursor k n, concat (map (\<lambda>j. table (ht0 d) ! unat (cursor k j AND mask k)) [0..<n]))"
proof (induction n)
  case 0
  then show ?case using cursor_end k by simp
next
  case (Suc n)
  have "unat (cursor k n AND mask k) < length (table (ht0 d))" unfolding unat_and_mask len by simp
  then have "dictScan d (cursor k n) = Some (cursor k (Suc n), table (ht0 d) ! unat (cursor k n AND mask k))"
    using ne nr k cursor_step [of k n] by (simp add: dictScan_def m bucket_get_def Let_def)
  moreover have "replicate (Suc n) d = replicate n d @ [d]" by (simp add: replicate_append_same)
  ultimately show ?case using Suc by (simp add: scan_run_append del: replicate_Suc)
qed

text \<open>
  C6. The promise of \<^verbatim>\<open>dictScan\<close>: a key that is in the dictionary at every call of an iteration
  that starts with cursor 0 and ends when the cursor is 0 again is emitted by some call, although the
  dictionary may be filled, emptied, resized and rehashed between the calls, provided no cursor with
  bits between the two masks meets tables whose sizes differ by more than a factor of two.
\<close>

theorem dictScan_complete:
  assumes "\<forall>d \<in> set ds. dict_inv d \<and> dtype d = ty \<and> key \<in> dom (dict_map d)" "scan_run_safe ds 0" "ds \<noteq> []"
  shows "\<exists>v es. scan_run ds 0 = Some (v, es) \<and> (v = 0 \<longrightarrow> key \<in> fst ` set es)"
  using scan_run_ok [OF assms(1,2)] assms(3) by auto

text \<open>A table that grew from 4 to 8 buckets in the middle of an iteration.\<close>

definition idType :: "(uint32, nat) dictType" where
  "idType = \<lparr>hashFunction = (\<lambda>k. k), keyDup = None, valDup = None, keyCompare = None\<rparr>"

definition grow_sample :: "(uint32, nat) dict list" where
  "grow_sample = (let
     d0 = \<lparr>dtype = idType, ht0 = \<lparr>table = [[], [(1, 10)], [], []], ht_size = 4, sizemask = 3, used = 1\<rparr>,
       ht1 = dictReset, rehashidx = -1, iterators = 0\<rparr>;
     d1 = \<lparr>dtype = idType, ht0 = \<lparr>table = [[], [(1, 10)], [], []], ht_size = 4, sizemask = 3, used = 1\<rparr>,
       ht1 = \<lparr>table = [[], [], [], [], [], [], [], []], ht_size = 8, sizemask = 7, used = 0\<rparr>, rehashidx = 0, iterators = 0\<rparr>;
     d2 = \<lparr>dtype = idType, ht0 = \<lparr>table = [[], [(1, 10)], [], [], [], [], [], []], ht_size = 8, sizemask = 7, used = 1\<rparr>,
       ht1 = dictReset, rehashidx = -1, iterators = 0\<rparr>
     in [d0, d1, d2, d2, d2, d2])"

lemma grow_sample_ok:
  "list_all dict_inv grow_sample" "scan_run_safe grow_sample 0" "list_all (\<lambda>d. dict_map d 1 = Some 10) grow_sample"
  by code_simp+

lemma grow_sample_type: "\<forall>d \<in> set grow_sample. dtype d = idType"
  by (simp add: grow_sample_def Let_def)

lemma grow_sample_run: "scan_run grow_sample 0 = Some (0, [(1, 10)])"
  by code_simp

theorem dictScan_complete_witness:
  "\<exists>es. scan_run grow_sample 0 = Some (0, es) \<and> 1 \<in> fst ` set es"
proof -
  have "\<forall>d \<in> set grow_sample. dict_inv d \<and> dtype d = idType \<and> 1 \<in> dom (dict_map d)"
    using grow_sample_ok grow_sample_type by (auto simp: list_all_iff)
  moreover have "grow_sample \<noteq> []" by (simp add: grow_sample_def Let_def)
  ultimately obtain v es where "scan_run grow_sample 0 = Some (v, es)" "v = 0 \<longrightarrow> 1 \<in> fst ` set es"
    using dictScan_complete [OF _ grow_sample_ok(2)] by blast
  then show ?thesis using grow_sample_run by simp
qed

text \<open>
  C29. On a dictionary that does not change, an iteration takes one call per bucket and emits every
  entry exactly once.
\<close>

theorem dictScan_exact:
  assumes "dict_inv d" "\<not> dictIsRehashing d" "dictSize d \<noteq> 0"
  shows "\<exists>es. scan_run (replicate (ht_size (ht0 d)) d) 0 = Some (0, es) \<and> mset es = mset (entries d)"
proof -
  have "ht1 d = dictReset" "ht_ok (dictHashKey d) (ht0 d)"
    using assms by (auto simp: dict_inv_def dictSize_def dictReset_def)
  then have en: "entries d = concat (table (ht0 d))" by (simp add: entries_def dictReset_def)
  obtain k where k: "k \<le> 31" "ht_size (ht0 d) = 2 ^ k" "length (table (ht0 d)) = 2 ^ k"
    and m: "of_nat (sizemask (ht0 d)) = (mask k :: uint64)"
    using \<open>ht_ok (dictHashKey d) (ht0 d)\<close> by (rule ht_ok_mask)
  show ?thesis
    using scan_static [OF assms(3,2) k(1,3) m, of "2 ^ k"] cursor_buckets [OF k(1,3)] cursor_end(2) [of k] k en
    by (auto simp del: mset_concat)
qed

theorem dictScan_exact_witness:
  "\<exists>es. scan_run (replicate (ht_size (ht0 (hd grow_sample))) (hd grow_sample)) 0 = Some (0, es) \<and>
    mset es = mset (entries (hd grow_sample))"
proof (rule dictScan_exact)
  show "dict_inv (hd grow_sample)" by code_simp
  show "\<not> dictIsRehashing (hd grow_sample)" by code_simp
  show "dictSize (hd grow_sample) \<noteq> 0" by code_simp
qed

text \<open>A table of 16 buckets with one element, and the same after \<^verbatim>\<open>dictResize\<close> began to shrink it to 4.\<close>

definition shrink_before :: "(uint32, nat) dict" where
  "shrink_before = \<lparr>dtype = idType,
     ht0 = \<lparr>table = (replicate 16 [])[4 := [(4, 40)]], ht_size = 16, sizemask = 15, used = 1\<rparr>,
     ht1 = dictReset, rehashidx = -1, iterators = 0\<rparr>"

definition shrink_after :: "(uint32, nat) dict" where
  "shrink_after = shrink_before\<lparr>ht1 := \<lparr>table = replicate 4 [], ht_size = 4, sizemask = 3, used = 0\<rparr>, rehashidx := 0\<rparr>"

text \<open>
  The side condition of the completeness theorem is needed: when a table of 16 buckets starts to shrink to 4 after the first
  call, the cursor \<open>8\<close> meets both tables, the loop over its expansions visits buckets 8 and 12 but not
  bucket 4, and the iteration ends without having returned the element that was in bucket 4 all the time.
\<close>

theorem dictScan_misses_element:
  "dictResize True shrink_before = Some (shrink_after, True) \<and>
   dict_inv shrink_before \<and> dict_inv shrink_after \<and>
   dict_map shrink_before 4 = Some 40 \<and> dict_map shrink_after 4 = Some 40 \<and>
   scan_run [shrink_before, shrink_after, shrink_after, shrink_after, shrink_after] 0 = Some (0, [])"
proof (intro conjI)
  show "dictResize True shrink_before = Some (shrink_after, True)"
    by (simp add: dictResize_def c_int_def dictExpand_def dictNextPower_def dictNextPower_loop.simps
        shrink_before_def shrink_after_def dictIsRehashing_def)
qed code_simp+

end
