(* ===== verification/Crc.thy ===== *)
theory Crc
  imports Prelude
begin

unbundle bit_operations_syntax

text \<open>
  \<^verbatim>\<open>crc16.c\<close>, \<^verbatim>\<open>crc64.c\<close> and the hash slots of \<^verbatim>\<open>cluster.c\<close>: the checksums with their tables, and
  the slot of a key with its hash tag. The theory shows that the tables implement the division by the
  polynomials, bit by bit, and what a hash tag is.
\<close>

section \<open>CRC16\<close>

definition crc16tab :: "16 word list" where
  "crc16tab = [
     0x0000, 0x1021, 0x2042, 0x3063, 0x4084, 0x50A5, 0x60C6, 0x70E7,
     0x8108, 0x9129, 0xA14A, 0xB16B, 0xC18C, 0xD1AD, 0xE1CE, 0xF1EF,
     0x1231, 0x0210, 0x3273, 0x2252, 0x52B5, 0x4294, 0x72F7, 0x62D6,
     0x9339, 0x8318, 0xB37B, 0xA35A, 0xD3BD, 0xC39C, 0xF3FF, 0xE3DE,
     0x2462, 0x3443, 0x0420, 0x1401, 0x64E6, 0x74C7, 0x44A4, 0x5485,
     0xA56A, 0xB54B, 0x8528, 0x9509, 0xE5EE, 0xF5CF, 0xC5AC, 0xD58D,
     0x3653, 0x2672, 0x1611, 0x0630, 0x76D7, 0x66F6, 0x5695, 0x46B4,
     0xB75B, 0xA77A, 0x9719, 0x8738, 0xF7DF, 0xE7FE, 0xD79D, 0xC7BC,
     0x48C4, 0x58E5, 0x6886, 0x78A7, 0x0840, 0x1861, 0x2802, 0x3823,
     0xC9CC, 0xD9ED, 0xE98E, 0xF9AF, 0x8948, 0x9969, 0xA90A, 0xB92B,
     0x5AF5, 0x4AD4, 0x7AB7, 0x6A96, 0x1A71, 0x0A50, 0x3A33, 0x2A12,
     0xDBFD, 0xCBDC, 0xFBBF, 0xEB9E, 0x9B79, 0x8B58, 0xBB3B, 0xAB1A,
     0x6CA6, 0x7C87, 0x4CE4, 0x5CC5, 0x2C22, 0x3C03, 0x0C60, 0x1C41,
     0xEDAE, 0xFD8F, 0xCDEC, 0xDDCD, 0xAD2A, 0xBD0B, 0x8D68, 0x9D49,
     0x7E97, 0x6EB6, 0x5ED5, 0x4EF4, 0x3E13, 0x2E32, 0x1E51, 0x0E70,
     0xFF9F, 0xEFBE, 0xDFDD, 0xCFFC, 0xBF1B, 0xAF3A, 0x9F59, 0x8F78,
     0x9188, 0x81A9, 0xB1CA, 0xA1EB, 0xD10C, 0xC12D, 0xF14E, 0xE16F,
     0x1080, 0x00A1, 0x30C2, 0x20E3, 0x5004, 0x4025, 0x7046, 0x6067,
     0x83B9, 0x9398, 0xA3FB, 0xB3DA, 0xC33D, 0xD31C, 0xE37F, 0xF35E,
     0x02B1, 0x1290, 0x22F3, 0x32D2, 0x4235, 0x5214, 0x6277, 0x7256,
     0xB5EA, 0xA5CB, 0x95A8, 0x8589, 0xF56E, 0xE54F, 0xD52C, 0xC50D,
     0x34E2, 0x24C3, 0x14A0, 0x0481, 0x7466, 0x6447, 0x5424, 0x4405,
     0xA7DB, 0xB7FA, 0x8799, 0x97B8, 0xE75F, 0xF77E, 0xC71D, 0xD73C,
     0x26D3, 0x36F2, 0x0691, 0x16B0, 0x6657, 0x7676, 0x4615, 0x5634,
     0xD94C, 0xC96D, 0xF90E, 0xE92F, 0x99C8, 0x89E9, 0xB98A, 0xA9AB,
     0x5844, 0x4865, 0x7806, 0x6827, 0x18C0, 0x08E1, 0x3882, 0x28A3,
     0xCB7D, 0xDB5C, 0xEB3F, 0xFB1E, 0x8BF9, 0x9BD8, 0xABBB, 0xBB9A,
     0x4A75, 0x5A54, 0x6A37, 0x7A16, 0x0AF1, 0x1AD0, 0x2AB3, 0x3A92,
     0xFD2E, 0xED0F, 0xDD6C, 0xCD4D, 0xBDAA, 0xAD8B, 0x9DE8, 0x8DC9,
     0x7C26, 0x6C07, 0x5C64, 0x4C45, 0x3CA2, 0x2C83, 0x1CE0, 0x0CC1,
     0xEF1F, 0xFF3E, 0xCF5D, 0xDF7C, 0xAF9B, 0xBFBA, 0x8FD9, 0x9FF8,
     0x6E17, 0x7E36, 0x4E55, 0x5E74, 0x2E93, 0x3EB2, 0x0ED1, 0x1EF0]"

text \<open>The index is computed in an int; a char is signed.\<close>

definition crc16_step :: "16 word \<Rightarrow> byte \<Rightarrow> 16 word" where
  "crc16_step crc b =
     push_bit 8 crc XOR crc16tab ! unat (((ucast (drop_bit 8 crc) :: 32 word) XOR scast b) AND 0xFF)"

definition crc16 :: "byte list \<Rightarrow> 16 word" where
  "crc16 buf = fold (\<lambda>b crc. crc16_step crc b) buf 0"

section \<open>CRC64\<close>

definition crc64_tab :: "64 word list" where
  "crc64_tab = [
     0x0000000000000000, 0x7AD870C830358979, 0xF5B0E190606B12F2, 0x8F689158505E9B8B,
     0xC038E5739841B68F, 0xBAE095BBA8743FF6, 0x358804E3F82AA47D, 0x4F50742BC81F2D04,
     0xAB28ECB46814FE75, 0xD1F09C7C5821770C, 0x5E980D24087FEC87, 0x24407DEC384A65FE,
     0x6B1009C7F05548FA, 0x11C8790FC060C183, 0x9EA0E857903E5A08, 0xE478989FA00BD371,
     0x7D08FF3B88BE6F81, 0x07D08FF3B88BE6F8, 0x88B81EABE8D57D73, 0xF2606E63D8E0F40A,
     0xBD301A4810FFD90E, 0xC7E86A8020CA5077, 0x4880FBD87094CBFC, 0x32588B1040A14285,
     0xD620138FE0AA91F4, 0xACF86347D09F188D, 0x2390F21F80C18306, 0x594882D7B0F40A7F,
     0x1618F6FC78EB277B, 0x6CC0863448DEAE02, 0xE3A8176C18803589, 0x997067A428B5BCF0,
     0xFA11FE77117CDF02, 0x80C98EBF2149567B, 0x0FA11FE77117CDF0, 0x75796F2F41224489,
     0x3A291B04893D698D, 0x40F16BCCB908E0F4, 0xCF99FA94E9567B7F, 0xB5418A5CD963F206,
     0x513912C379682177, 0x2BE1620B495DA80E, 0xA489F35319033385, 0xDE51839B2936BAFC,
     0x9101F7B0E12997F8, 0xEBD98778D11C1E81, 0x64B116208142850A, 0x1E6966E8B1770C73,
     0x8719014C99C2B083, 0xFDC17184A9F739FA, 0x72A9E0DCF9A9A271, 0x08719014C99C2B08,
     0x4721E43F0183060C, 0x3DF994F731B68F75, 0xB29105AF61E814FE, 0xC849756751DD9D87,
     0x2C31EDF8F1D64EF6, 0x56E99D30C1E3C78F, 0xD9810C6891BD5C04, 0xA3597CA0A188D57D,
     0xEC09088B6997F879, 0x96D1784359A27100, 0x19B9E91B09FCEA8B, 0x636199D339C963F2,
     0xDF7ADABD7A6E2D6F, 0xA5A2AA754A5BA416, 0x2ACA3B2D1A053F9D, 0x50124BE52A30B6E4,
     0x1F423FCEE22F9BE0, 0x659A4F06D21A1299, 0xEAF2DE5E82448912, 0x902AAE96B271006B,
     0x74523609127AD31A, 0x0E8A46C1224F5A63, 0x81E2D7997211C1E8, 0xFB3AA75142244891,
     0xB46AD37A8A3B6595, 0xCEB2A3B2BA0EECEC, 0x41DA32EAEA507767, 0x3B024222DA65FE1E,
     0xA2722586F2D042EE, 0xD8AA554EC2E5CB97, 0x57C2C41692BB501C, 0x2D1AB4DEA28ED965,
     0x624AC0F56A91F461, 0x1892B03D5AA47D18, 0x97FA21650AFAE693, 0xED2251AD3ACF6FEA,
     0x095AC9329AC4BC9B, 0x7382B9FAAAF135E2, 0xFCEA28A2FAAFAE69, 0x8632586ACA9A2710,
     0xC9622C4102850A14, 0xB3BA5C8932B0836D, 0x3CD2CDD162EE18E6, 0x460ABD1952DB919F,
     0x256B24CA6B12F26D, 0x5FB354025B277B14, 0xD0DBC55A0B79E09F, 0xAA03B5923B4C69E6,
     0xE553C1B9F35344E2, 0x9F8BB171C366CD9B, 0x10E3202993385610, 0x6A3B50E1A30DDF69,
     0x8E43C87E03060C18, 0xF49BB8B633338561, 0x7BF329EE636D1EEA, 0x012B592653589793,
     0x4E7B2D0D9B47BA97, 0x34A35DC5AB7233EE, 0xBBCBCC9DFB2CA865, 0xC113BC55CB19211C,
     0x5863DBF1E3AC9DEC, 0x22BBAB39D3991495, 0xADD33A6183C78F1E, 0xD70B4AA9B3F20667,
     0x985B3E827BED2B63, 0xE2834E4A4BD8A21A, 0x6DEBDF121B863991, 0x1733AFDA2BB3B0E8,
     0xF34B37458BB86399, 0x8993478DBB8DEAE0, 0x06FBD6D5EBD3716B, 0x7C23A61DDBE6F812,
     0x3373D23613F9D516, 0x49ABA2FE23CC5C6F, 0xC6C333A67392C7E4, 0xBC1B436E43A74E9D,
     0x95AC9329AC4BC9B5, 0xEF74E3E19C7E40CC, 0x601C72B9CC20DB47, 0x1AC40271FC15523E,
     0x5594765A340A7F3A, 0x2F4C0692043FF643, 0xA02497CA54616DC8, 0xDAFCE7026454E4B1,
     0x3E847F9DC45F37C0, 0x445C0F55F46ABEB9, 0xCB349E0DA4342532, 0xB1ECEEC59401AC4B,
     0xFEBC9AEE5C1E814F, 0x8464EA266C2B0836, 0x0B0C7B7E3C7593BD, 0x71D40BB60C401AC4,
     0xE8A46C1224F5A634, 0x927C1CDA14C02F4D, 0x1D148D82449EB4C6, 0x67CCFD4A74AB3DBF,
     0x289C8961BCB410BB, 0x5244F9A98C8199C2, 0xDD2C68F1DCDF0249, 0xA7F41839ECEA8B30,
     0x438C80A64CE15841, 0x3954F06E7CD4D138, 0xB63C61362C8A4AB3, 0xCCE411FE1CBFC3CA,
     0x83B465D5D4A0EECE, 0xF96C151DE49567B7, 0x76048445B4CBFC3C, 0x0CDCF48D84FE7545,
     0x6FBD6D5EBD3716B7, 0x15651D968D029FCE, 0x9A0D8CCEDD5C0445, 0xE0D5FC06ED698D3C,
     0xAF85882D2576A038, 0xD55DF8E515432941, 0x5A3569BD451DB2CA, 0x20ED197575283BB3,
     0xC49581EAD523E8C2, 0xBE4DF122E51661BB, 0x3125607AB548FA30, 0x4BFD10B2857D7349,
     0x04AD64994D625E4D, 0x7E7514517D57D734, 0xF11D85092D094CBF, 0x8BC5F5C11D3CC5C6,
     0x12B5926535897936, 0x686DE2AD05BCF04F, 0xE70573F555E26BC4, 0x9DDD033D65D7E2BD,
     0xD28D7716ADC8CFB9, 0xA85507DE9DFD46C0, 0x273D9686CDA3DD4B, 0x5DE5E64EFD965432,
     0xB99D7ED15D9D8743, 0xC3450E196DA80E3A, 0x4C2D9F413DF695B1, 0x36F5EF890DC31CC8,
     0x79A59BA2C5DC31CC, 0x037DEB6AF5E9B8B5, 0x8C157A32A5B7233E, 0xF6CD0AFA9582AA47,
     0x4AD64994D625E4DA, 0x300E395CE6106DA3, 0xBF66A804B64EF628, 0xC5BED8CC867B7F51,
     0x8AEEACE74E645255, 0xF036DC2F7E51DB2C, 0x7F5E4D772E0F40A7, 0x05863DBF1E3AC9DE,
     0xE1FEA520BE311AAF, 0x9B26D5E88E0493D6, 0x144E44B0DE5A085D, 0x6E963478EE6F8124,
     0x21C640532670AC20, 0x5B1E309B16452559, 0xD476A1C3461BBED2, 0xAEAED10B762E37AB,
     0x37DEB6AF5E9B8B5B, 0x4D06C6676EAE0222, 0xC26E573F3EF099A9, 0xB8B627F70EC510D0,
     0xF7E653DCC6DA3DD4, 0x8D3E2314F6EFB4AD, 0x0256B24CA6B12F26, 0x788EC2849684A65F,
     0x9CF65A1B368F752E, 0xE62E2AD306BAFC57, 0x6946BB8B56E467DC, 0x139ECB4366D1EEA5,
     0x5CCEBF68AECEC3A1, 0x2616CFA09EFB4AD8, 0xA97E5EF8CEA5D153, 0xD3A62E30FE90582A,
     0xB0C7B7E3C7593BD8, 0xCA1FC72BF76CB2A1, 0x45775673A732292A, 0x3FAF26BB9707A053,
     0x70FF52905F188D57, 0x0A2722586F2D042E, 0x854FB3003F739FA5, 0xFF97C3C80F4616DC,
     0x1BEF5B57AF4DC5AD, 0x61372B9F9F784CD4, 0xEE5FBAC7CF26D75F, 0x9487CA0FFF135E26,
     0xDBD7BE24370C7322, 0xA10FCEEC0739FA5B, 0x2E675FB4576761D0, 0x54BF2F7C6752E8A9,
     0xCDCF48D84FE75459, 0xB71738107FD2DD20, 0x387FA9482F8C46AB, 0x42A7D9801FB9CFD2,
     0x0DF7ADABD7A6E2D6, 0x772FDD63E7936BAF, 0xF8474C3BB7CDF024, 0x829F3CF387F8795D,
     0x66E7A46C27F3AA2C, 0x1C3FD4A417C62355, 0x935745FC4798B8DE, 0xE98F353477AD31A7,
     0xA6DF411FBFB21CA3, 0xDC0731D78F8795DA, 0x536FA08FDFD90E51, 0x29B7D047EFEC8728]"

definition crc64_step :: "64 word \<Rightarrow> byte \<Rightarrow> 64 word" where
  "crc64_step crc b = crc64_tab ! unat ((ucast crc :: byte) XOR b) XOR drop_bit 8 crc"

definition crc64 :: "64 word \<Rightarrow> byte list \<Rightarrow> 64 word" where
  "crc64 crc s = fold (\<lambda>b crc. crc64_step crc b) s crc"

section \<open>Hash slots\<close>

text \<open>The index of the first byte with a value from a position on, or the length.\<close>

fun scan_for :: "byte \<Rightarrow> byte list \<Rightarrow> nat \<Rightarrow> nat" where
  "scan_for b [] j = j"
| "scan_for b (x # xs) j = (if x = b then j else scan_for b xs (j + 1))"

definition keyHashSlot :: "byte list \<Rightarrow> 32 word" where
  "keyHashSlot key =
     (let s = scan_for 123 key 0 in
      if s = length key then ucast (crc16 key) AND 0x3FFF
      else
        let e = scan_for 125 (drop (s + 1) key) (s + 1) in
        if e = length key \<or> e = s + 1 then ucast (crc16 key) AND 0x3FFF
        else ucast (crc16 (take (e - s - 1) (drop (s + 1) key))) AND 0x3FFF)"

section \<open>Division by the polynomials\<close>

text \<open>One bit of CRC-16/XMODEM: the polynomial is \<open>x^16 + x^12 + x^5 + 1\<close>, most significant bit first.\<close>

definition shift16 :: "16 word \<Rightarrow> 16 word" where
  "shift16 c = (if bit c 15 then push_bit 1 c XOR 0x1021 else push_bit 1 c)"

text \<open>One bit of the Jones CRC-64, least significant bit first, with the reflected polynomial.\<close>

definition shift64 :: "64 word \<Rightarrow> 64 word" where
  "shift64 c = (if bit c 0 then drop_bit 1 c XOR 0x95AC9329AC4BC9B5 else drop_bit 1 c)"

definition crc16_bits :: "byte list \<Rightarrow> 16 word" where
  "crc16_bits buf = fold (\<lambda>b c. (shift16 ^^ 8) (c XOR push_bit 8 (ucast b))) buf 0"

definition crc64_bits :: "64 word \<Rightarrow> byte list \<Rightarrow> 64 word" where
  "crc64_bits c s = fold (\<lambda>b c. (shift64 ^^ 8) (c XOR ucast b)) s c"

lemma shift16_xor: "shift16 (x XOR y) = shift16 x XOR shift16 y"
  by (cases "bit x 15"; cases "bit y 15") (simp_all add: shift16_def bit_xor_iff push_bit_xor ac_simps)

lemma shift64_xor: "shift64 (x XOR y) = shift64 x XOR shift64 y"
  by (cases "bit x 0"; cases "bit y 0") (simp_all add: shift64_def bit_xor_iff drop_bit_xor ac_simps del: bit_0)

lemma shift16_pow_xor: "(shift16 ^^ n) (x XOR y) = (shift16 ^^ n) x XOR (shift16 ^^ n) y"
  by (induction n) (simp_all add: shift16_xor)

lemma shift64_pow_xor: "(shift64 ^^ n) (x XOR y) = (shift64 ^^ n) x XOR (shift64 ^^ n) y"
  by (induction n) (simp_all add: shift64_xor)

text \<open>A table of a linear function is determined by its values at the powers of two.\<close>

definition linear_table :: "'a::len word list \<Rightarrow> 'a word list" where
  "linear_table es = fold (\<lambda>e t. t @ map (\<lambda>x. x XOR e) t) es [0]"

lemma linear_table_eq:
  assumes "f 0 = 0" "\<And>k r. r < 2 ^ k \<Longrightarrow> k < n \<Longrightarrow> f (2 ^ k + r) = f r XOR f (2 ^ k)"
  shows "linear_table (map (\<lambda>k. f (2 ^ k)) [0..<n]) = map f [0..<2 ^ n]"
  using assms(2)
proof (induction n)
  case 0
  then show ?case by (simp add: linear_table_def assms(1))
next
  case (Suc n)
  have "map (\<lambda>x. x XOR f (2 ^ n)) (map f [0..<2 ^ n]) = map (\<lambda>r. f (2 ^ n + r)) [0..<2 ^ n]"
    using Suc.prems by simp
  also have "\<dots> = map f [2 ^ n..<2 ^ n + 2 ^ n]"
    by (rule nth_equalityI) simp_all
  finally have "map f [0..<2 ^ n] @ map (\<lambda>x. x XOR f (2 ^ n)) (map f [0..<2 ^ n]) = map f [0..<2 ^ Suc n]"
    using upt_add_eq_append [of 0 "2 ^ n" "2 ^ n"] by (simp add: mult_2 del: upt.simps)
  moreover have "linear_table (map (\<lambda>k. f (2 ^ k)) [0..<n]) = map f [0..<2 ^ n]" using Suc by simp
  ultimately show ?case by (simp add: linear_table_def)
qed

text \<open>Adding a number below a power of two is exclusive or.\<close>

lemma of_nat_xor_pow:
  assumes "r < 2 ^ k" "k < LENGTH('a::len)"
  shows "(of_nat (2 ^ k + r) :: 'a word) = of_nat r XOR of_nat (2 ^ k)"
proof -
  have "\<not> bit r k" using assms(1) by (simp add: bit_iff_odd)
  then have "of_nat r AND of_nat (2 ^ k) = (0 :: 'a word)"
    by (intro bit_word_eqI) (auto simp: bit_and_iff bit_of_nat_iff bit_exp_iff)
  then have "(of_nat r :: 'a word) + of_nat (2 ^ k) = of_nat r XOR of_nat (2 ^ k)" by (rule disjunctive_add_eq_xor)
  then show ?thesis by (simp add: add.commute)
qed

definition entry16 :: "nat \<Rightarrow> 16 word" where
  "entry16 i = (shift16 ^^ 8) (push_bit 8 (of_nat i))"

definition entry64 :: "nat \<Rightarrow> 64 word" where
  "entry64 i = (shift64 ^^ 8) (of_nat i)"

lemma shift_zero [simp]: "(shift16 ^^ n) 0 = 0" "(shift64 ^^ n) 0 = 0"
  by (induction n) (simp_all add: shift16_def shift64_def)

lemma crc16tab_entries: "crc16tab = map entry16 [0..<256]"
proof -
  have "linear_table (map (\<lambda>k. entry16 (2 ^ k)) [0..<8]) = map entry16 [0..<2 ^ 8]"
    by (rule linear_table_eq) (simp_all add: entry16_def of_nat_xor_pow push_bit_xor shift16_pow_xor del: of_nat_add)
  moreover have "map (\<lambda>k. entry16 (2 ^ k)) [0..<8] =
      [0x1021, 0x2042, 0x4084, 0x8108, 0x1231, 0x2462, 0x48C4, 0x9188]"
    by code_simp
  moreover have "linear_table [0x1021, 0x2042, 0x4084, 0x8108, 0x1231, 0x2462, 0x48C4, 0x9188] = crc16tab"
    by (simp add: linear_table_def crc16tab_def)
  ultimately show ?thesis by simp
qed

lemma crc64_tab_entries: "crc64_tab = map entry64 [0..<256]"
proof -
  have "linear_table (map (\<lambda>k. entry64 (2 ^ k)) [0..<8]) = map entry64 [0..<2 ^ 8]"
    by (rule linear_table_eq) (simp_all add: entry64_def of_nat_xor_pow shift64_pow_xor del: of_nat_add)
  moreover have "map (\<lambda>k. entry64 (2 ^ k)) [0..<8] =
      [0x7AD870C830358979, 0xF5B0E190606B12F2, 0xC038E5739841B68F, 0xAB28ECB46814FE75,
       0x7D08FF3B88BE6F81, 0xFA11FE77117CDF02, 0xDF7ADABD7A6E2D6F, 0x95AC9329AC4BC9B5]"
    by code_simp
  moreover have "linear_table [0x7AD870C830358979, 0xF5B0E190606B12F2, 0xC038E5739841B68F, 0xAB28ECB46814FE75,
       0x7D08FF3B88BE6F81, 0xFA11FE77117CDF02, 0xDF7ADABD7A6E2D6F, 0x95AC9329AC4BC9B5] = crc64_tab"
    by (simp add: linear_table_def crc64_tab_def)
  ultimately show ?thesis by simp
qed

section \<open>The tables implement the divisions\<close>

lemma shift16_low: "k \<le> 8 \<Longrightarrow> (shift16 ^^ k) (take_bit 8 c) = push_bit k (take_bit 8 c)"
proof (induction k)
  case (Suc k)
  have "\<not> 15 - k < 8" using Suc.prems by simp
  then have "\<not> bit (push_bit k (take_bit 8 c)) 15" by (simp only: bit_push_bit_iff bit_take_bit_iff simp_thms)
  then show ?case using Suc by (simp add: shift16_def)
qed simp

lemma split16: "(c :: 16 word) = push_bit 8 (drop_bit 8 c) XOR take_bit 8 c"
  by (rule bit_word_eqI) (auto simp: bit_xor_iff bit_push_bit_iff bit_drop_bit_eq bit_take_bit_iff)

lemma index16:
  "((ucast (drop_bit 8 (c :: 16 word)) :: 32 word) XOR scast (b :: byte)) AND 0xFF = ucast ((ucast (drop_bit 8 c) :: byte) XOR b)"
proof (rule bit_word_eqI)
  fix n assume "n < LENGTH(32)"
  have m: "(0xFF :: 32 word) = mask 8" by (simp add: mask_eq_exp_minus_1)
  have "min 7 n = n" if "n < 8" using that by simp
  moreover have "\<not> bit b n" if "\<not> n < 8" using that bit_imp_le_length [of b n] by auto
  ultimately show "bit (((ucast (drop_bit 8 c) :: 32 word) XOR scast b) AND 0xFF) n = bit (ucast ((ucast (drop_bit 8 c) :: byte) XOR b) :: 32 word) n"
    unfolding m bit_and_iff bit_xor_iff bit_mask_iff bit_unsigned_iff bit_signed_iff
    by (cases "n < 8") auto
qed

lemma crc16_step_bits: "crc16_step c b = (shift16 ^^ 8) (c XOR push_bit 8 (ucast b))"
proof -
  define i where "i = (ucast (drop_bit 8 c) :: byte) XOR b"
  have u: "unat i < 256" using unat_less_exp [of i] by simp
  have "unat (ucast i :: 32 word) = unat i" using u by (simp add: unsigned_ucast_eq take_bit_nat_eq_self)
  then have "crc16_step c b = push_bit 8 c XOR entry16 (unat i)"
    using u unfolding crc16_step_def index16 i_def [symmetric] by (simp add: crc16tab_entries)
  moreover have "push_bit 8 (of_nat (unat i)) = push_bit 8 (drop_bit 8 c) XOR push_bit 8 (ucast b :: 16 word)"
    by (rule bit_word_eqI) (auto simp: i_def bit_simps)
  then have e: "entry16 (unat i) = (shift16 ^^ 8) (push_bit 8 (drop_bit 8 c) XOR push_bit 8 (ucast b))"
    by (simp only: entry16_def)
  moreover have "push_bit 8 (take_bit 8 c) = push_bit 8 c" by (rule bit_word_eqI) (auto simp: bit_simps)
  then have "(shift16 ^^ 8) (take_bit 8 c) = push_bit 8 c" using shift16_low [of 8 c] by simp
  moreover have "c XOR push_bit 8 (ucast b) = take_bit 8 c XOR (push_bit 8 (drop_bit 8 c) XOR push_bit 8 (ucast b))"
    using arg_cong [OF split16 [of c], of "\<lambda>x. x XOR push_bit 8 (ucast b)"] by (simp only: ac_simps)
  ultimately show ?thesis by (simp only: shift16_pow_xor)
qed

lemma shift64_high: "k \<le> 8 \<Longrightarrow> (shift64 ^^ k) (push_bit 8 (drop_bit 8 c)) = drop_bit k (push_bit 8 (drop_bit 8 c))"
proof (induction k)
  case (Suc k)
  have "\<not> bit (drop_bit k (push_bit 8 (drop_bit 8 c))) 0" using Suc.prems
    by (simp add: bit_push_bit_iff bit_drop_bit_eq del: bit_0)
  then show ?case using Suc by (simp add: shift64_def del: bit_0)
qed simp

lemma crc64_step_bits: "crc64_step c b = (shift64 ^^ 8) (c XOR ucast b)"
proof -
  define i where "i = (ucast c :: byte) XOR b"
  have u: "unat i < 256" using unat_less_exp [of i] by simp
  have "crc64_step c b = entry64 (unat i) XOR drop_bit 8 c"
    using u unfolding crc64_step_def i_def [symmetric] by (simp add: crc64_tab_entries)
  moreover have "drop_bit 8 (push_bit 8 (drop_bit 8 c)) = drop_bit 8 c"
    by (rule bit_word_eqI) (auto simp: bit_simps dest: bit_imp_le_length)
  then have "(shift64 ^^ 8) (push_bit 8 (drop_bit 8 c)) = drop_bit 8 c" using shift64_high [of 8 c] by simp
  moreover have "c XOR ucast b = (of_nat (unat i) :: 64 word) XOR push_bit 8 (drop_bit 8 c)"
    by (rule bit_word_eqI) (auto simp: i_def bit_simps)
  ultimately show ?thesis by (simp only: shift64_pow_xor entry64_def)
qed

text \<open>
  C33. The table driven checksums are the polynomial divisions: \<^verbatim>\<open>crc16\<close> is CRC-16/XMODEM and \<^verbatim>\<open>crc64\<close>
  the reflected Jones CRC-64, computed bit by bit, for every input and every start value.
\<close>

theorem crc_tables_correct:
  "crc16 buf = crc16_bits buf \<and> crc64 c s = crc64_bits c s"
  by (simp add: crc16_def crc16_bits_def crc64_def crc64_bits_def crc16_step_bits crc64_step_bits)

section \<open>Hash tags\<close>

lemma scan_for_eq: "scan_for b xs j = j + length (takeWhile (\<lambda>x. x \<noteq> b) xs)"
  by (induction b xs j rule: scan_for.induct) auto

lemma takeWhile_prefix: "b \<notin> set pre \<Longrightarrow> takeWhile (\<lambda>x. x \<noteq> b) (pre @ b # post) = pre"
  by (induction pre) auto

lemma takeWhile_split: "length (takeWhile (\<lambda>x. x \<noteq> b) xs) < length xs \<Longrightarrow> \<exists>pre post. xs = pre @ b # post \<and> b \<notin> set pre"
proof (rule split_list_first, rule ccontr)
  assume "b \<notin> set xs" and l: "length (takeWhile (\<lambda>x. x \<noteq> b) xs) < length xs"
  then have t: "takeWhile (\<lambda>x. x \<noteq> b) xs = xs" unfolding takeWhile_eq_all_conv by auto
  show False using l unfolding t by simp
qed

text \<open>The key has the tag between its first opening brace and the next closing one.\<close>

definition has_tag :: "byte list \<Rightarrow> byte list \<Rightarrow> bool" where
  "has_tag key tag \<longleftrightarrow> tag \<noteq> [] \<and> 125 \<notin> set tag \<and> (\<exists>pre post. key = pre @ 123 # tag @ 125 # post \<and> 123 \<notin> set pre)"

lemma keyHashSlot_tag:
  assumes "has_tag key tag"
  shows "keyHashSlot key = ucast (crc16 tag) AND 0x3FFF"
proof -
  obtain pre post where k: "key = pre @ 123 # tag @ 125 # post" "123 \<notin> set pre" "125 \<notin> set tag" "tag \<noteq> []"
    using assms by (auto simp: has_tag_def)
  have s: "scan_for 123 key 0 = length pre" using takeWhile_prefix [OF k(2)] k(1) by (simp add: scan_for_eq)
  have "scan_for 125 (drop (length pre + 1) key) (length pre + 1) = length pre + 1 + length tag"
    using takeWhile_prefix [OF k(3)] k(1) by (simp add: scan_for_eq)
  then show ?thesis using k s by (simp add: keyHashSlot_def Let_def)
qed

lemma keyHashSlot_plain:
  assumes no: "\<And>tag. \<not> has_tag key tag"
  shows "keyHashSlot key = ucast (crc16 key) AND 0x3FFF"
proof (cases "scan_for 123 key 0 = length key")
  case False
  then have "length (takeWhile (\<lambda>x. x \<noteq> 123) key) < length key"
    using length_takeWhile_le [of "\<lambda>x. x \<noteq> 123" key] by (simp add: scan_for_eq)
  then obtain pre rest where k: "key = pre @ 123 # rest" "123 \<notin> set pre" using takeWhile_split [of 123 key] by auto
  have s: "scan_for 123 key 0 = length pre" using takeWhile_prefix [OF k(2)] k(1) by (simp add: scan_for_eq)
  let ?tag = "takeWhile (\<lambda>x. x \<noteq> 125) rest"
  have e: "scan_for 125 (drop (length pre + 1) key) (length pre + 1) = length pre + 1 + length ?tag"
    using k(1) by (simp add: scan_for_eq)
  have "length ?tag = length rest \<or> ?tag = []"
  proof (rule ccontr)
    assume n: "\<not> (length ?tag = length rest \<or> ?tag = [])"
    then have "length ?tag < length rest" using length_takeWhile_le [of "\<lambda>x. x \<noteq> 125" rest] by simp
    then obtain p q where r: "rest = p @ 125 # q" "125 \<notin> set p" using takeWhile_split [of 125 rest] by auto
    then have "?tag = p" using takeWhile_prefix [OF r(2), of q] by simp
    then have "has_tag key p" using n k r by (auto simp: has_tag_def)
    then show False using no by blast
  qed
  then show ?thesis using s e k(1) by (auto simp: keyHashSlot_def Let_def)
qed (simp add: keyHashSlot_def)

lemma and_slot_less: "(x AND 0x3FFF :: 32 word) < 16384"
proof -
  have "(0x3FFF :: 32 word) = mask 14" by (simp add: mask_eq_exp_minus_1)
  then have "x AND 0x3FFF = take_bit 14 x" by (simp only: take_bit_eq_mask)
  moreover have "unat (take_bit 14 x) < 2 ^ 14" by (simp add: unsigned_take_bit_eq take_bit_nat_less_exp [of 14, simplified])
  ultimately show ?thesis by (simp add: word_less_nat_alt)
qed

text \<open>
  C34. Slots: every key gets one of the 16384 slots, a key with a non-empty hash tag gets the slot of
  the tag, so that keys with one tag share a slot, and any other key the slot of all its bytes.
\<close>

theorem keyHashSlot_correct:
  "keyHashSlot key < 16384 \<and>
   (\<forall>tag. has_tag key tag \<longrightarrow> keyHashSlot key = ucast (crc16_bits tag) AND 0x3FFF) \<and>
   ((\<nexists>tag. has_tag key tag) \<longrightarrow> keyHashSlot key = ucast (crc16_bits key) AND 0x3FFF)"
proof -
  have c: "crc16_bits x = crc16 x" for x by (simp add: crc16_def crc16_bits_def crc16_step_bits)
  have "keyHashSlot key < 16384"
  proof (cases "\<exists>tag. has_tag key tag")
    case True
    then show ?thesis using keyHashSlot_tag and_slot_less by auto
  next
    case False
    then show ?thesis using keyHashSlot_plain and_slot_less by simp
  qed
  then show ?thesis using keyHashSlot_tag keyHashSlot_plain by (auto simp: c)
qed

theorem keyHashSlot_correct_witness:
  "keyHashSlot [123, 97, 125, 98] < 16384 \<and> keyHashSlot [123, 97, 125, 98] = ucast (crc16_bits [97]) AND 0x3FFF"
proof -
  have "has_tag [123, 97, 125, 98] [97]" unfolding has_tag_def
    by (intro conjI exI [of _ "[]"] exI [of _ "[98]"]) simp_all
  then show ?thesis using keyHashSlot_correct [of "[123, 97, 125, 98]"] by blast
qed

end
