(* ===== verification/Object.thy ===== *)
theory Object
  imports Util
begin

text \<open>
  \<^verbatim>\<open>object.c\<close>: string objects and their encodings. A string object holds a 64 bit integer
  (\<open>OBJ_ENCODING_INT\<close>), an sds string of its own (\<open>OBJ_ENCODING_RAW\<close>) or one embedded in the
  object (\<open>OBJ_ENCODING_EMBSTR\<close>); the values of the aggregate types are opaque here. Objects are
  values: reference counts and the shared integer objects, which only decide whether memory is shared,
  have no counterpart, except that the test of \<^verbatim>\<open>tryObjectEncoding\<close> on the reference count is an
  argument. \<open>None\<close> is a failed assertion or \<^verbatim>\<open>serverPanic\<close>.

  The theory shows that every encoding stands for the string it was made from, so that no command can
  observe the difference through the string operations.
\<close>

type_synonym sds = "byte list"

datatype obj_type = OBJ_STRING | OBJ_LIST | OBJ_SET | OBJ_ZSET | OBJ_HASH

datatype aggregate = AggList | AggSet | AggZset | AggHash

text \<open>The second component of an aggregate stands for its contents.\<close>

datatype robj = IntObj int64 | Raw sds | Embstr sds | Aggregate aggregate nat

primrec aggregate_type :: "aggregate \<Rightarrow> obj_type" where
  "aggregate_type AggList = OBJ_LIST"
| "aggregate_type AggSet = OBJ_SET"
| "aggregate_type AggZset = OBJ_ZSET"
| "aggregate_type AggHash = OBJ_HASH"

fun type_of :: "robj \<Rightarrow> obj_type" where
  "type_of (Aggregate t _) = aggregate_type t"
| "type_of _ = OBJ_STRING"

abbreviation "OBJ_ENCODING_EMBSTR_SIZE_LIMIT \<equiv> (44 :: nat)"
abbreviation "OBJ_SHARED_INTEGERS \<equiv> (10000 :: int)"

section \<open>Creation\<close>

definition createRawStringObject :: "sds \<Rightarrow> robj" where
  "createRawStringObject s = Raw s"

definition createEmbeddedStringObject :: "sds \<Rightarrow> robj" where
  "createEmbeddedStringObject s = Embstr s"

definition createStringObject :: "sds \<Rightarrow> robj" where
  "createStringObject s =
     (if length s \<le> OBJ_ENCODING_EMBSTR_SIZE_LIMIT then createEmbeddedStringObject s
      else createRawStringObject s)"

text \<open>A long long always fits a long here, so the last branch of the function is dead.\<close>

definition createStringObjectFromLongLong :: "int64 \<Rightarrow> robj" where
  "createStringObjectFromLongLong v =
     (if 0 \<le> sint v \<and> sint v < OBJ_SHARED_INTEGERS then IntObj v
      else if - (2 ^ 63) \<le> sint v \<and> sint v \<le> 2 ^ 63 - 1 then IntObj v
      else Raw (sdec v))"

fun dupStringObject :: "robj \<Rightarrow> robj option" where
  "dupStringObject (Raw s) = Some (createRawStringObject s)"
| "dupStringObject (Embstr s) = Some (createEmbeddedStringObject s)"
| "dupStringObject (IntObj v) = Some (IntObj v)"
| "dupStringObject (Aggregate t a) = None"

section \<open>Encoding and decoding\<close>

fun sdsEncodedObject :: "robj \<Rightarrow> bool" where
  "sdsEncodedObject (Raw s) = True"
| "sdsEncodedObject (Embstr s) = True"
| "sdsEncodedObject _ = False"

fun ptr_sds :: "robj \<Rightarrow> sds option" where
  "ptr_sds (Raw s) = Some s"
| "ptr_sds (Embstr s) = Some s"
| "ptr_sds _ = None"

definition isObjectRepresentableAsLongLong :: "robj \<Rightarrow> int64 option option" where
  "isObjectRepresentableAsLongLong obj =
     (case obj of Aggregate t a \<Rightarrow> None
      | IntObj v \<Rightarrow> Some (Some v)
      | Raw s \<Rightarrow> Some (string2ll s)
      | Embstr s \<Rightarrow> Some (string2ll s))"

text \<open>\<open>shared\<close> tells whether the reference count is above 1.\<close>

definition tryObjectEncoding :: "bool \<Rightarrow> robj \<Rightarrow> robj option" where
  "tryObjectEncoding shared obj =
     (case obj of Aggregate t a \<Rightarrow> None
      | IntObj v \<Rightarrow> Some obj
      | Raw s \<Rightarrow>
          if shared then Some obj
          else (case (if length s \<le> 20 then string2l s else None) of
              Some v \<Rightarrow> Some (IntObj v)
            | None \<Rightarrow>
                if length s \<le> OBJ_ENCODING_EMBSTR_SIZE_LIMIT
                then Some (createEmbeddedStringObject s) else Some obj)
      | Embstr s \<Rightarrow>
          if shared then Some obj
          else (case (if length s \<le> 20 then string2l s else None) of
              Some v \<Rightarrow> Some (IntObj v)
            | None \<Rightarrow> Some obj))"

text \<open>\<open>buf\<close> is the uninitialised buffer of 32 bytes on the stack.\<close>

definition getDecodedObject :: "byte list \<Rightarrow> robj \<Rightarrow> robj option" where
  "getDecodedObject buf obj =
     (if sdsEncodedObject obj then Some obj
      else (case obj of IntObj v \<Rightarrow> do {
              (buf, _) \<leftarrow> ll2string buf 32 v;
              Some (createStringObject (c_str buf)) }
            | _ \<Rightarrow> None))"

definition stringObjectLen :: "robj \<Rightarrow> nat option" where
  "stringObjectLen obj =
     (case obj of Aggregate t a \<Rightarrow> None
      | IntObj v \<Rightarrow> Some (unat (sdigits10 v))
      | Raw s \<Rightarrow> Some (length s)
      | Embstr s \<Rightarrow> Some (length s))"

section \<open>Comparison\<close>

text \<open>The characters of a string object, printed into a buffer when it holds an integer.\<close>

definition str_of :: "byte list \<Rightarrow> robj \<Rightarrow> sds option" where
  "str_of buf obj =
     (case obj of Aggregate t a \<Rightarrow> None
      | IntObj v \<Rightarrow> do { (buf, n) \<leftarrow> ll2string buf 128 v; Some (take (unat n) buf) }
      | Raw s \<Rightarrow> Some s
      | Embstr s \<Rightarrow> Some s)"

fun memcmp :: "byte list \<Rightarrow> byte list \<Rightarrow> int" where
  "memcmp (x # xs) (y # ys) = (if x = y then memcmp xs ys else uint x - uint y)"
| "memcmp _ _ = 0"

text \<open>
  The binary comparison. The difference of the lengths is converted to a C int.
\<close>

definition compareStringObjects :: "byte list \<Rightarrow> byte list \<Rightarrow> robj \<Rightarrow> robj \<Rightarrow> int option" where
  "compareStringObjects bufa bufb a b = do {
     astr \<leftarrow> str_of bufa a;
     bstr \<leftarrow> str_of bufb b;
     let minlen = min (length astr) (length bstr);
     let cmp = memcmp (take minlen astr) (take minlen bstr);
     Some (if cmp = 0 then c_int (int (length astr) - int (length bstr)) else cmp) }"

definition equalStringObjects :: "byte list \<Rightarrow> byte list \<Rightarrow> robj \<Rightarrow> robj \<Rightarrow> bool option" where
  "equalStringObjects bufa bufb a b =
     (case (a, b) of (IntObj v, IntObj w) \<Rightarrow> Some (v = w)
      | _ \<Rightarrow> map_option (\<lambda>c. c = 0) (compareStringObjects bufa bufb a b))"

section \<open>Integers in objects\<close>

text \<open>The outer option is a failed assertion, the inner one \<open>C_ERR\<close>. A null object is 0.\<close>

definition getLongLongFromObject :: "robj option \<Rightarrow> int64 option option" where
  "getLongLongFromObject obj =
     (case obj of None \<Rightarrow> Some (Some 0)
      | Some (Aggregate t a) \<Rightarrow> None
      | Some (IntObj v) \<Rightarrow> Some (Some v)
      | Some (Raw s) \<Rightarrow> Some (string2ll s)
      | Some (Embstr s) \<Rightarrow> Some (string2ll s))"

text \<open>A long long is a long, so the range check never fails.\<close>

definition getLongFromObject :: "robj option \<Rightarrow> int64 option option" where
  "getLongFromObject obj = do {
     r \<leftarrow> getLongLongFromObject obj;
     Some (case r of None \<Rightarrow> None
       | Some v \<Rightarrow> if sint v < - (2 ^ 63) \<or> sint v > 2 ^ 63 - 1 then None else Some v) }"

section \<open>The string an object stands for\<close>

fun obj_bytes :: "robj \<Rightarrow> sds option" where
  "obj_bytes (IntObj v) = Some (sdec v)"
| "obj_bytes (Raw s) = Some s"
| "obj_bytes (Embstr s) = Some s"
| "obj_bytes (Aggregate t a) = None"

lemma obj_bytes_type: "type_of obj = OBJ_STRING \<longleftrightarrow> (\<exists>s. obj_bytes obj = Some s)"
proof (cases obj)
  case (Aggregate t a)
  then show ?thesis by (cases t) simp_all
qed simp_all

lemma string2l_iff: "string2l s = Some v \<longleftrightarrow> s = sdec v"
proof -
  have "\<not> (sint w < - (2 ^ 63) \<or> sint w > 2 ^ 63 - 1)" for w :: int64
    using sint_ge [of w] sint_lt [of w] by simp
  then have "string2l s = string2ll s"
    unfolding string2l_def by (cases "string2ll s") (simp_all only: option.case if_False)
  then show ?thesis by (simp add: string2ll_iff)
qed

lemma sdec_not_null: "b \<in> set (sdec v) \<Longrightarrow> b \<noteq> 0"
proof -
  have d: "b \<in> set (dec n) \<Longrightarrow> b \<noteq> 0" for b n
  proof (induction n rule: dec.induct)
    case (1 n)
    have "48 + of_nat k \<noteq> (0 :: byte)" if "k < 10" for k :: nat
      using digit_of_nat(1) [OF that] by auto
    then show ?case using 1 by (cases "n < 10") (auto simp: dec.simps [of n])
  qed
  assume "b \<in> set (sdec v)"
  then show ?thesis using d by (auto simp: sdec_def split: if_splits)
qed

lemma createStringObject_bytes [simp]: "obj_bytes (createStringObject s) = Some s"
  by (simp add: createStringObject_def createEmbeddedStringObject_def createRawStringObject_def)

lemma createFromLongLong_eq [simp]: "createStringObjectFromLongLong v = IntObj v"
proof -
  have "- (2 ^ 63) \<le> sint v \<and> sint v \<le> 2 ^ 63 - 1" using sint_ge [of v] sint_lt [of v] by simp
  then show ?thesis unfolding createStringObjectFromLongLong_def by simp
qed

lemma tryObjectEncoding_bytes:
  assumes "obj_bytes obj = Some s"
  shows "\<exists>e. tryObjectEncoding shared obj = Some e \<and> obj_bytes e = Some s"
  using assms
  by (cases obj) (auto simp: tryObjectEncoding_def createEmbeddedStringObject_def string2l_iff split: option.split)

lemma c_str_sdec: "c_str (sdec v @ 0 # rest) = sdec v"
  using sdec_not_null [of _ v] by (simp add: c_str_def takeWhile_append)

lemma getDecodedObject_bytes:
  assumes "obj_bytes obj = Some s" "length buf = 32"
  shows "\<exists>e. getDecodedObject buf obj = Some e \<and> sdsEncodedObject e \<and> obj_bytes e = Some s"
proof (cases obj)
  case (IntObj v)
  have "length (sdec v) \<le> 20" by (rule length_sdec)
  then have "getDecodedObject buf obj = Some (createStringObject (sdec v))"
    using assms(2) IntObj by (simp add: getDecodedObject_def ll2string_eq Let_def c_str_sdec)
  then show ?thesis
    using assms(1) IntObj by (simp add: createStringObject_def createEmbeddedStringObject_def createRawStringObject_def)
qed (use assms in \<open>auto simp: getDecodedObject_def\<close>)

lemma stringObjectLen_bytes: "obj_bytes obj = Some s \<Longrightarrow> stringObjectLen obj = Some (length s)"
  by (cases obj) (auto simp: stringObjectLen_def sdigits10_eq)

lemma str_of_bytes: "obj_bytes obj = Some s \<Longrightarrow> 128 \<le> length buf \<Longrightarrow> str_of buf obj = Some s"
proof (cases obj)
  case (IntObj v)
  have l: "length (sdec v) \<le> 20" by (rule length_sdec)
  then have "unat (of_nat (length (sdec v)) :: uint32) = length (sdec v)" by (simp add: unat_of_nat_small)
  moreover assume "obj_bytes obj = Some s" "128 \<le> length buf"
  ultimately show ?thesis
    using l IntObj by (simp add: str_of_def ll2string_eq Let_def)
qed (auto simp: str_of_def)

lemma memcmp_eq_0: "length xs = length ys \<Longrightarrow> memcmp xs ys = 0 \<longleftrightarrow> xs = ys"
  by (induction xs ys rule: list_induct2) (auto simp: word_uint_eq_iff)

lemma compare_eq_0:
  assumes "length xs < 2 ^ 31" "length ys < 2 ^ 31"
  shows "(let m = min (length xs) (length ys); c = memcmp (take m xs) (take m ys)
    in (if c = 0 then c_int (int (length xs) - int (length ys)) else c)) = 0 \<longleftrightarrow> xs = ys"
proof (cases "length xs = length ys")
  case True
  then show ?thesis using memcmp_eq_0 [OF True] by (simp add: Let_def c_int_id)
next
  case False
  have "c_int (int (length xs) - int (length ys)) = int (length xs) - int (length ys)"
    using assms by (intro c_int_id) simp_all
  then show ?thesis using False by (auto simp: Let_def)
qed

lemma string2ll_sdec [simp]: "string2ll (sdec v) = Some v"
  by (simp add: string2ll_iff)

lemma getLongLong_bytes: "obj_bytes obj = Some s \<Longrightarrow> getLongLongFromObject (Some obj) = Some (string2ll s)"
  by (cases obj) (auto simp: getLongLongFromObject_def)

lemma getLong_eq: "getLongFromObject obj = getLongLongFromObject obj"
proof -
  have "\<not> (sint w < - (2 ^ 63) \<or> sint w > 2 ^ 63 - 1)" for w :: int64
    using sint_ge [of w] sint_lt [of w] by simp
  then show ?thesis
    unfolding getLongFromObject_def
    by (cases "getLongLongFromObject obj") (auto simp only: Option.bind.simps option.case if_False split: option.split)
qed

section \<open>Properties\<close>

text \<open>
  C23. Encodings are transparent: for every string object, \<^verbatim>\<open>tryObjectEncoding\<close> and
  \<^verbatim>\<open>getDecodedObject\<close> give objects with the same characters, \<^verbatim>\<open>stringObjectLen\<close> is their number,
  the integer read from the object is what \<^verbatim>\<open>string2ll\<close> reads from the characters, and two objects
  are equal for \<^verbatim>\<open>equalStringObjects\<close> exactly when their characters are, whatever the encodings. The last part needs
  strings shorter than \<open>2 ^ 31\<close>, since the comparison converts the difference of the lengths to an int.
\<close>

theorem encodings_transparent:
  assumes "obj_bytes a = Some s" "obj_bytes b = Some t" "length buf = 32" "128 \<le> length bufa" "128 \<le> length bufb"
  shows "(\<exists>e. tryObjectEncoding shared a = Some e \<and> obj_bytes e = Some s) \<and>
    (\<exists>e. getDecodedObject buf a = Some e \<and> sdsEncodedObject e \<and> obj_bytes e = Some s) \<and>
    stringObjectLen a = Some (length s) \<and>
    getLongLongFromObject (Some a) = Some (string2ll s) \<and>
    (length s < 2 ^ 31 \<and> length t < 2 ^ 31 \<longrightarrow> equalStringObjects bufa bufb a b = Some (s = t))"
proof -
  have "equalStringObjects bufa bufb a b = Some (s = t)" if "length s < 2 ^ 31" "length t < 2 ^ 31"
  proof (cases "\<exists>v w. a = IntObj v \<and> b = IntObj w")
    case True
    then obtain v w where ab: "a = IntObj v" "b = IntObj w" by blast
    then have "s = sdec v" "t = sdec w" using assms by auto
    then have "s = t \<longleftrightarrow> v = w" using string2ll_iff by (metis option.inject)
    then show ?thesis using ab by (simp add: equalStringObjects_def)
  next
    case False
    then have "equalStringObjects bufa bufb a b = map_option (\<lambda>c. c = 0) (compareStringObjects bufa bufb a b)"
      by (cases a; cases b) (auto simp: equalStringObjects_def)
    then show ?thesis
      using str_of_bytes [OF assms(1,4)] str_of_bytes [OF assms(2,5)] compare_eq_0 [OF that]
      by (simp add: compareStringObjects_def Let_def)
  qed
  then show ?thesis
    using tryObjectEncoding_bytes [OF assms(1)] getDecodedObject_bytes [OF assms(1,3)]
      stringObjectLen_bytes [OF assms(1)] getLongLong_bytes [OF assms(1)] by blast
qed

theorem encodings_transparent_witness:
  "(\<exists>e. tryObjectEncoding False (Raw [49, 50]) = Some e \<and> obj_bytes e = Some [49, 50]) \<and>
   (\<exists>e. getDecodedObject (replicate 32 7) (Raw [49, 50]) = Some e \<and> sdsEncodedObject e \<and> obj_bytes e = Some [49, 50]) \<and>
   stringObjectLen (Raw [49, 50]) = Some (length [49 :: byte, 50]) \<and>
   getLongLongFromObject (Some (Raw [49, 50])) = Some (string2ll [49, 50]) \<and>
   equalStringObjects (replicate 128 7) (replicate 128 7) (Raw [49, 50]) (Embstr [49]) = Some ([49, 50] = [49 :: byte])"
  using encodings_transparent [of "Raw [49, 50]" "[49, 50]" "Embstr [49]" "[49]" "replicate 32 7" "replicate 128 7" "replicate 128 7" False]
  by simp

end
