(* ===== verification/Sds.thy ===== *)
theory Sds
  imports Object
begin

text \<open>
  Operations on dynamic strings (\<^verbatim>\<open>sds.c\<close>): ranges, splitting at a separator and joining, the
  printing of integers, and the quoted form of strings that \<^verbatim>\<open>sdscatrepr\<close> writes and \<^verbatim>\<open>sdssplitargs\<close> reads. A string is the list
  of its bytes; a pointer into a C string is the list of the bytes before its terminator.
\<close>

section \<open>Ranges\<close>

text \<open>Conversion of an integer to \<open>int\<close> (32 bits).\<close>

definition to_int :: "int \<Rightarrow> int" where
  "to_int i = signed_take_bit 31 i"

text \<open>\<open>None\<close> is a move or a terminator outside the string.\<close>

definition sdsrange :: "sds \<Rightarrow> int \<Rightarrow> int \<Rightarrow> sds option" where
  "sdsrange s start e =
     (let len = int (length s) in
      if len = 0 then Some s
      else
        let start = (if start < 0 then max 0 (to_int (len + start)) else start);
            e = (if e < 0 then max 0 (to_int (len + e)) else e);
            newlen = (if start > e then 0 else to_int (e - start + 1));
            (start, newlen) =
              (if newlen \<noteq> 0 then
                 if start \<ge> to_int len then (start, 0)
                 else if e \<ge> to_int len then
                   (let e = to_int (len - 1) in (start, if start > e then 0 else to_int (e - start + 1)))
                 else (start, newlen)
               else (0, newlen))
        in if newlen < 0 \<or> (newlen > 0 \<and> start + newlen > len) then None
           else Some (take (nat newlen) (drop (nat start) s)))"

section \<open>Splitting and joining\<close>

text \<open>
  The loop of \<^verbatim>\<open>sdssplitlen\<close>: \<open>cur\<close> holds the bytes from \<open>start\<close> to \<open>j\<close>, \<open>rest\<close> the bytes from \<open>j\<close> on.
  The loop ends when fewer bytes than the separator has are left; the last token takes them.
\<close>

function split_loop :: "sds \<Rightarrow> sds list \<Rightarrow> sds \<Rightarrow> sds \<Rightarrow> sds list" where
  "split_loop sep tokens cur rest =
     (if length rest < length sep \<or> sep = [] then tokens @ [cur @ rest]
      else if take (length sep) rest = sep then split_loop sep (tokens @ [cur]) [] (drop (length sep) rest)
      else split_loop sep tokens (cur @ [hd rest]) (tl rest))"
  by pat_completeness auto
termination
proof (relation "measure (\<lambda>(_, _, _, rest). length rest)"; clarsimp)
  fix sep rest :: sds
  assume "sep \<noteq> []" "\<not> length rest < length sep"
  then have "0 < length rest" "0 < length sep" by auto
  then show "length rest - length sep < length rest" "length rest - Suc 0 < length rest" by simp_all
qed

declare split_loop.simps [simp del]

definition sdssplitlen :: "sds \<Rightarrow> sds \<Rightarrow> sds list option" where
  "sdssplitlen s sep =
     (if length sep < 1 then None else if s = [] then Some [] else Some (split_loop sep [] [] s))"

fun join_loop :: "sds \<Rightarrow> sds list \<Rightarrow> sds \<Rightarrow> sds" where
  "join_loop sep [] join = join"
| "join_loop sep [a] join = join @ a"
| "join_loop sep (a # b # argv) join = join_loop sep (b # argv) (join @ a @ sep)"

definition sdsjoinsds :: "sds list \<Rightarrow> sds \<Rightarrow> sds" where
  "sdsjoinsds argv sep = join_loop sep argv []"

section \<open>Quoted strings\<close>

text \<open>The character classes of the C locale.\<close>

definition isspace :: "byte \<Rightarrow> bool" where
  "isspace c \<longleftrightarrow> c = 32 \<or> (9 \<le> c \<and> c \<le> 13)"

definition isprint :: "byte \<Rightarrow> bool" where
  "isprint c \<longleftrightarrow> 32 \<le> c \<and> c \<le> 126"

definition is_hex_digit :: "byte \<Rightarrow> bool" where
  "is_hex_digit c \<longleftrightarrow> (c \<ge> 48 \<and> c \<le> 57) \<or> (c \<ge> 97 \<and> c \<le> 102) \<or> (c \<ge> 65 \<and> c \<le> 70)"

definition hex_digit_to_int :: "byte \<Rightarrow> byte" where
  "hex_digit_to_int c =
     (if c = 48 then 0 else if c = 49 then 1 else if c = 50 then 2 else if c = 51 then 3
      else if c = 52 then 4 else if c = 53 then 5 else if c = 54 then 6 else if c = 55 then 7
      else if c = 56 then 8 else if c = 57 then 9
      else if c = 97 \<or> c = 65 then 10 else if c = 98 \<or> c = 66 then 11
      else if c = 99 \<or> c = 67 then 12 else if c = 100 \<or> c = 68 then 13
      else if c = 101 \<or> c = 69 then 14 else if c = 102 \<or> c = 70 then 15 else 0)"

text \<open>The digits that \<open>%02x\<close> prints.\<close>

definition hex_char :: "byte \<Rightarrow> byte" where
  "hex_char d = (if d < 10 then 48 + d else 87 + d)"

definition repr_char :: "byte \<Rightarrow> sds" where
  "repr_char c =
     (if c = 92 \<or> c = 34 then [92, c]
      else if c = 10 then [92, 110]
      else if c = 13 then [92, 114]
      else if c = 9 then [92, 116]
      else if c = 7 then [92, 97]
      else if c = 8 then [92, 98]
      else if isprint c then [c]
      else [92, 120, hex_char (c div 16), hex_char (c mod 16)])"

definition sdscatrepr :: "sds \<Rightarrow> sds \<Rightarrow> sds" where
  "sdscatrepr s p = s @ [34] @ concat (map repr_char p) @ [34]"

text \<open>\<open>p[i]\<close> for a C string that ends at the end of the list.\<close>

definition char_at :: "sds \<Rightarrow> nat \<Rightarrow> byte" where
  "char_at p i = (if i < length p then p ! i else 0)"

definition unescape :: "byte \<Rightarrow> byte" where
  "unescape c = (if c = 110 then 10 else if c = 114 then 13 else if c = 116 then 9
     else if c = 98 then 8 else if c = 97 then 7 else c)"

datatype quoting = NoQuote | Inq | Insq

lemma char_at_pos: "char_at p i \<noteq> 0 \<Longrightarrow> i < length p"
  by (simp add: char_at_def split: if_splits)

text \<open>
  One token: the token and the position after it, or \<open>None\<close> for the jump to \<open>err\<close>. The character
  that ends a token is skipped.
\<close>

function get_token :: "quoting \<Rightarrow> sds \<Rightarrow> sds \<Rightarrow> (sds \<times> sds) option" where
  "get_token Inq current p =
     (if char_at p 0 = 92 \<and> char_at p 1 = 120 \<and> is_hex_digit (char_at p 2) \<and> is_hex_digit (char_at p 3)
      then get_token Inq (current @ [hex_digit_to_int (char_at p 2) * 16 + hex_digit_to_int (char_at p 3)]) (drop 4 p)
      else if char_at p 0 = 92 \<and> char_at p 1 \<noteq> 0 then get_token Inq (current @ [unescape (char_at p 1)]) (drop 2 p)
      else if char_at p 0 = 34
      then (if char_at p 1 \<noteq> 0 \<and> \<not> isspace (char_at p 1) then None else Some (current, drop 1 p))
      else if char_at p 0 = 0 then None
      else get_token Inq (current @ [char_at p 0]) (drop 1 p))"
| "get_token Insq current p =
     (if char_at p 0 = 92 \<and> char_at p 1 = 39 then get_token Insq (current @ [39]) (drop 2 p)
      else if char_at p 0 = 39
      then (if char_at p 1 \<noteq> 0 \<and> \<not> isspace (char_at p 1) then None else Some (current, drop 1 p))
      else if char_at p 0 = 0 then None
      else get_token Insq (current @ [char_at p 0]) (drop 1 p))"
| "get_token NoQuote current p =
     (if char_at p 0 = 0 then Some (current, p)
      else if char_at p 0 \<in> {32, 10, 13, 9} then Some (current, drop 1 p)
      else if char_at p 0 = 34 then get_token Inq current (drop 1 p)
      else if char_at p 0 = 39 then get_token Insq current (drop 1 p)
      else get_token NoQuote (current @ [char_at p 0]) (drop 1 p))"
  by pat_completeness auto

termination
  by (relation "measure (\<lambda>(_, _, p). length p)") (auto dest!: char_at_pos simp: char_at_def split: if_splits)

declare get_token.simps [simp del]

lemma get_token_length: "get_token q cur p = Some (t, r) \<Longrightarrow> length r \<le> length p"
  by (induction q cur p rule: get_token.induct; subst (asm) get_token.simps)
    (auto split: if_splits simp del: One_nat_def)

lemma get_token_shrinks:
  assumes "get_token NoQuote cur p = Some (t, r)" "char_at p 0 \<noteq> 0"
  shows "length r < length p"
proof -
  have p: "0 < length p" using assms(2) by (rule char_at_pos)
  have "length r < length p" if "get_token q cur' (drop 1 p) = Some (t, r)" for q cur'
    using get_token_length [OF that] p unfolding length_drop by linarith
  then show ?thesis using assms p by (subst (asm) get_token.simps) (auto split: if_splits simp del: drop_Suc)
qed

function splitargs_loop :: "sds list \<Rightarrow> sds \<Rightarrow> sds list option" where
  "splitargs_loop vector p =
     (let p = dropWhile isspace p in
      if char_at p 0 \<noteq> 0 then
        (case get_token NoQuote [] p of None \<Rightarrow> None | Some (current, p) \<Rightarrow> splitargs_loop (vector @ [current]) p)
      else Some vector)"
  by pat_completeness auto
termination
  by (relation "measure (\<lambda>(_, p). length p)")
    (auto dest!: get_token_shrinks intro: less_le_trans [OF _ length_dropWhile_le])

declare splitargs_loop.simps [simp del]

definition sdssplitargs :: "sds \<Rightarrow> sds list option" where
  "sdssplitargs line = splitargs_loop [] (c_str line)"

section \<open>Lemmas\<close>

lemma to_int_id: "- (2 ^ 31) \<le> i \<Longrightarrow> i < 2 ^ 31 \<Longrightarrow> to_int i = i"
  by (simp add: to_int_def signed_take_bit_int_eq_self)

text \<open>The use of ranges in the parser: drop the bytes that are consumed.\<close>

lemma sdsrange_drop:
  assumes "length s < 2 ^ 31" "n < 2 ^ 31"
  shows "sdsrange s (int n) (-1) = Some (drop n s)"
proof (cases "n < length s")
  case True
  then show ?thesis using assms
    by (simp add: sdsrange_def Let_def to_int_id of_nat_diff max_def)
next
  case False
  then show ?thesis using assms
    by (simp add: sdsrange_def Let_def to_int_id of_nat_diff max_def)
qed

lemma join_loop_eq: "join_loop sep (a # argv) j = j @ a @ concat (map (\<lambda>b. sep @ b) argv)"
  by (induction argv arbitrary: a j) auto

lemma sdsjoinsds_Cons: "sdsjoinsds (a # argv) sep = a @ concat (map (\<lambda>b. sep @ b) argv)"
  by (simp add: sdsjoinsds_def join_loop_eq)

lemma sdsjoinsds_merge: "sdsjoinsds (ts @ [a @ sep @ b]) sep = sdsjoinsds (ts @ [a, b]) sep"
  by (cases ts) (simp_all add: sdsjoinsds_Cons)

text \<open>The separator does not start inside a token.\<close>

abbreviation starts_at :: "sds \<Rightarrow> sds \<Rightarrow> nat \<Rightarrow> bool" where
  "starts_at sep s i \<equiv> take (length sep) (drop i s) = sep"

lemma starts_at_bound: "starts_at sep s i \<Longrightarrow> i + length sep \<le> length s \<or> sep = []"
proof -
  assume "starts_at sep s i"
  then have "length (take (length sep) (drop i s)) = length sep" by (rule arg_cong)
  then have "sep = [] \<or> length sep \<le> length s - i \<and> i < length s" by (cases sep) auto
  then show ?thesis by linarith
qed

lemma starts_at_append: "starts_at sep s i \<Longrightarrow> sep \<noteq> [] \<Longrightarrow> starts_at sep (s @ t) i"
  using starts_at_bound [of sep i s] by auto

lemma split_loop_correct:
  assumes "sep \<noteq> []" "\<And>t i. t \<in> set tokens \<Longrightarrow> \<not> starts_at sep t i"
    "\<And>i. i < length cur \<Longrightarrow> \<not> starts_at sep (cur @ rest) i"
  shows "sdsjoinsds (split_loop sep tokens cur rest) sep = sdsjoinsds (tokens @ [cur @ rest]) sep \<and>
    (\<forall>t i. t \<in> set (split_loop sep tokens cur rest) \<longrightarrow> \<not> starts_at sep t i)"
  using assms
proof (induction sep tokens cur rest rule: split_loop.induct)
  case (1 sep tokens cur rest)
  consider (short) "length rest < length sep"
    | (found) "\<not> (length rest < length sep \<or> sep = [])" "take (length sep) rest = sep"
    | (skip) "\<not> (length rest < length sep \<or> sep = [])" "take (length sep) rest \<noteq> sep" using "1.prems"(1) by blast
  then show ?case
  proof cases
    case short
    have "\<not> starts_at sep (cur @ rest) i" for i
      using "1.prems"(1,3) starts_at_bound [of sep i "cur @ rest"] short by (cases "i < length cur") auto
    then show ?thesis using short "1.prems"(2) by (subst (1 2) split_loop.simps) auto
  next
    case found
    have r: "sep @ drop (length sep) rest = rest" using found append_take_drop_id [of "length sep" rest] by simp
    have "\<not> starts_at sep cur i" for i
    proof
      assume m: "starts_at sep cur i"
      then have "i < length cur" using starts_at_bound [OF m] "1.prems"(1) by (cases sep) auto
      then show False using "1.prems"(3) [of i] starts_at_append [OF m "1.prems"(1)] by simp
    qed
    then have "\<not> starts_at sep t i" if "t \<in> set (tokens @ [cur])" for t i using that "1.prems"(2) by auto
    from "1.IH"(1) [OF found "1.prems"(1) this] show ?thesis
      using found r sdsjoinsds_merge [of tokens cur sep "drop (length sep) rest"]
      by (subst (1 2) split_loop.simps) simp
  next
    case skip
    then have r: "hd rest # tl rest = rest" by (cases rest) auto
    have "\<not> starts_at sep ((cur @ [hd rest]) @ tl rest) i" if "i < length (cur @ [hd rest])" for i
      using that "1.prems"(3) [of i] skip(2) r by (cases "i = length cur") auto
    from "1.IH"(2) [OF skip "1.prems"(1,2) this] show ?thesis
      using skip r by (subst (1 2) split_loop.simps) simp
  qed
qed

section \<open>Reading quoted strings\<close>

lemma char_at_Cons [simp]:
  "char_at (c # p) 0 = c" "char_at (c # p) (Suc i) = char_at p i" "char_at (c # p) (numeral n) = char_at p (pred_numeral n)"
  "char_at [] i = 0"
  by (simp_all add: char_at_def numeral_eq_Suc)

lemma hex_digits_checked:
  "list_all (\<lambda>n. is_hex_digit (hex_char (of_nat n)) \<and> hex_digit_to_int (hex_char (of_nat n)) = of_nat n \<and>
     hex_char (of_nat n) \<noteq> 0) [0..<16]"
  by code_simp

lemma hex_char_digit:
  assumes "d < 16"
  shows "is_hex_digit (hex_char d)" "hex_digit_to_int (hex_char d) = d" "hex_char d \<noteq> 0"
proof -
  have "unat d \<in> set [0..<16]" using assms by (simp add: word_less_nat_alt)
  then show "is_hex_digit (hex_char d)" "hex_digit_to_int (hex_char d) = d" "hex_char d \<noteq> 0"
    using hex_digits_checked unfolding list_all_iff by fastforce+
qed

lemma byte_hex:
  fixes c :: byte
  shows "c div 16 < 16" "c mod 16 < 16" "c div 16 * 16 + c mod 16 = c"
proof -
  show "c div 16 < 16" using unat_less_exp [of c] by (simp add: word_less_nat_alt unat_div)
  show "c mod 16 < 16" by (simp add: word_less_nat_alt unat_mod)
  show "c div 16 * 16 + c mod 16 = c" by (simp add: div_mult_mod_eq)
qed

lemma get_token_repr_char: "get_token Inq cur (repr_char c @ q) = get_token Inq (cur @ [c]) q"
proof -
  have h: "is_hex_digit (hex_char (c div 16))" "is_hex_digit (hex_char (c mod 16))"
    "hex_digit_to_int (hex_char (c div 16)) * 16 + hex_digit_to_int (hex_char (c mod 16)) = c"
    using hex_char_digit byte_hex [of c] by simp_all
  have p: "c \<noteq> 0" if "isprint c" using that by (auto simp: isprint_def)
  show ?thesis
    by (subst get_token.simps) (use h p in \<open>auto simp: repr_char_def unescape_def\<close>)
qed

lemma get_token_repr: "get_token Inq cur (concat (map repr_char p) @ q) = get_token Inq (cur @ p) q"
  by (induction p arbitrary: cur) (simp_all add: get_token_repr_char)

text \<open>A quoted string that is followed by a blank or by the end of the line.\<close>

lemma get_token_quoted:
  assumes "char_at q 0 = 0 \<or> isspace (char_at q 0)"
  shows "get_token NoQuote [] (sdscatrepr [] p @ q) = Some (p, q)"
proof -
  have "get_token Inq p (34 # q) = Some (p, q)" using assms by (subst get_token.simps) auto
  then show ?thesis by (subst get_token.simps) (simp add: sdscatrepr_def get_token_repr)
qed

text \<open>The end of a line, or a blank and the next string.\<close>

abbreviation blank_repr :: "sds list \<Rightarrow> sds" where
  "blank_repr args \<equiv> concat (map (\<lambda>a. 32 # sdscatrepr [] a) args)"

lemma splitargs_repr: "splitargs_loop vector (blank_repr args) = Some (vector @ args)"
proof (induction args arbitrary: vector)
  case Nil
  then show ?case by (simp add: splitargs_loop.simps)
next
  case (Cons a args)
  let ?q = "blank_repr args"
  have q: "char_at ?q 0 = 0 \<or> isspace (char_at ?q 0)" by (cases args) (simp_all add: isspace_def)
  have d: "dropWhile isspace (blank_repr (a # args)) = sdscatrepr [] a @ ?q"
    by (simp add: sdscatrepr_def isspace_def)
  have c: "char_at (sdscatrepr [] a @ ?q) 0 \<noteq> 0" by (simp add: sdscatrepr_def)
  have "splitargs_loop vector (blank_repr (a # args)) = splitargs_loop (vector @ [a]) ?q"
    by (subst splitargs_loop.simps) (use c in \<open>simp add: d Let_def get_token_quoted [OF q] del: list.map concat.simps\<close>)
  then show ?case by (simp only: Cons append_assoc append_Cons append_Nil)
qed

lemma repr_no_nul: "0 \<notin> set (sdscatrepr [] a)"
proof -
  have "0 \<notin> set (repr_char c)" for c
    using hex_char_digit(3) [OF byte_hex(1)] hex_char_digit(3) [OF byte_hex(2)]
    by (auto simp: repr_char_def isprint_def)
  then show ?thesis by (auto simp: sdscatrepr_def)
qed

lemma c_str_id: "0 \<notin> set s \<Longrightarrow> c_str s = s"
  unfolding c_str_def by (auto simp: takeWhile_eq_all_conv)

section \<open>The length of tokens\<close>

lemma get_token_bound: "get_token q cur p = Some (t, r) \<Longrightarrow> length t + length r \<le> length cur + length p"
proof (induction q cur p rule: get_token.induct)
  case (1 current p)
  note e = "1.prems" [unfolded get_token.simps(1) [of current p]]
  show ?case
    using e "1.IH" char_at_pos [of p 0] by (auto split: if_splits) (cases p; simp)+
next
  case (2 current p)
  note e = "2.prems" [unfolded get_token.simps(2) [of current p]]
  show ?case using e "2.IH" char_at_pos [of p 0] by (auto split: if_splits) (cases p; simp)+
next
  case (3 current p)
  note e = "3.prems" [unfolded get_token.simps(3) [of current p]]
  show ?case using e "3.IH" char_at_pos [of p 0] by (auto split: if_splits) (cases p; simp)+
qed

lemma splitargs_bound:
  "splitargs_loop vector p = Some args \<Longrightarrow> list_all (\<lambda>a. length a \<le> n) vector \<Longrightarrow> length p \<le> n \<Longrightarrow> list_all (\<lambda>a. length a \<le> n) args"
proof (induction vector p rule: splitargs_loop.induct)
  case (1 vector p)
  let ?p = "dropWhile isspace p"
  show ?case
  proof (cases "char_at ?p 0 \<noteq> 0")
    case False
    then show ?thesis using "1.prems" by (simp add: splitargs_loop.simps)
  next
    case True
    then obtain t r where t: "get_token NoQuote [] ?p = Some (t, r)" and s: "splitargs_loop (vector @ [t]) r = Some args"
      using "1.prems"(1) by (subst (asm) splitargs_loop.simps) (auto simp: Let_def split: option.splits)
    have "length t \<le> n" "length r \<le> n"
      using get_token_bound [OF t] length_dropWhile_le [of isspace p] "1.prems"(3) by auto
    then show ?thesis using "1.IH" [OF refl True t refl s] "1.prems"(2) by simp
  qed
qed

lemma sdssplitargs_bound: "sdssplitargs line = Some args \<Longrightarrow> list_all (\<lambda>a. length a \<le> length line) args"
  using splitargs_bound [of "[]" "c_str line" args "length line"] length_takeWhile_le [of "\<lambda>b. b \<noteq> 0" line]
  by (simp add: sdssplitargs_def c_str_def)

section \<open>Printing integers\<close>

text \<open>The digits from the last to the first, into the buffer from \<open>p\<close> on, and the index behind them.\<close>

function put_digits :: "byte list \<Rightarrow> nat \<Rightarrow> uint64 \<Rightarrow> (byte list \<times> nat) option" where
  "put_digits s p v =
     (case mem_set s p (48 + ucast (v mod 10)) of None \<Rightarrow> None
      | Some s \<Rightarrow> if v div 10 \<noteq> 0 then put_digits s (p + 1) (v div 10) else Some (s, p + 1))"
  by pat_completeness auto
termination
proof (relation "measure (\<lambda>(s, p, v). unat v)")
  fix s p and v :: uint64 and s' assume "v div 10 \<noteq> 0"
  then have "unat (v div 10) \<noteq> 0" by (simp add: unat_eq_zero)
  then show "((s', p + 1, v div 10), (s, p, v)) \<in> measure (\<lambda>(s, p, v). unat v)" by (simp add: unat_div_distrib)
qed simp

declare put_digits.simps [simp del]

function reverse_loop :: "byte list \<Rightarrow> nat \<Rightarrow> nat \<Rightarrow> byte list option" where
  "reverse_loop s i p =
     (if i < p then
        (case (mem_get s i, mem_get s p) of
           (Some aux, Some b) \<Rightarrow>
             (case mem_set s i b of None \<Rightarrow> None
              | Some s \<Rightarrow> (case mem_set s p aux of None \<Rightarrow> None | Some s \<Rightarrow> reverse_loop s (i + 1) (p - 1)))
         | _ \<Rightarrow> None)
      else Some s)"
  by pat_completeness auto
termination
  by (relation "measure (\<lambda>(s, i, p). p - i)") auto

declare reverse_loop.simps [simp del]

definition sdsll2str :: "byte list \<Rightarrow> int64 \<Rightarrow> (byte list \<times> nat) option" where
  "sdsll2str s v = do {
     (s, p) \<leftarrow> put_digits s 0 (if sint v < 0 then - v else v);
     (s, p) \<leftarrow> (if sint v < 0 then do { s \<leftarrow> mem_set s p 45; Some (s, p + 1) } else Some (s, p));
     s \<leftarrow> mem_set s p 0;
     s \<leftarrow> reverse_loop s 0 (p - 1);
     Some (s, p) }"

definition sdsull2str :: "byte list \<Rightarrow> uint64 \<Rightarrow> (byte list \<times> nat) option" where
  "sdsull2str s v = do {
     (s, p) \<leftarrow> put_digits s 0 v;
     s \<leftarrow> mem_set s p 0;
     s \<leftarrow> reverse_loop s 0 (p - 1);
     Some (s, p) }"

text \<open>\<open>buf\<close> is the uninitialised buffer of 21 bytes.\<close>

definition sdsfromlonglong :: "byte list \<Rightarrow> int64 \<Rightarrow> sds option" where
  "sdsfromlonglong buf v = do { (buf, len) \<leftarrow> sdsll2str buf v; Some (take len buf) }"

lemma put_digits_eq:
  assumes "length B = length (dec (unat v))"
  shows "put_digits (A @ B @ C) (length A) v = Some (A @ rev (dec (unat v)) @ C, length A + length B)"
  using assms
proof (induction "unat v" arbitrary: v A B rule: less_induct)
  case less
  obtain b B' where B: "B = b # B'" using less.prems by (cases B) auto
  have dig: "48 + ucast (v mod 10) = (48 + of_nat (unat v mod 10) :: byte)"
  proof -
    have "(ucast (v mod 10) :: byte) = of_nat (unat (v mod 10))" by simp
    then show ?thesis by (simp only: unat_mod_distrib) simp
  qed
  have set: "mem_set (A @ B @ C) (length A) x = Some (A @ x # B' @ C)" for x using B by (simp add: mem_set_middle)
  show ?case
  proof (cases "v div 10 = 0")
    case True
    then have s: "unat v < 10" 
    proof -
      have "unat v div 10 = 0" using True unat_div_distrib [of v 10] by simp
      then show ?thesis by simp
    qed
    then show ?thesis using True B less.prems set dig by (subst put_digits.simps) (simp add: dec_small)
  next
    case False
    then have "unat v div 10 \<noteq> 0" using unat_div_distrib [of v 10] unat_eq_zero [of "v div 10"] by simp
    then have n: "10 \<le> unat v" "unat (v div 10) < unat v" by (simp_all add: unat_div_distrib)
    have "length B' = length (dec (unat (v div 10)))" using less.prems B n(1) by (simp add: dec_step unat_div_distrib)
    then have "put_digits ((A @ [48 + of_nat (unat v mod 10)]) @ B' @ C) (length (A @ [48 + of_nat (unat v mod 10)])) (v div 10) =
      Some ((A @ [48 + of_nat (unat v mod 10)]) @ rev (dec (unat (v div 10))) @ C, length (A @ [48 + of_nat (unat v mod 10)]) + length B')"
      by (intro less.hyps n(2))
    then show ?thesis using False B set dig n(1) by (subst put_digits.simps) (simp add: dec_step unat_div_distrib)
  qed
qed

lemma reverse_loop_eq:
  assumes "xs \<noteq> []"
  shows "reverse_loop (A @ xs @ C) (length A) (length A + length xs - 1) = Some (A @ rev xs @ C)"
  using assms
proof (induction "length xs" arbitrary: xs A C rule: less_induct)
  case less
  show ?case
  proof (cases "length xs = 1")
    case True
    then show ?thesis by (subst reverse_loop.simps) (auto simp: length_Suc_conv)
  next
    case False
    then obtain x ys y where xs: "xs = x # ys @ [y]" using less.prems by (cases xs; cases "tl xs" rule: rev_cases) auto
    have step: "reverse_loop (A @ xs @ C) (length A) (length A + length xs - 1) =
        reverse_loop ((A @ [y]) @ ys @ (x # C)) (length (A @ [y])) (length (A @ [y]) + length ys - 1)"
      unfolding xs using mem_set_middle [of "A @ y # ys" _ y C x]
      by (subst reverse_loop.simps) (simp add: mem_get_def mem_set_middle nth_append)
    show ?thesis
    proof (cases "ys = []")
      case True
      then show ?thesis unfolding step by (subst reverse_loop.simps) (simp add: xs)
    next
      case False
      then show ?thesis unfolding step using less.hyps [of ys "A @ [y]" "x # C"] xs by simp
    qed
  qed
qed

lemma print_reversed:
  assumes "length ds < length buf" "ds \<noteq> []"
  shows "do { s \<leftarrow> mem_set (ds @ drop (length ds) buf) (length ds) 0; s \<leftarrow> reverse_loop s 0 (length ds - 1); Some (s, length ds) } =
    Some (rev ds @ 0 # drop (Suc (length ds)) buf, length ds)"
proof -
  obtain b rest where d: "drop (length ds) buf = b # rest" using assms(1) by (cases "drop (length ds) buf") auto
  then have "drop (Suc (length ds)) buf = rest" by (metis drop_Suc list.sel(3) tl_drop)
  then show ?thesis using assms(2) d reverse_loop_eq [OF assms(2), of "[]" "0 # rest"] by (simp add: mem_set_middle)
qed

lemma minus_magnitude: "(if sint v < 0 then - v else v) = magnitude v"
  by (simp add: magnitude_def)

lemma sdsll2str_finish:
  assumes "put_digits buf 0 (magnitude v) = Some (s1, p1)"
    "(if sint v < 0 then do { s \<leftarrow> mem_set s1 p1 45; Some (s, p1 + 1) } else Some (s1, p1)) = Some (s2, p2)"
  shows "sdsll2str buf v = do { s \<leftarrow> mem_set s2 p2 0; s \<leftarrow> reverse_loop s 0 (p2 - 1); Some (s, p2) }"
  unfolding sdsll2str_def minus_magnitude assms(1) by (simp only: Option.bind.simps prod.case assms(2))

text \<open>
  The printer of dynamic strings writes the same characters as \<^verbatim>\<open>ll2string\<close>, for every value and in a
  buffer of \<^verbatim>\<open>SDS_LLSTR_SIZE\<close> bytes.
\<close>

lemma sdsll2str_eq:
  assumes "length (sdec v) < length buf"
  shows "sdsll2str buf v = Some (sdec v @ 0 # drop (Suc (length (sdec v))) buf, length (sdec v))"
proof -
  let ?d = "dec (unat (magnitude v))" and ?s = "rev (sdec v) @ drop (length (sdec v)) buf"
  have l: "length ?d \<le> length (sdec v)" by (simp add: sdec_magnitude)
  then have digits: "put_digits buf 0 (magnitude v) = Some (rev ?d @ drop (length ?d) buf, length ?d)"
    using put_digits_eq [of "take (length ?d) buf" "magnitude v" "[]" "drop (length ?d) buf"] assms by simp
  have sign: "(if sint v < 0 then do { s \<leftarrow> mem_set (rev ?d @ drop (length ?d) buf) (length ?d) 45; Some (s, length ?d + 1) }
      else Some (rev ?d @ drop (length ?d) buf, length ?d)) = Some (?s, length (sdec v))"
  proof (cases "sint v < 0")
    case True
    then have s: "sdec v = 45 # ?d" by (simp add: sdec_magnitude)
    obtain b rest where d: "drop (length ?d) buf = b # rest" using assms s by (cases "drop (length ?d) buf") auto
    then have "drop (Suc (length ?d)) buf = rest" by (metis drop_Suc list.sel(3) tl_drop)
    then show ?thesis using True d unfolding s by (simp add: mem_set_middle)
  qed (simp add: sdec_magnitude)
  have "length (rev (sdec v)) < length buf" "rev (sdec v) \<noteq> []" using assms by (simp_all add: sdec_magnitude)
  from print_reversed [OF this] show ?thesis unfolding sdsll2str_finish [OF digits sign] by (simp only: length_rev rev_rev_ident)
qed

lemma sdsull2str_eq:
  assumes "length (dec (unat v)) < length buf"
  shows "sdsull2str buf v = Some (dec (unat v) @ 0 # drop (Suc (length (dec (unat v)))) buf, length (dec (unat v)))"
proof -
  let ?d = "dec (unat v)"
  have digits: "put_digits buf 0 v = Some (rev ?d @ drop (length ?d) buf, length ?d)"
    using put_digits_eq [of "take (length ?d) buf" v "[]" "drop (length ?d) buf"] assms by simp
  have "length (rev ?d) < length buf" "rev ?d \<noteq> []" using assms by simp_all
  from print_reversed [OF this] show ?thesis
    unfolding sdsull2str_def digits by (simp only: Option.bind.simps prod.case length_rev rev_rev_ident)
qed

lemma sdsfromlonglong_eq: "length buf = 21 \<Longrightarrow> sdsfromlonglong buf v = Some (sdec v)"
  using sdsll2str_eq [of v buf] length_sdec [of v] by (simp add: sdsfromlonglong_def)

section \<open>Properties\<close>

text \<open>
  C32. Every list of byte strings survives being written as a line of quoted strings and being split
  again: \<^verbatim>\<open>sdssplitargs\<close> reads back exactly what \<^verbatim>\<open>sdscatrepr\<close> wrote, null bytes, quotes, backslashes
  and bytes that cannot be printed included.
\<close>

theorem sdssplitargs_sdscatrepr:
  "sdssplitargs (sdsjoinsds (map (sdscatrepr []) args) [32]) = Some args"
proof (cases args)
  case Nil
  then show ?thesis by (simp add: sdsjoinsds_def sdssplitargs_def c_str_def splitargs_loop.simps)
next
  case (Cons a as)
  let ?line = "sdsjoinsds (map (sdscatrepr []) args) [32]"
  have l: "?line = sdscatrepr [] a @ blank_repr as" using Cons by (simp add: sdsjoinsds_Cons comp_def)
  have "0 \<notin> set ?line" unfolding l using repr_no_nul by auto
  moreover have "dropWhile isspace ?line = dropWhile isspace (blank_repr args)"
    using Cons unfolding l by (simp add: sdscatrepr_def isspace_def)
  then have "splitargs_loop [] ?line = splitargs_loop [] (blank_repr args)"
    by (subst (1 2) splitargs_loop.simps) simp
  ultimately show ?thesis using splitargs_repr [of "[]" args] by (simp add: sdssplitargs_def c_str_id)
qed

text \<open>
  Splitting a string at a separator and joining the tokens with the separator gives the string,
  and no token contains the separator. An empty separator is refused.
\<close>

theorem sdssplitlen_sdsjoinsds:
  "(if sep = [] then sdssplitlen s sep = None
    else \<exists>tokens. sdssplitlen s sep = Some tokens \<and> sdsjoinsds tokens sep = s \<and>
      \<not> (\<exists>x y. x @ sep @ y \<in> set tokens))"
proof -
  have "\<exists>tokens. sdssplitlen s sep = Some tokens \<and> sdsjoinsds tokens sep = s \<and> \<not> (\<exists>x y. x @ sep @ y \<in> set tokens)"
    if n: "sep \<noteq> []" "s \<noteq> []"
  proof -
    have c: "sdsjoinsds (split_loop sep [] [] s) sep = s"
      "\<And>t i. t \<in> set (split_loop sep [] [] s) \<Longrightarrow> \<not> starts_at sep t i"
      using split_loop_correct [OF n(1), of "[]" "[]" s] by (auto simp: sdsjoinsds_Cons)
    have "x @ sep @ y \<notin> set (split_loop sep [] [] s)" for x y
      using c(2) [of "x @ sep @ y" "length x"] by auto
    then show ?thesis using n c(1) by (simp add: sdssplitlen_def Suc_le_eq)
  qed
  then show ?thesis by (cases "s = []") (auto simp: sdssplitlen_def sdsjoinsds_def Suc_le_eq)
qed

end
