(* ===== verification/Protocol.thy ===== *)
theory Protocol
  imports Sds
begin

text \<open>
  The input side of a connection (\<^verbatim>\<open>networking.c\<close>): reading from the socket into the query buffer,
  the inline protocol, the multi bulk protocol with its partial state between two reads, and the
  loop that hands complete requests to \<^verbatim>\<open>processCommand\<close>. Positions in the query buffer are natural
  numbers: the buffer is limited to 1 GB by \<^verbatim>\<open>readQueryFromClient\<close>, so that the \<open>int\<close> variables of the
  code hold them. Assertion failures are \<open>None\<close>. Replication offsets and statistics are left out.
\<close>

section \<open>Connections\<close>

datatype reqtype = NoRequest | PROTO_REQ_INLINE | PROTO_REQ_MULTIBULK

record conn =
  querybuf :: sds
  reqtype :: reqtype
  multibulklen :: nat
  bulklen :: int
  argv :: "sds list"
  close_after_reply :: bool

abbreviation "PROTO_INLINE_MAX_SIZE \<equiv> (65536 :: nat)"
abbreviation "PROTO_MBULK_BIG_ARG \<equiv> (32768 :: int)"
abbreviation "PROTO_IOBUF_LEN \<equiv> (16384 :: int)"
abbreviation "PROTO_MAX_QUERYBUF_LEN \<equiv> (1073741824 :: nat)"

text \<open>The input fields after \<^verbatim>\<open>createClient\<close>.\<close>

definition new_conn :: conn where
  "new_conn = \<lparr>querybuf = [], reqtype = NoRequest, multibulklen = 0, bulklen = -1, argv = [], close_after_reply = False\<rparr>"

definition resetClient :: "conn \<Rightarrow> conn" where
  "resetClient c = c\<lparr>argv := [], reqtype := NoRequest, multibulklen := 0, bulklen := -1\<rparr>"

text \<open>The result of a parser: \<open>C_OK\<close>, or \<open>C_ERR\<close> with the error that was replied, if any.\<close>

datatype parse = C_OK | C_ERR "string option"

definition setProtocolError :: "conn \<Rightarrow> nat \<Rightarrow> conn option" where
  "setProtocolError c pos = do {
     q \<leftarrow> sdsrange (querybuf c) (int pos) (-1);
     Some (c\<lparr>close_after_reply := True, querybuf := q\<rparr>) }"

definition protocol_error :: "conn \<Rightarrow> nat \<Rightarrow> string \<Rightarrow> (conn \<times> parse) option" where
  "protocol_error c pos msg = do { c \<leftarrow> setProtocolError c pos; Some (c, C_ERR (Some (''Protocol error: '' @ msg))) }"

text \<open>The offset of a byte in a C string.\<close>

definition strchr :: "sds \<Rightarrow> byte \<Rightarrow> nat option" where
  "strchr s c =
     (let n = length (takeWhile (\<lambda>b. b \<noteq> c \<and> b \<noteq> 0) s)
      in if n < length s \<and> s ! n = c then Some n else None)"

section \<open>Inline requests\<close>

definition processInlineBuffer :: "conn \<Rightarrow> (conn \<times> parse) option" where
  "processInlineBuffer c =
     (case strchr (querybuf c) 10 of
        None \<Rightarrow>
          if length (querybuf c) > PROTO_INLINE_MAX_SIZE then protocol_error c 0 ''too big inline request''
          else Some (c, C_ERR None)
      | Some newline \<Rightarrow>
          let querylen = (if newline \<noteq> 0 \<and> querybuf c ! (newline - 1) = 13 then newline - 1 else newline)
          in case sdssplitargs (take querylen (querybuf c)) of
               None \<Rightarrow> protocol_error c 0 ''unbalanced quotes in request''
             | Some args \<Rightarrow> do {
                 q \<leftarrow> sdsrange (querybuf c) (int (querylen + 2)) (-1);
                 Some (c\<lparr>querybuf := q, argv := filter (\<lambda>a. a \<noteq> []) args\<rparr>, C_OK) })"

section \<open>Multi bulk requests\<close>

text \<open>
  The number of arguments: \<open>Inl\<close> is a return of \<^verbatim>\<open>processMultibulkBuffer\<close>, \<open>Inr\<close> continues at a position.
\<close>

definition read_multibulklen :: "conn \<Rightarrow> ((conn \<times> parse) + (conn \<times> nat)) option" where
  "read_multibulklen c =
     (if multibulklen c \<noteq> 0 then Some (Inr (c, 0))
      else if argv c \<noteq> [] then None
      else (case strchr (querybuf c) 13 of
        None \<Rightarrow>
          if length (querybuf c) > PROTO_INLINE_MAX_SIZE
          then map_option Inl (protocol_error c 0 ''too big mbulk count string'')
          else Some (Inl (c, C_ERR None))
      | Some newline \<Rightarrow>
          if int newline > int (length (querybuf c)) - 2 then Some (Inl (c, C_ERR None))
          else if querybuf c ! 0 \<noteq> 42 then None
          else (case string2ll (take (newline - 1) (drop 1 (querybuf c))) of
            None \<Rightarrow> map_option Inl (protocol_error c 0 ''invalid multibulk length'')
          | Some ll \<Rightarrow>
              if sint ll > 1024 * 1024 then map_option Inl (protocol_error c 0 ''invalid multibulk length'')
              else if sint ll \<le> 0 then do {
                q \<leftarrow> sdsrange (querybuf c) (int (newline + 2)) (-1);
                Some (Inl (c\<lparr>querybuf := q\<rparr>, C_OK)) }
              else Some (Inr (c\<lparr>multibulklen := nat (sint ll), argv := []\<rparr>, newline + 2)))))"

text \<open>
  The message \<^verbatim>\<open>expected '$', got '%c'\<close>: line breaks become spaces, and a null byte ends the string
  that \<^verbatim>\<open>sdscatvprintf\<close> copies.
\<close>

definition unexpected :: "byte \<Rightarrow> string" where
  "unexpected b = ''expected '' @ [CHR 0x27, CHR ''$'', CHR 0x27] @ '', got '' @ [CHR 0x27] @
     (if b = 0 then [] else [if b = 10 \<or> b = 13 then CHR '' '' else char_of (unat b), CHR 0x27])"

datatype bulk = Bulk conn nat | Break | Return "conn \<times> parse"

definition read_bulklen :: "conn \<Rightarrow> nat \<Rightarrow> bulk option" where
  "read_bulklen c pos =
     (if bulklen c \<noteq> -1 then Some (Bulk c pos)
      else (case strchr (drop pos (querybuf c)) 13 of
        None \<Rightarrow>
          if length (querybuf c) > PROTO_INLINE_MAX_SIZE
          then map_option Return (protocol_error c 0 ''too big bulk count string'')
          else Some Break
      | Some n \<Rightarrow>
          if int (pos + n) > int (length (querybuf c)) - 2 then Some Break
          else if querybuf c ! pos \<noteq> 36
          then map_option Return (protocol_error c pos (unexpected (querybuf c ! pos)))
          else (case string2ll (take (n - 1) (drop (pos + 1) (querybuf c))) of
            None \<Rightarrow> map_option Return (protocol_error c pos ''invalid bulk length'')
          | Some ll \<Rightarrow>
              if sint ll < 0 \<or> sint ll > 512 * 1024 * 1024
              then map_option Return (protocol_error c pos ''invalid bulk length'')
              else if sint ll \<ge> PROTO_MBULK_BIG_ARG then do {
                q \<leftarrow> sdsrange (querybuf c) (int (pos + n + 2)) (-1);
                Some (Bulk (c\<lparr>querybuf := q, bulklen := sint ll\<rparr>) 0) }
              else Some (Bulk (c\<lparr>bulklen := sint ll\<rparr>) (pos + n + 2)))))"

text \<open>The argument itself, when the buffer holds it with its line end.\<close>

definition read_bulk :: "conn \<Rightarrow> nat \<Rightarrow> conn \<times> nat" where
  "read_bulk c pos =
     (if pos = 0 \<and> bulklen c \<ge> PROTO_MBULK_BIG_ARG \<and> int (length (querybuf c)) = bulklen c + 2
      then (c\<lparr>argv := argv c @ [take (length (querybuf c) - 2) (querybuf c)], querybuf := [],
              bulklen := -1, multibulklen := multibulklen c - 1\<rparr>, 0)
      else (c\<lparr>argv := argv c @ [take (nat (bulklen c)) (drop pos (querybuf c))],
              bulklen := -1, multibulklen := multibulklen c - 1\<rparr>, pos + nat (bulklen c) + 2))"

lemma read_bulk_multibulklen [simp]: "multibulklen (fst (read_bulk c pos)) = multibulklen c - 1"
  by (simp add: read_bulk_def)

lemma read_bulklen_multibulklen:
  assumes "read_bulklen c pos = Some (Bulk c' pos')"
  shows "multibulklen c' = multibulklen c"
  using assms by (auto simp: read_bulklen_def split: if_splits option.splits bind_splits)

text \<open>The loop over the arguments: \<open>Inl\<close> is a return, \<open>Inr\<close> the state after the loop.\<close>

function mbulk_loop :: "conn \<Rightarrow> nat \<Rightarrow> ((conn \<times> parse) + (conn \<times> nat)) option" where
  "mbulk_loop c pos =
     (if multibulklen c = 0 then Some (Inr (c, pos))
      else (case read_bulklen c pos of
        None \<Rightarrow> None
      | Some (Return r) \<Rightarrow> Some (Inl r)
      | Some Break \<Rightarrow> Some (Inr (c, pos))
      | Some (Bulk c pos) \<Rightarrow>
          if int (length (querybuf c)) - int pos < bulklen c + 2 then Some (Inr (c, pos))
          else case_prod mbulk_loop (read_bulk c pos)))"
  by pat_completeness auto

termination
  by (relation "measure (\<lambda>(c, _). multibulklen c)")
    (auto dest!: read_bulklen_multibulklen simp: case_prod_beta)

declare mbulk_loop.simps [simp del]

definition processMultibulkBuffer :: "conn \<Rightarrow> (conn \<times> parse) option" where
  "processMultibulkBuffer c = do {
     r \<leftarrow> read_multibulklen c;
     (case r of
        Inl r \<Rightarrow> Some r
      | Inr (c, pos) \<Rightarrow> do {
          r \<leftarrow> mbulk_loop c pos;
          (case r of
             Inl r \<Rightarrow> Some r
           | Inr (c, pos) \<Rightarrow> do {
               q \<leftarrow> (if pos \<noteq> 0 then sdsrange (querybuf c) (int pos) (-1) else Some (querybuf c));
               Some (c\<lparr>querybuf := q\<rparr>, if multibulklen c = 0 then C_OK else C_ERR None) }) }) }"

section \<open>The input loop\<close>

text \<open>The type of a request is set from its first byte.\<close>

definition set_reqtype :: "conn \<Rightarrow> conn" where
  "set_reqtype c =
     (if reqtype c = NoRequest
      then c\<lparr>reqtype := if querybuf c ! 0 = 42 then PROTO_REQ_MULTIBULK else PROTO_REQ_INLINE\<rparr> else c)"

definition parse_request :: "conn \<Rightarrow> (conn \<times> parse) option" where
  "parse_request c = (if reqtype c = PROTO_REQ_INLINE then processInlineBuffer c else processMultibulkBuffer c)"

text \<open>A request that is complete takes bytes from the buffer, so that the loop ends.\<close>

lemma sdsrange_shorter: "sdsrange s (int (Suc n)) (-1) = Some q \<Longrightarrow> s \<noteq> [] \<Longrightarrow> length q < length s"
  by (auto simp: sdsrange_def Let_def split: if_splits)

lemma sdsrange_nil: "sdsrange [] i j = Some q \<Longrightarrow> q = []"
  by (simp add: sdsrange_def)

lemma sdsrange_drop_shorter: "sdsrange s (int (p + 2)) (-1) = Some q \<Longrightarrow> length q \<le> length s \<and> (s \<noteq> [] \<longrightarrow> length q < length s)"
  using sdsrange_shorter [of s "p + 1" q] sdsrange_nil [of _ _ q] by (cases "s = []") (auto simp: less_imp_le)

lemma read_bulklen_known: "bulklen c \<noteq> -1 \<Longrightarrow> read_bulklen c pos = Some (Bulk c pos)"
  by (simp add: read_bulklen_def)

lemma read_bulklen_cases:
  assumes "read_bulklen c pos = Some (Bulk c' pos')"
  obtains (known) "bulklen c \<noteq> -1" "c' = c" "pos' = pos"
  | (big) n q and ll :: int64 where "bulklen c = -1" "strchr (drop pos (querybuf c)) 13 = Some n" "pos + n + 2 \<le> length (querybuf c)"
      "PROTO_MBULK_BIG_ARG \<le> sint ll" "sint ll \<le> 512 * 1024 * 1024"
      "sdsrange (querybuf c) (int (pos + n + 2)) (-1) = Some q" "c' = c\<lparr>querybuf := q, bulklen := sint ll\<rparr>" "pos' = 0"
  | (small) n and ll :: int64 where "bulklen c = -1" "strchr (drop pos (querybuf c)) 13 = Some n" "pos + n + 2 \<le> length (querybuf c)"
      "0 \<le> sint ll" "sint ll < PROTO_MBULK_BIG_ARG" "c' = c\<lparr>bulklen := sint ll\<rparr>" "pos' = pos + n + 2"
proof (cases "bulklen c = -1")
  case False
  with assms show thesis by (intro known) (simp_all add: read_bulklen_def)
next
  case b: True
  show thesis
  proof (cases "strchr (drop pos (querybuf c)) 13")
    case None
    then show thesis using assms b by (simp add: read_bulklen_def split: if_splits)
  next
    case (Some n)
    note r = assms [unfolded read_bulklen_def b Some option.case]
    show thesis
    proof (cases "string2ll (take (n - 1) (drop (pos + 1) (querybuf c)))")
      case None
      then show thesis using r by (simp split: if_splits)
    next
      case ll: (Some ll)
      have l: "pos + n + 2 \<le> length (querybuf c)" using r by (simp split: if_splits)
      have v: "0 \<le> sint ll" "sint ll \<le> 512 * 1024 * 1024" using r ll by (simp_all split: if_splits)
      show thesis
      proof (cases "PROTO_MBULK_BIG_ARG \<le> sint ll")
        case True
        then obtain q where "sdsrange (querybuf c) (int (pos + n + 2)) (-1) = Some q"
          "c' = c\<lparr>querybuf := q, bulklen := sint ll\<rparr>" "pos' = 0"
          using r ll v l by (cases "sdsrange (querybuf c) (int (pos + n + 2)) (-1)") (simp_all split: if_splits)
        then show thesis using big b Some l v True by blast
      next
        case False
        then have "c' = c\<lparr>bulklen := sint ll\<rparr>" "pos' = pos + n + 2" using r ll v l by (simp_all split: if_splits)
        then show thesis using b Some l v False by (intro small [of n ll]) simp_all
      qed
    qed
  qed
qed

lemma read_bulk_shorter:
  assumes "read_bulk c pos = (c', pos')"
  shows "length (querybuf c') \<le> length (querybuf c)" "querybuf c' = [] \<or> 0 < pos'"
  using assms by (auto simp: read_bulk_def split: if_splits)

lemma read_bulklen_shorter:
  assumes "read_bulklen c pos = Some (Bulk c' pos')"
  shows "length (querybuf c') \<le> length (querybuf c) \<and>
    (0 < pos \<longrightarrow> 0 < pos' \<or> length (querybuf c') < length (querybuf c) \<or> querybuf c = [])"
  using assms
proof (cases rule: read_bulklen_cases)
  case (big n q ll)
  then show ?thesis using sdsrange_drop_shorter [of "querybuf c" "pos + n" q] by auto
qed auto

text \<open>What the loop does with one argument.\<close>

lemma mbulk_loop_cases:
  assumes "mbulk_loop c pos = Some r" "multibulklen c \<noteq> 0"
  obtains (error) e where "read_bulklen c pos = Some (Return e)" "r = Inl e"
  | (stop) "read_bulklen c pos = Some Break" "r = Inr (c, pos)"
  | (short) c1 p1 where "read_bulklen c pos = Some (Bulk c1 p1)"
      "int (length (querybuf c1)) - int p1 < bulklen c1 + 2" "r = Inr (c1, p1)"
  | (step) c1 p1 c2 p2 where "read_bulklen c pos = Some (Bulk c1 p1)"
      "\<not> int (length (querybuf c1)) - int p1 < bulklen c1 + 2" "read_bulk c1 p1 = (c2, p2)" "mbulk_loop c2 p2 = Some r"
proof (cases "read_bulklen c pos")
  case None
  with assms show thesis by (simp add: mbulk_loop.simps)
next
  case (Some b)
  show thesis
  proof (cases b)
    case (Bulk c1 p1)
    obtain c2 p2 where r: "read_bulk c1 p1 = (c2, p2)" by fastforce
    show thesis
    proof (cases "int (length (querybuf c1)) - int p1 < bulklen c1 + 2")
      case True
      with assms Some Bulk show thesis by (intro short [of c1 p1]) (simp_all add: mbulk_loop.simps)
    next
      case False
      with assms Some Bulk r show thesis by (intro step [of c1 p1 c2 p2]) (simp_all add: mbulk_loop.simps [of c])
    qed
  next
    case Break
    with assms Some show thesis by (intro stop) (simp_all add: mbulk_loop.simps)
  next
    case (Return e)
    with assms Some show thesis by (intro error [of e]) (simp_all add: mbulk_loop.simps)
  qed
qed

lemma mbulk_loop_shorter:
  assumes "mbulk_loop c pos = Some (Inr (c', pos'))"
  shows "length (querybuf c') \<le> length (querybuf c) \<and>
    (multibulklen c' < multibulklen c \<or> 0 < pos \<longrightarrow> 0 < pos' \<or> length (querybuf c') < length (querybuf c) \<or> querybuf c = [])"
  using assms
proof (induction "multibulklen c" arbitrary: c pos)
  case 0
  then show ?case by (simp add: mbulk_loop.simps)
next
  case (Suc m)
  have bulk: "length (querybuf c1) \<le> length (querybuf c)" "multibulklen c1 = Suc m"
      "0 < pos \<longrightarrow> 0 < p1 \<or> length (querybuf c1) < length (querybuf c) \<or> querybuf c = []"
    if r: "read_bulklen c pos = Some (Bulk c1 p1)" for c1 p1
    using read_bulklen_multibulklen [OF r] Suc.hyps(2) read_bulklen_shorter [OF r] by simp_all
  have "multibulklen c \<noteq> 0" using Suc.hyps(2) by simp
  with Suc.prems show ?case
  proof (cases rule: mbulk_loop_cases)
    case (step c1 p1 c2 p2)
    have "m = multibulklen c2" using bulk(2) [OF step(1)] step(3) by (metis diff_Suc_1 fst_conv read_bulk_multibulklen)
    from Suc.hyps(1) [OF this step(4)] read_bulk_shorter [OF step(3)] bulk(1) [OF step(1)] show ?thesis
      by (metis length_0_conv le_trans less_le_trans order.not_eq_order_implies_strict le_zero_eq)
  next
    case (short c1 p1)
    then show ?thesis using bulk [OF short(1)] Suc.hyps(2) by auto
  qed auto
qed

lemma protocol_error_not_ok: "protocol_error c pos msg \<noteq> Some (c', C_OK)"
  by (simp add: protocol_error_def split: bind_splits)

lemma processInlineBuffer_shorter:
  assumes "processInlineBuffer c = Some (c', C_OK)"
  shows "length (querybuf c') < length (querybuf c)"
proof -
  obtain n where n: "strchr (querybuf c) 10 = Some n" using assms
    by (cases "strchr (querybuf c) 10") (simp_all add: processInlineBuffer_def protocol_error_not_ok split: if_splits)
  then have "querybuf c \<noteq> []" by (auto simp: strchr_def Let_def split: if_splits)
  then show ?thesis
    using assms n sdsrange_drop_shorter [of "querybuf c" _ "querybuf c'"]
    by (auto simp: processInlineBuffer_def protocol_error_not_ok Let_def simp del: of_nat_add split: option.splits bind_splits)
qed

lemma read_multibulklen_cases:
  assumes "read_multibulklen c = Some r"
  obtains (more) "multibulklen c \<noteq> 0" "r = Inr (c, 0)"
  | (error) pos msg e where "multibulklen c = 0" "protocol_error c pos msg = Some e" "r = Inl e"
  | (wait) "multibulklen c = 0" "strchr (querybuf c) 13 = None" "length (querybuf c) \<le> PROTO_INLINE_MAX_SIZE" "r = Inl (c, C_ERR None)"
  | (line) n where "multibulklen c = 0" "strchr (querybuf c) 13 = Some n" "length (querybuf c) < n + 2" "r = Inl (c, C_ERR None)"
  | (empty) n q where "multibulklen c = 0" "argv c = []" "strchr (querybuf c) 13 = Some n"
      "sdsrange (querybuf c) (int (n + 2)) (-1) = Some q" "r = Inl (c\<lparr>querybuf := q\<rparr>, C_OK)"
  | (count) n and ll :: int64 where "multibulklen c = 0" "argv c = []" "strchr (querybuf c) 13 = Some n" "n + 2 \<le> length (querybuf c)"
      "string2ll (take (n - 1) (drop 1 (querybuf c))) = Some ll" "0 < sint ll" "sint ll \<le> 1024 * 1024"
      "r = Inr (c\<lparr>multibulklen := nat (sint ll), argv := []\<rparr>, n + 2)"
proof (cases "multibulklen c = 0")
  case False
  with assms show thesis by (intro more) (simp_all add: read_multibulklen_def)
next
  case m: True
  have a: "argv c = []" using assms m by (simp add: read_multibulklen_def split: if_splits)
  have err: thesis if "map_option Inl (protocol_error c pos msg) = Some r" for pos msg
    using that m by (auto intro: error)
  show thesis
  proof (cases "strchr (querybuf c) 13")
    case None
    show thesis
    proof (cases "length (querybuf c) > PROTO_INLINE_MAX_SIZE")
      case True
      with assms m a None show thesis by (intro err) (simp add: read_multibulklen_def)
    next
      case False
      with assms m a None show thesis by (intro wait) (simp_all add: read_multibulklen_def)
    qed
  next
    case (Some n)
    note r = assms [unfolded read_multibulklen_def m a Some option.case]
    show thesis
    proof (cases "n + 2 \<le> length (querybuf c)")
      case False
      with r m Some show thesis by (intro line) (simp_all add: not_le split: if_splits)
    next
      case l: True
      show thesis
      proof (cases "string2ll (take (n - 1) (drop 1 (querybuf c)))")
        case None
        with r l show thesis by (intro err) (simp split: if_splits)
      next
        case ll: (Some ll)
        consider "sint ll > 1024 * 1024" | "sint ll \<le> 0" | "0 < sint ll" "sint ll \<le> 1024 * 1024" by linarith
        then show thesis
        proof cases
          case 1
          with r l ll show thesis by (intro err) (simp split: if_splits)
        next
          case 2
          then obtain q where "sdsrange (querybuf c) (int (n + 2)) (-1) = Some q" "r = Inl (c\<lparr>querybuf := q\<rparr>, C_OK)"
            using r l ll by (cases "sdsrange (querybuf c) (int (n + 2)) (-1)") (simp_all split: if_splits)
          then show thesis using m a Some by (intro empty)
        next
          case 3
          then have "r = Inr (c\<lparr>multibulklen := nat (sint ll), argv := []\<rparr>, n + 2)" using r l ll a by (simp split: if_splits)
          then show thesis using m a Some l ll 3 by (intro count)
        qed
      qed
    qed
  qed
qed

lemma processMultibulkBuffer_Inr:
  assumes "read_multibulklen c = Some (Inr (c1, p1))" "mbulk_loop c1 p1 = Some (Inr (c2, p2))"
    "processMultibulkBuffer c = Some (c', r)"
  obtains q where "(if p2 \<noteq> 0 then sdsrange (querybuf c2) (int p2) (-1) else Some (querybuf c2)) = Some q"
    "c' = c2\<lparr>querybuf := q\<rparr>" "r = (if multibulklen c2 = 0 then C_OK else C_ERR None)"
  using assms by (auto simp: processMultibulkBuffer_def simp del: of_nat_add split: bind_splits if_splits)

text \<open>The ways in which \<^verbatim>\<open>processMultibulkBuffer\<close> ends.\<close>

lemma processMultibulkBuffer_cases:
  assumes "processMultibulkBuffer c = Some (c', r)"
  obtains (early) "read_multibulklen c = Some (Inl (c', r))"
  | (error) c1 p1 where "read_multibulklen c = Some (Inr (c1, p1))" "mbulk_loop c1 p1 = Some (Inl (c', r))"
  | (loop) c1 p1 c2 p2 q where "read_multibulklen c = Some (Inr (c1, p1))" "mbulk_loop c1 p1 = Some (Inr (c2, p2))"
      "(if p2 \<noteq> 0 then sdsrange (querybuf c2) (int p2) (-1) else Some (querybuf c2)) = Some q"
      "c' = c2\<lparr>querybuf := q\<rparr>" "r = (if multibulklen c2 = 0 then C_OK else C_ERR None)"
proof (cases "read_multibulklen c")
  case None
  with assms show thesis by (simp add: processMultibulkBuffer_def)
next
  case (Some r1)
  show thesis
  proof (cases r1)
    case (Inl e)
    with assms Some show thesis by (intro early) (simp add: processMultibulkBuffer_def)
  next
    case (Inr x)
    obtain c1 p1 where x: "x = (c1, p1)" by fastforce
    show thesis
    proof (cases "mbulk_loop c1 p1")
      case None
      with assms Some Inr x show thesis by (simp add: processMultibulkBuffer_def)
    next
      case l: (Some r2)
      show thesis
      proof (cases r2)
        case (Inl e)
        with assms Some Inr x l show thesis by (intro error [of c1 p1]) (simp_all add: processMultibulkBuffer_def)
      next
        case r2: (Inr y)
        obtain c2 p2 where y: "y = (c2, p2)" by fastforce
        note e = Some [unfolded Inr x] l [unfolded r2 y]
        show thesis by (rule processMultibulkBuffer_Inr [OF e assms]) (rule loop [OF e])
      qed
    qed
  qed
qed

lemma read_bulklen_Return: "read_bulklen c pos = Some (Return e) \<Longrightarrow> \<exists>p msg. protocol_error c p msg = Some e"
  by (auto simp: read_bulklen_def split: if_splits option.splits bind_splits)

lemma mbulk_loop_Inl: "mbulk_loop c pos = Some (Inl (c', r)) \<Longrightarrow> r \<noteq> C_OK \<and> r \<noteq> C_ERR None"
proof (induction "multibulklen c" arbitrary: c pos)
  case 0
  then show ?case by (simp add: mbulk_loop.simps)
next
  case (Suc m)
  have "multibulklen c \<noteq> 0" using Suc.hyps(2) by simp
  with Suc.prems show ?case
  proof (cases rule: mbulk_loop_cases)
    case (error e)
    then show ?thesis using read_bulklen_Return by (fastforce simp: protocol_error_def split: bind_splits)
  next
    case (step c1 p1 c2 p2)
    have "m = multibulklen c2"
      using read_bulklen_multibulklen [OF step(1)] step(3) Suc.hyps(2) by (metis diff_Suc_1 fst_conv read_bulk_multibulklen)
    then show ?thesis using Suc.hyps(1) step(4) by blast
  qed simp_all
qed

lemma processMultibulkBuffer_shorter:
  assumes ok: "processMultibulkBuffer c = Some (c', C_OK)" and "querybuf c \<noteq> []"
  shows "length (querybuf c') < length (querybuf c)"
  using ok
proof (cases rule: processMultibulkBuffer_cases)
  case early
  then show ?thesis
  proof (cases rule: read_multibulklen_cases)
    case (empty n q)
    then show ?thesis using sdsrange_drop_shorter [of "querybuf c" n q] assms(2) by simp
  qed (auto simp: protocol_error_not_ok)
next
  case (error c1 p1)
  then show ?thesis using mbulk_loop_Inl by blast
next
  case (loop c1 p1 c2 p2 q)
  have m: "multibulklen c2 = 0" using loop(5) by (simp split: if_splits)
  have c1: "querybuf c1 = querybuf c \<and> 0 < multibulklen c1" using loop(1) by (cases rule: read_multibulklen_cases) auto
  have "length (querybuf c2) \<le> length (querybuf c)" "0 < p2 \<or> length (querybuf c2) < length (querybuf c)"
    using mbulk_loop_shorter [OF loop(2)] c1 m assms(2) by auto
  moreover have "length q < length (querybuf c2) \<or> q = []" if "0 < p2"
    using loop(3) that sdsrange_shorter [of "querybuf c2" "p2 - 1" q] sdsrange_nil [of _ _ q] by (cases "querybuf c2 = []") auto
  ultimately show ?thesis using loop(3,4) assms(2) by (cases "p2 = 0") auto
qed

lemma parse_request_shorter:
  assumes "parse_request c = Some (c', C_OK)" "querybuf c \<noteq> []"
  shows "length (querybuf c') < length (querybuf c)"
  using assms processInlineBuffer_shorter processMultibulkBuffer_shorter by (auto simp: parse_request_def split: if_splits)

lemma set_reqtype_querybuf [simp]: "querybuf (set_reqtype c) = querybuf c"
  by (simp add: set_reqtype_def)

text \<open>
  \<open>exec\<close> is \<^verbatim>\<open>processCommand\<close> for this client; it
  returns \<open>C_ERR\<close> for QUIT only, which marks the connection. \<open>report\<close> adds an error to the replies of the
  client. \<open>paused\<close> is the condition under which the loop does not touch the buffer: the client is blocked,
  or it is not a slave and clients are paused.
\<close>

function processInputBuffer ::
  "bool \<Rightarrow> (string \<Rightarrow> 's \<Rightarrow> 's) \<Rightarrow> (sds list \<Rightarrow> 's \<Rightarrow> ('s \<times> bool) option) \<Rightarrow> conn \<Rightarrow> 's \<Rightarrow> (conn \<times> 's) option" where
  "processInputBuffer paused report exec c s =
     (if querybuf c = [] \<or> paused \<or> close_after_reply c then Some (c, s)
      else (case parse_request (set_reqtype c) of
        None \<Rightarrow> None
      | Some (c, C_ERR None) \<Rightarrow> Some (c, s)
      | Some (c, C_ERR (Some msg)) \<Rightarrow> Some (c, report msg s)
      | Some (c, C_OK) \<Rightarrow>
          if argv c = [] then processInputBuffer paused report exec (resetClient c) s
          else (case exec (argv c) s of
            None \<Rightarrow> None
          | Some (s, ok) \<Rightarrow>
              processInputBuffer paused report exec (if ok then resetClient c else c\<lparr>close_after_reply := True\<rparr>) s)))"
  by pat_completeness auto
termination
  by (relation "measure (\<lambda>(_, _, _, c, _). length (querybuf c))")
    (auto dest!: parse_request_shorter simp: resetClient_def)

declare processInputBuffer.simps [simp del]

section \<open>Reading from the socket\<close>

text \<open>What a call of \<^verbatim>\<open>read\<close> finds: available bytes (none at the end of the stream), or an error.\<close>

datatype socket = Ready sds | EAGAIN | ReadError

definition read_len :: "conn \<Rightarrow> int" where
  "read_len c =
     (if reqtype c = PROTO_REQ_MULTIBULK \<and> multibulklen c \<noteq> 0 \<and> bulklen c \<noteq> -1 \<and> bulklen c \<ge> PROTO_MBULK_BIG_ARG
      then let remaining = to_int (bulklen c + 2 - int (length (querybuf c)))
           in if remaining < PROTO_IOBUF_LEN then remaining else PROTO_IOBUF_LEN
      else PROTO_IOBUF_LEN)"

text \<open>
  The connection is \<open>None\<close> after \<^verbatim>\<open>freeClient\<close>. A negative length is a request for a buffer of almost
  \<open>2 ^ 64\<close> bytes, which aborts the server.
\<close>

definition readQueryFromClient ::
  "bool \<Rightarrow> (string \<Rightarrow> 's \<Rightarrow> 's) \<Rightarrow> (sds list \<Rightarrow> 's \<Rightarrow> ('s \<times> bool) option) \<Rightarrow> socket \<Rightarrow> conn \<Rightarrow> 's \<Rightarrow> (conn option \<times> 's) option" where
  "readQueryFromClient paused report exec sock c s =
     (let readlen = read_len c in
      if readlen < 0 then None
      else (case sock of
        EAGAIN \<Rightarrow> Some (Some c, s)
      | ReadError \<Rightarrow> Some (None, s)
      | Ready bytes \<Rightarrow>
          let read = take (nat readlen) bytes in
          if read = [] then Some (None, s)
          else
            let c = c\<lparr>querybuf := querybuf c @ read\<rparr> in
            if length (querybuf c) > PROTO_MAX_QUERYBUF_LEN then Some (None, s)
            else map_option (map_prod Some id) (processInputBuffer paused report exec c s)))"

text \<open>
  A connection with the bytes that the peer sends: every event finds some of the bytes that are
  still under way, at most the number given for it, and what is not read stays for the next event.
\<close>

fun serve ::
  "(string \<Rightarrow> 's \<Rightarrow> 's) \<Rightarrow> (sds list \<Rightarrow> 's \<Rightarrow> ('s \<times> bool) option) \<Rightarrow> nat list \<Rightarrow> sds \<Rightarrow> conn \<Rightarrow> 's \<Rightarrow>
   (conn option \<times> sds \<times> 's) option" where
  "serve report exec [] stream c s = Some (Some c, stream, s)"
| "serve report exec (n # ns) stream c s =
     (if stream = [] then Some (Some c, stream, s)
      else (case readQueryFromClient False report exec (Ready (take n stream)) c s of
        None \<Rightarrow> None
      | Some (None, s) \<Rightarrow> Some (None, stream, s)
      | Some (Some c', s) \<Rightarrow> serve report exec ns (drop (min n (nat (read_len c))) stream) c' s))"

section \<open>Requests as clients write them\<close>

definition bulk_bytes :: "sds \<Rightarrow> sds" where
  "bulk_bytes a = 36 # dec (length a) @ [13, 10] @ a @ [13, 10]"

definition request_bytes :: "sds list \<Rightarrow> sds" where
  "request_bytes args = 42 # dec (length args) @ [13, 10] @ concat (map bulk_bytes args)"

definition request_fits :: "sds list \<Rightarrow> bool" where
  "request_fits args \<longleftrightarrow> args \<noteq> [] \<and> length args \<le> 1024 * 1024 \<and> list_all (\<lambda>a. length a \<le> 512 * 1024 * 1024) args"

text \<open>Executing the requests one after the other; \<open>None\<close> when one fails or ends the connection.\<close>

fun run_requests :: "(sds list \<Rightarrow> 's \<Rightarrow> ('s \<times> bool) option) \<Rightarrow> sds list list \<Rightarrow> 's \<Rightarrow> 's option" where
  "run_requests exec [] s = Some s"
| "run_requests exec (r # rs) s = (case exec r s of Some (s, True) \<Rightarrow> run_requests exec rs s | _ \<Rightarrow> None)"

lemma strchr_prefix:
  assumes e: "u @ f = w @ c # r" and w: "c \<notin> set w" "0 \<notin> set w"
  shows "strchr u c = (if length w < length u then Some (length w) else None)"
proof (cases "length w < length u")
  case True
  then have t: "take (length w) u = w" "u ! length w = c"
    using arg_cong [OF e, of "take (length w)"] arg_cong [OF e, of "\<lambda>l. l ! length w"] by (simp_all add: nth_append)
  then have "u = w @ c # drop (Suc (length w)) u" using id_take_nth_drop [OF True] by simp
  then have "takeWhile (\<lambda>b. b \<noteq> c \<and> b \<noteq> 0) u = w"
    using w takeWhile_append2 [of w "\<lambda>b. b \<noteq> c \<and> b \<noteq> 0" "c # drop (Suc (length w)) u"] by fastforce
  then show ?thesis using True t(2) by (simp add: strchr_def)
next
  case False
  then have "u = take (length u) w" using arg_cong [OF e, of "take (length u)"] by simp
  then have "set u \<subseteq> set w" by (metis set_take_subset)
  then have t: "takeWhile (\<lambda>b. b \<noteq> c \<and> b \<noteq> 0) u = u" using w by (auto simp: takeWhile_eq_all_conv)
  show ?thesis using False unfolding strchr_def t Let_def by simp
qed

lemma dec_digits: "list_all is_digit (dec n)"
proof (induction n rule: dec.induct)
  case (1 n)
  then show ?case using digit_of_nat [of n] digit_of_nat [of "n mod 10"] by (subst dec.simps) simp
qed

lemma dec_plain: "13 \<notin> set (dec n)" "0 \<notin> set (dec n)"
  using dec_digits [of n] by (auto simp: list_all_iff)

lemma string2ll_dec: "n \<le> 512 * 1024 * 1024 \<Longrightarrow> string2ll (dec n) = Some (of_nat n)"
  by (simp add: string2ll_iff sdec_of_nat)

text \<open>The line that announces an argument.\<close>

lemma bulklen_valid:
  assumes u: "drop pos (querybuf c) @ f = bulk_bytes a @ r" and c: "bulklen c = -1" "length (querybuf c) \<le> PROTO_INLINE_MAX_SIZE"
    and a: "length a \<le> 512 * 1024 * 1024" and pos: "pos \<le> length (querybuf c)"
  obtains (stuck) "read_bulklen c pos = Some Break" "length (drop pos (querybuf c)) < length (dec (length a)) + 3"
  | (line) q p where "read_bulklen c pos = Some (Bulk (c\<lparr>querybuf := q, bulklen := int (length a)\<rparr>) p)"
      "drop p q @ f = a @ [13, 10] @ r" "p \<le> length q" "length q \<le> PROTO_INLINE_MAX_SIZE"
proof -
  let ?w = "36 # dec (length a)" and ?u = "drop pos (querybuf c)"
  have e: "?u @ f = ?w @ 13 # (10 # a @ [13, 10] @ r)" using u by (simp add: bulk_bytes_def)
  have s: "strchr ?u 13 = (if length ?w < length ?u then Some (length ?w) else None)"
    by (rule strchr_prefix [OF e]) (simp_all add: dec_plain)
  show thesis
  proof (cases "length ?w + 2 \<le> length ?u")
    case False
    then have "read_bulklen c pos = Some Break" using s c pos by (auto simp: read_bulklen_def)
    then show thesis using stuck False by simp
  next
    case True
    have w: "take (length ?w) ?u = ?w" "drop (length ?w + 2) ?u @ f = a @ [13, 10] @ r"
      using arg_cong [OF e, of "take (length ?w)"] arg_cong [OF e, of "drop (length ?w + 2)"] True by simp_all
    have h: "querybuf c ! pos = 36" "take (length (dec (length a))) (drop (Suc pos) (querybuf c)) = dec (length a)"
    proof -
      have x: "?u = 36 # dec (length a) @ drop (length ?w) ?u" using append_take_drop_id [of "length ?w" ?u] unfolding w(1) by simp
      have l: "pos < length (querybuf c)" using True by simp
      show "querybuf c ! pos = 36" using x hd_drop_conv_nth [OF l] by (metis list.sel(1))
      have "drop (Suc pos) (querybuf c) = tl ?u" by (simp add: drop_Suc tl_drop)
      then show "take (length (dec (length a))) (drop (Suc pos) (querybuf c)) = dec (length a)"
        using x by (metis list.sel(3) append_eq_conv_conj)
    qed
    let ?n = "length ?w"
    have n: "sint (of_nat (length a) :: int64) = int (length a)" using a sint_of_int_small [of "int (length a)"] by simp
    have l: "pos + ?n + 2 \<le> length (querybuf c)" using True by simp
    have st: "strchr ?u 13 = Some ?n" using s True by simp
    note r = read_bulklen_def [of c pos, unfolded st option.case]
    show thesis
    proof (cases "PROTO_MBULK_BIG_ARG \<le> int (length a)")
      case True
      let ?q = "drop (pos + ?n + 2) (querybuf c)"
      have "sdsrange (querybuf c) (int (pos + ?n + 2)) (-1) = Some ?q"
        by (rule sdsrange_drop) (use c(2) l in auto)
      then have "read_bulklen c pos = Some (Bulk (c\<lparr>querybuf := ?q, bulklen := int (length a)\<rparr>) 0)"
        using r c l h True a string2ll_dec [OF a] n by simp
      then show thesis using w(2) c(2) by (intro line [of ?q 0]) (simp_all add: add.commute add.left_commute)
    next
      case False
      then have "read_bulklen c pos = Some (Bulk (c\<lparr>querybuf := querybuf c, bulklen := int (length a)\<rparr>) (pos + ?n + 2))"
        using r c l h a string2ll_dec [OF a] n by simp
      then show thesis using w(2) c(2) l by (intro line) (simp_all add: add.commute add.left_commute)
    qed
  qed
qed

text \<open>
  The reader inside a request: \<open>args\<close> are the arguments still to be read, \<open>f\<close> the bytes that have not
  arrived yet, and \<open>rest\<close> what follows the request.
\<close>

definition awaits :: "conn \<Rightarrow> nat \<Rightarrow> sds list \<Rightarrow> sds \<Rightarrow> sds \<Rightarrow> bool" where
  "awaits c pos args f rest \<longleftrightarrow>
     multibulklen c = length args \<and> pos \<le> length (querybuf c) \<and> list_all (\<lambda>a. length a \<le> 512 * 1024 * 1024) args \<and>
     (if bulklen c = -1
      then length (querybuf c) \<le> PROTO_INLINE_MAX_SIZE \<and>
        drop pos (querybuf c) @ f = concat (map bulk_bytes args) @ rest
      else args \<noteq> [] \<and> bulklen c = int (length (hd args)) \<and>
        drop pos (querybuf c) @ f = hd args @ [13, 10] @ concat (map bulk_bytes (tl args)) @ rest \<and>
        (length (querybuf c) \<le> PROTO_INLINE_MAX_SIZE \<or>
         pos = 0 \<and> PROTO_MBULK_BIG_ARG \<le> bulklen c \<and> int (length (querybuf c)) \<le> bulklen c + 2))"

text \<open>Nothing more can be read before more bytes arrive.\<close>

definition starved :: "conn \<Rightarrow> nat \<Rightarrow> sds list \<Rightarrow> bool" where
  "starved c pos args \<longleftrightarrow>
     (if bulklen c = -1 then length (drop pos (querybuf c)) < length (dec (length (hd args))) + 3
      else int (length (drop pos (querybuf c))) < bulklen c + 2)"

text \<open>One argument that is complete.\<close>

lemma read_bulk_valid:
  assumes w: "awaits c pos (a # args) f rest" "bulklen c \<noteq> -1" and l: "\<not> int (length (querybuf c)) - int pos < bulklen c + 2"
  obtains q p where "read_bulk c pos = (c\<lparr>querybuf := q, argv := argv c @ [a], bulklen := -1, multibulklen := length args\<rparr>, p)"
    "awaits (c\<lparr>querybuf := q, argv := argv c @ [a], bulklen := -1, multibulklen := length args\<rparr>) p args f rest"
proof -
  have e: "drop pos (querybuf c) @ f = (a @ [13, 10]) @ concat (map bulk_bytes args) @ rest"
    and b: "bulklen c = int (length a)" "multibulklen c = Suc (length args)" and pos: "pos \<le> length (querybuf c)"
    and s: "length (querybuf c) \<le> PROTO_INLINE_MAX_SIZE \<or>
      pos = 0 \<and> PROTO_MBULK_BIG_ARG \<le> bulklen c \<and> int (length (querybuf c)) \<le> bulklen c + 2"
    and ok: "list_all (\<lambda>a. length a \<le> 512 * 1024 * 1024) args"
    using w by (auto simp: awaits_def)
  have l2: "length (a @ [13, 10]) \<le> length (drop pos (querybuf c))" using l b pos by simp
  then have t: "take (length a + 2) (drop pos (querybuf c)) = a @ [13, 10]"
    "drop (length a + 2) (drop pos (querybuf c)) @ f = concat (map bulk_bytes args) @ rest"
    using arg_cong [OF e, of "take (length a + 2)"] arg_cong [OF e, of "drop (length a + 2)"] by simp_all
  have "take (length a) (drop pos (querybuf c)) = take (length a) (take (length a + 2) (drop pos (querybuf c)))" by simp
  then have a: "take (length a) (drop pos (querybuf c)) = a" unfolding t(1) by simp
  show thesis
  proof (cases "pos = 0 \<and> PROTO_MBULK_BIG_ARG \<le> bulklen c \<and> int (length (querybuf c)) = bulklen c + 2")
    case True
    then have lq: "length (querybuf c) = length a + 2" using b by linarith
    show thesis
      by (rule that [of "[]" 0]) (use True lq a b t(2) ok in \<open>simp_all add: read_bulk_def awaits_def\<close>)
  next
    case False
    have "length (querybuf c) \<le> PROTO_INLINE_MAX_SIZE" using s False l by auto
    moreover have "drop (pos + length a + 2) (querybuf c) @ f = concat (map bulk_bytes args) @ rest"
      using t(2) by (simp add: add.commute add.left_commute)
    ultimately show thesis
      using False a b l2 pos ok by (intro that [of "querybuf c" "pos + length a + 2"]) (auto simp: read_bulk_def awaits_def)
  qed
qed

lemma mbulk_loop_valid:
  assumes "awaits c pos args f rest"
  shows "\<exists>c' pos'. mbulk_loop c pos = Some (Inr (c', pos')) \<and> reqtype c' = reqtype c \<and>
    close_after_reply c' = close_after_reply c \<and>
    (\<exists>as args'. args = as @ args' \<and> argv c' = argv c @ as \<and> awaits c' pos' args' f rest \<and> (args' = [] \<or> starved c' pos' args'))"
  using assms
proof (induction args arbitrary: c pos)
  case Nil
  then have "mbulk_loop c pos = Some (Inr (c, pos))" by (simp add: awaits_def mbulk_loop.simps)
  then show ?case using Nil by auto
next
  case (Cons a args)
  have m: "multibulklen c \<noteq> 0" using Cons.prems by (simp add: awaits_def)
  have known: ?case
    if r: "read_bulklen c pos = Some (Bulk d p)" and d: "d = c\<lparr>querybuf := q, bulklen := b\<rparr>" "bulklen d \<noteq> -1"
      and w: "awaits d p (a # args) f rest" for d p q b
  proof (cases "int (length (querybuf d)) - int p < bulklen d + 2")
    case True
    then have "starved d p (a # args)" using d(2) w by (simp add: starved_def awaits_def)
    then show ?thesis using True r m w d(1)
      by (intro exI [of _ d] exI [of _ p]) (simp add: mbulk_loop.simps exI [of _ "[]"])
  next
    case False
    from w d(2) False obtain q' p' where e: "read_bulk d p = (d\<lparr>querybuf := q', argv := argv d @ [a], bulklen := -1, multibulklen := length args\<rparr>, p')"
      "awaits (d\<lparr>querybuf := q', argv := argv d @ [a], bulklen := -1, multibulklen := length args\<rparr>) p' args f rest"
      by (rule read_bulk_valid)
    let ?d = "d\<lparr>querybuf := q', argv := argv d @ [a], bulklen := -1, multibulklen := length args\<rparr>"
    have s: "mbulk_loop c pos = mbulk_loop ?d p'" using r m False e(1) by (simp add: mbulk_loop.simps [of c])
    obtain c' pos' as args' where "mbulk_loop ?d p' = Some (Inr (c', pos'))" "reqtype c' = reqtype ?d"
      "close_after_reply c' = close_after_reply ?d" "args = as @ args'" "argv c' = argv ?d @ as" "awaits c' pos' args' f rest"
      "args' = [] \<or> starved c' pos' args'"
      using Cons.IH [OF e(2)] by blast
    then show ?thesis using d(1) unfolding s
      by (intro exI [of _ c'] exI [of _ pos'] conjI exI [of _ "a # as"] exI [of _ args']) simp_all
  qed
  show ?case
  proof (cases "bulklen c = -1")
    case False
    show ?thesis
      by (rule known [of c pos "bulklen c" "querybuf c"]) (use False Cons.prems in \<open>simp_all add: read_bulklen_known\<close>)
  next
    case True
    have u: "drop pos (querybuf c) @ f = bulk_bytes a @ (concat (map bulk_bytes args) @ rest)"
      and q: "length (querybuf c) \<le> PROTO_INLINE_MAX_SIZE" "length a \<le> 512 * 1024 * 1024" "pos \<le> length (querybuf c)"
      using Cons.prems True by (simp_all add: awaits_def)
    show ?thesis
      using u True q(1,2,3)
    proof (cases rule: bulklen_valid)
      case stuck
      then show ?thesis using m Cons.prems True
        by (intro exI [of _ c] exI [of _ pos]) (simp add: mbulk_loop.simps starved_def exI [of _ "[]"])
    next
      case (line q' p)
      show ?thesis
        by (rule known [OF line(1) refl]) (use line Cons.prems True in \<open>simp_all add: awaits_def\<close>)
    qed
  qed
qed

text \<open>A connection before the end of the requests \<open>rs\<close>; the first one may have been read in part.\<close>

definition conn_at :: "conn \<Rightarrow> sds \<Rightarrow> sds list list \<Rightarrow> bool" where
  "conn_at c f rs \<longleftrightarrow> \<not> close_after_reply c \<and> list_all request_fits rs \<and>
     (if multibulklen c = 0
      then reqtype c \<noteq> PROTO_REQ_INLINE \<and> bulklen c = -1 \<and> argv c = [] \<and>
        length (querybuf c) \<le> PROTO_INLINE_MAX_SIZE \<and> querybuf c @ f = concat (map request_bytes rs)
      else reqtype c = PROTO_REQ_MULTIBULK \<and>
        (\<exists>args rest. rs = (argv c @ args) # rest \<and> awaits c 0 args f (concat (map request_bytes rest))))"

definition idle :: "conn \<Rightarrow> sds list list \<Rightarrow> bool" where
  "idle c rs \<longleftrightarrow>
     (if multibulklen c = 0
      then querybuf c = [] \<and> reqtype c = NoRequest \<or> rs \<noteq> [] \<and> length (querybuf c) < length (dec (length (hd rs))) + 3
      else starved c 0 (drop (length (argv c)) (hd rs)))"

lemma awaits_trim:
  assumes "awaits c pos args f rest"
  shows "(if pos \<noteq> 0 then sdsrange (querybuf c) (int pos) (-1) else Some (querybuf c)) = Some (drop pos (querybuf c))"
    "awaits (c\<lparr>querybuf := drop pos (querybuf c)\<rparr>) 0 args f rest"
proof -
  have l: "length (querybuf c) \<le> PROTO_INLINE_MAX_SIZE \<or> pos = 0" and p: "pos \<le> length (querybuf c)"
    using assms by (auto simp: awaits_def split: if_splits)
  show "(if pos \<noteq> 0 then sdsrange (querybuf c) (int pos) (-1) else Some (querybuf c)) = Some (drop pos (querybuf c))"
    using l p by (auto intro!: sdsrange_drop)
  show "awaits (c\<lparr>querybuf := drop pos (querybuf c)\<rparr>) 0 args f rest"
    using assms by (auto simp: awaits_def split: if_splits)
qed

text \<open>The ways in which reading a request can end.\<close>

definition read_ends :: "conn \<Rightarrow> sds \<Rightarrow> sds list \<Rightarrow> sds list list \<Rightarrow> bool" where
  "read_ends c f r rs \<longleftrightarrow>
     (\<exists>c'. processMultibulkBuffer c = Some (c', C_OK) \<and> argv c' = r \<and> conn_at (resetClient c') f rs) \<or>
     (\<exists>c'. processMultibulkBuffer c = Some (c', C_ERR None) \<and> conn_at c' f (r # rs) \<and> idle c' (r # rs))"

lemma read_args:
  assumes r: "read_multibulklen c = Some (Inr (c1, p1))" and w: "awaits c1 p1 args f (concat (map request_bytes rs))"
    and c: "reqtype c1 = PROTO_REQ_MULTIBULK" "\<not> close_after_reply c1" and ok: "list_all request_fits ((argv c1 @ args) # rs)"
  shows "read_ends c f (argv c1 @ args) rs"
proof -
  obtain c2 p2 as args' where l: "mbulk_loop c1 p1 = Some (Inr (c2, p2))" "reqtype c2 = PROTO_REQ_MULTIBULK" "\<not> close_after_reply c2"
    and as: "args = as @ args'" "argv c2 = argv c1 @ as" and w2: "awaits c2 p2 args' f (concat (map request_bytes rs))"
    and st: "args' = [] \<or> starved c2 p2 args'"
    using mbulk_loop_valid [OF w] c by auto
  let ?c = "c2\<lparr>querybuf := drop p2 (querybuf c2)\<rparr>"
  have p: "processMultibulkBuffer c = Some (?c, if multibulklen c2 = 0 then C_OK else C_ERR None)"
    using r l(1) awaits_trim(1) [OF w2] by (simp add: processMultibulkBuffer_def)
  have m: "multibulklen c2 = length args'" using w2 by (simp add: awaits_def)
  show ?thesis
  proof (cases "args' = []")
    case True
    then have "conn_at (resetClient ?c) f rs"
      using awaits_trim(2) [OF w2] l ok by (auto simp: conn_at_def resetClient_def awaits_def split: if_splits)
    then show ?thesis using p m True as by (simp add: read_ends_def)
  next
    case False
    then have n: "multibulklen c2 \<noteq> 0" using m by simp
    have "conn_at ?c f ((argv c1 @ args) # rs)" using awaits_trim(2) [OF w2] l n ok as by (auto simp: conn_at_def)
    moreover have "idle ?c ((argv c1 @ args) # rs)" using st False n as by (simp add: idle_def starved_def split: if_splits)
    ultimately show ?thesis using p n by (simp add: read_ends_def)
  qed
qed

lemma read_request_valid:
  assumes c: "conn_at c f rs" "querybuf c \<noteq> []" "reqtype c = PROTO_REQ_MULTIBULK"
  obtains r rest where "rs = r # rest" "read_ends c f r rest"
proof (cases "multibulklen c = 0")
  case False
  then obtain args rest where a: "rs = (argv c @ args) # rest" "awaits c 0 args f (concat (map request_bytes rest))"
    using c(1) by (auto simp: conn_at_def)
  have "read_multibulklen c = Some (Inr (c, 0))" using False by (simp add: read_multibulklen_def)
  from read_args [OF this a(2)] show thesis using a(1) c by (intro that [of "argv c @ args" rest]) (simp_all add: conn_at_def)
next
  case True
  then have q: "querybuf c @ f = concat (map request_bytes rs)" "bulklen c = -1" "argv c = []" "length (querybuf c) \<le> PROTO_INLINE_MAX_SIZE"
    "list_all request_fits rs" "\<not> close_after_reply c" using c(1) by (simp_all add: conn_at_def)
  then obtain r rest where rs: "rs = r # rest" using c(2) by (cases rs) auto
  let ?w = "42 # dec (length r)" and ?R = "concat (map request_bytes rest)"
  have fits: "request_fits r" using q(5) rs by simp
  have e: "querybuf c @ f = ?w @ 13 # (10 # concat (map bulk_bytes r) @ ?R)" using q(1) rs by (simp add: request_bytes_def)
  have s: "strchr (querybuf c) 13 = (if length ?w < length (querybuf c) then Some (length ?w) else None)"
    by (rule strchr_prefix [OF e]) (simp_all add: dec_plain)
  show thesis
  proof (cases "length ?w + 2 \<le> length (querybuf c)")
    case False
    then have "processMultibulkBuffer c = Some (c, C_ERR None)"
      using s q True by (auto simp: processMultibulkBuffer_def read_multibulklen_def)
    moreover have "idle c (r # rest)" using False True by (simp add: idle_def)
    ultimately show thesis using c(1) rs by (intro that [of r rest]) (auto simp: read_ends_def)
  next
    case l: True
    have t: "take (length ?w) (querybuf c) = ?w" "drop (length ?w + 2) (querybuf c) @ f = concat (map bulk_bytes r) @ ?R"
      using arg_cong [OF e, of "take (length ?w)"] arg_cong [OF e, of "drop (length ?w + 2)"] l by simp_all
    have x: "querybuf c = 42 # dec (length r) @ drop (length ?w) (querybuf c)"
      using append_take_drop_id [of "length ?w" "querybuf c"] unfolding t(1) by simp
    have h: "querybuf c ! 0 = 42" "take (length (dec (length r))) (drop 1 (querybuf c)) = dec (length r)"
      by (subst x, simp)+
    have n: "length r \<le> 1024 * 1024" "0 < length r" using fits by (auto simp: request_fits_def)
    have si: "sint (of_nat (length r) :: int64) = int (length r)" using n sint_of_int_small [of "int (length r)"] by simp
    have st: "strchr (querybuf c) 13 = Some (length ?w)" using s l by simp
    let ?c = "c\<lparr>multibulklen := length r, argv := []\<rparr>"
    have "read_multibulklen c = Some (Inr (?c, length ?w + 2))"
      using True q h n string2ll_dec [of "length r"] si l unfolding read_multibulklen_def st by simp
    moreover have "awaits ?c (length ?w + 2) r f ?R"
      using t(2) l q fits by (simp add: awaits_def request_fits_def)
    ultimately show thesis using read_args [of c ?c "length ?w + 2" r f rest] c(3) q rs by (intro that [of r rest]) auto
  qed
qed

section \<open>Streams of requests\<close>

lemma run_requests_append:
  "run_requests exec (rs @ rs') s = Option.bind (run_requests exec rs s) (run_requests exec rs')"
  by (induction exec rs s rule: run_requests.induct) (simp_all split: option.split bool.split)

lemma run_requests_Cons:
  assumes "run_requests exec (r # rs) s = Some s'"
  obtains s1 where "exec r s = Some (s1, True)" "run_requests exec rs s1 = Some s'"
  using assms by (auto split: option.splits prod.splits bool.splits)

lemma processInputBuffer_valid:
  assumes "conn_at c f rs" "run_requests exec rs s = Some s'" "multibulklen c = 0 \<longrightarrow> querybuf c = [] \<longrightarrow> reqtype c = NoRequest"
    "querybuf c = [] \<longrightarrow> multibulklen c = 0"
  shows "\<exists>c' s1 rs1 rs2. processInputBuffer False report exec c s = Some (c', s1) \<and> rs = rs1 @ rs2 \<and>
    run_requests exec rs1 s = Some s1 \<and> conn_at c' f rs2 \<and> idle c' rs2"
  using assms
proof (induction rs arbitrary: c s)
  case Nil
  have "querybuf c = [] \<and> multibulklen c = 0"
    using Nil.prems(1) by (auto simp: conn_at_def split: if_splits)
  then show ?case using Nil.prems
    by (intro exI [of _ c] exI [of _ s] exI [of _ "[]"]) (simp add: processInputBuffer.simps idle_def)
next
  case (Cons r0 rs0)
  show ?case
  proof (cases "querybuf c = []")
    case True
    then show ?thesis using Cons.prems
      by (intro exI [of _ c] exI [of _ s] exI [of _ "[]"] exI [of _ "r0 # rs0"]) (simp add: processInputBuffer.simps idle_def)
  next
    case False
    let ?c = "set_reqtype c"
    have star: "querybuf c ! 0 = 42" if "reqtype c = NoRequest"
    proof -
      have "querybuf c @ f = concat (map request_bytes (r0 # rs0))" using Cons.prems(1) that by (auto simp: conn_at_def split: if_splits)
      from arg_cong [OF this, of hd] show ?thesis using False by (cases "querybuf c") (simp_all add: request_bytes_def)
    qed
    have c: "conn_at ?c f (r0 # rs0)" "reqtype ?c = PROTO_REQ_MULTIBULK" "querybuf ?c \<noteq> []"
      using Cons.prems(1) False star by (cases "reqtype c"; auto simp: set_reqtype_def conn_at_def awaits_def split: if_splits)+
    obtain e: "read_ends ?c f r0 rs0" using read_request_valid [OF c(1,3,2)] by blast
    have nc: "\<not> close_after_reply c" using Cons.prems(1) by (simp add: conn_at_def)
    obtain s1 where s1: "exec r0 s = Some (s1, True)" "run_requests exec rs0 s1 = Some s'"
      using Cons.prems(2) by (rule run_requests_Cons)
    have r0: "r0 \<noteq> []" using Cons.prems(1) by (simp add: conn_at_def request_fits_def)
    from e consider c' where "processMultibulkBuffer ?c = Some (c', C_OK)" "argv c' = r0" "conn_at (resetClient c') f rs0"
      | c' where "processMultibulkBuffer ?c = Some (c', C_ERR None)" "conn_at c' f (r0 # rs0)" "idle c' (r0 # rs0)"
      unfolding read_ends_def by blast
    then show ?thesis
    proof cases
      case 1
      have step: "processInputBuffer False report exec c s = processInputBuffer False report exec (resetClient c') s1"
        using False nc 1 c(2) r0 s1(1) by (subst processInputBuffer.simps) (simp add: parse_request_def)
      obtain c2 s2 rs1 rs2 where "processInputBuffer False report exec (resetClient c') s1 = Some (c2, s2)" "rs0 = rs1 @ rs2"
        "run_requests exec rs1 s1 = Some s2" "conn_at c2 f rs2" "idle c2 rs2"
        using Cons.IH [OF 1(3) s1(2)] by (auto simp: resetClient_def)
      then show ?thesis unfolding step using s1(1)
        by (intro exI [of _ c2] exI [of _ s2] exI [of _ "r0 # rs1"] exI [of _ rs2]) simp
    next
      case 2
      have "processInputBuffer False report exec c s = Some (c', s)"
        using False nc 2(1) c(2) by (subst processInputBuffer.simps) (simp add: parse_request_def)
      then show ?thesis using 2 by (intro exI [of _ c'] exI [of _ s] exI [of _ "[]"] exI [of _ "r0 # rs0"]) simp
    qed
  qed
qed

lemma dec_short: "n \<le> 512 * 1024 * 1024 \<Longrightarrow> length (dec n) \<le> 9"
  using length_dec_le [of n 8] by simp

lemma read_bytes_split: "n \<le> length f \<Longrightarrow> (q @ take n f) @ drop n f = q @ f"
  by simp

text \<open>The bytes of an event fit into the buffer, and the reader does not overrun a large argument.\<close>

lemma idle_bounds:
  assumes "conn_at c f rs" "idle c rs"
  shows "0 < read_len c" "read_len c \<le> PROTO_IOBUF_LEN"
    "multibulklen c = 0 \<or> bulklen c = -1 \<Longrightarrow> length (querybuf c) \<le> 12"
    "multibulklen c \<noteq> 0 \<Longrightarrow> bulklen c \<noteq> -1 \<Longrightarrow> int (length (querybuf c)) < bulklen c + 2"
    "multibulklen c \<noteq> 0 \<Longrightarrow> bulklen c \<le> 512 * 1024 * 1024"
    "multibulklen c \<noteq> 0 \<Longrightarrow> PROTO_MBULK_BIG_ARG \<le> bulklen c \<Longrightarrow> int (length (querybuf c)) + read_len c \<le> bulklen c + 2"
proof -
  have in_req: "(bulklen c = -1 \<longrightarrow> length (querybuf c) \<le> 12) \<and> (bulklen c \<noteq> -1 \<longrightarrow> int (length (querybuf c)) < bulklen c + 2)
      \<and> bulklen c \<le> 512 * 1024 * 1024 \<and> reqtype c = PROTO_REQ_MULTIBULK" if m: "multibulklen c \<noteq> 0"
  proof -
    obtain args rest where a: "rs = (argv c @ args) # rest" "awaits c 0 args f (concat (map request_bytes rest))" "reqtype c = PROTO_REQ_MULTIBULK"
      using assms(1) m by (auto simp: conn_at_def)
    then obtain a as where as: "args = a # as" using m by (cases args) (auto simp: awaits_def)
    have "length a \<le> 512 * 1024 * 1024" using a(2) as by (simp add: awaits_def)
    then show ?thesis using dec_short [of "length a"] assms(2) m a as
      by (auto simp: idle_def starved_def awaits_def split: if_splits)
  qed
  have hdr: "length (querybuf c) \<le> 12" if "multibulklen c = 0"
  proof (cases rs)
    case Nil
    then show ?thesis using assms that by (auto simp: conn_at_def idle_def)
  next
    case (Cons r rs')
    then have "length r \<le> 512 * 1024 * 1024" using assms(1) by (simp add: conn_at_def request_fits_def)
    then show ?thesis using dec_short [of "length r"] assms that Cons by (auto simp: idle_def)
  qed
  show "multibulklen c = 0 \<or> bulklen c = -1 \<Longrightarrow> length (querybuf c) \<le> 12" using hdr in_req by blast
  show "multibulklen c \<noteq> 0 \<Longrightarrow> bulklen c \<noteq> -1 \<Longrightarrow> int (length (querybuf c)) < bulklen c + 2" using in_req by blast
  show "multibulklen c \<noteq> 0 \<Longrightarrow> bulklen c \<le> 512 * 1024 * 1024" using in_req by blast
  have rem: "to_int (bulklen c + 2 - int (length (querybuf c))) = bulklen c + 2 - int (length (querybuf c))"
    if "multibulklen c \<noteq> 0" "bulklen c \<noteq> -1" using in_req that by (intro to_int_id) auto
  show "0 < read_len c" "read_len c \<le> PROTO_IOBUF_LEN" using rem in_req by (auto simp: read_len_def Let_def)
  show "int (length (querybuf c)) + read_len c \<le> bulklen c + 2" if m: "multibulklen c \<noteq> 0" "PROTO_MBULK_BIG_ARG \<le> bulklen c"
    using rem [OF m(1)] in_req [OF m(1)] m by (auto simp: read_len_def Let_def)
qed

lemma conn_at_read:
  assumes "conn_at c f rs" "idle c rs" "int k \<le> read_len c" "k \<le> length f"
  shows "conn_at (c\<lparr>querybuf := querybuf c @ take k f\<rparr>) (drop k f) rs"
    "length (querybuf c @ take k f) \<le> PROTO_MAX_QUERYBUF_LEN"
proof -
  note b = idle_bounds [OF assms(1,2)]
  have l: "length (querybuf c @ take k f) = length (querybuf c) + k" using assms(4) by simp
  have k: "k \<le> 16384" using assms(3) b(2) by simp
  have small: "length (querybuf c) + k \<le> PROTO_INLINE_MAX_SIZE"
    if "multibulklen c = 0 \<or> bulklen c = -1 \<or> \<not> PROTO_MBULK_BIG_ARG \<le> bulklen c"
    using that b(3,4) k by fastforce
  have big: "int (length (querybuf c) + k) \<le> bulklen c + 2" if "multibulklen c \<noteq> 0" "PROTO_MBULK_BIG_ARG \<le> bulklen c"
    using b(6) [OF that] assms(3) by simp
  show "length (querybuf c @ take k f) \<le> PROTO_MAX_QUERYBUF_LEN"
    using small big b(5) unfolding l by (cases "multibulklen c = 0"; cases "PROTO_MBULK_BIG_ARG \<le> bulklen c") auto
  show "conn_at (c\<lparr>querybuf := querybuf c @ take k f\<rparr>) (drop k f) rs"
  proof (cases "multibulklen c = 0")
    case True
    then show ?thesis using assms(1) small l by (simp add: conn_at_def)
  next
    case False
    then obtain args rest where a: "rs = (argv c @ args) # rest" "awaits c 0 args f (concat (map request_bytes rest))"
      using assms(1) by (auto simp: conn_at_def)
    have "awaits (c\<lparr>querybuf := querybuf c @ take k f\<rparr>) 0 args (drop k f) (concat (map request_bytes rest))"
    proof (cases "bulklen c = -1")
      case True
      then show ?thesis using a(2) small by (simp add: awaits_def)
    next
      case b: False
      then show ?thesis using a(2) small big [OF False] l
        by (cases "PROTO_MBULK_BIG_ARG \<le> bulklen c") (simp_all add: awaits_def)
    qed
    then show ?thesis using assms(1) a(1) False by (auto simp: conn_at_def)
  qed
qed

lemma read_event_valid:
  assumes c: "conn_at c f rs" "idle c rs" and n: "0 < n" "f \<noteq> []" and ex: "run_requests exec rs s = Some s'"
  obtains c' s1 rs1 rs2 where "readQueryFromClient False report exec (Ready (take n f)) c s = Some (Some c', s1)" "rs = rs1 @ rs2"
    "run_requests exec rs1 s = Some s1" "conn_at c' (drop (min n (nat (read_len c))) f) rs2" "idle c' rs2"
proof -
  note b = idle_bounds [OF c]
  let ?k = "min (min n (nat (read_len c))) (length f)"
  have "take j f = take (min j (length f)) f" for j by (simp add: min_def)
  then have t: "take (nat (read_len c)) (take n f) = take ?k f" by (metis min.commute take_take)
  have d: "drop ?k f = drop (min n (nat (read_len c))) f" by (cases "min n (nat (read_len c)) \<le> length f") (simp_all add: min_def)
  have k: "int ?k \<le> read_len c" "?k \<le> length f" "0 < ?k" using b(1) n by auto
  let ?c = "c\<lparr>querybuf := querybuf c @ take ?k f\<rparr>"
  note r = conn_at_read [OF c k(1,2)]
  have ne: "take ?k f \<noteq> []" using k(3) n(2) by simp
  obtain c' s1 rs1 rs2 where p: "processInputBuffer False report exec ?c s = Some (c', s1)" "rs = rs1 @ rs2"
    "run_requests exec rs1 s = Some s1" "conn_at c' (drop ?k f) rs2" "idle c' rs2"
  proof -
    have q: "querybuf ?c \<noteq> []" using ne by simp
    then have "multibulklen ?c = 0 \<longrightarrow> querybuf ?c = [] \<longrightarrow> reqtype ?c = NoRequest" "querybuf ?c = [] \<longrightarrow> multibulklen ?c = 0" by blast+
    from processInputBuffer_valid [OF r(1) ex this, of report] that show thesis by blast
  qed
  have "readQueryFromClient False report exec (Ready (take n f)) c s = Some (Some c', s1)"
    unfolding readQueryFromClient_def Let_def socket.case t using b(1) ne r(2) p(1) by simp
  with p show thesis using that d by metis
qed

text \<open>When all bytes have arrived nothing is left over.\<close>

lemma idle_finished:
  assumes "conn_at c [] rs" "idle c rs"
  shows "rs = [] \<and> c = new_conn"
proof -
  have m: "multibulklen c = 0"
  proof (rule ccontr)
    assume m: "multibulklen c \<noteq> 0"
    then obtain args rest where a: "rs = (argv c @ args) # rest" "awaits c 0 args [] (concat (map request_bytes rest))"
      using assms(1) by (auto simp: conn_at_def)
    then obtain x xs where "args = x # xs" using m by (cases args) (auto simp: awaits_def)
    then show False using assms(2) a m
      by (cases "bulklen c = -1") (simp_all add: awaits_def idle_def starved_def bulk_bytes_def)
  qed
  have "rs = []"
  proof (cases rs)
    case (Cons r rs')
    then have "length (querybuf c) \<ge> length (dec (length r)) + 3" using assms(1) m by (simp add: conn_at_def request_bytes_def)
    then show ?thesis using assms(2) m Cons by (auto simp: idle_def)
  qed
  then show ?thesis using assms m by (auto simp: conn_at_def idle_def new_conn_def)
qed

lemma serve_valid:
  assumes "conn_at c f rs" "idle c rs" "run_requests exec rs s = Some s'" "list_all (\<lambda>n. 0 < n) ns" "length f \<le> length ns"
  shows "serve report exec ns f c s = Some (Some new_conn, [], s')"
  using assms
proof (induction ns arbitrary: f c s rs)
  case Nil
  then show ?case using idle_finished [of c rs] by auto
next
  case (Cons n ns)
  show ?case
  proof (cases "f = []")
    case True
    then show ?thesis using Cons.prems idle_finished [of c rs] by auto
  next
    case False
    obtain c' s1 rs1 rs2 where r: "readQueryFromClient False report exec (Ready (take n f)) c s = Some (Some c', s1)" "rs = rs1 @ rs2"
      "run_requests exec rs1 s = Some s1" "conn_at c' (drop (min n (nat (read_len c))) f) rs2" "idle c' rs2"
    proof -
      have "0 < n" using Cons.prems(4) by simp
      from Cons.prems(1,2) this False Cons.prems(3) show thesis by (rule read_event_valid) (rule that)
    qed
    have "run_requests exec rs2 s1 = Some s'" using Cons.prems(3) r(2,3) by (simp add: run_requests_append)
    moreover have "length (drop (min n (nat (read_len c))) f) \<le> length ns"
      using idle_bounds(1) [OF Cons.prems(1,2)] Cons.prems(4,5) by auto
    ultimately show ?thesis using Cons.IH [OF r(4,5)] Cons.prems(4) r(1) False by simp
  qed
qed

lemma conn_at_start: "list_all request_fits rs \<Longrightarrow> conn_at new_conn (concat (map request_bytes rs)) rs \<and> idle new_conn rs"
  by (simp add: conn_at_def idle_def new_conn_def)

section \<open>Properties\<close>

text \<open>
  C2. However the bytes of a sequence of requests in the multi bulk protocol are cut into reads, every
  request is executed, exactly once, in order and with exactly its arguments: once as many events
  happened as there are bytes, the state is the one that running the requests directly gives, no
  protocol error was reported, and the connection waits for the next request with an empty buffer.
\<close>

theorem requests_served:
  assumes "list_all request_fits rs" "run_requests exec rs s = Some s'" "list_all (\<lambda>n. 0 < n) ns"
    "length (concat (map request_bytes rs)) \<le> length ns"
  shows "serve report exec ns (concat (map request_bytes rs)) new_conn s = Some (Some new_conn, [], s')"
  using conn_at_start [OF assms(1)] serve_valid [OF _ _ assms(2,3,4)] by blast

text \<open>One request, three bytes per event.\<close>

theorem requests_served_witness:
  "serve (\<lambda>_ log. log) (\<lambda>r log. Some (log @ [r], True)) (replicate 30 3) (concat (map request_bytes [[[71, 69, 84], [97]]])) new_conn [] =
     Some (Some new_conn, [], [[[71, 69, 84], [97]]])"
  by (rule requests_served) (simp_all add: request_fits_def request_bytes_def bulk_bytes_def dec_small list.pred_set)

end
