(* ===== verification/ProtocolSafety.thy ===== *)
theory ProtocolSafety
  imports Protocol
begin

text \<open>
  What arbitrary bytes can do to the reader of requests: an invariant of connections under which no
  assertion of the parsers fails, the query buffer stays bounded and every argument has at most 512 MB,
  and the contract between the reader and the code that executes requests as a locale.
\<close>

section \<open>An invariant of connections\<close>

abbreviation "ARG_LIMIT \<equiv> (512 * 1024 * 1024 :: nat)"

abbreviation bounded :: "sds list \<Rightarrow> bool" where
  "bounded \<equiv> list_all (\<lambda>a. length a \<le> ARG_LIMIT)"

text \<open>Between two events and between two requests.\<close>

definition conn_ok :: "conn \<Rightarrow> bool" where
  "conn_ok c \<longleftrightarrow>
     (if close_after_reply c then multibulklen c = 0 \<or> bulklen c = -1
      else (bulklen c = -1 \<or> 0 \<le> bulklen c \<and> bulklen c \<le> int ARG_LIMIT) \<and> bounded (argv c) \<and>
        (multibulklen c = 0 \<longrightarrow> argv c = [] \<and> bulklen c = -1) \<and>
        (multibulklen c \<noteq> 0 \<longrightarrow> reqtype c = PROTO_REQ_MULTIBULK) \<and>
        (reqtype c = PROTO_REQ_MULTIBULK \<and> multibulklen c = 0 \<longrightarrow> querybuf c \<noteq> [] \<and> querybuf c ! 0 = 42))"

text \<open>
  The buffer before requests are read: short, or its first line is complete and the last read alone
  follows it, or it holds a large argument and nothing else. \<open>pos\<close> is the position of the reader.
\<close>

definition filled :: "conn \<Rightarrow> nat \<Rightarrow> bool" where
  "filled c pos \<longleftrightarrow> length (querybuf c) \<le> 2 ^ 30 \<and> pos \<le> length (querybuf c) \<and>
     (length (querybuf c) - pos \<le> 81920 \<or>
      reqtype c = PROTO_REQ_MULTIBULK \<and> bulklen c = -1 \<and>
        (\<exists>n. strchr (drop pos (querybuf c)) 13 = Some n \<and> n + 2 \<le> length (querybuf c) - pos \<and> length (querybuf c) - pos \<le> n + 16385) \<or>
      reqtype c = PROTO_REQ_MULTIBULK \<and> pos = 0 \<and> multibulklen c \<noteq> 0 \<and> PROTO_MBULK_BIG_ARG \<le> bulklen c \<and>
        int (length (querybuf c)) \<le> bulklen c + 2)"

text \<open>The buffer when the reader waits for more bytes.\<close>

definition waiting :: "conn \<Rightarrow> bool" where
  "waiting c \<longleftrightarrow>
     (multibulklen c \<noteq> 0 \<and> bulklen c \<noteq> -1 \<longrightarrow> int (length (querybuf c)) < bulklen c + 2) \<and>
     (length (querybuf c) \<le> PROTO_INLINE_MAX_SIZE \<or>
      reqtype c = PROTO_REQ_MULTIBULK \<and> bulklen c = -1 \<and> length (querybuf c) \<le> 81920 \<and>
        strchr (querybuf c) 13 = Some (length (querybuf c) - 1) \<or>
      reqtype c = PROTO_REQ_MULTIBULK \<and> multibulklen c \<noteq> 0 \<and> PROTO_MBULK_BIG_ARG \<le> bulklen c)"

section \<open>One request\<close>

lemma sdsrange_small: "length s \<le> 2 ^ 30 \<Longrightarrow> n \<le> length s + 2 \<Longrightarrow> sdsrange s (int n) (-1) = Some (drop n s)"
  by (rule sdsrange_drop) auto

lemma protocol_error_ok:
  assumes "length (querybuf c) \<le> 2 ^ 30" "pos \<le> length (querybuf c)"
  shows "protocol_error c pos msg = Some (c\<lparr>close_after_reply := True, querybuf := drop pos (querybuf c)\<rparr>, C_ERR (Some (''Protocol error: '' @ msg)))"
  using sdsrange_small [OF assms(1)] assms(2) by (simp add: protocol_error_def setProtocolError_def)

lemma strchr_less: "strchr s b = Some n \<Longrightarrow> n < length s"
  by (simp add: strchr_def Let_def split: if_splits)

text \<open>What a parser promises: \<open>C_OK\<close>, \<open>C_ERR\<close> without and with an error.\<close>

definition parsed :: "conn \<Rightarrow> parse \<Rightarrow> bool" where
  "parsed c r \<longleftrightarrow> (case r of
       C_OK \<Rightarrow> \<not> close_after_reply c \<and> multibulklen c = 0 \<and> bounded (argv c) \<and> length (querybuf c) \<le> 81920
     | C_ERR None \<Rightarrow> conn_ok c \<and> \<not> close_after_reply c \<and> waiting c
     | C_ERR (Some _) \<Rightarrow> conn_ok c \<and> close_after_reply c)"

lemma processInlineBuffer_parsed:
  assumes c: "conn_ok c" "\<not> close_after_reply c" "reqtype c = PROTO_REQ_INLINE" and q: "length (querybuf c) \<le> 81920"
  shows "\<exists>c' r. processInlineBuffer c = Some (c', r) \<and> parsed c' r"
proof (cases "strchr (querybuf c) 10")
  case None
  then show ?thesis using c q protocol_error_ok [of c 0]
    by (auto simp: processInlineBuffer_def parsed_def conn_ok_def waiting_def)
next
  case (Some n)
  let ?l = "if n \<noteq> 0 \<and> querybuf c ! (n - 1) = 13 then n - 1 else n"
  have n: "?l + 2 \<le> length (querybuf c) + 2" using strchr_less [OF Some] by auto
  show ?thesis
  proof (cases "sdssplitargs (take ?l (querybuf c))")
    case None
    then show ?thesis using c q Some protocol_error_ok [of c 0]
      by (auto simp: processInlineBuffer_def parsed_def conn_ok_def Let_def)
  next
    case s: (Some args)
    have "list_all (\<lambda>a. length a \<le> length (take ?l (querybuf c))) args" by (rule sdssplitargs_bound [OF s])
    then have "bounded (filter (\<lambda>a. a \<noteq> []) args)" using q by (fastforce simp: list_all_iff)
    moreover have "sdsrange (querybuf c) (int (?l + 2)) (-1) = Some (drop (?l + 2) (querybuf c))"
      by (rule sdsrange_small [OF _ n]) (use q in simp)
    moreover have "multibulklen c = 0" using c by (auto simp: conn_ok_def)
    ultimately show ?thesis using c q Some s
      unfolding processInlineBuffer_def parsed_def Some option.case Let_def s by simp
  qed
qed

lemma read_bulklen_total:
  assumes q: "length (querybuf c) \<le> 2 ^ 30" "pos \<le> length (querybuf c)"
  obtains (error) e where "read_bulklen c pos = Some (Return e)"
  | (nocr) "read_bulklen c pos = Some Break" "bulklen c = -1" "strchr (drop pos (querybuf c)) 13 = None"
      "length (querybuf c) \<le> PROTO_INLINE_MAX_SIZE"
  | (unfinished) n where "read_bulklen c pos = Some Break" "bulklen c = -1" "strchr (drop pos (querybuf c)) 13 = Some n"
      "length (querybuf c) - pos = n + 1"
  | (bulk) c1 p1 where "read_bulklen c pos = Some (Bulk c1 p1)"
proof (cases "bulklen c = -1")
  case False
  then show thesis by (intro bulk) (rule read_bulklen_known)
next
  case b: True
  note err = protocol_error_ok [OF q(1) q(2)] and err0 = protocol_error_ok [OF q(1), of 0]
  show thesis
  proof (cases "strchr (drop pos (querybuf c)) 13")
    case None
    show thesis
    proof (cases "length (querybuf c) > PROTO_INLINE_MAX_SIZE")
      case True
      then show thesis using b err0 None by (intro error) (simp add: read_bulklen_def)
    next
      case False
      with b None show thesis by - (rule nocr; simp add: read_bulklen_def)
    qed
  next
    case (Some n)
    have n: "n < length (querybuf c) - pos" using strchr_less [OF Some] by simp
    show thesis
    proof (cases "pos + n + 2 \<le> length (querybuf c)")
      case False
      then show thesis using b Some n by (intro unfinished [of n]) (auto simp: read_bulklen_def)
    next
      case True
      have "\<exists>x. read_bulklen c pos = Some x \<and> x \<noteq> Break"
      proof (cases "string2ll (take (n - 1) (drop (pos + 1) (querybuf c)))")
        case None
        then show ?thesis using b Some True err by (simp add: read_bulklen_def)
      next
        case ll: (Some ll)
        have "sdsrange (querybuf c) (int (pos + n + 2)) (-1) = Some (drop (pos + n + 2) (querybuf c))"
          by (rule sdsrange_small [OF q(1)]) (use True in simp)
        then show ?thesis using b Some True err ll by (simp add: read_bulklen_def)
      qed
      then obtain x where "read_bulklen c pos = Some x" "x \<noteq> Break" by blast
      then show thesis by (cases x) (auto intro: error bulk)
    qed
  qed
qed

lemma protocol_error_closes:
  assumes "protocol_error c pos msg = Some (c', r)"
  shows "close_after_reply c' \<and> multibulklen c' = multibulklen c \<and> bulklen c' = bulklen c \<and> (\<exists>m. r = C_ERR (Some m))"
  using assms by (auto simp: protocol_error_def setProtocolError_def split: bind_splits)

lemma error_parsed:
  assumes "protocol_error c pos msg = Some (c', r)" "multibulklen c = 0 \<or> bulklen c = -1"
  shows "parsed c' r"
  using protocol_error_closes [OF assms(1)] assms(2) by (auto simp: parsed_def conn_ok_def)

text \<open>Inside a request.\<close>

definition reading :: "conn \<Rightarrow> nat \<Rightarrow> bool" where
  "reading c pos \<longleftrightarrow> \<not> close_after_reply c \<and> reqtype c = PROTO_REQ_MULTIBULK \<and> bounded (argv c) \<and>
     (bulklen c = -1 \<or> 0 \<le> bulklen c \<and> bulklen c \<le> int ARG_LIMIT) \<and> filled c pos"

lemma read_bulklen_reading:
  assumes r: "reading c pos" and b: "read_bulklen c pos = Some (Bulk c1 p1)" and m: "multibulklen c \<noteq> 0"
  shows "reading c1 p1 \<and> bulklen c1 \<noteq> -1"
  using b
proof (cases rule: read_bulklen_cases)
  case known
  then show ?thesis using r by simp
next
  case (big n q ll)
  have l: "length (querybuf c) \<le> 2 ^ 30" "length (querybuf c) - pos \<le> 81920 \<or> length (querybuf c) - pos \<le> n + 16385"
    using r big(1,2) by (auto simp: reading_def filled_def)
  have "q = drop (pos + n + 2) (querybuf c)" using big(6) sdsrange_small [OF l(1), of "pos + n + 2"] big(3) by simp
  then show ?thesis using r big l by (auto simp: reading_def filled_def)
next
  case (small n ll)
  have l: "length (querybuf c) - pos \<le> 81920 \<or> length (querybuf c) - pos \<le> n + 16385"
    using r small(1,2) by (auto simp: reading_def filled_def)
  then show ?thesis using r small by (auto simp: reading_def filled_def)
qed

lemma read_bulk_reading:
  assumes r: "reading c pos" "bulklen c \<noteq> -1" and l: "\<not> int (length (querybuf c)) - int pos < bulklen c + 2"
    and b: "read_bulk c pos = (c2, p2)"
  shows "reading c2 p2 \<and> bulklen c2 = -1 \<and> length (querybuf c2) - p2 \<le> 81920"
proof (cases "pos = 0 \<and> PROTO_MBULK_BIG_ARG \<le> bulklen c \<and> int (length (querybuf c)) = bulklen c + 2")
  case True
  then show ?thesis using r b l by (auto simp: read_bulk_def reading_def filled_def)
next
  case False
  have "length (querybuf c) - pos \<le> 81920" using r l False by (auto simp: reading_def filled_def)
  then show ?thesis using r b l False by (auto simp: read_bulk_def reading_def filled_def)
qed

abbreviation trimmed :: "conn \<Rightarrow> nat \<Rightarrow> conn" where
  "trimmed c pos \<equiv> c\<lparr>querybuf := drop pos (querybuf c)\<rparr>"

lemma stop_parsed:
  assumes r: "reading c pos" and m: "multibulklen c \<noteq> 0"
    and w: "bulklen c = -1 \<and> length (querybuf c) \<le> PROTO_INLINE_MAX_SIZE \<or>
      bulklen c = -1 \<and> strchr (drop pos (querybuf c)) 13 = Some n \<and> length (querybuf c) - pos = n + 1 \<or>
      bulklen c \<noteq> -1 \<and> int (length (querybuf c)) - int pos < bulklen c + 2"
  shows "parsed (trimmed c pos) (C_ERR None)"
proof -
  have ok: "conn_ok (trimmed c pos)" "\<not> close_after_reply c" using r m by (auto simp: conn_ok_def reading_def)
  have p: "pos \<le> length (querybuf c)" and mb: "reqtype c = PROTO_REQ_MULTIBULK" using r by (auto simp: reading_def filled_def)
  from w have "waiting (trimmed c pos)"
  proof (elim disjE conjE)
    assume "strchr (drop pos (querybuf c)) 13 = Some n" "length (querybuf c) - pos = n + 1" "bulklen c = -1"
    then show ?thesis using r mb by (auto simp: waiting_def reading_def filled_def)
  next
    assume "int (length (querybuf c)) - int pos < bulklen c + 2" "bulklen c \<noteq> -1"
    then show ?thesis using mb m p by (cases "PROTO_MBULK_BIG_ARG \<le> bulklen c") (auto simp: waiting_def)
  qed (auto simp: waiting_def)
  then show ?thesis using ok by (simp add: parsed_def)
qed

lemma mbulk_loop_reading:
  assumes "reading c pos" "multibulklen c = 0 \<longrightarrow> length (querybuf c) - pos \<le> 81920"
  shows "\<exists>r. mbulk_loop c pos = Some r \<and> (case r of
      Inl (c', e) \<Rightarrow> parsed c' e
    | Inr (c', p) \<Rightarrow> p \<le> length (querybuf c') \<and> length (querybuf c') \<le> 2 ^ 30 \<and>
        parsed (trimmed c' p) (if multibulklen c' = 0 then C_OK else C_ERR None))"
  using assms
proof (induction "multibulklen c" arbitrary: c pos)
  case 0
  then show ?case by (auto simp: mbulk_loop.simps reading_def parsed_def filled_def)
next
  case (Suc m)
  have q: "length (querybuf c) \<le> 2 ^ 30" "pos \<le> length (querybuf c)" and mb: "multibulklen c \<noteq> 0"
    using Suc.prems(1) Suc.hyps(2) by (auto simp: reading_def filled_def)
  note stop = stop_parsed [OF Suc.prems(1) mb]
  show ?case
    using q
  proof (cases rule: read_bulklen_total)
    case (error e)
    obtain c' r where e: "e = (c', r)" by fastforce
    have "bulklen c = -1" using error by (auto simp: read_bulklen_def split: if_splits)
    then have "parsed c' r" using read_bulklen_Return [OF error] e error_parsed by blast
    then show ?thesis using error e mb by (simp add: mbulk_loop.simps)
  next
    case nocr
    then show ?thesis using stop mb q by (simp add: mbulk_loop.simps)
  next
    case (unfinished n)
    then show ?thesis using stop [of n] mb q by (simp add: mbulk_loop.simps)
  next
    case (bulk c1 p1)
    have r1: "reading c1 p1" "bulklen c1 \<noteq> -1" "multibulklen c1 = Suc m"
      using read_bulklen_reading [OF Suc.prems(1) bulk mb] read_bulklen_multibulklen [OF bulk] Suc.hyps(2) by auto
    obtain c2 p2 where b: "read_bulk c1 p1 = (c2, p2)" by fastforce
    show ?thesis
    proof (cases "int (length (querybuf c1)) - int p1 < bulklen c1 + 2")
      case True
      have "parsed (trimmed c1 p1) (C_ERR None)" using stop_parsed [OF r1(1)] r1(2,3) True by auto
      then show ?thesis using True mb bulk r1 by (simp add: mbulk_loop.simps reading_def filled_def)
    next
      case False
      note r2 = read_bulk_reading [OF r1(1,2) False b]
      have "multibulklen c2 = m" using b r1(3) by (metis diff_Suc_1 fst_conv read_bulk_multibulklen)
      then show ?thesis using Suc.hyps(1) [of c2 p2] r2 bulk b mb False by (simp add: mbulk_loop.simps [of c])
    qed
  qed
qed

lemma processMultibulkBuffer_loop:
  assumes "read_multibulklen c = Some (Inr (c1, p1))" "reading c1 p1" "multibulklen c1 \<noteq> 0"
  shows "\<exists>c' r. processMultibulkBuffer c = Some (c', r) \<and> parsed c' r"
proof -
  obtain r where r: "mbulk_loop c1 p1 = Some r" and p: "case r of
      Inl (c', e) \<Rightarrow> parsed c' e
    | Inr (c', p) \<Rightarrow> p \<le> length (querybuf c') \<and> length (querybuf c') \<le> 2 ^ 30 \<and>
        parsed (trimmed c' p) (if multibulklen c' = 0 then C_OK else C_ERR None)"
    using mbulk_loop_reading [OF assms(2)] assms(3) by auto
  show ?thesis
  proof (cases r)
    case (Inl e)
    then show ?thesis using assms(1) r p by (cases e) (simp add: processMultibulkBuffer_def)
  next
    case (Inr x)
    obtain c2 p2 where x: "x = (c2, p2)" by fastforce
    have "(if p2 \<noteq> 0 then sdsrange (querybuf c2) (int p2) (-1) else Some (querybuf c2)) = Some (drop p2 (querybuf c2))"
      using p Inr x sdsrange_small [of "querybuf c2" p2] by simp
    then show ?thesis using assms(1) r p Inr x by (simp add: processMultibulkBuffer_def)
  qed
qed

lemma processMultibulkBuffer_parsed:
  assumes c: "conn_ok c" "\<not> close_after_reply c" "reqtype c = PROTO_REQ_MULTIBULK" "querybuf c \<noteq> []" and f: "filled c 0"
  shows "\<exists>c' r. processMultibulkBuffer c = Some (c', r) \<and> parsed c' r"
proof (cases "multibulklen c = 0")
  case False
  then have "read_multibulklen c = Some (Inr (c, 0))" by (simp add: read_multibulklen_def)
  moreover have "reading c 0" using c f False by (auto simp: reading_def conn_ok_def)
  ultimately show ?thesis using processMultibulkBuffer_loop False by blast
next
  case m: True
  then have a: "argv c = []" "bulklen c = -1" "querybuf c ! 0 = 42" using c by (auto simp: conn_ok_def)
  have q: "length (querybuf c) \<le> 2 ^ 30" using f by (simp add: filled_def)
  note err = protocol_error_ok [OF q, of 0, simplified]
  have early: ?thesis if "read_multibulklen c = Some (Inl (c', r))" "parsed c' r" for c' r
    using that by (simp add: processMultibulkBuffer_def)
  have errd: ?thesis if "read_multibulklen c = map_option Inl (protocol_error c 0 msg)" for msg
  proof -
    obtain c' r where e: "protocol_error c 0 msg = Some (c', r)" using err by blast
    then show ?thesis using early that error_parsed [OF e] m by simp
  qed
  show ?thesis
  proof (cases "strchr (querybuf c) 13")
    case None
    show ?thesis
    proof (cases "length (querybuf c) > PROTO_INLINE_MAX_SIZE")
      case True
      then show ?thesis using m a None by (intro errd) (simp add: read_multibulklen_def)
    next
      case False
      then have "parsed c (C_ERR None)" using c m by (simp add: parsed_def waiting_def)
      then show ?thesis using early m a None False by (simp add: read_multibulklen_def)
    qed
  next
    case (Some n)
    note n = strchr_less [OF Some]
    have l: "length (querybuf c) \<le> 81920 \<or> length (querybuf c) \<le> n + 16385 \<and> n + 2 \<le> length (querybuf c)"
      using f Some a(2) by (auto simp: filled_def)
    show ?thesis
    proof (cases "n + 2 \<le> length (querybuf c)")
      case False
      then have "parsed c (C_ERR None)" using c l n Some a m by (auto simp: parsed_def waiting_def)
      then show ?thesis using early m a Some False n by (simp add: read_multibulklen_def)
    next
      case True
      have d: "sdsrange (querybuf c) (int (n + 2)) (-1) = Some (drop (n + 2) (querybuf c))"
        by (rule sdsrange_small [OF q]) (use True in simp)
      show ?thesis
      proof (cases "string2ll (take (n - 1) (drop 1 (querybuf c)))")
        case None
        then show ?thesis using m a Some True by (intro errd) (simp add: read_multibulklen_def)
      next
        case ll: (Some ll)
        note r = read_multibulklen_def [of c, unfolded m a Some option.case ll]
        consider "sint ll > 1024 * 1024" | "sint ll \<le> 0" | "0 < sint ll" "sint ll \<le> 1024 * 1024" by linarith
        then show ?thesis
        proof cases
          case 1
          then show ?thesis using r a True by (intro errd) simp
        next
          case 2
          have "parsed (trimmed c (n + 2)) C_OK" using c l True a m by (auto simp: parsed_def)
          moreover have "read_multibulklen c = Some (Inl (trimmed c (n + 2), C_OK))" using r a True 2 d by simp
          ultimately show ?thesis by (rule early [rotated])
        next
          case 3
          let ?c = "c\<lparr>multibulklen := nat (sint ll), argv := []\<rparr>"
          have "read_multibulklen c = Some (Inr (?c, n + 2))" using r a True 3 by simp
          moreover have "reading ?c (n + 2)" using c l True a q by (auto simp: reading_def filled_def)
          ultimately show ?thesis using processMultibulkBuffer_loop 3 by simp
        qed
      qed
    qed
  qed
qed

lemma parse_request_parsed:
  assumes c: "conn_ok c" "\<not> close_after_reply c" "querybuf c \<noteq> []" and f: "filled c 0"
  shows "\<exists>c' r. parse_request (set_reqtype c) = Some (c', r) \<and> parsed c' r"
proof -
  let ?c = "set_reqtype c"
  have ok: "conn_ok ?c" "\<not> close_after_reply ?c" "filled ?c 0" using c f by (auto simp: set_reqtype_def conn_ok_def filled_def)
  show ?thesis
  proof (cases "reqtype ?c = PROTO_REQ_INLINE")
    case True
    then have "length (querybuf ?c) \<le> 81920" using ok(3) by (auto simp: filled_def)
    then show ?thesis using processInlineBuffer_parsed [OF ok(1,2) True] True by (simp add: parse_request_def)
  next
    case False
    then have "reqtype ?c = PROTO_REQ_MULTIBULK" by (cases "reqtype c") (auto simp: set_reqtype_def split: if_splits)
    then show ?thesis using processMultibulkBuffer_parsed [OF ok(1,2)] ok(3) c(3) by (simp add: parse_request_def)
  qed
qed

section \<open>The requests of a stream\<close>

text \<open>The requests in the bytes that are read: an execution that records them and does nothing else.\<close>

definition record_request :: "sds list \<Rightarrow> sds list list \<Rightarrow> (sds list list \<times> bool) option" where
  "record_request r log = Some (log @ [r], True)"

definition requests_in :: "nat list \<Rightarrow> sds \<Rightarrow> sds list list" where
  "requests_in ns stream = (case serve (\<lambda>_ log. log) record_request ns stream new_conn [] of
     None \<Rightarrow> [] | Some (_, _, log) \<Rightarrow> log)"

lemma run_record: "run_requests record_request rs log = Some (log @ rs)"
  by (induction rs arbitrary: log) (simp_all add: record_request_def)

lemma requests_in_valid:
  assumes "list_all request_fits rs" "list_all (\<lambda>n. 0 < n) ns" "length (concat (map request_bytes rs)) \<le> length ns"
  shows "requests_in ns (concat (map request_bytes rs)) = rs"
  using conn_at_start [OF assms(1)] serve_valid [OF _ _ run_record [of rs "[]"] assms(2,3), of new_conn "\<lambda>_ log. log"]
  by (simp add: requests_in_def)

text \<open>A connection after an event: it waits for more bytes, or it will be closed.\<close>

definition settled :: "conn \<Rightarrow> bool" where
  "settled c \<longleftrightarrow> conn_ok c \<and> (close_after_reply c \<or> waiting c)"

text \<open>An event finds room for the bytes it reads.\<close>

lemma strchr_append: "strchr s b = Some n \<Longrightarrow> strchr (s @ t) b = Some n"
proof -
  assume "strchr s b = Some n"
  then have n: "n = length (takeWhile (\<lambda>x. x \<noteq> b \<and> x \<noteq> 0) s)" "n < length s" "s ! n = b"
    by (simp_all add: strchr_def Let_def split: if_splits)
  then have "b \<in> set s" by (auto simp: in_set_conv_nth)
  then have "takeWhile (\<lambda>x. x \<noteq> b \<and> x \<noteq> 0) (s @ t) = takeWhile (\<lambda>x. x \<noteq> b \<and> x \<noteq> 0) s"
    by (intro takeWhile_append1 [of b]) simp_all
  then show ?thesis using n by (simp add: strchr_def nth_append)
qed

lemma settled_read_len:
  assumes "settled c"
  shows "0 < read_len c" "read_len c \<le> PROTO_IOBUF_LEN"
    "\<not> close_after_reply c \<Longrightarrow> multibulklen c \<noteq> 0 \<Longrightarrow> PROTO_MBULK_BIG_ARG \<le> bulklen c \<Longrightarrow> int (length (querybuf c)) + read_len c \<le> bulklen c + 2"
proof -
  have rem: "to_int (bulklen c + 2 - int (length (querybuf c))) = bulklen c + 2 - int (length (querybuf c)) \<and>
    int (length (querybuf c)) < bulklen c + 2 \<and> reqtype c = PROTO_REQ_MULTIBULK"
    if m: "multibulklen c \<noteq> 0" "bulklen c \<noteq> -1"
  proof -
    have n: "\<not> close_after_reply c" using assms m by (auto simp: settled_def conn_ok_def)
    then have b: "bulklen c \<le> int ARG_LIMIT" "reqtype c = PROTO_REQ_MULTIBULK" "int (length (querybuf c)) < bulklen c + 2"
      using assms m by (auto simp: settled_def conn_ok_def waiting_def)
    then show ?thesis by (auto intro!: to_int_id)
  qed
  show "0 < read_len c" "read_len c \<le> PROTO_IOBUF_LEN" using rem by (auto simp: read_len_def Let_def)
  show "int (length (querybuf c)) + read_len c \<le> bulklen c + 2" if "multibulklen c \<noteq> 0" "PROTO_MBULK_BIG_ARG \<le> bulklen c"
    using rem that by (auto simp: read_len_def Let_def)
qed

lemma settled_append:
  assumes c: "settled c" "\<not> close_after_reply c" and d: "d \<noteq> []" "int (length d) \<le> read_len c"
    and l: "length (querybuf c @ d) \<le> PROTO_MAX_QUERYBUF_LEN"
  shows "conn_ok (c\<lparr>querybuf := querybuf c @ d\<rparr>) \<and> filled (c\<lparr>querybuf := querybuf c @ d\<rparr>) 0"
proof
  have w: "conn_ok c" "waiting c" using c by (auto simp: settled_def)
  show "conn_ok (c\<lparr>querybuf := querybuf c @ d\<rparr>)" using w(1) c(2) by (auto simp: conn_ok_def nth_append)
  note r = settled_read_len [OF c(1)]
  have k: "length d \<le> 16384" "0 < length d" using d r(2) by auto
  from w(2) consider "length (querybuf c) \<le> PROTO_INLINE_MAX_SIZE"
    | "reqtype c = PROTO_REQ_MULTIBULK" "bulklen c = -1" "strchr (querybuf c) 13 = Some (length (querybuf c) - 1)"
    | "reqtype c = PROTO_REQ_MULTIBULK" "multibulklen c \<noteq> 0" "PROTO_MBULK_BIG_ARG \<le> bulklen c"
    unfolding waiting_def by blast
  then show "filled (c\<lparr>querybuf := querybuf c @ d\<rparr>) 0"
  proof cases
    case 1
    then show ?thesis using k l by (simp add: filled_def)
  next
    case 2
    have "length (querybuf c) - 1 + 2 \<le> length (querybuf c @ d)" "length (querybuf c @ d) \<le> length (querybuf c) - 1 + 16385"
      using strchr_less [OF 2(3)] k unfolding length_append by linarith+
    then show ?thesis using 2 strchr_append [OF 2(3), of d] l by (auto simp: filled_def)
  next
    case 3
    then show ?thesis using r(3) [OF c(2)] d(2) l by (simp add: filled_def)
  qed
qed

text \<open>
  The contract of the code that executes requests: on bounded requests that it accepts it returns,
  and it keeps an invariant.
\<close>

locale request_handler =
  fixes exec :: "sds list \<Rightarrow> 's \<Rightarrow> ('s \<times> bool) option"
    and report :: "string \<Rightarrow> 's \<Rightarrow> 's"
    and I :: "'s \<Rightarrow> bool"
    and accepts :: "sds list \<Rightarrow> bool"
  assumes exec_ok: "I s \<Longrightarrow> r \<noteq> [] \<Longrightarrow> bounded r \<Longrightarrow> accepts r \<Longrightarrow> \<exists>s' ok. exec r s = Some (s', ok) \<and> I s'"
    and report_ok: "I s \<Longrightarrow> I (report msg s)"
begin

text \<open>One call of the input loop, next to the recording one.\<close>

lemma input_safe:
  assumes "conn_ok c" "\<not> close_after_reply c" "filled c 0"
  shows "\<exists>c1 new. processInputBuffer False (\<lambda>_ l. l) record_request c log = Some (c1, log @ new) \<and> settled c1 \<and>
    (I s \<and> list_all accepts new \<longrightarrow> (\<exists>c2 s'. processInputBuffer False report exec c s = Some (c2, s') \<and> I s' \<and>
      (c2 = c1 \<or> conn_ok c2 \<and> close_after_reply c2)))"
  using assms
proof (induction "length (querybuf c)" arbitrary: c log s rule: less_induct)
  case less
  show ?case
  proof (cases "querybuf c = []")
    case True
    then show ?thesis using less.prems
      by (intro exI [of _ c] exI [of _ "[]"]) (auto simp: processInputBuffer.simps settled_def waiting_def conn_ok_def)
  next
    case False
    obtain c' r where p: "parse_request (set_reqtype c) = Some (c', r)" "parsed c' r"
      using parse_request_parsed [OF less.prems(1,2) False less.prems(3)] by blast
    show ?thesis
    proof (cases r)
      case (C_ERR e)
      then have "settled c'" using p(2) by (cases e) (auto simp: parsed_def settled_def)
      then show ?thesis using False less.prems(2) p(1) C_ERR report_ok
        by (intro exI [of _ c'] exI [of _ "[]"]) (cases e; simp add: processInputBuffer.simps)
    next
      case ok: C_OK
      let ?c = "resetClient c'"
      have l: "length (querybuf ?c) < length (querybuf c)"
        using parse_request_shorter [of "set_reqtype c" c'] p(1) ok False by (simp add: resetClient_def)
      have c: "conn_ok ?c" "\<not> close_after_reply ?c" "filled ?c 0" "bounded (argv c')"
        using p(2) ok by (auto simp: parsed_def resetClient_def conn_ok_def filled_def)
      note ih = less.hyps [OF l c(1,2,3)]
      show ?thesis
      proof (cases "argv c' = []")
        case True
        then show ?thesis using ih [of log s] False less.prems(2) p(1) ok
          by (simp add: processInputBuffer.simps [of _ _ _ c])
      next
        case a: False
        obtain c1 new where n: "processInputBuffer False (\<lambda>_ l. l) record_request ?c (log @ [argv c']) = Some (c1, (log @ [argv c']) @ new)" "settled c1"
          using ih [of "log @ [argv c']"] by blast
        have rec: "processInputBuffer False (\<lambda>_ l. l) record_request c log = Some (c1, log @ (argv c' # new))"
          using n(1) False less.prems(2) p(1) ok a by (simp add: processInputBuffer.simps [of _ _ _ c] record_request_def)
        have "\<exists>c2 s'. processInputBuffer False report exec c s = Some (c2, s') \<and> I s' \<and> (c2 = c1 \<or> conn_ok c2 \<and> close_after_reply c2)"
          if i: "I s" "list_all accepts (argv c' # new)"
        proof -
          obtain s1 k where e: "exec (argv c') s = Some (s1, k)" "I s1" using exec_ok [OF i(1) a c(4)] i(2) by auto
          have st: "processInputBuffer False report exec c s =
              processInputBuffer False report exec (if k then ?c else c'\<lparr>close_after_reply := True\<rparr>) s1"
            using e(1) False less.prems(2) p(1) ok a by (simp add: processInputBuffer.simps [of _ _ _ c])
          show ?thesis
          proof (cases k)
            case True
            then show ?thesis using ih [of "log @ [argv c']" s1] n(1) i(2) e(2) st by auto
          next
            case k: False
            have "conn_ok (c'\<lparr>close_after_reply := True\<rparr>)" using p(2) ok by (simp add: parsed_def conn_ok_def)
            then show ?thesis using k st e(2)
              by (intro exI [of _ "c'\<lparr>close_after_reply := True\<rparr>"] exI [of _ s1]) (simp add: processInputBuffer.simps)
          qed
        qed
        then show ?thesis using rec n(2) by blast
      qed
    qed
  qed
qed

lemma event_safe:
  assumes c: "settled c"
  shows "\<exists>r1 new. readQueryFromClient False (\<lambda>_ l. l) record_request (Ready bytes) c log = Some (r1, log @ new) \<and>
    (\<forall>c1. r1 = Some c1 \<longrightarrow> settled c1) \<and>
    (I s \<and> list_all accepts new \<longrightarrow> (\<exists>r2 s'. readQueryFromClient False report exec (Ready bytes) c s = Some (r2, s') \<and> I s' \<and>
      (r2 = r1 \<or> (\<exists>c2. r2 = Some c2 \<and> conn_ok c2 \<and> close_after_reply c2))))"
proof -
  let ?d = "take (nat (read_len c)) bytes" and ?c = "c\<lparr>querybuf := querybuf c @ take (nat (read_len c)) bytes\<rparr>"
  note r = settled_read_len [OF c]
  show ?thesis
  proof (cases "?d = [] \<or> length (querybuf ?c) > PROTO_MAX_QUERYBUF_LEN")
    case True
    then have "readQueryFromClient False (\<lambda>_ l. l) record_request (Ready bytes) c log = Some (None, log)"
      "readQueryFromClient False report exec (Ready bytes) c s = Some (None, s)" using r(1) by (auto simp: readQueryFromClient_def Let_def)
    then show ?thesis by auto
  next
    case False
    have rq: "readQueryFromClient False (\<lambda>_ l. l) record_request (Ready bytes) c log =
        map_option (map_prod Some id) (processInputBuffer False (\<lambda>_ l. l) record_request ?c log)"
      "readQueryFromClient False report exec (Ready bytes) c s =
        map_option (map_prod Some id) (processInputBuffer False report exec ?c s)"
      using r(1) False by (simp_all add: readQueryFromClient_def Let_def)
    show ?thesis
    proof (cases "close_after_reply c")
      case True
      then have "settled ?c" using c by (simp add: settled_def conn_ok_def)
      then show ?thesis unfolding rq using True by (auto simp: processInputBuffer.simps)
    next
      case n: False
      have "int (length ?d) \<le> read_len c" using r(1) by auto
      then have ok: "conn_ok ?c" "filled ?c 0" using settled_append [OF c n] False by auto
      then show ?thesis unfolding rq using input_safe [OF ok(1) _ ok(2), of log s] n by auto
    qed
  qed
qed

lemma closing_safe:
  assumes "conn_ok c" "close_after_reply c"
  shows "\<exists>r rest. serve report exec ns stream c s = Some (r, rest, s)"
  using assms
proof (induction ns arbitrary: c stream)
  case (Cons n ns)
  have "settled c" using Cons.prems by (simp add: settled_def)
  note r = settled_read_len(1) [OF this]
  let ?d = "take (nat (read_len c)) (take n stream)" and ?c = "c\<lparr>querybuf := querybuf c @ take (nat (read_len c)) (take n stream)\<rparr>"
  have "readQueryFromClient False report exec (Ready (take n stream)) c s =
      (if ?d = [] \<or> length (querybuf ?c) > PROTO_MAX_QUERYBUF_LEN then Some (None, s) else Some (Some ?c, s))"
    using r Cons.prems by (cases "?d = []"; cases "length (querybuf ?c) > PROTO_MAX_QUERYBUF_LEN")
      (simp_all add: readQueryFromClient_def Let_def processInputBuffer.simps del: take_take take_eq_Nil)
  moreover have "conn_ok ?c" "close_after_reply ?c" using Cons.prems by (simp_all add: conn_ok_def)
  ultimately show ?case using Cons.IH [of ?c] by simp
qed simp

lemma closing_event:
  assumes "readQueryFromClient False report exec (Ready (take n stream)) c s = Some (Some c2, s')" "I s'" "stream \<noteq> []"
    "conn_ok c2" "close_after_reply c2"
  shows "\<exists>r rest s'. serve report exec (n # ns) stream c s = Some (r, rest, s') \<and> I s'"
  using closing_safe [OF assms(4,5), of ns "drop (min n (nat (read_len c))) stream" s'] assms(1,2,3) by auto

lemma serve_safe:
  assumes "settled c"
  shows "\<exists>r1 rest1 new. serve (\<lambda>_ l. l) record_request ns stream c log = Some (r1, rest1, log @ new) \<and>
    (I s \<and> list_all accepts new \<longrightarrow> (\<exists>r rest s'. serve report exec ns stream c s = Some (r, rest, s') \<and> I s'))"
  using assms
proof (induction ns arbitrary: c stream log s)
  case (Cons n ns)
  show ?case
  proof (cases "stream = []")
    case True
    then show ?thesis by auto
  next
    case False
    let ?k = "min n (nat (read_len c))"
    obtain r1 new where e: "readQueryFromClient False (\<lambda>_ l. l) record_request (Ready (take n stream)) c log = Some (r1, log @ new)"
      "\<forall>c1. r1 = Some c1 \<longrightarrow> settled c1"
      and ex: "I s \<and> list_all accepts new \<longrightarrow> (\<exists>r2 s'. readQueryFromClient False report exec (Ready (take n stream)) c s = Some (r2, s') \<and> I s' \<and>
        (r2 = r1 \<or> (\<exists>c2. r2 = Some c2 \<and> conn_ok c2 \<and> close_after_reply c2)))"
      using event_safe [OF Cons.prems, of "take n stream" log s] by blast
    show ?thesis
    proof (cases r1)
      case None
      have "\<exists>r rest s'. serve report exec (n # ns) stream c s = Some (r, rest, s') \<and> I s'" if i: "I s" "list_all accepts new"
      proof -
        obtain r2 s' where r2: "readQueryFromClient False report exec (Ready (take n stream)) c s = Some (r2, s')" "I s'"
          "r2 = r1 \<or> (\<exists>c2. r2 = Some c2 \<and> conn_ok c2 \<and> close_after_reply c2)" using ex i by blast
        then show ?thesis using None False closing_event [of n stream c s] by (cases r2) auto
      qed
      then show ?thesis using e(1) None False by auto
    next
      case (Some c1)
      obtain q1 rest1 new' where n: "serve (\<lambda>_ l. l) record_request ns (drop ?k stream) c1 (log @ new) = Some (q1, rest1, (log @ new) @ new')"
        using Cons.IH [of c1 "drop ?k stream" "log @ new"] e(2) Some by blast
      have "\<exists>r rest s'. serve report exec (n # ns) stream c s = Some (r, rest, s') \<and> I s'" if i: "I s" "list_all accepts (new @ new')"
      proof -
        obtain r2 s' where r2: "readQueryFromClient False report exec (Ready (take n stream)) c s = Some (r2, s')" "I s'"
          "r2 = r1 \<or> (\<exists>c2. r2 = Some c2 \<and> conn_ok c2 \<and> close_after_reply c2)" using ex i by auto
        have "\<exists>r rest s''. serve report exec ns (drop ?k stream) c1 s' = Some (r, rest, s'') \<and> I s''"
          using Cons.IH [of c1 "drop ?k stream" "log @ new" s'] n e(2) Some r2(2) i(2) by auto
        then show ?thesis using r2 Some False closing_event [of n stream c s] by (cases r2) auto
      qed
      then show ?thesis using e(1) Some False n by auto
    qed
  qed
qed simp

lemma stream_safe:
  assumes "I s" "list_all accepts (requests_in ns stream)"
  shows "\<exists>r rest s'. serve report exec ns stream new_conn s = Some (r, rest, s') \<and> I s'"
proof -
  have "settled new_conn" by (simp add: settled_def conn_ok_def waiting_def new_conn_def)
  from serve_safe [OF this, of ns stream "[]" s] assms show ?thesis by (auto simp: requests_in_def)
qed

end

text \<open>The recording execution meets the contract with the bounds of requests as its invariant.\<close>

interpretation recorder: request_handler record_request "\<lambda>_ log. log" "list_all (\<lambda>r. r \<noteq> [] \<and> bounded r)" "\<lambda>_. True"
  by unfold_locales (auto simp: record_request_def intro: exI [of _ True])

section \<open>Properties\<close>

text \<open>
  Whatever bytes a client sends and however they arrive, reading them fails no assertion, and every
  request that is handed over for execution has at least one argument and no argument of more than
  512 MB.
\<close>

theorem requests_bounded:
  "\<exists>c rest log. serve (\<lambda>_ log. log) record_request ns stream new_conn [] = Some (c, rest, log) \<and>
     requests_in ns stream = log \<and> list_all (\<lambda>r. r \<noteq> [] \<and> bounded r) log"
  using recorder.stream_safe [of "[]" ns stream] by (auto simp: requests_in_def list_all_iff)

text \<open>
  C30. Inline requests: a line that ends with \<^verbatim>\<open>\r\n\<close> is taken from the buffer with its end, and its
  non-empty words are the arguments. A line that ends with \<^verbatim>\<open>\n\<close> alone is read as well, but one byte too
  many is taken from the buffer: the first byte of the next request is lost.
\<close>

theorem inline_line_end:
  assumes "10 \<notin> set line" "0 \<notin> set line" "line = [] \<or> last line \<noteq> 13" "sdssplitargs line = Some args"
    "length line + length rest < 2 ^ 30"
  shows "processInlineBuffer (c\<lparr>querybuf := line @ [13, 10] @ rest\<rparr>) =
      Some (c\<lparr>querybuf := rest, argv := filter (\<lambda>a. a \<noteq> []) args\<rparr>, C_OK) \<and>
    processInlineBuffer (c\<lparr>querybuf := line @ [10] @ rest\<rparr>) =
      Some (c\<lparr>querybuf := tl rest, argv := filter (\<lambda>a. a \<noteq> []) args\<rparr>, C_OK)"
proof
  have s1: "strchr (line @ [13, 10] @ rest) 10 = Some (length line + 1)"
    using strchr_prefix [of "line @ [13, 10] @ rest" "[]" "line @ [13]" 10 rest] assms(1,2) by simp
  have s2: "strchr (line @ [10] @ rest) 10 = Some (length line)"
    using strchr_prefix [of "line @ [10] @ rest" "[]" line 10 rest] assms(1,2) by simp
  have r1: "sdsrange (line @ [13, 10] @ rest) (int (length line + 2)) (-1) = Some rest"
    using assms(5) sdsrange_drop [of "line @ [13, 10] @ rest" "length line + 2"] by simp
  have r2: "sdsrange (line @ [10] @ rest) (int (length line + 2)) (-1) = Some (tl rest)"
    using assms(5) sdsrange_drop [of "line @ [10] @ rest" "length line + 2"] by (simp add: drop_Suc)
  show "processInlineBuffer (c\<lparr>querybuf := line @ [13, 10] @ rest\<rparr>) =
      Some (c\<lparr>querybuf := rest, argv := filter (\<lambda>a. a \<noteq> []) args\<rparr>, C_OK)"
    using s1 r1 assms(4) by (simp add: processInlineBuffer_def Let_def nth_append)
  have "line = [] \<or> (line @ [10] @ rest) ! (length line - 1) \<noteq> 13"
    using assms(3) by (cases line rule: rev_cases) (auto simp: nth_append)
  then show "processInlineBuffer (c\<lparr>querybuf := line @ [10] @ rest\<rparr>) =
      Some (c\<lparr>querybuf := tl rest, argv := filter (\<lambda>a. a \<noteq> []) args\<rparr>, C_OK)"
    using s2 r2 assms(4) by (auto simp: processInlineBuffer_def Let_def)
qed

text \<open>\<^verbatim>\<open>GET a\<close> and \<^verbatim>\<open>SET b 1\<close>, sent with line feeds: the second request loses its first letter.\<close>

theorem inline_line_end_witness:
  "processInlineBuffer (new_conn\<lparr>querybuf := [71, 69, 84, 32, 97, 13, 10, 83, 69, 84]\<rparr>) =
     Some (new_conn\<lparr>querybuf := [83, 69, 84], argv := [[71, 69, 84], [97]]\<rparr>, C_OK) \<and>
   processInlineBuffer (new_conn\<lparr>querybuf := [71, 69, 84, 32, 97, 10, 83, 69, 84]\<rparr>) =
     Some (new_conn\<lparr>querybuf := [69, 84], argv := [[71, 69, 84], [97]]\<rparr>, C_OK)"
proof -
  have "sdssplitargs [71, 69, 84, 32, 97] = Some [[71, 69, 84], [97]]" by code_simp
  from inline_line_end [OF _ _ _ this, of "[83, 69, 84]" new_conn] show ?thesis by simp
qed

text \<open>
  C31. A connection is lost when clients are paused while the last bytes of a large argument arrive: the
  buffer then holds the whole argument, \<^verbatim>\<open>readQueryFromClient\<close> asks for zero bytes at the next event,
  takes the result for the end of the stream and frees the client, although more bytes are waiting.
\<close>

theorem paused_big_argument_closes:
  assumes "reqtype c = PROTO_REQ_MULTIBULK" "multibulklen c \<noteq> 0" "PROTO_MBULK_BIG_ARG \<le> bulklen c" "bulklen c \<le> 512 * 1024 * 1024"
    "int (length (querybuf c) + length bytes) = bulklen c + 2" "0 < length bytes" "length bytes \<le> 16384"
  shows "readQueryFromClient True report exec (Ready bytes) c s = Some (Some (c\<lparr>querybuf := querybuf c @ bytes\<rparr>), s) \<and>
    readQueryFromClient paused report exec (Ready more_bytes) (c\<lparr>querybuf := querybuf c @ bytes\<rparr>) s = Some (None, s)"
proof
  have "to_int (bulklen c + 2 - int (length (querybuf c))) = int (length bytes)" using assms by (intro trans [OF to_int_id]) auto
  then have "read_len c = int (length bytes)" using assms by (simp add: read_len_def)
  then show "readQueryFromClient True report exec (Ready bytes) c s = Some (Some (c\<lparr>querybuf := querybuf c @ bytes\<rparr>), s)"
    using assms by (auto simp: readQueryFromClient_def Let_def processInputBuffer.simps)
  have "read_len (c\<lparr>querybuf := querybuf c @ bytes\<rparr>) = 0" using assms by (simp add: read_len_def to_int_def)
  then show "readQueryFromClient paused report exec (Ready more_bytes) (c\<lparr>querybuf := querybuf c @ bytes\<rparr>) s = Some (None, s)"
    by (simp add: readQueryFromClient_def)
qed

theorem paused_big_argument_closes_witness:
  "readQueryFromClient True (\<lambda>_ l. l) record_request (Ready [13, 10])
     \<lparr>querybuf = replicate 40000 7, reqtype = PROTO_REQ_MULTIBULK, multibulklen = 1, bulklen = 40000, argv = [], close_after_reply = False\<rparr> [] =
     Some (Some \<lparr>querybuf = replicate 40000 7 @ [13, 10], reqtype = PROTO_REQ_MULTIBULK, multibulklen = 1, bulklen = 40000, argv = [], close_after_reply = False\<rparr>, []) \<and>
   readQueryFromClient False (\<lambda>_ l. l) record_request (Ready [42, 49])
     \<lparr>querybuf = replicate 40000 7 @ [13, 10], reqtype = PROTO_REQ_MULTIBULK, multibulklen = 1, bulklen = 40000, argv = [], close_after_reply = False\<rparr> [] =
     Some (None, [])"
  using paused_big_argument_closes [of "\<lparr>querybuf = replicate 40000 7, reqtype = PROTO_REQ_MULTIBULK, multibulklen = 1, bulklen = 40000,
      argv = [], close_after_reply = False\<rparr>" "[13, 10]" "\<lambda>_ l. l" record_request "[]" False "[42, 49]"]
  by simp

end
