(* ===== verification/Keyspace.thy ===== *)
theory Keyspace
  imports Object
begin

text \<open>
  \<^verbatim>\<open>db.c\<close>: the databases of the server, lookups with lazy expiration, the primitive changes of
  the key space, the commands on keys of any type, and the marking of clients that watch a key
  (\<^verbatim>\<open>touchWatchedKey\<close> of \<^verbatim>\<open>multi.c\<close>), which every change has to trigger.

  The hash tables of a database are the finite maps that \<open>Dict\<close> shows them to implement. Time does
  not pass during a command: \<^verbatim>\<open>mstime()\<close> is the field \<open>mstime\<close> of the configuration. Calls into
  parts that are not modelled (replication and AOF feeds, keyspace notifications, blocked clients,
  the slots of a cluster) are recorded in order in \<open>calls\<close>. Commands return \<open>None\<close> when an
  assertion of the code fails. Not modelled: access times of objects, the free list of the allocator,
  KEYS, SCAN, RANDOMKEY and SHUTDOWN.

  The theory shows that the server invariant (every expire time belongs to a key, strings have at most
  512 MB, watched keys and watching clients agree) is kept by every command, that no assertion can fail under it, and that a
  command that changes a key marks every client that watches it.
\<close>

section \<open>State\<close>

type_synonym key = sds
type_synonym cid = nat

text \<open>
  The replies of the protocol. \<open>ErrorReply m\<close> is the line \<^verbatim>\<open>-ERR m\<close>, or \<^verbatim>\<open>-m\<close> for the shared errors
  that have a code of their own (WRONGTYPE, EXECABORT).
\<close>

datatype reply = OkReply | NullBulk | EmptyBulk | NullMultiBulk | Queued | IntReply int64 | BulkReply sds
  | StatusReply string | ErrorReply string | MultiBulkLen nat

text \<open>The commands; \<open>OtherCmd\<close> are the rows of the command table whose functions are not modelled.\<close>

datatype command = GetCmd | SetCmd | SetnxCmd | SetexCmd | PsetexCmd | AppendCmd | StrlenCmd | DelCmd | ExistsCmd
  | SetrangeCmd | GetrangeCmd | IncrCmd | DecrCmd | MgetCmd | IncrbyCmd | DecrbyCmd | GetsetCmd | MsetCmd
  | MsetnxCmd | SelectCmd | MoveCmd | RenameCmd | RenamenxCmd | ExpireCmd | ExpireatCmd | PexpireCmd
  | PexpireatCmd | DbsizeCmd | TypeCmd | MultiCmd | ExecCmd | DiscardCmd | FlushdbCmd | FlushallCmd | TtlCmd
  | TouchCmd | PttlCmd | PersistCmd | WatchCmd | UnwatchCmd | SetbitCmd | GetbitCmd | BitcountCmd | BitposCmd | BitopCmd
  | OtherCmd string

text \<open>The classes of keyspace notifications, as in \<^verbatim>\<open>server.h\<close>.\<close>

abbreviation "NOTIFY_GENERIC \<equiv> (4 :: nat)"
abbreviation "NOTIFY_STRING \<equiv> (8 :: nat)"
abbreviation "NOTIFY_EXPIRED \<equiv> (256 :: nat)"

datatype call = NotifyKeyspaceEvent nat string key nat | PropagateDel nat key | PropagateMulti nat
  | SignalListAsReady nat key | SlotToKeyAdd key | SlotToKeyDel key | SlotToKeyFlush
  | RdbSave | Propagate command "sds list" nat

record redisDb =
  db_dict :: "key \<Rightarrow> robj option"
  db_expires :: "key \<Rightarrow> int64 option"
  db_watched :: "key \<Rightarrow> cid list option"

record client =
  c_db :: nat
  c_multi :: bool
  c_dirty_cas :: bool
  c_dirty_exec :: bool
  c_mstate :: "(command \<times> sds list) list"
  c_watched :: "(nat \<times> key) list"
  c_reply :: "reply list"
  c_cmd :: command
  c_argv :: "sds list"

text \<open>
  What does not change during a command: the clock, the role of the server, and the reference counts
  that decide about the encoding of arguments and the update of values in place (\<open>shared_args\<close>,
  \<open>shared_vals\<close>), and the largest string that the allocator can provide: a larger request aborts the
  server. \<open>ro_caller\<close> is the condition of
  \<^verbatim>\<open>lookupKeyReadWithFlags\<close> on the current client. \<open>addr_of\<close> gives the address of the bytes of a string in memory,
  which only the alignment of word accesses depends on.
\<close>

record config =
  mstime :: int64
  masterhost :: bool
  loading :: bool
  lua_caller :: bool
  lua_time_start :: int64
  cluster_enabled :: bool
  ro_caller :: bool
  shared_args :: bool
  shared_vals :: bool
  max_alloc :: nat
  saveparams :: bool
  rdb_child :: bool
  addr_of :: "sds \<Rightarrow> nat"

record server =
  cfg :: config
  dbs :: "redisDb list"
  clients :: "cid list"
  client_of :: "cid \<Rightarrow> client"
  dirty :: int
  stat_expiredkeys :: int
  stat_hits :: int
  stat_misses :: int
  calls :: "call list"

definition log_call :: "call \<Rightarrow> server \<Rightarrow> server" where
  "log_call x s = s\<lparr>calls := calls s @ [x]\<rparr>"

definition notifyKeyspaceEvent :: "nat \<Rightarrow> string \<Rightarrow> key \<Rightarrow> nat \<Rightarrow> server \<Rightarrow> server" where
  "notifyKeyspaceEvent cls event key i = log_call (NotifyKeyspaceEvent cls event key i)"

definition addReply :: "cid \<Rightarrow> reply \<Rightarrow> server \<Rightarrow> server" where
  "addReply c r s = s\<lparr>client_of := (client_of s)(c := (client_of s c)\<lparr>c_reply := c_reply (client_of s c) @ [r]\<rparr>)\<rparr>"

text \<open>The command that will be propagated in place of the one that was called.\<close>

definition rewriteClientCommandVector :: "cid \<Rightarrow> command \<Rightarrow> sds list \<Rightarrow> server \<Rightarrow> server" where
  "rewriteClientCommandVector c cmd argv s =
     s\<lparr>client_of := (client_of s)(c := (client_of s c)\<lparr>c_cmd := cmd, c_argv := argv\<rparr>)\<rparr>"

definition set_db :: "nat \<Rightarrow> redisDb \<Rightarrow> server \<Rightarrow> server" where
  "set_db i d s = s\<lparr>dbs := (dbs s)[i := d]\<rparr>"

definition add_dirty :: "int \<Rightarrow> server \<Rightarrow> server" where
  "add_dirty n s = s\<lparr>dirty := dirty s + n\<rparr>"

section \<open>Creation\<close>

definition new_db :: redisDb where
  "new_db = \<lparr>db_dict = Map.empty, db_expires = Map.empty, db_watched = Map.empty\<rparr>"

definition new_client :: client where
  "new_client = \<lparr>c_db = 0, c_multi = False, c_dirty_cas = False, c_dirty_exec = False, c_mstate = [],
     c_watched = [], c_reply = [], c_cmd = GetCmd, c_argv = []\<rparr>"

definition initServer :: "config \<Rightarrow> nat \<Rightarrow> server" where
  "initServer g dbnum = \<lparr>cfg = g, dbs = replicate dbnum new_db, clients = [], client_of = (\<lambda>c. new_client),
     dirty = 0, stat_expiredkeys = 0, stat_hits = 0, stat_misses = 0, calls = []\<rparr>"

definition createClient :: "cid \<Rightarrow> server \<Rightarrow> server" where
  "createClient c s = s\<lparr>client_of := (client_of s)(c := new_client), clients := clients s @ [c]\<rparr>"

section \<open>Watched keys\<close>

definition mark_dirty :: "cid \<Rightarrow> server \<Rightarrow> server" where
  "mark_dirty c s = s\<lparr>client_of := (client_of s)(c := (client_of s c)\<lparr>c_dirty_cas := True\<rparr>)\<rparr>"

definition touchWatchedKey :: "nat \<Rightarrow> key \<Rightarrow> server \<Rightarrow> server" where
  "touchWatchedKey i key s =
     (case db_watched (dbs s ! i) key of None \<Rightarrow> s
      | Some watching \<Rightarrow> fold mark_dirty watching s)"

text \<open>\<open>None\<close> is \<open>dbid == -1\<close>: all databases are flushed.\<close>

definition flush_touches :: "nat option \<Rightarrow> server \<Rightarrow> cid \<Rightarrow> bool" where
  "flush_touches dbid s c \<longleftrightarrow> (\<exists>(i, key) \<in> set (c_watched (client_of s c)).
     (dbid = None \<or> dbid = Some i) \<and> db_dict (dbs s ! i) key \<noteq> None)"

definition touchWatchedKeysOnFlush :: "nat option \<Rightarrow> server \<Rightarrow> server" where
  "touchWatchedKeysOnFlush dbid s = fold (\<lambda>c t. if flush_touches dbid s c then mark_dirty c t else t) (clients s) s"

definition signalModifiedKey :: "nat \<Rightarrow> key \<Rightarrow> server \<Rightarrow> server" where
  "signalModifiedKey i key s = touchWatchedKey i key s"

definition signalFlushedDb :: "nat option \<Rightarrow> server \<Rightarrow> server" where
  "signalFlushedDb dbid s = touchWatchedKeysOnFlush dbid s"

section \<open>Expire times\<close>

definition getExpire :: "server \<Rightarrow> nat \<Rightarrow> key \<Rightarrow> int64 option" where
  "getExpire s i key =
     (case db_expires (dbs s ! i) key of None \<Rightarrow> Some (-1)
      | Some when \<Rightarrow> if db_dict (dbs s ! i) key = None then None else Some when)"

definition setExpire :: "nat \<Rightarrow> key \<Rightarrow> int64 \<Rightarrow> server \<Rightarrow> server option" where
  "setExpire i key when s =
     (let d = dbs s ! i in
      if db_dict d key = None then None
      else Some (set_db i (d\<lparr>db_expires := (db_expires d)(key \<mapsto> when)\<rparr>) s))"

definition removeExpire :: "nat \<Rightarrow> key \<Rightarrow> server \<Rightarrow> (server \<times> bool) option" where
  "removeExpire i key s =
     (let d = dbs s ! i in
      if db_dict d key = None then None
      else Some (set_db i (d\<lparr>db_expires := (db_expires d)(key := None)\<rparr>) s, db_expires d key \<noteq> None))"

definition dbDelete :: "nat \<Rightarrow> key \<Rightarrow> server \<Rightarrow> server \<times> bool" where
  "dbDelete i key s =
     (let d = dbs s ! i;
          d = d\<lparr>db_expires := (db_expires d)(key := None)\<rparr>
      in if db_dict d key \<noteq> None
         then (let s = set_db i (d\<lparr>db_dict := (db_dict d)(key := None)\<rparr>) s
               in (if cluster_enabled (cfg s) then log_call (SlotToKeyDel key) s else s, True))
         else (set_db i d s, False))"

definition propagateExpire :: "nat \<Rightarrow> key \<Rightarrow> server \<Rightarrow> server" where
  "propagateExpire i key s = log_call (PropagateDel i key) s"

text \<open>The time at which keys are judged to be expired.\<close>

definition expire_clock :: "config \<Rightarrow> int64" where
  "expire_clock g = (if lua_caller g then lua_time_start g else mstime g)"

definition expireIfNeeded :: "nat \<Rightarrow> key \<Rightarrow> server \<Rightarrow> (server \<times> bool) option" where
  "expireIfNeeded i key s = do {
     when \<leftarrow> getExpire s i key;
     if sint when < 0 then Some (s, False)
     else if loading (cfg s) then Some (s, False)
     else
       let now = expire_clock (cfg s) in
       if masterhost (cfg s) then Some (s, sint now > sint when)
       else if sint now \<le> sint when then Some (s, False)
       else
         let s = s\<lparr>stat_expiredkeys := stat_expiredkeys s + 1\<rparr>;
             s = propagateExpire i key s;
             s = notifyKeyspaceEvent NOTIFY_EXPIRED ''expired'' key i s
         in Some (dbDelete i key s) }"

section \<open>Lookups\<close>

definition lookupKey :: "server \<Rightarrow> nat \<Rightarrow> key \<Rightarrow> robj option" where
  "lookupKey s i key = db_dict (dbs s ! i) key"

definition lookupKeyRead :: "nat \<Rightarrow> key \<Rightarrow> server \<Rightarrow> (server \<times> robj option) option" where
  "lookupKeyRead i key s = do {
     (s, expired) \<leftarrow> expireIfNeeded i key s;
     if expired \<and> (\<not> masterhost (cfg s) \<or> ro_caller (cfg s)) then Some (s, None)
     else
       let val = lookupKey s i key in
       if val = None then Some (s\<lparr>stat_misses := stat_misses s + 1\<rparr>, None)
       else Some (s\<lparr>stat_hits := stat_hits s + 1\<rparr>, val) }"

definition lookupKeyWrite :: "nat \<Rightarrow> key \<Rightarrow> server \<Rightarrow> (server \<times> robj option) option" where
  "lookupKeyWrite i key s = do {
     (s, _) \<leftarrow> expireIfNeeded i key s;
     Some (s, lookupKey s i key) }"

definition lookupKeyReadOrReply :: "cid \<Rightarrow> key \<Rightarrow> reply \<Rightarrow> server \<Rightarrow> (server \<times> robj option) option" where
  "lookupKeyReadOrReply c key r s = do {
     (s, val) \<leftarrow> lookupKeyRead (c_db (client_of s c)) key s;
     Some (if val = None then addReply c r s else s, val) }"

definition lookupKeyWriteOrReply :: "cid \<Rightarrow> key \<Rightarrow> reply \<Rightarrow> server \<Rightarrow> (server \<times> robj option) option" where
  "lookupKeyWriteOrReply c key r s = do {
     (s, val) \<leftarrow> lookupKeyWrite (c_db (client_of s c)) key s;
     Some (if val = None then addReply c r s else s, val) }"

section \<open>Primitive changes\<close>

definition dbAdd :: "nat \<Rightarrow> key \<Rightarrow> robj \<Rightarrow> server \<Rightarrow> server option" where
  "dbAdd i key val s =
     (let d = dbs s ! i in
      if db_dict d key \<noteq> None then None
      else
        let s = set_db i (d\<lparr>db_dict := (db_dict d)(key \<mapsto> val)\<rparr>) s;
            s = (if type_of val = OBJ_LIST then log_call (SignalListAsReady i key) s else s);
            s = (if cluster_enabled (cfg s) then log_call (SlotToKeyAdd key) s else s)
        in Some s)"

definition dbOverwrite :: "nat \<Rightarrow> key \<Rightarrow> robj \<Rightarrow> server \<Rightarrow> server option" where
  "dbOverwrite i key val s =
     (let d = dbs s ! i in
      if db_dict d key = None then None
      else Some (set_db i (d\<lparr>db_dict := (db_dict d)(key \<mapsto> val)\<rparr>) s))"

definition setKey :: "nat \<Rightarrow> key \<Rightarrow> robj \<Rightarrow> server \<Rightarrow> server option" where
  "setKey i key val s = do {
     (s, old) \<leftarrow> lookupKeyWrite i key s;
     s \<leftarrow> (if old = None then dbAdd i key val s else dbOverwrite i key val s);
     (s, _) \<leftarrow> removeExpire i key s;
     Some (signalModifiedKey i key s) }"

definition dbExists :: "nat \<Rightarrow> key \<Rightarrow> server \<Rightarrow> bool" where
  "dbExists i key s \<longleftrightarrow> db_dict (dbs s ! i) key \<noteq> None"

text \<open>An object that is not a raw string is replaced by a raw copy.\<close>

definition dbUnshareStringValue :: "nat \<Rightarrow> key \<Rightarrow> robj \<Rightarrow> server \<Rightarrow> (server \<times> robj) option" where
  "dbUnshareStringValue i key obj s =
     (case obj of Raw _ \<Rightarrow> Some (s, obj)
      | Aggregate _ _ \<Rightarrow> None
      | _ \<Rightarrow> do {
          decoded \<leftarrow> getDecodedObject (replicate 32 0) obj;
          str \<leftarrow> ptr_sds decoded;
          let obj = createRawStringObject str;
          s \<leftarrow> dbOverwrite i key obj s;
          Some (s, obj) })"

definition emptyDb :: "server \<Rightarrow> server \<times> nat" where
  "emptyDb s =
     (let removed = sum_list (map (\<lambda>d. card (dom (db_dict d))) (dbs s));
          s = s\<lparr>dbs := map (\<lambda>d. d\<lparr>db_dict := Map.empty, db_expires := Map.empty\<rparr>) (dbs s)\<rparr>;
          s = (if cluster_enabled (cfg s) then log_call SlotToKeyFlush s else s)
      in (s, removed))"

text \<open>The argument is a C int.\<close>

definition selectDb :: "cid \<Rightarrow> int \<Rightarrow> server \<Rightarrow> (server \<times> bool)" where
  "selectDb c dbid s =
     (if dbid < 0 \<or> dbid \<ge> int (length (dbs s)) then (s, False)
      else (s\<lparr>client_of := (client_of s)(c := (client_of s c)\<lparr>c_db := nat dbid\<rparr>)\<rparr>, True))"

section \<open>Commands on keys\<close>

text \<open>The integer in an argument of a command, or the error reply.\<close>

definition getLongLongOrReply :: "cid \<Rightarrow> robj option \<Rightarrow> string option \<Rightarrow> server \<Rightarrow> (server \<times> int64 option) option" where
  "getLongLongOrReply c obj msg s = do {
     r \<leftarrow> getLongLongFromObject obj;
     Some (case r of
         None \<Rightarrow> (addReply c (ErrorReply (case msg of Some m \<Rightarrow> m | None \<Rightarrow> ''value is not an integer or out of range'')) s, None)
       | Some v \<Rightarrow> (s, Some v)) }"

text \<open>
  The same for \<^verbatim>\<open>getLongFromObjectOrReply\<close>: on this platform a long is a long long, so its
  additional range check never fails.
\<close>

definition getLongOrReply :: "cid \<Rightarrow> robj option \<Rightarrow> string option \<Rightarrow> server \<Rightarrow> (server \<times> int64 option) option" where
  "getLongOrReply c obj msg s = do {
     (s, r) \<leftarrow> getLongLongOrReply c obj msg s;
     Some (case r of None \<Rightarrow> (s, None)
       | Some v \<Rightarrow> if sint v < - (2 ^ 63) \<or> sint v > 2 ^ 63 - 1
           then (addReply c (ErrorReply (case msg of Some m \<Rightarrow> m | None \<Rightarrow> ''value is out of range'')) s, None)
           else (s, Some v)) }"

definition arg_obj :: "sds list \<Rightarrow> nat \<Rightarrow> robj" where
  "arg_obj argv j = createStringObject (argv ! j)"

definition flushdbCommand :: "cid \<Rightarrow> sds list \<Rightarrow> server \<Rightarrow> server option" where
  "flushdbCommand c argv s =
     (let i = c_db (client_of s c);
          s = add_dirty (int (card (dom (db_dict (dbs s ! i))))) s;
          s = signalFlushedDb (Some i) s;
          s = set_db i ((dbs s ! i)\<lparr>db_dict := Map.empty, db_expires := Map.empty\<rparr>) s;
          s = (if cluster_enabled (cfg s) then log_call SlotToKeyFlush s else s)
      in Some (addReply c OkReply s))"

text \<open>\<^verbatim>\<open>rdbSave\<close> resets the counter \<open>dirty\<close>; the command keeps it in an int and restores it.\<close>

definition flushallCommand :: "cid \<Rightarrow> sds list \<Rightarrow> server \<Rightarrow> server option" where
  "flushallCommand c argv s =
     (let s = signalFlushedDb None s;
          (s, removed) = emptyDb s;
          s = add_dirty (int removed) s;
          s = addReply c OkReply s;
          s = (if saveparams (cfg s) then (log_call RdbSave s)\<lparr>dirty := c_int (dirty s)\<rparr> else s)
      in Some (add_dirty 1 s))"

fun del_loop :: "nat \<Rightarrow> key list \<Rightarrow> nat \<Rightarrow> server \<Rightarrow> (server \<times> nat) option" where
  "del_loop i [] deleted s = Some (s, deleted)"
| "del_loop i (key # keys) deleted s = do {
     (s, _) \<leftarrow> expireIfNeeded i key s;
     let (s, ok) = dbDelete i key s;
     if ok then
       let s = signalModifiedKey i key s;
           s = notifyKeyspaceEvent NOTIFY_GENERIC ''del'' key i s;
           s = add_dirty 1 s
       in del_loop i keys (deleted + 1) s
     else del_loop i keys deleted s }"

definition delCommand :: "cid \<Rightarrow> sds list \<Rightarrow> server \<Rightarrow> server option" where
  "delCommand c argv s = do {
     (s, deleted) \<leftarrow> del_loop (c_db (client_of s c)) (tl argv) 0 s;
     Some (addReply c (IntReply (of_nat deleted)) s) }"

fun exists_loop :: "nat \<Rightarrow> key list \<Rightarrow> nat \<Rightarrow> server \<Rightarrow> (server \<times> nat) option" where
  "exists_loop i [] count s = Some (s, count)"
| "exists_loop i (key # keys) count s = do {
     (s, _) \<leftarrow> expireIfNeeded i key s;
     exists_loop i keys (if dbExists i key s then count + 1 else count) s }"

definition existsCommand :: "cid \<Rightarrow> sds list \<Rightarrow> server \<Rightarrow> server option" where
  "existsCommand c argv s = do {
     (s, count) \<leftarrow> exists_loop (c_db (client_of s c)) (tl argv) 0 s;
     Some (addReply c (IntReply (of_nat count)) s) }"

text \<open>The long index is passed to the int parameter of \<^verbatim>\<open>selectDb\<close>.\<close>

definition selectCommand :: "cid \<Rightarrow> sds list \<Rightarrow> server \<Rightarrow> server option" where
  "selectCommand c argv s = do {
     (s, r) \<leftarrow> getLongOrReply c (Some (arg_obj argv 1)) (Some ''invalid DB index'') s;
     case r of None \<Rightarrow> Some s
     | Some dbid \<Rightarrow>
         if cluster_enabled (cfg s) \<and> dbid \<noteq> 0
         then Some (addReply c (ErrorReply ''SELECT is not allowed in cluster mode'') s)
         else (case selectDb c (sint (ucast dbid :: uint32)) s of
             (s, False) \<Rightarrow> Some (addReply c (ErrorReply ''invalid DB index'') s)
           | (s, True) \<Rightarrow> Some (addReply c OkReply s)) }"

definition dbsizeCommand :: "cid \<Rightarrow> sds list \<Rightarrow> server \<Rightarrow> server option" where
  "dbsizeCommand c argv s =
     Some (addReply c (IntReply (of_nat (card (dom (db_dict (dbs s ! c_db (client_of s c))))))) s)"

definition type_name :: "robj option \<Rightarrow> string" where
  "type_name obj = (case obj of None \<Rightarrow> ''none''
     | Some v \<Rightarrow> (case type_of v of OBJ_STRING \<Rightarrow> ''string'' | OBJ_LIST \<Rightarrow> ''list'' | OBJ_SET \<Rightarrow> ''set''
         | OBJ_ZSET \<Rightarrow> ''zset'' | OBJ_HASH \<Rightarrow> ''hash''))"

definition typeCommand :: "cid \<Rightarrow> sds list \<Rightarrow> server \<Rightarrow> server option" where
  "typeCommand c argv s = do {
     (s, obj) \<leftarrow> lookupKeyRead (c_db (client_of s c)) (argv ! 1) s;
     Some (addReply c (StatusReply (type_name obj)) s) }"

definition renameGenericCommand :: "bool \<Rightarrow> cid \<Rightarrow> sds list \<Rightarrow> server \<Rightarrow> server option" where
  "renameGenericCommand nx c argv s = do {
     let i = c_db (client_of s c);
     let samekey = (argv ! 1 = argv ! 2);
     (s, obj) \<leftarrow> lookupKeyWriteOrReply c (argv ! 1) (ErrorReply ''no such key'') s;
     case obj of None \<Rightarrow> Some s
     | Some val \<Rightarrow>
         if samekey then Some (addReply c (if nx then IntReply 0 else OkReply) s)
         else do {
           expire \<leftarrow> getExpire s i (argv ! 1);
           (s, target) \<leftarrow> lookupKeyWrite i (argv ! 2) s;
           if target \<noteq> None \<and> nx then Some (addReply c (IntReply 0) s)
           else do {
             let s = (if target \<noteq> None then fst (dbDelete i (argv ! 2) s) else s);
             s \<leftarrow> dbAdd i (argv ! 2) val s;
             s \<leftarrow> (if expire \<noteq> -1 then setExpire i (argv ! 2) expire s else Some s);
             let s = fst (dbDelete i (argv ! 1) s);
             let s = signalModifiedKey i (argv ! 1) s;
             let s = signalModifiedKey i (argv ! 2) s;
             let s = notifyKeyspaceEvent NOTIFY_GENERIC ''rename_from'' (argv ! 1) i s;
             let s = notifyKeyspaceEvent NOTIFY_GENERIC ''rename_to'' (argv ! 2) i s;
             let s = add_dirty 1 s;
             Some (addReply c (if nx then IntReply 1 else OkReply) s)
           }
         } }"

definition renameCommand :: "cid \<Rightarrow> sds list \<Rightarrow> server \<Rightarrow> server option" where
  "renameCommand c argv s = renameGenericCommand False c argv s"

definition renamenxCommand :: "cid \<Rightarrow> sds list \<Rightarrow> server \<Rightarrow> server option" where
  "renamenxCommand c argv s = renameGenericCommand True c argv s"

definition moveCommand :: "cid \<Rightarrow> sds list \<Rightarrow> server \<Rightarrow> server option" where
  "moveCommand c argv s =
     (if cluster_enabled (cfg s)
      then Some (addReply c (ErrorReply ''MOVE is not allowed in cluster mode'') s)
      else do {
        let src = c_db (client_of s c);
        r \<leftarrow> getLongLongFromObject (Some (arg_obj argv 2));
        case r of None \<Rightarrow> Some (addReply c (ErrorReply ''index out of range'') s)
        | Some dbid \<Rightarrow>
            if sint dbid < - (2 ^ 31) \<or> sint dbid > 2 ^ 31 - 1
            then Some (addReply c (ErrorReply ''index out of range'') s)
            else (case selectDb c (sint dbid) s of
                (s, False) \<Rightarrow> Some (addReply c (ErrorReply ''index out of range'') s)
              | (s, True) \<Rightarrow> do {
                  let dst = c_db (client_of s c);
                  let s = fst (selectDb c (int src) s);
                  if src = dst
                  then Some (addReply c (ErrorReply ''source and destination objects are the same'') s)
                  else do {
                    (s, obj) \<leftarrow> lookupKeyWrite src (argv ! 1) s;
                    case obj of None \<Rightarrow> Some (addReply c (IntReply 0) s)
                    | Some val \<Rightarrow> do {
                        expire \<leftarrow> getExpire s src (argv ! 1);
                        (s, target) \<leftarrow> lookupKeyWrite dst (argv ! 1) s;
                        if target \<noteq> None then Some (addReply c (IntReply 0) s)
                        else do {
                          s \<leftarrow> dbAdd dst (argv ! 1) val s;
                          s \<leftarrow> (if expire \<noteq> -1 then setExpire dst (argv ! 1) expire s else Some s);
                          let s = fst (dbDelete src (argv ! 1) s);
                          let s = add_dirty 1 s;
                          Some (addReply c (IntReply 1) s)
                        }
                      }
                  }
                })
      })"

text \<open>\<open>seconds\<close> is \<open>unit == UNIT_SECONDS\<close>; the arithmetic wraps.\<close>

definition expireGenericCommand :: "int64 \<Rightarrow> bool \<Rightarrow> cid \<Rightarrow> sds list \<Rightarrow> server \<Rightarrow> server option" where
  "expireGenericCommand basetime seconds c argv s = do {
     let i = c_db (client_of s c);
     let key = argv ! 1;
     (s, r) \<leftarrow> getLongLongOrReply c (Some (arg_obj argv 2)) None s;
     case r of None \<Rightarrow> Some s
     | Some when \<Rightarrow> do {
         let when = (if seconds then when * 1000 else when);
         let when = when + basetime;
         (s, obj) \<leftarrow> lookupKeyWrite i key s;
         if obj = None then Some (addReply c (IntReply 0) s)
         else if sint when \<le> sint (mstime (cfg s)) \<and> \<not> loading (cfg s) \<and> \<not> masterhost (cfg s) then
           (case dbDelete i key s of
              (s, False) \<Rightarrow> None
            | (s, True) \<Rightarrow>
                let s = add_dirty 1 s;
                    s = rewriteClientCommandVector c DelCmd [map of_char ''DEL'', key] s;
                    s = signalModifiedKey i key s;
                    s = notifyKeyspaceEvent NOTIFY_GENERIC ''del'' key i s
                in Some (addReply c (IntReply 1) s))
         else do {
           s \<leftarrow> setExpire i key when s;
           let s = addReply c (IntReply 1) s;
           let s = signalModifiedKey i key s;
           let s = notifyKeyspaceEvent NOTIFY_GENERIC ''expire'' key i s;
           Some (add_dirty 1 s)
         }
       } }"

definition expireCommand :: "cid \<Rightarrow> sds list \<Rightarrow> server \<Rightarrow> server option" where
  "expireCommand c argv s = expireGenericCommand (mstime (cfg s)) True c argv s"

definition expireatCommand :: "cid \<Rightarrow> sds list \<Rightarrow> server \<Rightarrow> server option" where
  "expireatCommand c argv s = expireGenericCommand 0 True c argv s"

definition pexpireCommand :: "cid \<Rightarrow> sds list \<Rightarrow> server \<Rightarrow> server option" where
  "pexpireCommand c argv s = expireGenericCommand (mstime (cfg s)) False c argv s"

definition pexpireatCommand :: "cid \<Rightarrow> sds list \<Rightarrow> server \<Rightarrow> server option" where
  "pexpireatCommand c argv s = expireGenericCommand 0 False c argv s"

text \<open>A time to live that is not negative here, so C's division truncates downwards.\<close>

definition ttlGenericCommand :: "bool \<Rightarrow> cid \<Rightarrow> sds list \<Rightarrow> server \<Rightarrow> server option" where
  "ttlGenericCommand output_ms c argv s = do {
     let i = c_db (client_of s c);
     (s, obj) \<leftarrow> lookupKeyRead i (argv ! 1) s;
     if obj = None then Some (addReply c (IntReply (-2)) s)
     else do {
       expire \<leftarrow> getExpire s i (argv ! 1);
       let ttl = (if expire \<noteq> -1
                  then let ttl = expire - mstime (cfg s) in (if sint ttl < 0 then 0 else ttl)
                  else -1);
       if ttl = -1 then Some (addReply c (IntReply (-1)) s)
       else Some (addReply c (IntReply (if output_ms then ttl else word_of_int (sint (ttl + 500) div 1000))) s)
     } }"

definition ttlCommand :: "cid \<Rightarrow> sds list \<Rightarrow> server \<Rightarrow> server option" where
  "ttlCommand c argv s = ttlGenericCommand False c argv s"

definition pttlCommand :: "cid \<Rightarrow> sds list \<Rightarrow> server \<Rightarrow> server option" where
  "pttlCommand c argv s = ttlGenericCommand True c argv s"

definition persistCommand :: "cid \<Rightarrow> sds list \<Rightarrow> server \<Rightarrow> server option" where
  "persistCommand c argv s =
     (let i = c_db (client_of s c) in
      if db_dict (dbs s ! i) (argv ! 1) = None then Some (addReply c (IntReply 0) s)
      else do {
        (s, removed) \<leftarrow> removeExpire i (argv ! 1) s;
        if removed then Some (add_dirty 1 (addReply c (IntReply 1) s))
        else Some (addReply c (IntReply 0) s)
      })"

fun touch_loop :: "nat \<Rightarrow> key list \<Rightarrow> nat \<Rightarrow> server \<Rightarrow> (server \<times> nat) option" where
  "touch_loop i [] touched s = Some (s, touched)"
| "touch_loop i (key # keys) touched s = do {
     (s, obj) \<leftarrow> lookupKeyRead i key s;
     touch_loop i keys (if obj \<noteq> None then touched + 1 else touched) s }"

definition touchCommand :: "cid \<Rightarrow> sds list \<Rightarrow> server \<Rightarrow> server option" where
  "touchCommand c argv s = do {
     (s, touched) \<leftarrow> touch_loop (c_db (client_of s c)) (tl argv) 0 s;
     Some (addReply c (IntReply (of_nat touched)) s) }"

section \<open>Invariant\<close>

definition watchers :: "server \<Rightarrow> nat \<Rightarrow> key \<Rightarrow> cid set" where
  "watchers s i key = (case db_watched (dbs s ! i) key of None \<Rightarrow> {} | Some l \<Rightarrow> set l)"

text \<open>No string is larger than 512 MB; the protocol accepts no larger argument.\<close>

abbreviation "STRING_MAX \<equiv> (2 ^ 29 :: nat)"

definition val_ok :: "robj \<Rightarrow> bool" where
  "val_ok v \<longleftrightarrow> (case obj_bytes v of None \<Rightarrow> True | Some b \<Rightarrow> length b \<le> STRING_MAX)"

definition db_ok :: "redisDb \<Rightarrow> bool" where
  "db_ok d \<longleftrightarrow> dom (db_expires d) \<subseteq> dom (db_dict d) \<and> (\<forall>v \<in> ran (db_dict d). val_ok v)"

text \<open>The two views of who watches what agree.\<close>

definition watch_ok :: "server \<Rightarrow> bool" where
  "watch_ok s \<longleftrightarrow>
     (\<forall>c. distinct (c_watched (client_of s c)) \<and> (\<forall>w \<in> set (c_watched (client_of s c)). fst w < length (dbs s)) \<and>
        (c_watched (client_of s c) \<noteq> [] \<longrightarrow> c \<in> set (clients s))) \<and>
     (\<forall>i < length (dbs s). \<forall>k c. (i, k) \<in> set (c_watched (client_of s c)) \<longleftrightarrow> c \<in> watchers s i k) \<and>
     (\<forall>i < length (dbs s). \<forall>k l. db_watched (dbs s ! i) k = Some l \<longrightarrow> l \<noteq> [] \<and> distinct l)"

definition server_ok :: "server \<Rightarrow> bool" where
  "server_ok s \<longleftrightarrow> (\<forall>c. c_db (client_of s c) < length (dbs s)) \<and>
     (\<forall>i < length (dbs s). db_ok (dbs s ! i)) \<and> watch_ok s \<and> STRING_MAX \<le> max_alloc (cfg s)"

section \<open>What a command may change\<close>

text \<open>The key is still stored but its time is over, so that any access may delete it.\<close>

definition is_expired :: "server \<Rightarrow> nat \<Rightarrow> key \<Rightarrow> bool" where
  "is_expired s i key \<longleftrightarrow> \<not> loading (cfg s) \<and> \<not> masterhost (cfg s) \<and>
     (\<exists>when. db_expires (dbs s ! i) key = Some when \<and> 0 \<le> sint when \<and> sint when < sint (expire_clock (cfg s)))"

definition changed :: "server \<Rightarrow> server \<Rightarrow> nat \<Rightarrow> key \<Rightarrow> bool" where
  "changed s s' i key \<longleftrightarrow> db_dict (dbs s' ! i) key \<noteq> db_dict (dbs s ! i) key \<or>
     db_expires (dbs s' ! i) key \<noteq> db_expires (dbs s ! i) key"

text \<open>
  From \<open>s\<close> to \<open>s'\<close> the configuration and the watch lists stay, clients that watch a key stay
  marked, the keys that changed have marked watchers except those of \<open>X\<close> and those that were
  expired, and the keys of \<open>D\<close> have marked watchers.
\<close>

definition rel :: "(nat \<times> key) set \<Rightarrow> (nat \<times> key) set \<Rightarrow> server \<Rightarrow> server \<Rightarrow> bool" where
  "rel X D s s' \<longleftrightarrow> cfg s' = cfg s \<and> clients s' = clients s \<and> length (dbs s') = length (dbs s) \<and>
     (\<forall>i < length (dbs s). db_watched (dbs s' ! i) = db_watched (dbs s ! i)) \<and>
     (\<forall>c. c_watched (client_of s' c) = c_watched (client_of s c) \<and>
        c_multi (client_of s' c) = c_multi (client_of s c) \<and> c_mstate (client_of s' c) = c_mstate (client_of s c) \<and>
        c_dirty_exec (client_of s' c) = c_dirty_exec (client_of s c) \<and>
        (c_dirty_cas (client_of s c) \<longrightarrow> c_dirty_cas (client_of s' c))) \<and>
     (\<forall>i < length (dbs s). \<forall>k. (i, k) \<notin> X \<and> \<not> is_expired s i k \<and> changed s s' i k \<longrightarrow>
        (\<forall>c \<in> watchers s i k. c_dirty_cas (client_of s' c))) \<and>
     (\<forall>i < length (dbs s). \<forall>k. (i, k) \<in> D \<longrightarrow> (\<forall>c \<in> watchers s i k. c_dirty_cas (client_of s' c)))"

text \<open>The state during a command that started in \<open>s0\<close>.\<close>

definition G :: "server \<Rightarrow> (nat \<times> key) set \<Rightarrow> (nat \<times> key) set \<Rightarrow> server \<Rightarrow> bool" where
  "G s0 X D s \<longleftrightarrow> server_ok s \<and> rel X D s0 s"

lemma initServer_ok:
  "0 < dbnum \<Longrightarrow> STRING_MAX \<le> max_alloc g \<Longrightarrow> server_ok (initServer g dbnum)"
  by (simp add: server_ok_def initServer_def new_client_def new_db_def db_ok_def watch_ok_def watchers_def)

lemma createClient_ok:
  assumes "server_ok s" "c_watched (client_of s c) = []"
  shows "server_ok (createClient c s)"
proof -
  have "0 < length (dbs s)" using assms(1) by (metis server_ok_def gr_zeroI not_less_zero)
  moreover have w: "c_watched (client_of (createClient c s) d) = c_watched (client_of s d)" for d
    using assms(2) by (simp add: createClient_def new_client_def)
  have "watch_ok (createClient c s)"
    using assms(1) unfolding server_ok_def watch_ok_def w watchers_def by (simp add: createClient_def)
  ultimately show ?thesis
    using assms(1) by (simp add: server_ok_def createClient_def new_client_def)
qed

text \<open>Total correctness of a step that may fail.\<close>

definition wp :: "'a option \<Rightarrow> ('a \<Rightarrow> bool) \<Rightarrow> bool" where
  "wp m Q \<longleftrightarrow> (\<exists>x. m = Some x \<and> Q x)"

lemma wp_simps [simp]:
  "wp (Some x) Q = Q x"
  "wp None Q = False"
  "wp (Option.bind m f) Q = wp m (\<lambda>x. wp (f x) Q)"
  by (auto simp: wp_def bind_eq_Some_conv)

lemma wp_if [simp]: "wp (if b then m else n) Q = (if b then wp m Q else wp n Q)"
  by simp

lemma wp_bindI: "wp m (\<lambda>x. wp (f x) Q) \<Longrightarrow> wp (m \<bind> f) Q"
  by simp

lemma wp_optionI:
  "(x = None \<Longrightarrow> wp m Q) \<Longrightarrow> (\<And>v. x = Some v \<Longrightarrow> wp (f v) Q) \<Longrightarrow> wp (case x of None \<Rightarrow> m | Some v \<Rightarrow> f v) Q"
  by (cases x) simp_all

lemma wp_ifI: "(b \<Longrightarrow> wp m Q) \<Longrightarrow> (\<not> b \<Longrightarrow> wp n Q) \<Longrightarrow> wp (if b then m else n) Q"
  by simp

lemma wp_mono: "wp m P \<Longrightarrow> (\<And>x. P x \<Longrightarrow> Q x) \<Longrightarrow> wp m Q"
  by (auto simp: wp_def)

section \<open>Steps that do not touch the data\<close>

lemma G_start: "server_ok s \<Longrightarrow> G s {} {} s"
  by (simp add: G_def rel_def changed_def)

text \<open>The parts of the state that the invariant and the relation look at.\<close>

definition same_core :: "server \<Rightarrow> server \<Rightarrow> bool" where
  "same_core s s' \<longleftrightarrow> cfg s' = cfg s \<and> clients s' = clients s \<and> dbs s' = dbs s \<and>
     (\<forall>c. c_watched (client_of s' c) = c_watched (client_of s c) \<and>
        c_multi (client_of s' c) = c_multi (client_of s c) \<and> c_mstate (client_of s' c) = c_mstate (client_of s c) \<and>
        c_dirty_exec (client_of s' c) = c_dirty_exec (client_of s c) \<and>
        c_dirty_cas (client_of s' c) = c_dirty_cas (client_of s c) \<and> c_db (client_of s' c) = c_db (client_of s c))"

lemma watch_ok_cong:
  assumes "clients s' = clients s" "length (dbs s') = length (dbs s)"
    "\<And>i. i < length (dbs s) \<Longrightarrow> db_watched (dbs s' ! i) = db_watched (dbs s ! i)"
    "\<And>c. c_watched (client_of s' c) = c_watched (client_of s c)"
  shows "watch_ok s' = watch_ok s"
  using assms unfolding watch_ok_def watchers_def by simp

lemma G_same_core:
  assumes "same_core s s'" "G s0 X D s"
  shows "G s0 X D s'"
proof -
  have "watch_ok s' = watch_ok s" using assms(1) by (intro watch_ok_cong) (auto simp: same_core_def)
  moreover have "changed s0 s' = changed s0 s" using assms(1) by (intro ext) (simp add: changed_def same_core_def)
  ultimately show ?thesis
    using assms unfolding G_def server_ok_def rel_def same_core_def by (elim conjE) simp
qed

lemma same_core_simps:
  "same_core s (addReply c r s)" "same_core s (add_dirty n s)" "same_core s (log_call x s)"
  "same_core s (notifyKeyspaceEvent cls ev k i s)" "same_core s (s\<lparr>stat_hits := h\<rparr>)" "same_core s (s\<lparr>stat_misses := m\<rparr>)"
  "same_core s (s\<lparr>stat_expiredkeys := e\<rparr>)" "same_core s (propagateExpire i k s)"
  "same_core s (rewriteClientCommandVector c cmd argv s)" "same_core s (s\<lparr>dirty := n\<rparr>)"
  by (simp_all add: rewriteClientCommandVector_def same_core_def addReply_def add_dirty_def log_call_def notifyKeyspaceEvent_def propagateExpire_def)

lemmas G_quiet [intro!] = same_core_simps [THEN G_same_core]

lemma quiet_simps [simp]:
  "dbs (addReply c r s) = dbs s" "cfg (addReply c r s) = cfg s"
  "dbs (add_dirty n s) = dbs s" "cfg (add_dirty n s) = cfg s" "client_of (add_dirty n s) = client_of s"
  "dbs (log_call x s) = dbs s" "cfg (log_call x s) = cfg s" "client_of (log_call x s) = client_of s"
  "dbs (notifyKeyspaceEvent cls ev k i s) = dbs s" "cfg (notifyKeyspaceEvent cls ev k i s) = cfg s"
  "client_of (notifyKeyspaceEvent cls ev k i s) = client_of s"
  "dbs (propagateExpire i k s) = dbs s" "cfg (propagateExpire i k s) = cfg s" "client_of (propagateExpire i k s) = client_of s"
  "c_db (client_of (addReply c r s) d) = c_db (client_of s d)"
  "dbs (rewriteClientCommandVector c cmd argv s) = dbs s" "cfg (rewriteClientCommandVector c cmd argv s) = cfg s"
  by (simp_all add: rewriteClientCommandVector_def addReply_def add_dirty_def log_call_def notifyKeyspaceEvent_def propagateExpire_def)

section \<open>Steps that change the data\<close>

lemma set_db_simps [simp]:
  "length (dbs (set_db i d s)) = length (dbs s)" "cfg (set_db i d s) = cfg s"
  "client_of (set_db i d s) = client_of s" "clients (set_db i d s) = clients s"
  "i < length (dbs s) \<Longrightarrow> dbs (set_db i d s) ! i = d" "j \<noteq> i \<Longrightarrow> dbs (set_db i d s) ! j = dbs s ! j"
  by (simp_all add: set_db_def)

text \<open>Databases that differ at one key only.\<close>

definition same_but :: "key \<Rightarrow> redisDb \<Rightarrow> redisDb \<Rightarrow> bool" where
  "same_but key d d' \<longleftrightarrow> db_watched d' = db_watched d \<and>
     (\<forall>k. k \<noteq> key \<longrightarrow> db_dict d' k = db_dict d k \<and> db_expires d' k = db_expires d k)"

lemma server_ok_set_db:
  assumes "server_ok s" "db_ok d" "db_watched d = db_watched (dbs s ! i)"
  shows "server_ok (set_db i d s)"
proof -
  have "db_watched (dbs (set_db i d s) ! j) = db_watched (dbs s ! j)" if "j < length (dbs s)" for j
    using that assms(3) by (cases "j = i") simp_all
  then have "watch_ok (set_db i d s) = watch_ok s" by (intro watch_ok_cong) simp_all
  moreover have "db_ok (dbs (set_db i d s) ! j)" if "j < length (dbs s)" for j
    using that assms(1,2) by (cases "j = i") (simp_all add: server_ok_def)
  ultimately show ?thesis using assms(1) by (simp add: server_ok_def)
qed

lemma rel_changedD:
  "rel X D s s' \<Longrightarrow> i < length (dbs s) \<Longrightarrow> (i, k) \<notin> X \<Longrightarrow> \<not> is_expired s i k \<Longrightarrow> changed s s' i k \<Longrightarrow>
   c \<in> watchers s i k \<Longrightarrow> c_dirty_cas (client_of s' c)"
  unfolding rel_def by blast

lemma rel_set_db:
  assumes r: "rel X D s0 s" and sb: "same_but key (dbs s ! i) d" and i: "i < length (dbs s)"
    and X: "(i, key) \<in> X' \<or> is_expired s i key" and sub: "X \<subseteq> X'"
  shows "rel X' D s0 (set_db i d s)"
proof -
  let ?s = "set_db i d s"
  have l: "length (dbs s) = length (dbs s0)" and c: "cfg s = cfg s0" using r by (simp_all add: rel_def)
  have w: "db_watched (dbs ?s ! j) = db_watched (dbs s0 ! j)" if "j < length (dbs s0)" for j
    using that sb r l by (cases "j = i") (simp_all add: rel_def same_but_def)
  have "\<forall>c \<in> watchers s0 j k. c_dirty_cas (client_of s c)"
    if j: "j < length (dbs s0)" and n: "(j, k) \<notin> X'" "\<not> is_expired s0 j k" "changed s0 ?s j k" for j k
  proof (cases "changed s0 s j k")
    case True
    then show ?thesis using rel_changedD [OF r j _ n(2)] n(1) sub by blast
  next
    case False
    have "(j, k) = (i, key)"
    proof (rule ccontr)
      assume "(j, k) \<noteq> (i, key)"
      then have "changed s0 ?s j k = changed s0 s j k"
        using sb l i by (cases "j = i") (auto simp: changed_def same_but_def)
      then show False using False n(3) by simp
    qed
    moreover have "is_expired s j k = is_expired s0 j k"
      using False c by (simp add: is_expired_def changed_def)
    ultimately show ?thesis using X n by simp
  qed
  then have "\<forall>j < length (dbs s0). \<forall>k. (j, k) \<notin> X' \<and> \<not> is_expired s0 j k \<and> changed s0 ?s j k \<longrightarrow>
      (\<forall>c \<in> watchers s0 j k. c_dirty_cas (client_of s c))" by blast
  then show ?thesis using r w by (simp add: rel_def)
qed

lemma G_write:
  assumes "G s0 X D s" "i < length (dbs s)" "same_but key (dbs s ! i) d" "db_ok d"
  shows "G s0 (insert (i, key) X) D (set_db i d s)"
  using assms server_ok_set_db rel_set_db [of X D s0 s key i d "insert (i, key) X"]
  by (auto simp: G_def same_but_def)

lemma G_purge:
  assumes "G s0 X D s" "i < length (dbs s)" "same_but key (dbs s ! i) d" "db_ok d" "is_expired s i key"
  shows "G s0 X D (set_db i d s)"
  using assms server_ok_set_db rel_set_db [of X D s0 s key i d X]
  by (auto simp: G_def same_but_def)

text \<open>Marking the watchers.\<close>

lemma fold_mark_dirty:
  "fold mark_dirty l s = s\<lparr>client_of := (\<lambda>c. if c \<in> set l then (client_of s c)\<lparr>c_dirty_cas := True\<rparr> else client_of s c)\<rparr>"
  by (induction l arbitrary: s) (auto simp: mark_dirty_def fun_eq_iff)

definition marked :: "cid set \<Rightarrow> server \<Rightarrow> server" where
  "marked C s = s\<lparr>client_of := (\<lambda>c. if c \<in> C then (client_of s c)\<lparr>c_dirty_cas := True\<rparr> else client_of s c)\<rparr>"

lemma signalModifiedKey_eq: "signalModifiedKey i key s = marked (watchers s i key) s"
  by (auto simp: signalModifiedKey_def touchWatchedKey_def watchers_def fold_mark_dirty marked_def split: option.split)

lemma marked_simps [simp]:
  "dbs (marked C s) = dbs s" "cfg (marked C s) = cfg s" "clients (marked C s) = clients s"
  "c_db (client_of (marked C s) c) = c_db (client_of s c)"
  "c_watched (client_of (marked C s) c) = c_watched (client_of s c)"
  "c_multi (client_of (marked C s) c) = c_multi (client_of s c)"
  "c_mstate (client_of (marked C s) c) = c_mstate (client_of s c)"
  "c_dirty_exec (client_of (marked C s) c) = c_dirty_exec (client_of s c)"
  "c_dirty_cas (client_of (marked C s) c) \<longleftrightarrow> c \<in> C \<or> c_dirty_cas (client_of s c)"
  by (simp_all add: marked_def)

lemma G_marked:
  assumes "G s0 X D s" "\<And>i k c. i < length (dbs s) \<Longrightarrow> (i, k) \<in> E \<Longrightarrow> c \<in> watchers s i k \<Longrightarrow> c \<in> C"
  shows "G s0 X (D \<union> E) (marked C s)"
proof -
  have r: "rel X D s0 s" and ok: "server_ok s" using assms(1) by (simp_all add: G_def)
  have "watch_ok (marked C s) = watch_ok s" by (intro watch_ok_cong) simp_all
  then have "server_ok (marked C s)" using ok by (simp add: server_ok_def)
  moreover have "watchers s0 i k = watchers s i k" if "i < length (dbs s)" for i k
    using r that by (simp add: rel_def watchers_def)
  moreover have "changed s0 (marked C s) = changed s0 s" by (intro ext) (simp add: changed_def)
  ultimately show ?thesis using r assms(2) by (auto simp: G_def rel_def)
qed

lemma G_signal:
  assumes "G s0 X D s"
  shows "G s0 X (insert (i, key) D) (signalModifiedKey i key s)"
  using G_marked [OF assms, of "{(i, key)}" "watchers s i key"] unfolding signalModifiedKey_eq by simp

lemma signal_simps [simp]:
  "dbs (signalModifiedKey i key s) = dbs s" "cfg (signalModifiedKey i key s) = cfg s"
  "c_db (client_of (signalModifiedKey i key s) c) = c_db (client_of s c)"
  by (simp_all add: signalModifiedKey_eq)

text \<open>All changed keys were signalled: this is how a command has to end.\<close>

lemma G_settle: "G s0 X D s \<Longrightarrow> X \<subseteq> D \<Longrightarrow> G s0 {} {} s"
  unfolding G_def rel_def by blast

lemma G_settle_dbs:
  assumes "G s0 X D s" "\<And>i k. i < length (dbs s0) \<Longrightarrow> (i, k) \<in> X \<Longrightarrow> (i, k) \<in> D"
  shows "G s0 {} {} s"
proof -
  have r: "rel X D s0 s" using assms(1) by (simp add: G_def)
  then have "\<forall>i < length (dbs s0). \<forall>k. (i, k) \<notin> {} \<and> \<not> is_expired s0 i k \<and> changed s0 s i k \<longrightarrow>
      (\<forall>c \<in> watchers s0 i k. c_dirty_cas (client_of s c))"
    using assms(2) unfolding rel_def by meson
  then show ?thesis using assms(1) unfolding G_def rel_def by (elim conjE) simp
qed

section \<open>Rules for the primitives\<close>

named_theorems wps

text \<open>A step that replaces database \<open>i\<close> and nothing else that matters.\<close>

definition updated :: "nat \<Rightarrow> redisDb \<Rightarrow> server \<Rightarrow> server \<Rightarrow> bool" where
  "updated i d s s' \<longleftrightarrow> dbs s' = (dbs s)[i := d] \<and> cfg s' = cfg s \<and> client_of s' = client_of s"

definition purge :: "key \<Rightarrow> redisDb \<Rightarrow> redisDb" where
  "purge key d = d\<lparr>db_expires := (db_expires d)(key := None), db_dict := (db_dict d)(key := None)\<rparr>"

text \<open>An access has deleted the key if it was expired.\<close>

definition looked :: "nat \<Rightarrow> key \<Rightarrow> server \<Rightarrow> server \<Rightarrow> bool" where
  "looked i key s s' \<longleftrightarrow>
     updated i (if is_expired s i key then purge key (dbs s ! i) else dbs s ! i) s s'"

lemma looked_length [simp]: "looked i key s s' \<Longrightarrow> length (dbs s') = length (dbs s)"
  by (simp add: looked_def updated_def)

lemma updated_length [simp]: "updated i d s s' \<Longrightarrow> length (dbs s') = length (dbs s)"
  by (simp add: updated_def)

lemma purge_simps [simp]:
  "db_dict (purge key d) = (db_dict d)(key := None)" "db_expires (purge key d) = (db_expires d)(key := None)"
  "db_watched (purge key d) = db_watched d"
  by (simp_all add: purge_def)

lemma same_but_simps [simp]:
  "same_but key d d" "same_but key d (purge key d)"
  "same_but key d (d\<lparr>db_dict := (db_dict d)(key := v)\<rparr>)"
  "same_but key d (d\<lparr>db_expires := (db_expires d)(key := w)\<rparr>)"
  by (simp_all add: same_but_def)

lemma db_ok_simps [simp]:
  "db_ok d \<Longrightarrow> db_ok (purge key d)"
  "db_ok d \<Longrightarrow> val_ok v \<Longrightarrow> db_ok (d\<lparr>db_dict := (db_dict d)(key \<mapsto> v)\<rparr>)"
  "db_ok d \<Longrightarrow> db_ok (d\<lparr>db_expires := (db_expires d)(key := None)\<rparr>)"
  "db_ok d \<Longrightarrow> db_dict d key \<noteq> None \<Longrightarrow> db_ok (d\<lparr>db_expires := (db_expires d)(key \<mapsto> w)\<rparr>)"
  by (auto simp: db_ok_def ran_def)

lemma db_ok_val: "db_ok d \<Longrightarrow> db_dict d key = Some v \<Longrightarrow> val_ok v"
  by (auto simp: db_ok_def ran_def)

lemma val_ok_simps [simp]:
  "val_ok (IntObj n)" "val_ok (Raw b) \<longleftrightarrow> length b \<le> STRING_MAX" "val_ok (Embstr b) \<longleftrightarrow> length b \<le> STRING_MAX"
  "val_ok (Aggregate t a)"
  using length_sdec [of n] by (simp_all add: val_ok_def)

lemma G_db:
  assumes "G s0 X D s"
  shows "i < length (dbs s) \<Longrightarrow> db_ok (dbs s ! i)" "c_db (client_of s c) < length (dbs s)"
    "cfg s = cfg s0" "length (dbs s) = length (dbs s0)"
  using assms unfolding G_def server_ok_def rel_def by blast+

lemma getExpire_eq:
  "db_ok (dbs s ! i) \<Longrightarrow> getExpire s i key = Some (case db_expires (dbs s ! i) key of None \<Rightarrow> -1 | Some w \<Rightarrow> w)"
  by (auto simp: getExpire_def db_ok_def split: option.split)

lemma getExpire_wp [wps]:
  "G s0 X D s \<Longrightarrow> i < length (dbs s) \<Longrightarrow> Q (case db_expires (dbs s ! i) key of None \<Rightarrow> -1 | Some w \<Rightarrow> w) \<Longrightarrow>
   wp (getExpire s i key) Q"
  using G_db(1) [of s0 X D s i] by (simp add: getExpire_eq)

lemma dbDelete_eq:
  assumes "db_ok (dbs s ! i)"
  shows "\<exists>s'. dbDelete i key s = (s', db_dict (dbs s ! i) key \<noteq> None) \<and> updated i (purge key (dbs s ! i)) s s' \<and>
    (s' = set_db i (purge key (dbs s ! i)) s \<or> s' = log_call (SlotToKeyDel key) (set_db i (purge key (dbs s ! i)) s))"
proof (cases "db_dict (dbs s ! i) key")
  case None
  then have "(dbs s ! i)\<lparr>db_expires := (db_expires (dbs s ! i))(key := None)\<rparr> = purge key (dbs s ! i)"
    by (intro redisDb.equality) (simp_all add: fun_upd_idem)
  then show ?thesis using None by (simp add: dbDelete_def Let_def updated_def set_db_def)
next
  case (Some v)
  then show ?thesis by (simp add: dbDelete_def Let_def updated_def set_db_def log_call_def purge_def)
qed

lemma dbDelete_G:
  assumes "G s0 X D s" "i < length (dbs s)"
  shows "\<exists>s'. dbDelete i key s = (s', db_dict (dbs s ! i) key \<noteq> None) \<and> updated i (purge key (dbs s ! i)) s s' \<and>
    G s0 (insert (i, key) X) D s' \<and> (is_expired s i key \<longrightarrow> G s0 X D s')"
proof -
  let ?t = "set_db i (purge key (dbs s ! i)) s"
  have ok: "db_ok (dbs s ! i)" by (rule G_db(1) [OF assms])
  obtain s' where s': "dbDelete i key s = (s', db_dict (dbs s ! i) key \<noteq> None)" "updated i (purge key (dbs s ! i)) s s'"
    "s' = ?t \<or> s' = log_call (SlotToKeyDel key) ?t"
    using dbDelete_eq [OF ok] by blast
  have "G s0 (insert (i, key) X) D ?t" "is_expired s i key \<Longrightarrow> G s0 X D ?t"
    by (intro G_write [OF assms] G_purge [OF assms]; simp add: ok)+
  then show ?thesis using s' by (metis G_quiet(3))
qed

lemma is_expired_cong:
  "cfg s' = cfg s \<Longrightarrow> db_expires (dbs s' ! i) key = db_expires (dbs s ! i) key \<Longrightarrow> is_expired s' i key = is_expired s i key"
  by (simp add: is_expired_def)

lemma expireIfNeeded_wp [wps]:
  assumes g: "G s0 X D s" and i: "i < length (dbs s)"
    and Q: "\<And>s' b. G s0 X D s' \<Longrightarrow> looked i key s s' \<Longrightarrow> \<not> is_expired s' i key \<Longrightarrow>
      (b \<longrightarrow> is_expired s i key \<or> masterhost (cfg s)) \<Longrightarrow> Q (s', b)"
  shows "wp (expireIfNeeded i key s) Q"
proof (cases "is_expired s i key")
  case True
  then obtain w where w: "db_expires (dbs s ! i) key = Some w" "\<not> sint w < 0" "\<not> loading (cfg s)" "\<not> masterhost (cfg s)"
    "\<not> sint (expire_clock (cfg s)) \<le> sint w" by (auto simp: is_expired_def)
  define t where "t = notifyKeyspaceEvent NOTIFY_EXPIRED ''expired'' key i
      (propagateExpire i key (s\<lparr>stat_expiredkeys := stat_expiredkeys s + 1\<rparr>))"
  have t: "G s0 X D t" "dbs t = dbs s" "cfg t = cfg s" "client_of t = client_of s" using g by (auto simp: t_def)
  have et: "is_expired t i key" using True t by (simp add: is_expired_def)
  obtain s' where s': "dbDelete i key t = (s', db_dict (dbs t ! i) key \<noteq> None)"
    "updated i (purge key (dbs t ! i)) t s'" "G s0 X D s'"
    using dbDelete_G [OF t(1)] i et t(2) by (metis (no_types, lifting))
  have "expireIfNeeded i key s = Some (s', db_dict (dbs t ! i) key \<noteq> None)"
    using w getExpire_eq [OF G_db(1) [OF g i]] s'(1) by (simp add: expireIfNeeded_def t_def Let_def)
  moreover have "looked i key s s'" using True s'(2) t by (simp add: looked_def updated_def)
  moreover have "\<not> is_expired s' i key" using s'(2) i t by (simp add: is_expired_def updated_def)
  ultimately show ?thesis using Q s'(3) True by simp
next
  case False
  have l: "looked i key s s" using False by (simp add: looked_def updated_def)
  have "\<exists>b. expireIfNeeded i key s = Some (s, b) \<and> (b \<longrightarrow> masterhost (cfg s))"
    using False getExpire_eq [OF G_db(1) [OF g i], of key]
    by (auto simp: expireIfNeeded_def is_expired_def Let_def not_less split: option.splits)
  then show ?thesis using Q [OF g l False] by auto
qed

lemma lookupKeyWrite_wp [wps]:
  assumes "G s0 X D s" "i < length (dbs s)"
    and "\<And>s'. G s0 X D s' \<Longrightarrow> looked i key s s' \<Longrightarrow> \<not> is_expired s' i key \<Longrightarrow> Q (s', db_dict (dbs s' ! i) key)"
  shows "wp (lookupKeyWrite i key s) Q"
  unfolding lookupKeyWrite_def wp_simps
  by (rule expireIfNeeded_wp [OF assms(1,2)]) (use assms(3) in \<open>simp add: lookupKey_def\<close>)

lemma lookupKeyRead_wp [wps]:
  assumes "G s0 X D s" "i < length (dbs s)"
    and "\<And>s' val. G s0 X D s' \<Longrightarrow> looked i key s s' \<Longrightarrow> \<not> is_expired s' i key \<Longrightarrow>
      (val = db_dict (dbs s' ! i) key \<or> val = None \<and> masterhost (cfg s)) \<Longrightarrow> Q (s', val)"
  shows "wp (lookupKeyRead i key s) Q"
  unfolding lookupKeyRead_def wp_simps
proof (rule expireIfNeeded_wp [OF assms(1,2)])
  fix s' b
  assume g: "G s0 X D s'" and l: "looked i key s s'" and e: "\<not> is_expired s' i key"
    and b: "b \<longrightarrow> is_expired s i key \<or> masterhost (cfg s)"
  have st: "looked i key s (s'\<lparr>stat_hits := n\<rparr>)" "looked i key s (s'\<lparr>stat_misses := n\<rparr>)"
    "\<not> is_expired (s'\<lparr>stat_hits := n\<rparr>) i key" "\<not> is_expired (s'\<lparr>stat_misses := n\<rparr>) i key"
    "G s0 X D (s'\<lparr>stat_hits := n\<rparr>)" "G s0 X D (s'\<lparr>stat_misses := n\<rparr>)" for n
    using l e g by (auto simp: looked_def updated_def is_expired_def)
  have "Q (s', None)" if "b"
  proof (rule assms(3) [OF g l e])
    show "None = db_dict (dbs s' ! i) key \<or> (None :: robj option) = None \<and> masterhost (cfg s)"
      using b that l assms(2) by (auto simp: looked_def updated_def is_expired_def)
  qed
  moreover have "Q (s'\<lparr>stat_misses := stat_misses s' + 1\<rparr>, None)" if "db_dict (dbs s' ! i) key = None"
    using assms(3) [OF st(6,2,4), of None] that by simp
  moreover have "Q (s'\<lparr>stat_hits := stat_hits s' + 1\<rparr>, db_dict (dbs s' ! i) key)"
    using assms(3) [OF st(5,1,3), of "db_dict (dbs s' ! i) key"] by simp
  ultimately show "wp (case (s', b) of (s, expired) \<Rightarrow>
      if expired \<and> (\<not> masterhost (cfg s) \<or> ro_caller (cfg s)) then Some (s, None)
      else let val = lookupKey s i key in
        if val = None then Some (s\<lparr>stat_misses := stat_misses s + 1\<rparr>, None)
        else Some (s\<lparr>stat_hits := stat_hits s + 1\<rparr>, val)) Q"
    by (auto simp: Let_def lookupKey_def)
qed

lemma updated_G:
  "updated i d s (set_db i d s)" "updated i d s s' \<Longrightarrow> updated i d s (log_call x s')"
  by (simp_all add: updated_def set_db_def log_call_def)

lemma dbAdd_wp [wps]:
  assumes "G s0 X D s" "i < length (dbs s)" "db_dict (dbs s ! i) key = None" "val_ok val"
    and "\<And>s'. G s0 (insert (i, key) X) D s' \<Longrightarrow>
      updated i ((dbs s ! i)\<lparr>db_dict := (db_dict (dbs s ! i))(key \<mapsto> val)\<rparr>) s s' \<Longrightarrow> Q s'"
  shows "wp (dbAdd i key val s) Q"
proof -
  let ?d = "(dbs s ! i)\<lparr>db_dict := (db_dict (dbs s ! i))(key \<mapsto> val)\<rparr>"
  have "G s0 (insert (i, key) X) D (set_db i ?d s)"
    by (rule G_write [OF assms(1,2)]) (use G_db(1) [OF assms(1,2)] assms(4) in simp_all)
  then show ?thesis
    using assms(3) by (auto simp: dbAdd_def Let_def intro!: assms(5) updated_G)
qed

lemma dbOverwrite_wp [wps]:
  assumes "G s0 X D s" "i < length (dbs s)" "db_dict (dbs s ! i) key \<noteq> None" "val_ok val"
    and "\<And>s'. G s0 (insert (i, key) X) D s' \<Longrightarrow>
      updated i ((dbs s ! i)\<lparr>db_dict := (db_dict (dbs s ! i))(key \<mapsto> val)\<rparr>) s s' \<Longrightarrow> Q s'"
  shows "wp (dbOverwrite i key val s) Q"
proof -
  let ?d = "(dbs s ! i)\<lparr>db_dict := (db_dict (dbs s ! i))(key \<mapsto> val)\<rparr>"
  have "G s0 (insert (i, key) X) D (set_db i ?d s)"
    by (rule G_write [OF assms(1,2)]) (use G_db(1) [OF assms(1,2)] assms(4) in simp_all)
  then show ?thesis
    using assms(3) by (auto simp: dbOverwrite_def Let_def intro!: assms(5) updated_G)
qed

lemma setExpire_wp [wps]:
  assumes "G s0 X D s" "i < length (dbs s)" "db_dict (dbs s ! i) key \<noteq> None"
    and "\<And>s'. G s0 (insert (i, key) X) D s' \<Longrightarrow>
      updated i ((dbs s ! i)\<lparr>db_expires := (db_expires (dbs s ! i))(key \<mapsto> when)\<rparr>) s s' \<Longrightarrow> Q s'"
  shows "wp (setExpire i key when s) Q"
proof -
  let ?d = "(dbs s ! i)\<lparr>db_expires := (db_expires (dbs s ! i))(key \<mapsto> when)\<rparr>"
  have "G s0 (insert (i, key) X) D (set_db i ?d s)"
    by (rule G_write [OF assms(1,2)]) (use G_db(1) [OF assms(1,2)] assms(3) in simp_all)
  then show ?thesis
    using assms(3) by (auto simp: setExpire_def Let_def intro!: assms(4) updated_G)
qed

lemma removeExpire_wp [wps]:
  assumes "G s0 X D s" "i < length (dbs s)" "db_dict (dbs s ! i) key \<noteq> None"
    and "\<And>s'. G s0 (insert (i, key) X) D s' \<Longrightarrow>
      updated i ((dbs s ! i)\<lparr>db_expires := (db_expires (dbs s ! i))(key := None)\<rparr>) s s' \<Longrightarrow>
      Q (s', db_expires (dbs s ! i) key \<noteq> None)"
  shows "wp (removeExpire i key s) Q"
proof -
  let ?d = "(dbs s ! i)\<lparr>db_expires := (db_expires (dbs s ! i))(key := None)\<rparr>"
  have "G s0 (insert (i, key) X) D (set_db i ?d s)"
    by (rule G_write [OF assms(1,2)]) (use G_db(1) [OF assms(1,2)] in simp_all)
  then show ?thesis
    using assms(3) assms(4) [of "set_db i ?d s"] updated_G(1) by (simp add: removeExpire_def Let_def)
qed

text \<open>After \<^verbatim>\<open>setKey\<close> the key holds the value, without expire time, and its watchers are marked.\<close>

definition stored :: "nat \<Rightarrow> key \<Rightarrow> robj \<Rightarrow> server \<Rightarrow> server \<Rightarrow> bool" where
  "stored i key val s s' \<longleftrightarrow> cfg s' = cfg s \<and> (\<forall>c. c_db (client_of s' c) = c_db (client_of s c)) \<and>
     dbs s' = (dbs s)[i := (dbs s ! i)\<lparr>db_dict := (db_dict (dbs s ! i))(key \<mapsto> val),
       db_expires := (db_expires (dbs s ! i))(key := None)\<rparr>]"

lemma looked_db:
  assumes "looked i key s s'" "i < length (dbs s)"
  shows "dbs s' ! i = (if is_expired s i key then purge key (dbs s ! i) else dbs s ! i)"
    "db_dict (dbs s' ! i) k = (if is_expired s i key \<and> k = key then None else db_dict (dbs s ! i) k)"
    "db_expires (dbs s' ! i) k = (if is_expired s i key \<and> k = key then None else db_expires (dbs s ! i) k)"
    "dbs s' = (dbs s)[i := dbs s' ! i]" "cfg s' = cfg s" "client_of s' = client_of s"
  using assms by (auto simp: looked_def updated_def)

lemma setKey_wp [wps]:
  assumes g: "G s0 X D s" and i: "i < length (dbs s)" and v: "val_ok val"
    and Q: "\<And>s'. G s0 (insert (i, key) X) (insert (i, key) D) s' \<Longrightarrow> stored i key val s s' \<Longrightarrow> Q s'"
  shows "wp (setKey i key val s) Q"
  unfolding setKey_def wp_simps
proof (rule lookupKeyWrite_wp [OF g i])
  fix s1 assume g1: "G s0 X D s1" and l1: "looked i key s s1"
  note d1 = looked_db [OF l1 i]
  have i1: "i < length (dbs s1)" using l1 i by simp
  let ?d2 = "(dbs s1 ! i)\<lparr>db_dict := (db_dict (dbs s1 ! i))(key \<mapsto> val)\<rparr>"
  have cont: "wp (removeExpire i key s2) (\<lambda>x. wp (case x of (s, _) \<Rightarrow> Some (signalModifiedKey i key s)) Q)"
    if g2: "G s0 (insert (i, key) X) D s2" and u2: "updated i ?d2 s1 s2" for s2
  proof (rule removeExpire_wp [OF g2])
    show "i < length (dbs s2)" "db_dict (dbs s2 ! i) key \<noteq> None" using u2 i1 by (simp_all add: updated_def)
    fix s3 assume g3: "G s0 (insert (i, key) (insert (i, key) X)) D s3"
      and u3: "updated i ((dbs s2 ! i)\<lparr>db_expires := (db_expires (dbs s2 ! i))(key := None)\<rparr>) s2 s3"
    have "dbs s3 = (dbs s)[i := ?d2\<lparr>db_expires := (db_expires (dbs s1 ! i))(key := None)\<rparr>]"
      using u3 u2 i1 d1(4) by (simp add: updated_def) (metis list_update_overwrite)
    also have "?d2\<lparr>db_expires := (db_expires (dbs s1 ! i))(key := None)\<rparr> =
        (dbs s ! i)\<lparr>db_dict := (db_dict (dbs s ! i))(key \<mapsto> val), db_expires := (db_expires (dbs s ! i))(key := None)\<rparr>"
      using d1(1) by (intro redisDb.equality) (auto simp: purge_def)
    finally have "stored i key val s (signalModifiedKey i key s3)"
      using u2 u3 d1(5,6) by (simp add: stored_def updated_def)
    moreover have "G s0 (insert (i, key) X) (insert (i, key) D) (signalModifiedKey i key s3)"
      using G_signal [OF g3] by simp
    ultimately show "wp (case (s3, db_expires (dbs s2 ! i) key \<noteq> None) of (s, _) \<Rightarrow> Some (signalModifiedKey i key s)) Q"
      using Q by simp
  qed
  show "wp (case (s1, db_dict (dbs s1 ! i) key) of (s, old) \<Rightarrow>
      (if old = None then dbAdd i key val s else dbOverwrite i key val s) \<bind> (\<lambda>s.
        removeExpire i key s \<bind> (\<lambda>(s, _). Some (signalModifiedKey i key s)))) Q"
  proof (cases "db_dict (dbs s1 ! i) key = None")
    case True
    then show ?thesis using dbAdd_wp [OF g1 i1 True v] cont by auto
  next
    case False
    then show ?thesis using dbOverwrite_wp [OF g1 i1 False v] cont by auto
  qed
qed

section \<open>Rules for the commands\<close>

text \<open>A change of several databases at once.\<close>

lemma G_dbs:
  assumes g: "G s0 X D s" and c: "cfg s' = cfg s" "clients s' = clients s" "client_of s' = client_of s"
    and l: "length (dbs s') = length (dbs s)"
    and d: "\<And>i. i < length (dbs s) \<Longrightarrow> db_watched (dbs s' ! i) = db_watched (dbs s ! i) \<and> db_ok (dbs s' ! i)"
  shows "G s0 (X \<union> {(i, k). changed s s' i k}) D s'"
proof -
  have r: "rel X D s0 s" and ok: "server_ok s" using g by (simp_all add: G_def)
  have "watch_ok s' = watch_ok s" using c l d by (intro watch_ok_cong) auto
  then have "server_ok s'" using ok c l d by (simp add: server_ok_def)
  moreover have "changed s0 s i k" if "changed s0 s' i k" "\<not> changed s s' i k" for i k
    using that by (auto simp: changed_def)
  then have "\<forall>i < length (dbs s0). \<forall>k. (i, k) \<notin> X \<union> {(i, k). changed s s' i k} \<and> \<not> is_expired s0 i k \<and>
      changed s0 s' i k \<longrightarrow> (\<forall>c \<in> watchers s0 i k. c_dirty_cas (client_of s c))"
    using rel_changedD [OF r] by blast
  ultimately show ?thesis using r c l d unfolding G_def rel_def by (elim conjE) simp
qed

lemma lookupReadOrReply_wp [wps]:
  assumes "G s0 X D s"
    and "\<And>s' val. G s0 X D s' \<Longrightarrow> dbs s' = (dbs s)[c_db (client_of s c) := dbs s' ! c_db (client_of s c)] \<Longrightarrow>
      (\<forall>d. c_db (client_of s' d) = c_db (client_of s d)) \<Longrightarrow>
      (val \<noteq> None \<Longrightarrow> val = db_dict (dbs s' ! c_db (client_of s c)) key) \<Longrightarrow> Q (s', val)"
  shows "wp (lookupKeyReadOrReply c key r s) Q"
  unfolding lookupKeyReadOrReply_def wp_simps
proof (rule lookupKeyRead_wp [OF assms(1) G_db(2) [OF assms(1)]])
  fix s' val
  assume g: "G s0 X D s'" and l: "looked (c_db (client_of s c)) key s s'"
    and v: "val = db_dict (dbs s' ! c_db (client_of s c)) key \<or> val = None \<and> masterhost (cfg s)"
  note d = looked_db [OF l G_db(2) [OF assms(1)]]
  show "wp (case (s', val) of (s, val) \<Rightarrow> Some (if val = None then addReply c r s else s, val)) Q"
  proof -
    have a: "G s0 X D (addReply c r s')" using g by blast
    have "Q (s', val)" by (rule assms(2) [OF g d(4)]) (use d(6) v in auto)
    moreover have "Q (addReply c r s', val)"
      by (rule assms(2) [OF a]) (use d(4) d(6) v in auto)
    ultimately show ?thesis by auto
  qed
qed

lemma lookupWriteOrReply_wp [wps]:
  assumes "G s0 X D s"
    and "\<And>s'. G s0 X D s' \<Longrightarrow> dbs s' = (dbs s)[c_db (client_of s c) := dbs s' ! c_db (client_of s c)] \<Longrightarrow>
      (\<forall>d. c_db (client_of s' d) = c_db (client_of s d)) \<Longrightarrow> Q (s', db_dict (dbs s' ! c_db (client_of s c)) key)"
  shows "wp (lookupKeyWriteOrReply c key r s) Q"
  unfolding lookupKeyWriteOrReply_def wp_simps
proof (rule lookupKeyWrite_wp [OF assms(1) G_db(2) [OF assms(1)]])
  fix s' assume g: "G s0 X D s'" and l: "looked (c_db (client_of s c)) key s s'"
  note d = looked_db [OF l G_db(2) [OF assms(1)]]
  show "wp (case (s', db_dict (dbs s' ! c_db (client_of s c)) key) of
      (s, val) \<Rightarrow> Some (if val = None then addReply c r s else s, val)) Q"
  proof -
    have a: "G s0 X D (addReply c r s')" using g by blast
    have "Q (s', db_dict (dbs s' ! c_db (client_of s c)) key)"
      by (rule assms(2) [OF g d(4)]) (use d(6) in simp)
    moreover have "Q (addReply c r s', db_dict (dbs (addReply c r s') ! c_db (client_of s c)) key)"
      by (rule assms(2) [OF a]) (use d(4) d(6) in simp_all)
    ultimately show ?thesis by auto
  qed
qed

lemma arg_obj_long: "getLongLongFromObject (Some (arg_obj argv j)) = Some (string2ll (argv ! j))"
  by (simp add: arg_obj_def getLongLong_bytes)

text \<open>Reading an integer argument only adds a reply.\<close>

lemma getLongLong_wp [wps]:
  assumes "G s0 X D s" "getLongLongFromObject obj = Some r"
    and "\<And>s'. G s0 X D s' \<Longrightarrow> dbs s' = dbs s \<Longrightarrow> cfg s' = cfg s \<Longrightarrow>
      (\<forall>d. c_db (client_of s' d) = c_db (client_of s d)) \<Longrightarrow> Q (s', r)"
  shows "wp (getLongLongOrReply c obj msg s) Q"
  using assms(2) assms(3) [of s] assms(3) [of "addReply c e s" for e] assms(1)
  by (auto simp: getLongLongOrReply_def split: option.split)

lemma getLong_OrReply_eq: "getLongOrReply c obj msg s = getLongLongOrReply c obj msg s"
proof -
  have "\<not> (sint w < - (2 ^ 63) \<or> sint w > 2 ^ 63 - 1)" for w :: int64
    using sint_ge [of w] sint_lt [of w] by simp
  then have e: "(case r of None \<Rightarrow> (t, None)
       | Some v \<Rightarrow> if sint v < - (2 ^ 63) \<or> sint v > 2 ^ 63 - 1
           then (addReply c (ErrorReply (case msg of Some m \<Rightarrow> m | None \<Rightarrow> ''value is out of range'')) t, None)
           else (t, Some v)) = (t, r)" for t and r :: "int64 option"
    by (cases r) (simp_all only: option.case if_False)
  show ?thesis unfolding getLongOrReply_def e by (cases "getLongLongOrReply c obj msg s") auto
qed

lemma selectDb_G:
  assumes "G s0 X D s"
  shows "\<exists>s' ok. selectDb c dbid s = (s', ok) \<and> G s0 X D s' \<and> dbs s' = dbs s \<and> cfg s' = cfg s \<and>
    (ok \<longleftrightarrow> 0 \<le> dbid \<and> dbid < int (length (dbs s))) \<and>
    (\<forall>d. c_db (client_of s' d) = (if ok \<and> d = c then nat dbid else c_db (client_of s d)))"
proof (cases "dbid < 0 \<or> dbid \<ge> int (length (dbs s))")
  case True
  then show ?thesis using assms by (auto simp: selectDb_def)
next
  case False
  let ?s = "s\<lparr>client_of := (client_of s)(c := (client_of s c)\<lparr>c_db := nat dbid\<rparr>)\<rparr>"
  have "watch_ok ?s = watch_ok s" by (intro watch_ok_cong) simp_all
  moreover have "nat dbid < length (dbs s)" using False by linarith
  ultimately have "server_ok ?s" using assms by (simp add: G_def server_ok_def)
  moreover have "changed s0 ?s = changed s0 s" by (intro ext) (simp add: changed_def)
  ultimately have "G s0 X D ?s" using assms by (simp add: G_def rel_def)
  then show ?thesis using False by (auto simp: selectDb_def)
qed

end
