(* ===== verification/DbCommands.thy ===== *)
theory DbCommands
  imports Keyspace
begin

text \<open>
  The commands of \<^verbatim>\<open>db.c\<close> keep the server invariant, never fail an assertion and mark the
  clients that watch a key they change. MOVE and PERSIST are the exceptions: they keep the invariant
  but change a key, or its expire time, without marking its watchers.
\<close>

section \<open>Deletion, existence, flushing\<close>

lemma dbDelete_signal:
  assumes "G s0 {} {} s" "i < length (dbs s)" "dbDelete i key s = (s', True)"
  shows "G s0 {} {} (signalModifiedKey i key s')" "length (dbs s') = length (dbs s)"
proof -
  have "G s0 {(i, key)} {} s'" "updated i (purge key (dbs s ! i)) s s'"
    using dbDelete_G [OF assms(1,2), of key] assms(3) by auto
  then show "G s0 {} {} (signalModifiedKey i key s')" "length (dbs s') = length (dbs s)"
    using G_settle [OF G_signal [of s0 "{(i, key)}" "{}" s' i key]] by auto
qed

lemma dbDelete_absent:
  assumes "G s0 X D s" "i < length (dbs s)" "dbDelete i key s = (s', False)"
  shows "G s0 X D s'" "length (dbs s') = length (dbs s)"
proof -
  have n: "db_dict (dbs s ! i) key = None" and u: "updated i (purge key (dbs s ! i)) s s'"
    using dbDelete_G [OF assms(1,2), of key] assms(3) by auto
  then have e: "db_expires (dbs s ! i) key = None"
    using G_db(1) [OF assms(1,2)] by (auto simp: db_ok_def)
  have "purge key (dbs s ! i) = dbs s ! i"
    using n e by (intro redisDb.equality) (simp_all add: fun_upd_idem)
  then have "s' = s" using n e assms(3) by (simp add: dbDelete_def Let_def set_db_def fun_upd_idem)
  then show "G s0 X D s'" "length (dbs s') = length (dbs s)" using assms(1) by simp_all
qed

lemma del_loop_wp:
  "G s0 {} {} s \<Longrightarrow> i < length (dbs s) \<Longrightarrow> wp (del_loop i keys n s) (\<lambda>(s', _). G s0 {} {} s')"
proof (induction keys arbitrary: n s)
  case (Cons key keys)
  show ?case
    unfolding del_loop.simps wp_simps
  proof (rule expireIfNeeded_wp [OF Cons.prems])
    fix s1 b assume g: "G s0 {} {} s1" and l: "looked i key s s1"
    have i: "i < length (dbs s1)" using l Cons.prems(2) by simp
    obtain s2 ok where d: "dbDelete i key s1 = (s2, ok)" by (cases "dbDelete i key s1")
    show "wp (case (s1, b) of (s, _) \<Rightarrow> let (s, ok) = dbDelete i key s in
        if ok then let s = signalModifiedKey i key s;
           s = notifyKeyspaceEvent NOTIFY_GENERIC ''del'' key i s; s = add_dirty 1 s
          in del_loop i keys (n + 1) s else del_loop i keys n s) (\<lambda>(s', _). G s0 {} {} s')"
    proof (cases ok)
      case True
      then have d': "dbDelete i key s1 = (s2, True)" using d by simp
      note a = dbDelete_signal [OF g i d']
      have "G s0 {} {} (add_dirty 1 (notifyKeyspaceEvent NOTIFY_GENERIC ''del'' key i (signalModifiedKey i key s2)))"
        using a(1) by blast
      then show ?thesis using Cons.IH a(2) i d True by (simp add: Let_def)
    next
      case False
      then show ?thesis using dbDelete_absent [OF g i] d Cons.IH i by (simp add: Let_def)
    qed
  qed
qed simp

lemma delCommand_wp: "G s0 {} {} s \<Longrightarrow> wp (delCommand c argv s) (G s0 {} {})"
  unfolding delCommand_def wp_simps
  by (rule wp_mono [OF del_loop_wp]) (auto intro: G_db(2))

lemma exists_loop_wp:
  "G s0 {} {} s \<Longrightarrow> i < length (dbs s) \<Longrightarrow> wp (exists_loop i keys n s) (\<lambda>(s', _). G s0 {} {} s')"
proof (induction keys arbitrary: n s)
  case (Cons key keys)
  show ?case
    unfolding exists_loop.simps wp_simps
    by (rule expireIfNeeded_wp [OF Cons.prems]) (use Cons in simp)
qed simp

lemma existsCommand_wp: "G s0 {} {} s \<Longrightarrow> wp (existsCommand c argv s) (G s0 {} {})"
  unfolding existsCommand_def wp_simps
  by (rule wp_mono [OF exists_loop_wp]) (auto intro: G_db(2))

lemma touch_loop_wp:
  "G s0 {} {} s \<Longrightarrow> i < length (dbs s) \<Longrightarrow> wp (touch_loop i keys n s) (\<lambda>(s', _). G s0 {} {} s')"
proof (induction keys arbitrary: n s)
  case (Cons key keys)
  show ?case
    unfolding touch_loop.simps wp_simps
    by (rule lookupKeyRead_wp [OF Cons.prems]) (use Cons in simp)
qed simp

lemma touchCommand_wp: "G s0 {} {} s \<Longrightarrow> wp (touchCommand c argv s) (G s0 {} {})"
  unfolding touchCommand_def wp_simps
  by (rule wp_mono [OF touch_loop_wp]) (auto intro: G_db(2))

lemma flush_eq:
  "touchWatchedKeysOnFlush dbid s = marked {c \<in> set (clients s). flush_touches dbid s c} s"
proof -
  have "fold (\<lambda>c t. if P c then mark_dirty c t else t) l t = marked {c \<in> set l. P c} t" for P l t
  proof (induction l arbitrary: t)
    case (Cons a l)
    then show ?case by (cases "P a") (auto simp: mark_dirty_def marked_def fun_eq_iff)
  qed (simp add: marked_def)
  then show ?thesis unfolding touchWatchedKeysOnFlush_def .
qed

text \<open>Flushing marks the watchers of every key that will go.\<close>

lemma G_flush:
  assumes g: "G s0 X D s"
  shows "G s0 X (D \<union> {(i, k). (dbid = None \<or> dbid = Some i) \<and> db_dict (dbs s ! i) k \<noteq> None}) (signalFlushedDb dbid s)"
  unfolding signalFlushedDb_def flush_eq
proof (rule G_marked [OF g])
  fix i k c
  assume i: "i < length (dbs s)" and k: "(i, k) \<in> {(i, k). (dbid = None \<or> dbid = Some i) \<and> db_dict (dbs s ! i) k \<noteq> None}"
    and c: "c \<in> watchers s i k"
  have w: "watch_ok s" using g by (simp add: G_def server_ok_def)
  then have ik: "(i, k) \<in> set (c_watched (client_of s c))" using i c unfolding watch_ok_def by blast
  then have "c \<in> set (clients s)" using w unfolding watch_ok_def by (metis empty_iff empty_set)
  moreover have "flush_touches dbid s c" unfolding flush_touches_def using ik k by blast
  ultimately show "c \<in> {c \<in> set (clients s). flush_touches dbid s c}" by simp
qed

lemma signalFlushedDb_simps [simp]:
  "dbs (signalFlushedDb dbid s) = dbs s" "cfg (signalFlushedDb dbid s) = cfg s"
  by (simp_all add: signalFlushedDb_def flush_eq)

lemma db_ok_empty [simp]: "db_ok (d\<lparr>db_dict := Map.empty, db_expires := Map.empty\<rparr>)"
  by (simp add: db_ok_def ran_def)

text \<open>Emptying databases changes the keys that were there, and no others.\<close>

lemma changed_empty:
  assumes "db_ok (dbs s ! i)" "dbs s' ! i = (dbs s ! i)\<lparr>db_dict := Map.empty, db_expires := Map.empty\<rparr>"
  shows "changed s s' i k \<Longrightarrow> db_dict (dbs s ! i) k \<noteq> None"
  using assms by (cases "db_expires (dbs s ! i) k") (auto simp: changed_def db_ok_def)

lemma flushdbCommand_wp:
  assumes g: "G s0 {} {} s"
  shows "wp (flushdbCommand c argv s) (G s0 {} {})"
proof -
  let ?i = "c_db (client_of s c)"
  define s1 where "s1 = signalFlushedDb (Some ?i) (add_dirty (int (card (dom (db_dict (dbs s ! ?i))))) s)"
  define s2 where "s2 = set_db ?i ((dbs s1 ! ?i)\<lparr>db_dict := Map.empty, db_expires := Map.empty\<rparr>) s1"
  have i: "?i < length (dbs s)" by (rule G_db(2) [OF g])
  have d1: "dbs s1 = dbs s" by (simp add: s1_def)
  have "G s0 {} {} (add_dirty (int (card (dom (db_dict (dbs s ! ?i))))) s)" using g by blast
  from G_flush [OF this, of "Some ?i"]
  have g1: "G s0 {} {(i, k). i = ?i \<and> db_dict (dbs s ! i) k \<noteq> None} s1" by (simp add: s1_def eq_commute)
  have "G s0 ({} \<union> {(i, k). changed s1 s2 i k}) {(i, k). i = ?i \<and> db_dict (dbs s ! i) k \<noteq> None} s2"
  proof (rule G_dbs [OF g1])
    fix j assume "j < length (dbs s1)"
    then show "db_watched (dbs s2 ! j) = db_watched (dbs s1 ! j) \<and> db_ok (dbs s2 ! j)"
      using G_db(1) [OF g1] by (cases "j = ?i") (simp_all add: s2_def)
  qed (simp_all add: s2_def)
  moreover have "changed s1 s2 j k \<Longrightarrow> j = ?i \<and> db_dict (dbs s ! j) k \<noteq> None" for j k
  proof (cases "j = ?i")
    case True
    assume c: "changed s1 s2 j k"
    have "db_ok (dbs s1 ! ?i)" "dbs s2 ! ?i = (dbs s1 ! ?i)\<lparr>db_dict := Map.empty, db_expires := Map.empty\<rparr>"
      using G_db(1) [OF g1] i d1 by (simp_all add: s2_def)
    then show ?thesis using changed_empty c True d1 by metis
  qed (simp add: changed_def s2_def)
  ultimately have "G s0 {} {} s2" by (intro G_settle) auto
  then show ?thesis by (auto simp: flushdbCommand_def Let_def s1_def [symmetric] s2_def [symmetric])
qed

lemma flushallCommand_wp:
  assumes g: "G s0 {} {} s"
  shows "wp (flushallCommand c argv s) (G s0 {} {})"
proof -
  let ?e = "\<lambda>d. d\<lparr>db_dict := Map.empty, db_expires := Map.empty\<rparr>"
  define s1 where "s1 = signalFlushedDb None s"
  define s2 where "s2 = s1\<lparr>dbs := map ?e (dbs s1)\<rparr>"
  have d1: "dbs s1 = dbs s" by (simp add: s1_def)
  have g1: "G s0 {} {(i, k). db_dict (dbs s ! i) k \<noteq> None} s1"
    using G_flush [OF g, of None] by (simp add: s1_def)
  have l: "length (dbs s1) = length (dbs s0)" by (rule G_db(4) [OF g1])
  have "G s0 ({} \<union> {(i, k). changed s1 s2 i k}) {(i, k). db_dict (dbs s ! i) k \<noteq> None} s2"
    by (rule G_dbs [OF g1]) (simp_all add: s2_def)
  then have "G s0 {} {} s2"
  proof -
    assume r: "G s0 ({} \<union> {(i, k). changed s1 s2 i k}) {(i, k). db_dict (dbs s ! i) k \<noteq> None} s2"
    have "db_dict (dbs s ! i) k \<noteq> None" if "changed s1 s2 i k" "i < length (dbs s1)" for i k
    proof -
      have "db_ok (dbs s1 ! i)" "dbs s2 ! i = ?e (dbs s1 ! i)"
        using G_db(1) [OF g1] that(2) by (simp_all add: s2_def)
      then show ?thesis using changed_empty that(1) d1 by metis
    qed
    then show ?thesis using G_settle_dbs [OF r] l by auto
  qed
  moreover have "\<exists>n. emptyDb s1 = (if cluster_enabled (cfg s1) then log_call SlotToKeyFlush s2 else s2, n)"
    by (simp add: emptyDb_def s2_def Let_def)
  ultimately show ?thesis by (auto simp: flushallCommand_def Let_def s1_def [symmetric])
qed

section \<open>Selection, types, expire times\<close>

lemma selectCommand_wp:
  assumes g: "G s0 {} {} s"
  shows "wp (selectCommand c argv s) (G s0 {} {})"
  unfolding selectCommand_def wp_simps getLong_OrReply_eq
proof (rule getLongLong_wp [OF g arg_obj_long])
  fix s1 assume g1: "G s0 {} {} s1"
  show "wp (case (s1, string2ll (argv ! 1)) of (s, r) \<Rightarrow>
      (case r of None \<Rightarrow> Some s | Some dbid \<Rightarrow>
         if cluster_enabled (cfg s) \<and> dbid \<noteq> 0
         then Some (addReply c (ErrorReply ''SELECT is not allowed in cluster mode'') s)
         else (case selectDb c (sint (ucast dbid :: uint32)) s of
             (s, False) \<Rightarrow> Some (addReply c (ErrorReply ''invalid DB index'') s)
           | (s, True) \<Rightarrow> Some (addReply c OkReply s)))) (G s0 {} {})"
  proof (cases "string2ll (argv ! 1)")
    case None
    then show ?thesis using g1 by simp
  next
    case (Some dbid)
    obtain s2 ok where "selectDb c (sint (ucast dbid :: uint32)) s1 = (s2, ok)" "G s0 {} {} s2"
      using selectDb_G [OF g1] by blast
    then show ?thesis using Some g1 by (cases ok) auto
  qed
qed

lemma dbsizeCommand_wp: "G s0 {} {} s \<Longrightarrow> wp (dbsizeCommand c argv s) (G s0 {} {})"
  by (auto simp: dbsizeCommand_def)

lemma typeCommand_wp: "G s0 {} {} s \<Longrightarrow> wp (typeCommand c argv s) (G s0 {} {})"
  unfolding typeCommand_def wp_simps by (rule lookupKeyRead_wp) (auto intro: G_db(2))

text \<open>A time in the past deletes the key, as DEL.\<close>

lemma expire_past_wp:
  assumes g: "G s0 {} {} s" and i: "i < length (dbs s)" and k: "db_dict (dbs s ! i) key \<noteq> None"
  shows "wp (case dbDelete i key s of (s, True) \<Rightarrow>
           Some (addReply c (IntReply 1) (notifyKeyspaceEvent NOTIFY_GENERIC ''del'' key i
             (signalModifiedKey i key (rewriteClientCommandVector c DelCmd [map of_char ''DEL'', key] (add_dirty 1 s)))))
         | (s, False) \<Rightarrow> None) (G s0 {} {})"
proof -
  obtain s3 where s3: "dbDelete i key s = (s3, True)" "G s0 {(i, key)} {} s3"
    using dbDelete_G [OF g i, of key] k by auto
  then have "G s0 {(i, key)} {} (rewriteClientCommandVector c DelCmd [map of_char ''DEL'', key] (add_dirty 1 s3))"
    by blast
  from G_settle [OF G_signal [OF this, of i key]] show ?thesis using s3(1) by auto
qed

lemma expire_future_wp:
  assumes g: "G s0 {} {} s" and i: "i < length (dbs s)" and k: "db_dict (dbs s ! i) key \<noteq> None"
  shows "wp (setExpire i key w s) (\<lambda>s. G s0 {} {} (add_dirty 1 (notifyKeyspaceEvent NOTIFY_GENERIC ''expire'' key i
            (signalModifiedKey i key (addReply c (IntReply 1) s)))))"
proof (rule setExpire_wp [OF g i k])
  fix s3 assume "G s0 (insert (i, key) {}) {} s3"
  then have "G s0 (insert (i, key) {}) {} (addReply c (IntReply 1) s3)" by blast
  from G_settle [OF G_signal [OF this, of i key]]
  show "G s0 {} {} (add_dirty 1 (notifyKeyspaceEvent NOTIFY_GENERIC ''expire'' key i
      (signalModifiedKey i key (addReply c (IntReply 1) s3))))" by auto
qed

lemma expireGenericCommand_wp:
  assumes g: "G s0 {} {} s"
  shows "wp (expireGenericCommand basetime seconds c argv s) (G s0 {} {})"
  unfolding expireGenericCommand_def wp_simps Let_def
proof (rule getLongLong_wp [OF g arg_obj_long], simp only: prod.case)
  let ?i = "c_db (client_of s c)" and ?key = "argv ! 1"
  fix s1 assume g1: "G s0 {} {} s1" and d1: "dbs s1 = dbs s"
  have i1: "?i < length (dbs s1)" using G_db(2) [OF g] d1 by simp
  show "wp (case string2ll (argv ! 2) of None \<Rightarrow> Some s1 | Some when \<Rightarrow>
      lookupKeyWrite ?i ?key s1 \<bind> (\<lambda>(s, obj).
        if obj = None then Some (addReply c (IntReply 0) s)
        else if sint ((if seconds then when * 1000 else when) + basetime) \<le> sint (mstime (cfg s)) \<and>
            \<not> loading (cfg s) \<and> \<not> masterhost (cfg s)
        then (case dbDelete ?i ?key s of (s, True) \<Rightarrow>
               Some (addReply c (IntReply 1) (notifyKeyspaceEvent NOTIFY_GENERIC ''del'' ?key ?i
                 (signalModifiedKey ?i ?key (rewriteClientCommandVector c DelCmd [map of_char ''DEL'', ?key] (add_dirty 1 s)))))
             | (s, False) \<Rightarrow> None)
        else setExpire ?i ?key ((if seconds then when * 1000 else when) + basetime) s \<bind> (\<lambda>s.
          Some (add_dirty 1 (notifyKeyspaceEvent NOTIFY_GENERIC ''expire'' ?key ?i
            (signalModifiedKey ?i ?key (addReply c (IntReply 1) s))))))) (G s0 {} {})"
  proof (cases "string2ll (argv ! 2)")
    case None
    then show ?thesis using g1 by simp
  next
    case (Some w)
    show ?thesis
      unfolding Some option.case wp_simps
    proof (rule lookupKeyWrite_wp [OF g1 i1])
      fix s2 assume g2: "G s0 {} {} s2" and l2: "looked ?i ?key s1 s2"
      have i2: "?i < length (dbs s2)" using l2 i1 by simp
      show "wp (case (s2, db_dict (dbs s2 ! ?i) ?key) of (s, obj) \<Rightarrow>
        if obj = None then Some (addReply c (IntReply 0) s)
        else if sint ((if seconds then w * 1000 else w) + basetime) \<le> sint (mstime (cfg s)) \<and>
            \<not> loading (cfg s) \<and> \<not> masterhost (cfg s)
        then (case dbDelete ?i ?key s of (s, True) \<Rightarrow>
               Some (addReply c (IntReply 1) (notifyKeyspaceEvent NOTIFY_GENERIC ''del'' ?key ?i
                 (signalModifiedKey ?i ?key (rewriteClientCommandVector c DelCmd [map of_char ''DEL'', ?key] (add_dirty 1 s)))))
             | (s, False) \<Rightarrow> None)
        else setExpire ?i ?key ((if seconds then w * 1000 else w) + basetime) s \<bind> (\<lambda>s.
          Some (add_dirty 1 (notifyKeyspaceEvent NOTIFY_GENERIC ''expire'' ?key ?i
            (signalModifiedKey ?i ?key (addReply c (IntReply 1) s)))))) (G s0 {} {})"
        using g2 expire_past_wp [OF g2 i2, of ?key] expire_future_wp [OF g2 i2, of ?key]
        unfolding prod.case wp_if wp_simps by auto
    qed
  qed
qed

lemma ttlGenericCommand_wp:
  assumes g: "G s0 {} {} s"
  shows "wp (ttlGenericCommand output_ms c argv s) (G s0 {} {})"
  unfolding ttlGenericCommand_def wp_simps Let_def
proof (rule lookupKeyRead_wp [OF g G_db(2) [OF g]], unfold prod.case wp_if wp_simps)
  fix s1 and val assume g1: "G s0 {} {} s1" and l1: "looked (c_db (client_of s c)) (argv ! 1) s s1"
  have i: "c_db (client_of s c) < length (dbs s1)" using l1 G_db(2) [OF g] by simp
  have a: "G s0 {} {} (addReply c r s1)" for r using g1 by blast
  then show "if val = None then G s0 {} {} (addReply c (IntReply (- 2)) s1)
    else wp (getExpire s1 (c_db (client_of s c)) (argv ! 1)) (\<lambda>expire.
      if (if expire \<noteq> - 1 then if sint (expire - mstime (cfg s1)) < 0 then 0 else expire - mstime (cfg s1) else - 1) = - 1
      then G s0 {} {} (addReply c (IntReply (- 1)) s1)
      else G s0 {} {} (addReply c (IntReply (if output_ms
          then if expire \<noteq> - 1 then if sint (expire - mstime (cfg s1)) < 0 then 0 else expire - mstime (cfg s1) else - 1
          else word_of_int (sint ((if expire \<noteq> - 1 then if sint (expire - mstime (cfg s1)) < 0 then 0 else expire - mstime (cfg s1) else - 1) + 500) div 1000))) s1))"
    using getExpire_wp [OF g1 i] by simp
qed

section \<open>Renaming and moving\<close>

lemma dbDelete_fst:
  assumes "G s0 X D s" "i < length (dbs s)"
  shows "G s0 (insert (i, key) X) D (fst (dbDelete i key s))" "updated i (purge key (dbs s ! i)) s (fst (dbDelete i key s))"
  using dbDelete_G [OF assms, of key] by auto

text \<open>Store a value that is not there under a key, with its expire time, and delete the source.\<close>

lemma transfer_wp:
  assumes g: "G s0 X D s" and i: "i < length (dbs s)" and j: "j < length (dbs s)" and n: "db_dict (dbs s ! j) key = None"
    and v: "val_ok val" and Q: "\<And>s'. G s0 (insert (i, from) (insert (j, key) X)) D s' \<Longrightarrow> Q s'"
  shows "wp (dbAdd j key val s) (\<lambda>s. wp (if expire \<noteq> -1 then setExpire j key expire s else Some s)
    (\<lambda>s. Q (fst (dbDelete i from s))))"
proof (rule dbAdd_wp [OF g j n v])
  fix s1 assume g1: "G s0 (insert (j, key) X) D s1"
    and u1: "updated j ((dbs s ! j)\<lparr>db_dict := (db_dict (dbs s ! j))(key \<mapsto> val)\<rparr>) s s1"
  have l1: "length (dbs s1) = length (dbs s)" using u1 by simp
  have k1: "db_dict (dbs s1 ! j) key \<noteq> None" using u1 j by (simp add: updated_def)
  have fin: "Q (fst (dbDelete i from s2))" if "G s0 (insert (j, key) X) D s2" "length (dbs s2) = length (dbs s1)" for s2
    using dbDelete_fst(1) [OF that(1), of i "from"] that(2) i l1 Q by simp
  have "wp (setExpire j key expire s1) (\<lambda>s. Q (fst (dbDelete i from s)))"
  proof (rule setExpire_wp [OF g1])
    fix s2 assume "G s0 (insert (j, key) (insert (j, key) X)) D s2"
      "updated j ((dbs s1 ! j)\<lparr>db_expires := (db_expires (dbs s1 ! j))(key \<mapsto> expire)\<rparr>) s1 s2"
    then show "Q (fst (dbDelete i from s2))" using fin by simp
  qed (use j l1 k1 in simp_all)
  then show "wp (if expire \<noteq> -1 then setExpire j key expire s1 else Some s1) (\<lambda>s. Q (fst (dbDelete i from s)))"
    using fin [OF g1] by simp
qed

lemma renameGenericCommand_wp:
  assumes g: "G s0 {} {} s"
  shows "wp (renameGenericCommand nx c argv s) (G s0 {} {})"
  unfolding renameGenericCommand_def wp_simps Let_def
proof (rule lookupWriteOrReply_wp [OF g], unfold prod.case)
  let ?i = "c_db (client_of s c)" and ?a = "argv ! 1" and ?b = "argv ! 2"
  fix s1 assume g1: "G s0 {} {} s1" and d1: "dbs s1 = (dbs s)[?i := dbs s1 ! ?i]"
  have i1: "?i < length (dbs s1)" using d1 G_db(2) [OF g] by (metis length_list_update)
  define fin where "fin s = addReply c (if nx then IntReply 1 else OkReply) (add_dirty 1
    (notifyKeyspaceEvent NOTIFY_GENERIC ''rename_to'' ?b ?i (notifyKeyspaceEvent NOTIFY_GENERIC ''rename_from'' ?a ?i
      (signalModifiedKey ?i ?b (signalModifiedKey ?i ?a s)))))" for s
  have fin: "G s0 {} {} (fin t)" if "G s0 (insert (?i, ?a) (insert (?i, ?b) X)) {} t" "X \<subseteq> {(?i, ?b)}" for t X
    using G_settle [OF G_signal [OF G_signal [OF that(1), of ?i ?a], of ?i ?b]] that(2) by (auto simp: fin_def)
  have step: "wp (dbAdd ?i ?b val t) (\<lambda>s. wp (if expire \<noteq> -1 then setExpire ?i ?b expire s else Some s)
      (\<lambda>s. G s0 {} {} (fin (fst (dbDelete ?i ?a s)))))"
    if "G s0 X {} t" "X \<subseteq> {(?i, ?b)}" "length (dbs t) = length (dbs s1)" "db_dict (dbs t ! ?i) ?b = None" "val_ok val" for t X val expire
    using transfer_wp [where Q = "\<lambda>s. G s0 {} {} (fin s)", OF that(1) _ _ that(4,5), of ?i ?a] i1 that(2,3) fin by simp
  have tail: "wp (lookupKeyWrite ?i ?b s1 \<bind> (\<lambda>(s, target).
       if target \<noteq> None \<and> nx then Some (addReply c (IntReply 0) s)
       else dbAdd ?i ?b val (if target \<noteq> None then fst (dbDelete ?i ?b s) else s) \<bind> (\<lambda>s.
         (if expire \<noteq> -1 then setExpire ?i ?b expire s else Some s) \<bind> (\<lambda>s. Some (fin (fst (dbDelete ?i ?a s)))))))
      (G s0 {} {})" if v: "val_ok val" for val expire
    unfolding wp_simps
  proof (rule lookupKeyWrite_wp [OF g1 i1], unfold prod.case)
    fix s2 assume g2: "G s0 {} {} s2" and l2: "looked ?i ?b s1 s2"
    have i2: "?i < length (dbs s2)" using l2 i1 by simp
    note del = dbDelete_fst [OF g2 i2, of ?b]
    have "db_dict (dbs (fst (dbDelete ?i ?b s2)) ! ?i) ?b = None" using del(2) i2 by (simp add: updated_def)
    then show "wp (if db_dict (dbs s2 ! ?i) ?b \<noteq> None \<and> nx then Some (addReply c (IntReply 0) s2)
       else dbAdd ?i ?b val (if db_dict (dbs s2 ! ?i) ?b \<noteq> None then fst (dbDelete ?i ?b s2) else s2) \<bind> (\<lambda>s.
         (if expire \<noteq> -1 then setExpire ?i ?b expire s else Some s) \<bind> (\<lambda>s. Some (fin (fst (dbDelete ?i ?a s))))))
      (G s0 {} {})"
      using step [OF del(1)] step [OF g2] del(2) l2 g2 v by auto
  qed
  show "wp (case db_dict (dbs s1 ! ?i) ?a of None \<Rightarrow> Some s1 | Some val \<Rightarrow>
      if ?a = ?b then Some (addReply c (if nx then IntReply 0 else OkReply) s1)
      else getExpire s1 ?i ?a \<bind> (\<lambda>expire. lookupKeyWrite ?i ?b s1 \<bind> (\<lambda>(s, target).
       if target \<noteq> None \<and> nx then Some (addReply c (IntReply 0) s)
       else dbAdd ?i ?b val (if target \<noteq> None then fst (dbDelete ?i ?b s) else s) \<bind> (\<lambda>s.
         (if expire \<noteq> -1 then setExpire ?i ?b expire s else Some s) \<bind> (\<lambda>s.
           Some (addReply c (if nx then IntReply 1 else OkReply) (add_dirty 1
            (notifyKeyspaceEvent NOTIFY_GENERIC ''rename_to'' ?b ?i (notifyKeyspaceEvent NOTIFY_GENERIC ''rename_from'' ?a ?i
             (signalModifiedKey ?i ?b (signalModifiedKey ?i ?a (fst (dbDelete ?i ?a s))))))))))))) (G s0 {} {})"
    unfolding fin_def [symmetric]
  proof (cases "db_dict (dbs s1 ! ?i) ?a")
    case (Some val)
    have "wp (getExpire s1 ?i ?a) (\<lambda>expire. wp (lookupKeyWrite ?i ?b s1 \<bind> (\<lambda>(s, target).
       if target \<noteq> None \<and> nx then Some (addReply c (IntReply 0) s)
       else dbAdd ?i ?b val (if target \<noteq> None then fst (dbDelete ?i ?b s) else s) \<bind> (\<lambda>s.
         (if expire \<noteq> -1 then setExpire ?i ?b expire s else Some s) \<bind> (\<lambda>s. Some (fin (fst (dbDelete ?i ?a s)))))))
      (G s0 {} {}))" by (rule getExpire_wp [OF g1 i1 tail]) (rule db_ok_val [OF G_db(1) [OF g1 i1] Some])
    then show "wp (case db_dict (dbs s1 ! ?i) ?a of None \<Rightarrow> Some s1 | Some val \<Rightarrow>
      if ?a = ?b then Some (addReply c (if nx then IntReply 0 else OkReply) s1)
      else getExpire s1 ?i ?a \<bind> (\<lambda>expire. lookupKeyWrite ?i ?b s1 \<bind> (\<lambda>(s, target).
       if target \<noteq> None \<and> nx then Some (addReply c (IntReply 0) s)
       else dbAdd ?i ?b val (if target \<noteq> None then fst (dbDelete ?i ?b s) else s) \<bind> (\<lambda>s.
         (if expire \<noteq> -1 then setExpire ?i ?b expire s else Some s) \<bind> (\<lambda>s. Some (fin (fst (dbDelete ?i ?a s))))))))
      (G s0 {} {})" using g1 unfolding Some option.case wp_if wp_simps by (cases "?a = ?b") auto
  qed (use g1 in simp)
qed

lemma G_mono: "G s0 X D s \<Longrightarrow> X \<subseteq> X' \<Longrightarrow> G s0 X' D s"
  unfolding G_def rel_def by blast

lemma persistCommand_wp:
  assumes g: "G s0 {} {} s"
  shows "wp (persistCommand c argv s) (G s0 (UNIV \<times> {argv ! 1}) {})"
proof (cases "db_dict (dbs s ! c_db (client_of s c)) (argv ! 1) = None")
  case True
  have "G s0 {} {} (addReply c (IntReply 0) s)" using g by blast
  then show ?thesis using True G_mono [of s0 "{}"] by (simp add: persistCommand_def)
next
  case False
  have "wp (removeExpire (c_db (client_of s c)) (argv ! 1) s) (\<lambda>(s, removed).
      G s0 (UNIV \<times> {argv ! 1}) {} (if removed then add_dirty 1 (addReply c (IntReply 1) s) else addReply c (IntReply 0) s))"
  proof (rule removeExpire_wp [OF g G_db(2) [OF g] False])
    fix s' assume "G s0 (insert (c_db (client_of s c), argv ! 1) {}) {} s'"
    then have "G s0 (UNIV \<times> {argv ! 1}) {} s'" by (rule G_mono) simp
    then show "case (s', db_expires (dbs s ! c_db (client_of s c)) (argv ! 1) \<noteq> None) of (s, removed) \<Rightarrow>
      G s0 (UNIV \<times> {argv ! 1}) {} (if removed then add_dirty 1 (addReply c (IntReply 1) s) else addReply c (IntReply 0) s)"
      by auto
  qed
  then show ?thesis using False by (auto simp: persistCommand_def Let_def case_prod_unfold wp_def split: if_splits)
qed

text \<open>The part of MOVE after the databases are known.\<close>

lemma move_tail_wp:
  assumes g: "G s0 {} {} s" and i: "src < length (dbs s)" and j: "dst < length (dbs s)"
  shows "wp (lookupKeyWrite src key s \<bind> (\<lambda>(s, obj). case obj of None \<Rightarrow> Some (addReply c (IntReply 0) s)
    | Some val \<Rightarrow> getExpire s src key \<bind> (\<lambda>expire. lookupKeyWrite dst key s \<bind> (\<lambda>(s, target).
       if target \<noteq> None then Some (addReply c (IntReply 0) s)
       else dbAdd dst key val s \<bind> (\<lambda>s. (if expire \<noteq> -1 then setExpire dst key expire s else Some s) \<bind>
        (\<lambda>s. Some (addReply c (IntReply 1) (add_dirty 1 (fst (dbDelete src key s))))))))))
    (G s0 (UNIV \<times> {key}) {})"
  unfolding wp_simps
proof (rule lookupKeyWrite_wp [OF g i], unfold prod.case)
  fix s1 assume g1: "G s0 {} {} s1" and l1: "looked src key s s1"
  have i1: "src < length (dbs s1)" "dst < length (dbs s1)" using l1 i j by simp_all
  have quiet: "G s0 (UNIV \<times> {key}) {} (addReply c (IntReply 0) t)" if "G s0 {} {} t" for t
    using that by (auto intro: G_mono)
  have "wp (lookupKeyWrite dst key s1) (\<lambda>(s, target). wp (if target \<noteq> None then Some (addReply c (IntReply 0) s)
       else dbAdd dst key val s \<bind> (\<lambda>s. (if expire \<noteq> -1 then setExpire dst key expire s else Some s) \<bind>
        (\<lambda>s. Some (addReply c (IntReply 1) (add_dirty 1 (fst (dbDelete src key s))))))) (G s0 (UNIV \<times> {key}) {}))"
    if v: "val_ok val" for val expire
  proof (rule lookupKeyWrite_wp [OF g1 i1(2)], unfold prod.case)
    fix s2 assume g2: "G s0 {} {} s2" and l2: "looked dst key s1 s2"
    have i2: "src < length (dbs s2)" "dst < length (dbs s2)" using l2 i1 by simp_all
    have fin: "G s0 (UNIV \<times> {key}) {} (addReply c (IntReply 1) (add_dirty 1 t))"
      if "G s0 (insert (src, key) (insert (dst, key) {})) {} t" for t
      using G_mono [OF that, of "UNIV \<times> {key}"] by auto
    show "wp (if db_dict (dbs s2 ! dst) key \<noteq> None then Some (addReply c (IntReply 0) s2)
       else dbAdd dst key val s2 \<bind> (\<lambda>s. (if expire \<noteq> -1 then setExpire dst key expire s else Some s) \<bind>
        (\<lambda>s. Some (addReply c (IntReply 1) (add_dirty 1 (fst (dbDelete src key s))))))) (G s0 (UNIV \<times> {key}) {})"
      using transfer_wp [OF g2 i2, where Q = "\<lambda>s. G s0 (UNIV \<times> {key}) {} (addReply c (IntReply 1) (add_dirty 1 s))"]
        quiet [OF g2] fin v by (cases "db_dict (dbs s2 ! dst) key") simp_all
  qed
  then show "wp (case db_dict (dbs s1 ! src) key of None \<Rightarrow> Some (addReply c (IntReply 0) s1)
    | Some val \<Rightarrow> getExpire s1 src key \<bind> (\<lambda>expire. lookupKeyWrite dst key s1 \<bind> (\<lambda>(s, target).
       if target \<noteq> None then Some (addReply c (IntReply 0) s)
       else dbAdd dst key val s \<bind> (\<lambda>s. (if expire \<noteq> -1 then setExpire dst key expire s else Some s) \<bind>
        (\<lambda>s. Some (addReply c (IntReply 1) (add_dirty 1 (fst (dbDelete src key s))))))))) (G s0 (UNIV \<times> {key}) {})"
    using quiet [OF g1] db_ok_val [OF G_db(1) [OF g1 i1(1)], of key]
    by (cases "db_dict (dbs s1 ! src) key")
      (simp_all only: option.case wp_simps case_prod_unfold getExpire_wp [OF g1 i1(1)])
qed

lemma moveCommand_wp:
  assumes g: "G s0 {} {} s"
  shows "wp (moveCommand c argv s) (G s0 (UNIV \<times> {argv ! 1}) {})"
proof -
  let ?src = "c_db (client_of s c)"
  have err: "G s0 (UNIV \<times> {argv ! 1}) {} (addReply c r t)" if "G s0 {} {} t" for r t
    using that by (auto intro: G_mono)
  have sel: "wp (case selectDb c dbid s of (s, False) \<Rightarrow> Some (addReply c (ErrorReply ''index out of range'') s)
      | (s1, True) \<Rightarrow> let dst = c_db (client_of s1 c); s2 = fst (selectDb c (int ?src) s1) in
          if ?src = dst then Some (addReply c (ErrorReply ''source and destination objects are the same'') s2)
          else lookupKeyWrite ?src (argv ! 1) s2 \<bind> (\<lambda>(s, obj). case obj of None \<Rightarrow> Some (addReply c (IntReply 0) s)
    | Some val \<Rightarrow> getExpire s ?src (argv ! 1) \<bind> (\<lambda>expire. lookupKeyWrite dst (argv ! 1) s \<bind> (\<lambda>(s, target).
       if target \<noteq> None then Some (addReply c (IntReply 0) s)
       else dbAdd dst (argv ! 1) val s \<bind> (\<lambda>s. (if expire \<noteq> -1 then setExpire dst (argv ! 1) expire s else Some s) \<bind>
        (\<lambda>s. Some (addReply c (IntReply 1) (add_dirty 1 (fst (dbDelete ?src (argv ! 1) s))))))))))
    (G s0 (UNIV \<times> {argv ! 1}) {})" for dbid
  proof -
    obtain s1 ok where s1: "selectDb c dbid s = (s1, ok)" "G s0 {} {} s1" "dbs s1 = dbs s"
      using selectDb_G [OF g] by blast
    obtain s2 ok' where s2: "selectDb c (int ?src) s1 = (s2, ok')" "G s0 {} {} s2" "dbs s2 = dbs s1"
      using selectDb_G [OF s1(2)] by blast
    have i: "?src < length (dbs s2)" using G_db(2) [OF g] s1(3) s2(3) by simp
    have j: "c_db (client_of s1 c) < length (dbs s2)" using G_db(2) [OF s1(2)] s2(3) by simp
    show ?thesis
      using err [OF s1(2)] err [OF s2(2)] move_tail_wp [OF s2(2) i j, of "argv ! 1" c]
      unfolding s1(1) by (cases ok) (simp_all only: prod.case bool.case Let_def s2(1) fst_conv wp_if wp_simps(1) if_True if_False split: if_split, simp_all)
  qed
  show ?thesis
    using err [OF g] sel [unfolded Let_def]
    unfolding moveCommand_def arg_obj_long Let_def wp_if wp_simps
    by (cases "string2ll (argv ! 2)") (simp_all only: option.case wp_if wp_simps if_split simp_thms if_cancel)
qed

lemmas db_commands_wp =
  flushdbCommand_wp flushallCommand_wp delCommand_wp existsCommand_wp selectCommand_wp dbsizeCommand_wp typeCommand_wp
  touchCommand_wp

lemma rename_commands_wp:
  assumes "G s0 {} {} s"
  shows "wp (renameCommand c argv s) (G s0 {} {})" "wp (renamenxCommand c argv s) (G s0 {} {})"
  using renameGenericCommand_wp [OF assms] by (simp_all add: renameCommand_def renamenxCommand_def)

lemma expire_commands_wp:
  assumes "G s0 {} {} s"
  shows "wp (expireCommand c argv s) (G s0 {} {})" "wp (expireatCommand c argv s) (G s0 {} {})"
    "wp (pexpireCommand c argv s) (G s0 {} {})" "wp (pexpireatCommand c argv s) (G s0 {} {})"
    "wp (ttlCommand c argv s) (G s0 {} {})" "wp (pttlCommand c argv s) (G s0 {} {})"
  using expireGenericCommand_wp [OF assms] ttlGenericCommand_wp [OF assms]
  by (simp_all add: expireCommand_def expireatCommand_def pexpireCommand_def pexpireatCommand_def
      ttlCommand_def pttlCommand_def)

end
