(* ===== verification/TString.thy ===== *)
theory TString
  imports DbCommands
begin

text \<open>
  \<^verbatim>\<open>t_string.c\<close>: the commands on strings. Arguments are objects with the bytes that the client
  sent; values in the key space are replaced where the code updates an object in place. A string
  larger than \<open>max_alloc\<close> cannot be allocated and aborts the server (\<open>None\<close>). INCRBYFLOAT is not
  modelled (long double arithmetic).

  The theory shows that every command keeps the invariant, cannot fail and marks the watchers, and
  what the commands compute: the round trip of SET and GET, INCR without overflow, the strings of
  APPEND, SETRANGE and GETRANGE. It also shows the arithmetic that is not guarded: SETRANGE with an
  offset near the largest long, SET with a huge EX time, DECRBY with the smallest integer.
\<close>

section \<open>Helpers of the commands\<close>

definition wrongtypeerr :: reply where
  "wrongtypeerr = ErrorReply ''WRONGTYPE Operation against a key holding the wrong kind of value''"

definition checkType :: "cid \<Rightarrow> robj \<Rightarrow> obj_type \<Rightarrow> server \<Rightarrow> server \<times> bool" where
  "checkType c obj t s = (if type_of obj \<noteq> t then (addReply c wrongtypeerr s, True) else (s, False))"

definition addReplyBulk :: "cid \<Rightarrow> robj \<Rightarrow> server \<Rightarrow> server option" where
  "addReplyBulk c obj s = do {
     decoded \<leftarrow> getDecodedObject (replicate 32 0) obj;
     str \<leftarrow> ptr_sds decoded;
     Some (addReply c (BulkReply str) s) }"

text \<open>The size is a long long.\<close>

definition checkStringLength :: "cid \<Rightarrow> int64 \<Rightarrow> server \<Rightarrow> server \<times> bool" where
  "checkStringLength c n s =
     (if sint n > 512 * 1024 * 1024
      then (addReply c (ErrorReply ''string exceeds maximum allowed size (512MB)'') s, False)
      else (s, True))"

text \<open>\<^verbatim>\<open>sdsnewlen(NULL, n)\<close> and \<^verbatim>\<open>sdsgrowzero\<close> of \<^verbatim>\<open>sds.c\<close>.\<close>

definition sdsnewlen_zero :: "config \<Rightarrow> nat \<Rightarrow> sds option" where
  "sdsnewlen_zero g n = (if n > max_alloc g then None else Some (replicate n 0))"

definition sdsgrowzero :: "config \<Rightarrow> sds \<Rightarrow> nat \<Rightarrow> sds option" where
  "sdsgrowzero g str n =
     (if n \<le> length str then Some str
      else if n > max_alloc g then None
      else Some (str @ replicate (n - length str) 0))"

definition sdscatlen :: "config \<Rightarrow> sds \<Rightarrow> sds \<Rightarrow> sds option" where
  "sdscatlen g str t = (if length str + length t > max_alloc g then None else Some (str @ t))"

text \<open>The object that a key holds is changed in place.\<close>

definition set_value :: "nat \<Rightarrow> key \<Rightarrow> robj \<Rightarrow> server \<Rightarrow> server" where
  "set_value i key obj s = set_db i ((dbs s ! i)\<lparr>db_dict := (db_dict (dbs s ! i))(key \<mapsto> obj)\<rparr>) s"

section \<open>SET and GET\<close>

definition setGenericCommand ::
  "cid \<Rightarrow> string \<Rightarrow> bool \<Rightarrow> bool \<Rightarrow> key \<Rightarrow> robj \<Rightarrow> robj option \<Rightarrow> bool \<Rightarrow> reply option \<Rightarrow> reply option \<Rightarrow> server \<Rightarrow> server option" where
  "setGenericCommand c cmdname nx xx key val expire seconds ok_reply abort_reply s = do {
     let i = c_db (client_of s c);
     (s, ms) \<leftarrow> (case expire of
         None \<Rightarrow> Some (s, Some 0)
       | Some e \<Rightarrow> do {
           (s, r) \<leftarrow> getLongLongOrReply c (Some e) None s;
           Some (case r of None \<Rightarrow> (s, None)
             | Some milliseconds \<Rightarrow>
                 if sint milliseconds \<le> 0
                 then (addReply c (ErrorReply (''invalid expire time in '' @ cmdname)) s, None)
                 else (s, Some (if seconds then milliseconds * 1000 else milliseconds))) });
     case ms of None \<Rightarrow> Some s
     | Some milliseconds \<Rightarrow> do {
         (s, abort_nx) \<leftarrow> (if nx then do { (s, o1) \<leftarrow> lookupKeyWrite i key s; Some (s, o1 \<noteq> None) } else Some (s, False));
         (s, abort) \<leftarrow> (if abort_nx then Some (s, True)
           else if xx then do { (s, o1) \<leftarrow> lookupKeyWrite i key s; Some (s, o1 = None) } else Some (s, False));
         if abort then Some (addReply c (case abort_reply of Some r \<Rightarrow> r | None \<Rightarrow> NullBulk) s)
         else do {
           s \<leftarrow> setKey i key val s;
           let s = add_dirty 1 s;
           s \<leftarrow> (if expire \<noteq> None then setExpire i key (mstime (cfg s) + milliseconds) s else Some s);
           let s = notifyKeyspaceEvent NOTIFY_STRING ''set'' key i s;
           let s = (if expire \<noteq> None then notifyKeyspaceEvent NOTIFY_GENERIC ''expire'' key i s else s);
           Some (addReply c (case ok_reply of Some r \<Rightarrow> r | None \<Rightarrow> OkReply) s)
         }
       } }"

text \<open>An option of two letters, in any case. The string ends with a terminator, and may go on behind it.\<close>

definition char_at :: "sds \<Rightarrow> nat \<Rightarrow> byte" where
  "char_at a j = (if j < length a then a ! j else 0)"

definition is_opt :: "char \<Rightarrow> char \<Rightarrow> char \<Rightarrow> char \<Rightarrow> sds \<Rightarrow> bool" where
  "is_opt l1 u1 l2 u2 a \<longleftrightarrow> (char_at a 0 = of_char l1 \<or> char_at a 0 = of_char u1) \<and>
     (char_at a 1 = of_char l2 \<or> char_at a 1 = of_char u2) \<and> char_at a 2 = 0"

record set_opts =
  o_nx :: bool
  o_xx :: bool
  o_ex :: bool
  o_px :: bool
  o_seconds :: bool
  o_expire :: "sds option"

text \<open>The loop over the options; \<open>None\<close> is the syntax error.\<close>

fun parse_opts :: "sds list \<Rightarrow> set_opts \<Rightarrow> set_opts option" where
  "parse_opts [] f = Some f"
| "parse_opts (a # rest) f =
     (if is_opt CHR ''n'' CHR ''N'' CHR ''x'' CHR ''X'' a \<and> \<not> o_xx f then parse_opts rest (f\<lparr>o_nx := True\<rparr>)
      else if is_opt CHR ''x'' CHR ''X'' CHR ''x'' CHR ''X'' a \<and> \<not> o_nx f then parse_opts rest (f\<lparr>o_xx := True\<rparr>)
      else if is_opt CHR ''e'' CHR ''E'' CHR ''x'' CHR ''X'' a \<and> \<not> o_px f \<and> rest \<noteq> []
        then parse_opts (tl rest) (f\<lparr>o_ex := True, o_seconds := True, o_expire := Some (hd rest)\<rparr>)
      else if is_opt CHR ''p'' CHR ''P'' CHR ''x'' CHR ''X'' a \<and> \<not> o_ex f \<and> rest \<noteq> []
        then parse_opts (tl rest) (f\<lparr>o_px := True, o_seconds := False, o_expire := Some (hd rest)\<rparr>)
      else None)"

definition no_opts :: set_opts where
  "no_opts = \<lparr>o_nx = False, o_xx = False, o_ex = False, o_px = False, o_seconds = True, o_expire = None\<rparr>"

definition setCommand :: "cid \<Rightarrow> sds list \<Rightarrow> server \<Rightarrow> server option" where
  "setCommand c argv s =
     (case parse_opts (drop 3 argv) no_opts of
        None \<Rightarrow> Some (addReply c (ErrorReply ''syntax error'') s)
      | Some f \<Rightarrow> do {
          val \<leftarrow> tryObjectEncoding (shared_args (cfg s)) (arg_obj argv 2);
          setGenericCommand c ''set'' (o_nx f) (o_xx f) (argv ! 1) val (map_option createStringObject (o_expire f)) (o_seconds f) None None s })"

definition setnxCommand :: "cid \<Rightarrow> sds list \<Rightarrow> server \<Rightarrow> server option" where
  "setnxCommand c argv s = do {
     val \<leftarrow> tryObjectEncoding (shared_args (cfg s)) (arg_obj argv 2);
     setGenericCommand c ''setnx'' True False (argv ! 1) val None True (Some (IntReply 1)) (Some (IntReply 0)) s }"

definition setexCommand :: "cid \<Rightarrow> sds list \<Rightarrow> server \<Rightarrow> server option" where
  "setexCommand c argv s = do {
     val \<leftarrow> tryObjectEncoding (shared_args (cfg s)) (arg_obj argv 3);
     setGenericCommand c ''setex'' False False (argv ! 1) val (Some (arg_obj argv 2)) True None None s }"

definition psetexCommand :: "cid \<Rightarrow> sds list \<Rightarrow> server \<Rightarrow> server option" where
  "psetexCommand c argv s = do {
     val \<leftarrow> tryObjectEncoding (shared_args (cfg s)) (arg_obj argv 3);
     setGenericCommand c ''psetex'' False False (argv ! 1) val (Some (arg_obj argv 2)) False None None s }"

text \<open>The flag is \<open>C_OK\<close>.\<close>

definition getGenericCommand :: "cid \<Rightarrow> sds list \<Rightarrow> server \<Rightarrow> (server \<times> bool) option" where
  "getGenericCommand c argv s = do {
     (s, obj) \<leftarrow> lookupKeyReadOrReply c (argv ! 1) NullBulk s;
     case obj of None \<Rightarrow> Some (s, True)
     | Some v \<Rightarrow>
         if type_of v \<noteq> OBJ_STRING then Some (addReply c wrongtypeerr s, False)
         else do { s \<leftarrow> addReplyBulk c v s; Some (s, True) } }"

definition getCommand :: "cid \<Rightarrow> sds list \<Rightarrow> server \<Rightarrow> server option" where
  "getCommand c argv s = do { (s, _) \<leftarrow> getGenericCommand c argv s; Some s }"

definition getsetCommand :: "cid \<Rightarrow> sds list \<Rightarrow> server \<Rightarrow> server option" where
  "getsetCommand c argv s = do {
     let i = c_db (client_of s c);
     (s, ok) \<leftarrow> getGenericCommand c argv s;
     if \<not> ok then Some s
     else do {
       val \<leftarrow> tryObjectEncoding (shared_args (cfg s)) (arg_obj argv 2);
       s \<leftarrow> setKey i (argv ! 1) val s;
       let s = notifyKeyspaceEvent NOTIFY_STRING ''set'' (argv ! 1) i s;
       Some (add_dirty 1 s)
     } }"

section \<open>Parts of strings\<close>

text \<open>The object that SETRANGE writes to, or \<open>None\<close> when the command is over.\<close>

definition setrange_target ::
  "cid \<Rightarrow> nat \<Rightarrow> key \<Rightarrow> sds \<Rightarrow> int64 \<Rightarrow> robj option \<Rightarrow> server \<Rightarrow> (server \<times> robj option) option" where
  "setrange_target c i key val newlen obj s =
     (case obj of
        None \<Rightarrow>
          if val = [] then Some (addReply c (IntReply 0) s, None)
          else (case checkStringLength c newlen s of
              (s, False) \<Rightarrow> Some (s, None)
            | (s, True) \<Rightarrow> do {
                zeros \<leftarrow> sdsnewlen_zero (cfg s) (unat newlen);
                s \<leftarrow> dbAdd i key (Raw zeros) s;
                Some (s, Some (Raw zeros)) })
      | Some v \<Rightarrow>
          (case checkType c v OBJ_STRING s of
              (s, True) \<Rightarrow> Some (s, None)
            | (s, False) \<Rightarrow> do {
                olen \<leftarrow> stringObjectLen v;
                if val = [] then Some (addReply c (IntReply (of_nat olen)) s, None)
                else (case checkStringLength c newlen s of
                    (s, False) \<Rightarrow> Some (s, None)
                  | (s, True) \<Rightarrow> do {
                      (s, o1) \<leftarrow> dbUnshareStringValue i key v s;
                      Some (s, Some o1) }) }))"

text \<open>The bytes are written at \<open>offset\<close>; a \<^verbatim>\<open>memcpy\<close> past the end of the buffer is \<open>None\<close>.\<close>

definition setrange_write :: "cid \<Rightarrow> nat \<Rightarrow> key \<Rightarrow> sds \<Rightarrow> int64 \<Rightarrow> int64 \<Rightarrow> robj \<Rightarrow> server \<Rightarrow> server option" where
  "setrange_write c i key val offset newlen o1 s = do {
     str \<leftarrow> ptr_sds o1;
     str \<leftarrow> sdsgrowzero (cfg s) str (unat newlen);
     str \<leftarrow> mem_write str (unat offset) val;
     let s = set_value i key (Raw str) s;
     let s = signalModifiedKey i key s;
     let s = notifyKeyspaceEvent NOTIFY_STRING ''setrange'' key i s;
     let s = add_dirty 1 s;
     Some (addReply c (IntReply (of_nat (length str))) s) }"

definition setrangeCommand :: "cid \<Rightarrow> sds list \<Rightarrow> server \<Rightarrow> server option" where
  "setrangeCommand c argv s = do {
     let i = c_db (client_of s c);
     (s, r) \<leftarrow> getLongOrReply c (Some (arg_obj argv 2)) None s;
     case r of None \<Rightarrow> Some s
     | Some offset \<Rightarrow>
         if sint offset < 0 then Some (addReply c (ErrorReply ''offset is out of range'') s)
         else do {
           let newlen = offset + of_nat (length (argv ! 3));
           (s, obj) \<leftarrow> lookupKeyWrite i (argv ! 1) s;
           (s, target) \<leftarrow> setrange_target c i (argv ! 1) (argv ! 3) newlen obj s;
           case target of None \<Rightarrow> Some s
           | Some o1 \<Rightarrow> setrange_write c i (argv ! 1) (argv ! 3) offset newlen o1 s } }"

text \<open>
  The indexes of GETRANGE: \<open>strlen\<close> is a size_t, so the comparison of \<open>end\<close> is unsigned and the
  sums wrap. \<open>None\<close> is the empty reply.
\<close>

definition range_bounds :: "int64 \<Rightarrow> int64 \<Rightarrow> uint64 \<Rightarrow> (int64 \<times> int64) option" where
  "range_bounds start finish strlen =
     (if sint start < 0 \<and> sint finish < 0 \<and> sint start > sint finish then None
      else
        let start = (if sint start < 0 then strlen + start else start);
            finish = (if sint finish < 0 then strlen + finish else finish);
            start = (if sint start < 0 then 0 else start);
            finish = (if sint finish < 0 then 0 else finish);
            finish = (if finish \<ge> strlen then strlen - 1 else finish)
        in if sint start > sint finish \<or> strlen = 0 then None else Some (start, finish))"

text \<open>The characters of the object as GETRANGE takes them.\<close>

definition range_str :: "robj \<Rightarrow> sds option" where
  "range_str v = (case v of
      IntObj n \<Rightarrow> do { (buf, len) \<leftarrow> ll2string (replicate 32 0) 32 n; Some (take (unat len) buf) }
    | _ \<Rightarrow> ptr_sds v)"

definition getrangeCommand :: "cid \<Rightarrow> sds list \<Rightarrow> server \<Rightarrow> server option" where
  "getrangeCommand c argv s = do {
     (s, r) \<leftarrow> getLongLongOrReply c (Some (arg_obj argv 2)) None s;
     case r of None \<Rightarrow> Some s
     | Some start \<Rightarrow> do {
         (s, r) \<leftarrow> getLongLongOrReply c (Some (arg_obj argv 3)) None s;
         case r of None \<Rightarrow> Some s
         | Some finish \<Rightarrow> do {
             (s, obj) \<leftarrow> lookupKeyReadOrReply c (argv ! 1) EmptyBulk s;
             case obj of None \<Rightarrow> Some s
             | Some v \<Rightarrow>
                 (case checkType c v OBJ_STRING s of
                     (s, True) \<Rightarrow> Some s
                   | (s, False) \<Rightarrow> do {
                       str \<leftarrow> range_str v;
                       case range_bounds start finish (of_nat (length str)) of
                         None \<Rightarrow> Some (addReply c EmptyBulk s)
                       | Some (start, finish) \<Rightarrow> do {
                           part \<leftarrow> mem_read str (unat start) (unat (finish - start + 1));
                           Some (addReply c (BulkReply part) s) } })
           }
       } }"

text \<open>APPEND on the object of the key; the new length, or \<open>None\<close> when the command is over.\<close>

definition append_value :: "cid \<Rightarrow> nat \<Rightarrow> sds list \<Rightarrow> robj option \<Rightarrow> server \<Rightarrow> (server \<times> nat option) option" where
  "append_value c i argv obj s =
     (case obj of
        None \<Rightarrow> do {
          val \<leftarrow> tryObjectEncoding (shared_args (cfg s)) (arg_obj argv 2);
          s \<leftarrow> dbAdd i (argv ! 1) val s;
          totlen \<leftarrow> stringObjectLen val;
          Some (s, Some totlen) }
      | Some v \<Rightarrow>
          (case checkType c v OBJ_STRING s of
              (s, True) \<Rightarrow> Some (s, None)
            | (s, False) \<Rightarrow> do {
                len \<leftarrow> stringObjectLen v;
                case checkStringLength c (of_nat (len + length (argv ! 2))) s of
                  (s, False) \<Rightarrow> Some (s, None)
                | (s, True) \<Rightarrow> do {
                    (s, o1) \<leftarrow> dbUnshareStringValue i (argv ! 1) v s;
                    str \<leftarrow> ptr_sds o1;
                    str \<leftarrow> sdscatlen (cfg s) str (argv ! 2);
                    Some (set_value i (argv ! 1) (Raw str) s, Some (length str)) } }))"

definition appendCommand :: "cid \<Rightarrow> sds list \<Rightarrow> server \<Rightarrow> server option" where
  "appendCommand c argv s = do {
     let i = c_db (client_of s c);
     (s, obj) \<leftarrow> lookupKeyWrite i (argv ! 1) s;
     (s, r) \<leftarrow> append_value c i argv obj s;
     case r of None \<Rightarrow> Some s
     | Some totlen \<Rightarrow> do {
         let s = signalModifiedKey i (argv ! 1) s;
         let s = notifyKeyspaceEvent NOTIFY_STRING ''append'' (argv ! 1) i s;
         let s = add_dirty 1 s;
         Some (addReply c (IntReply (of_nat totlen)) s) } }"

definition strlenCommand :: "cid \<Rightarrow> sds list \<Rightarrow> server \<Rightarrow> server option" where
  "strlenCommand c argv s = do {
     (s, obj) \<leftarrow> lookupKeyReadOrReply c (argv ! 1) (IntReply 0) s;
     case obj of None \<Rightarrow> Some s
     | Some v \<Rightarrow>
         (case checkType c v OBJ_STRING s of
             (s, True) \<Rightarrow> Some s
           | (s, False) \<Rightarrow> do { n \<leftarrow> stringObjectLen v; Some (addReply c (IntReply (of_nat n)) s) }) }"

section \<open>Several keys\<close>

fun mget_loop :: "cid \<Rightarrow> nat \<Rightarrow> key list \<Rightarrow> server \<Rightarrow> server option" where
  "mget_loop c i [] s = Some s"
| "mget_loop c i (key # keys) s = do {
     (s, obj) \<leftarrow> lookupKeyRead i key s;
     s \<leftarrow> (case obj of None \<Rightarrow> Some (addReply c NullBulk s)
        | Some v \<Rightarrow> if type_of v \<noteq> OBJ_STRING then Some (addReply c NullBulk s) else addReplyBulk c v s);
     mget_loop c i keys s }"

definition mgetCommand :: "cid \<Rightarrow> sds list \<Rightarrow> server \<Rightarrow> server option" where
  "mgetCommand c argv s =
     mget_loop c (c_db (client_of s c)) (tl argv) (addReply c (MultiBulkLen (length argv - 1)) s)"

fun busy_loop :: "nat \<Rightarrow> sds list \<Rightarrow> nat \<Rightarrow> server \<Rightarrow> (server \<times> nat) option" where
  "busy_loop i (key # val # rest) busykeys s = do {
     (s, obj) \<leftarrow> lookupKeyWrite i key s;
     busy_loop i rest (if obj \<noteq> None then busykeys + 1 else busykeys) s }"
| "busy_loop i _ busykeys s = Some (s, busykeys)"

fun mset_loop :: "nat \<Rightarrow> sds list \<Rightarrow> server \<Rightarrow> server option" where
  "mset_loop i (key # arg # rest) s = do {
     val \<leftarrow> tryObjectEncoding (shared_args (cfg s)) (createStringObject arg);
     s \<leftarrow> setKey i key val s;
     mset_loop i rest (notifyKeyspaceEvent NOTIFY_STRING ''set'' key i s) }"
| "mset_loop i _ s = Some s"

definition msetGenericCommand :: "bool \<Rightarrow> cid \<Rightarrow> sds list \<Rightarrow> server \<Rightarrow> server option" where
  "msetGenericCommand nx c argv s =
     (let i = c_db (client_of s c) in
      if length argv mod 2 = 0 then Some (addReply c (ErrorReply ''wrong number of arguments for MSET'') s)
      else do {
        (s, busykeys) \<leftarrow> (if nx then busy_loop i (tl argv) 0 s else Some (s, 0));
        if nx \<and> busykeys \<noteq> 0 then Some (addReply c (IntReply 0) s)
        else do {
          s \<leftarrow> mset_loop i (tl argv) s;
          let s = add_dirty (int ((length argv - 1) div 2)) s;
          Some (addReply c (if nx then IntReply 1 else OkReply) s) } })"

definition msetCommand :: "cid \<Rightarrow> sds list \<Rightarrow> server \<Rightarrow> server option" where
  "msetCommand c argv s = msetGenericCommand False c argv s"

definition msetnxCommand :: "cid \<Rightarrow> sds list \<Rightarrow> server \<Rightarrow> server option" where
  "msetnxCommand c argv s = msetGenericCommand True c argv s"

section \<open>Counters\<close>

text \<open>The new value is written over an integer object that is not shared, or stored in a new object.\<close>

definition incr_store :: "nat \<Rightarrow> key \<Rightarrow> int64 \<Rightarrow> robj option \<Rightarrow> server \<Rightarrow> server option" where
  "incr_store i key v obj s =
     (case obj of
        None \<Rightarrow> dbAdd i key (createStringObjectFromLongLong v) s
      | Some (IntObj _) \<Rightarrow>
          if \<not> shared_vals (cfg s) \<and> (sint v < 0 \<or> sint v \<ge> OBJ_SHARED_INTEGERS) \<and>
             - (2 ^ 63) \<le> sint v \<and> sint v \<le> 2 ^ 63 - 1
          then Some (set_value i key (IntObj v) s)
          else dbOverwrite i key (createStringObjectFromLongLong v) s
      | Some _ \<Rightarrow> dbOverwrite i key (createStringObjectFromLongLong v) s)"

definition incr_overflows :: "int64 \<Rightarrow> int64 \<Rightarrow> bool" where
  "incr_overflows incr oldvalue \<longleftrightarrow>
     sint incr < 0 \<and> sint oldvalue < 0 \<and> sint incr < - (2 ^ 63) - sint oldvalue \<or>
     sint incr > 0 \<and> sint oldvalue > 0 \<and> sint incr > 2 ^ 63 - 1 - sint oldvalue"

definition incr_value :: "int64 \<Rightarrow> cid \<Rightarrow> nat \<Rightarrow> key \<Rightarrow> robj option \<Rightarrow> server \<Rightarrow> server option" where
  "incr_value incr c i key obj s = do {
     (s, r) \<leftarrow> getLongLongOrReply c obj None s;
     case r of None \<Rightarrow> Some s
     | Some oldvalue \<Rightarrow>
         if incr_overflows incr oldvalue
         then Some (addReply c (ErrorReply ''increment or decrement would overflow'') s)
         else do {
           let v = oldvalue + incr;
           s \<leftarrow> incr_store i key v obj s;
           let s = signalModifiedKey i key s;
           let s = notifyKeyspaceEvent NOTIFY_STRING ''incrby'' key i s;
           let s = add_dirty 1 s;
           Some (addReply c (IntReply v) s) } }"

definition incrDecrCommand :: "int64 \<Rightarrow> cid \<Rightarrow> sds list \<Rightarrow> server \<Rightarrow> server option" where
  "incrDecrCommand incr c argv s = do {
     let i = c_db (client_of s c);
     (s, obj) \<leftarrow> lookupKeyWrite i (argv ! 1) s;
     case (case obj of None \<Rightarrow> (s, False) | Some v \<Rightarrow> checkType c v OBJ_STRING s) of
       (s, True) \<Rightarrow> Some s
     | (s, False) \<Rightarrow> incr_value incr c i (argv ! 1) obj s }"

definition incrCommand :: "cid \<Rightarrow> sds list \<Rightarrow> server \<Rightarrow> server option" where
  "incrCommand c argv s = incrDecrCommand 1 c argv s"

definition decrCommand :: "cid \<Rightarrow> sds list \<Rightarrow> server \<Rightarrow> server option" where
  "decrCommand c argv s = incrDecrCommand (-1) c argv s"

definition incrbyCommand :: "cid \<Rightarrow> sds list \<Rightarrow> server \<Rightarrow> server option" where
  "incrbyCommand c argv s = do {
     (s, r) \<leftarrow> getLongLongOrReply c (Some (arg_obj argv 2)) None s;
     case r of None \<Rightarrow> Some s | Some incr \<Rightarrow> incrDecrCommand incr c argv s }"

definition decrbyCommand :: "cid \<Rightarrow> sds list \<Rightarrow> server \<Rightarrow> server option" where
  "decrbyCommand c argv s = do {
     (s, r) \<leftarrow> getLongLongOrReply c (Some (arg_obj argv 2)) None s;
     case r of None \<Rightarrow> Some s | Some incr \<Rightarrow> incrDecrCommand (- incr) c argv s }"

section \<open>Rules for the helpers\<close>

lemma addReplyBulk_eq: "obj_bytes obj = Some b \<Longrightarrow> addReplyBulk c obj s = Some (addReply c (BulkReply b) s)"
proof -
  assume a: "obj_bytes obj = Some b"
  then obtain e where e: "getDecodedObject (replicate 32 0) obj = Some e" "sdsEncodedObject e" "obj_bytes e = Some b"
    using getDecodedObject_bytes [OF a] by (metis length_replicate)
  then have "ptr_sds e = Some b" by (cases e) simp_all
  then show ?thesis using e(1) by (simp add: addReplyBulk_def)
qed

lemma arg_encoded: "\<exists>e. tryObjectEncoding sh (arg_obj argv j) = Some e \<and> obj_bytes e = Some (argv ! j)"
  using tryObjectEncoding_bytes [OF createStringObject_bytes] by (simp add: arg_obj_def)

text \<open>How the commands end after they changed a key.\<close>

lemma G_finish:
  assumes "G s0 X {} s" "X \<subseteq> {(i, key)}"
  shows "G s0 {} {} (addReply c r (add_dirty n (notifyKeyspaceEvent cls ev k j (signalModifiedKey i key s))))"
  using G_settle [OF G_signal [OF assms(1), of i key]] assms(2) by auto

lemma G_settle_signal: "G s0 {(i, key)} {} s \<Longrightarrow> G s0 {} {} (signalModifiedKey i key s)"
  using G_settle [OF G_signal [of s0 "{(i, key)}" "{}" s i key]] by simp

lemma set_value_G:
  assumes "G s0 X D s" "i < length (dbs s)" "val_ok obj"
  shows "G s0 (insert (i, key) X) D (set_value i key obj s)"
  unfolding set_value_def by (rule G_write [OF assms(1,2)]) (use G_db(1) [OF assms(1,2)] assms(3) in simp_all)

lemma set_value_simps [simp]:
  "length (dbs (set_value i key obj s)) = length (dbs s)" "cfg (set_value i key obj s) = cfg s"
  "client_of (set_value i key obj s) = client_of s"
  "i < length (dbs s) \<Longrightarrow> db_dict (dbs (set_value i key obj s) ! i) key = Some obj"
  by (simp_all add: set_value_def)

lemma checkType_string:
  "obj_bytes v = Some b \<Longrightarrow> checkType c v OBJ_STRING s = (s, False)"
  "\<not> (\<exists>b. obj_bytes v = Some b) \<Longrightarrow> checkType c v OBJ_STRING s = (addReply c wrongtypeerr s, True)"
  using obj_bytes_type [of v] by (auto simp: checkType_def)

lemma dbUnshareStringValue_wp:
  assumes g: "G s0 X D s" and i: "i < length (dbs s)" and k: "db_dict (dbs s ! i) key = Some v"
    and v: "obj_bytes v = Some b"
    and Q: "\<And>s'. G s0 (insert (i, key) X) D s' \<Longrightarrow> cfg s' = cfg s \<Longrightarrow> length (dbs s') = length (dbs s) \<Longrightarrow>
      db_dict (dbs s' ! i) key = Some (Raw b) \<Longrightarrow> Q (s', Raw b)"
  shows "wp (dbUnshareStringValue i key v s) Q"
proof -
  have copy: "wp (getDecodedObject (replicate 32 0) v \<bind> (\<lambda>decoded. ptr_sds decoded \<bind> (\<lambda>str.
      dbOverwrite i key (createRawStringObject str) s \<bind> (\<lambda>s. Some (s, createRawStringObject str))))) Q"
  proof -
    obtain e where e: "getDecodedObject (replicate 32 0) v = Some e" "sdsEncodedObject e" "obj_bytes e = Some b"
      using getDecodedObject_bytes [OF v] by (metis length_replicate)
    then have p: "ptr_sds e = Some b" by (cases e) simp_all
    have "val_ok (Raw b)" using db_ok_val [OF G_db(1) [OF g i] k] v by (simp add: val_ok_def)
    then have "wp (dbOverwrite i key (Raw b) s) (\<lambda>s. Q (s, Raw b))"
      by (intro dbOverwrite_wp [OF g i]) (use k i in \<open>auto simp: updated_def intro: Q\<close>)
    then show ?thesis using e p by (simp add: createRawStringObject_def)
  qed
  show ?thesis
  proof (cases v)
    case (Raw str)
    have "G s0 (insert (i, key) X) D s" by (rule G_mono [OF g]) blast
    then show ?thesis using Q [of s] Raw v k by (simp add: dbUnshareStringValue_def)
  qed (use copy v in \<open>simp_all add: dbUnshareStringValue_def Let_def\<close>)
qed

section \<open>The commands keep the invariant\<close>

lemma setGeneric_store_wp:
  assumes g: "G s0 {} {} s" and i: "i < length (dbs s)" and v: "val_ok val"
  shows "wp (setKey i key val s) (\<lambda>s. wp (if ex then setExpire i key (w (add_dirty 1 s)) (add_dirty 1 s) else Some (add_dirty 1 s))
    (\<lambda>s. G s0 {} {} (addReply c r (if ex then notifyKeyspaceEvent NOTIFY_GENERIC ''expire'' key i (notifyKeyspaceEvent NOTIFY_STRING ''set'' key i s)
       else notifyKeyspaceEvent NOTIFY_STRING ''set'' key i s))))"
proof (rule setKey_wp [OF g i v])
  fix s1 assume g1: "G s0 (insert (i, key) {}) (insert (i, key) {}) s1" and st: "stored i key val s s1"
  then have g2: "G s0 (insert (i, key) {}) (insert (i, key) {}) (add_dirty 1 s1)" by blast
  have i2: "i < length (dbs (add_dirty 1 s1))" and k2: "db_dict (dbs (add_dirty 1 s1) ! i) key \<noteq> None"
    using st i by (simp_all add: stored_def)
  have "wp (setExpire i key (w (add_dirty 1 s1)) (add_dirty 1 s1)) (\<lambda>s. G s0 {} {} s)"
    by (rule setExpire_wp [OF g2 i2 k2]) (auto intro: G_settle)
  moreover have "G s0 {} {} (add_dirty 1 s1)" by (rule G_settle [OF g2]) simp
  ultimately show "wp (if ex then setExpire i key (w (add_dirty 1 s1)) (add_dirty 1 s1) else Some (add_dirty 1 s1))
    (\<lambda>s. G s0 {} {} (addReply c r (if ex then notifyKeyspaceEvent NOTIFY_GENERIC ''expire'' key i (notifyKeyspaceEvent NOTIFY_STRING ''set'' key i s)
       else notifyKeyspaceEvent NOTIFY_STRING ''set'' key i s)))"
    by (auto elim!: wp_mono)
qed

text \<open>The test of the NX and XX flags only expires the key.\<close>

lemma set_flags_wp:
  assumes g: "G s0 {} {} s" and i: "i < length (dbs s)"
    and Q: "\<And>s' b. G s0 {} {} s' \<Longrightarrow> length (dbs s') = length (dbs s) \<Longrightarrow> Q (s', b)"
  shows "wp ((if nx then lookupKeyWrite i key s \<bind> (\<lambda>(s, o1). Some (s, o1 \<noteq> None)) else Some (s, False)) \<bind>
    (\<lambda>(s, abort_nx). if abort_nx then Some (s, True)
       else if xx then lookupKeyWrite i key s \<bind> (\<lambda>(s, o1). Some (s, o1 = None)) else Some (s, False))) Q"
proof -
  have xx: "wp (if abort_nx then Some (s1, True)
       else if xx then lookupKeyWrite i key s1 \<bind> (\<lambda>(s, o1). Some (s, o1 = None)) else Some (s1, False)) Q"
    if "G s0 {} {} s1" "length (dbs s1) = length (dbs s)" for s1 abort_nx
    using lookupKeyWrite_wp [OF that(1), of i key "\<lambda>(s, o1). Q (s, o1 = None)"] that i Q by (simp add: case_prod_unfold)
  show ?thesis
  proof (cases nx)
    case True
    show ?thesis unfolding if_P [OF True]
      by (rule wp_bindI, rule wp_bindI, rule lookupKeyWrite_wp [OF g i], unfold prod.case wp_simps(1), rule xx) simp_all
  next
    case False
    show ?thesis unfolding if_not_P [OF False] by (rule wp_bindI, unfold prod.case wp_simps(1), rule xx [OF g]) simp
  qed
qed

lemma setGenericCommand_wp:
  assumes g: "G s0 {} {} s" and v: "val_ok val" and ex: "\<And>e. expire = Some e \<Longrightarrow> \<exists>r. getLongLongFromObject (Some e) = Some r"
  shows "wp (setGenericCommand c cmdname nx xx key val expire seconds ok_reply abort_reply s) (G s0 {} {})"
proof -
  let ?i = "c_db (client_of s c)"
  define rest where "rest p = (case p of (s, ms) \<Rightarrow> (case ms of None \<Rightarrow> Some s | Some milliseconds \<Rightarrow> do {
         (s, abort) \<leftarrow> do {
           (s, abort_nx) \<leftarrow> (if nx then do { (s, o1) \<leftarrow> lookupKeyWrite ?i key s; Some (s, o1 \<noteq> None) } else Some (s, False));
           if abort_nx then Some (s, True)
           else if xx then do { (s, o1) \<leftarrow> lookupKeyWrite ?i key s; Some (s, o1 = None) } else Some (s, False) };
         if abort then Some (addReply c (case abort_reply of Some r \<Rightarrow> r | None \<Rightarrow> NullBulk) s)
         else do {
           s \<leftarrow> setKey ?i key val s;
           s \<leftarrow> (if expire \<noteq> None then setExpire ?i key (mstime (cfg (add_dirty 1 s)) + milliseconds) (add_dirty 1 s) else Some (add_dirty 1 s));
           Some (addReply c (case ok_reply of Some r \<Rightarrow> r | None \<Rightarrow> OkReply) (if expire \<noteq> None
             then notifyKeyspaceEvent NOTIFY_GENERIC ''expire'' key ?i (notifyKeyspaceEvent NOTIFY_STRING ''set'' key ?i s)
             else notifyKeyspaceEvent NOTIFY_STRING ''set'' key ?i s)) } }))" for p
  have rest: "wp (rest (t, ms)) (G s0 {} {})" if t: "G s0 {} {} t" "dbs t = dbs s" for t ms
  proof (cases ms)
    case (Some milliseconds)
    have i: "?i < length (dbs t)" using G_db(2) [OF g] t(2) by simp
    show ?thesis unfolding rest_def Some prod.case option.case
    proof (rule wp_bindI, rule set_flags_wp [OF t(1) i], unfold prod.case)
      fix s1 b assume s1: "G s0 {} {} s1" "length (dbs s1) = length (dbs t)"
      show "wp (if b then Some (addReply c (case abort_reply of Some r \<Rightarrow> r | None \<Rightarrow> NullBulk) s1)
         else do {
           s \<leftarrow> setKey ?i key val s1;
           s \<leftarrow> (if expire \<noteq> None then setExpire ?i key (mstime (cfg (add_dirty 1 s)) + milliseconds) (add_dirty 1 s) else Some (add_dirty 1 s));
           Some (addReply c (case ok_reply of Some r \<Rightarrow> r | None \<Rightarrow> OkReply) (if expire \<noteq> None
             then notifyKeyspaceEvent NOTIFY_GENERIC ''expire'' key ?i (notifyKeyspaceEvent NOTIFY_STRING ''set'' key ?i s)
             else notifyKeyspaceEvent NOTIFY_STRING ''set'' key ?i s)) }) (G s0 {} {})"
      proof (cases b)
        case True
        then show ?thesis using s1 by auto
      next
        case False
        have i1: "?i < length (dbs s1)" using i s1(2) by simp
        show ?thesis unfolding if_not_P [OF False]
          by (rule wp_bindI, unfold wp_simps(1,3), rule setGeneric_store_wp [OF s1(1) i1 v])
      qed
    qed
  qed (use t in \<open>simp add: rest_def\<close>)
  have eq: "setGenericCommand c cmdname nx xx key val expire seconds ok_reply abort_reply s = do {
     p \<leftarrow> (case expire of
         None \<Rightarrow> Some (s, Some 0)
       | Some e \<Rightarrow> do {
           (s, r) \<leftarrow> getLongLongOrReply c (Some e) None s;
           Some (case r of None \<Rightarrow> (s, None)
             | Some milliseconds \<Rightarrow>
                 if sint milliseconds \<le> 0
                 then (addReply c (ErrorReply (''invalid expire time in '' @ cmdname)) s, None)
                 else (s, Some (if seconds then milliseconds * 1000 else milliseconds))) });
     rest p }"
    unfolding setGenericCommand_def rest_def Let_def by (simp only: case_prod_unfold Option.bind_assoc prod.case)
  show ?thesis
    unfolding eq wp_simps
  proof (cases expire)
    case (Some e)
    then obtain r where r: "getLongLongFromObject (Some e) = Some r" using ex by blast
    show "wp (case expire of None \<Rightarrow> Some (s, Some 0) | Some e \<Rightarrow> getLongLongOrReply c (Some e) None s \<bind> (\<lambda>(s, r).
           Some (case r of None \<Rightarrow> (s, None) | Some milliseconds \<Rightarrow>
                 if sint milliseconds \<le> 0 then (addReply c (ErrorReply (''invalid expire time in '' @ cmdname)) s, None)
                 else (s, Some (if seconds then milliseconds * 1000 else milliseconds)))))
       (\<lambda>x. wp (rest x) (G s0 {} {}))"
      unfolding Some option.case wp_simps
      by (rule getLongLong_wp [OF g r]) (auto intro!: rest split: option.split)
  qed (use rest [OF g] in simp)
qed

lemma arg_encoded_ok:
  assumes "length (argv ! j) \<le> STRING_MAX"
  obtains e where "tryObjectEncoding sh (arg_obj argv j) = Some e" "obj_bytes e = Some (argv ! j)" "val_ok e"
proof -
  obtain e where "tryObjectEncoding sh (arg_obj argv j) = Some e" "obj_bytes e = Some (argv ! j)"
    using arg_encoded by blast
  then show thesis using that assms by (simp add: val_ok_def)
qed

lemma set_commands_wp:
  assumes g: "G s0 {} {} s"
  shows "length (argv ! 2) \<le> STRING_MAX \<Longrightarrow> wp (setCommand c argv s) (G s0 {} {})"
    "length (argv ! 2) \<le> STRING_MAX \<Longrightarrow> wp (setnxCommand c argv s) (G s0 {} {})"
    "length (argv ! 3) \<le> STRING_MAX \<Longrightarrow> wp (setexCommand c argv s) (G s0 {} {})"
    "length (argv ! 3) \<le> STRING_MAX \<Longrightarrow> wp (psetexCommand c argv s) (G s0 {} {})"
proof -
  have ex: "\<exists>r. getLongLongFromObject (Some (createStringObject a)) = Some r" for a
    by (simp add: getLongLong_bytes)
  note gen = setGenericCommand_wp [OF g]
  show "wp (setCommand c argv s) (G s0 {} {})" if len: "length (argv ! 2) \<le> STRING_MAX"
  proof -
    obtain e where e: "tryObjectEncoding (shared_args (cfg s)) (arg_obj argv 2) = Some e" "val_ok e"
      using arg_encoded_ok [OF len] .
    show ?thesis
    proof (cases "parse_opts (drop 3 argv) no_opts")
      case (Some f)
      have "wp (setGenericCommand c ''set'' (o_nx f) (o_xx f) (argv ! 1) e (map_option createStringObject (o_expire f)) (o_seconds f) None None s) (G s0 {} {})"
        by (rule gen [OF e(2)]) (auto simp: ex)
      then show ?thesis using Some e(1) by (simp add: setCommand_def)
    qed (use g in \<open>auto simp: setCommand_def\<close>)
  qed
  show "wp (setnxCommand c argv s) (G s0 {} {})" if len: "length (argv ! 2) \<le> STRING_MAX"
    by (rule arg_encoded_ok [OF len, of "shared_args (cfg s)"]) (auto simp: setnxCommand_def intro!: gen)
  show "wp (setexCommand c argv s) (G s0 {} {})" if len: "length (argv ! 3) \<le> STRING_MAX"
    by (rule arg_encoded_ok [OF len, of "shared_args (cfg s)"]) (auto simp: setexCommand_def arg_obj_def ex intro!: gen)
  show "wp (psetexCommand c argv s) (G s0 {} {})" if len: "length (argv ! 3) \<le> STRING_MAX"
    by (rule arg_encoded_ok [OF len, of "shared_args (cfg s)"]) (auto simp: psetexCommand_def arg_obj_def ex intro!: gen)
qed

lemma getGenericCommand_wp:
  assumes g: "G s0 {} {} s"
  shows "wp (getGenericCommand c argv s) (\<lambda>(s', ok). G s0 {} {} s' \<and> length (dbs s') = length (dbs s))"
  unfolding getGenericCommand_def
proof (rule wp_bindI, rule lookupReadOrReply_wp [OF g], unfold prod.case)
  fix s1 val assume g1: "G s0 {} {} s1" and d: "dbs s1 = (dbs s)[c_db (client_of s c) := dbs s1 ! c_db (client_of s c)]"
  have l: "length (dbs s1) = length (dbs s)" using d by (metis length_list_update)
  show "wp (case val of None \<Rightarrow> Some (s1, True) | Some v \<Rightarrow>
      if type_of v \<noteq> OBJ_STRING then Some (addReply c wrongtypeerr s1, False)
      else addReplyBulk c v s1 \<bind> (\<lambda>s. Some (s, True))) (\<lambda>(s', ok). G s0 {} {} s' \<and> length (dbs s') = length (dbs s))"
  proof (cases val)
    case (Some v)
    have "wp (addReplyBulk c v s1) (\<lambda>s'. G s0 {} {} s' \<and> length (dbs s') = length (dbs s))" if "type_of v = OBJ_STRING"
      using that addReplyBulk_eq g1 l by (auto simp: obj_bytes_type)
    then show ?thesis using Some g1 l by auto
  qed (use g1 l in auto)
qed

lemma getCommand_wp: "G s0 {} {} s \<Longrightarrow> wp (getCommand c argv s) (G s0 {} {})"
  using getGenericCommand_wp [of s0 s c argv] by (auto simp: getCommand_def elim!: wp_mono)

lemma getsetCommand_wp:
  assumes g: "G s0 {} {} s" and len: "length (argv ! 2) \<le> STRING_MAX"
  shows "wp (getsetCommand c argv s) (G s0 {} {})"
  unfolding getsetCommand_def Let_def
proof (rule wp_bindI, rule wp_mono [OF getGenericCommand_wp [OF g]])
  fix x :: "server \<times> bool" assume x: "case x of (s', ok) \<Rightarrow> G s0 {} {} s' \<and> length (dbs s') = length (dbs s)"
  obtain s1 ok where x1: "x = (s1, ok)" by (cases x)
  then have g1: "G s0 {} {} s1" and i1: "c_db (client_of s c) < length (dbs s1)" using x G_db(2) [OF g] by simp_all
  obtain e where e: "tryObjectEncoding (shared_args (cfg s1)) (arg_obj argv 2) = Some e" "val_ok e"
    using arg_encoded_ok [OF len] .
  have "wp (setKey (c_db (client_of s c)) (argv ! 1) e s1)
      (\<lambda>s'. G s0 {} {} (add_dirty 1 (notifyKeyspaceEvent NOTIFY_STRING ''set'' (argv ! 1) (c_db (client_of s c)) s')))"
    by (rule setKey_wp [OF g1 i1 e(2)]) (auto intro: G_settle)
  then show "wp (case x of (s', ok) \<Rightarrow> if \<not> ok then Some s'
      else tryObjectEncoding (shared_args (cfg s')) (arg_obj argv 2) \<bind> (\<lambda>val.
        setKey (c_db (client_of s c)) (argv ! 1) val s' \<bind> (\<lambda>s'. Some (add_dirty 1
          (notifyKeyspaceEvent NOTIFY_STRING ''set'' (argv ! 1) (c_db (client_of s c)) s'))))) (G s0 {} {})"
    using x1 g1 e by (cases ok) simp_all
qed

lemma strlenCommand_wp:
  assumes g: "G s0 {} {} s"
  shows "wp (strlenCommand c argv s) (G s0 {} {})"
  unfolding strlenCommand_def
proof (rule wp_bindI, rule lookupReadOrReply_wp [OF g], unfold prod.case)
  fix s1 val assume g1: "G s0 {} {} s1"
  show "wp (case val of None \<Rightarrow> Some s1 | Some v \<Rightarrow> (case checkType c v OBJ_STRING s1 of
      (s, True) \<Rightarrow> Some s | (s, False) \<Rightarrow> stringObjectLen v \<bind> (\<lambda>n. Some (addReply c (IntReply (of_nat n)) s)))) (G s0 {} {})"
  proof (cases val)
    case (Some v)
    then show ?thesis using g1 checkType_string [of v] stringObjectLen_bytes [of v]
      by (cases "obj_bytes v") auto
  qed (use g1 in simp)
qed

section \<open>Several keys\<close>

lemma mget_loop_wp: "G s0 {} {} s \<Longrightarrow> i < length (dbs s) \<Longrightarrow> wp (mget_loop c i keys s) (G s0 {} {})"
proof (induction keys arbitrary: s)
  case (Cons key keys)
  show ?case
    unfolding mget_loop.simps
  proof (rule wp_bindI, rule lookupKeyRead_wp [OF Cons.prems], unfold prod.case)
    fix s1 val assume g1: "G s0 {} {} s1" and l1: "looked i key s s1"
    have i1: "i < length (dbs s1)" using l1 Cons.prems(2) by simp
    have step: "wp (mget_loop c i keys (addReply c r s1)) (G s0 {} {})" for r
      using Cons.IH [of "addReply c r s1"] g1 i1 by auto
    show "wp ((case val of None \<Rightarrow> Some (addReply c NullBulk s1) | Some v \<Rightarrow>
        if type_of v \<noteq> OBJ_STRING then Some (addReply c NullBulk s1) else addReplyBulk c v s1) \<bind> mget_loop c i keys) (G s0 {} {})"
      using step addReplyBulk_eq by (cases val) (auto simp: obj_bytes_type)
  qed
qed simp

lemma mgetCommand_wp: "G s0 {} {} s \<Longrightarrow> wp (mgetCommand c argv s) (G s0 {} {})"
  unfolding mgetCommand_def by (rule mget_loop_wp) (auto intro: G_db(2))

lemma busy_loop_wp:
  "G s0 {} {} s \<Longrightarrow> i < length (dbs s) \<Longrightarrow>
   wp (busy_loop i args n s) (\<lambda>(s', _). G s0 {} {} s' \<and> length (dbs s') = length (dbs s))"
proof (induction args arbitrary: n s rule: induct_list012)
  case (3 key val rest)
  show ?case
    unfolding busy_loop.simps
  proof (rule wp_bindI, rule lookupKeyWrite_wp [OF "3.prems"], unfold prod.case)
    fix s1 assume "G s0 {} {} s1" "looked i key s s1"
    then show "wp (busy_loop i rest (if db_dict (dbs s1 ! i) key \<noteq> None then n + 1 else n) s1)
      (\<lambda>(s', _). G s0 {} {} s' \<and> length (dbs s') = length (dbs s))"
      using "3.IH"(1) [of s1] "3.prems"(2) by simp
  qed
qed simp_all

lemma mset_loop_wp:
  "G s0 {} {} s \<Longrightarrow> i < length (dbs s) \<Longrightarrow> (\<forall>a \<in> set args. length a \<le> STRING_MAX) \<Longrightarrow>
   wp (mset_loop i args s) (G s0 {} {})"
proof (induction args arbitrary: s rule: induct_list012)
  case (3 key arg rest)
  have "length ([arg] ! 0) \<le> STRING_MAX" using "3.prems" by simp
  then obtain e where e: "tryObjectEncoding (shared_args (cfg s)) (createStringObject arg) = Some e" "val_ok e"
    using arg_encoded_ok [of "[arg]" 0 "shared_args (cfg s)"] by (auto simp: arg_obj_def)
  have "wp (setKey i key e s) (\<lambda>s. wp (mset_loop i rest (notifyKeyspaceEvent NOTIFY_STRING ''set'' key i s)) (G s0 {} {}))"
  proof (rule setKey_wp [OF "3.prems"(1,2) e(2)])
    fix s1 assume g: "G s0 (insert (i, key) {}) (insert (i, key) {}) s1" and st: "stored i key e s s1"
    have "G s0 {} {} s1" by (rule G_settle [OF g]) simp
    then show "wp (mset_loop i rest (notifyKeyspaceEvent NOTIFY_STRING ''set'' key i s1)) (G s0 {} {})"
      using "3.IH"(1) [of "notifyKeyspaceEvent NOTIFY_STRING ''set'' key i s1"] "3.prems"(2,3) st by (auto simp: stored_def)
  qed
  then show ?case using e(1) by simp
qed simp_all

lemma msetGenericCommand_wp:
  assumes g: "G s0 {} {} s" and args: "\<forall>a \<in> set (tl argv). length a \<le> STRING_MAX"
  shows "wp (msetGenericCommand nx c argv s) (G s0 {} {})"
proof -
  let ?i = "c_db (client_of s c)"
  have tail: "wp (if nx \<and> n \<noteq> 0 then Some (addReply c (IntReply 0) s1)
      else mset_loop ?i (tl argv) s1 \<bind> (\<lambda>s. Some (addReply c (if nx then IntReply 1 else OkReply)
        (add_dirty (int ((length argv - 1) div 2)) s)))) (G s0 {} {})"
    if "G s0 {} {} s1" "length (dbs s1) = length (dbs s)" for s1 and n :: nat
  proof -
    have "wp (mset_loop ?i (tl argv) s1) (G s0 {} {})"
      using mset_loop_wp [OF that(1) _ args] that(2) G_db(2) [OF g] by simp
    then show ?thesis using that(1) by (auto elim!: wp_mono)
  qed
  have "wp (if nx then busy_loop ?i (tl argv) 0 s else Some (s, 0)) (\<lambda>(s', _). G s0 {} {} s' \<and> length (dbs s') = length (dbs s))"
    using busy_loop_wp [OF g G_db(2) [OF g]] g by simp
  then have "wp ((if nx then busy_loop ?i (tl argv) 0 s else Some (s, 0)) \<bind> (\<lambda>(s1, n).
      if nx \<and> n \<noteq> 0 then Some (addReply c (IntReply 0) s1)
      else mset_loop ?i (tl argv) s1 \<bind> (\<lambda>s. Some (addReply c (if nx then IntReply 1 else OkReply)
        (add_dirty (int ((length argv - 1) div 2)) s))))) (G s0 {} {})"
    by (intro wp_bindI) (erule wp_mono, use tail in \<open>simp only: case_prod_unfold\<close>)
  then show ?thesis unfolding msetGenericCommand_def Let_def
    using g by (cases "length argv mod 2 = 0") (simp_all only: refl if_True if_False wp_simps(1) G_quiet)
qed

section \<open>Parts of strings\<close>

lemma sint_of_nat_int64: "n < 2 ^ 63 \<Longrightarrow> sint (of_nat n :: int64) = int n"
proof -
  assume n: "n < 2 ^ 63"
  then have "uint (of_nat n :: int64) = int n" by (simp add: unsigned_of_nat take_bit_nat_eq_self)
  moreover have "sint (of_nat n :: int64) = signed_take_bit 63 (uint (of_nat n :: int64))"
    by (simp add: sint_uint)
  moreover have "signed_take_bit 63 (int n) = int n" using n by (intro signed_take_bit_int_eq_self) simp_all
  ultimately show ?thesis by simp
qed

lemma checkStringLength_eq:
  "n < 2 ^ 63 \<Longrightarrow> checkStringLength c (of_nat n) s =
    (if n > STRING_MAX then (addReply c (ErrorReply ''string exceeds maximum allowed size (512MB)'') s, False) else (s, True))"
  unfolding checkStringLength_def by (simp add: sint_of_nat_int64)

lemma val_ok_bytes: "val_ok v \<Longrightarrow> obj_bytes v = Some b \<Longrightarrow> length b \<le> STRING_MAX"
  by (simp add: val_ok_def)

lemma G_alloc: "G s0 X D s \<Longrightarrow> n \<le> STRING_MAX \<Longrightarrow> n \<le> max_alloc (cfg s)"
  by (simp add: G_def server_ok_def)

text \<open>What a step leaves that changed at most one key: the state, and the size of the databases.\<close>

definition one_change :: "server \<Rightarrow> nat \<Rightarrow> key \<Rightarrow> server \<Rightarrow> server \<Rightarrow> bool" where
  "one_change s0 i key s s' \<longleftrightarrow> G s0 {(i, key)} {} s' \<and> length (dbs s') = length (dbs s)"

lemma append_value_wp:
  assumes g: "G s0 {} {} s" and i: "i < length (dbs s)" and len: "length (argv ! 2) \<le> STRING_MAX"
    and obj: "obj = db_dict (dbs s ! i) (argv ! 1)"
  shows "wp (append_value c i argv obj s) (\<lambda>(s', r).
    (case r of None \<Rightarrow> G s0 {} {} s' | Some b \<Rightarrow> one_change s0 i (argv ! 1) s s'))"
proof (cases obj)
  case None
  obtain e where e: "tryObjectEncoding (shared_args (cfg s)) (arg_obj argv 2) = Some e" "obj_bytes e = Some (argv ! 2)" "val_ok e"
    using arg_encoded_ok [OF len] .
  have "wp (dbAdd i (argv ! 1) e s) (one_change s0 i (argv ! 1) s)"
    by (rule dbAdd_wp [OF g i]) (use None obj e(3) in \<open>auto simp: one_change_def\<close>)
  then show ?thesis using None e stringObjectLen_bytes [OF e(2)] by (simp add: append_value_def)
next
  case (Some v)
  show ?thesis
  proof (cases "obj_bytes v")
    case None
    then show ?thesis using Some checkType_string(2) [of v] g by (auto simp: append_value_def)
  next
    case (Some b)
    have k: "db_dict (dbs s ! i) (argv ! 1) = Some v" using \<open>obj = Some v\<close> obj by simp
    have b: "length b \<le> STRING_MAX" using val_ok_bytes [OF db_ok_val [OF G_db(1) [OF g i] k] Some] .
    have "wp (dbUnshareStringValue i (argv ! 1) v s) (\<lambda>(s', o1). wp (ptr_sds o1 \<bind> (\<lambda>str.
        sdscatlen (cfg s') str (argv ! 2) \<bind> (\<lambda>str. Some (set_value i (argv ! 1) (Raw str) s'))))
      (one_change s0 i (argv ! 1) s))" if small: "length b + length (argv ! 2) \<le> STRING_MAX"
    proof (rule dbUnshareStringValue_wp [OF g i k Some], unfold prod.case)
      fix s2 assume g2: "G s0 (insert (i, argv ! 1) {}) {} s2" and l2: "length (dbs s2) = length (dbs s)"
      have "G s0 (insert (i, argv ! 1) (insert (i, argv ! 1) {})) {} (set_value i (argv ! 1) (Raw (b @ argv ! 2)) s2)"
        by (rule set_value_G [OF g2]) (use i l2 small in simp_all)
      then show "wp (ptr_sds (Raw b) \<bind> (\<lambda>str. sdscatlen (cfg s2) str (argv ! 2) \<bind> (\<lambda>str.
          Some (set_value i (argv ! 1) (Raw str) s2)))) (one_change s0 i (argv ! 1) s)"
        using l2 G_alloc [OF g2 small] by (simp add: sdscatlen_def one_change_def)
    qed
    then show ?thesis
      using \<open>obj = Some v\<close> checkType_string(1) [OF Some] stringObjectLen_bytes [OF Some] b len g
        checkStringLength_eq [of "length b + length (argv ! 2)" c s]
      by (auto simp: append_value_def case_prod_unfold)
  qed
qed

lemma appendCommand_wp:
  assumes g: "G s0 {} {} s" and len: "length (argv ! 2) \<le> STRING_MAX"
  shows "wp (appendCommand c argv s) (G s0 {} {})"
  unfolding appendCommand_def Let_def
proof (rule wp_bindI, rule lookupKeyWrite_wp [OF g G_db(2) [OF g]], unfold prod.case)
  let ?i = "c_db (client_of s c)" and ?key = "argv ! 1"
  fix s1 assume g1: "G s0 {} {} s1" and l1: "looked ?i ?key s s1"
  have i1: "?i < length (dbs s1)" using l1 G_db(2) [OF g] by simp
  show "wp (append_value c ?i argv (db_dict (dbs s1 ! ?i) ?key) s1 \<bind> (\<lambda>(s, r). case r of None \<Rightarrow> Some s
      | Some totlen \<Rightarrow> Some (addReply c (IntReply (of_nat totlen)) (add_dirty 1 (notifyKeyspaceEvent NOTIFY_STRING ''append'' ?key ?i
          (signalModifiedKey ?i ?key s)))))) (G s0 {} {})"
    by (rule wp_bindI, rule wp_mono [OF append_value_wp [OF g1 i1 len refl]])
      (auto simp: one_change_def case_prod_unfold intro!: G_settle_signal split: option.splits)
qed

text \<open>A non-negative long is the number of its unsigned value.\<close>

lemma nonneg_int64: "0 \<le> sint (w :: int64) \<Longrightarrow> sint w = int (unat w) \<and> unat w < 2 ^ 63"
proof -
  assume a: "0 \<le> sint w"
  have "uint w < 2 ^ 63"
  proof (rule ccontr)
    assume n: "\<not> uint w < 2 ^ 63"
    have "uint w < 2 ^ 64" using uint_lt2p [of w] by simp
    moreover have "sint w = uint w - 2 ^ 64" unfolding sint_uint_64 by (rule if_not_P [OF n])
    ultimately show False using a by linarith
  qed
  moreover from this have "sint w = uint w" unfolding sint_uint_64 by (rule if_P)
  moreover have u: "uint w = int (unat w)" by (rule uint_nat)
  ultimately have "int (unat w) < int (2 ^ 63)" "sint w = int (unat w)" by (simp_all only: of_nat_power of_nat_numeral)
  then show ?thesis by (simp only: of_nat_less_iff simp_thms)
qed

lemma range_newlen:
  assumes "0 \<le> sint offset" "sint offset + int n < 2 ^ 63"
  shows "offset + of_nat n = (of_nat (unat offset + n) :: int64)" "unat (offset + of_nat n) = unat offset + n"
proof -
  have u: "sint offset = int (unat offset)" using nonneg_int64 [OF assms(1)] by simp
  show eq: "offset + of_nat n = (of_nat (unat offset + n) :: int64)" by simp
  have "int (unat offset + n) < int (2 ^ 64)" using assms(2) u by (simp del: uint_nat of_nat_unat)
  then have "unat offset + n < 2 ^ 64" by (simp only: of_nat_less_iff)
  then show "unat (offset + of_nat n) = unat offset + n" unfolding eq by (intro unat_of_nat_small) simp
qed

lemma setrange_grow:
  assumes "off + length v \<le> max_alloc g" "length b \<le> max_alloc g"
  shows "\<exists>str. sdsgrowzero g b (off + length v) = Some str \<and> str = b @ replicate (off + length v - length b) 0 \<and>
    mem_write str off v = Some (take off str @ v @ drop (off + length v) str)"
  using assms by (auto simp: sdsgrowzero_def mem_write_def)

lemma setrange_write_wp:
  assumes g: "one_change s0 i key t s" and i: "i < length (dbs s)"
    and n: "unat newlen = unat offset + length v" "unat newlen \<le> STRING_MAX" and b: "length b \<le> STRING_MAX"
  shows "wp (setrange_write c i key v offset newlen (Raw b) s) (G s0 {} {})"
proof -
  have g': "G s0 {(i, key)} {} s" using g by (simp add: one_change_def)
  have "unat offset + length v \<le> max_alloc (cfg s)" using G_alloc [OF g' n(2)] n(1) by simp
  from setrange_grow [OF this G_alloc [OF g' b]]
  obtain str where str: "sdsgrowzero (cfg s) b (unat newlen) = Some str" "str = b @ replicate (unat newlen - length b) 0"
    "mem_write str (unat offset) v = Some (take (unat offset) str @ v @ drop (unat newlen) str)"
    using n(1) by auto
  let ?str = "take (unat offset) str @ v @ drop (unat newlen) str"
  have "length ?str \<le> STRING_MAX" using str(2) n b by simp
  then have "G s0 (insert (i, key) {(i, key)}) {} (set_value i key (Raw ?str) s)" by (intro set_value_G [OF g' i]) simp
  from G_finish [OF this, of i key] show ?thesis using str(1,3) by (simp add: setrange_write_def Let_def)
qed

lemma setrange_target_wp:
  assumes g: "G s0 {} {} s" and i: "i < length (dbs s)" and n: "newlen = of_nat n" "n < 2 ^ 63"
    and obj: "obj = db_dict (dbs s ! i) key"
  shows "wp (setrange_target c i key v newlen obj s) (\<lambda>(s', target). case target of None \<Rightarrow> G s0 {} {} s'
    | Some o1 \<Rightarrow> one_change s0 i key s s' \<and> n \<le> STRING_MAX \<and> (\<exists>b. o1 = Raw b \<and> length b \<le> STRING_MAX))"
proof -
  have u: "unat newlen = n" using n by (simp add: unat_of_nat_small)
  note check = checkStringLength_eq [OF n(2), of c, folded n(1)]
  show ?thesis
  proof (cases obj)
    case None
    have "wp (dbAdd i key (Raw (replicate n 0)) s) (one_change s0 i key s)" if "n \<le> STRING_MAX"
      by (rule dbAdd_wp [OF g i]) (use None obj that in \<open>auto simp: one_change_def\<close>)
    then show ?thesis
      using None g G_alloc [OF g, of n] u by (auto simp: setrange_target_def check sdsnewlen_zero_def elim!: wp_mono)
  next
    case (Some v)
    then have k: "db_dict (dbs s ! i) key = Some v" using obj by simp
    show ?thesis
    proof (cases "obj_bytes v")
      case None
      then show ?thesis using Some checkType_string(2) [of v] g by (auto simp: setrange_target_def)
    next
      case (Some b)
      have b: "length b \<le> STRING_MAX" using val_ok_bytes [OF db_ok_val [OF G_db(1) [OF g i] k] Some] .
      have "wp (dbUnshareStringValue i key v s) (\<lambda>(s', o1). one_change s0 i key s s' \<and> (\<exists>b. o1 = Raw b \<and> length b \<le> STRING_MAX))"
        by (rule dbUnshareStringValue_wp [OF g i k Some]) (use b in \<open>simp add: one_change_def\<close>)
      then show ?thesis
        using \<open>obj = Some v\<close> checkType_string(1) [OF Some] stringObjectLen_bytes [OF Some] g
        by (auto simp: setrange_target_def check case_prod_unfold elim!: wp_mono)
    qed
  qed
qed

lemma setrangeCommand_wp:
  assumes g: "G s0 {} {} s"
    and nowrap: "\<And>offset. string2ll (argv ! 2) = Some offset \<Longrightarrow> sint offset + int (length (argv ! 3)) < 2 ^ 63"
  shows "wp (setrangeCommand c argv s) (G s0 {} {})"
  unfolding setrangeCommand_def Let_def getLong_OrReply_eq
proof (rule wp_bindI, rule getLongLong_wp [OF g arg_obj_long], unfold prod.case)
  let ?i = "c_db (client_of s c)" and ?key = "argv ! 1" and ?v = "argv ! 3"
  fix s1 assume g1: "G s0 {} {} s1" and d1: "dbs s1 = dbs s"
  have i1: "?i < length (dbs s1)" using G_db(2) [OF g] d1 by simp
  have go: "wp (lookupKeyWrite ?i ?key s1 \<bind> (\<lambda>(s, obj). setrange_target c ?i ?key ?v (offset + of_nat (length ?v)) obj s \<bind>
      (\<lambda>(s, target). case target of None \<Rightarrow> Some s | Some o1 \<Rightarrow> setrange_write c ?i ?key ?v offset (offset + of_nat (length ?v)) o1 s)))
      (G s0 {} {})" if o: "string2ll (argv ! 2) = Some offset" and nn: "0 \<le> sint offset" for offset
  proof (rule wp_bindI, rule lookupKeyWrite_wp [OF g1 i1], unfold prod.case)
    fix s2 assume g2: "G s0 {} {} s2" and l2: "looked ?i ?key s1 s2"
    have i2: "?i < length (dbs s2)" using l2 i1 by simp
    note len = range_newlen [OF nn nowrap [OF o]]
    have "int (unat offset + length ?v) < int (2 ^ 63)"
      using nowrap [OF o] nonneg_int64 [OF nn] by (simp del: uint_nat of_nat_unat)
    then have small: "unat offset + length ?v < 2 ^ 63" by (simp only: of_nat_less_iff)
    show "wp (setrange_target c ?i ?key ?v (offset + of_nat (length ?v)) (db_dict (dbs s2 ! ?i) ?key) s2 \<bind>
      (\<lambda>(s, target). case target of None \<Rightarrow> Some s | Some o1 \<Rightarrow> setrange_write c ?i ?key ?v offset (offset + of_nat (length ?v)) o1 s))
      (G s0 {} {})"
      by (rule wp_bindI, rule wp_mono [OF setrange_target_wp [OF g2 i2 len(1) small refl]])
        (use setrange_write_wp i2 len(2) in \<open>auto simp: one_change_def case_prod_unfold split: option.splits\<close>)
  qed
  show "wp (case string2ll (argv ! 2) of None \<Rightarrow> Some s1 | Some offset \<Rightarrow>
       if sint offset < 0 then Some (addReply c (ErrorReply ''offset is out of range'') s1)
       else lookupKeyWrite ?i ?key s1 \<bind> (\<lambda>(s, obj). setrange_target c ?i ?key ?v (offset + of_nat (length ?v)) obj s \<bind>
      (\<lambda>(s, target). case target of None \<Rightarrow> Some s | Some o1 \<Rightarrow> setrange_write c ?i ?key ?v offset (offset + of_nat (length ?v)) o1 s)))
      (G s0 {} {})"
  proof (rule wp_optionI)
    fix offset assume o: "string2ll (argv ! 2) = Some offset"
    have "G s0 {} {} (addReply c (ErrorReply ''offset is out of range'') s1)" using g1 by blast
    then show "wp (if sint offset < 0 then Some (addReply c (ErrorReply ''offset is out of range'') s1)
       else lookupKeyWrite ?i ?key s1 \<bind> (\<lambda>(s, obj). setrange_target c ?i ?key ?v (offset + of_nat (length ?v)) obj s \<bind>
      (\<lambda>(s, target). case target of None \<Rightarrow> Some s | Some o1 \<Rightarrow> setrange_write c ?i ?key ?v offset (offset + of_nat (length ?v)) o1 s)))
      (G s0 {} {})"
      by (intro wp_ifI, simp only: wp_simps) (rule go [OF o], simp)
  qed (use g1 in simp)
qed

lemma sint_add_int64:
  "- (2 ^ 63) \<le> sint a + sint b \<Longrightarrow> sint a + sint b < 2 ^ 63 \<Longrightarrow> sint (a + b :: int64) = sint a + sint b"
  unfolding sint_word_ariths by (rule signed_take_bit_int_eq_self) simp_all

text \<open>What GETRANGE means: the first and last index, after negative indexes count from the end.\<close>

definition range_start :: "int \<Rightarrow> nat \<Rightarrow> int" where
  "range_start start n = (if start < 0 then max 0 (int n + start) else start)"

definition range_end :: "int \<Rightarrow> nat \<Rightarrow> int" where
  "range_end stop n = min (int n - 1) (if stop < 0 then max 0 (int n + stop) else stop)"

definition range_empty :: "int \<Rightarrow> int \<Rightarrow> nat \<Rightarrow> bool" where
  "range_empty start stop n \<longleftrightarrow> n = 0 \<or> start < 0 \<and> stop < 0 \<and> start > stop \<or> range_start start n > range_end stop n"

lemma clamp_index:
  fixes i :: int64
  assumes n: "n < 2 ^ 63"
  shows "sint (let j = (if sint i < 0 then of_nat n + i else i) in if sint j < 0 then 0 else j) =
    (if sint i < 0 then max 0 (int n + sint i) else sint i)"
proof -
  have "sint (of_nat n :: int64) = int n" by (rule sint_of_nat_int64 [OF n])
  moreover have "- (2 ^ 63) \<le> sint i" using sint_ge [of i] by simp
  ultimately have "sint (of_nat n + i) = int n + sint i" if "sint i < 0"
    using n that by (subst sint_add_int64) auto
  then show ?thesis by (auto simp: Let_def)
qed

lemma range_bounds_eq:
  assumes n: "n < 2 ^ 63"
  shows "case range_bounds start stop (of_nat n) of None \<Rightarrow> range_empty (sint start) (sint stop) n
    | Some (a, b) \<Rightarrow> \<not> range_empty (sint start) (sint stop) n \<and>
        sint a = range_start (sint start) n \<and> sint b = range_end (sint stop) n"
proof -
  define a :: int64 where "a = (let j = (if sint start < 0 then of_nat n + start else start) in if sint j < 0 then 0 else j)"
  define e :: int64 where "e = (let j = (if sint stop < 0 then of_nat n + stop else stop) in if sint j < 0 then 0 else j)"
  define b :: int64 where "b = (if e \<ge> of_nat n then of_nat n - 1 else e)"
  have a: "sint a = range_start (sint start) n" using clamp_index [OF n, of start] by (simp add: a_def range_start_def)
  have e: "sint e = (if sint stop < 0 then max 0 (int n + sint stop) else sint stop)"
    using clamp_index [OF n, of stop] by (simp add: e_def)
  then have "0 \<le> sint e" by auto
  then have eu: "sint e = int (unat e)" using nonneg_int64 by blast
  have nu: "unat (of_nat n :: int64) = n" using n by (simp add: unat_of_nat_small)
  have re: "range_end (sint stop) n = min (int n - 1) (int (unat e))" unfolding range_end_def e [symmetric] eu ..
  have b: "sint b = range_end (sint stop) n" if "0 < n"
  proof (cases "n \<le> unat e")
    case True
    then have "b = of_nat (n - 1)" using that nu by (simp add: b_def word_le_nat_alt of_nat_diff)
    then have "sint b = int (n - 1)" using n by (simp add: sint_of_nat_int64)
    then show ?thesis unfolding re using True that by (simp del: of_nat_unat uint_nat)
  next
    case False
    then have "sint b = int (unat e)" using nu eu by (simp add: b_def word_le_nat_alt)
    moreover have "int (unat e) \<le> int n - 1" using False by linarith
    ultimately show ?thesis unfolding re by linarith
  qed
  have z: "of_nat n = (0 :: int64) \<longleftrightarrow> n = 0"
  proof
    assume "of_nat n = (0 :: int64)"
    then have "unat (of_nat n :: int64) = unat (0 :: int64)" by (rule arg_cong)
    then show "n = 0" unfolding nu by simp
  qed simp
  have "range_bounds start stop (of_nat n) =
    (if sint start < 0 \<and> sint stop < 0 \<and> sint start > sint stop then None
     else if sint a > sint b \<or> n = 0 then None else Some (a, b))"
    unfolding range_bounds_def a_def b_def e_def Let_def z by simp
  then show ?thesis using a b by (auto simp: range_empty_def)
qed

lemma read_between:
  fixes a b :: int64
  assumes n: "length str < 2 ^ 63" and le: "0 \<le> sint a" "sint a \<le> sint b" "sint b < int (length str)"
  shows "unat (b - a + 1) = nat (sint b - sint a + 1)" "unat a = nat (sint a)"
    "mem_read str (unat a) (unat (b - a + 1)) = Some (take (nat (sint b - sint a + 1)) (drop (nat (sint a)) str))"
proof -
  have ua: "sint a = int (unat a)" and ub: "sint b = int (unat b)"
    using nonneg_int64 [of a] nonneg_int64 [of b] le by linarith+
  have ab: "unat a \<le> unat b" "unat b < length str" using le(2,3) unfolding ua ub by (simp_all only: of_nat_le_iff of_nat_less_iff)
  have "b - a + 1 = (of_nat (unat b - unat a + 1) :: int64)" using ab(1) by (simp add: of_nat_diff)
  moreover have "unat b - unat a + 1 < 2 ^ 64" using ab n by simp
  ultimately have u: "unat (b - a + 1) = unat b - unat a + 1"
    using unat_of_nat_small [of "unat b - unat a + 1", where 'a = 64] by (simp only: len_num1 len_bit0 len_bit1 mult_2 numeral_eq_one_iff) simp
  moreover have s: "nat (sint b - sint a + 1) = unat b - unat a + 1" "nat (sint a) = unat a"
    using ab(1) unfolding ua ub by (simp_all del: of_nat_unat uint_nat add: nat_diff_distrib')
  ultimately show "unat (b - a + 1) = nat (sint b - sint a + 1)" "unat a = nat (sint a)" by simp_all
  have "unat a + (unat b - unat a + 1) \<le> length str" using ab by simp
  then show "mem_read str (unat a) (unat (b - a + 1)) = Some (take (nat (sint b - sint a + 1)) (drop (nat (sint a)) str))"
    unfolding u s by (simp only: mem_read_def if_True)
qed

lemma range_read:
  assumes n: "length str < 2 ^ 63" and r: "range_bounds start stop (of_nat (length str)) = Some (a, b)"
  shows "mem_read str (unat a) (unat (b - a + 1)) =
    Some (take (nat (range_end (sint stop) (length str) - range_start (sint start) (length str) + 1))
      (drop (nat (range_start (sint start) (length str))) str))"
proof -
  have ne: "\<not> range_empty (sint start) (sint stop) (length str)"
    and a: "sint a = range_start (sint start) (length str)" and b: "sint b = range_end (sint stop) (length str)"
    using range_bounds_eq [OF n, of start stop] r by simp_all
  have "0 \<le> sint a" "sint a \<le> sint b" "sint b < int (length str)"
    using ne unfolding a b range_empty_def range_start_def range_end_def by auto
  from read_between(3) [OF n this] show ?thesis unfolding a b .
qed

lemma range_str_bytes: "obj_bytes v = Some b \<Longrightarrow> range_str v = Some b"
proof (cases v)
  case (IntObj n)
  have l: "length (sdec n) \<le> 20" by (rule length_sdec)
  then have "unat (of_nat (length (sdec n)) :: uint32) = length (sdec n)" by (simp add: unat_of_nat_small)
  moreover assume "obj_bytes v = Some b"
  ultimately show ?thesis using l IntObj by (simp add: range_str_def ll2string_eq Let_def)
qed (auto simp: range_str_def)

text \<open>The reply of GETRANGE for a string.\<close>

definition range_reply :: "int64 \<Rightarrow> int64 \<Rightarrow> sds \<Rightarrow> reply" where
  "range_reply start stop str =
     (if range_empty (sint start) (sint stop) (length str) then EmptyBulk
      else BulkReply (take (nat (range_end (sint stop) (length str) - range_start (sint start) (length str) + 1))
        (drop (nat (range_start (sint start) (length str))) str)))"

lemma getrange_reply:
  assumes "obj_bytes v = Some str" "length str < 2 ^ 63"
  shows "(range_str v \<bind> (\<lambda>str. case range_bounds start stop (of_nat (length str)) of
      None \<Rightarrow> Some (addReply c EmptyBulk s)
    | Some (start, stop) \<Rightarrow> mem_read str (unat start) (unat (stop - start + 1)) \<bind> (\<lambda>part. Some (addReply c (BulkReply part) s)))) =
   Some (addReply c (range_reply start stop str) s)"
  using range_str_bytes [OF assms(1)] range_bounds_eq [OF assms(2), of start stop] range_read [OF assms(2), of start stop]
  by (cases "range_bounds start stop (of_nat (length str))") (auto simp: range_reply_def)

lemma getrangeCommand_wp:
  assumes g: "G s0 {} {} s"
  shows "wp (getrangeCommand c argv s) (G s0 {} {})"
  unfolding getrangeCommand_def
proof (rule wp_bindI, rule getLongLong_wp [OF g arg_obj_long], unfold prod.case, rule wp_optionI, simp, rule wp_bindI,
    rule getLongLong_wp [OF _ arg_obj_long], assumption, unfold prod.case, rule wp_optionI, simp, rule wp_bindI,
    rule lookupReadOrReply_wp, assumption, unfold prod.case, rule wp_optionI, simp)
  fix start finish s3 val v and s2 :: server
  assume g3: "G s0 {} {} s3" and v: "val \<noteq> None \<Longrightarrow> val = db_dict (dbs s3 ! c_db (client_of s2 c)) (argv ! 1)" "val = Some v"
    and g2: "G s0 {} {} s2" and d3: "dbs s3 = (dbs s2)[c_db (client_of s2 c) := dbs s3 ! c_db (client_of s2 c)]"
  have i: "c_db (client_of s2 c) < length (dbs s3)" using G_db(2) [OF g2] d3 by (metis length_list_update)
  show "wp (case checkType c v OBJ_STRING s3 of (s, True) \<Rightarrow> Some s | (s, False) \<Rightarrow> range_str v \<bind> (\<lambda>str.
      case range_bounds start finish (of_nat (length str)) of None \<Rightarrow> Some (addReply c EmptyBulk s)
      | Some (start, finish) \<Rightarrow> mem_read str (unat start) (unat (finish - start + 1)) \<bind>
          (\<lambda>part. Some (addReply c (BulkReply part) s)))) (G s0 {} {})"
  proof (cases "obj_bytes v")
    case None
    then show ?thesis using checkType_string(2) [of v] g3 by auto
  next
    case (Some b)
    have "val_ok v" using db_ok_val [OF G_db(1) [OF g3 i]] v by simp
    then have "length b \<le> STRING_MAX" using val_ok_bytes Some by blast
    then have "length b < 2 ^ 63" by simp
    from getrange_reply [OF Some this] show ?thesis using checkType_string(1) [OF Some] g3 by auto
  qed
qed

section \<open>Counters\<close>

lemma incr_store_wp:
  assumes g: "G s0 {} {} s" and i: "i < length (dbs s)"
  shows "wp (incr_store i key v (db_dict (dbs s ! i) key) s) (G s0 {(i, key)} {})"
proof (cases "db_dict (dbs s ! i) key")
  case None
  then show ?thesis using dbAdd_wp [OF g i None, of "IntObj v"] by (simp add: incr_store_def)
next
  case (Some old)
  have "wp (dbOverwrite i key (IntObj v) s) (G s0 {(i, key)} {})"
    by (rule dbOverwrite_wp [OF g i]) (use Some in simp_all)
  moreover have "G s0 {(i, key)} {} (set_value i key (IntObj v) s)" using set_value_G [OF g i] by simp
  ultimately show ?thesis using Some by (cases old) (simp_all add: incr_store_def)
qed

lemma incr_value_wp:
  assumes g: "G s0 {} {} s" and i: "i < length (dbs s)" and obj: "obj = db_dict (dbs s ! i) key"
    and r: "getLongLongFromObject obj = Some r"
  shows "wp (incr_value incr c i key obj s) (G s0 {} {})"
  unfolding incr_value_def Let_def
proof (rule wp_bindI, rule getLongLong_wp [OF g r], unfold prod.case, rule wp_optionI, simp, rule wp_ifI)
  fix s2 v assume g2: "G s0 {} {} s2" and d2: "dbs s2 = dbs s"
  have "wp (incr_store i key (v + incr) obj s2) (G s0 {(i, key)} {})"
    using incr_store_wp [OF g2, of i key "v + incr"] i d2 obj by simp
  then show "wp (incr_store i key (v + incr) obj s2 \<bind> (\<lambda>s. Some (addReply c (IntReply (v + incr)) (add_dirty 1
        (notifyKeyspaceEvent NOTIFY_STRING ''incrby'' key i (signalModifiedKey i key s)))))) (G s0 {} {})"
    by (intro wp_bindI) (erule wp_mono, auto intro!: G_settle_signal)
qed auto

text \<open>The number in an object that passes the test of the type.\<close>

lemma counter_reads: "obj_bytes v = Some b \<Longrightarrow> \<exists>r. getLongLongFromObject (Some v) = Some r"
  by (simp add: getLongLong_bytes)

lemma incrDecrCommand_wp:
  assumes g: "G s0 {} {} s"
  shows "wp (incrDecrCommand incr c argv s) (G s0 {} {})"
  unfolding incrDecrCommand_def Let_def
proof (rule wp_bindI, rule lookupKeyWrite_wp [OF g G_db(2) [OF g]], unfold prod.case)
  let ?i = "c_db (client_of s c)" and ?key = "argv ! 1"
  fix s1 assume g1: "G s0 {} {} s1" and l1: "looked ?i ?key s s1"
  have i1: "?i < length (dbs s1)" using l1 G_db(2) [OF g] by simp
  let ?obj = "db_dict (dbs s1 ! ?i) ?key"
  note run = incr_value_wp [OF g1 i1 refl, of ?key _ incr c]
  show "wp (case (case ?obj of None \<Rightarrow> (s1, False) | Some v \<Rightarrow> checkType c v OBJ_STRING s1) of
      (s, True) \<Rightarrow> Some s | (s, False) \<Rightarrow> incr_value incr c ?i ?key ?obj s) (G s0 {} {})"
  proof (cases ?obj)
    case None
    then show ?thesis using run [of "Some 0"] by (simp add: getLongLongFromObject_def)
  next
    case (Some v)
    show ?thesis
    proof (cases "obj_bytes v")
      case None
      then show ?thesis using checkType_string(2) [of v] Some g1 by auto
    next
      case (Some b)
      then show ?thesis
        using run counter_reads [OF Some] checkType_string(1) [OF Some] \<open>?obj = Some v\<close> by auto
    qed
  qed
qed

lemma counter_commands_wp:
  assumes g: "G s0 {} {} s"
  shows "wp (incrCommand c argv s) (G s0 {} {})" "wp (decrCommand c argv s) (G s0 {} {})"
    "wp (incrbyCommand c argv s) (G s0 {} {})" "wp (decrbyCommand c argv s) (G s0 {} {})"
proof -
  show "wp (incrCommand c argv s) (G s0 {} {})" "wp (decrCommand c argv s) (G s0 {} {})"
    using incrDecrCommand_wp [OF g] by (simp_all add: incrCommand_def decrCommand_def)
  show "wp (incrbyCommand c argv s) (G s0 {} {})" unfolding incrbyCommand_def
    by (rule wp_bindI, rule getLongLong_wp [OF g arg_obj_long], unfold prod.case, rule wp_optionI)
      (simp_all add: incrDecrCommand_wp)
  show "wp (decrbyCommand c argv s) (G s0 {} {})" unfolding decrbyCommand_def
    by (rule wp_bindI, rule getLongLong_wp [OF g arg_obj_long], unfold prod.case, rule wp_optionI)
      (simp_all add: incrDecrCommand_wp)
qed

section \<open>What the commands compute\<close>

text \<open>Lookups of keys that are not expired do not change the data.\<close>

lemma expireIfNeeded_live:
  assumes "db_ok (dbs s ! i)" "\<not> is_expired s i key"
  shows "\<exists>b. expireIfNeeded i key s = Some (s, b) \<and> (b \<longrightarrow> masterhost (cfg s))"
  using assms(2) getExpire_eq [OF assms(1), of key]
  by (auto simp: expireIfNeeded_def is_expired_def Let_def not_less split: option.splits)

lemma lookupKeyWrite_live:
  assumes "db_ok (dbs s ! i)" "\<not> is_expired s i key"
  shows "lookupKeyWrite i key s = Some (s, db_dict (dbs s ! i) key)"
  using expireIfNeeded_live [OF assms] by (auto simp: lookupKeyWrite_def lookupKey_def)

lemma lookupKeyRead_live:
  assumes "db_ok (dbs s ! i)" "\<not> is_expired s i key" "\<not> masterhost (cfg s)"
  shows "lookupKeyRead i key s = Some (if db_dict (dbs s ! i) key = None then s\<lparr>stat_misses := stat_misses s + 1\<rparr>
    else s\<lparr>stat_hits := stat_hits s + 1\<rparr>, db_dict (dbs s ! i) key)"
  using expireIfNeeded_live [OF assms(1,2)] assms(3) by (auto simp: lookupKeyRead_def lookupKey_def)

lemma get_live:
  assumes "db_ok (dbs s ! c_db (client_of s c))" "\<not> is_expired s (c_db (client_of s c)) (argv ! 1)" "\<not> masterhost (cfg s)"
    and "db_dict (dbs s ! c_db (client_of s c)) (argv ! 1) = Some v" "obj_bytes v = Some b"
  shows "getCommand c argv s = Some (addReply c (BulkReply b) (s\<lparr>stat_hits := stat_hits s + 1\<rparr>))"
  using lookupKeyRead_live [OF assms(1-3)] assms(4) addReplyBulk_eq [OF assms(5)] obj_bytes_type [of v] assms(5)
  by (simp add: getCommand_def getGenericCommand_def lookupKeyReadOrReply_def)

lemma addReply_reply [simp]: "c_reply (client_of (addReply c r s) c) = c_reply (client_of s c) @ [r]"
  by (simp add: addReply_def)

text \<open>SET without options stores the value and drops the expire time.\<close>

lemma set_plain:
  assumes ok: "server_ok s" and len: "length v \<le> STRING_MAX"
  shows "\<exists>s' e. setCommand c [cmd, key, v] s = Some s' \<and> server_ok s' \<and> obj_bytes e = Some v \<and>
    stored (c_db (client_of s c)) key e s s'"
proof -
  have g: "G s {} {} s" by (rule G_start [OF ok])
  have l: "length ([cmd, key, v] ! 2) \<le> STRING_MAX" using len by simp
  obtain e where e: "tryObjectEncoding (shared_args (cfg s)) (arg_obj [cmd, key, v] 2) = Some e" "obj_bytes e = Some v" "val_ok e"
    using arg_encoded_ok [OF l] by auto
  have eq: "setCommand c [cmd, key, v] s = setKey (c_db (client_of s c)) key e s \<bind> (\<lambda>s1.
      Some (addReply c OkReply (notifyKeyspaceEvent NOTIFY_STRING ''set'' key (c_db (client_of s c)) (add_dirty 1 s1))))"
    using e(1) by (simp add: setCommand_def no_opts_def setGenericCommand_def Let_def)
  have "wp (setKey (c_db (client_of s c)) key e s) (\<lambda>s1. let s' = addReply c OkReply (notifyKeyspaceEvent NOTIFY_STRING ''set'' key (c_db (client_of s c)) (add_dirty 1 s1))
     in server_ok s' \<and> stored (c_db (client_of s c)) key e s s')"
  proof (rule setKey_wp [OF g G_db(2) [OF g] e(3)])
    fix s1 assume g1: "G s (insert (c_db (client_of s c), key) {}) (insert (c_db (client_of s c), key) {}) s1"
      and st: "stored (c_db (client_of s c)) key e s s1"
    let ?s = "addReply c OkReply (notifyKeyspaceEvent NOTIFY_STRING ''set'' key (c_db (client_of s c)) (add_dirty 1 s1))"
    have "G s {} {} s1" by (rule G_settle [OF g1]) simp
    then have "G s {} {} ?s" by blast
    then show "let s' = ?s in server_ok s' \<and> stored (c_db (client_of s c)) key e s s'"
      using st by (simp add: G_def stored_def)
  qed
  then show ?thesis using e(2) unfolding eq wp_def by (auto simp: Let_def)
qed

text \<open>
  C7. SET followed by GET returns the value: whatever the key held before and whichever encoding the
  value gets, a client that has selected the same database reads back exactly the bytes that were set.
\<close>

theorem set_get_roundtrip:
  assumes ok: "server_ok s" and len: "length v \<le> STRING_MAX" and db: "c_db (client_of s d) = c_db (client_of s c)"
    and "\<not> masterhost (cfg s)"
  shows "\<exists>s1 s2. setCommand c [cmd, key, v] s = Some s1 \<and> getCommand d [cmd', key] s1 = Some s2 \<and>
    c_reply (client_of s2 d) = c_reply (client_of s1 d) @ [BulkReply v]"
proof -
  obtain s1 e where s1: "setCommand c [cmd, key, v] s = Some s1" "server_ok s1" "obj_bytes e = Some v"
    "stored (c_db (client_of s c)) key e s s1" using set_plain [OF ok len] by blast
  have i: "c_db (client_of s c) < length (dbs s)" using ok by (simp add: server_ok_def)
  have "db_ok (dbs s1 ! c_db (client_of s1 d))" using s1(2) unfolding server_ok_def by blast
  moreover have "\<not> is_expired s1 (c_db (client_of s1 d)) key"
    "db_dict (dbs s1 ! c_db (client_of s1 d)) key = Some e" "\<not> masterhost (cfg s1)"
    using s1(4) db i assms(4) by (simp_all add: stored_def is_expired_def)
  ultimately have "getCommand d [cmd', key] s1 = Some (addReply d (BulkReply v) (s1\<lparr>stat_hits := stat_hits s1 + 1\<rparr>))"
    using get_live [of s1 d "[cmd', key]" e v] s1(3) by simp
  then show ?thesis using s1(1) by auto
qed

text \<open>A server without keys, for the examples.\<close>

definition sample_config :: config where
  "sample_config = \<lparr>mstime = 1000, masterhost = False, loading = False, lua_caller = False, lua_time_start = 0,
     cluster_enabled = False, ro_caller = False, shared_args = False, shared_vals = False, max_alloc = 2 ^ 40,
     saveparams = False, rdb_child = False, addr_of = (\<lambda>_. 0)\<rparr>"

definition sample_server :: server where
  "sample_server = createClient 1 (createClient 0 (initServer sample_config 16))"

lemma sample_ok: "server_ok sample_server"
  unfolding sample_server_def
  by (intro createClient_ok initServer_ok)
    (simp_all add: sample_config_def createClient_def initServer_def new_client_def)

lemma sample_simps [simp]:
  "cfg sample_server = sample_config" "client_of sample_server c = new_client" "dbs sample_server = replicate 16 new_db"
  "clients sample_server = [0, 1]"
  by (simp_all add: sample_server_def createClient_def initServer_def)

theorem set_get_roundtrip_witness:
  "\<exists>s1 s2. setCommand 0 [[], [107], [118]] sample_server = Some s1 \<and> getCommand 1 [[], [107]] s1 = Some s2 \<and>
    c_reply (client_of s2 1) = c_reply (client_of s1 1) @ [BulkReply [118]]"
  by (rule set_get_roundtrip [OF sample_ok]) (simp_all add: sample_config_def)

lemma incr_overflows_iff: "incr_overflows incr v \<longleftrightarrow> sint v + sint incr < - (2 ^ 63) \<or> 2 ^ 63 \<le> sint v + sint incr"
  using sint_ge [of v] sint_lt [of v] sint_ge [of incr] sint_lt [of incr] unfolding incr_overflows_def by auto

lemma incr_store_live:
  assumes "i < length (dbs s)"
  shows "\<exists>s'. incr_store i key v (db_dict (dbs s ! i) key) s = Some s' \<and> dbs s' = dbs (set_value i key (IntObj v) s) \<and>
    client_of s' = client_of s"
proof (cases "db_dict (dbs s ! i) key")
  case None
  then show ?thesis by (auto simp: incr_store_def dbAdd_def set_value_def Let_def)
next
  case (Some old)
  then show ?thesis by (cases old) (auto simp: incr_store_def dbOverwrite_def set_value_def Let_def)
qed

lemma signal_reply [simp]: "c_reply (client_of (signalModifiedKey i key s) c) = c_reply (client_of s c)"
  by (simp add: signalModifiedKey_eq marked_def)

text \<open>
  What a counter command has to do with a result \<open>n\<close>: store it, with the expire time as it was, and reply it, or
  refuse it when it does not fit 64 bits.
\<close>

definition counted :: "cid \<Rightarrow> key \<Rightarrow> int \<Rightarrow> server \<Rightarrow> server \<Rightarrow> bool" where
  "counted c key n s s' \<longleftrightarrow>
     (if - (2 ^ 63) \<le> n \<and> n < 2 ^ 63
      then dbs s' = (dbs s)[c_db (client_of s c) := (dbs s ! c_db (client_of s c))\<lparr>db_dict :=
          (db_dict (dbs s ! c_db (client_of s c)))(key \<mapsto> IntObj (word_of_int n))\<rparr>] \<and>
        c_reply (client_of s' c) = c_reply (client_of s c) @ [IntReply (word_of_int n)]
      else dbs s' = dbs s \<and>
        c_reply (client_of s' c) = c_reply (client_of s c) @ [ErrorReply ''increment or decrement would overflow''])"

lemma incrDecr_counted:
  assumes ok: "server_ok s" and live: "\<not> is_expired s (c_db (client_of s c)) (argv ! 1)"
    and v: "(case db_dict (dbs s ! c_db (client_of s c)) (argv ! 1) of None \<Rightarrow> v = 0
      | Some obj \<Rightarrow> obj_bytes obj \<noteq> None \<and> string2ll (the (obj_bytes obj)) = Some v)"
  shows "\<exists>s'. incrDecrCommand incr c argv s = Some s' \<and> counted c (argv ! 1) (sint v + sint incr) s s'"
proof -
  let ?i = "c_db (client_of s c)" and ?key = "argv ! 1"
  let ?obj = "db_dict (dbs s ! ?i) ?key"
  have i: "?i < length (dbs s)" and dok: "db_ok (dbs s ! ?i)" using ok by (auto simp: server_ok_def)
  have read: "getLongLongFromObject ?obj = Some (Some v)"
    using v getLongLong_bytes by (auto simp: getLongLongFromObject_def split: option.splits)
  have "(case ?obj of None \<Rightarrow> (s, False) | Some v \<Rightarrow> checkType c v OBJ_STRING s) = (s, False)"
    using v checkType_string(1) by (auto split: option.splits)
  then have eq: "incrDecrCommand incr c argv s = incr_value incr c ?i ?key ?obj s"
    using lookupKeyWrite_live [OF dok live] by (simp add: incrDecrCommand_def Let_def)
  show ?thesis
  proof (cases "incr_overflows incr v")
    case True
    then have nf: "\<not> (- (2 ^ 63) \<le> sint v + sint incr \<and> sint v + sint incr < 2 ^ 63)" unfolding incr_overflows_iff by linarith
    show ?thesis unfolding eq counted_def if_not_P [OF nf] using True read
      by (simp add: incr_value_def getLongLongOrReply_def)
  next
    case False
    then have fits: "- (2 ^ 63) \<le> sint v + sint incr \<and> sint v + sint incr < 2 ^ 63" unfolding incr_overflows_iff by linarith
    have w: "word_of_int (sint v + sint incr) = v + incr" by simp
    obtain s1 where s1: "incr_store ?i ?key (v + incr) ?obj s = Some s1"
      "dbs s1 = dbs (set_value ?i ?key (IntObj (v + incr)) s)" "client_of s1 = client_of s"
      using incr_store_live [OF i] by blast
    show ?thesis unfolding eq counted_def if_P [OF fits] w using False read s1
      by (auto simp: incr_value_def getLongLongOrReply_def Let_def set_value_def set_db_def)
  qed
qed

lemma sint_minus_int64: "n \<noteq> LLONG_MIN \<Longrightarrow> sint (- n) = - sint n"
proof -
  assume "n \<noteq> LLONG_MIN"
  moreover have "sint LLONG_MIN = - (2 ^ 63)" by code_simp
  ultimately have "sint n \<noteq> - (2 ^ 63)" by (metis signed_word_eqI)
  then have "- (2 ^ 63) \<le> - sint n" "- sint n < 2 ^ 63" using sint_ge [of n] sint_lt [of n] by simp_all
  then show ?thesis unfolding sint_word_ariths by (intro signed_take_bit_int_eq_self) simp_all
qed

text \<open>
  C18. The counters are exact: on a live key that is missing or holds the decimal digits of a
  64 bit integer, INCR, DECR, INCRBY and DECRBY store the mathematical sum or difference, keep the expire time, and
  reply the new value; when it does not fit 64 bits the client gets an error and the data is as before. The
  argument of INCRBY is any 64 bit integer, that of DECRBY any but \<open>- (2 ^ 63)\<close>, whose negation wraps.
\<close>

theorem incr_exact:
  assumes ok: "server_ok s" and live: "\<not> is_expired s (c_db (client_of s c)) key"
    and v: "(case db_dict (dbs s ! c_db (client_of s c)) key of None \<Rightarrow> v = 0
      | Some obj \<Rightarrow> obj_bytes obj \<noteq> None \<and> string2ll (the (obj_bytes obj)) = Some v)"
    and arg: "string2ll arg = Some n"
  shows "(\<exists>s'. incrCommand c [cmd, key] s = Some s' \<and> counted c key (sint v + 1) s s') \<and>
    (\<exists>s'. decrCommand c [cmd, key] s = Some s' \<and> counted c key (sint v - 1) s s') \<and>
    (\<exists>s'. incrbyCommand c [cmd, key, arg] s = Some s' \<and> counted c key (sint v + sint n) s s') \<and>
    (n \<noteq> LLONG_MIN \<longrightarrow> (\<exists>s'. decrbyCommand c [cmd, key, arg] s = Some s' \<and> counted c key (sint v - sint n) s s'))"
proof -
  have run: "\<exists>s'. incrDecrCommand incr c (cmd # key # args) s = Some s' \<and> counted c key (sint v + sint incr) s s'" for incr args
    using incrDecr_counted [OF ok, of c "cmd # key # args" v incr] live v by simp
  have one: "sint (1 :: int64) = 1" "sint (- 1 :: int64) = - 1" by simp_all
  have read: "getLongLongOrReply c (Some (arg_obj [cmd, key, arg] 2)) None s = Some (s, Some n)"
    using arg arg_obj_long [of "[cmd, key, arg]" 2] by (simp add: getLongLongOrReply_def)
  have "\<exists>s'. incrCommand c [cmd, key] s = Some s' \<and> counted c key (sint v + 1) s s'"
    using run [of 1 "[]"] unfolding incrCommand_def one .
  moreover have "\<exists>s'. decrCommand c [cmd, key] s = Some s' \<and> counted c key (sint v - 1) s s'"
    using run [of "- 1" "[]"] unfolding decrCommand_def one by simp
  moreover have "\<exists>s'. incrbyCommand c [cmd, key, arg] s = Some s' \<and> counted c key (sint v + sint n) s s'"
    using run [of n "[arg]"] unfolding incrbyCommand_def read by simp
  moreover have "\<exists>s'. decrbyCommand c [cmd, key, arg] s = Some s' \<and> counted c key (sint v - sint n) s s'" if "n \<noteq> LLONG_MIN"
    using run [of "- n" "[arg]"] unfolding decrbyCommand_def read sint_minus_int64 [OF that] by simp
  ultimately show ?thesis by blast
qed

theorem incr_exact_witness:
  "(\<exists>s'. incrCommand 0 [[], [107]] sample_server = Some s' \<and> counted 0 [107] 1 sample_server s') \<and>
   (\<exists>s'. decrbyCommand 0 [[], [107], [53]] sample_server = Some s' \<and> counted 0 [107] (- 5) sample_server s')"
proof -
  have n: "string2ll [53] = Some 5" by code_simp
  have five: "sint (5 :: int64) = 5" "(5 :: int64) \<noteq> LLONG_MIN" by code_simp+
  show ?thesis
    using incr_exact [OF sample_ok _ _ n, of 0 "[107]" 0 "[]"] five
    by (simp add: is_expired_def new_client_def new_db_def)
qed

lemma dbUnshare_live:
  assumes "db_dict (dbs s ! i) key = Some v" "obj_bytes v = Some b" "i < length (dbs s)"
  shows "\<exists>s'. dbUnshareStringValue i key v s = Some (s', Raw b) \<and> cfg s' = cfg s \<and> client_of s' = client_of s \<and>
    (\<forall>obj. dbs (set_value i key obj s') = dbs (set_value i key obj s))"
proof -
  obtain e where e: "getDecodedObject (replicate 32 0) v = Some e" "sdsEncodedObject e" "obj_bytes e = Some b"
    using getDecodedObject_bytes [OF assms(2)] by (metis length_replicate)
  then have "ptr_sds e = Some b" by (cases e) simp_all
  then show ?thesis using assms e(1)
    by (cases v) (auto simp: dbUnshareStringValue_def createRawStringObject_def dbOverwrite_def set_value_def set_db_def Let_def)
qed

lemma set_value_dbs: "dbs (set_value i key obj s) = (dbs s)[i := (dbs s ! i)\<lparr>db_dict := (db_dict (dbs s ! i))(key \<mapsto> obj)\<rparr>]"
  by (simp add: set_value_def set_db_def)

text \<open>The string after \<open>v\<close> was written over it at \<open>off\<close>, with zero bytes up to there.\<close>

definition patch :: "nat \<Rightarrow> sds \<Rightarrow> sds \<Rightarrow> sds" where
  "patch off v b = take off b @ replicate (off - length b) 0 @ v @ drop (off + length v) b"

lemma patch_grow:
  "take off (b @ replicate (off + length v - length b) 0) @ v @ drop (off + length v) (b @ replicate (off + length v - length b) 0)
   = patch off v b"
proof -
  have t: "take off (b @ replicate (off + length v - length b) 0) = take off b @ replicate (off - length b) 0"
    by (simp add: min_def)
  show ?thesis unfolding t patch_def by simp
qed

lemma setrange_write_live:
  assumes "off + length v \<le> max_alloc (cfg s)" "length b \<le> max_alloc (cfg s)" "unat offset = off" "unat newlen = off + length v"
  shows "setrange_write c i key v offset newlen (Raw b) s =
    Some (addReply c (IntReply (of_nat (length (patch off v b)))) (add_dirty 1 (notifyKeyspaceEvent NOTIFY_STRING ''setrange'' key i
      (signalModifiedKey i key (set_value i key (Raw (patch off v b)) s)))))"
  using setrange_grow [OF assms(1,2)] patch_grow [of off b v] assms(3,4)
  by (auto simp: setrange_write_def Let_def)

text \<open>
  C19. APPEND and SETRANGE with an argument that is not empty edit an existing string as documented, within the limit of 512 MB: APPEND puts the argument behind the old bytes,
  SETRANGE overwrites them at the offset and pads with zero bytes when the string is too short. The
  reply is the new length; the expire time and every other key stay.
\<close>

theorem append_setrange_exact:
  assumes ok: "server_ok s" and live: "\<not> is_expired s (c_db (client_of s c)) key"
    and obj: "db_dict (dbs s ! c_db (client_of s c)) key = Some obj" "obj_bytes obj = Some b"
    and v: "v \<noteq> []" "length b + length v \<le> STRING_MAX"
    and off: "string2ll offarg = Some offset" "0 \<le> sint offset" "nat (sint offset) + length v \<le> STRING_MAX"
  shows "\<exists>s1 s2. appendCommand c [cmd, key, v] s = Some s1 \<and>
      dbs s1 = dbs (set_value (c_db (client_of s c)) key (Raw (b @ v)) s) \<and>
      c_reply (client_of s1 c) = c_reply (client_of s c) @ [IntReply (of_nat (length b + length v))] \<and>
    setrangeCommand c [cmd', key, offarg, v] s = Some s2 \<and>
      dbs s2 = dbs (set_value (c_db (client_of s c)) key (Raw (patch (nat (sint offset)) v b)) s) \<and>
      c_reply (client_of s2 c) = c_reply (client_of s c) @ [IntReply (of_nat (length (patch (nat (sint offset)) v b)))]"
proof -
  let ?i = "c_db (client_of s c)"
  have i: "?i < length (dbs s)" and dok: "db_ok (dbs s ! ?i)" and al: "STRING_MAX \<le> max_alloc (cfg s)"
    using ok by (auto simp: server_ok_def)
  have b: "length b \<le> STRING_MAX" using v(2) by simp
  note look = lookupKeyWrite_live [OF dok live] and ty = checkType_string(1) [OF obj(2)] and len = stringObjectLen_bytes [OF obj(2)]
  obtain t where t: "dbUnshareStringValue ?i key obj s = Some (t, Raw b)" "cfg t = cfg s" "client_of t = client_of s"
    "\<And>o1. dbs (set_value ?i key o1 t) = dbs (set_value ?i key o1 s)" using dbUnshare_live [OF obj i] by blast
  have "checkStringLength c (of_nat (length b + length v)) s = (s, True)"
    using v(2) by (subst checkStringLength_eq) simp_all
  then have "append_value c ?i [cmd, key, v] (Some obj) s =
      Some (set_value ?i key (Raw (b @ v)) t, Some (length b + length v))"
    using ty len t al v(2) by (simp add: append_value_def sdscatlen_def)
  then have a: "\<exists>s1. appendCommand c [cmd, key, v] s = Some s1 \<and> dbs s1 = dbs (set_value ?i key (Raw (b @ v)) s) \<and>
      c_reply (client_of s1 c) = c_reply (client_of s c) @ [IntReply (of_nat (length b + length v))]"
    using look obj(1) t(3,4) by (simp add: appendCommand_def Let_def)
  have o: "nat (sint offset) = unat offset" using nonneg_int64 [OF off(2)] by simp
  have "sint offset + int (length v) < 2 ^ 63" using off(2,3) by (simp add: nat_le_iff)
  note nl = range_newlen [OF off(2) this]
  have small: "unat offset + length v \<le> STRING_MAX" using off(3) o by simp
  then have "checkStringLength c (offset + of_nat (length v)) s = (s, True)"
    unfolding nl(1) by (subst checkStringLength_eq) simp_all
  then have "setrange_target c ?i key v (offset + of_nat (length v)) (Some obj) s = Some (t, Some (Raw b))"
    using ty len t(1) v(1) by (simp add: setrange_target_def)
  moreover have "setrange_write c ?i key v offset (offset + of_nat (length v)) (Raw b) t =
    Some (addReply c (IntReply (of_nat (length (patch (unat offset) v b)))) (add_dirty 1 (notifyKeyspaceEvent NOTIFY_STRING ''setrange'' key ?i
      (signalModifiedKey ?i key (set_value ?i key (Raw (patch (unat offset) v b)) t)))))"
    by (rule setrange_write_live) (use small b al t(2) nl(2) in simp_all)
  moreover have "getLongOrReply c (Some (arg_obj [cmd', key, offarg, v] 2)) None s = Some (s, Some offset)"
    using off(1) arg_obj_long [of "[cmd', key, offarg, v]" 2] by (simp add: getLong_OrReply_eq getLongLongOrReply_def)
  ultimately have "\<exists>s2. setrangeCommand c [cmd', key, offarg, v] s = Some s2 \<and>
      dbs s2 = dbs (set_value ?i key (Raw (patch (nat (sint offset)) v b)) s) \<and>
      c_reply (client_of s2 c) = c_reply (client_of s c) @ [IntReply (of_nat (length (patch (nat (sint offset)) v b)))]"
    using look obj(1) t(3,4) off(2) unfolding o by (simp add: setrangeCommand_def Let_def)
  then show ?thesis using a by blast
qed

text \<open>A server where the key \<open>k\<close> holds the integer 12, for examples.\<close>

definition sample_counter :: server where
  "sample_counter = set_value 0 [107] (IntObj 12) sample_server"

lemma sample_counter_simps [simp]:
  "cfg sample_counter = sample_config" "client_of sample_counter c = new_client"
  "db_dict (dbs sample_counter ! 0) [107] = Some (IntObj 12)" "db_expires (dbs sample_counter ! 0) k = None"
  by (simp_all add: sample_counter_def set_value_def set_db_def new_db_def)

lemma sample_counter_ok: "server_ok sample_counter"
proof -
  have "G sample_server (insert (0, [107]) {}) {} sample_counter"
    unfolding sample_counter_def by (rule set_value_G [OF G_start [OF sample_ok]]) simp_all
  then show ?thesis by (simp add: G_def)
qed

lemma sdec_12: "sdec 12 = [49, 50]"
proof -
  have "string2ll [49, 50] = Some 12" by code_simp
  then show ?thesis by (simp add: string2ll_iff)
qed

theorem append_setrange_exact_witness:
  "\<exists>s1 s2. appendCommand 0 [[], [107], [51]] sample_counter = Some s1 \<and>
      dbs s1 = dbs (set_value (c_db (client_of sample_counter 0)) [107] (Raw ([49, 50] @ [51])) sample_counter) \<and>
      c_reply (client_of s1 0) = c_reply (client_of sample_counter 0) @ [IntReply (of_nat (length [49 :: byte, 50] + length [51 :: byte]))] \<and>
    setrangeCommand 0 [[], [107], [52], [51]] sample_counter = Some s2 \<and>
      dbs s2 = dbs (set_value (c_db (client_of sample_counter 0)) [107] (Raw (patch (nat (sint (4 :: int64))) [51] [49, 50])) sample_counter) \<and>
      c_reply (client_of s2 0) = c_reply (client_of sample_counter 0) @ [IntReply (of_nat (length (patch (nat (sint (4 :: int64))) [51] [49, 50])))]"
proof (rule append_setrange_exact [OF sample_counter_ok])
  show "string2ll [52] = Some 4" by code_simp
  show "obj_bytes (IntObj 12) = Some [49, 50]" unfolding obj_bytes.simps sdec_12 ..
qed (simp_all add: is_expired_def new_client_def)

text \<open>
  C20. GETRANGE reads inside the string: for every pair of 64 bit indexes the arithmetic of the
  command, which mixes signed and unsigned 64 bit numbers, gives the substring between the clamped
  indexes, or the empty reply when there is none; no read is out of bounds.
\<close>

theorem getrange_exact:
  assumes ok: "server_ok s" and live: "\<not> is_expired s (c_db (client_of s c)) key" "\<not> masterhost (cfg s)"
    and obj: "db_dict (dbs s ! c_db (client_of s c)) key = Some obj" "obj_bytes obj = Some b"
    and args: "string2ll a1 = Some start" "string2ll a2 = Some stop"
  shows "getrangeCommand c [cmd, key, a1, a2] s =
    Some (addReply c (range_reply start stop b) (s\<lparr>stat_hits := stat_hits s + 1\<rparr>))"
proof -
  let ?i = "c_db (client_of s c)"
  have dok: "db_ok (dbs s ! ?i)" using ok by (auto simp: server_ok_def)
  have "length b \<le> STRING_MAX" using val_ok_bytes [OF db_ok_val [OF dok obj(1)] obj(2)] .
  then have n: "length b < 2 ^ 63" by simp
  have "getLongLongOrReply c (Some (arg_obj [cmd, key, a1, a2] 2)) None s = Some (s, Some start)"
    "getLongLongOrReply c (Some (arg_obj [cmd, key, a1, a2] 3)) None s = Some (s, Some stop)"
    using args arg_obj_long [of "[cmd, key, a1, a2]" 2] arg_obj_long [of "[cmd, key, a1, a2]" 3]
    by (simp_all add: getLongLongOrReply_def)
  then show ?thesis
    using lookupKeyRead_live [OF dok live] obj(1) checkType_string(1) [OF obj(2)] getrange_reply [OF obj(2) n]
    by (simp add: getrangeCommand_def lookupKeyReadOrReply_def)
qed

theorem getrange_exact_witness:
  "getrangeCommand 0 [[], [107], [49], [45, 49]] sample_counter =
    Some (addReply 0 (range_reply 1 (-1) [49, 50]) (sample_counter\<lparr>stat_hits := stat_hits sample_counter + 1\<rparr>))"
proof (rule getrange_exact [OF sample_counter_ok])
  show "string2ll [49] = Some 1" by code_simp
  show "string2ll [45, 49] = Some (-1)" by code_simp
  show "obj_bytes (IntObj 12) = Some [49, 50]" unfolding obj_bytes.simps sdec_12 ..
qed (simp_all add: is_expired_def new_client_def sample_config_def)

section \<open>Arithmetic that is not guarded\<close>

text \<open>
  C25. SETRANGE with the largest offset stops the server: the sum of offset and length is negative as
  a long long and passes \<^verbatim>\<open>checkStringLength\<close>, so the server tries to allocate more than
  \<open>2 ^ 63\<close> bytes and aborts instead of replying with an error.
\<close>

theorem setrange_offset_aborts:
  assumes ok: "server_ok s" and live: "\<not> is_expired s (c_db (client_of s c)) key"
    and none: "db_dict (dbs s ! c_db (client_of s c)) key = None"
    and off: "string2ll offarg = Some offset" "sint offset = 2 ^ 63 - 1"
    and v: "v \<noteq> []" "length v \<le> STRING_MAX" and mem: "max_alloc (cfg s) < 2 ^ 63"
  shows "setrangeCommand c [cmd, key, offarg, v] s = None"
proof -
  have dok: "db_ok (dbs s ! c_db (client_of s c))" using ok by (auto simp: server_ok_def)
  have u: "unat offset = 2 ^ 63 - 1" using nonneg_int64 [of offset] off(2) by (simp del: of_nat_unat uint_nat)
  have eq: "offset + of_nat (length v) = (of_nat (unat offset + length v) :: int64)" by simp
  have n: "unat (offset + of_nat (length v)) = 2 ^ 63 - 1 + length v"
    unfolding eq u by (rule unat_of_nat_small) (use v(2) in simp)
  then have "uint (offset + of_nat (length v)) = 2 ^ 63 - 1 + int (length v)" by (simp add: uint_nat del: of_nat_unat)
  moreover have "0 < length v" using v(1) by simp
  ultimately have "sint (offset + of_nat (length v)) < 0" unfolding sint_uint_64 using v(2) by (simp split: if_splits)
  then have check: "checkStringLength c (offset + of_nat (length v)) s = (s, True)" by (simp add: checkStringLength_def)
  have "max_alloc (cfg s) < 2 ^ 63 - 1 + length v" using mem \<open>0 < length v\<close> by linarith
  then have "sdsnewlen_zero (cfg s) (unat (offset + of_nat (length v))) = None"
    unfolding n sdsnewlen_zero_def by (rule if_P)
  then have "setrange_target c (c_db (client_of s c)) key v (offset + of_nat (length v)) None s = None"
    using v(1) check by (simp add: setrange_target_def)
  moreover have "getLongOrReply c (Some (arg_obj [cmd, key, offarg, v] 2)) None s = Some (s, Some offset)"
    using off(1) arg_obj_long [of "[cmd, key, offarg, v]" 2] by (simp add: getLong_OrReply_eq getLongLongOrReply_def)
  ultimately show ?thesis
    using lookupKeyWrite_live [OF dok live] none off(2) by (simp add: setrangeCommand_def Let_def)
qed

theorem setrange_offset_aborts_witness:
  "setrangeCommand 0 [[], [107], map of_char ''9223372036854775807'', [120]] sample_server = None"
proof (rule setrange_offset_aborts [OF sample_ok])
  show "string2ll (map of_char ''9223372036854775807'') = Some LLONG_MAX" by code_simp
  show "sint LLONG_MAX = 2 ^ 63 - 1" by code_simp
qed (simp_all add: is_expired_def new_client_def new_db_def sample_config_def)

text \<open>
  DECRBY by the smallest integer decrements in the wrong direction: its negation wraps to itself,
  so a missing counter becomes \<open>- (2 ^ 63)\<close> although the difference is \<open>2 ^ 63\<close>, which
  DECRBY has to refuse as an overflow.
\<close>

theorem decrby_min_wraps:
  assumes ok: "server_ok s" and live: "\<not> is_expired s (c_db (client_of s c)) key"
    and none: "db_dict (dbs s ! c_db (client_of s c)) key = None"
    and arg: "string2ll arg = Some LLONG_MIN"
  shows "\<exists>s'. decrbyCommand c [cmd, key, arg] s = Some s' \<and>
    c_reply (client_of s' c) = c_reply (client_of s c) @ [IntReply LLONG_MIN] \<and>
    db_dict (dbs s' ! c_db (client_of s c)) key = Some (IntObj LLONG_MIN)"
proof -
  let ?i = "c_db (client_of s c)"
  have i: "?i < length (dbs s)" and dok: "db_ok (dbs s ! ?i)" using ok by (auto simp: server_ok_def)
  have m: "- LLONG_MIN = LLONG_MIN" by code_simp
  have nov: "\<not> incr_overflows LLONG_MIN 0" by code_simp
  obtain s1 where s1: "incr_store ?i key LLONG_MIN None s = Some s1"
    "dbs s1 = dbs (set_value ?i key (IntObj LLONG_MIN) s)" "client_of s1 = client_of s"
    using incr_store_live [OF i, of key LLONG_MIN] none by auto
  have "getLongLongOrReply c (Some (arg_obj [cmd, key, arg] 2)) None s = Some (s, Some LLONG_MIN)"
    using arg arg_obj_long [of "[cmd, key, arg]" 2] by (simp add: getLongLongOrReply_def)
  then have "decrbyCommand c [cmd, key, arg] s = incrDecrCommand LLONG_MIN c [cmd, key, arg] s"
    unfolding decrbyCommand_def by (simp only: Option.bind.simps prod.case option.case m)
  also have "\<dots> = incr_value LLONG_MIN c ?i key None s"
    using lookupKeyWrite_live [OF dok live] none by (simp add: incrDecrCommand_def Let_def)
  also have "\<dots> = Some (addReply c (IntReply LLONG_MIN) (add_dirty 1 (notifyKeyspaceEvent NOTIFY_STRING ''incrby'' key ?i
      (signalModifiedKey ?i key s1))))"
    using nov s1(1) by (simp add: incr_value_def getLongLongOrReply_def getLongLongFromObject_def Let_def)
  finally show ?thesis using s1(2,3) i by (simp add: set_value_dbs)
qed

theorem decrby_min_wraps_witness:
  "\<exists>s'. decrbyCommand 0 [[], [107], map of_char ''-9223372036854775808''] sample_server = Some s' \<and>
    c_reply (client_of s' 0) = c_reply (client_of sample_server 0) @ [IntReply LLONG_MIN] \<and>
    db_dict (dbs s' ! c_db (client_of sample_server 0)) [107] = Some (IntObj LLONG_MIN)"
proof (rule decrby_min_wraps [OF sample_ok])
  show "string2ll (map of_char ''-9223372036854775808'') = Some LLONG_MIN" by code_simp
qed (simp_all add: is_expired_def new_client_def new_db_def)

lemma setKey_clients:
  assumes "setKey i key val s = Some s'"
  shows "c_reply (client_of s' c) = c_reply (client_of s c)"
proof -
  have e: "client_of t' = client_of t" if "expireIfNeeded i key t = Some (t', b)" for t t' b
    using that by (auto simp: expireIfNeeded_def dbDelete_def Let_def bind_eq_Some_conv split: if_splits)
  show ?thesis using assms
    by (auto simp: setKey_def lookupKeyWrite_def dbAdd_def dbOverwrite_def removeExpire_def Let_def bind_eq_Some_conv
        split: if_splits dest!: e)
qed

text \<open>
  SET with a large EX time expires the key at once: the conversion of the seconds to milliseconds
  wraps, the command replies OK, and the key that should live for ages is already expired.
\<close>

theorem set_ex_wraps:
  assumes ok: "server_ok s" and len: "length v \<le> STRING_MAX"
    and cfg: "1000 \<le> sint (mstime (cfg s))" "\<not> lua_caller (cfg s)" "\<not> loading (cfg s)" "\<not> masterhost (cfg s)"
    and arg: "string2ll arg = Some LLONG_MAX"
  shows "\<exists>s'. setCommand c [cmd, key, v, [69, 88], arg] s = Some s' \<and>
    c_reply (client_of s' c) = c_reply (client_of s c) @ [OkReply] \<and> is_expired s' (c_db (client_of s c)) key"
proof -
  let ?i = "c_db (client_of s c)" and ?argv = "[cmd, key, v, [69, 88], arg]"
  have g: "G s {} {} s" by (rule G_start [OF ok])
  have i: "?i < length (dbs s)" by (rule G_db(2) [OF g])
  have l: "length (?argv ! 2) \<le> STRING_MAX" using len by simp
  obtain e where e: "tryObjectEncoding (shared_args (cfg s)) (arg_obj ?argv 2) = Some e" "val_ok e"
    using arg_encoded_ok [OF l] by auto
  have o: "is_opt CHR ''e'' CHR ''E'' CHR ''x'' CHR ''X'' [69, 88] \<and> \<not> is_opt CHR ''n'' CHR ''N'' CHR ''x'' CHR ''X'' [69, 88] \<and>
    \<not> is_opt CHR ''x'' CHR ''X'' CHR ''x'' CHR ''X'' [69, 88]" by code_simp
  have ms: "(9223372036854775807000 :: int64) = - 1000" "\<not> sint LLONG_MAX \<le> 0" by code_simp+
  have opts: "parse_opts (drop 3 ?argv) no_opts = Some (no_opts\<lparr>o_ex := True, o_expire := Some arg\<rparr>)"
    using o by (simp add: no_opts_def)
  have eq: "setCommand c ?argv s = setKey ?i key e s \<bind> (\<lambda>s1.
      setExpire ?i key (mstime (cfg s1) + - 1000) (add_dirty 1 s1) \<bind> (\<lambda>s2.
        Some (addReply c OkReply (notifyKeyspaceEvent NOTIFY_GENERIC ''expire'' key ?i (notifyKeyspaceEvent NOTIFY_STRING ''set'' key ?i s2)))))"
    using e(1) opts arg ms(2)
    by (simp add: ms(1) setCommand_def no_opts_def setGenericCommand_def Let_def getLongLongOrReply_def getLongLong_bytes)
  have "wp (setKey ?i key e s) (stored ?i key e s)" by (rule setKey_wp [OF g i e(2)])
  then obtain s1 where s1: "setKey ?i key e s = Some s1" "stored ?i key e s s1" by (auto simp: wp_def)
  have "sint (- 1000 :: int64) = - 1000" by code_simp
  then have w: "sint (mstime (cfg s) - 1000) = sint (mstime (cfg s)) - 1000"
    using sint_add_int64 [of "mstime (cfg s)" "- 1000"] cfg(1) sint_lt [of "mstime (cfg s)"] by simp
  show ?thesis
    unfolding eq using s1 i setKey_clients [OF s1(1)] cfg w
    by (simp add: stored_def setExpire_def Let_def is_expired_def expire_clock_def)
qed

theorem set_ex_wraps_witness:
  "\<exists>s'. setCommand 0 [[], [107], [118], [69, 88], map of_char ''9223372036854775807''] sample_server = Some s' \<and>
    c_reply (client_of s' 0) = c_reply (client_of sample_server 0) @ [OkReply] \<and> is_expired s' (c_db (client_of sample_server 0)) [107]"
proof (rule set_ex_wraps [OF sample_ok])
  show "string2ll (map of_char ''9223372036854775807'') = Some LLONG_MAX" by code_simp
qed (simp_all add: sample_config_def)

end
