(* ===== verification/Bitops.thy ===== *)
theory Bitops
  imports Util
begin

text \<open>
  Bit fields in strings (\<^verbatim>\<open>bitops.c\<close>): integers of any width at any bit offset, and the overflow rules of
  BITFIELD. Accesses outside the string and shifts by the width of the type or more are undefined and have
  the result \<open>None\<close>; signed arithmetic wraps.
\<close>

section \<open>Bit fields\<close>

definition shl :: "uint64 \<Rightarrow> uint64 \<Rightarrow> uint64 option" where
  "shl x n = (if n < 64 then Some (push_bit (unat n) x) else None)"

text \<open>The loops count down the bits that are left: \<open>bits - 1 - j\<close> is one less than that.\<close>

primrec set_loop :: "nat \<Rightarrow> uint64 \<Rightarrow> uint64 \<Rightarrow> byte list \<Rightarrow> byte list option" where
  "set_loop 0 val offset p = Some p"
| "set_loop (Suc r) val offset p = do {
     m \<leftarrow> shl 1 (of_nat r);
     let bitval = (if val AND m \<noteq> 0 then 1 else 0 :: uint64);
     let i = unat (drop_bit 3 offset);
     let b = 7 - (offset AND 7);
     byteval \<leftarrow> mem_get p i;
     let byteval = (ucast byteval AND NOT (push_bit (unat b) 1)) OR push_bit (unat b) bitval;
     p \<leftarrow> mem_set p i (ucast (byteval AND 0xff));
     set_loop r val (offset + 1) p }"

definition setUnsignedBitfield :: "byte list \<Rightarrow> uint64 \<Rightarrow> uint64 \<Rightarrow> uint64 \<Rightarrow> byte list option" where
  "setUnsignedBitfield p offset bits val = set_loop (unat bits) val offset p"

definition setSignedBitfield :: "byte list \<Rightarrow> uint64 \<Rightarrow> uint64 \<Rightarrow> int64 \<Rightarrow> byte list option" where
  "setSignedBitfield p offset bits val = (let uv = val in setUnsignedBitfield p offset bits uv)"

primrec get_loop :: "nat \<Rightarrow> uint64 \<Rightarrow> byte list \<Rightarrow> uint64 \<Rightarrow> uint64 option" where
  "get_loop 0 offset p val = Some val"
| "get_loop (Suc r) offset p val = do {
     let i = unat (drop_bit 3 offset);
     let b = 7 - (offset AND 7);
     byteval \<leftarrow> mem_get p i;
     let bitval = drop_bit (unat b) (ucast byteval :: uint64) AND 1;
     get_loop r (offset + 1) p (push_bit 1 val OR bitval) }"

definition getUnsignedBitfield :: "byte list \<Rightarrow> uint64 \<Rightarrow> uint64 \<Rightarrow> uint64 option" where
  "getUnsignedBitfield p offset bits = get_loop (unat bits) offset p 0"

definition getSignedBitfield :: "byte list \<Rightarrow> uint64 \<Rightarrow> uint64 \<Rightarrow> int64 option" where
  "getSignedBitfield p offset bits = do {
     v \<leftarrow> getUnsignedBitfield p offset bits;
     top \<leftarrow> shl 1 (bits - 1);
     if v AND top \<noteq> 0 then do { m \<leftarrow> shl (-1) bits; Some (v OR m) } else Some v }"

section \<open>Overflow\<close>

datatype owtype = BFOVERFLOW_WRAP | BFOVERFLOW_SAT | BFOVERFLOW_FAIL

text \<open>The result and \<open>*limit\<close>, which keeps its value \<open>limit\<close> when the code does not set it.\<close>

definition checkUnsignedBitfieldOverflow ::
  "uint64 \<Rightarrow> int64 \<Rightarrow> uint64 \<Rightarrow> owtype \<Rightarrow> uint64 \<Rightarrow> (int \<times> uint64) option" where
  "checkUnsignedBitfieldOverflow val incr bits ow limit = do {
     mx \<leftarrow> (if bits = 64 then Some 0xFFFFFFFFFFFFFFFF else map_option (\<lambda>x. x - 1) (shl 1 bits));
     let maxincr = mx - val;
     let minincr = - val;
     let wrap = do { m \<leftarrow> shl (-1) bits; Some (1, (val + incr) AND NOT m) };
     if val > mx \<or> (sint incr > 0 \<and> sint incr > sint maxincr) then
       (case ow of BFOVERFLOW_WRAP \<Rightarrow> wrap | BFOVERFLOW_SAT \<Rightarrow> Some (1, mx) | BFOVERFLOW_FAIL \<Rightarrow> Some (1, limit))
     else if sint incr < 0 \<and> sint incr < sint minincr then
       (case ow of BFOVERFLOW_WRAP \<Rightarrow> wrap | BFOVERFLOW_SAT \<Rightarrow> Some (-1, 0) | BFOVERFLOW_FAIL \<Rightarrow> Some (-1, limit))
     else Some (0, limit) }"

definition checkSignedBitfieldOverflow ::
  "int64 \<Rightarrow> int64 \<Rightarrow> uint64 \<Rightarrow> owtype \<Rightarrow> int64 \<Rightarrow> (int \<times> int64) option" where
  "checkSignedBitfieldOverflow val incr bits ow limit = do {
     mx \<leftarrow> (if bits = 64 then Some 0x7FFFFFFFFFFFFFFF else map_option (\<lambda>x. x - 1) (shl 1 (bits - 1)));
     let mn = - mx - 1;
     let maxincr = mx - val;
     let minincr = mn - val;
     let wrap = do {
       m \<leftarrow> shl (-1) bits;
       msb \<leftarrow> shl 1 (bits - 1);
       let c = val + incr;
       Some (1, if c AND msb \<noteq> 0 then c OR m else c AND NOT m) };
     if sint val > sint mx \<or> (bits \<noteq> 64 \<and> sint incr > sint maxincr) \<or>
        (sint val \<ge> 0 \<and> sint incr > 0 \<and> sint incr > sint maxincr) then
       (case ow of BFOVERFLOW_WRAP \<Rightarrow> wrap | BFOVERFLOW_SAT \<Rightarrow> Some (1, mx) | BFOVERFLOW_FAIL \<Rightarrow> Some (1, limit))
     else if sint val < sint mn \<or> (bits \<noteq> 64 \<and> sint incr < sint minincr) \<or>
        (sint val < 0 \<and> sint incr < 0 \<and> sint incr < sint minincr) then
       (case ow of BFOVERFLOW_WRAP \<Rightarrow> wrap | BFOVERFLOW_SAT \<Rightarrow> Some (-1, mn) | BFOVERFLOW_FAIL \<Rightarrow> Some (-1, limit))
     else Some (0, limit) }"

section \<open>BITFIELD\<close>

text \<open>The offset of a bit, which may count fields; \<open>None\<close> is an error reply.\<close>

definition getBitOffsetFromArgument :: "byte list \<Rightarrow> bool \<Rightarrow> int64 \<Rightarrow> uint64 option" where
  "getBitOffsetFromArgument p hash bits =
     (let usehash = (p \<noteq> [] \<and> p ! 0 = 35 \<and> hash \<and> sint bits > 0) in
      case string2ll (if usehash then drop 1 p else p) of
        None \<Rightarrow> None
      | Some loffset \<Rightarrow>
          let loffset = (if usehash then loffset * bits else loffset)
          in if sint loffset < 0 \<or> drop_bit 3 loffset \<ge> 512 * 1024 * 1024 then None else Some loffset)"

definition getBitfieldTypeFromArgument :: "byte list \<Rightarrow> (bool \<times> int64) option" where
  "getBitfieldTypeFromArgument p =
     (if p = [] \<or> p ! 0 \<noteq> 105 \<and> p ! 0 \<noteq> 117 then None
      else
        let sgnd = (p ! 0 = 105)
        in case string2ll (takeWhile (\<lambda>b. b \<noteq> 0) (tl p)) of
             None \<Rightarrow> None
           | Some llbits \<Rightarrow>
               if sint llbits < 1 \<or> sgnd \<and> sint llbits > 64 \<or> \<not> sgnd \<and> sint llbits > 63 then None
               else Some (sgnd, llbits))"

datatype opcode = BITFIELDOP_GET | BITFIELDOP_SET | BITFIELDOP_INCRBY

record bitfieldOp =
  op_offset :: uint64
  op_i64 :: int64
  op_opcode :: opcode
  op_owtype :: owtype
  op_bits :: uint64
  op_sign :: bool

text \<open>
  SET and INCRBY on the bytes of the string: the new bytes and the integer that is replied, \<open>None\<close> for a
  null reply. \<open>wrapped\<close> is not initialised before the check.
\<close>

definition write_op :: "uint64 \<Rightarrow> bitfieldOp \<Rightarrow> byte list \<Rightarrow> (byte list \<times> int64 option) option" where
  "write_op wrapped thisop p =
     (let offset = op_offset thisop; bits = op_bits thisop; ow = op_owtype thisop in
      if op_sign thisop then do {
        oldval \<leftarrow> getSignedBitfield p offset bits;
        (newval, overflow, retval) \<leftarrow>
          (if op_opcode thisop = BITFIELDOP_INCRBY then do {
             let newval = oldval + op_i64 thisop;
             (overflow, wrapped) \<leftarrow> checkSignedBitfieldOverflow oldval (op_i64 thisop) bits ow wrapped;
             let newval = (if overflow \<noteq> 0 then wrapped else newval);
             Some (newval, overflow, newval) }
           else do {
             let newval = op_i64 thisop;
             (overflow, wrapped) \<leftarrow> checkSignedBitfieldOverflow newval 0 bits ow wrapped;
             let newval = (if overflow \<noteq> 0 then wrapped else newval);
             Some (newval, overflow, oldval) });
        if \<not> (overflow \<noteq> 0 \<and> ow = BFOVERFLOW_FAIL)
        then do { p \<leftarrow> setSignedBitfield p offset bits newval; Some (p, Some retval) }
        else Some (p, None) }
      else do {
        oldval \<leftarrow> getUnsignedBitfield p offset bits;
        (newval, overflow, retval) \<leftarrow>
          (if op_opcode thisop = BITFIELDOP_INCRBY then do {
             let newval = oldval + op_i64 thisop;
             (overflow, wrapped) \<leftarrow> checkUnsignedBitfieldOverflow oldval (op_i64 thisop) bits ow wrapped;
             let newval = (if overflow \<noteq> 0 then wrapped else newval);
             Some (newval, overflow, newval) }
           else do {
             let newval = op_i64 thisop;
             (overflow, wrapped) \<leftarrow> checkUnsignedBitfieldOverflow newval 0 bits ow wrapped;
             let newval = (if overflow \<noteq> 0 then wrapped else newval);
             Some (newval, overflow, oldval) });
        if \<not> (overflow \<noteq> 0 \<and> ow = BFOVERFLOW_FAIL)
        then do { p \<leftarrow> setUnsignedBitfield p offset bits newval; Some (p, Some retval) }
        else Some (p, None) })"

text \<open>GET works on a copy of up to nine bytes that is padded with zeros; \<open>src\<close> is empty without an object.\<close>

definition get_op :: "bitfieldOp \<Rightarrow> byte list \<Rightarrow> int64 option" where
  "get_op thisop src =
     (let i = drop_bit 3 (op_offset thisop);
          copied = take 9 (drop (unat i) src);
          buf = copied @ replicate (9 - length copied) 0;
          offset = op_offset thisop - i * 8
      in if op_sign thisop then getSignedBitfield buf offset (op_bits thisop)
         else getUnsignedBitfield buf offset (op_bits thisop))"

section \<open>Bits of a string\<close>

text \<open>Bit 0 is the most significant bit of the first byte.\<close>

definition bit_at :: "byte list \<Rightarrow> nat \<Rightarrow> bool" where
  "bit_at p i = bit (p ! (i div 8)) (7 - i mod 8)"

lemma offset_byte:
  assumes "i < 2 ^ 64"
  shows "unat (drop_bit 3 (of_nat i :: uint64)) = i div 8"
  using assms by (simp add: unat_div unat_of_nat_small drop_bit_eq_div)

lemma offset_bit:
  assumes "i < 2 ^ 64"
  shows "unat (7 - ((of_nat i :: uint64) AND 7)) = 7 - i mod 8"
proof -
  have "(7 :: uint64) = mask 3" by (simp add: mask_eq_exp_minus_1)
  then have "(of_nat i :: uint64) AND 7 = of_nat i mod 8" by (simp only: take_bit_eq_mask [symmetric] take_bit_eq_mod) simp
  then have u: "unat ((of_nat i :: uint64) AND 7) = i mod 8" using assms by (simp add: unat_mod unat_of_nat_small)
  have "i mod 8 \<le> 7" using mod_less_divisor [of 8 i] by linarith
  then have "(of_nat i :: uint64) AND 7 \<le> 7" unfolding word_le_nat_alt u by simp
  then show ?thesis using u by (simp add: unat_sub)
qed

lemma set_byte_bit:
  assumes "j < 8"
  shows "bit (ucast (((ucast b AND NOT (push_bit k 1)) OR push_bit k (if x then 1 else 0 :: uint64)) AND 0xff) :: byte) j =
    (if j = k then x else bit b j)"
proof -
  have "(0xff :: uint64) = mask 8" by (simp add: mask_eq_exp_minus_1)
  then show ?thesis using assms unfolding \<open>0xff = mask 8\<close> take_bit_eq_mask [symmetric]
    by (auto simp: bit_ucast_iff bit_and_iff bit_or_iff bit_not_iff bit_exp_iff bit_take_bit_iff)
qed

lemma bit_at_update:
  assumes "i < 8 * length p" "n < 8 * length p" "\<And>j. j < 8 \<Longrightarrow> bit nb j = (if j = 7 - n mod 8 then x else bit (p ! (n div 8)) j)"
  shows "bit_at (p[n div 8 := nb]) i = (if i = n then x else bit_at p i)"
proof (cases "i div 8 = n div 8")
  case True
  have "7 - i mod 8 = 7 - n mod 8 \<longleftrightarrow> i mod 8 = n mod 8"
    using mod_less_divisor [of 8 i] mod_less_divisor [of 8 n] by arith
  then have "7 - i mod 8 = 7 - n mod 8 \<longleftrightarrow> i = n" using True by (metis div_mod_decomp)
  then show ?thesis using assms True by (simp add: bit_at_def)
next
  case False
  then show ?thesis by (auto simp: bit_at_def nth_list_update)
qed

lemma set_loop_correct:
  assumes "n + r \<le> 8 * length p" "8 * length p < 2 ^ 64" "r \<le> 64"
  shows "\<exists>p'. set_loop r val (of_nat n) p = Some p' \<and> length p' = length p \<and>
    (\<forall>i < 8 * length p. bit_at p' i = (if n \<le> i \<and> i < n + r then bit val (r - 1 - (i - n)) else bit_at p i))"
  using assms
proof (induction r arbitrary: n p)
  case 0
  then show ?case by auto
next
  case (Suc r)
  have n: "n < 8 * length p" "n < 2 ^ 64" "n div 8 < length p" using Suc.prems by auto
  have r: "unat (of_nat r :: uint64) = r" "(of_nat r :: uint64) < 64" using Suc.prems by (simp_all add: unat_of_nat_small word_less_nat_alt)
  let ?b = "ucast (((ucast (p ! (n div 8)) AND NOT (push_bit (7 - n mod 8) 1)) OR push_bit (7 - n mod 8) (if bit val r then 1 else 0 :: uint64)) AND 0xff) :: byte"
  let ?p = "p[n div 8 := ?b]"
  have step: "set_loop (Suc r) val (of_nat n) p = set_loop r val (of_nat (Suc n)) ?p"
    using n r Suc.prems by (simp add: shl_def Let_def offset_byte offset_bit mem_get_def mem_set_def and_exp_eq_0_iff_not_bit add.commute)
  have u: "bit_at ?p i = (if i = n then bit val r else bit_at p i)" if "i < 8 * length p" for i
    by (rule bit_at_update [OF that n(1)]) (rule set_byte_bit)
  obtain p' where p': "set_loop r val (of_nat (Suc n)) ?p = Some p'" "length p' = length p"
    "\<forall>i < 8 * length p. bit_at p' i = (if Suc n \<le> i \<and> i < Suc n + r then bit val (r - 1 - (i - Suc n)) else bit_at ?p i)"
    using Suc.IH [of "Suc n" ?p] Suc.prems by auto
  have "bit_at p' i = (if n \<le> i \<and> i < n + Suc r then bit val (Suc r - 1 - (i - n)) else bit_at p i)" if i: "i < 8 * length p" for i
  proof -
    consider "i = n" | "i < n \<or> n + Suc r \<le> i" | "n < i" "i < n + Suc r" by linarith
    then show ?thesis
    proof cases
      case 3
      then have "r - 1 - (i - Suc n) = r - (i - n)" by arith
      then show ?thesis using p'(3) i 3 by simp
    qed (use p'(3) u [OF i] i in auto)
  qed
  then show ?case using p' step by auto
qed

lemma get_loop_correct:
  assumes "n + r \<le> 8 * length p" "8 * length p < 2 ^ 64"
  shows "\<exists>v. get_loop r (of_nat n) p val = Some v \<and>
    (\<forall>k < 64. bit v k = (if k < r then bit_at p (n + r - 1 - k) else bit val (k - r)))"
  using assms
proof (induction r arbitrary: n val)
  case 0
  then show ?case by simp
next
  case (Suc r)
  have n: "n < 2 ^ 64" "n div 8 < length p" using Suc.prems by auto
  define v where "v = push_bit 1 val OR (drop_bit (7 - n mod 8) (ucast (p ! (n div 8))) AND 1)"
  have step: "get_loop (Suc r) (of_nat n) p val = get_loop r (of_nat (Suc n)) p v"
    using n unfolding v_def by (simp add: Let_def offset_byte offset_bit mem_get_def add.commute)
  have v: "bit v k = (if k = 0 then bit_at p n else bit val (k - 1))" if "k < 64" for k
    using that unfolding v_def bit_or_iff bit_and_iff bit_push_bit_iff bit_drop_bit_eq bit_ucast_iff bit_at_def by (auto simp: bit_1_iff)
  obtain w where w: "get_loop r (of_nat (Suc n)) p v = Some w"
    "\<forall>k < 64. bit w k = (if k < r then bit_at p (Suc n + r - 1 - k) else bit v (k - r))"
    using Suc.IH [of "Suc n" v] Suc.prems by auto
  have "bit w k = (if k < Suc r then bit_at p (n + Suc r - 1 - k) else bit val (k - Suc r))" if k: "k < 64" for k
  proof -
    consider "k < r" | "k = r" | "r < k" by linarith
    then show ?thesis using w(2) v [of "k - r"] k by cases simp_all
  qed
  then show ?case using w(1) step by auto
qed

lemma push_ones: "push_bit n (-1) = NOT (mask n :: uint64)"
  by (rule bit_eqI) (auto simp: bit_push_bit_iff bit_not_iff bit_mask_iff)

lemma clear_high: "v AND NOT (NOT (mask n)) = take_bit n (v :: uint64)"
  by (simp add: take_bit_eq_mask)

lemma extend_sign:
  assumes "0 < n" "n < 64"
  shows "(if bit v (n - 1) then v OR NOT (mask n) else take_bit n v) = signed_take_bit (n - 1) (v :: uint64)"
proof (rule bit_eqI)
  fix k
  assume "possible_bit TYPE(uint64) k"
  moreover have "k < n \<Longrightarrow> \<not> k < n - 1 \<Longrightarrow> k = n - 1" by linarith
  ultimately show "bit (if bit v (n - 1) then v OR NOT (mask n) else take_bit n v) k = bit (signed_take_bit (n - 1) v) k"
    using assms by (cases "k < n - 1"; cases "k < n")
      (auto simp: bit_or_iff bit_not_iff bit_mask_iff bit_take_bit_iff bit_signed_take_bit_iff min_def)
qed

lemma bitfield_set_get:
  assumes "unat offset + unat bits \<le> 8 * length p" "8 * length p < 2 ^ 64" "unat bits \<le> 64"
  shows "\<exists>p'. setUnsignedBitfield p offset bits val = Some p' \<and> length p' = length p \<and>
    (\<forall>i < 8 * length p. i < unat offset \<or> unat offset + unat bits \<le> i \<longrightarrow> bit_at p' i = bit_at p i) \<and>
    getUnsignedBitfield p' offset bits = Some (take_bit (unat bits) val)"
proof -
  obtain p' where p': "setUnsignedBitfield p offset bits val = Some p'" "length p' = length p"
    "\<forall>i < 8 * length p. bit_at p' i = (if unat offset \<le> i \<and> i < unat offset + unat bits
       then bit val (unat bits - 1 - (i - unat offset)) else bit_at p i)"
    using set_loop_correct [OF assms, of val] by (auto simp: setUnsignedBitfield_def)
  obtain v where v: "getUnsignedBitfield p' offset bits = Some v"
    "\<forall>k < 64. bit v k = (if k < unat bits then bit_at p' (unat offset + unat bits - 1 - k) else bit (0 :: uint64) (k - unat bits))"
    using get_loop_correct [of "unat offset" "unat bits" p' 0] assms p'(2) by (auto simp: getUnsignedBitfield_def)
  have "v = take_bit (unat bits) val"
  proof (rule bit_eqI)
    fix k
    assume "possible_bit TYPE(uint64) k"
    then have k: "k < 64" by simp
    have "unat bits - 1 - (unat offset + unat bits - 1 - k - unat offset) = k \<and> unat offset \<le> unat offset + unat bits - 1 - k"
      if "k < unat bits" using that by arith
    then show "bit v k = bit (take_bit (unat bits) val) k"
      using v(2) p'(3) k assms(1) by (simp add: bit_take_bit_iff)
  qed
  then show ?thesis using p' v(1) by auto
qed

lemma getSigned_eq:
  assumes "getUnsignedBitfield p offset bits = Some (take_bit (unat bits) val)" "0 < unat bits" "unat bits \<le> 64"
  shows "getSignedBitfield p offset bits =
    (if unat bits < 64 then Some (signed_take_bit (unat bits - 1) val) else if bit val 63 then None else Some val)"
proof -
  have b: "unat (bits - 1) = unat bits - 1" using assms(2) by (simp add: unat_minus_one word_unat_eq_iff)
  then have t: "shl 1 (bits - 1) = Some (2 ^ (unat bits - 1))" using assms(3) by (simp add: shl_def word_less_nat_alt)
  have top: "(take_bit (unat bits) val AND 2 ^ (unat bits - 1) = 0) = (\<not> bit val (unat bits - 1))"
    using assms(2) by (simp add: and_exp_eq_0_iff_not_bit bit_take_bit_iff)
  show ?thesis
  proof (cases "unat bits < 64")
    case True
    have "(if bit (take_bit (unat bits) val) (unat bits - 1) then take_bit (unat bits) val OR NOT (mask (unat bits))
        else take_bit (unat bits) val) = signed_take_bit (unat bits - 1) (take_bit (unat bits) val)"
      using extend_sign [OF assms(2) True, of "take_bit (unat bits) val"] unfolding take_bit_take_bit min.idem .
    moreover have "signed_take_bit (unat bits - 1) (take_bit (unat bits) val) = signed_take_bit (unat bits - 1) val"
      using assms(2) by (intro bit_eqI) (auto simp: bit_signed_take_bit_iff bit_take_bit_iff min_def)
    ultimately show ?thesis using assms True t top
      by (simp add: getSignedBitfield_def shl_def word_less_nat_alt bit_take_bit_iff push_ones split: if_splits)
  next
    case False
    then have "unat bits = 64" using assms(3) by simp
    then show ?thesis using assms t top by (simp add: getSignedBitfield_def shl_def word_less_nat_alt take_bit_word_eq_self)
  qed
qed

section \<open>Overflow rules\<close>

text \<open>What an increment of a field should give: a report, and the value for the overflow type.\<close>

lemma uint_wrap:
  assumes "n \<le> 64"
  shows "uint (take_bit n (v + w :: uint64)) = (uint v + sint w) mod 2 ^ n"
proof -
  have "(v + w :: uint64) = word_of_int (uint v + sint w)" by simp
  then have "uint (take_bit n (v + w)) = take_bit n (take_bit 64 (uint v + sint w))"
    by (simp only: unsigned_take_bit_eq unsigned_of_int) simp
  then show ?thesis using assms by (simp add: take_bit_eq_mod [symmetric] min_def)
qed

lemma sint_signed_take_bit: "m < 64 \<Longrightarrow> sint (signed_take_bit m (w :: uint64)) = signed_take_bit m (sint w)"
  by (rule bit_eqI) (auto simp: bit_sint_iff bit_signed_take_bit_iff min_def)

lemma sint_sum: "sint (v + w :: uint64) = signed_take_bit 63 (sint v + sint w)"
proof -
  have "(v + w :: uint64) = word_of_int (sint v + sint w)" by simp
  then show ?thesis by (simp only: signed_of_int) simp
qed

lemma sint_wrap: "m < 64 \<Longrightarrow> sint (signed_take_bit m (v + w :: uint64)) = signed_take_bit m (sint v + sint w)"
  by (simp add: sint_signed_take_bit sint_sum signed_take_bit_signed_take_bit)

lemma sint_small: "uint (w :: uint64) < 2 ^ 63 \<Longrightarrow> sint w = uint w"
  by (simp add: sint_uint signed_take_bit_int_eq_self order.trans [OF _ uint_ge_0])

lemma checkUnsigned_exact:
  assumes b: "0 < unat bits" "unat bits < 64" and v: "uint val < 2 ^ unat bits \<or> incr = 0"
  defines "x \<equiv> uint val + sint incr" and "M \<equiv> 2 ^ unat bits :: int"
  shows "\<exists>r lim. checkUnsignedBitfieldOverflow val incr bits ow limit = Some (r, lim) \<and>
    (if x \<ge> M then r = 1 \<and> uint lim = (case ow of BFOVERFLOW_WRAP \<Rightarrow> x mod M | BFOVERFLOW_SAT \<Rightarrow> M - 1 | BFOVERFLOW_FAIL \<Rightarrow> uint limit)
     else if x < 0 then r = (if ow = BFOVERFLOW_WRAP then 1 else -1) \<and>
       uint lim = (case ow of BFOVERFLOW_WRAP \<Rightarrow> x mod M | BFOVERFLOW_SAT \<Rightarrow> 0 | BFOVERFLOW_FAIL \<Rightarrow> uint limit)
     else r = 0 \<and> lim = limit)"
proof -
  have M: "0 < M" "M \<le> 2 ^ 63" using b(2) power_increasing [of "unat bits" 63 "2::int"] by (simp_all add: M_def)
  have s: "shl 1 bits = Some (2 ^ unat bits)" "shl (-1) bits = Some (NOT (mask (unat bits)))" "bits \<noteq> 64"
    using b(2) by (auto simp: shl_def word_less_nat_alt push_ones)
  have mx: "uint (mask (unat bits) :: uint64) = M - 1" using b(2) unfolding M_def mask_eq_exp_minus_1 [symmetric] uint_mask_eq by simp
  have w: "uint ((val + incr) AND NOT (NOT (mask (unat bits)))) = x mod M"
    unfolding clear_high x_def M_def by (rule uint_wrap) (use b(2) in simp)
  let ?mx = "mask (unat bits) :: uint64"
  have o: "(val > ?mx \<or> sint incr > 0 \<and> sint incr > sint (?mx - val)) \<longleftrightarrow> x \<ge> M"
  proof (cases "val > ?mx")
    case True
    then have "uint val \<ge> M" "incr = 0" using v mx by (auto simp: word_less_def M_def)
    then show ?thesis using True by (simp add: x_def)
  next
    case False
    then have l: "uint val \<le> M - 1" by (simp add: word_le_def mx [symmetric] not_less)
    then have "uint (?mx - val) = M - 1 - uint val" using mx by (simp add: uint_sub_if')
    then have "sint (?mx - val) = M - 1 - uint val" using M l uint_ge_0 [of val] by (subst sint_small) linarith+
    then show ?thesis using False l by (auto simp: x_def)
  qed
  have u: "(sint incr < 0 \<and> sint incr < sint (- val)) \<longleftrightarrow> x < 0" if "\<not> x \<ge> M"
  proof -
    have "\<not> val > ?mx" using o that by blast
    then have l: "uint val < 2 ^ 63" using mx M by (simp add: word_le_def not_less)
    have "sint (- val) = - uint val"
    proof -
      have "- val = word_of_int (- uint val)" by simp
      then have "sint (- val) = signed_take_bit 63 (- uint val)" by (simp only: signed_of_int) simp
      moreover have "- uint val < 2 ^ 63" by (rule order.strict_trans1 [of _ 0]) simp_all
      ultimately show ?thesis using l by (simp add: signed_take_bit_int_eq_self)
    qed
    with uint_ge_0 [of val] show ?thesis unfolding x_def by (intro iffI conjI; linarith)
  qed
  show ?thesis
    using M s o u w mx by (cases ow) (auto simp: checkUnsignedBitfieldOverflow_def Let_def mask_eq_exp_minus_1 [symmetric])
qed

lemma checkSigned_exact:
  assumes b: "0 < unat bits" "unat bits \<le> 64"
    and v: "- (2 ^ (unat bits - 1)) \<le> sint val \<and> sint val < 2 ^ (unat bits - 1) \<or>
      incr = 0 \<and> 2 ^ (unat bits - 1) - 2 ^ 63 \<le> sint val"
  defines "x \<equiv> sint val + sint incr" and "H \<equiv> 2 ^ (unat bits - 1) :: int"
  shows "if (x \<ge> H \<or> x < - H) \<and> ow = BFOVERFLOW_WRAP \<and> unat bits = 64
    then checkSignedBitfieldOverflow val incr bits ow limit = None
    else \<exists>r lim. checkSignedBitfieldOverflow val incr bits ow limit = Some (r, lim) \<and>
      (if x \<ge> H then r = 1 \<and>
         sint lim = (case ow of BFOVERFLOW_WRAP \<Rightarrow> signed_take_bit (unat bits - 1) x | BFOVERFLOW_SAT \<Rightarrow> H - 1 | BFOVERFLOW_FAIL \<Rightarrow> sint limit)
       else if x < - H then r = (if ow = BFOVERFLOW_WRAP then 1 else -1) \<and>
         sint lim = (case ow of BFOVERFLOW_WRAP \<Rightarrow> signed_take_bit (unat bits - 1) x | BFOVERFLOW_SAT \<Rightarrow> - H | BFOVERFLOW_FAIL \<Rightarrow> sint limit)
       else r = 0 \<and> lim = limit)"
proof -
  have H: "0 < H" "H \<le> 2 ^ 63" using b(2) power_increasing [of "unat bits - 1" 63 "2::int"] by (simp_all add: H_def)
  let ?mx = "mask (unat bits - 1) :: uint64"
  have b1: "unat (bits - 1) = unat bits - 1" using b(1) by (simp add: unat_minus_one word_unat_eq_iff)
  have b64: "bits = 64 \<longleftrightarrow> unat bits = 64" by (simp add: word_unat_eq_iff)
  have top: "shl 1 (bits - 1) = Some (2 ^ (unat bits - 1))" using b b1 by (simp add: shl_def word_less_nat_alt)
  have mxe: "(if bits = 64 then Some 0x7FFFFFFFFFFFFFFF else map_option (\<lambda>x. x - 1) (shl 1 (bits - 1))) = Some ?mx"
  proof (cases "bits = 64")
    case True
    have "(0x7FFFFFFFFFFFFFFF :: uint64) = mask 63" by (simp add: mask_eq_exp_minus_1)
    then show ?thesis using True b64 by simp
  next
    case False
    then show ?thesis using top by (simp add: mask_eq_exp_minus_1)
  qed
  have um: "uint ?mx = H - 1" using b(2) unfolding H_def mask_eq_exp_minus_1 [symmetric] uint_mask_eq by simp
  then have mx: "sint ?mx = H - 1" using H by (subst sint_small) auto
  have mn: "sint (- ?mx - 1) = - H"
  proof -
    have "?mx = word_of_int (H - 1)" using um by (metis word_of_int_uint)
    then have "- ?mx - 1 = word_of_int (- H)" by simp
    then have "sint (- ?mx - 1) = signed_take_bit 63 (- H)" by (simp only: signed_of_int) simp
    then show ?thesis using H by (simp add: signed_take_bit_int_eq_self)
  qed
  have sub: "sint (m - val) = sint m - sint val" if "- (2 ^ 63) \<le> sint m - sint val" "sint m - sint val < 2 ^ 63" for m :: uint64
  proof -
    have "m - val = word_of_int (sint m - sint val)" by simp
    then have "sint (m - val) = signed_take_bit 63 (sint m - sint val)" by (simp only: signed_of_int) simp
    then show ?thesis using that by (simp add: signed_take_bit_int_eq_self)
  qed
  have r: "- (2 ^ 63) \<le> sint val" "sint val < 2 ^ 63" "- (2 ^ 63) \<le> sint incr" "sint incr < 2 ^ 63"
    using sint_ge [of val] sint_lt [of val] sint_ge [of incr] sint_lt [of incr] by simp_all
  have H2: "H \<le> 2 ^ 62" if "bits \<noteq> 64" using that b64 b(2) power_increasing [of "unat bits - 1" 62 "2::int"] by (simp add: H_def)
  have over: "(sint val > sint ?mx \<or> bits \<noteq> 64 \<and> sint incr > sint (?mx - val) \<or>
      sint val \<ge> 0 \<and> sint incr > 0 \<and> sint incr > sint (?mx - val)) \<longleftrightarrow> x \<ge> H"
  proof (cases "sint val \<ge> H")
    case True
    then have "incr = 0" using v by (simp add: H_def)
    then show ?thesis using True mx by (simp add: x_def)
  next
    case False
    show ?thesis
    proof (cases "bits = 64 \<and> sint val < 0")
      case True
      then have "H = 2 ^ 63" using b64 by (simp add: H_def)
      then show ?thesis using True r mx by (auto simp: x_def)
    next
      case n: False
      have "- H \<le> sint val \<or> incr = 0 \<and> H - 2 ^ 63 \<le> sint val" using v unfolding H_def by blast
      then have "sint (?mx - val) = H - 1 - sint val" using n False H H2 mx r by (subst sub) auto
      then show ?thesis using n False mx by (auto simp: x_def)
    qed
  qed
  have under: "(sint val < sint (- ?mx - 1) \<or> bits \<noteq> 64 \<and> sint incr < sint (- ?mx - 1 - val) \<or>
      sint val < 0 \<and> sint incr < 0 \<and> sint incr < sint (- ?mx - 1 - val)) \<longleftrightarrow> x < - H" if x: "\<not> x \<ge> H"
  proof (cases "sint val < - H")
    case True
    then have "incr = 0" using v by (simp add: H_def)
    then show ?thesis using True mn by (simp add: x_def)
  next
    case False
    have l: "sint val < H" using v x by (auto simp: H_def x_def)
    show ?thesis
    proof (cases "bits = 64 \<and> sint val \<ge> 0")
      case True
      then have "H = 2 ^ 63" using b64 by (simp add: H_def)
      then show ?thesis using True r mn by (auto simp: x_def)
    next
      case n: False
      have "sint (- ?mx - 1 - val) = - H - sint val" using n False l H H2 mn r by (subst sub) auto
      then show ?thesis using n False mn by (auto simp: x_def)
    qed
  qed
  have wrap: "do {
       m \<leftarrow> shl (-1) bits;
       msb \<leftarrow> shl 1 (bits - 1);
       let c = val + incr;
       Some (1 :: int, if c AND msb \<noteq> 0 then c OR m else c AND NOT m) } =
     (if bits = 64 then None else Some (1, signed_take_bit (unat bits - 1) (val + incr)))"
  proof (cases "bits = 64")
    case True
    then show ?thesis by (simp add: shl_def)
  next
    case False
    then have l: "unat bits < 64" using b64 b(2) by simp
    then have "shl (-1) bits = Some (NOT (mask (unat bits)))" by (simp add: shl_def word_less_nat_alt push_ones)
    then show ?thesis using False top extend_sign [OF b(1) l, of "val + incr"]
      by (simp add: Let_def and_exp_eq_0_iff_not_bit flip: take_bit_eq_mask split: if_splits)
  qed
  have sw: "sint (signed_take_bit (unat bits - 1) (val + incr)) = signed_take_bit (unat bits - 1) x"
    unfolding x_def by (rule sint_wrap) (use b in simp)
  have e: "checkSignedBitfieldOverflow val incr bits ow limit =
      (if x \<ge> H then (case ow of BFOVERFLOW_WRAP \<Rightarrow> (if bits = 64 then None else Some (1, signed_take_bit (unat bits - 1) (val + incr)))
         | BFOVERFLOW_SAT \<Rightarrow> Some (1, ?mx) | BFOVERFLOW_FAIL \<Rightarrow> Some (1, limit))
       else if x < - H then (case ow of BFOVERFLOW_WRAP \<Rightarrow> (if bits = 64 then None else Some (1, signed_take_bit (unat bits - 1) (val + incr)))
         | BFOVERFLOW_SAT \<Rightarrow> Some (-1, - ?mx - 1) | BFOVERFLOW_FAIL \<Rightarrow> Some (-1, limit))
       else Some (0, limit))"
    unfolding checkSignedBitfieldOverflow_def mxe bind.simps Let_def wrap [unfolded Let_def] over
    by (rule if_cong [OF refl refl], rule if_cong [OF under refl refl])
  show ?thesis unfolding e using mx mn sw b64 H(1) by (cases ow) simp_all
qed

section \<open>Fields\<close>

text \<open>The integers that fit into a field, and the integer in a field.\<close>

definition field_min :: "bool \<Rightarrow> nat \<Rightarrow> int" where
  "field_min sgnd n = (if sgnd then - (2 ^ (n - 1)) else 0)"

definition field_max :: "bool \<Rightarrow> nat \<Rightarrow> int" where
  "field_max sgnd n = (if sgnd then 2 ^ (n - 1) - 1 else 2 ^ n - 1)"

definition to_number :: "bool \<Rightarrow> uint64 \<Rightarrow> int" where
  "to_number sgnd w = (if sgnd then sint w else uint w)"

definition read_field :: "bool \<Rightarrow> byte list \<Rightarrow> uint64 \<Rightarrow> uint64 \<Rightarrow> uint64 option" where
  "read_field sgnd p offset bits = (if sgnd then getSignedBitfield p offset bits else getUnsignedBitfield p offset bits)"

text \<open>What is stored for a number under an overflow type; \<open>None\<close> when it is refused.\<close>

definition fit :: "owtype \<Rightarrow> bool \<Rightarrow> nat \<Rightarrow> int \<Rightarrow> int option" where
  "fit ow sgnd n x =
     (if field_min sgnd n \<le> x \<and> x \<le> field_max sgnd n then Some x
      else (case ow of
        BFOVERFLOW_WRAP \<Rightarrow> Some (field_min sgnd n + (x - field_min sgnd n) mod 2 ^ n)
      | BFOVERFLOW_SAT \<Rightarrow> Some (if x < field_min sgnd n then field_min sgnd n else field_max sgnd n)
      | BFOVERFLOW_FAIL \<Rightarrow> None))"

lemma signed_wrap: "0 < n \<Longrightarrow> signed_take_bit (n - 1) x = field_min True n + (x - field_min True n) mod 2 ^ n" for x :: int
  by (simp add: field_min_def signed_take_bit_eq_take_bit_shift take_bit_eq_mod)

lemma getUnsigned_take_bit:
  assumes "unat offset + unat bits \<le> 8 * length p" "8 * length p < 2 ^ 64"
  shows "\<exists>v. getUnsignedBitfield p offset bits = Some (take_bit (unat bits) v)"
proof -
  obtain v where v: "getUnsignedBitfield p offset bits = Some v"
    "\<forall>k < 64. bit v k = (if k < unat bits then bit_at p (unat offset + unat bits - 1 - k) else bit (0 :: uint64) (k - unat bits))"
    using get_loop_correct [of "unat offset" "unat bits" p 0] assms by (auto simp: getUnsignedBitfield_def)
  have "take_bit (unat bits) v = v" using v(2) by (intro bit_eqI) (simp add: bit_take_bit_iff)
  then show ?thesis using v(1) by metis
qed

lemma read_field_range:
  assumes b: "0 < unat bits" "unat bits < 64" and o: "unat offset + unat bits \<le> 8 * length p" "8 * length p < 2 ^ 64"
  shows "\<exists>w. read_field sgnd p offset bits = Some w \<and>
    field_min sgnd (unat bits) \<le> to_number sgnd w \<and> to_number sgnd w \<le> field_max sgnd (unat bits)"
proof -
  obtain v where v: "getUnsignedBitfield p offset bits = Some (take_bit (unat bits) v)" using getUnsigned_take_bit [OF o] by blast
  show ?thesis
  proof (cases sgnd)
    case True
    have "sint (signed_take_bit (unat bits - 1) v) = signed_take_bit (unat bits - 1) (sint v)"
      using b(2) by (intro sint_signed_take_bit) simp
    moreover have "- (2 ^ (unat bits - 1)) \<le> signed_take_bit (unat bits - 1) (sint v)" "signed_take_bit (unat bits - 1) (sint v) < 2 ^ (unat bits - 1)"
      by (rule signed_take_bit_int_greater_eq_minus_exp, rule signed_take_bit_int_less_exp)
    ultimately show ?thesis using getSigned_eq [OF v b(1)] b(2) True by (simp add: read_field_def to_number_def field_min_def field_max_def)
  next
    case False
    then show ?thesis using v by (simp add: read_field_def to_number_def field_min_def field_max_def unsigned_take_bit_eq)
  qed
qed

lemma write_field:
  assumes b: "0 < unat bits" "unat bits < 64" and o: "unat offset + unat bits \<le> 8 * length p" "8 * length p < 2 ^ 64"
    and r: "field_min sgnd (unat bits) \<le> to_number sgnd w" "to_number sgnd w \<le> field_max sgnd (unat bits)"
  shows "\<exists>p'. setUnsignedBitfield p offset bits w = Some p' \<and> length p' = length p \<and>
    (\<forall>i < 8 * length p. i < unat offset \<or> unat offset + unat bits \<le> i \<longrightarrow> bit_at p' i = bit_at p i) \<and>
    read_field sgnd p' offset bits = Some w"
proof -
  obtain p' where p': "setUnsignedBitfield p offset bits w = Some p'" "length p' = length p"
    "\<forall>i < 8 * length p. i < unat offset \<or> unat offset + unat bits \<le> i \<longrightarrow> bit_at p' i = bit_at p i"
    "getUnsignedBitfield p' offset bits = Some (take_bit (unat bits) w)"
    using bitfield_set_get [OF o] b(2) by fastforce
  have "read_field sgnd p' offset bits = Some w"
  proof (cases sgnd)
    case True
    have "sint (signed_take_bit (unat bits - 1) w) = signed_take_bit (unat bits - 1) (sint w)"
      using b(2) by (intro sint_signed_take_bit) simp
    then have "signed_take_bit (unat bits - 1) w = w"
      using r True by (intro signed_word_eqI) (simp add: to_number_def field_min_def field_max_def signed_take_bit_int_eq_self)
    then show ?thesis using getSigned_eq [OF p'(4) b(1)] b(2) True by (simp add: read_field_def)
  next
    case False
    have "uint (take_bit (unat bits) w) = uint w"
      using r False by (simp add: to_number_def field_max_def unsigned_take_bit_eq take_bit_int_eq_self)
    then show ?thesis using p'(4) False by (simp add: read_field_def word_uint_eq_iff)
  qed
  then show ?thesis using p' by blast
qed

text \<open>The checks compute the number that fits.\<close>

definition fits_check :: "bool \<Rightarrow> uint64 \<Rightarrow> uint64 \<Rightarrow> nat \<Rightarrow> owtype \<Rightarrow> (int \<times> uint64) option \<Rightarrow> bool" where
  "fits_check sgnd val incr n ow result \<longleftrightarrow> (\<exists>r lim. result = Some (r, lim) \<and>
     (case fit ow sgnd n (to_number sgnd val + sint incr) of
        None \<Rightarrow> r \<noteq> 0 \<and> ow = BFOVERFLOW_FAIL
      | Some y \<Rightarrow> \<not> (r \<noteq> 0 \<and> ow = BFOVERFLOW_FAIL) \<and> to_number sgnd (if r \<noteq> 0 then lim else val + incr) = y))"

lemma checkUnsigned_fits:
  assumes b: "0 < unat bits" "unat bits < 64" and v: "uint val < 2 ^ unat bits \<or> incr = 0"
  shows "fits_check False val incr (unat bits) ow (checkUnsignedBitfieldOverflow val incr bits ow limit)"
proof -
  let ?x = "uint val + sint incr" and ?M = "2 ^ unat bits :: int"
  have M: "?M \<le> 2 ^ 63" using b(2) power_increasing [of "unat bits" 63 "2::int"] by simp
  have sum: "uint (val + incr) = ?x" if "0 \<le> ?x" "?x < ?M"
  proof -
    have "uint (val + incr) = ?x mod 2 ^ 64" using uint_wrap [of 64 val incr] by (simp add: take_bit_word_eq_self)
    then show ?thesis using that M by simp
  qed
  obtain r lim where e: "checkUnsignedBitfieldOverflow val incr bits ow limit = Some (r, lim)" and
    c: "if ?x \<ge> ?M then r = 1 \<and> uint lim = (case ow of BFOVERFLOW_WRAP \<Rightarrow> ?x mod ?M | BFOVERFLOW_SAT \<Rightarrow> ?M - 1 | BFOVERFLOW_FAIL \<Rightarrow> uint limit)
     else if ?x < 0 then r = (if ow = BFOVERFLOW_WRAP then 1 else -1) \<and>
       uint lim = (case ow of BFOVERFLOW_WRAP \<Rightarrow> ?x mod ?M | BFOVERFLOW_SAT \<Rightarrow> 0 | BFOVERFLOW_FAIL \<Rightarrow> uint limit)
     else r = 0 \<and> lim = limit"
    using checkUnsigned_exact [OF b v, of ow limit] by blast
  consider (over) "?M \<le> ?x" "0 \<le> ?x" | (under) "?x < 0" "\<not> ?M \<le> ?x" | (ok) "0 \<le> ?x" "?x < ?M" by (meson linorder_not_less zero_le_numeral zero_le_power order_trans)
  then show ?thesis
  proof cases
    case over
    then show ?thesis using c e by (cases ow) (simp_all add: fits_check_def fit_def field_min_def field_max_def to_number_def)
  next
    case under
    then show ?thesis using c e by (cases ow) (simp_all add: fits_check_def fit_def field_min_def field_max_def to_number_def)
  next
    case ok
    then show ?thesis using c e sum by (simp add: fits_check_def fit_def field_min_def field_max_def to_number_def)
  qed
qed

lemma checkSigned_fits:
  assumes b: "0 < unat bits" "unat bits < 64"
    and v: "- (2 ^ (unat bits - 1)) \<le> sint val \<and> sint val < 2 ^ (unat bits - 1) \<or>
      incr = 0 \<and> 2 ^ (unat bits - 1) - 2 ^ 63 \<le> sint val"
  shows "fits_check True val incr (unat bits) ow (checkSignedBitfieldOverflow val incr bits ow limit)"
proof -
  let ?x = "sint val + sint incr" and ?H = "2 ^ (unat bits - 1) :: int"
  have H: "?H \<le> 2 ^ 62" using b(2) power_increasing [of "unat bits - 1" 62 "2::int"] by simp
  have b64: "unat bits \<le> 64" using b(2) by simp
  have sum: "sint (val + incr) = ?x" if "- ?H \<le> ?x" "?x < ?H"
  proof -
    show ?thesis using that H by (simp add: sint_sum signed_take_bit_int_eq_self)
  qed
  obtain r lim where e: "checkSignedBitfieldOverflow val incr bits ow limit = Some (r, lim)" and
    c: "if ?x \<ge> ?H then r = 1 \<and>
         sint lim = (case ow of BFOVERFLOW_WRAP \<Rightarrow> signed_take_bit (unat bits - 1) ?x | BFOVERFLOW_SAT \<Rightarrow> ?H - 1 | BFOVERFLOW_FAIL \<Rightarrow> sint limit)
       else if ?x < - ?H then r = (if ow = BFOVERFLOW_WRAP then 1 else -1) \<and>
         sint lim = (case ow of BFOVERFLOW_WRAP \<Rightarrow> signed_take_bit (unat bits - 1) ?x | BFOVERFLOW_SAT \<Rightarrow> - ?H | BFOVERFLOW_FAIL \<Rightarrow> sint limit)
       else r = 0 \<and> lim = limit"
    using checkSigned_exact [OF b(1) b64 v, of ow limit] b(2) by (auto split: if_split_asm)
  note w = signed_wrap [OF b(1), of ?x]
  have "0 < ?H" by simp
  then consider (over) "?H \<le> ?x" "- ?H \<le> ?x" | (under) "?x < - ?H" "\<not> ?H \<le> ?x" | (ok) "- ?H \<le> ?x" "?x < ?H" by linarith
  then show ?thesis
  proof cases
    case over
    then show ?thesis using c e w by (cases ow) (simp_all add: fits_check_def fit_def field_min_def field_max_def to_number_def)
  next
    case under
    then show ?thesis using c e w by (cases ow) (simp_all add: fits_check_def fit_def field_min_def field_max_def to_number_def)
  next
    case ok
    then show ?thesis using c e sum by (simp add: fits_check_def fit_def field_min_def field_max_def to_number_def)
  qed
qed

lemma fit_range:
  assumes "fit ow sgnd n x = Some y" "0 < n"
  shows "field_min sgnd n \<le> y \<and> y \<le> field_max sgnd n"
proof -
  have p: "2 * 2 ^ (n - 1) = (2 ^ n :: int)" using assms(2) by (simp flip: power_Suc)
  have "0 \<le> (x - field_min sgnd n) mod 2 ^ n" "(x - field_min sgnd n) mod 2 ^ n < 2 ^ n" by simp_all
  moreover have "field_max sgnd n = field_min sgnd n + 2 ^ n - 1" using p by (simp add: field_min_def field_max_def)
  moreover have "field_min sgnd n \<le> field_max sgnd n" by (simp add: field_min_def field_max_def)
  ultimately show ?thesis using assms(1) by (cases ow) (auto simp: fit_def split: if_split_asm)
qed

text \<open>The two kinds of operation, as one: a value, an increment, and what is replied.\<close>

lemma write_op_fit:
  assumes b: "0 < unat (op_bits op)" "unat (op_bits op) < 64"
    and o: "unat (op_offset op) + unat (op_bits op) \<le> 8 * length p" "8 * length p < 2 ^ 64"
    and old: "read_field (op_sign op) p (op_offset op) (op_bits op) = Some old"
    and val: "(val, incr) = (if op_opcode op = BITFIELDOP_INCRBY then (old, op_i64 op) else (op_i64 op, 0))"
    and c: "fits_check (op_sign op) val incr (unat (op_bits op)) (op_owtype op)
      (if op_sign op then checkSignedBitfieldOverflow val incr (op_bits op) (op_owtype op) wrapped
       else checkUnsignedBitfieldOverflow val incr (op_bits op) (op_owtype op) wrapped)"
  shows "case fit (op_owtype op) (op_sign op) (unat (op_bits op)) (to_number (op_sign op) val + sint incr) of
      None \<Rightarrow> write_op wrapped op p = Some (p, None)
    | Some y \<Rightarrow> \<exists>p' w. write_op wrapped op p = Some (p', Some (if op_opcode op = BITFIELDOP_INCRBY then w else old)) \<and>
        length p' = length p \<and> (\<forall>i < 8 * length p. i < unat (op_offset op) \<or> unat (op_offset op) + unat (op_bits op) \<le> i \<longrightarrow> bit_at p' i = bit_at p i) \<and>
        read_field (op_sign op) p' (op_offset op) (op_bits op) = Some w \<and> to_number (op_sign op) w = y"
proof -
  let ?f = "fit (op_owtype op) (op_sign op) (unat (op_bits op)) (to_number (op_sign op) val + sint incr)"
  obtain r lim where e: "(if op_sign op then checkSignedBitfieldOverflow val incr (op_bits op) (op_owtype op) wrapped
       else checkUnsignedBitfieldOverflow val incr (op_bits op) (op_owtype op) wrapped) = Some (r, lim)"
    and f: "case ?f of None \<Rightarrow> r \<noteq> 0 \<and> op_owtype op = BFOVERFLOW_FAIL
      | Some y \<Rightarrow> \<not> (r \<noteq> 0 \<and> op_owtype op = BFOVERFLOW_FAIL) \<and> to_number (op_sign op) (if r \<noteq> 0 then lim else val + incr) = y"
    using c unfolding fits_check_def by blast
  let ?n = "if r \<noteq> 0 then lim else val + incr"
  have w: "write_op wrapped op p =
      (if r \<noteq> 0 \<and> op_owtype op = BFOVERFLOW_FAIL then Some (p, None)
       else Option.bind (setUnsignedBitfield p (op_offset op) (op_bits op) ?n)
         (\<lambda>p'. Some (p', Some (if op_opcode op = BITFIELDOP_INCRBY then ?n else old))))"
    using old val e by (cases "op_sign op"; cases "op_opcode op = BITFIELDOP_INCRBY")
      (simp_all add: write_op_def Let_def read_field_def setSignedBitfield_def)
  show ?thesis
  proof (cases ?f)
    case None
    then show ?thesis using f w by simp
  next
    case (Some y)
    note r = fit_range [OF Some b(1)]
    have y: "to_number (op_sign op) ?n = y" "\<not> (r \<noteq> 0 \<and> op_owtype op = BFOVERFLOW_FAIL)" using f Some by simp_all
    obtain p' where "setUnsignedBitfield p (op_offset op) (op_bits op) ?n = Some p'" "length p' = length p"
      "\<forall>i < 8 * length p. i < unat (op_offset op) \<or> unat (op_offset op) + unat (op_bits op) \<le> i \<longrightarrow> bit_at p' i = bit_at p i"
      "read_field (op_sign op) p' (op_offset op) (op_bits op) = Some ?n"
      using write_field [OF b o, of "op_sign op" ?n] r y(1) by blast
    then show ?thesis unfolding Some option.case using w y by (intro exI [of _ p'] exI [of _ ?n]) simp
  qed
qed

section \<open>Properties\<close>

text \<open>
  C35. SET and INCRBY of BITFIELD on a field of up to 63 bits anywhere in the string: the number that the
  overflow type prescribes for the exact result is stored and reads back, the old value is replied by SET
  and the new one by INCRBY, no other bit of the string changes, and with the type FAIL a number that does
  not fit changes nothing. Signed SET is restricted to values from \<open>2 ^ (bits - 1) - 2 ^ 63\<close> on: below, the largest
  increment overflows and saturation stores the wrong end of the range.
\<close>

theorem bitfield_write_exact:
  assumes "0 < unat (op_bits op)" "unat (op_bits op) < 64"
    "unat (op_offset op) + unat (op_bits op) \<le> 8 * length p" "8 * length p < 2 ^ 64"
    "op_opcode op \<noteq> BITFIELDOP_GET"
    "op_opcode op = BITFIELDOP_SET \<and> op_sign op \<longrightarrow> 2 ^ (unat (op_bits op) - 1) - 2 ^ 63 \<le> sint (op_i64 op)"
  shows "\<exists>old. read_field (op_sign op) p (op_offset op) (op_bits op) = Some old \<and>
    (case fit (op_owtype op) (op_sign op) (unat (op_bits op))
        (if op_opcode op = BITFIELDOP_INCRBY then to_number (op_sign op) old + sint (op_i64 op) else to_number (op_sign op) (op_i64 op)) of
      None \<Rightarrow> write_op wrapped op p = Some (p, None)
    | Some y \<Rightarrow> \<exists>p' w. write_op wrapped op p = Some (p', Some (if op_opcode op = BITFIELDOP_INCRBY then w else old)) \<and>
        length p' = length p \<and> (\<forall>i < 8 * length p. i < unat (op_offset op) \<or> unat (op_offset op) + unat (op_bits op) \<le> i \<longrightarrow> bit_at p' i = bit_at p i) \<and>
        read_field (op_sign op) p' (op_offset op) (op_bits op) = Some w \<and> to_number (op_sign op) w = y)"
proof -
  obtain old where old: "read_field (op_sign op) p (op_offset op) (op_bits op) = Some old"
    "field_min (op_sign op) (unat (op_bits op)) \<le> to_number (op_sign op) old" "to_number (op_sign op) old \<le> field_max (op_sign op) (unat (op_bits op))"
    using read_field_range [OF assms(1-4)] by blast
  obtain val incr where v: "(val, incr) = (if op_opcode op = BITFIELDOP_INCRBY then (old, op_i64 op) else (op_i64 op, 0))" by fastforce
  have set: "op_opcode op \<noteq> BITFIELDOP_INCRBY \<longrightarrow> op_opcode op = BITFIELDOP_SET" using assms(5) by (cases "op_opcode op") auto
  have "fits_check (op_sign op) val incr (unat (op_bits op)) (op_owtype op)
      (if op_sign op then checkSignedBitfieldOverflow val incr (op_bits op) (op_owtype op) wrapped
       else checkUnsignedBitfieldOverflow val incr (op_bits op) (op_owtype op) wrapped)"
    using checkUnsigned_fits [OF assms(1,2)] checkSigned_fits [OF assms(1,2)] old(2,3) v set assms(6)
    by (auto simp: to_number_def field_min_def field_max_def split: if_splits)
  note w = write_op_fit [OF assms(1-4) old(1) v this]
  have x: "to_number (op_sign op) val + sint incr =
      (if op_opcode op = BITFIELDOP_INCRBY then to_number (op_sign op) old + sint (op_i64 op) else to_number (op_sign op) (op_i64 op))"
    using v by (simp split: if_split_asm)
  show ?thesis using old(1) w unfolding x by blast
qed

text \<open>INCRBY by 200 of a field of 8 bits that holds 100, in the middle of a string, saturated at 255.\<close>

definition sample_op :: bitfieldOp where
  "sample_op = \<lparr>op_offset = 4, op_i64 = 200, op_opcode = BITFIELDOP_INCRBY, op_owtype = BFOVERFLOW_SAT, op_bits = 8, op_sign = False\<rparr>"

theorem bitfield_write_exact_witness:
  "\<exists>p' w. write_op 0 sample_op [6, 65] = Some (p', Some w) \<and> length p' = 2 \<and> read_field False p' 4 8 = Some w \<and> uint w = 255"
proof -
  have r: "read_field False [6, 65] 4 8 = Some 100" by code_simp
  have "\<exists>old. read_field (op_sign sample_op) [6, 65] (op_offset sample_op) (op_bits sample_op) = Some old \<and>
    (case fit (op_owtype sample_op) (op_sign sample_op) (unat (op_bits sample_op))
        (if op_opcode sample_op = BITFIELDOP_INCRBY then to_number (op_sign sample_op) old + sint (op_i64 sample_op) else to_number (op_sign sample_op) (op_i64 sample_op)) of
      None \<Rightarrow> write_op 0 sample_op [6, 65] = Some ([6, 65], None)
    | Some y \<Rightarrow> \<exists>p' w. write_op 0 sample_op [6, 65] = Some (p', Some (if op_opcode sample_op = BITFIELDOP_INCRBY then w else old)) \<and>
        length p' = length [6 :: byte, 65] \<and> (\<forall>i < 8 * length [6 :: byte, 65]. i < unat (op_offset sample_op) \<or> unat (op_offset sample_op) + unat (op_bits sample_op) \<le> i \<longrightarrow> bit_at p' i = bit_at [6, 65] i) \<and>
        read_field (op_sign sample_op) p' (op_offset sample_op) (op_bits sample_op) = Some w \<and> to_number (op_sign sample_op) w = y)"
    by (rule bitfield_write_exact) (simp_all add: sample_op_def)
  then show ?thesis using r by (auto simp: sample_op_def to_number_def fit_def field_min_def field_max_def)
qed

text \<open>
  Saturation goes to the wrong end for very small values: a signed SET of a value so small that
  \<^verbatim>\<open>max-value\<close> overflows is taken for an overflow, and with the type SAT the largest number of the field is
  stored where the smallest one is due.
\<close>

theorem bitfield_set_saturates_wrong:
  assumes "0 < unat bits" "unat bits < 64" "sint val < 2 ^ (unat bits - 1) - 2 ^ 63"
  shows "\<exists>lim. checkSignedBitfieldOverflow val 0 bits BFOVERFLOW_SAT limit = Some (1, lim) \<and> sint lim = field_max True (unat bits) \<and>
    fit BFOVERFLOW_SAT True (unat bits) (sint val) = Some (field_min True (unat bits))"
proof -
  let ?H = "2 ^ (unat bits - 1) :: int" and ?mx = "mask (unat bits - 1) :: uint64"
  have H: "0 < ?H" "?H \<le> 2 ^ 62" using assms(2) power_increasing [of "unat bits - 1" 62 "2::int"] by simp_all
  have v: "- (2 ^ 63) \<le> sint val" using sint_ge [of val] by simp
  have b1: "unat (bits - 1) = unat bits - 1" using assms(1) by (simp add: unat_minus_one word_unat_eq_iff)
  have n: "bits \<noteq> 64" using assms(2) by auto
  have mxe: "shl 1 (bits - 1) = Some (?mx + 1)" using assms(2) b1 by (simp add: shl_def word_less_nat_alt mask_eq_exp_minus_1)
  have "uint ?mx = ?H - 1" using assms(2) unfolding mask_eq_exp_minus_1 [symmetric] uint_mask_eq by simp
  then have mx: "sint ?mx = ?H - 1" using H by (subst sint_small) auto
  have "?mx - val = word_of_int (sint ?mx - sint val)" by simp
  then have "sint (?mx - val) = signed_take_bit 63 (?H - 1 - sint val)" unfolding mx by (simp only: signed_of_int) simp
  also have "\<dots> = ?H - 1 - sint val - 2 ^ 64"
    using assms(3) v H by (simp add: signed_take_bit_eq_take_bit_shift take_bit_eq_mod mod_pos_geq)
  finally have neg: "sint (?mx - val) < 0" using v H by simp
  have "checkSignedBitfieldOverflow val 0 bits BFOVERFLOW_SAT limit = Some (1, ?mx)"
    using n mxe neg by (simp add: checkSignedBitfieldOverflow_def Let_def)
  moreover have "\<not> - ?H \<le> sint val" using assms(3) H by simp
  ultimately show ?thesis using mx by (simp add: field_max_def field_min_def fit_def)
qed

theorem bitfield_set_saturates_wrong_witness:
  "\<exists>lim. checkSignedBitfieldOverflow 0x8000000000000000 0 8 BFOVERFLOW_SAT 0 = Some (1, lim) \<and> sint lim = field_max True 8 \<and>
    fit BFOVERFLOW_SAT True 8 (sint (0x8000000000000000 :: int64)) = Some (field_min True 8)"
  using bitfield_set_saturates_wrong [of 8 "0x8000000000000000" 0] by simp

text \<open>
  Fields of 64 bits: a negative number that was stored cannot be read back, because the sign is
  extended with a shift by 64 bits, which is undefined; numbers that are not negative are read back.
\<close>

theorem bitfield_64_undefined:
  assumes "unat offset + 64 \<le> 8 * length p" "8 * length p < 2 ^ 64"
  shows "\<exists>p'. setSignedBitfield p offset 64 val = Some p' \<and>
    getSignedBitfield p' offset 64 = (if sint val < 0 then None else Some val)"
proof -
  obtain p' where p': "setUnsignedBitfield p offset 64 val = Some p'" "getUnsignedBitfield p' offset 64 = Some (take_bit (unat (64 :: uint64)) val)"
    using bitfield_set_get [of offset 64 p val] assms by auto
  have "bit val 63 = (sint val < 0)" using bit_last_iff [of val] by simp
  then show ?thesis using getSigned_eq [OF p'(2)] p'(1) by (simp add: setSignedBitfield_def)
qed

theorem bitfield_64_undefined_witness:
  "\<exists>p'. setSignedBitfield [0, 0, 0, 0, 0, 0, 0, 0] 0 64 (-2) = Some p' \<and> getSignedBitfield p' 0 64 = None"
  using bitfield_64_undefined [of 0 "[0, 0, 0, 0, 0, 0, 0, 0]" "-2"] by simp

text \<open>
  Offsets that count fields are multiplied without a check: \<open>2 ^ 58\<close> fields of 64 bits are bit 0.
\<close>

theorem bit_offset_hash_wraps:
  "getBitOffsetFromArgument (35 # dec (2 ^ 58)) True 64 = Some 0"
proof -
  have "string2ll (dec (2 ^ 58)) = Some (of_nat (2 ^ 58))" by (simp only: string2ll_iff sdec_of_nat(1)) (simp only: sdec_of_nat(1) power_strict_increasing_iff)
  then show ?thesis by (simp add: getBitOffsetFromArgument_def)
qed

end
