(* ===== verification/Bitcount.thy ===== *)
theory Bitcount
  imports Bitops
begin

text \<open>
  Counting the bits of a string and finding the first bit with a value (\<^verbatim>\<open>bitops.c\<close>): the loops of the code
  work on words of 32 and 64 bits with unaligned bytes before and after them.
\<close>

section \<open>Counting bits\<close>

text \<open>The number of bits of a byte (\<^verbatim>\<open>bitsinbyte\<close>), as the table of the code lists it row by row.\<close>

definition bitsinbyte :: "nat list" where
  "bitsinbyte =
    [0,1,1,2,1,2,2,3,1,2,2,3,2,3,3,4, 1,2,2,3,2,3,3,4,2,3,3,4,3,4,4,5,
     1,2,2,3,2,3,3,4,2,3,3,4,3,4,4,5, 2,3,3,4,3,4,4,5,3,4,4,5,4,5,5,6,
     1,2,2,3,2,3,3,4,2,3,3,4,3,4,4,5, 2,3,3,4,3,4,4,5,3,4,4,5,4,5,5,6,
     2,3,3,4,3,4,4,5,3,4,4,5,4,5,5,6, 3,4,4,5,4,5,5,6,4,5,5,6,5,6,6,7,
     1,2,2,3,2,3,3,4,2,3,3,4,3,4,4,5, 2,3,3,4,3,4,4,5,3,4,4,5,4,5,5,6,
     2,3,3,4,3,4,4,5,3,4,4,5,4,5,5,6, 3,4,4,5,4,5,5,6,4,5,5,6,5,6,6,7,
     2,3,3,4,3,4,4,5,3,4,4,5,4,5,5,6, 3,4,4,5,4,5,5,6,4,5,5,6,5,6,6,7,
     3,4,4,5,4,5,5,6,4,5,5,6,5,6,6,7, 4,5,5,6,5,6,6,7,5,6,6,7,6,7,7,8]"

definition table_sum :: "byte list \<Rightarrow> uint64" where
  "table_sum bs = sum_list (map (\<lambda>b. of_nat (bitsinbyte ! unat b)) bs)"

text \<open>The steps on one word of 32 bits and the sum of seven of them.\<close>

definition aux_step :: "uint32 \<Rightarrow> uint32" where
  "aux_step a =
     (let a = a - (drop_bit 1 a AND 0x55555555)
      in (a AND 0x33333333) + (drop_bit 2 a AND 0x33333333))"

definition aux_bytes :: "uint32 \<Rightarrow> uint32" where
  "aux_bytes a = ((a + drop_bit 4 a) AND 0x0F0F0F0F)"

text \<open>A word of four bytes; the byte order of the host is little endian.\<close>

definition load32 :: "byte list \<Rightarrow> uint32" where
  "load32 bs = word_of_int (le_uint (take 4 bs))"

definition count28 :: "byte list \<Rightarrow> uint32" where
  "count28 p =
     drop_bit 24 (sum_list (map (\<lambda>i. aux_bytes (aux_step (load32 (drop (4 * i) p)))) [0..<7]) * 0x01010101)"

fun popcount_words :: "byte list \<Rightarrow> uint64 \<Rightarrow> uint64" where
  "popcount_words p bits =
     (if 28 \<le> length p then popcount_words (drop 28 p) (bits + ucast (count28 p)) else bits + table_sum p)"

declare popcount_words.simps [simp del]

text \<open>\<open>align\<close> is the number of bytes before the next address that is a multiple of four.\<close>

definition redisPopcount :: "nat \<Rightarrow> byte list \<Rightarrow> uint64" where
  "redisPopcount align s = popcount_words (drop align s) (table_sum (take align s))"


section \<open>Finding bits\<close>

text \<open>\<open>*l\<close> for eight bytes, and the loop that loads bytes into a word from the left.\<close>

definition load64 :: "byte list \<Rightarrow> uint64" where
  "load64 bs = word_of_int (le_uint (take 8 bs))"

fun skip_bytes :: "nat \<Rightarrow> byte \<Rightarrow> byte list \<Rightarrow> uint64 \<Rightarrow> byte list \<times> uint64" where
  "skip_bytes align skipval (c # s) pos =
     (if align = 0 \<or> c \<noteq> skipval then (c # s, pos) else skip_bytes (align - 1) skipval s (pos + 8))"
| "skip_bytes align skipval [] pos = ([], pos)"

fun skip_words :: "uint64 \<Rightarrow> byte list \<Rightarrow> uint64 \<Rightarrow> byte list \<times> uint64" where
  "skip_words skipval s pos =
     (if length s < 8 \<or> load64 s \<noteq> skipval then (s, pos) else skip_words skipval (drop 8 s) (pos + 64))"

declare skip_words.simps [simp del]

fun load_word :: "nat \<Rightarrow> uint64 \<Rightarrow> byte list \<Rightarrow> uint64" where
  "load_word 0 word s = word"
| "load_word (Suc j) word [] = load_word j (push_bit 8 word) []"
| "load_word (Suc j) word (c # s) = load_word j (push_bit 8 word OR ucast c) s"

lemma unat_half: "one \<noteq> 0 \<Longrightarrow> unat (drop_bit 1 (one :: uint64)) < unat one"
proof -
  assume "one \<noteq> 0"
  then have "0 < unat one" by (simp add: unat_gt_0)
  moreover have "unat (drop_bit 1 one) = unat one div 2" by (simp only: drop_bit_eq_div unat_div power_one_right) simp
  ultimately show ?thesis by simp
qed

function scan_bits :: "uint64 \<Rightarrow> bool \<Rightarrow> uint64 \<Rightarrow> uint64 \<Rightarrow> uint64 option" where
  "scan_bits word b one pos =
     (if one = 0 then None
      else if (one AND word \<noteq> 0) = b then Some pos
      else scan_bits word b (drop_bit 1 one) (pos + 1))"
  by pat_completeness auto
termination
  by (relation "measure (\<lambda>(_, _, one, _). unat one)") (simp, simp only: in_measure prod.case unat_half not_False_eq_True)

declare scan_bits.simps [simp del]

text \<open>The result is a \<open>long\<close>, all ones for \<open>-1\<close>; \<open>None\<close> is the call of \<^verbatim>\<open>serverPanic\<close>.\<close>

definition redisBitpos :: "nat \<Rightarrow> byte list \<Rightarrow> bool \<Rightarrow> uint64 option" where
  "redisBitpos align s b =
     (let (s, pos) = skip_bytes align (if b then 0 else 255) s 0;
          (s, pos) = skip_words (if b then 0 else 0xFFFFFFFFFFFFFFFF) s pos;
          word = load_word 8 0 s
      in if b \<and> word = 0 then Some (-1)
         else scan_bits word b (NOT (drop_bit 1 0xFFFFFFFFFFFFFFFF)) pos)"

section \<open>The words add up the bits of their bytes\<close>

text \<open>
  The arithmetic on words treats their bytes one by one: a shift moves bits of the next byte to places that the
  mask clears, and no sum carries into the next byte.
\<close>

lemma bit_byte_add:
  assumes p: "(p :: nat) < 256"
  shows "bit (p + 256 * u) n \<longleftrightarrow> (if n < 8 then bit p n else bit u (n - 8))"
proof -
  have "take_bit 8 (p + 256 * u) = p" "drop_bit 8 (p + 256 * u) = u"
    using p by (simp_all add: take_bit_eq_mod drop_bit_eq_div)
  then show ?thesis
    using bit_take_bit_iff [of 8 "p + 256 * u" n] bit_drop_bit_eq [of 8 "p + 256 * u"] by (auto simp: fun_eq_iff)
qed

lemma shift_and_byte:
  assumes "(p :: nat) < 256" "m < 2 ^ (8 - k)" "k \<le> 8"
  shows "((p + 256 * u) div 2 ^ k) AND (m + 256 * v) = ((p div 2 ^ k) AND m) + 256 * ((u div 2 ^ k) AND v)" (is "?l = ?r")
proof (rule bit_eqI)
  fix n
  have low: "\<not> bit m i" if "8 - k \<le> i" for i
    using assms(2) that by (metis bit_take_bit_iff linorder_not_less take_bit_nat_eq_self)
  have m: "m < 256" using assms(2) power_increasing [of "8 - k" 8 "2 :: nat"] by simp
  have "take_bit 8 m = m" using m by (simp add: take_bit_nat_eq_self)
  then have "(p div 2 ^ k) AND m = take_bit 8 ((p div 2 ^ k) AND m)"
    by (simp add: take_bit_eq_mask and.assoc)
  then have s: "(p div 2 ^ k) AND m < 256" using take_bit_nat_less_exp [of 8 "(p div 2 ^ k) AND m"] by simp
  have "bit ?l n \<longleftrightarrow> bit (p + 256 * u) (k + n) \<and> bit (m + 256 * v) n"
    by (simp add: bit_and_iff bit_drop_bit_eq flip: drop_bit_eq_div)
  also have "\<dots> \<longleftrightarrow> (if n < 8 then bit p (k + n) \<and> bit m n else bit u (k + (n - 8)) \<and> bit v (n - 8))"
    using low [of n] assms(1) m by (auto simp: bit_byte_add)
  also have "\<dots> \<longleftrightarrow> bit ?r n"
    unfolding bit_byte_add [OF s] by (simp add: bit_and_iff bit_drop_bit_eq flip: drop_bit_eq_div)
  finally show "bit ?l n \<longleftrightarrow> bit ?r n" .
qed


primrec digits256 :: "nat list \<Rightarrow> nat" where
  "digits256 [] = 0"
| "digits256 (d # ds) = d + 256 * digits256 ds"

lemma digits256_add: "digits256 (map f ds) + digits256 (map g ds) = digits256 (map (\<lambda>d. f d + g d) ds)"
  by (induction ds) (simp_all add: algebra_simps)

lemma digits256_diff: "\<forall>d \<in> set ds. g d \<le> f d \<Longrightarrow>
  digits256 (map f ds) - digits256 (map g ds) = digits256 (map (\<lambda>d. f d - g d) ds) \<and>
  digits256 (map g ds) \<le> digits256 (map f ds)"
  by (induction ds) auto

lemma digits256_shift_and:
  assumes "\<forall>d \<in> set ds. d < 256" "m < 2 ^ (8 - k)" "k \<le> 8"
  shows "(digits256 ds div 2 ^ k) AND digits256 (map (\<lambda>_. m) ds) = digits256 (map (\<lambda>d. (d div 2 ^ k) AND m) ds)"
  using assms(1) by (induction ds) (simp_all add: shift_and_byte [OF _ assms(2, 3)])

lemma digits256_less: "\<forall>d \<in> set ds. d < 256 \<Longrightarrow> digits256 ds < 256 ^ length ds"
  by (induction ds) auto

lemma digits256_nibbles:
  assumes "\<forall>d \<in> set ds. d mod 16 \<le> 4 \<and> d div 16 \<le> 4"
  shows "\<exists>es. digits256 ds + digits256 ds div 16 = digits256 es \<and> map (\<lambda>e. e mod 16) es = map (\<lambda>d. (d + d div 16) mod 16) ds \<and>
     (\<forall>e \<in> set es. e < 256)"
  using assms
proof (induction ds)
  case (Cons d ds)
  then obtain es where es: "digits256 ds + digits256 ds div 16 = digits256 es"
    "map (\<lambda>e. e mod 16) es = map (\<lambda>d. (d + d div 16) mod 16) ds" "\<forall>e \<in> set es. e < 256" by auto
  let ?u = "digits256 ds" and ?e = "d + d div 16 + 16 * (digits256 ds mod 16)"
  have u: "?u mod 16 \<le> 4" using Cons.prems by (cases ds) (auto simp: mod_add_eq [symmetric] mod_mult_left_eq [symmetric])
  have d: "d mod 16 \<le> 4" "d div 16 \<le> 4" using Cons.prems by auto
  have "(d + 256 * ?u) div 16 = d div 16 + 16 * ?u" by simp
  moreover have "16 * ?u = 16 * (?u mod 16) + 256 * (?u div 16)" using div_mod_decomp [of ?u 16] by linarith
  ultimately have "d + 256 * ?u + (d + 256 * ?u) div 16 = ?e + 256 * digits256 es" using es(1) by simp
  moreover have "?e < 256" using u d div_mod_decomp [of d 16] by linarith
  ultimately show ?case using es by (intro exI [of _ "?e # es"]) simp
qed simp

text \<open>The three steps on a word are steps on its bytes.\<close>

definition byte_steps :: "nat \<Rightarrow> nat" where
  "byte_steps d =
     (let d = d - ((d div 2) AND 0x55);
          d = (d AND 0x33) + ((d div 4) AND 0x33)
      in (d + d div 16) mod 16)"


lemma upt_byte: "[0..<256] = 0 # 1 # [2..<256]"
  using upt_conv_Cons [of 0 256] upt_conv_Cons [of 1 256] by (simp add: numeral_2_eq_2)

lemma byte_steps_list: "map byte_steps [0..<256] = bitsinbyte"
  unfolding upt_byte by (simp add: byte_steps_def bitsinbyte_def)

lemma upt_8: "[0..<8] = [0, 1, 2, 3, 4, 5, 6, 7]"
  by (simp add: upt_conv_Cons)

lemma bits_list: "map (\<lambda>d :: nat. length (filter (bit d) [0, 1, 2, 3, 4, 5, 6, 7])) [0..<256] = bitsinbyte"
  unfolding upt_byte by (simp add: bitsinbyte_def bit_Suc_0_iff)


definition two_steps :: "nat \<Rightarrow> nat" where
  "two_steps d = (let d = d - ((d div 2) AND 0x55) in (d AND 0x33) + ((d div 4) AND 0x33))"

lemma two_steps_bound: "list_all (\<lambda>d. two_steps d mod 16 \<le> 4 \<and> two_steps d div 16 \<le> 4) [0..<256]"
  unfolding upt_byte by (simp add: two_steps_def)

lemma byte_steps_two: "byte_steps d = (two_steps d + two_steps d div 16) mod 16"
  by (simp add: byte_steps_def two_steps_def Let_def)

lemma byte_table:
  assumes "d < 256"
  shows "byte_steps d = bitsinbyte ! d" "length (filter (bit d) [0..<8]) = bitsinbyte ! d"
    "two_steps d mod 16 \<le> 4 \<and> two_steps d div 16 \<le> 4"
  using assms byte_steps_list bits_list two_steps_bound
  by (auto simp: upt_8 list_all_iff dest!: arg_cong [where f = "\<lambda>xs. xs ! d"])

lemma replicate_4: "length ds = 4 \<Longrightarrow> map (\<lambda>_. m) ds = [m, m, m, m]"
  by (simp add: map_replicate_const numeral_eq_Suc)

lemma masks:
  assumes "length ds = 4"
  shows "digits256 (map (\<lambda>_. 0x55) ds) = 0x55555555" "digits256 (map (\<lambda>_. 0x33) ds) = 0x33333333"
    "digits256 (map (\<lambda>_. 0x0F) ds) = 0x0F0F0F0F"
  unfolding replicate_4 [OF assms] by simp_all

lemma unat_and: "unat (v AND w) = unat v AND unat (w :: uint32)"
  by (simp add: unsigned_and_eq)

lemma unat_shift: "unat (drop_bit k w) = unat w div 2 ^ k" for w :: uint32
  by (rule trans [OF unat_drop_bit_eq drop_bit_eq_div])

lemma nat_and_le: "x AND y \<le> (x :: nat)"
proof -
  have "int (x AND y) \<le> int x" by (simp add: of_nat_and_eq AND_upper1)
  then show ?thesis by simp
qed

lemma aux_step_digits:
  assumes "length ds = 4" "\<forall>d \<in> set ds. d < 256" "unat a = digits256 ds"
  shows "unat (aux_step a) = digits256 (map two_steps ds)"
proof -
  let ?f = "\<lambda>d. d - ((d div 2) AND 0x55)"
  have le: "(d div 2) AND 0x55 \<le> d" for d :: nat
    using nat_and_le [of "d div 2"] div_le_dividend order.trans by blast
  have h: "unat (drop_bit 1 a AND 0x55555555) = digits256 (map (\<lambda>d. (d div 2) AND 0x55) ds)"
    using digits256_shift_and [OF assms(2), of "0x55" 1] masks(1) [OF assms(1)] assms(3) by (simp add: unat_and unat_shift)
  let ?b = "a - (drop_bit 1 a AND 0x55555555)"
  have b: "unat ?b = digits256 (map ?f ds)"
    using digits256_diff [of ds "\<lambda>d. (d div 2) AND 0x55" id] le h assms(3) by (simp add: unat_sub word_le_nat_alt)
  have small: "\<forall>d \<in> set (map ?f ds). d < 256" using assms(2) by (auto intro: le_less_trans [OF diff_le_self])
  have l: "unat (?b AND 0x33333333) = digits256 (map (\<lambda>d. ?f d AND 0x33) ds)"
    using digits256_shift_and [OF small, of "0x33" 0] masks(2) [OF assms(1)] b by (simp add: unat_and o_def)
  have r: "unat (drop_bit 2 ?b AND 0x33333333) = digits256 (map (\<lambda>d. (?f d div 4) AND 0x33) ds)"
    using digits256_shift_and [OF small, of "0x33" 2] masks(2) [OF assms(1)] b by (simp add: unat_and unat_shift o_def)
  have sum: "unat (?b AND 0x33333333) + unat (drop_bit 2 ?b AND 0x33333333) = digits256 (map two_steps ds)"
    unfolding l r digits256_add by (simp add: two_steps_def [abs_def] Let_def)
  have "two_steps d < 256" if "d \<in> set ds" for d
    using byte_table(3) [of d] assms(2) that div_mod_decomp [of "two_steps d" 16] by fastforce
  then have "digits256 (map two_steps ds) < 2 ^ 32" using digits256_less [of "map two_steps ds"] assms(1) by simp
  then show ?thesis using sum unat_add_lem [of "?b AND 0x33333333" "drop_bit 2 ?b AND 0x33333333"]
    by (simp add: aux_step_def Let_def)
qed


lemma aux_bytes_digits:
  assumes "length ds = 4" "\<forall>d \<in> set ds. d < 256" "unat a = digits256 (map two_steps ds)"
  shows "unat (aux_bytes a) = digits256 (map (\<lambda>d. bitsinbyte ! d) ds)"
proof -
  have "\<forall>d \<in> set (map two_steps ds). d mod 16 \<le> 4 \<and> d div 16 \<le> 4" using byte_table(3) assms(2) by auto
  from digits256_nibbles [OF this] obtain es where es: "unat a + unat a div 16 = digits256 es"
    "map (\<lambda>e. e mod 16) es = map (\<lambda>d. (d + d div 16) mod 16) (map two_steps ds)" "\<forall>e \<in> set es. e < 256"
    unfolding assms(3) by blast
  have len: "length es = 4" using arg_cong [OF es(2), of length] assms(1) by simp
  then have "digits256 es < 2 ^ 32" using digits256_less [OF es(3)] by simp
  then have "unat (a + drop_bit 4 a) = digits256 es"
    using es(1) unat_add_lem [of a "drop_bit 4 a"] unat_shift [of 4 a] by simp
  then have "unat (aux_bytes a) = digits256 (map (\<lambda>e. e AND 0x0F) es)"
    using digits256_shift_and [OF es(3), of "0x0F" 0] masks(3) [OF len] by (simp add: aux_bytes_def unat_and)
  also have "(\<lambda>e :: nat. e AND 0x0F) = (\<lambda>e. e mod 16)"
    using take_bit_eq_mask [of 4, where 'a = nat] by (simp add: fun_eq_iff take_bit_eq_mod mask_eq_exp_minus_1)
  also have "map (\<lambda>e. e mod 16) es = map (\<lambda>d. bitsinbyte ! d) ds"
    unfolding es(2) using assms(2) byte_table(1) by (simp add: byte_steps_two [symmetric])
  finally show ?thesis .
qed

definition byte_bits :: "byte \<Rightarrow> nat" where
  "byte_bits b = length (filter (bit b) [0..<8])"

lemma unat_byte: "unat (b :: byte) < 256"
  using unsigned_less [of b] by simp

lemma bitsinbyte_eq: "bitsinbyte ! unat b = byte_bits b"
proof -
  have "bit (unat b) = bit b" by (simp add: fun_eq_iff bit_unsigned_iff)
  then show ?thesis using byte_table(2) [OF unat_byte [of b]] by (simp add: byte_bits_def)
qed

lemma byte_bits_le: "byte_bits b \<le> 8"
  using length_filter_le [of "bit b" "[0..<8]"] by (simp add: byte_bits_def)

lemma load32_digits:
  assumes "4 \<le> length bs"
  shows "unat (load32 bs) = digits256 (map unat (take 4 bs))"
proof -
  have "int (digits256 (map unat bs)) = le_uint bs" for bs :: "byte list" by (induction bs) simp_all
  moreover have "digits256 (map unat (take 4 bs)) < 256 ^ 4"
    using digits256_less [of "map unat (take 4 bs)"] unat_byte assms by (simp add: min.absorb2)
  ultimately show ?thesis by (simp add: load32_def unat_of_nat_small flip: \<open>\<And>bs. int (digits256 (map unat bs)) = le_uint bs\<close>)
qed

lemma word_bits:
  assumes "4 \<le> length bs"
  shows "unat (aux_bytes (aux_step (load32 bs))) = digits256 (map byte_bits (take 4 bs))"
proof -
  have "\<forall>d \<in> set (map unat (take 4 bs)). d < 256" using unat_byte by auto
  then show ?thesis
    using aux_bytes_digits [OF _ _ aux_step_digits [OF _ _ load32_digits [OF assms]]] assms
    by (simp add: bitsinbyte_eq o_def)
qed

text \<open>The sum of the seven words: the sums of their four columns are at most 56.\<close>

lemma take_4: "4 \<le> length bs \<Longrightarrow> take 4 bs = [bs ! 0, bs ! 1, bs ! 2, bs ! 3]"
  by (rule nth_equalityI) (auto simp: nth_Cons less_Suc_eq numeral_eq_Suc split: nat.splits)

lemma word_sum:
  assumes "4 * n \<le> length p" "n \<le> 31"
  shows "\<exists>s0 s1 s2 s3. unat (sum_list (map (\<lambda>i. aux_bytes (aux_step (load32 (drop (4 * i) p)))) [0..<n])) =
     s0 + 256 * s1 + 65536 * s2 + 16777216 * s3 \<and> s0 \<le> 8 * n \<and> s1 \<le> 8 * n \<and> s2 \<le> 8 * n \<and> s3 \<le> 8 * n \<and>
     s0 + s1 + s2 + s3 = sum_list (map byte_bits (take (4 * n) p))"
  using assms
proof (induction n)
  case (Suc n)
  let ?w = "\<lambda>i. aux_bytes (aux_step (load32 (drop (4 * i) p)))" and ?q = "drop (4 * n) p"
  let ?S = "sum_list (map ?w [0..<n])"
  from Suc obtain s0 s1 s2 s3 where IH: "unat ?S = s0 + 256 * s1 + 65536 * s2 + 16777216 * s3"
    and le: "s0 \<le> 8 * n" "s1 \<le> 8 * n" "s2 \<le> 8 * n" "s3 \<le> 8 * n"
    and sum: "s0 + s1 + s2 + s3 = sum_list (map byte_bits (take (4 * n) p))" by auto
  let ?b = "\<lambda>i. byte_bits (?q ! i)"
  have q: "4 \<le> length ?q" using Suc.prems by simp
  have w: "unat (?w n) = ?b 0 + 256 * ?b 1 + 65536 * ?b 2 + 16777216 * ?b 3"
    unfolding word_bits [OF q] take_4 [OF q] by simp
  have b: "?b 0 \<le> 8" "?b 1 \<le> 8" "?b 2 \<le> 8" "?b 3 \<le> 8" by (rule byte_bits_le)+
  have n: "n \<le> 30" using Suc.prems(2) by simp
  have "unat ?S + unat (?w n) < 2 ^ 32" using le n b unfolding IH w by simp
  then have "unat (sum_list (map ?w [0..<Suc n])) = unat ?S + unat (?w n)" by (simp add: unat_add_lem [THEN iffD1])
  then have s: "unat (sum_list (map ?w [0..<Suc n])) =
    (s0 + ?b 0) + 256 * (s1 + ?b 1) + 65536 * (s2 + ?b 2) + 16777216 * (s3 + ?b 3)" unfolding IH w by simp
  have "take (4 * Suc n) p = take (4 * n) p @ take 4 ?q" by (simp add: take_add [symmetric] add.commute)
  then have t: "(s0 + ?b 0) + (s1 + ?b 1) + (s2 + ?b 2) + (s3 + ?b 3) = sum_list (map byte_bits (take (4 * Suc n) p))"
    unfolding take_4 [OF q] using sum by simp
  have "s0 + ?b 0 \<le> 8 * Suc n" "s1 + ?b 1 \<le> 8 * Suc n" "s2 + ?b 2 \<le> 8 * Suc n" "s3 + ?b 3 \<le> 8 * Suc n"
    using le b by simp_all
  then show ?case using s t by blast
qed simp

lemma multiply_sums:
  assumes "s0 + s1 + s2 + s3 < (256 :: nat)"
  shows "(s0 + 256 * s1 + 65536 * s2 + 16777216 * s3) * 0x01010101 mod 2 ^ 32 div 2 ^ 24 = s0 + s1 + s2 + s3"
proof -
  let ?r = "s0 + 256 * (s0 + s1) + 65536 * (s0 + s1 + s2) + 16777216 * (s0 + s1 + s2 + s3)"
  have "(s0 + 256 * s1 + 65536 * s2 + 16777216 * s3) * 0x01010101 =
    ?r + 2 ^ 32 * (s1 + s2 + s3 + 256 * (s2 + s3) + 65536 * s3)" by simp
  moreover have "?r < 2 ^ 32" using assms by simp
  ultimately have "(s0 + 256 * s1 + 65536 * s2 + 16777216 * s3) * 0x01010101 mod 2 ^ 32 = ?r"
    by (simp only: mod_mult_self2 mod_less)
  moreover have "?r div 2 ^ 24 = s0 + s1 + s2 + s3" using assms by simp
  ultimately show ?thesis by (simp only:)
qed

lemma count28_bits:
  assumes "28 \<le> length p"
  shows "unat (count28 p) = sum_list (map byte_bits (take 28 p))"
proof -
  obtain s0 s1 s2 s3 where w:
    "unat (sum_list (map (\<lambda>i. aux_bytes (aux_step (load32 (drop (4 * i) p)))) [0..<7])) = s0 + 256 * s1 + 65536 * s2 + 16777216 * s3"
    "s0 \<le> 56" "s1 \<le> 56" "s2 \<le> 56" "s3 \<le> 56" "s0 + s1 + s2 + s3 = sum_list (map byte_bits (take 28 p))"
    using word_sum [of 7 p] assms by auto
  let ?S = "sum_list (map (\<lambda>i. aux_bytes (aux_step (load32 (drop (4 * i) p)))) [0..<7])"
  have "unat (count28 p) = unat (?S * 0x01010101) div 2 ^ 24" unfolding count28_def unat_shift ..
  also have "unat (?S * 0x01010101) = (s0 + 256 * s1 + 65536 * s2 + 16777216 * s3) * 0x01010101 mod 2 ^ 32"
    using unat_word_ariths(2) [of ?S "0x01010101"] w(1) by simp
  finally show ?thesis using multiply_sums [of s0 s1 s2 s3] w(2-) by simp
qed


lemma table_sum_bits: "table_sum bs = of_nat (sum_list (map byte_bits bs))"
  by (induction bs) (simp_all add: table_sum_def bitsinbyte_eq)

lemma popcount_words_bits: "popcount_words p bits = bits + of_nat (sum_list (map byte_bits p))"
proof (induction p bits rule: popcount_words.induct)
  case (1 p bits)
  show ?case
  proof (cases "28 \<le> length p")
    case True
    then have "popcount_words p bits = bits + ucast (count28 p) + of_nat (sum_list (map byte_bits (drop 28 p)))"
      using 1 by (simp add: popcount_words.simps [of p])
    also have "(ucast (count28 p) :: uint64) = of_nat (sum_list (map byte_bits (take 28 p)))"
      unfolding count28_bits [OF True, symmetric] by simp
    finally have "popcount_words p bits = bits + of_nat (sum_list (map byte_bits (take 28 p @ drop 28 p)))"
      by (simp del: append_take_drop_id)
    then show ?thesis by simp
  qed (simp add: popcount_words.simps [of p] table_sum_bits)
qed

lemma redisPopcount_bits: "redisPopcount align s = of_nat (sum_list (map byte_bits s))"
proof -
  have "redisPopcount align s = of_nat (sum_list (map byte_bits (take align s @ drop align s)))"
    unfolding redisPopcount_def popcount_words_bits table_sum_bits by (simp del: append_take_drop_id)
  then show ?thesis by simp
qed

text \<open>The number of bits of a byte is the number of positions that GETBIT reports as set.\<close>

definition set_bits_below :: "byte list \<Rightarrow> nat \<Rightarrow> nat" where
  "set_bits_below s n = card {i. i < n \<and> bit_at s i}"

lemma bit_at_Cons: "bit_at (b # s) i = (if i < 8 then bit b (7 - i) else bit_at s (i - 8))"
  by (simp add: bit_at_def nth_Cons' le_div_geq le_mod_geq)

lemma byte_bits_card: "card {i. i < 8 \<and> bit b (7 - i)} = byte_bits b"
proof -
  have "bij_betw (\<lambda>i. 7 - i) {i. i < 8 \<and> bit b (7 - i)} {n. n < 8 \<and> bit b n}"
    by (rule bij_betw_byWitness [where f' = "\<lambda>n. 7 - n"]) auto
  then have "card {i. i < 8 \<and> bit b (7 - i)} = card {n. n < 8 \<and> bit b n}" by (rule bij_betw_same_card)
  also have "\<dots> = byte_bits b"
    unfolding byte_bits_def distinct_length_filter [OF distinct_upt] by (rule arg_cong [where f = card]) auto
  finally show ?thesis .
qed

lemma set_bits_bytes: "set_bits_below s (8 * length s) = sum_list (map byte_bits s)"
proof (induction s)
  case (Cons b s)
  have "{i. i < 8 * length (b # s) \<and> bit_at (b # s) i} =
    {i. i < 8 \<and> bit b (7 - i)} \<union> (\<lambda>i. i + 8) ` {i. i < 8 * length s \<and> bit_at s i}" (is "_ = ?A \<union> ?B")
  proof (rule set_eqI)
    fix i
    show "i \<in> {i. i < 8 * length (b # s) \<and> bit_at (b # s) i} \<longleftrightarrow> i \<in> ?A \<union> ?B"
    proof (cases "i < 8")
      case False
      then obtain k where "i = k + 8" by (metis le_add_diff_inverse2 linorder_not_less)
      then show ?thesis by (auto simp: bit_at_Cons)
    qed (auto simp: bit_at_Cons)
  qed
  moreover have "card (?A \<union> ?B) = card ?A + card ?B" by (rule card_Un_disjoint) auto
  moreover have "card ?B = set_bits_below s (8 * length s)" by (simp add: set_bits_below_def card_image)
  ultimately show ?case using Cons byte_bits_card by (simp add: set_bits_below_def)
qed (simp add: set_bits_below_def)

text \<open>
  The population count of a string is the number of its bits that are set, wherever the string
  lies: the loop over words of 32 bits, the table and the sums do not overflow for strings of less than
  \<open>2 ^ 61\<close> bytes.
\<close>

theorem redisPopcount_exact:
  "8 * length s < 2 ^ 64 \<Longrightarrow> unat (redisPopcount align s) = set_bits_below s (8 * length s)"
proof -
  assume len: "8 * length s < 2 ^ 64"
  have "redisPopcount align s = of_nat (set_bits_below s (8 * length s))" by (simp add: redisPopcount_bits set_bits_bytes)
  moreover have "set_bits_below s (8 * length s) \<le> 8 * length s"
    unfolding set_bits_below_def by (rule order.trans [OF card_mono [of "{..<8 * length s}"]]) auto
  ultimately show ?thesis using len by (simp add: unat_of_nat_small)
qed

theorem redisPopcount_exact_witness:
  "unat (redisPopcount 1 [255, 1, 7]) = 12 \<and> set_bits_below [255, 1, 7] 24 = 12"
proof -
  have "set_bits_below [255, 1, 7] 24 = 12" using set_bits_bytes [of "[255, 1, 7]"] by (simp add: byte_bits_def upt_8)
  then show ?thesis using redisPopcount_exact [of "[255, 1, 7]" 1] by simp
qed

section \<open>The first bit\<close>

text \<open>Position \<open>i\<close> is the first with the bit \<open>b\<close>, or the end when no bit of the string is \<open>b\<close>.\<close>

definition first_position :: "bool \<Rightarrow> byte list \<Rightarrow> nat \<Rightarrow> bool" where
  "first_position b s i \<longleftrightarrow>
     i \<le> 8 * length s \<and> (\<forall>j < i. bit_at s j \<noteq> b) \<and> (i < 8 * length s \<longrightarrow> bit_at s i = b)"

abbreviation skip_byte :: "bool \<Rightarrow> byte" where
  "skip_byte b \<equiv> if b then 0 else 255"

lemma skip_byte_bits: "n < 8 \<Longrightarrow> bit (skip_byte b) n \<noteq> b"
proof -
  have m: "(255 :: byte) = mask 8" by (simp add: mask_eq_exp_minus_1)
  assume "n < 8"
  then show ?thesis unfolding m by (auto simp: bit_mask_iff)
qed

lemma skip_byteI: "(\<And>n. n < 8 \<Longrightarrow> bit c n \<noteq> b) \<Longrightarrow> c = skip_byte b"
  using skip_byte_bits [of _ b] by (intro bit_word_eqI) (auto simp del: if_split)

lemma first_position_skip: "first_position b s i \<Longrightarrow> first_position b (replicate k (skip_byte b) @ s) (8 * k + i)"
proof (induction k)
  case (Suc k)
  then show ?case using skip_byte_bits [of _ b] by (auto simp: first_position_def bit_at_Cons simp del: if_split)
qed simp

lemma skip_bytes_run:
  "\<exists>k. k \<le> length s \<and> take k s = replicate k v \<and> skip_bytes align v s pos = (drop k s, pos + of_nat (8 * k))"
proof (induction align v s pos rule: skip_bytes.induct)
  case (1 align v c s pos)
  show ?case
  proof (cases "align = 0 \<or> c \<noteq> v")
    case False
    with 1 obtain k where "k \<le> length s" "take k s = replicate k v"
      "skip_bytes (align - 1) v s (pos + 8) = (drop k s, pos + 8 + of_nat (8 * k))" by auto
    with False show ?thesis by (intro exI [of _ "Suc k"]) simp
  qed (intro exI [of _ 0], simp)
qed simp

lemma load64_eq: "8 \<le> length s \<Longrightarrow> load64 s = word_of_int (le_uint (replicate 8 v)) \<longleftrightarrow> take 8 s = replicate 8 v"
proof -
  assume len: "8 \<le> length s"
  have u: "uint (word_of_int (le_uint bs) :: uint64) = le_uint bs" if "length bs = 8" for bs
    using le_uint_bounds [of bs] that by (simp add: take_bit_int_eq_self unsigned_of_int)
  have "load64 s = word_of_int (le_uint (replicate 8 v)) \<longleftrightarrow> le_uint (take 8 s) = le_uint (replicate 8 v)"
    unfolding load64_def using u [of "take 8 s"] u [of "replicate 8 v"] len by (metis length_replicate length_take min.absorb2)
  also have "\<dots> \<longleftrightarrow> take 8 s = replicate 8 v"
    using le_bytes_le_uint [of "take 8 s" 8] le_bytes_le_uint [of "replicate 8 v" 8] len by (metis length_replicate length_take min.absorb2)
  finally show ?thesis .
qed

lemma skip_words_run:
  "\<exists>k. 8 * k \<le> length s \<and> take (8 * k) s = replicate (8 * k) v \<and>
     skip_words (word_of_int (le_uint (replicate 8 v))) s pos = (drop (8 * k) s, pos + of_nat (64 * k)) \<and>
     (8 \<le> length (drop (8 * k) s) \<longrightarrow> take 8 (drop (8 * k) s) \<noteq> replicate 8 v)"
proof (induction s arbitrary: pos rule: length_induct)
  case (1 s)
  let ?w = "word_of_int (le_uint (replicate 8 v)) :: uint64"
  show ?case
  proof (cases "8 \<le> length s \<and> take 8 s = replicate 8 v")
    case True
    then have "length (drop 8 s) < length s" by auto
    then obtain k where k: "8 * k \<le> length (drop 8 s)"
      "take (8 * k) (drop 8 s) = replicate (8 * k) v"
      "skip_words ?w (drop 8 s) (pos + 64) = (drop (8 * k) (drop 8 s), pos + 64 + of_nat (64 * k))"
      "8 \<le> length (drop (8 * k) (drop 8 s)) \<longrightarrow> take 8 (drop (8 * k) (drop 8 s)) \<noteq> replicate 8 v"
      using 1 [rule_format, of "drop 8 s" "pos + 64"] by blast
    have "take (8 * Suc k) s = replicate (8 * Suc k) v"
      using True k(2) by (simp add: take_add replicate_add)
    moreover have "skip_words ?w s pos = skip_words ?w (drop 8 s) (pos + 64)"
      using True load64_eq [of s v] by (simp add: skip_words.simps [of _ s])
    moreover have "8 * Suc k \<le> length s" using True k(1) by auto
    ultimately show ?thesis using True k by (intro exI [of _ "Suc k"]) (simp add: add.commute)
  next
    case False
    then have "skip_words ?w s pos = (s, pos)" using load64_eq [of s v] by (auto simp: skip_words.simps [of _ s])
    then show ?thesis using False by (intro exI [of _ 0]) auto
  qed
qed

lemma bit_load_word:
  "j \<le> 8 \<Longrightarrow> bit (load_word j w s) n \<longleftrightarrow>
     (if n < 8 * j then 8 * j - 1 - n < 8 * length s \<and> bit_at s (8 * j - 1 - n) else n < 64 \<and> bit w (n - 8 * j))"
proof (induction j w s arbitrary: n rule: load_word.induct)
  case (1 w s)
  then show ?case using bit_imp_le_length [of w n] by auto
next
  case (2 j w)
  then show ?case by (auto simp: bit_push_bit_iff bit_simps add.commute)
next
  case (3 j w c s)
  have IH: "bit (load_word (Suc j) w (c # s)) n \<longleftrightarrow>
    (if n < 8 * j then 8 * j - 1 - n < 8 * length s \<and> bit_at s (8 * j - 1 - n)
     else n < 64 \<and> bit (push_bit 8 w OR ucast c) (n - 8 * j))" using 3 by simp
  consider "n < 8 * j" | "8 * j \<le> n" "n < 8 * j + 8" | "8 * j + 8 \<le> n" by linarith
  then show ?case
  proof cases
    case 1
    then obtain i where i: "8 * j - 1 - n = i" "8 * Suc j - 1 - n = 8 + i" by simp
    show ?thesis unfolding IH i using 1 by (simp add: bit_at_Cons)
  next
    case 2
    then obtain i where i: "n = 8 * j + i" "i < 8" using less_imp_add_positive le_Suc_ex by force
    then have "8 * Suc j - 1 - n = 7 - i" "7 - i < 8" "n < 64" using 3(2) by simp_all
    then show ?thesis using IH i by (simp add: bit_at_Cons bit_or_iff bit_push_bit_iff bit_ucast_iff)
  next
    case 3
    then have "n - 8 * Suc j = n - 8 * j - 8" "8 \<le> n - 8 * j" by simp_all
    then show ?thesis using 3 IH
      by (auto simp: bit_or_iff bit_push_bit_iff bit_ucast_iff dest: bit_imp_le_length)
  qed
qed

lemma scan_bits_found:
  "k \<le> m \<Longrightarrow> m < 64 \<Longrightarrow> bit word (m - k) = b \<Longrightarrow> \<forall>j < k. bit word (m - j) \<noteq> b \<Longrightarrow>
   scan_bits word b (push_bit m 1) pos = Some (pos + of_nat k)"
proof (induction k arbitrary: m pos)
  case 0
  then show ?case
    by (simp add: scan_bits.simps [of _ _ "2 ^ m"] and.commute [of _ word] and_exp_eq_0_iff_not_bit)
next
  case (Suc k)
  then obtain l where m: "m = Suc l" by (cases m) auto
  have "scan_bits word b (push_bit l 1) (pos + 1) = Some (pos + 1 + of_nat k)"
    using Suc.prems m by (intro Suc.IH) auto
  moreover have "drop_bit 1 (push_bit m (1 :: uint64)) = push_bit l 1"
    using Suc.prems(2) unfolding m by (intro bit_word_eqI) (simp only: push_bit_of_1 bit_exp_iff bit_drop_bit_eq o_apply, auto)
  moreover have "bit word m \<noteq> b" using Suc.prems(4) by force
  ultimately show ?case using Suc.prems
    by (simp add: scan_bits.simps [of _ _ "2 ^ m"] and.commute [of _ word] and_exp_eq_0_iff_not_bit)
qed


lemma word_none:
  assumes "\<And>i. i < 64 \<Longrightarrow> (i < 8 * length s \<and> bit_at s i) \<noteq> b" "8 \<le> length s"
  shows "take 8 s = replicate 8 (skip_byte b)"
proof (rule nth_equalityI)
  fix k assume "k < length (take 8 s)"
  then have k: "k < 8" "k < length s" by simp_all
  have "bit (s ! k) n \<noteq> b" if n: "n < 8" for n
  proof -
    obtain m where m: "m = 7 - n" "m < 8" "7 - m = n" using n by simp
    then have "(8 * k + (7 - n)) div 8 = k" "7 - (8 * k + (7 - n)) mod 8 = n" by (simp_all flip: m(1))
    then have "bit_at s (8 * k + (7 - n)) = bit (s ! k) n" unfolding bit_at_def by (simp only:)
    moreover have "8 * k + (7 - n) < 64" "8 * k + (7 - n) < 8 * length s" using k n by simp_all
    ultimately show ?thesis using assms(1) by blast
  qed
  then have "s ! k = skip_byte b" by (rule skip_byteI)
  then show "take 8 s ! k = replicate 8 (skip_byte b) ! k" using k by simp
qed (use assms(2) in simp)

lemma replicate_8: "replicate 8 x = [x, x, x, x, x, x, x, x]"
  by (simp add: numeral_eq_Suc)

lemma last_word:
  assumes "8 \<le> length s \<longrightarrow> take 8 s \<noteq> replicate 8 (skip_byte b)"
  shows "\<exists>i. first_position b s i \<and>
    (if b \<and> load_word 8 0 s = 0 then i = 8 * length s
     else \<not> (b \<and> i = 8 * length s) \<and> scan_bits (load_word 8 0 s) b (push_bit 63 1) pos = Some (pos + of_nat i))"
proof (cases "\<exists>i < 64. (i < 8 * length s \<and> bit_at s i) = b")
  case True
  let ?P = "\<lambda>i. i < 64 \<and> (i < 8 * length s \<and> bit_at s i) = b"
  define i where "i = (LEAST i. ?P i)"
  have i: "i < 64" "(i < 8 * length s \<and> bit_at s i) = b" and least: "\<And>j. j < i \<Longrightarrow> \<not> ?P j"
    using LeastI_ex [of ?P] True not_less_Least [of _ ?P] unfolding i_def by blast+
  have w: "bit (load_word 8 0 s) (63 - j) \<longleftrightarrow> j < 8 * length s \<and> bit_at s j" if "j < 64" for j
  proof -
    have "63 - j < 64" "8 * 8 - 1 - (63 - j) = j" using that by simp_all
    then show ?thesis using bit_load_word [of 8 0 s "63 - j"] by simp
  qed
  have scan: "scan_bits (load_word 8 0 s) b (push_bit 63 1) pos = Some (pos + of_nat i)"
    using i least w by (intro scan_bits_found) auto
  have "i \<le> 8 * length s" using least [of "8 * length s"] i by (cases "8 * length s < i") auto
  moreover have "\<forall>j < i. bit_at s j \<noteq> b" using least i(1) \<open>i \<le> 8 * length s\<close> by auto
  ultimately have "first_position b s i" using i(2) by (auto simp: first_position_def)
  moreover have "load_word 8 0 s \<noteq> 0" if b using w [OF i(1)] i(2) that by auto
  ultimately show ?thesis using scan i(2) by auto
next
  case False
  then have none: "\<And>i. i < 64 \<Longrightarrow> (i < 8 * length s \<and> bit_at s i) \<noteq> b" by blast
  then have len: "length s < 8" using word_none [of s b] assms by (meson linorder_not_less)
  then have b using none [of "8 * length s"] by auto
  moreover have "load_word 8 0 s = 0"
    using none \<open>b\<close> len bit_load_word [of 8 0 s] by (intro bit_word_eqI) auto
  moreover have "first_position b s (8 * length s)" using none \<open>b\<close> len by (auto simp: first_position_def)
  ultimately show ?thesis by auto
qed

lemma redisBitpos_first:
  "\<exists>i. first_position b s i \<and>
     redisBitpos align s b = Some (if b \<and> i = 8 * length s then -1 else of_nat i)"
proof -
  let ?v = "skip_byte b"
  obtain k s1 p1 where k: "k \<le> length s" "take k s = replicate k ?v" "s1 = drop k s" "p1 = (of_nat (8 * k) :: uint64)"
    and bytes: "skip_bytes align ?v s 0 = (s1, p1)" using skip_bytes_run [of s ?v align 0] by auto
  let ?w = "word_of_int (le_uint (replicate 8 ?v)) :: uint64"
  obtain l s2 p2 where l: "8 * l \<le> length s1" "take (8 * l) s1 = replicate (8 * l) ?v" "s2 = drop (8 * l) s1"
    "p2 = p1 + of_nat (64 * l)" and words: "skip_words ?w s1 p1 = (s2, p2)"
    and stop: "8 \<le> length s2 \<longrightarrow> take 8 s2 \<noteq> replicate 8 ?v"
    using skip_words_run [of s1 ?v p1] by auto
  have w: "?w = (if b then 0 else 0xFFFFFFFFFFFFFFFF)" by (cases b) (simp_all add: replicate_8)
  have split: "s = replicate (k + 8 * l) ?v @ s2"
    using k l by (metis append_assoc append_take_drop_id replicate_add)
  obtain i where i: "first_position b s2 i" "if b \<and> load_word 8 0 s2 = 0 then i = 8 * length s2
     else \<not> (b \<and> i = 8 * length s2) \<and> scan_bits (load_word 8 0 s2) b (push_bit 63 1) p2 = Some (p2 + of_nat i)"
    using last_word [OF stop] by blast
  have "first_position b s (8 * (k + 8 * l) + i)" using first_position_skip [OF i(1)] split by metis
  moreover have "8 * length s = 8 * (k + 8 * l) + 8 * length s2" using arg_cong [OF split, of length] by simp
  moreover have one: "NOT (drop_bit 1 0xFFFFFFFFFFFFFFFF :: uint64) = push_bit 63 1" by simp
  have "redisBitpos align s b = (if b \<and> load_word 8 0 s2 = 0 then Some (-1)
     else scan_bits (load_word 8 0 s2) b (push_bit 63 1) p2)"
    unfolding redisBitpos_def one w [symmetric] using bytes words by (simp only: Let_def prod.case)
  ultimately show ?thesis using i(2) k(4) l(4)
    by (intro exI [of _ "8 * (k + 8 * l) + i"]) (auto split: if_splits)
qed

text \<open>
  Finding the first bit with a value: whatever the alignment of the string, the result is the first
  position whose bit is the one asked for. When there is none it is the length in bits for a clear bit and \<open>-1\<close> for
  a set bit, and the code never reaches its panic.
\<close>

theorem redisBitpos_exact:
  "\<exists>i. first_position b s i \<and>
     redisBitpos align s b = Some (if b \<and> i = 8 * length s then -1 else of_nat i)"
  by (rule redisBitpos_first)

end
