(* ===== verification/BitCommands.thy ===== *)
theory BitCommands
  imports TString Bitcount
begin

text \<open>
  The commands on bits (\<^verbatim>\<open>bitops.c\<close>): SETBIT, GETBIT, BITOP, BITCOUNT and BITPOS. BITOP has a fast path that
  combines four words of 64 bits at a time as long as all the strings have data.

  The theory shows that the commands keep the invariant, cannot fail and mark the watchers, and that they
  compute what is documented: SETBIT and GETBIT are an update and a lookup of one bit, BITOP combines the
  strings bit by bit with zero padding, BITCOUNT and BITPOS report on the bits of the addressed bytes.
\<close>

section \<open>Strings of bits\<close>

text \<open>The string that is written to, long enough for the bit \<open>maxbit\<close>, or \<open>None\<close> when the command is over.\<close>

definition lookupStringForBitCommand :: "cid \<Rightarrow> key \<Rightarrow> uint64 \<Rightarrow> server \<Rightarrow> (server \<times> sds option) option" where
  "lookupStringForBitCommand c key maxbit s = do {
     let i = c_db (client_of s c);
     let n = unat (drop_bit 3 maxbit + 1);
     (s, obj) \<leftarrow> lookupKeyWrite i key s;
     case obj of
       None \<Rightarrow> do {
         zeros \<leftarrow> sdsnewlen_zero (cfg s) n;
         s \<leftarrow> dbAdd i key (Raw zeros) s;
         Some (s, Some zeros) }
     | Some v \<Rightarrow>
         (case checkType c v OBJ_STRING s of
             (s, True) \<Rightarrow> Some (s, None)
           | (s, False) \<Rightarrow> do {
               (s, o1) \<leftarrow> dbUnshareStringValue i key v s;
               str \<leftarrow> ptr_sds o1;
               str \<leftarrow> sdsgrowzero (cfg s) str n;
               Some (set_value i key (Raw str) s, Some str) }) }"

text \<open>The bytes of a string object, printed into a buffer when it holds an integer.\<close>

abbreviation "LONG_STR_SIZE \<equiv> (21 :: nat)"

definition getObjectReadOnlyString :: "robj \<Rightarrow> sds option" where
  "getObjectReadOnlyString v = (case v of
      Aggregate t a \<Rightarrow> None
    | IntObj n \<Rightarrow> do { (buf, len) \<leftarrow> ll2string (replicate LONG_STR_SIZE 0) (of_nat LONG_STR_SIZE) n; Some (take (unat len) buf) }
    | _ \<Rightarrow> ptr_sds v)"

definition bit_offset_err :: reply where
  "bit_offset_err = ErrorReply ''bit offset is not an integer or out of range''"

definition setbitCommand :: "cid \<Rightarrow> sds list \<Rightarrow> server \<Rightarrow> server option" where
  "setbitCommand c argv s = do {
     let i = c_db (client_of s c);
     case getBitOffsetFromArgument (argv ! 2) False 0 of
       None \<Rightarrow> Some (addReply c bit_offset_err s)
     | Some bitoffset \<Rightarrow> do {
         (s, r) \<leftarrow> getLongOrReply c (Some (arg_obj argv 3)) (Some ''bit is not an integer or out of range'') s;
         case r of None \<Rightarrow> Some s
         | Some on \<Rightarrow>
             if on AND NOT 1 \<noteq> 0 then Some (addReply c (ErrorReply ''bit is not an integer or out of range'') s)
             else do {
               (s, r) \<leftarrow> lookupStringForBitCommand c (argv ! 1) bitoffset s;
               case r of None \<Rightarrow> Some s
               | Some str \<Rightarrow> do {
                   let j = unat (drop_bit 3 bitoffset);
                   b \<leftarrow> mem_get str j;
                   let byteval = (ucast b :: uint64);
                   let k = unat (7 - (bitoffset AND 7));
                   let bitval = byteval AND push_bit k 1;
                   let byteval = (byteval AND NOT (push_bit k 1)) OR push_bit k (on AND 1);
                   str \<leftarrow> mem_set str j (ucast byteval);
                   let s = set_value i (argv ! 1) (Raw str) s;
                   let s = signalModifiedKey i (argv ! 1) s;
                   let s = notifyKeyspaceEvent NOTIFY_STRING ''setbit'' (argv ! 1) i s;
                   let s = add_dirty 1 s;
                   Some (addReply c (IntReply (if bitval \<noteq> 0 then 1 else 0)) s) } } } }"

definition getbitCommand :: "cid \<Rightarrow> sds list \<Rightarrow> server \<Rightarrow> server option" where
  "getbitCommand c argv s =
     (case getBitOffsetFromArgument (argv ! 2) False 0 of
       None \<Rightarrow> Some (addReply c bit_offset_err s)
     | Some bitoffset \<Rightarrow> do {
         (s, obj) \<leftarrow> lookupKeyReadOrReply c (argv ! 1) (IntReply 0) s;
         case obj of None \<Rightarrow> Some s
         | Some v \<Rightarrow>
             (case checkType c v OBJ_STRING s of
                 (s, True) \<Rightarrow> Some s
               | (s, False) \<Rightarrow> do {
                   str \<leftarrow> range_str v;
                   let j = unat (drop_bit 3 bitoffset);
                   let k = unat (7 - (bitoffset AND 7));
                   let bitval = (if j < length str then (ucast (str ! j) :: uint64) AND push_bit k 1 else 0);
                   Some (addReply c (IntReply (if bitval \<noteq> 0 then 1 else 0)) s) }) })"

section \<open>BITOP\<close>

datatype bitop = BITOP_AND | BITOP_OR | BITOP_XOR | BITOP_NOT

definition parse_bitop :: "sds \<Rightarrow> bitop option" where
  "parse_bitop opname =
     (if (char_at opname 0 = of_char CHR ''a'' \<or> char_at opname 0 = of_char CHR ''A'') \<and> strcase_eq opname ''and'' then Some BITOP_AND
      else if (char_at opname 0 = of_char CHR ''o'' \<or> char_at opname 0 = of_char CHR ''O'') \<and> strcase_eq opname ''or'' then Some BITOP_OR
      else if (char_at opname 0 = of_char CHR ''x'' \<or> char_at opname 0 = of_char CHR ''X'') \<and> strcase_eq opname ''xor'' then Some BITOP_XOR
      else if (char_at opname 0 = of_char CHR ''n'' \<or> char_at opname 0 = of_char CHR ''N'') \<and> strcase_eq opname ''not'' then Some BITOP_NOT
      else None)"

text \<open>
  The loop over the source keys: the strings, the largest and the least length, or \<open>None\<close> after a key of
  another type. A missing key counts as an empty string.
\<close>

fun bitop_sources :: "cid \<Rightarrow> nat \<Rightarrow> key list \<Rightarrow> sds list \<Rightarrow> nat \<Rightarrow> nat \<Rightarrow> server \<Rightarrow>
    (server \<times> (sds list \<times> nat \<times> nat) option) option" where
  "bitop_sources c i [] src maxlen minlen s = Some (s, Some (src, maxlen, minlen))"
| "bitop_sources c i (key # keys) src maxlen minlen s = do {
     (s, obj) \<leftarrow> lookupKeyRead i key s;
     case obj of
       None \<Rightarrow> bitop_sources c i keys (src @ [[]]) maxlen 0 s
     | Some v \<Rightarrow>
         (case checkType c v OBJ_STRING s of
             (s, True) \<Rightarrow> Some (s, None)
           | (s, False) \<Rightarrow> do {
               decoded \<leftarrow> getDecodedObject (replicate 32 0) v;
               str \<leftarrow> ptr_sds decoded;
               let maxlen = (if length str > maxlen then length str else maxlen);
               let minlen = (if src = [] \<or> length str < minlen then length str else minlen);
               bitop_sources c i keys (src @ [str]) maxlen minlen s }) }"

fun op64 :: "bitop \<Rightarrow> uint64 \<Rightarrow> uint64 \<Rightarrow> uint64" where
  "op64 BITOP_AND a b = a AND b"
| "op64 BITOP_OR a b = a OR b"
| "op64 BITOP_XOR a b = a XOR b"
| "op64 BITOP_NOT a b = NOT a"

text \<open>One assignment to a word of the result, at \<open>off\<close>; reads and writes outside the strings are \<open>None\<close>.\<close>

definition word_step :: "bitop \<Rightarrow> sds \<Rightarrow> nat \<Rightarrow> sds \<Rightarrow> sds option" where
  "word_step op src off res = do {
     a \<leftarrow> mem_read res off 8;
     b \<leftarrow> mem_read src off 8;
     mem_write res off (le_bytes 8 (uint (op64 op (load64 a) (load64 b)))) }"

definition four_words :: "bitop \<Rightarrow> sds \<Rightarrow> nat \<Rightarrow> sds \<Rightarrow> sds option" where
  "four_words op src j res = do {
     res \<leftarrow> word_step op src j res;
     res \<leftarrow> word_step op src (j + 8) res;
     res \<leftarrow> word_step op src (j + 16) res;
     word_step op src (j + 24) res }"

text \<open>The loop over the sources from the second on; NOT has no other source and uses the result itself.\<close>

fun fold_words :: "bitop \<Rightarrow> sds list \<Rightarrow> nat \<Rightarrow> sds \<Rightarrow> sds option" where
  "fold_words op [] j res = Some res"
| "fold_words op (src # srcs) j res = do { res \<leftarrow> four_words op src j res; fold_words op srcs j res }"

fun fast_loop :: "bitop \<Rightarrow> sds list \<Rightarrow> nat \<Rightarrow> nat \<Rightarrow> sds \<Rightarrow> (nat \<times> sds) option" where
  "fast_loop op srcs j minlen res =
     (if minlen < 32 then Some (j, res)
      else do {
        res \<leftarrow> (if op = BITOP_NOT then four_words BITOP_NOT res j res else fold_words op (tl srcs) j res);
        fast_loop op srcs (j + 32) (minlen - 32) res })"

declare fast_loop.simps [simp del]

fun op8 :: "bitop \<Rightarrow> byte \<Rightarrow> byte \<Rightarrow> byte" where
  "op8 BITOP_AND a b = a AND b"
| "op8 BITOP_OR a b = a OR b"
| "op8 BITOP_XOR a b = a XOR b"
| "op8 BITOP_NOT a b = a"

definition padded :: "sds \<Rightarrow> nat \<Rightarrow> byte" where
  "padded str j = (if length str \<le> j then 0 else str ! j)"

text \<open>One byte of the slow path.\<close>

definition slow_byte :: "bitop \<Rightarrow> sds list \<Rightarrow> nat \<Rightarrow> byte" where
  "slow_byte op srcs j =
     (let output = padded (srcs ! 0) j;
          output = (if op = BITOP_NOT then NOT output else output)
      in fold (\<lambda>src output. op8 op output (padded src j)) (tl srcs) output)"

function slow_loop :: "bitop \<Rightarrow> sds list \<Rightarrow> nat \<Rightarrow> nat \<Rightarrow> sds \<Rightarrow> sds option" where
  "slow_loop op srcs j maxlen res =
     (if j < maxlen then do { res \<leftarrow> mem_set res j (slow_byte op srcs j); slow_loop op srcs (j + 1) maxlen res }
      else Some res)"
  by pat_completeness auto
termination
  by (relation "measure (\<lambda>(_, _, j, maxlen, _). maxlen - j)") auto

declare slow_loop.simps [simp del]

definition bitop_compute :: "config \<Rightarrow> bitop \<Rightarrow> sds list \<Rightarrow> nat \<Rightarrow> nat \<Rightarrow> sds option" where
  "bitop_compute g op srcs maxlen minlen = do {
     res \<leftarrow> sdsnewlen_zero g maxlen;
     (j, res) \<leftarrow> (if minlen \<ge> 32 \<and> length srcs \<le> 16
       then do {
         part \<leftarrow> mem_read (srcs ! 0) 0 minlen;
         res \<leftarrow> mem_write res 0 part;
         fast_loop op srcs 0 minlen res }
       else Some (0, res));
     slow_loop op srcs j maxlen res }"

definition bitopCommand :: "cid \<Rightarrow> sds list \<Rightarrow> server \<Rightarrow> server option" where
  "bitopCommand c argv s =
     (let i = c_db (client_of s c); targetkey = argv ! 2 in
      case parse_bitop (argv ! 1) of
        None \<Rightarrow> Some (addReply c (ErrorReply ''syntax error'') s)
      | Some op \<Rightarrow>
          if op = BITOP_NOT \<and> length argv \<noteq> 4
          then Some (addReply c (ErrorReply ''BITOP NOT must be called with a single source key.'') s)
          else do {
            (s, r) \<leftarrow> bitop_sources c i (drop 3 argv) [] 0 0 s;
            case r of None \<Rightarrow> Some s
            | Some (srcs, maxlen, minlen) \<Rightarrow> do {
                s \<leftarrow> (if maxlen \<noteq> 0 then do {
                    res \<leftarrow> bitop_compute (cfg s) op srcs maxlen minlen;
                    s \<leftarrow> setKey i targetkey (Raw res) s;
                    Some (notifyKeyspaceEvent NOTIFY_STRING ''set'' targetkey i s) }
                  else (case dbDelete i targetkey s of
                      (s, True) \<Rightarrow> Some (notifyKeyspaceEvent NOTIFY_GENERIC ''del'' targetkey i (signalModifiedKey i targetkey s))
                    | (s, False) \<Rightarrow> Some s));
                let s = add_dirty 1 s;
                Some (addReply c (IntReply (of_nat maxlen)) s) } })"

section \<open>BITCOUNT and BITPOS\<close>

text \<open>The indexes are longs; \<open>len\<close> is the length of the string.\<close>

definition clamp_range :: "int64 \<Rightarrow> int64 \<Rightarrow> int64 \<Rightarrow> int64 \<times> int64" where
  "clamp_range len start finish =
     (let start = (if sint start < 0 then len + start else start);
          finish = (if sint finish < 0 then len + finish else finish);
          start = (if sint start < 0 then 0 else start);
          finish = (if sint finish < 0 then 0 else finish);
          finish = (if sint finish \<ge> sint len then len - 1 else finish)
      in (start, finish))"

text \<open>The bytes from the address on up to the next multiple of \<open>n\<close>.\<close>

definition unaligned :: "nat \<Rightarrow> nat \<Rightarrow> nat" where
  "unaligned n addr = (n - addr mod n) mod n"

text \<open>The range that BITCOUNT works on, \<open>None\<close> when the command is over.\<close>

definition bitcount_range :: "cid \<Rightarrow> sds list \<Rightarrow> int64 \<Rightarrow> server \<Rightarrow> (server \<times> (int64 \<times> int64) option) option" where
  "bitcount_range c argv len s =
     (if length argv = 4 then do {
        (s, r) \<leftarrow> getLongOrReply c (Some (arg_obj argv 2)) None s;
        case r of None \<Rightarrow> Some (s, None)
        | Some start \<Rightarrow> do {
            (s, r) \<leftarrow> getLongOrReply c (Some (arg_obj argv 3)) None s;
            case r of None \<Rightarrow> Some (s, None)
            | Some finish \<Rightarrow>
                if sint start < 0 \<and> sint finish < 0 \<and> sint start > sint finish then Some (addReply c (IntReply 0) s, None)
                else Some (s, Some (clamp_range len start finish)) } }
      else if length argv = 2 then Some (s, Some (0, len - 1))
      else Some (addReply c (ErrorReply ''syntax error'') s, None))"

definition bitcountCommand :: "cid \<Rightarrow> sds list \<Rightarrow> server \<Rightarrow> server option" where
  "bitcountCommand c argv s = do {
     (s, obj) \<leftarrow> lookupKeyReadOrReply c (argv ! 1) (IntReply 0) s;
     case obj of None \<Rightarrow> Some s
     | Some v \<Rightarrow>
         (case checkType c v OBJ_STRING s of
             (s, True) \<Rightarrow> Some s
           | (s, False) \<Rightarrow> do {
               p \<leftarrow> getObjectReadOnlyString v;
               (s, r) \<leftarrow> bitcount_range c argv (of_nat (length p)) s;
               case r of None \<Rightarrow> Some s
               | Some (start, finish) \<Rightarrow>
                   if sint start > sint finish then Some (addReply c (IntReply 0) s)
                   else do {
                     let bytes = finish - start + 1;
                     part \<leftarrow> mem_read p (unat start) (unat bytes);
                     Some (addReply c (IntReply (redisPopcount (unaligned 4 (addr_of (cfg s) p + unat start)) part)) s) } }) }"

text \<open>The range of BITPOS and whether an end was given.\<close>

definition bitpos_range :: "cid \<Rightarrow> sds list \<Rightarrow> int64 \<Rightarrow> server \<Rightarrow> (server \<times> (int64 \<times> int64 \<times> bool) option) option" where
  "bitpos_range c argv len s =
     (if length argv = 4 \<or> length argv = 5 then do {
        (s, r) \<leftarrow> getLongOrReply c (Some (arg_obj argv 3)) None s;
        case r of None \<Rightarrow> Some (s, None)
        | Some start \<Rightarrow>
            if length argv = 5 then do {
              (s, r) \<leftarrow> getLongOrReply c (Some (arg_obj argv 4)) None s;
              case r of None \<Rightarrow> Some (s, None)
              | Some finish \<Rightarrow> (case clamp_range len start finish of (start, finish) \<Rightarrow> Some (s, Some (start, finish, True))) }
            else (case clamp_range len start (len - 1) of (start, finish) \<Rightarrow> Some (s, Some (start, finish, False))) }
      else if length argv = 3 then Some (s, Some (0, len - 1, False))
      else Some (addReply c (ErrorReply ''syntax error'') s, None))"

definition bitposCommand :: "cid \<Rightarrow> sds list \<Rightarrow> server \<Rightarrow> server option" where
  "bitposCommand c argv s = do {
     (s, r) \<leftarrow> getLongOrReply c (Some (arg_obj argv 2)) None s;
     case r of None \<Rightarrow> Some s
     | Some b \<Rightarrow>
         if b \<noteq> 0 \<and> b \<noteq> 1 then Some (addReply c (ErrorReply ''The bit argument must be 1 or 0.'') s)
         else do {
           (s, obj) \<leftarrow> lookupKeyRead (c_db (client_of s c)) (argv ! 1) s;
           case obj of None \<Rightarrow> Some (addReply c (IntReply (if b \<noteq> 0 then -1 else 0)) s)
           | Some v \<Rightarrow>
               (case checkType c v OBJ_STRING s of
                   (s, True) \<Rightarrow> Some s
                 | (s, False) \<Rightarrow> do {
                     p \<leftarrow> getObjectReadOnlyString v;
                     (s, r) \<leftarrow> bitpos_range c argv (of_nat (length p)) s;
                     case r of None \<Rightarrow> Some s
                     | Some (start, finish, end_given) \<Rightarrow>
                         if sint start > sint finish then Some (addReply c (IntReply (-1)) s)
                         else do {
                           let bytes = finish - start + 1;
                           part \<leftarrow> mem_read p (unat start) (unat bytes);
                           pos \<leftarrow> redisBitpos (unaligned 8 (addr_of (cfg s) p + unat start)) part (b = 1);
                           if end_given \<and> b = 0 \<and> pos = bytes * 8 then Some (addReply c (IntReply (-1)) s)
                           else Some (addReply c (IntReply (if pos \<noteq> -1 then pos + start * 8 else pos)) s) } }) } }"

section \<open>The fast path of BITOP\<close>

fun opb :: "bitop \<Rightarrow> byte \<Rightarrow> byte \<Rightarrow> byte" where
  "opb BITOP_NOT a b = NOT a"
| "opb op a b = op8 op a b"

lemma nth_le_bytes: "i < k \<Longrightarrow> le_bytes k v ! i = word_of_int (drop_bit (8 * i) v)"
proof (induction k arbitrary: i v)
  case (Suc k)
  show ?case
  proof (cases i)
    case (Suc l)
    have "drop_bit (8 * i) v = drop_bit (8 * l) (v div 256)"
      using drop_bit_drop_bit [of "8 * l" 8 v] unfolding Suc by (simp add: drop_bit_eq_div [of 8] add.commute)
    then show ?thesis using Suc Suc.IH [of l "v div 256"] Suc.prems by simp
  qed simp
qed simp

lemma bit_le_uint: "bit (le_uint bs) n \<longleftrightarrow> n div 8 < length bs \<and> bit (bs ! (n div 8)) (n mod 8)"
proof (induction bs arbitrary: n)
  case (Cons b bs)
  have u: "take_bit 8 (le_uint (b # bs)) = uint b" "drop_bit 8 (le_uint (b # bs)) = le_uint bs"
    using uint_lt2p [of b] by (simp_all add: take_bit_eq_mod drop_bit_eq_div)
  show ?case
  proof (cases "n < 8")
    case True
    then have "bit (le_uint (b # bs)) n = bit (take_bit 8 (le_uint (b # bs))) n" by (simp add: bit_take_bit_iff)
    then show ?thesis using True unfolding u by (simp add: bit_uint_iff)
  next
    case False
    then have "bit (le_uint (b # bs)) n = bit (drop_bit 8 (le_uint (b # bs))) (n - 8)" by (simp add: bit_drop_bit_eq)
    then show ?thesis using False Cons [of "n - 8"] unfolding u by (simp add: le_div_geq le_mod_geq)
  qed
qed simp

lemma bit_load64: "length a = 8 \<Longrightarrow> bit (load64 a) (8 * i + n) \<longleftrightarrow> i < 8 \<and> bit (a ! i) n" if "n < 8" for n
  using that by (auto simp: load64_def bit_word_of_int_iff bit_le_uint)

lemma op64_bytes:
  assumes "length a = 8" "length b = 8"
  shows "le_bytes 8 (uint (op64 op (load64 a) (load64 b))) = map2 (opb op) a b"
proof (rule nth_equalityI)
  fix i assume "i < length (le_bytes 8 (uint (op64 op (load64 a) (load64 b))))"
  then have i: "i < 8" by simp
  have "bit (le_bytes 8 (uint (op64 op (load64 a) (load64 b))) ! i) n = bit (opb op (a ! i) (b ! i)) n" if n: "n < 8" for n
    using i n bit_load64 [OF n assms(1), of i] bit_load64 [OF n assms(2), of i]
    by (cases op) (simp_all add: nth_le_bytes bit_word_of_int_iff bit_drop_bit_eq bit_uint_iff bit_and_iff bit_or_iff bit_xor_iff bit_not_iff del: le_bytes_numeral)
  then show "le_bytes 8 (uint (op64 op (load64 a) (load64 b))) ! i = map2 (opb op) a b ! i"
    using i assms by (auto intro!: bit_word_eqI simp del: le_bytes_numeral)
qed (use assms in simp)

text \<open>A string of which the bytes from \<open>lo\<close> up to \<open>hi\<close> were combined with those of another.\<close>

definition combined :: "(nat \<Rightarrow> byte \<Rightarrow> byte) \<Rightarrow> nat \<Rightarrow> nat \<Rightarrow> sds \<Rightarrow> sds" where
  "combined f lo hi res = map (\<lambda>k. if lo \<le> k \<and> k < hi then f k (res ! k) else res ! k) [0..<length res]"

lemma length_combined [simp]: "length (combined f lo hi res) = length res"
  by (simp add: combined_def)

lemma nth_combined [simp]:
  "k < length res \<Longrightarrow> combined f lo hi res ! k = (if lo \<le> k \<and> k < hi then f k (res ! k) else res ! k)"
  by (simp add: combined_def)

lemma combined_append: "lo \<le> mid \<Longrightarrow> mid \<le> hi \<Longrightarrow> combined f mid hi (combined f lo mid res) = combined f lo hi res"
  by (rule nth_equalityI) auto

lemma combined_comp: "combined g lo hi (combined f lo hi res) = combined (\<lambda>k. g k \<circ> f k) lo hi res"
  by (rule nth_equalityI) auto

lemma combined_empty [simp]: "combined f lo lo res = res"
  by (rule nth_equalityI) auto

lemma word_step_eq:
  assumes "off + 8 \<le> length res" "off + 8 \<le> length src"
  shows "word_step op src off res = Some (combined (\<lambda>k a. opb op a (src ! k)) off (off + 8) res)"
proof -
  let ?new = "map2 (opb op) (take 8 (drop off res)) (take 8 (drop off src))"
  have "word_step op src off res = Some (take off res @ ?new @ drop (off + 8) res)"
    using assms op64_bytes [of "take 8 (drop off res)" "take 8 (drop off src)" op]
    by (simp add: word_step_def mem_read_def mem_write_def del: le_bytes_numeral)
  also have "take off res @ ?new @ drop (off + 8) res = combined (\<lambda>k a. opb op a (src ! k)) off (off + 8) res"
    using assms by (intro nth_equalityI) (auto simp: nth_append min_def)
  finally show ?thesis .
qed

lemma four_words_eq:
  assumes "j + 32 \<le> length res" "j + 32 \<le> length src"
  shows "four_words op src j res = Some (combined (\<lambda>k a. opb op a (src ! k)) j (j + 32) res)"
  using assms by (simp add: four_words_def word_step_eq combined_append add.assoc)

lemma fold_words_eq:
  assumes "j + 32 \<le> length res" "\<forall>src \<in> set srcs. j + 32 \<le> length src"
  shows "fold_words op srcs j res = Some (combined (\<lambda>k. fold (\<lambda>src a. opb op a (src ! k)) srcs) j (j + 32) res)"
  using assms
proof (induction srcs arbitrary: res)
  case Nil
  have "combined (\<lambda>k a. a) j (j + 32) res = res" by (rule nth_equalityI) auto
  then show ?case by (simp add: id_def)
qed (simp add: four_words_eq combined_comp comp_def)

text \<open>The byte that the fast path computes from the byte of the first source.\<close>

definition fast_byte :: "bitop \<Rightarrow> sds list \<Rightarrow> nat \<Rightarrow> byte \<Rightarrow> byte" where
  "fast_byte op srcs k a = (if op = BITOP_NOT then NOT a else fold (\<lambda>src a. opb op a (src ! k)) (tl srcs) a)"

lemma fast_loop_eq:
  assumes "j + minlen \<le> length res" "\<forall>src \<in> set srcs. j + minlen \<le> length src"
  shows "\<exists>hi \<le> j + minlen. fast_loop op srcs j minlen res = Some (hi, combined (fast_byte op srcs) j hi res) \<and> j \<le> hi"
  using assms
proof (induction op srcs j minlen res rule: fast_loop.induct)
  case (1 op srcs j minlen res)
  show ?case
  proof (cases "minlen < 32")
    case True
    then show ?thesis by (intro exI [of _ j]) (simp add: fast_loop.simps [of _ _ j])
  next
    case False
    let ?res = "combined (fast_byte op srcs) j (j + 32) res"
    have srcs: "\<forall>src \<in> set (tl srcs). j + 32 \<le> length src"
      using "1.prems"(2) False by (cases srcs) fastforce+
    have step: "(if op = BITOP_NOT then four_words BITOP_NOT res j res else fold_words op (tl srcs) j res) = Some ?res"
    proof (cases "op = BITOP_NOT")
      case True
      then have "fast_byte op srcs = (\<lambda>k a. opb BITOP_NOT a (res ! k))" by (simp add: fast_byte_def fun_eq_iff)
      then show ?thesis using True four_words_eq [of j res res BITOP_NOT] "1.prems"(1) False by simp
    next
      case F: False
      then have "fast_byte op srcs = (\<lambda>k. fold (\<lambda>src a. opb op a (src ! k)) (tl srcs))" by (simp add: fast_byte_def fun_eq_iff)
      then show ?thesis using F fold_words_eq [of j res "tl srcs" op] "1.prems"(1) False srcs by simp
    qed
    have "\<exists>hi \<le> j + 32 + (minlen - 32). fast_loop op srcs (j + 32) (minlen - 32) ?res =
        Some (hi, combined (fast_byte op srcs) (j + 32) hi ?res) \<and> j + 32 \<le> hi"
      by (rule "1.IH" [OF False step]) (use "1.prems" False in auto)
    then show ?thesis using False step combined_append [of j "j + 32" _ "fast_byte op srcs" res]
      by (auto simp: fast_loop.simps [of _ _ j])
  qed
qed

lemma slow_loop_eq:
  assumes "maxlen \<le> length res" "j \<le> maxlen"
  shows "slow_loop op srcs j maxlen res = Some (combined (\<lambda>k _. slow_byte op srcs k) j maxlen res)"
  using assms
proof (induction op srcs j maxlen res rule: slow_loop.induct)
  case (1 op srcs j maxlen res)
  show ?case
  proof (cases "j < maxlen")
    case True
    then have set: "mem_set res j (slow_byte op srcs j) = Some (combined (\<lambda>k _. slow_byte op srcs k) j (j + 1) res)"
      using "1.prems" by (auto simp: mem_set_def intro!: nth_equalityI simp: nth_list_update)
    then have "slow_loop op srcs j maxlen res = slow_loop op srcs (j + 1) maxlen (combined (\<lambda>k _. slow_byte op srcs k) j (j + 1) res)"
      using True by (simp add: slow_loop.simps [of _ _ j])
    then show ?thesis using "1.IH" [OF True set] "1.prems" True by (simp add: combined_append)
  next
    case False
    then have "j = maxlen" using "1.prems" by simp
    then show ?thesis by (simp add: slow_loop.simps [of _ _ maxlen])
  qed
qed

text \<open>The two paths agree: the result is the byte of the slow path everywhere.\<close>

lemma bitop_compute_eq:
  assumes "maxlen \<le> max_alloc g" "minlen \<le> maxlen" "\<forall>src \<in> set srcs. minlen \<le> length src" "srcs \<noteq> []"
    and not1: "op = BITOP_NOT \<Longrightarrow> length srcs = 1"
  shows "bitop_compute g op srcs maxlen minlen = Some (map (slow_byte op srcs) [0..<maxlen])"
proof -
  let ?z = "replicate maxlen (0 :: byte)"
  have slow: "slow_loop op srcs j maxlen res = Some (map (slow_byte op srcs) [0..<maxlen])"
    if "length res = maxlen" "j \<le> maxlen" "\<And>k. k < j \<Longrightarrow> res ! k = slow_byte op srcs k" for j res
    using slow_loop_eq [of maxlen res j op srcs] that by (auto intro!: nth_equalityI)
  show ?thesis
  proof (cases "minlen \<ge> 32 \<and> length srcs \<le> 16")
    case True
    have hd: "minlen \<le> length (srcs ! 0)" using assms(3,4) by simp
    let ?res = "take minlen (srcs ! 0) @ drop minlen ?z"
    have len: "length ?res = maxlen" using hd assms(2) by simp
    obtain hi where hi: "hi \<le> minlen" "fast_loop op srcs 0 minlen ?res = Some (hi, combined (fast_byte op srcs) 0 hi ?res)"
      using fast_loop_eq [of 0 minlen ?res srcs op] len assms(2,3) by auto
    have "combined (fast_byte op srcs) 0 hi ?res ! k = slow_byte op srcs k" if k: "k < hi" for k
    proof -
      have "fold (\<lambda>src a. opb op a (src ! k)) ss a = fold (\<lambda>src a. op8 op a (padded src k)) ss a"
        if "op \<noteq> BITOP_NOT" "\<forall>src \<in> set ss. minlen \<le> length src" for ss a
        using that k hi(1) by (induction ss arbitrary: a) (cases op; simp add: padded_def)+
      moreover have "\<forall>src \<in> set (tl srcs). minlen \<le> length src" using assms(3) by (cases srcs) auto
      moreover have "padded (srcs ! 0) k = srcs ! 0 ! k" using k hi(1) hd by (simp add: padded_def)
      moreover have "op = BITOP_NOT \<Longrightarrow> tl srcs = []" using not1 by (cases srcs) auto
      ultimately show ?thesis using k hi(1) hd assms(2)
        by (cases "op = BITOP_NOT") (simp_all add: slow_byte_def fast_byte_def Let_def nth_append)
    qed
    then show ?thesis
      using True assms(1,2) hd hi len slow [of "combined (fast_byte op srcs) 0 hi ?res" hi]
      by (simp add: bitop_compute_def sdsnewlen_zero_def mem_read_def mem_write_def min.absorb2)
  next
    case False
    then show ?thesis using assms(1) slow [of ?z 0] by (auto simp: bitop_compute_def sdsnewlen_zero_def)
  qed
qed

section \<open>The commands keep the invariant\<close>

lemma getBitOffset_bound: "getBitOffsetFromArgument p False bits = Some offset \<Longrightarrow> unat (drop_bit 3 offset) < 2 ^ 29"
  by (auto simp: getBitOffsetFromArgument_def Let_def word_less_nat_alt word_le_nat_alt not_le split: option.splits if_splits)

lemma byte_room: "unat (drop_bit 3 offset) < 2 ^ 29 \<Longrightarrow> unat (drop_bit 3 offset + 1) = unat (drop_bit 3 (offset :: uint64)) + 1"
proof -
  assume "unat (drop_bit 3 offset) < 2 ^ 29"
  then have "unat (drop_bit 3 offset) + unat (1 :: uint64) < 2 ^ LENGTH(64)" by simp
  from unat_add_lem [THEN iffD1, OF this] show ?thesis by simp
qed

lemma lookupString_wp:
  assumes g: "G s0 {} {} s" and o: "unat (drop_bit 3 maxbit) < 2 ^ 29"
    and Q: "\<And>s'. G s0 {} {} s' \<Longrightarrow> Q (s', None)"
      "\<And>s' str. one_change s0 (c_db (client_of s c)) key s s' \<Longrightarrow> unat (drop_bit 3 maxbit) < length str \<Longrightarrow>
        length str \<le> STRING_MAX \<Longrightarrow> Q (s', Some str)"
  shows "wp (lookupStringForBitCommand c key maxbit s) Q"
  unfolding lookupStringForBitCommand_def Let_def byte_room [OF o]
proof (rule wp_bindI, rule lookupKeyWrite_wp [OF g G_db(2) [OF g]], unfold prod.case)
  let ?i = "c_db (client_of s c)" and ?n = "unat (drop_bit 3 maxbit) + 1"
  fix s1 assume g1: "G s0 {} {} s1" and l1: "looked ?i key s s1"
  have i1: "?i < length (dbs s1)" and n1: "length (dbs s1) = length (dbs s)" using l1 G_db(2) [OF g] by simp_all
  have n: "?n \<le> STRING_MAX" using o by simp
  show "wp (case db_dict (dbs s1 ! ?i) key of None \<Rightarrow> sdsnewlen_zero (cfg s1) ?n \<bind> (\<lambda>zeros. dbAdd ?i key (Raw zeros) s1 \<bind> (\<lambda>s. Some (s, Some zeros)))
     | Some v \<Rightarrow> (case checkType c v OBJ_STRING s1 of (s, True) \<Rightarrow> Some (s, None)
       | (s, False) \<Rightarrow> dbUnshareStringValue ?i key v s \<bind> (\<lambda>(s, o1). ptr_sds o1 \<bind> (\<lambda>str. sdsgrowzero (cfg s) str ?n \<bind>
           (\<lambda>str. Some (set_value ?i key (Raw str) s, Some str)))))) Q"
  proof (rule wp_optionI)
    assume none: "db_dict (dbs s1 ! ?i) key = None"
    have "wp (dbAdd ?i key (Raw (replicate ?n 0)) s1) (\<lambda>s. Q (s, Some (replicate ?n 0)))"
      by (rule dbAdd_wp [OF g1 i1 none]) (use n n1 in \<open>auto intro!: Q(2) simp: one_change_def\<close>)
    then show "wp (sdsnewlen_zero (cfg s1) ?n \<bind> (\<lambda>zeros. dbAdd ?i key (Raw zeros) s1 \<bind> (\<lambda>s. Some (s, Some zeros)))) Q"
      using G_alloc [OF g1 n] by (simp add: sdsnewlen_zero_def)
  next
    fix v assume k: "db_dict (dbs s1 ! ?i) key = Some v"
    show "wp (case checkType c v OBJ_STRING s1 of (s, True) \<Rightarrow> Some (s, None)
       | (s, False) \<Rightarrow> dbUnshareStringValue ?i key v s \<bind> (\<lambda>(s, o1). ptr_sds o1 \<bind> (\<lambda>str. sdsgrowzero (cfg s) str ?n \<bind>
           (\<lambda>str. Some (set_value ?i key (Raw str) s, Some str))))) Q"
    proof (cases "obj_bytes v")
      case None
      then show ?thesis using checkType_string(2) [of v] g1 by (auto intro!: Q(1))
    next
      case (Some b)
      have b: "length b \<le> STRING_MAX" using val_ok_bytes [OF db_ok_val [OF G_db(1) [OF g1 i1] k] Some] .
      let ?str = "if ?n \<le> length b then b else b @ replicate (?n - length b) 0"
      have str: "length ?str \<le> STRING_MAX" "unat (drop_bit 3 maxbit) < length ?str" using b n by auto
      have "wp (dbUnshareStringValue ?i key v s1) (\<lambda>(s, o1). o1 = Raw b \<and> cfg s = cfg s1 \<and> Q (set_value ?i key (Raw ?str) s, Some ?str))"
      proof (rule dbUnshareStringValue_wp [OF g1 i1 k Some], simp only: prod.case, intro conjI refl)
        fix s2 assume g2: "G s0 {(?i, key)} {} s2" and s2: "length (dbs s2) = length (dbs s1)"
        then have "?i < length (dbs s2)" using i1 by simp
        from set_value_G [OF g2 this, of "Raw ?str" key] str
        have "one_change s0 ?i key s (set_value ?i key (Raw ?str) s2)"
          using s2 n1 by (simp add: one_change_def val_ok_def split del: if_split)
        then show "Q (set_value ?i key (Raw ?str) s2, Some ?str)" using str by (intro Q(2))
      qed
      then show ?thesis using checkType_string(1) [OF Some] G_alloc [OF g1 n]
        by (auto simp: sdsgrowzero_def case_prod_unfold elim!: wp_mono)
    qed
  qed
qed

lemma setbitCommand_wp:
  assumes g: "G s0 {} {} s"
  shows "wp (setbitCommand c argv s) (G s0 {} {})"
  unfolding setbitCommand_def Let_def getLong_OrReply_eq
proof (rule wp_optionI)
  let ?i = "c_db (client_of s c)" and ?key = "argv ! 1"
  fix o1 assume o: "getBitOffsetFromArgument (argv ! 2) False 0 = Some o1"
  note room = getBitOffset_bound [OF o]
  let ?j = "unat (drop_bit 3 o1)" and ?k = "unat (7 - (o1 AND 7))"
  let ?fin = "\<lambda>b x s'. addReply c (IntReply (if b then 1 else 0)) (add_dirty 1 (notifyKeyspaceEvent NOTIFY_STRING ''setbit'' ?key ?i
      (signalModifiedKey ?i ?key (set_value ?i ?key (Raw x) s'))))"
  have fin: "G s0 {} {} (?fin b (str[?j := x]) s2)" if "one_change s0 ?i ?key s s2" "length str \<le> STRING_MAX" for b x s2 str
  proof -
    have "G s0 {(?i, ?key)} {} s2" "?i < length (dbs s2)" using that(1) G_db(2) [OF g] by (simp_all add: one_change_def)
    from set_value_G [OF this, of "Raw (str[?j := x])" ?key] that(2)
    have "G s0 {(?i, ?key)} {} (set_value ?i ?key (Raw (str[?j := x])) s2)" by simp
    from G_finish [OF this, of ?i ?key] show ?thesis by simp
  qed
  show "wp (getLongLongOrReply c (Some (arg_obj argv 3)) (Some ''bit is not an integer or out of range'') s \<bind> (\<lambda>(s, r). case r of None \<Rightarrow> Some s
     | Some on \<Rightarrow> if on AND NOT 1 \<noteq> 0 then Some (addReply c (ErrorReply ''bit is not an integer or out of range'') s)
         else lookupStringForBitCommand c ?key o1 s \<bind> (\<lambda>(s, r). case r of None \<Rightarrow> Some s
           | Some str \<Rightarrow> mem_get str ?j \<bind> (\<lambda>b. mem_set str ?j (ucast (((ucast b :: uint64) AND NOT (push_bit ?k 1)) OR push_bit ?k (on AND 1))) \<bind>
             (\<lambda>str. Some (?fin ((ucast b :: uint64) AND push_bit ?k 1 \<noteq> 0) str s)))))) (G s0 {} {})"
  proof (rule wp_bindI, rule getLongLong_wp [OF g arg_obj_long], unfold prod.case, rule wp_optionI, simp, rule wp_ifI)
    fix s1 on assume g1: "G s0 {} {} s1" and d1: "dbs s1 = dbs s" "\<forall>d. c_db (client_of s1 d) = c_db (client_of s d)"
    show "wp (Some (addReply c (ErrorReply ''bit is not an integer or out of range'') s1)) (G s0 {} {})" using g1 by auto
    show "wp (lookupStringForBitCommand c ?key o1 s1 \<bind> (\<lambda>(s, r). case r of None \<Rightarrow> Some s
           | Some str \<Rightarrow> mem_get str ?j \<bind> (\<lambda>b. mem_set str ?j (ucast (((ucast b :: uint64) AND NOT (push_bit ?k 1)) OR push_bit ?k (on AND 1))) \<bind>
             (\<lambda>str. Some (?fin ((ucast b :: uint64) AND push_bit ?k 1 \<noteq> 0) str s))))) (G s0 {} {})"
      by (rule wp_bindI, rule lookupString_wp [OF g1 room])
        (use fin d1 in \<open>auto simp: mem_get_def mem_set_def one_change_def\<close>)
  qed
qed (use g in auto)

lemma readOnlyString_bytes: "obj_bytes v = Some b \<Longrightarrow> getObjectReadOnlyString v = Some b"
proof (cases v)
  case (IntObj n)
  have l: "length (sdec n) \<le> 20" by (rule length_sdec)
  then have "unat (of_nat (length (sdec n)) :: uint32) = length (sdec n)" by (simp add: unat_of_nat_small)
  moreover assume "obj_bytes v = Some b"
  ultimately show ?thesis using l IntObj by (simp add: getObjectReadOnlyString_def ll2string_eq Let_def)
qed (auto simp: getObjectReadOnlyString_def)

text \<open>The steps after a lookup of a string for reading.\<close>

lemma string_wp:
  assumes g: "G s0 {} {} s" and i: "i < length (dbs s)" and k: "db_dict (dbs s ! i) key = Some v"
    and m: "\<And>b. obj_bytes v = Some b \<Longrightarrow> length b \<le> STRING_MAX \<Longrightarrow> wp (m s) Q"
    and Q: "\<And>s'. G s0 {} {} s' \<Longrightarrow> Q s'"
  shows "wp (case checkType c v OBJ_STRING s of (s, True) \<Rightarrow> Some s | (s, False) \<Rightarrow> m s) Q"
proof (cases "obj_bytes v")
  case None
  then show ?thesis using checkType_string(2) [of v] g by (auto intro!: Q)
next
  case (Some b)
  have "length b \<le> STRING_MAX" using val_ok_bytes [OF db_ok_val [OF G_db(1) [OF g i] k] Some] .
  then show ?thesis using m [OF Some] checkType_string(1) [OF Some] by simp
qed

lemma getbitCommand_wp:
  assumes g: "G s0 {} {} s"
  shows "wp (getbitCommand c argv s) (G s0 {} {})"
  unfolding getbitCommand_def Let_def
proof (rule wp_optionI, (use g in auto)[1], rule wp_bindI, rule lookupReadOrReply_wp [OF g], unfold prod.case, rule wp_optionI, simp)
  fix s1 v val assume g1: "G s0 {} {} s1" and d: "dbs s1 = (dbs s)[c_db (client_of s c) := dbs s1 ! c_db (client_of s c)]"
    and v: "val \<noteq> None \<Longrightarrow> val = db_dict (dbs s1 ! c_db (client_of s c)) (argv ! 1)" "val = Some v"
  have i: "c_db (client_of s c) < length (dbs s1)" using G_db(2) [OF g] d by (metis length_list_update)
  fix o1
  show "wp (case checkType c v OBJ_STRING s1 of (s, True) \<Rightarrow> Some s | (s, False) \<Rightarrow> range_str v \<bind> (\<lambda>str.
      Some (addReply c (IntReply (if (if unat (drop_bit 3 o1) < length str
        then (ucast (str ! unat (drop_bit 3 o1)) :: uint64) AND push_bit (unat (7 - (o1 AND 7))) 1 else 0) \<noteq> 0 then 1 else 0)) s))) (G s0 {} {})"
    by (rule string_wp [OF g1 i]) (use v g1 in \<open>auto simp: range_str_bytes\<close>)
qed

text \<open>The strings that BITOP has collected.\<close>

definition sources_ok :: "sds list \<Rightarrow> nat \<Rightarrow> nat \<Rightarrow> bool" where
  "sources_ok srcs maxlen minlen \<longleftrightarrow> (\<forall>src \<in> set srcs. minlen \<le> length src \<and> length src \<le> maxlen) \<and>
     minlen \<le> maxlen \<and> maxlen \<le> STRING_MAX \<and> (srcs = [] \<longrightarrow> maxlen = 0)"

lemma sources_ok_snoc:
  assumes "sources_ok srcs maxlen minlen" "length str \<le> STRING_MAX"
  shows "sources_ok (srcs @ [str]) (if length str > maxlen then length str else maxlen)
    (if srcs = [] \<or> length str < minlen then length str else minlen)"
    "sources_ok (srcs @ [[]]) maxlen 0"
  using assms by (auto simp: sources_ok_def)

lemma bitop_sources_wp:
  "G s0 {} {} s \<Longrightarrow> i < length (dbs s) \<Longrightarrow> sources_ok srcs maxlen minlen \<Longrightarrow>
   wp (bitop_sources c i keys srcs maxlen minlen s) (\<lambda>(s', r). G s0 {} {} s' \<and> length (dbs s') = length (dbs s) \<and>
     (case r of None \<Rightarrow> True | Some (srcs', mx, mn) \<Rightarrow> sources_ok srcs' mx mn \<and> length srcs' = length srcs + length keys))"
proof (induction keys arbitrary: s srcs maxlen minlen)
  case (Cons key keys)
  show ?case
    unfolding bitop_sources.simps
  proof (rule wp_bindI, rule lookupKeyRead_wp [OF Cons.prems(1,2)], unfold prod.case)
    fix s1 val assume g1: "G s0 {} {} s1" and l1: "looked i key s s1"
      and val: "val = db_dict (dbs s1 ! i) key \<or> val = None \<and> masterhost (cfg s)"
    have i1: "i < length (dbs s1)" and n1: "length (dbs s1) = length (dbs s)" using l1 Cons.prems(2) by simp_all
    let ?Q = "\<lambda>(s', r). G s0 {} {} s' \<and> length (dbs s') = length (dbs s) \<and>
     (case r of None \<Rightarrow> True | Some (srcs', mx, mn) \<Rightarrow> sources_ok srcs' mx mn \<and> length srcs' = length srcs + length (key # keys))"
    show "wp (case val of None \<Rightarrow> bitop_sources c i keys (srcs @ [[]]) maxlen 0 s1
      | Some v \<Rightarrow> (case checkType c v OBJ_STRING s1 of (s, True) \<Rightarrow> Some (s, None)
        | (s, False) \<Rightarrow> getDecodedObject (replicate 32 0) v \<bind> (\<lambda>decoded. ptr_sds decoded \<bind> (\<lambda>str.
            let maxlen = (if length str > maxlen then length str else maxlen);
                minlen = (if srcs = [] \<or> length str < minlen then length str else minlen)
            in bitop_sources c i keys (srcs @ [str]) maxlen minlen s)))) ?Q"
    proof (rule wp_optionI)
      show "wp (bitop_sources c i keys (srcs @ [[]]) maxlen 0 s1) ?Q"
        by (rule wp_mono [OF Cons.IH [OF g1 i1 sources_ok_snoc(2) [OF Cons.prems(3), of "[]"]]]) (use n1 in \<open>auto split: option.splits\<close>)
    next
      fix v assume v: "val = Some v"
      then have k: "db_dict (dbs s1 ! i) key = Some v" using val by simp
      show "wp (case checkType c v OBJ_STRING s1 of (s, True) \<Rightarrow> Some (s, None)
        | (s, False) \<Rightarrow> getDecodedObject (replicate 32 0) v \<bind> (\<lambda>decoded. ptr_sds decoded \<bind> (\<lambda>str.
            let maxlen = (if length str > maxlen then length str else maxlen);
                minlen = (if srcs = [] \<or> length str < minlen then length str else minlen)
            in bitop_sources c i keys (srcs @ [str]) maxlen minlen s))) ?Q"
      proof (cases "obj_bytes v")
        case None
        then show ?thesis using checkType_string(2) [of v] g1 n1 by auto
      next
        case (Some b)
        obtain e where e: "getDecodedObject (replicate 32 0) v = Some e" "sdsEncodedObject e" "obj_bytes e = Some b"
          using getDecodedObject_bytes [OF Some] by (metis length_replicate)
        then have p: "ptr_sds e = Some b" by (cases e) simp_all
        have b: "length b \<le> STRING_MAX" using val_ok_bytes [OF db_ok_val [OF G_db(1) [OF g1 i1] k] Some] .
        show ?thesis
          using Cons.IH [OF g1 i1 sources_ok_snoc(1) [OF Cons.prems(3) b]] n1 e(1) p checkType_string(1) [OF Some]
          by (auto simp: Let_def split del: if_split split: option.splits elim!: wp_mono)
      qed
    qed
  qed
qed simp

lemma bitop_store_wp:
  assumes g: "G s0 {} {} s" and i: "i < length (dbs s)" and src: "sources_ok srcs maxlen minlen"
    and not1: "op = BITOP_NOT \<Longrightarrow> length srcs = 1"
  shows "wp (if maxlen \<noteq> 0 then bitop_compute (cfg s) op srcs maxlen minlen \<bind> (\<lambda>res. setKey i key (Raw res) s \<bind>
        (\<lambda>s. Some (notifyKeyspaceEvent NOTIFY_STRING ''set'' key i s)))
      else (case dbDelete i key s of
          (s, True) \<Rightarrow> Some (notifyKeyspaceEvent NOTIFY_GENERIC ''del'' key i (signalModifiedKey i key s))
        | (s, False) \<Rightarrow> Some s)) (G s0 {} {})"
proof (rule wp_ifI)
  assume "maxlen \<noteq> 0"
  then have "bitop_compute (cfg s) op srcs maxlen minlen = Some (map (slow_byte op srcs) [0..<maxlen])"
    using src not1 by (intro bitop_compute_eq) (auto simp: sources_ok_def intro: G_alloc [OF g])
  moreover have "wp (setKey i key (Raw (map (slow_byte op srcs) [0..<maxlen])) s)
      (\<lambda>s'. G s0 {} {} (notifyKeyspaceEvent NOTIFY_STRING ''set'' key i s'))"
    by (rule setKey_wp [OF g i]) (use src in \<open>auto simp: sources_ok_def intro: G_settle\<close>)
  ultimately show "wp (bitop_compute (cfg s) op srcs maxlen minlen \<bind> (\<lambda>res. setKey i key (Raw res) s \<bind>
        (\<lambda>s. Some (notifyKeyspaceEvent NOTIFY_STRING ''set'' key i s)))) (G s0 {} {})" by simp
next
  obtain s' ok where d: "dbDelete i key s = (s', ok)" by (cases "dbDelete i key s")
  then show "wp (case dbDelete i key s of
          (s, True) \<Rightarrow> Some (notifyKeyspaceEvent NOTIFY_GENERIC ''del'' key i (signalModifiedKey i key s))
        | (s, False) \<Rightarrow> Some s) (G s0 {} {})"
    using dbDelete_signal [OF g i, of key s'] dbDelete_absent [OF g i, of key s'] by (cases ok) auto
qed

lemma bitopCommand_wp:
  assumes g: "G s0 {} {} s"
  shows "wp (bitopCommand c argv s) (G s0 {} {})"
  unfolding bitopCommand_def Let_def
proof (rule wp_optionI, (use g in auto)[1], rule wp_ifI, (use g in auto)[1], rule wp_bindI)
  fix op assume n: "\<not> (op = BITOP_NOT \<and> length argv \<noteq> 4)"
  let ?i = "c_db (client_of s c)" and ?key = "argv ! 2"
  have src: "sources_ok [] 0 0" by (simp add: sources_ok_def)
  show "wp (bitop_sources c ?i (drop 3 argv) [] 0 0 s) (\<lambda>x. wp (case x of (s, r) \<Rightarrow> case r of None \<Rightarrow> Some s
    | Some (srcs, maxlen, minlen) \<Rightarrow> (if maxlen \<noteq> 0 then bitop_compute (cfg s) op srcs maxlen minlen \<bind> (\<lambda>res. setKey ?i ?key (Raw res) s \<bind>
        (\<lambda>s. Some (notifyKeyspaceEvent NOTIFY_STRING ''set'' ?key ?i s)))
      else (case dbDelete ?i ?key s of
          (s, True) \<Rightarrow> Some (notifyKeyspaceEvent NOTIFY_GENERIC ''del'' ?key ?i (signalModifiedKey ?i ?key s))
        | (s, False) \<Rightarrow> Some s)) \<bind> (\<lambda>s. Some (addReply c (IntReply (of_nat maxlen)) (add_dirty 1 s)))) (G s0 {} {}))"
  proof (rule wp_mono [OF bitop_sources_wp [OF g G_db(2) [OF g] src]], clarify)
    fix s1 r
    assume g1: "G s0 {} {} s1" and n1: "length (dbs s1) = length (dbs s)" and r: "case r of None \<Rightarrow> True
      | Some (srcs', mx, mn) \<Rightarrow> sources_ok srcs' mx mn \<and> length srcs' = length [] + length (drop 3 argv)"
    show "wp (case r of None \<Rightarrow> Some s1
    | Some (srcs, maxlen, minlen) \<Rightarrow> (if maxlen \<noteq> 0 then bitop_compute (cfg s1) op srcs maxlen minlen \<bind> (\<lambda>res. setKey ?i ?key (Raw res) s1 \<bind>
        (\<lambda>s. Some (notifyKeyspaceEvent NOTIFY_STRING ''set'' ?key ?i s)))
      else (case dbDelete ?i ?key s1 of
          (s, True) \<Rightarrow> Some (notifyKeyspaceEvent NOTIFY_GENERIC ''del'' ?key ?i (signalModifiedKey ?i ?key s))
        | (s, False) \<Rightarrow> Some s)) \<bind> (\<lambda>s. Some (addReply c (IntReply (of_nat maxlen)) (add_dirty 1 s)))) (G s0 {} {})"
    proof (rule wp_optionI, use g1 in simp)
      fix x assume x: "r = Some x"
      obtain srcs maxlen minlen where x': "x = (srcs, maxlen, minlen)" by (cases x)
      have ok: "sources_ok srcs maxlen minlen" "op = BITOP_NOT \<Longrightarrow> length srcs = 1" using r x x' n by auto
      have "?i < length (dbs s1)" using n1 G_db(2) [OF g] by simp
      from bitop_store_wp [OF g1 this ok, where key = ?key]
      show "wp (case x of (srcs, maxlen, minlen) \<Rightarrow> (if maxlen \<noteq> 0 then bitop_compute (cfg s1) op srcs maxlen minlen \<bind> (\<lambda>res. setKey ?i ?key (Raw res) s1 \<bind>
        (\<lambda>s. Some (notifyKeyspaceEvent NOTIFY_STRING ''set'' ?key ?i s)))
      else (case dbDelete ?i ?key s1 of
          (s, True) \<Rightarrow> Some (notifyKeyspaceEvent NOTIFY_GENERIC ''del'' ?key ?i (signalModifiedKey ?i ?key s))
        | (s, False) \<Rightarrow> Some s)) \<bind> (\<lambda>s. Some (addReply c (IntReply (of_nat maxlen)) (add_dirty 1 s)))) (G s0 {} {})"
        unfolding x' prod.case wp_simps(3) by (rule wp_mono) auto
    qed
  qed
qed

text \<open>The clamped range, for strings of any length that fits a long.\<close>

lemma clamp_range_eq:
  assumes n: "n < 2 ^ 63" and r: "clamp_range (of_nat n) start stop = (a, b)"
  shows "sint a = range_start (sint start) n" "sint b = range_end (sint stop) n"
proof -
  define e :: int64 where "e = (let j = (if sint stop < 0 then of_nat n + stop else stop) in if sint j < 0 then 0 else j)"
  have len: "sint (of_nat n :: int64) = int n" by (rule sint_of_nat_int64 [OF n])
  have a: "a = (let j = (if sint start < 0 then of_nat n + start else start) in if sint j < 0 then 0 else j)"
    and b: "b = (if sint e \<ge> sint (of_nat n :: int64) then of_nat n - 1 else e)"
    using r unfolding clamp_range_def e_def Let_def by simp_all
  show "sint a = range_start (sint start) n" unfolding a range_start_def by (rule clamp_index [OF n])
  have e: "sint e = (if sint stop < 0 then max 0 (int n + sint stop) else sint stop)"
    unfolding e_def by (rule clamp_index [OF n])
  have "sint (of_nat n - 1 :: int64) = int n - 1"
    using sint_add_int64 [of "of_nat n" "-1"] n len by simp
  then show "sint b = range_end (sint stop) n" unfolding b range_end_def e [symmetric] len by auto
qed

lemma range_nonneg: "0 \<le> range_start start n" "range_end stop n < int n"
  by (auto simp: range_start_def range_end_def)

lemma full_range:
  assumes "n < 2 ^ 63"
  shows "sint (0 :: int64) = range_start 0 n" "sint (of_nat n - 1 :: int64) = range_end (-1) n"
proof -
  show "sint (0 :: int64) = range_start 0 n" by (simp add: range_start_def)
  have "sint (of_nat n - 1 :: int64) = int n - 1"
    using sint_add_int64 [of "of_nat n" "-1"] assms sint_of_nat_int64 [OF assms] by simp
  then show "sint (of_nat n - 1 :: int64) = range_end (-1) n" by (simp add: range_end_def)
qed

lemma range_part:
  fixes a b :: int64
  assumes n: "length p < 2 ^ 63" and a: "sint a = range_start start (length p)" and b: "sint b = range_end stop (length p)"
    and le: "\<not> sint a > sint b"
  shows "mem_read p (unat a) (unat (b - a + 1)) = Some (take (nat (sint b - sint a + 1)) (drop (nat (sint a)) p))"
  by (rule read_between(3) [OF n]) (use a b le range_nonneg [of start "length p"] range_nonneg(2) [of stop "length p"] in auto)

lemma bitcount_range_wp:
  assumes g: "G s0 {} {} s" and n: "n < 2 ^ 63"
    and Q: "\<And>s'. G s0 {} {} s' \<Longrightarrow> Q (s', None)"
      "\<And>s' a b start stop. G s0 {} {} s' \<Longrightarrow> cfg s' = cfg s \<Longrightarrow> sint a = range_start start n \<Longrightarrow> sint b = range_end stop n \<Longrightarrow>
        Q (s', Some (a, b))"
  shows "wp (bitcount_range c argv (of_nat n) s) Q"
  unfolding bitcount_range_def getLong_OrReply_eq
proof (rule wp_ifI, rule wp_bindI, rule getLongLong_wp [OF g arg_obj_long], unfold prod.case, rule wp_optionI, simp add: Q(1),
    rule wp_bindI, rule getLongLong_wp [OF _ arg_obj_long], assumption, unfold prod.case, rule wp_optionI, simp add: Q(1))
  fix s2 start stop and s1 :: server
  assume g2: "G s0 {} {} s2" and c: "cfg s2 = cfg s1" "cfg s1 = cfg s"
  obtain a b where ab: "clamp_range (of_nat n) start stop = (a, b)" by (cases "clamp_range (of_nat n) start stop")
  show "wp (if sint start < 0 \<and> sint stop < 0 \<and> sint stop < sint start then Some (addReply c (IntReply 0) s2, None)
      else Some (s2, Some (clamp_range (of_nat n) start stop))) Q"
    using Q(1) [of "addReply c (IntReply 0) s2"] Q(2) [OF g2 _ clamp_range_eq [OF n ab]] g2 c ab by auto
next
  show "wp (if length argv = 2 then Some (s, Some (0, of_nat n - 1)) else Some (addReply c (ErrorReply ''syntax error'') s, None)) Q"
    using Q(1) [of "addReply c (ErrorReply ''syntax error'') s"] Q(2) [OF g refl full_range [OF n]] g by auto
qed

lemma bitpos_range_wp:
  assumes g: "G s0 {} {} s" and n: "n < 2 ^ 63"
    and Q: "\<And>s'. G s0 {} {} s' \<Longrightarrow> Q (s', None)"
      "\<And>s' a b e start stop. G s0 {} {} s' \<Longrightarrow> cfg s' = cfg s \<Longrightarrow> sint a = range_start start n \<Longrightarrow> sint b = range_end stop n \<Longrightarrow>
        Q (s', Some (a, b, e))"
  shows "wp (bitpos_range c argv (of_nat n) s) Q"
  unfolding bitpos_range_def getLong_OrReply_eq
proof (rule wp_ifI, rule wp_bindI, rule getLongLong_wp [OF g arg_obj_long], unfold prod.case, rule wp_optionI, simp add: Q(1))
  have clamp: "wp (case clamp_range (of_nat n) start stop of (start, finish) \<Rightarrow> Some (s', Some (start, finish, e))) Q"
    if "G s0 {} {} s'" "cfg s' = cfg s" for s' start stop e
    using Q(2) [OF that clamp_range_eq [OF n]] by (cases "clamp_range (of_nat n) start stop") simp
  fix s1 start assume g1: "G s0 {} {} s1" and c1: "cfg s1 = cfg s"
  show "wp (if length argv = 5 then getLongLongOrReply c (Some (arg_obj argv 4)) None s1 \<bind> (\<lambda>(s, r). case r of None \<Rightarrow> Some (s, None)
        | Some finish \<Rightarrow> (case clamp_range (of_nat n) start finish of (start, finish) \<Rightarrow> Some (s, Some (start, finish, True))))
      else (case clamp_range (of_nat n) start (of_nat n - 1) of (start, finish) \<Rightarrow> Some (s1, Some (start, finish, False)))) Q"
    by (rule wp_ifI, rule wp_bindI, rule getLongLong_wp [OF g1 arg_obj_long], unfold prod.case, rule wp_optionI, simp add: Q(1))
      (use clamp g1 c1 in simp_all)
next
  show "wp (if length argv = 3 then Some (s, Some (0, of_nat n - 1, False)) else Some (addReply c (ErrorReply ''syntax error'') s, None)) Q"
    using Q(1) [of "addReply c (ErrorReply ''syntax error'') s"] Q(2) [OF g refl full_range [OF n]] g by auto
qed

lemma bitcountCommand_wp:
  assumes g: "G s0 {} {} s"
  shows "wp (bitcountCommand c argv s) (G s0 {} {})"
  unfolding bitcountCommand_def
proof (rule wp_bindI, rule lookupReadOrReply_wp [OF g], unfold prod.case, rule wp_optionI, simp)
  fix s1 v val assume g1: "G s0 {} {} s1" and d: "dbs s1 = (dbs s)[c_db (client_of s c) := dbs s1 ! c_db (client_of s c)]"
    and v: "val \<noteq> None \<Longrightarrow> val = db_dict (dbs s1 ! c_db (client_of s c)) (argv ! 1)" "val = Some v"
  have i: "c_db (client_of s c) < length (dbs s1)" using G_db(2) [OF g] d by (metis length_list_update)
  have count: "wp (getObjectReadOnlyString v \<bind> (\<lambda>p. bitcount_range c argv (of_nat (length p)) s1 \<bind> (\<lambda>(s, r). case r of None \<Rightarrow> Some s
     | Some (start, finish) \<Rightarrow> if sint start > sint finish then Some (addReply c (IntReply 0) s)
        else let bytes = finish - start + 1 in mem_read p (unat start) (unat bytes) \<bind> (\<lambda>part.
          Some (addReply c (IntReply (redisPopcount (unaligned 4 (addr_of (cfg s) p + unat start)) part)) s))))) (G s0 {} {})"
    if b: "obj_bytes v = Some b" "length b \<le> STRING_MAX" for b
  proof -
    have n: "length b < 2 ^ 63" using b(2) by simp
    show ?thesis unfolding readOnlyString_bytes [OF b(1)] Option.bind.bind_lunit
      by (rule wp_bindI, rule bitcount_range_wp [OF g1 n]) (auto simp: range_part [OF n] Let_def)
  qed
  show "wp (case checkType c v OBJ_STRING s1 of (s, True) \<Rightarrow> Some s | (s, False) \<Rightarrow>
      getObjectReadOnlyString v \<bind> (\<lambda>p. bitcount_range c argv (of_nat (length p)) s \<bind> (\<lambda>(s, r). case r of None \<Rightarrow> Some s
     | Some (start, finish) \<Rightarrow> if sint start > sint finish then Some (addReply c (IntReply 0) s)
        else let bytes = finish - start + 1 in mem_read p (unat start) (unat bytes) \<bind> (\<lambda>part.
          Some (addReply c (IntReply (redisPopcount (unaligned 4 (addr_of (cfg s) p + unat start)) part)) s))))) (G s0 {} {})"
    by (rule string_wp [OF g1 i]) (use v in force, rule count, assumption+)
qed

lemma bitposCommand_wp:
  assumes g: "G s0 {} {} s"
  shows "wp (bitposCommand c argv s) (G s0 {} {})"
  unfolding bitposCommand_def getLong_OrReply_eq
proof (rule wp_bindI, rule getLongLong_wp [OF g arg_obj_long], unfold prod.case, rule wp_optionI, simp, rule wp_ifI)
  fix s1 bt assume g1: "G s0 {} {} s1"
  show "wp (Some (addReply c (ErrorReply ''The bit argument must be 1 or 0.'') s1)) (G s0 {} {})" using g1 by auto
  let ?search = "\<lambda>v s. getObjectReadOnlyString v \<bind> (\<lambda>p. bitpos_range c argv (of_nat (length p)) s \<bind> (\<lambda>(s, r). case r of None \<Rightarrow> Some s
     | Some (start, finish, end_given) \<Rightarrow> if sint start > sint finish then Some (addReply c (IntReply (-1)) s)
        else let bytes = finish - start + 1 in mem_read p (unat start) (unat bytes) \<bind> (\<lambda>part.
          redisBitpos (unaligned 8 (addr_of (cfg s) p + unat start)) part (bt = 1) \<bind> (\<lambda>pos.
            if end_given \<and> bt = 0 \<and> pos = bytes * 8 then Some (addReply c (IntReply (-1)) s)
            else Some (addReply c (IntReply (if pos \<noteq> -1 then pos + start * 8 else pos)) s)))))"
  show "wp (lookupKeyRead (c_db (client_of s1 c)) (argv ! 1) s1 \<bind> (\<lambda>(s, obj). case obj of
      None \<Rightarrow> Some (addReply c (IntReply (if bt \<noteq> 0 then -1 else 0)) s)
    | Some v \<Rightarrow> (case checkType c v OBJ_STRING s of (s, True) \<Rightarrow> Some s | (s, False) \<Rightarrow> ?search v s))) (G s0 {} {})"
  proof (rule wp_bindI, rule lookupKeyRead_wp [OF g1 G_db(2) [OF g1]], unfold prod.case, rule wp_optionI, simp add: G_quiet)
    fix s2 val v
    assume g2: "G s0 {} {} s2" and l2: "looked (c_db (client_of s1 c)) (argv ! 1) s1 s2"
      and v: "val = db_dict (dbs s2 ! c_db (client_of s1 c)) (argv ! 1) \<or> val = None \<and> masterhost (cfg s1)" "val = Some v"
    have i: "c_db (client_of s1 c) < length (dbs s2)" using l2 G_db(2) [OF g1] by simp
    have search: "wp (?search v s2) (G s0 {} {})" if b: "obj_bytes v = Some b" "length b \<le> STRING_MAX" for b
    proof -
      have n: "length b < 2 ^ 63" using b(2) by simp
      have pos: "\<exists>pos. redisBitpos al part b = Some pos" for al part b using redisBitpos_first [of b part al] by auto
      show ?thesis unfolding readOnlyString_bytes [OF b(1)] Option.bind.bind_lunit
      proof (rule wp_bindI, rule bitpos_range_wp [OF g2 n])
        fix s3 e start stop and a z :: int64
        assume g3: "G s0 {} {} s3" and az: "sint a = range_start start (length b)" "sint z = range_end stop (length b)"
        obtain pos where "redisBitpos (unaligned 8 (addr_of (cfg s3) b + unat a)) (take (nat (sint z - sint a + 1)) (drop (nat (sint a)) b)) (bt = 1) = Some pos"
          using pos by blast
        then show "wp (case (s3, Some (a, z, e)) of (s, r) \<Rightarrow> (case r of None \<Rightarrow> Some s
     | Some (start, finish, end_given) \<Rightarrow> if sint start > sint finish then Some (addReply c (IntReply (-1)) s)
        else let bytes = finish - start + 1 in mem_read b (unat start) (unat bytes) \<bind> (\<lambda>part.
          redisBitpos (unaligned 8 (addr_of (cfg s) b + unat start)) part (bt = 1) \<bind> (\<lambda>pos.
            if end_given \<and> bt = 0 \<and> pos = bytes * 8 then Some (addReply c (IntReply (-1)) s)
            else Some (addReply c (IntReply (if pos \<noteq> -1 then pos + start * 8 else pos)) s))))) (G s0 {} {})"
          using range_part [OF n az] g3 by (simp add: Let_def G_quiet)
      qed simp
    qed
    show "wp (case checkType c v OBJ_STRING s2 of (s, True) \<Rightarrow> Some s | (s, False) \<Rightarrow> ?search v s) (G s0 {} {})"
      by (rule string_wp [OF g2 i]) (use v in force, rule search, assumption+)
  qed
qed

section \<open>What the commands compute\<close>

text \<open>A bit of a string that goes on with zeros.\<close>

definition get_bit :: "sds \<Rightarrow> nat \<Rightarrow> bool" where
  "get_bit b i \<longleftrightarrow> i < 8 * length b \<and> bit_at b i"

lemma bit_test: "((ucast b :: uint64) AND push_bit k 1 \<noteq> 0) = bit b k" if "k < 8" for b :: byte
  using that by (simp add: push_bit_of_1 and_exp_eq_0_iff_not_bit bit_ucast_iff)

lemma offset_position:
  assumes "unat (drop_bit 3 offset) < 2 ^ 29"
  shows "unat (drop_bit 3 offset) = unat offset div 8" "unat (7 - (offset AND 7 :: uint64)) = 7 - unat offset mod 8"
proof -
  have "unat offset < 2 ^ 64" using unsigned_less [of offset] by simp
  from offset_byte [OF this] offset_bit [OF this]
  show "unat (drop_bit 3 offset) = unat offset div 8" "unat (7 - (offset AND 7 :: uint64)) = 7 - unat offset mod 8" by simp_all
qed

text \<open>The string of a key, empty when there is none; \<open>None\<close> for another type.\<close>

definition string_at :: "server \<Rightarrow> nat \<Rightarrow> key \<Rightarrow> sds option" where
  "string_at s i key = (case db_dict (dbs s ! i) key of None \<Rightarrow> Some [] | Some v \<Rightarrow> obj_bytes v)"

lemma getbit_live:
  assumes "db_ok (dbs s ! c_db (client_of s c))" "\<not> is_expired s (c_db (client_of s c)) key" "\<not> masterhost (cfg s)"
    and "string_at s (c_db (client_of s c)) key = Some b" "getBitOffsetFromArgument a False 0 = Some offset"
  shows "\<exists>s'. getbitCommand c [cmd, key, a] s = Some s' \<and> dbs s' = dbs s \<and>
    c_reply (client_of s' c) = c_reply (client_of s c) @ [IntReply (if get_bit b (unat offset) then 1 else 0)]"
proof -
  let ?i = "c_db (client_of s c)"
  note pos = offset_position [OF getBitOffset_bound [OF assms(5)]]
  show ?thesis
  proof (cases "db_dict (dbs s ! ?i) key")
    case None
    then show ?thesis using assms lookupKeyRead_live [OF assms(1-3)]
      by (simp add: getbitCommand_def lookupKeyReadOrReply_def string_at_def get_bit_def)
  next
    case (Some v)
    then have b: "obj_bytes v = Some b" using assms(4) by (simp add: string_at_def)
    have "7 - unat offset mod 8 < 8" by simp
    note test = bit_test [OF this]
    have "(unat offset div 8 < length b) = (unat offset < 8 * length b)" by auto
    then show ?thesis using Some assms(5) lookupKeyRead_live [OF assms(1-3)] checkType_string(1) [OF b] range_str_bytes [OF b] test
      unfolding getbitCommand_def by (simp add: lookupKeyReadOrReply_def pos get_bit_def bit_at_def Let_def)
  qed
qed

lemma set_bit_byte:
  fixes b :: byte
  assumes "k < 8" "j < 8"
  shows "bit (ucast (((ucast b :: uint64) AND NOT (push_bit k 1)) OR push_bit k (if x then 1 else 0)) :: byte) j = (if j = k then x else bit b j)"
  using assms by (auto simp: bit_ucast_iff bit_and_iff bit_or_iff bit_not_iff bit_exp_iff)

lemma bit_at_grow:
  assumes "i < 8 * (length b + n)"
  shows "bit_at (b @ replicate n 0) i = get_bit b i"
  using assms by (auto simp: bit_at_def get_bit_def nth_append less_mult_imp_div_less)

lemma set_value_twice: "dbs (set_value i key o2 (set_value i key o1 t)) = dbs (set_value i key o2 t)"
  by (cases "i < length (dbs t)") (simp_all add: set_value_dbs list_update_beyond)

lemma lookupString_live:
  assumes ok: "server_ok s" "\<not> is_expired s (c_db (client_of s c)) key" and b: "string_at s (c_db (client_of s c)) key = Some b"
    and o: "unat (drop_bit 3 offset) < 2 ^ 29"
  shows "\<exists>s'. lookupStringForBitCommand c key offset s =
      Some (s', Some (b @ replicate (unat (drop_bit 3 offset) + 1 - length b) 0)) \<and> cfg s' = cfg s \<and> client_of s' = client_of s \<and>
    (\<forall>obj. dbs (set_value (c_db (client_of s c)) key obj s') = dbs (set_value (c_db (client_of s c)) key obj s))"
proof -
  let ?i = "c_db (client_of s c)" and ?n = "unat (drop_bit 3 offset) + 1"
  have i: "?i < length (dbs s)" and dok: "db_ok (dbs s ! ?i)" and al: "?n \<le> max_alloc (cfg s)"
    using ok(1) o by (auto simp: server_ok_def)
  note look = lookupKeyWrite_live [OF dok ok(2)]
  show ?thesis
  proof (cases "db_dict (dbs s ! ?i) key")
    case None
    then show ?thesis using look b al i unfolding lookupStringForBitCommand_def byte_room [OF o]
      by (auto simp: string_at_def sdsnewlen_zero_def dbAdd_def Let_def set_value_def set_db_def log_call_def)
  next
    case (Some v)
    then have v: "obj_bytes v = Some b" using b by (simp add: string_at_def)
    obtain t where t: "dbUnshareStringValue ?i key v s = Some (t, Raw b)" "cfg t = cfg s" "client_of t = client_of s"
      "\<And>o1. dbs (set_value ?i key o1 t) = dbs (set_value ?i key o1 s)" using dbUnshare_live [OF Some v i] by blast
    have "dbs (set_value ?i key o2 (set_value ?i key o1 t)) = dbs (set_value ?i key o2 s)" for o1 o2
      unfolding set_value_twice t(4) ..
    then show ?thesis using look Some t(1-3) al checkType_string(1) [OF v] unfolding lookupStringForBitCommand_def byte_room [OF o]
      by (auto simp: sdsgrowzero_def)
  qed
qed

text \<open>
  C36. SETBIT and GETBIT on a key that holds a string or nothing, for every offset that the commands accept: SETBIT
  replies the old bit and changes this bit only; the string grows with zeros to the byte of the bit; other keys
  stay. GETBIT then replies the new bit at this offset and the old bits at all others.
\<close>

theorem setbit_getbit_exact:
  assumes ok: "server_ok s" and live: "\<not> is_expired s (c_db (client_of s c)) key" "\<not> masterhost (cfg s)"
    and b: "string_at s (c_db (client_of s c)) key = Some b"
    and args: "getBitOffsetFromArgument a False 0 = Some offset" "string2ll onarg = Some (if on then 1 else 0)"
      "getBitOffsetFromArgument a' False 0 = Some offset'"
  shows "\<exists>s' s'' b'. setbitCommand c [cmd, key, a, onarg] s = Some s' \<and>
      dbs s' = dbs (set_value (c_db (client_of s c)) key (Raw b') s) \<and>
      length b' = max (length b) (unat offset div 8 + 1) \<and>
      (\<forall>j. get_bit b' j = (if j = unat offset then on else get_bit b j)) \<and>
      c_reply (client_of s' c) = c_reply (client_of s c) @ [IntReply (if get_bit b (unat offset) then 1 else 0)] \<and>
    getbitCommand c [cmd', key, a'] s' = Some s'' \<and>
      c_reply (client_of s'' c) = c_reply (client_of s' c) @
        [IntReply (if (if offset' = offset then on else get_bit b (unat offset')) then 1 else 0)]"
proof -
  let ?i = "c_db (client_of s c)" and ?o = "unat offset"
  note room = getBitOffset_bound [OF args(1)] and pos = offset_position [OF getBitOffset_bound [OF args(1)]]
  let ?g = "b @ replicate (?o div 8 + 1 - length b) 0"
  have i: "?i < length (dbs s)" using ok by (auto simp: server_ok_def)
  obtain t where t: "lookupStringForBitCommand c key offset s = Some (t, Some ?g)" "cfg t = cfg s" "client_of t = client_of s"
    "\<And>obj. dbs (set_value ?i key obj t) = dbs (set_value ?i key obj s)"
    using lookupString_live [OF ok live(1) b room] unfolding pos by blast
  have len: "length ?g = max (length b) (?o div 8 + 1)" by simp
  have j: "?o div 8 < length ?g" by simp
  let ?k = "7 - ?o mod 8"
  let ?nb = "ucast (((ucast (?g ! (?o div 8)) :: uint64) AND NOT (push_bit ?k 1)) OR push_bit ?k (if on then 1 else 0)) :: byte"
  let ?b' = "?g[?o div 8 := ?nb]"
  have o8: "?o < 8 * length ?g" using j by linarith
  have upd: "bit_at ?b' n = (if n = ?o then on else bit_at ?g n)" if "n < 8 * length ?g" for n
    by (rule bit_at_update [OF that o8]) (rule set_bit_byte, simp_all)
  have grow: "bit_at ?g n = get_bit b n" if "n < 8 * length ?g" for n
    using bit_at_grow [of n b "?o div 8 + 1 - length b"] that by simp
  have bits: "get_bit ?b' n = (if n = ?o then on else get_bit b n)" for n
    using upd [of n] grow [of n] o8 by (auto simp: get_bit_def)
  have old: "((ucast (?g ! (?o div 8)) :: uint64) AND push_bit ?k 1 \<noteq> 0) = get_bit b ?o"
    using bit_test [of ?k "?g ! (?o div 8)"] grow [OF o8] by (simp add: bit_at_def)
  have on: "(if on then 1 else 0 :: int64) AND NOT 1 = 0" "(if on then 1 else 0 :: int64) AND 1 = (if on then 1 else 0)" by simp_all
  let ?s' = "addReply c (IntReply (if get_bit b ?o then 1 else 0)) (add_dirty 1 (notifyKeyspaceEvent NOTIFY_STRING ''setbit'' key ?i
      (signalModifiedKey ?i key (set_value ?i key (Raw ?b') t))))"
  have "getLongOrReply c (Some (arg_obj [cmd, key, a, onarg] 3)) (Some ''bit is not an integer or out of range'') s = Some (s, Some (if on then 1 else 0))"
    using args(2) arg_obj_long [of "[cmd, key, a, onarg]" 3] by (simp add: getLong_OrReply_eq getLongLongOrReply_def)
  then have s': "setbitCommand c [cmd, key, a, onarg] s = Some ?s'"
    using args(1) t(1) j old on unfolding setbitCommand_def by (simp add: pos mem_get_def mem_set_def Let_def)
  have dbs': "dbs ?s' = dbs (set_value ?i key (Raw ?b') s)" using t(4) by simp
  have "server_ok ?s'" using setbitCommand_wp [OF G_start [OF ok], of c "[cmd, key, a, onarg]"] s' by (simp add: wp_def G_def)
  then have dok: "db_ok (dbs ?s' ! c_db (client_of ?s' c))" by (simp only: server_ok_def)
  have ci: "c_db (client_of ?s' c) = ?i" using t(3) by simp
  have "\<not> is_expired ?s' (c_db (client_of ?s' c)) key" "\<not> masterhost (cfg ?s')"
    using live t(2) dbs' i unfolding ci is_expired_def by (simp_all add: set_value_def)
  moreover have "string_at ?s' (c_db (client_of ?s' c)) key = Some ?b'" unfolding ci string_at_def dbs' using i by simp
  ultimately obtain s'' where "getbitCommand c [cmd', key, a'] ?s' = Some s''"
    "c_reply (client_of s'' c) = c_reply (client_of ?s' c) @ [IntReply (if get_bit ?b' (unat offset') then 1 else 0)]"
    using getbit_live [OF dok _ _ _ args(3)] by blast
  then show ?thesis using s' dbs' len bits t(3)
    by (intro exI [of _ ?s'] exI [of _ s''] exI [of _ ?b']) (simp add: word_unat_eq_iff)
qed

theorem setbit_getbit_exact_witness:
  "\<exists>s' s'' b'. setbitCommand 0 [[], [107], [50, 48], [49]] sample_counter = Some s' \<and>
      dbs s' = dbs (set_value 0 [107] (Raw b') sample_counter) \<and> length b' = 3 \<and>
      (\<forall>j. get_bit b' j = (if j = 20 then True else get_bit [49, 50] j)) \<and>
      c_reply (client_of s' 0) = [IntReply 0] \<and>
    getbitCommand 0 [[], [107], [50, 48]] s' = Some s'' \<and> c_reply (client_of s'' 0) = [IntReply 0, IntReply 1]"
proof -
  have o: "getBitOffsetFromArgument [50, 48] False 0 = Some 20" by code_simp
  have on: "string2ll [49] = Some (if True then 1 else 0)" by code_simp
  have "string_at sample_counter (c_db (client_of sample_counter 0)) [107] = Some [49, 50]"
    by (simp add: string_at_def new_client_def sdec_12)
  moreover have "\<not> is_expired sample_counter (c_db (client_of sample_counter 0)) [107]" "\<not> masterhost (cfg sample_counter)"
    by (simp_all add: is_expired_def new_client_def sample_config_def)
  moreover have "\<not> get_bit [49, 50] 20" by (simp add: get_bit_def)
  ultimately obtain s' s'' b' where "setbitCommand 0 [[], [107], [50, 48], [49]] sample_counter = Some s'"
      "dbs s' = dbs (set_value 0 [107] (Raw b') sample_counter)" "length b' = 3"
      "\<forall>j. get_bit b' j = (if j = 20 then True else get_bit [49, 50] j)" "c_reply (client_of s' 0) = [IntReply 0]"
      "getbitCommand 0 [[], [107], [50, 48]] s' = Some s''" "c_reply (client_of s'' 0) = [IntReply 0, IntReply 1]"
    using setbit_getbit_exact [OF sample_counter_ok _ _ _ o on o, of 0 "[107]" "[49, 50]" "[]" "[]"]
    by (auto simp: new_client_def numeral_3_eq_3)
  then show ?thesis by (intro exI [of _ s'] exI [of _ s''] exI [of _ b'] conjI)
qed

text \<open>The bytes that a range addresses.\<close>

definition range_bytes :: "int \<Rightarrow> int \<Rightarrow> sds \<Rightarrow> sds" where
  "range_bytes start stop b =
     take (nat (range_end stop (length b) - range_start start (length b) + 1)) (drop (nat (range_start start (length b))) b)"

lemma popcount_word:
  assumes "length part \<le> STRING_MAX"
  shows "redisPopcount al part = of_nat (set_bits_below part (8 * length part))"
  using redisPopcount_bits [of al part] set_bits_bytes [of part] by simp

lemma read_live:
  assumes "db_ok (dbs s ! c_db (client_of s c))" "\<not> is_expired s (c_db (client_of s c)) key" "\<not> masterhost (cfg s)"
    and "db_dict (dbs s ! c_db (client_of s c)) key = Some v"
  shows "lookupKeyReadOrReply c key r s = Some (s\<lparr>stat_hits := stat_hits s + 1\<rparr>, Some v)"
  using lookupKeyRead_live [OF assms(1-3)] assms(4) by (simp add: lookupKeyReadOrReply_def)

text \<open>
  C38. BITCOUNT with a range replies the number of bits that are set in the addressed bytes, for every pair of 64 bit
  indexes: negative ones count from the end, and a range without bytes has no bits.
\<close>

theorem bitcount_exact:
  assumes ok: "server_ok s" and live: "\<not> is_expired s (c_db (client_of s c)) key" "\<not> masterhost (cfg s)"
    and obj: "db_dict (dbs s ! c_db (client_of s c)) key = Some obj" "obj_bytes obj = Some b"
    and args: "string2ll a1 = Some start" "string2ll a2 = Some stop"
  shows "bitcountCommand c [cmd, key, a1, a2] s =
    Some (addReply c (IntReply (of_nat (if range_empty (sint start) (sint stop) (length b) then 0
      else set_bits_below (range_bytes (sint start) (sint stop) b) (8 * length (range_bytes (sint start) (sint stop) b)))))
      (s\<lparr>stat_hits := stat_hits s + 1\<rparr>))"
proof -
  let ?s = "s\<lparr>stat_hits := stat_hits s + 1\<rparr>" and ?argv = "[cmd, key, a1, a2]"
  have dok: "db_ok (dbs s ! c_db (client_of s c))" using ok by (auto simp: server_ok_def)
  have len: "length b \<le> STRING_MAX" using val_ok_bytes [OF db_ok_val [OF dok obj(1)] obj(2)] .
  then have n: "length b < 2 ^ 63" by simp
  have a: "getLongOrReply c (Some (arg_obj ?argv 2)) None ?s = Some (?s, Some start)"
    "getLongOrReply c (Some (arg_obj ?argv 3)) None ?s = Some (?s, Some stop)"
    using args arg_obj_long [of ?argv 2] arg_obj_long [of ?argv 3] by (simp_all add: getLong_OrReply_eq getLongLongOrReply_def)
  obtain x y where xy: "clamp_range (of_nat (length b)) start stop = (x, y)" by (cases "clamp_range (of_nat (length b)) start stop")
  note se = clamp_range_eq [OF n xy]
  have part: "mem_read b (unat x) (unat (y - x + 1)) = Some (range_bytes (sint start) (sint stop) b)" if "\<not> sint x > sint y"
    using range_part [OF n se that] unfolding se range_bytes_def .
  have pc: "redisPopcount al (range_bytes (sint start) (sint stop) b) =
     of_nat (set_bits_below (range_bytes (sint start) (sint stop) b) (8 * length (range_bytes (sint start) (sint stop) b)))" for al
    using len by (intro popcount_word) (simp add: range_bytes_def)
  have e: "range_empty (sint start) (sint stop) (length b) \<longleftrightarrow>
    sint start < 0 \<and> sint stop < 0 \<and> sint start > sint stop \<or> sint x > sint y"
    unfolding range_empty_def se using range_nonneg(1) [of "sint start" 0] by (auto simp: range_end_def)
  show ?thesis
    using read_live [OF dok live obj(1)] checkType_string(1) [OF obj(2)] readOnlyString_bytes [OF obj(2)] a xy part pc e
    by (auto simp: bitcountCommand_def bitcount_range_def Let_def)
qed

theorem bitcount_exact_witness:
  "bitcountCommand 0 [[], [107], [49], [45, 49]] sample_counter =
    Some (addReply 0 (IntReply 3) (sample_counter\<lparr>stat_hits := stat_hits sample_counter + 1\<rparr>))"
proof -
  have "set_bits_below [50] 8 = 3" using set_bits_bytes [of "[50]"] by (simp add: byte_bits_def upt_8)
  moreover have "obj_bytes (IntObj 12) = Some [49, 50]" unfolding obj_bytes.simps sdec_12 ..
  moreover have "string2ll [49] = Some 1" "string2ll [45, 49] = Some (-1)" by code_simp+
  moreover have "range_bytes 1 (-1) [49, 50] = [50]" "\<not> range_empty 1 (-1) (Suc (Suc 0))"
    by (simp_all add: range_bytes_def range_start_def range_end_def range_empty_def)
  ultimately show ?thesis
    using bitcount_exact [OF sample_counter_ok, of 0 "[107]" "IntObj 12" "[49, 50]" "[49]" 1 "[45, 49]" "-1" "[]"]
    by (simp add: is_expired_def new_client_def sample_config_def)
qed

lemma bitpos_run:
  assumes "getLongOrReply c (Some (arg_obj argv 2)) None s = Some (s, Some (if bt then 1 else 0))"
    and "lookupKeyRead (c_db (client_of s c)) (argv ! 1) s = Some (s', Some v)" "obj_bytes v = Some b"
    and "bitpos_range c argv (of_nat (length b)) s' = Some (s', Some (x, y, e))" "\<not> sint x > sint y"
    and "mem_read b (unat x) (unat (y - x + 1)) = Some part"
    and "redisBitpos (unaligned 8 (addr_of (cfg s') b + unat x)) part bt = Some pos"
  shows "bitposCommand c argv s = Some (addReply c (IntReply (if e \<and> \<not> bt \<and> pos = (y - x + 1) * 8 then -1
    else if pos \<noteq> -1 then pos + x * 8 else pos)) s')"
proof -
  have b: "(if bt then 1 else 0 :: int64) = 1 \<longleftrightarrow> bt" "(if bt then 1 else 0 :: int64) = 0 \<longleftrightarrow> \<not> bt"
    "((if bt then 1 else 0 :: int64) \<noteq> 0 \<and> (if bt then 1 else 0 :: int64) \<noteq> 1) = False" by simp_all
  show ?thesis
    unfolding bitposCommand_def assms(1) Option.bind.bind_lunit prod.case option.case b if_False assms(2)
      checkType_string(1) [OF assms(3)] readOnlyString_bytes [OF assms(3)] bool.case assms(4) Let_def assms(6) assms(7) if_not_P [OF assms(5)]
    by simp
qed

lemma of_nat_int64:
  "m < 2 ^ 62 \<Longrightarrow> of_nat m \<noteq> (-1 :: int64)"
  "l < 2 ^ 62 \<Longrightarrow> m < 2 ^ 62 \<Longrightarrow> of_nat l = (of_nat m :: int64) \<longleftrightarrow> l = m"
proof -
  have u: "unat (of_nat m :: int64) = m" if "m < 2 ^ 62" for m using that by (simp add: unat_of_nat_small)
  have "unat (-1 :: int64) = 2 ^ 64 - 1" by (simp add: unsigned_minus_1_eq_mask mask_eq_exp_minus_1)
  then show "m < 2 ^ 62 \<Longrightarrow> of_nat m \<noteq> (-1 :: int64)" using u [of m] by auto
  show "l < 2 ^ 62 \<Longrightarrow> m < 2 ^ 62 \<Longrightarrow> of_nat l = (of_nat m :: int64) \<longleftrightarrow> l = m" using u [of l] u [of m] by metis
qed

text \<open>The part of a string between two indexes, as the code computes its length in bits.\<close>

lemma range_width:
  fixes x y :: int64
  assumes n: "length b < 2 ^ 60" and se: "sint x = range_start start (length b)" "sint y = range_end stop (length b)" and le: "\<not> sint x > sint y"
  shows "(y - x + 1) * 8 = of_nat (8 * length (range_bytes start stop b))"
proof -
  let ?r = "range_bytes start stop b"
  have xy: "0 \<le> sint x" "sint x \<le> sint y" "sint y < int (length b)"
    using le range_nonneg(1) [of start "length b"] range_nonneg(2) [of stop "length b"] unfolding se by auto
  have n': "length b < 2 ^ 63" "length ?r < 2 ^ 64" using n by (simp_all add: range_bytes_def)
  have "length ?r = nat (sint y - sint x + 1)" using xy unfolding se by (auto simp: range_bytes_def min_def nat_diff_distrib')
  then have "unat (y - x + 1) = unat (of_nat (length ?r) :: int64)" using read_between(1) [OF n'(1) xy] n'(2) by (simp add: unat_of_nat_small)
  then have "y - x + 1 = of_nat (length ?r)" by (simp only: word_unat_eq_iff)
  then show ?thesis by simp
qed

text \<open>BITPOS without a range searches the whole string.\<close>

lemma bitpos_whole:
  assumes look: "lookupKeyRead (c_db (client_of s c)) key s = Some (s', Some obj)" and obj: "obj_bytes obj = Some b" "b \<noteq> []"
    and n: "length b < 2 ^ 60" and arg: "getLongOrReply c (Some (arg_obj [cmd, key, ba] 2)) None s = Some (s, Some (if bt then 1 else 0))"
  shows "\<exists>j. first_position bt b j \<and>
    bitposCommand c [cmd, key, ba] s = Some (addReply c (IntReply (if bt \<and> j = 8 * length b then -1 else of_nat j)) s')"
proof -
  have n': "length b < 2 ^ 63" using n by simp
  define z :: int64 where "z = of_nat (length b) - 1"
  have full: "mem_read b (unat (0 :: int64)) (unat (z - 0 + 1)) = Some b"
    using range_part [OF n' full_range [OF n']] full_range [OF n'] obj(2) unfolding z_def
    by (auto simp: range_start_def range_end_def mem_read_def unat_of_nat_small split: if_splits)
  let ?zl = "unaligned 8 (addr_of (cfg s') b + unat (0 :: int64))"
  obtain j where j: "first_position bt b j" "redisBitpos ?zl b bt = Some (if bt \<and> j = 8 * length b then -1 else of_nat j)"
    using redisBitpos_first by blast
  have r: "bitpos_range c [cmd, key, ba] (of_nat (length b)) s' = Some (s', Some (0, z, False))" by (simp add: bitpos_range_def z_def)
  have le: "\<not> sint (0 :: int64) > sint z"
    unfolding full_range [OF n'] z_def using obj(2) by (simp add: range_start_def range_end_def)
  define p :: int64 where "p = (if bt \<and> j = 8 * length b then -1 else of_nat j)"
  have "bitposCommand c [cmd, key, ba] s = Some (addReply c (IntReply (if False \<and> \<not> bt \<and> p = (z - 0 + 1) * 8 then -1
       else if p \<noteq> -1 then p + 0 * 8 else p)) s')"
    by (rule bitpos_run [OF arg _ obj(1) r le full j(2) [folded p_def]]) (use look in simp)
  then show ?thesis using j(1) unfolding p_def by auto
qed

text \<open>
  C39. BITPOS on a string that is not empty replies the first position of the bit. With a start and an end that address at least one byte the search stays inside the addressed bytes and the reply is
  \<open>-1\<close> when they do not contain the bit; for the whole string a clear bit that is not there is reported right
  behind the string, as if it went on with zeros.
\<close>

theorem bitpos_exact:
  assumes ok: "server_ok s" and live: "\<not> is_expired s (c_db (client_of s c)) key" "\<not> masterhost (cfg s)"
    and obj: "db_dict (dbs s ! c_db (client_of s c)) key = Some obj" "obj_bytes obj = Some b" "b \<noteq> []"
    and args: "string2ll ba = Some (if bt then 1 else 0)" "string2ll a1 = Some start" "string2ll a2 = Some stop"
    and ne: "range_start (sint start) (length b) \<le> range_end (sint stop) (length b)"
  shows "\<exists>i j. first_position bt (range_bytes (sint start) (sint stop) b) i \<and> first_position bt b j \<and>
    bitposCommand c [cmd, key, ba, a1, a2] s = Some (addReply c (IntReply (if i = 8 * length (range_bytes (sint start) (sint stop) b) then -1
       else of_int (8 * range_start (sint start) (length b) + int i))) (s\<lparr>stat_hits := stat_hits s + 1\<rparr>)) \<and>
    bitposCommand c [cmd, key, ba] s = Some (addReply c (IntReply (if bt \<and> j = 8 * length b then -1
       else of_nat j)) (s\<lparr>stat_hits := stat_hits s + 1\<rparr>))"
proof -
  let ?s = "s\<lparr>stat_hits := stat_hits s + 1\<rparr>" and ?r = "range_bytes (sint start) (sint stop) b"
  have dok: "db_ok (dbs s ! c_db (client_of s c))" using ok by (auto simp: server_ok_def)
  have len: "length b \<le> STRING_MAX" using val_ok_bytes [OF db_ok_val [OF dok obj(1)] obj(2)] .
  then have n: "length b < 2 ^ 63" "length b < 2 ^ 60" by simp_all
  have arg: "getLongOrReply c (Some (arg_obj argv j)) None t = Some (t, Some v)" if "string2ll (argv ! j) = Some v" for argv j t v
    using that arg_obj_long [of argv j] by (simp add: getLong_OrReply_eq getLongLongOrReply_def)
  have look: "lookupKeyRead (c_db (client_of s c)) key s = Some (?s, Some obj)" using lookupKeyRead_live [OF dok live] obj(1) by simp
  obtain x y where xy: "clamp_range (of_nat (length b)) start stop = (x, y)" by (cases "clamp_range (of_nat (length b)) start stop")
  note se = clamp_range_eq [OF n(1) xy]
  have le: "\<not> sint x > sint y" using ne unfolding se by simp
  have part: "mem_read b (unat x) (unat (y - x + 1)) = Some ?r"
    using range_part [OF n(1) se le] unfolding se range_bytes_def .
  let ?al = "unaligned 8 (addr_of (cfg ?s) b + unat x)"
  obtain i where i: "first_position bt ?r i" "redisBitpos ?al ?r bt = Some (if bt \<and> i = 8 * length ?r then -1 else of_nat i)"
    using redisBitpos_first by blast
  have small: "8 * length ?r < 2 ^ 62" "i < 2 ^ 62" using len i(1) by (auto simp: range_bytes_def first_position_def)
  have val: "of_nat i + x * 8 = of_int (8 * range_start (sint start) (length b) + int i)" unfolding se [symmetric] by simp
  define pos :: int64 where "pos = (if bt \<and> i = 8 * length ?r then -1 else of_nat i)"
  have eq: "pos = (y - x + 1) * 8 \<longleftrightarrow> i = 8 * length ?r \<and> \<not> bt" "pos = -1 \<longleftrightarrow> bt \<and> i = 8 * length ?r" "pos \<noteq> -1 \<Longrightarrow> pos = of_nat i"
    unfolding pos_def range_width [OF n(2) se le] using of_nat_int64(1) [OF small(1)] of_nat_int64(1) [OF small(2)] of_nat_int64(2) [OF small(2,1)]
    by (auto simp del: of_nat_mult)
  have r1: "bitpos_range c [cmd, key, ba, a1, a2] (of_nat (length b)) ?s = Some (?s, Some (x, y, True))"
    using arg [of "[cmd, key, ba, a1, a2]" 3 start ?s] arg [of "[cmd, key, ba, a1, a2]" 4 stop ?s] args(2,3) xy
    by (simp add: bitpos_range_def)
  have a0: "getLongOrReply c (Some (arg_obj [cmd, key, ba, a1, a2] 2)) None s = Some (s, Some (if bt then 1 else 0))"
    "getLongOrReply c (Some (arg_obj [cmd, key, ba] 2)) None s = Some (s, Some (if bt then 1 else 0))"
    using arg [of "[cmd, key, ba, a1, a2]" 2] arg [of "[cmd, key, ba]" 2] args(1) by simp_all
  have "bitposCommand c [cmd, key, ba, a1, a2] s = Some (addReply c (IntReply (if True \<and> \<not> bt \<and> pos = (y - x + 1) * 8 then -1
       else if pos \<noteq> -1 then pos + x * 8 else pos)) ?s)"
    by (rule bitpos_run [OF a0(1) _ obj(2) r1 le part i(2) [folded pos_def]]) (use look in simp)
  then have one: "bitposCommand c [cmd, key, ba, a1, a2] s = Some (addReply c (IntReply (if i = 8 * length ?r then -1
       else of_int (8 * range_start (sint start) (length b) + int i))) ?s)"
    unfolding val [symmetric] using eq by (cases bt; cases "i = 8 * length ?r") simp_all
  show ?thesis using i(1) one bitpos_whole [OF look obj(2,3) n(2) a0(2)] by blast
qed

lemma first_position_unique: "first_position b s i \<Longrightarrow> first_position b s j \<Longrightarrow> i = j"
  by (cases i j rule: linorder_cases) (auto simp: first_position_def)

theorem bitpos_exact_witness:
  "bitposCommand 0 [[], [107], [49], [49], [45, 49]] sample_counter =
     Some (addReply 0 (IntReply 10) (sample_counter\<lparr>stat_hits := stat_hits sample_counter + 1\<rparr>)) \<and>
   bitposCommand 0 [[], [107], [49]] sample_counter =
     Some (addReply 0 (IntReply 2) (sample_counter\<lparr>stat_hits := stat_hits sample_counter + 1\<rparr>))"
proof -
  let ?s = "sample_counter\<lparr>stat_hits := stat_hits sample_counter + 1\<rparr>"
  have b: "obj_bytes (IntObj 12) = Some [49, 50]" unfolding obj_bytes.simps sdec_12 ..
  have a: "string2ll [49] = Some (if True then 1 else 0)" "string2ll [49] = Some 1" "string2ll [45, 49] = Some (-1)" by code_simp+
  have r: "range_bytes (sint 1) (sint (-1)) [49, 50] = [50]" "range_start (sint 1) (length [49, 50 :: byte]) = 1"
    "range_end (sint (-1)) (length [49, 50 :: byte]) = 1"
    by (simp_all add: range_bytes_def range_start_def range_end_def)
  have f: "first_position True [50] 2" "first_position True [49, 50] 2"
    by (auto simp: first_position_def bit_at_def less_Suc_eq numeral_2_eq_2)
  obtain i j where ij: "first_position True [50] i" "first_position True [49, 50] j"
    "bitposCommand 0 [[], [107], [49], [49], [45, 49]] sample_counter = Some (addReply 0 (IntReply (if i = 8 * length [50 :: byte] then -1
       else of_int (8 * 1 + int i))) ?s)"
    "bitposCommand 0 [[], [107], [49]] sample_counter = Some (addReply 0 (IntReply (if True \<and> j = 8 * length [49, 50 :: byte] then -1
       else of_nat j)) ?s)"
    using bitpos_exact [OF sample_counter_ok _ _ _ b _ a, of 0 "[107]" "[]", unfolded r]
    by (auto simp: is_expired_def new_client_def sample_config_def)
  have "i = 2" "j = 2" using first_position_unique [OF ij(1) f(1)] first_position_unique [OF ij(2) f(2)] .
  then show ?thesis using ij(3,4) by simp
qed

text \<open>BITOP on single bits.\<close>

fun bool_op :: "bitop \<Rightarrow> bool list \<Rightarrow> bool" where
  "bool_op BITOP_AND bs = list_all id bs"
| "bool_op BITOP_OR bs = list_ex id bs"
| "bool_op BITOP_XOR bs = odd (length (filter id bs))"
| "bool_op BITOP_NOT bs = (\<not> hd bs)"

lemma bit_slow_byte:
  assumes "srcs \<noteq> []" "n < 8" "op = BITOP_NOT \<Longrightarrow> length srcs = 1"
  shows "bit (slow_byte op srcs k) n = bool_op op (map (\<lambda>src. bit (padded src k) n) srcs)"
proof -
  obtain s0 ss where srcs: "srcs = s0 # ss" using assms(1) by (cases srcs) auto
  have f: "bit (fold (\<lambda>src out. op8 op out (padded src k)) ss a) n = (case op of
      BITOP_AND \<Rightarrow> bit a n \<and> list_all (\<lambda>src. bit (padded src k) n) ss
    | BITOP_OR \<Rightarrow> bit a n \<or> list_ex (\<lambda>src. bit (padded src k) n) ss
    | BITOP_XOR \<Rightarrow> bit a n \<noteq> odd (length (filter (\<lambda>src. bit (padded src k) n) ss))
    | BITOP_NOT \<Rightarrow> bit a n)" for a
    by (induction ss arbitrary: a) (cases op; auto simp: bit_and_iff bit_or_iff bit_xor_iff)+
  have "slow_byte op srcs k = fold (\<lambda>src out. op8 op out (padded src k)) ss (if op = BITOP_NOT then NOT (padded s0 k) else padded s0 k)"
    by (simp add: slow_byte_def srcs)
  note this [THEN arg_cong [where f = "\<lambda>w. bit w n"], unfolded f]
  then show ?thesis using assms(2,3) unfolding srcs
    by (cases op) (auto simp: bit_not_iff list_all_iff list_ex_iff filter_map o_def)
qed

lemma get_bit_result:
  assumes "srcs \<noteq> []" "op = BITOP_NOT \<Longrightarrow> length srcs = 1"
  shows "get_bit (map (slow_byte op srcs) [0..<m]) j \<longleftrightarrow> j < 8 * m \<and> bool_op op (map (\<lambda>src. get_bit src j) srcs)"
proof -
  have "bit (padded src (j div 8)) (7 - j mod 8) = get_bit src j" for src
    by (auto simp: padded_def get_bit_def bit_at_def not_le less_mult_imp_div_less)
  moreover have "j div 8 < m \<longleftrightarrow> j < 8 * m" by auto
  ultimately show ?thesis
    using bit_slow_byte [OF assms(1) _ assms(2), where n = "7 - j mod 8" and k = "j div 8"] by (auto simp: get_bit_def [of "map _ _"] bit_at_def)
qed

text \<open>The sources are read without a change of the data.\<close>

lemma bitop_sources_live:
  assumes "\<forall>key \<in> set keys. \<not> is_expired s i key \<and> string_at s i key = Some (f key)" "\<not> masterhost (cfg s)" "db_ok (dbs s ! i)"
    and "sources_ok srcs maxlen minlen" "\<forall>key \<in> set keys. length (f key) \<le> STRING_MAX"
  shows "\<exists>s' mx mn. bitop_sources c i keys srcs maxlen minlen s = Some (s', Some (srcs @ map f keys, mx, mn)) \<and>
     dbs s' = dbs s \<and> cfg s' = cfg s \<and> client_of s' = client_of s \<and> clients s' = clients s \<and> sources_ok (srcs @ map f keys) mx mn \<and>
     mx = fold (\<lambda>key. max (length (f key))) keys maxlen"
  using assms
proof (induction keys arbitrary: s srcs maxlen minlen)
  case (Cons key keys)
  let ?hit = "s\<lparr>stat_hits := stat_hits s + 1\<rparr>" and ?miss = "s\<lparr>stat_misses := stat_misses s + 1\<rparr>"
  have look: "lookupKeyRead i key s = Some (if db_dict (dbs s ! i) key = None then ?miss else ?hit, db_dict (dbs s ! i) key)"
    using Cons.prems by (intro lookupKeyRead_live) auto
  have at: "string_at s i key = Some (f key)" "length (f key) \<le> STRING_MAX" using Cons.prems by simp_all
  show ?case
  proof (cases "db_dict (dbs s ! i) key")
    case None
    then have f: "f key = []" using at by (simp add: string_at_def)
    have "\<exists>s' mx mn. bitop_sources c i keys (srcs @ [[]]) maxlen 0 ?miss = Some (s', Some ((srcs @ [[]]) @ map f keys, mx, mn)) \<and>
       dbs s' = dbs ?miss \<and> cfg s' = cfg ?miss \<and> client_of s' = client_of ?miss \<and> clients s' = clients ?miss \<and>
       sources_ok ((srcs @ [[]]) @ map f keys) mx mn \<and> mx = fold (\<lambda>key. max (length (f key))) keys maxlen"
      by (rule Cons.IH) (use Cons.prems sources_ok_snoc(2) [OF Cons.prems(4), of "[]"] in \<open>auto simp: is_expired_def string_at_def\<close>)
    then show ?thesis using look None f by auto
  next
    case (Some v)
    then have v: "obj_bytes v = Some (f key)" using at by (simp add: string_at_def)
    obtain e where e: "getDecodedObject (replicate 32 0) v = Some e" "sdsEncodedObject e" "obj_bytes e = Some (f key)"
      using getDecodedObject_bytes [OF v] by (metis length_replicate)
    then have p: "ptr_sds e = Some (f key)" by (cases e) simp_all
    let ?mx = "if length (f key) > maxlen then length (f key) else maxlen"
      and ?mn = "if srcs = [] \<or> length (f key) < minlen then length (f key) else minlen"
    have "\<exists>s' mx mn. bitop_sources c i keys (srcs @ [f key]) ?mx ?mn ?hit = Some (s', Some ((srcs @ [f key]) @ map f keys, mx, mn)) \<and>
       dbs s' = dbs ?hit \<and> cfg s' = cfg ?hit \<and> client_of s' = client_of ?hit \<and> clients s' = clients ?hit \<and>
       sources_ok ((srcs @ [f key]) @ map f keys) mx mn \<and> mx = fold (\<lambda>key. max (length (f key))) keys ?mx"
      by (rule Cons.IH) (use Cons.prems sources_ok_snoc(1) [OF Cons.prems(4) at(2)] in \<open>auto simp: is_expired_def string_at_def\<close>)
    moreover have "?mx = max (length (f key)) maxlen" by simp
    ultimately show ?thesis using look Some e(1) p checkType_string(1) [OF v] by (auto simp: Let_def split del: if_split)
  qed
qed (auto simp: sources_ok_def)

definition longest :: "sds list \<Rightarrow> nat" where
  "longest srcs = fold (\<lambda>src. max (length src)) srcs 0"

text \<open>The key that BITOP writes to holds the result, or is gone when the result is empty.\<close>

lemma bitop_store_live:
  assumes g: "server_ok s" and i: "i < length (dbs s)" and src: "sources_ok srcs maxlen minlen" "srcs \<noteq> []"
    and not1: "op = BITOP_NOT \<Longrightarrow> length srcs = 1"
  shows "\<exists>s'. (if maxlen \<noteq> 0 then bitop_compute (cfg s) op srcs maxlen minlen \<bind> (\<lambda>res. setKey i key (Raw res) s \<bind>
        (\<lambda>s. Some (notifyKeyspaceEvent NOTIFY_STRING ''set'' key i s)))
      else (case dbDelete i key s of
          (s, True) \<Rightarrow> Some (notifyKeyspaceEvent NOTIFY_GENERIC ''del'' key i (signalModifiedKey i key s))
        | (s, False) \<Rightarrow> Some s)) = Some s' \<and>
     string_at s' i key = Some (map (slow_byte op srcs) [0..<maxlen]) \<and> c_reply (client_of s' c) = c_reply (client_of s c)"
proof (cases "maxlen = 0")
  case True
  have "db_ok (dbs s ! i)" using g i by (simp add: server_ok_def)
  from dbDelete_eq [OF this, of key] obtain s' where s': "dbDelete i key s = (s', db_dict (dbs s ! i) key \<noteq> None)"
    "updated i (purge key (dbs s ! i)) s s'"
    "s' = set_db i (purge key (dbs s ! i)) s \<or> s' = log_call (SlotToKeyDel key) (set_db i (purge key (dbs s ! i)) s)" by blast
  have "dbs s' ! i = purge key (dbs s ! i)" "client_of s' = client_of s" using s'(3) i by auto
  then show ?thesis using True s'(1) by (auto simp: string_at_def split: bool.split)
next
  case False
  note G = G_start [OF g]
  have "bitop_compute (cfg s) op srcs maxlen minlen = Some (map (slow_byte op srcs) [0..<maxlen])"
    using src not1 by (intro bitop_compute_eq) (auto simp: sources_ok_def intro: G_alloc [OF G])
  moreover have "wp (setKey i key (Raw (map (slow_byte op srcs) [0..<maxlen])) s) (stored i key (Raw (map (slow_byte op srcs) [0..<maxlen])) s)"
    by (rule setKey_wp [OF G i]) (use src in \<open>simp_all add: sources_ok_def\<close>)
  then obtain s' where s': "setKey i key (Raw (map (slow_byte op srcs) [0..<maxlen])) s = Some s'"
    "stored i key (Raw (map (slow_byte op srcs) [0..<maxlen])) s s'" by (auto simp: wp_def)
  ultimately show ?thesis using False i setKey_clients [OF s'(1), of c] by (simp add: stored_def string_at_def)
qed

text \<open>
  C37. BITOP, for any number of source keys that hold strings or nothing: the target holds a string as long as the longest
  source, every bit of it is the operation on the bits of the sources at its position, with zeros behind the end of the
  shorter ones, and the reply is the length. The fast path by words and the slow path by bytes do not differ.
\<close>

theorem bitop_exact:
  assumes ok: "server_ok s" and live: "\<forall>key \<in> set keys. \<not> is_expired s (c_db (client_of s c)) key" "\<not> masterhost (cfg s)"
    and f: "\<forall>key \<in> set keys. string_at s (c_db (client_of s c)) key = Some (f key)"
    and op: "parse_bitop opname = Some op" "keys \<noteq> []" "op = BITOP_NOT \<longrightarrow> length keys = 1"
  shows "\<exists>s' res. bitopCommand c ([cmd, opname, target] @ keys) s = Some s' \<and>
    string_at s' (c_db (client_of s c)) target = Some res \<and> length res = longest (map f keys) \<and>
    (\<forall>j. get_bit res j = (j < 8 * longest (map f keys) \<and> bool_op op (map (\<lambda>key. get_bit (f key) j) keys))) \<and>
    c_reply (client_of s' c) = c_reply (client_of s c) @ [IntReply (of_nat (longest (map f keys)))]"
proof -
  let ?i = "c_db (client_of s c)" and ?srcs = "map f keys"
  have i: "?i < length (dbs s)" and dok: "db_ok (dbs s ! ?i)" using ok by (auto simp: server_ok_def)
  have len: "length (f key) \<le> STRING_MAX" if "key \<in> set keys" for key
  proof (cases "db_dict (dbs s ! ?i) key")
    case None
    then show ?thesis using f that by (auto simp: string_at_def)
  next
    case (Some v)
    then show ?thesis using f that val_ok_bytes [OF db_ok_val [OF dok Some]] by (auto simp: string_at_def)
  qed
  obtain t mn where t: "bitop_sources c ?i keys [] 0 0 s = Some (t, Some (?srcs, longest ?srcs, mn))"
    "dbs t = dbs s" "cfg t = cfg s" "client_of t = client_of s" "clients t = clients s" "sources_ok ?srcs (longest ?srcs) mn"
    using bitop_sources_live [of keys s ?i f "[]" 0 0 c] live f dok len by (auto simp: sources_ok_def longest_def fold_map o_def)
  have "same_core s t" using t by (simp add: same_core_def)
  from G_same_core [OF this G_start [OF ok]] have okt: "server_ok t" by (simp add: G_def)
  have n1: "op = BITOP_NOT \<Longrightarrow> length ?srcs = 1" using op(3) by simp
  obtain s' where s': "(if longest ?srcs \<noteq> 0 then bitop_compute (cfg t) op ?srcs (longest ?srcs) mn \<bind> (\<lambda>res. setKey ?i target (Raw res) t \<bind>
        (\<lambda>s. Some (notifyKeyspaceEvent NOTIFY_STRING ''set'' target ?i s)))
      else (case dbDelete ?i target t of
          (s, True) \<Rightarrow> Some (notifyKeyspaceEvent NOTIFY_GENERIC ''del'' target ?i (signalModifiedKey ?i target s))
        | (s, False) \<Rightarrow> Some s)) = Some s'"
     "string_at s' ?i target = Some (map (slow_byte op ?srcs) [0..<longest ?srcs])" "c_reply (client_of s' c) = c_reply (client_of t c)"
    using bitop_store_live [OF okt _ t(6) _ n1, where i = ?i and key = target and c = c] i t(2) op(2) by auto
  let ?s' = "addReply c (IntReply (of_nat (longest ?srcs))) (add_dirty 1 s')"
  have "bitopCommand c ([cmd, opname, target] @ keys) s = Some ?s'"
    using op t(1) s'(1) by (auto simp: bitopCommand_def Let_def numeral_3_eq_3 numeral_2_eq_2)
  moreover have "string_at ?s' ?i target = Some (map (slow_byte op ?srcs) [0..<longest ?srcs])"
    using s'(2) by (simp add: string_at_def)
  moreover have "get_bit (map (slow_byte op ?srcs) [0..<longest ?srcs]) j =
     (j < 8 * longest ?srcs \<and> bool_op op (map (\<lambda>key. get_bit (f key) j) keys))" for j
    using get_bit_result [of ?srcs op "longest ?srcs" j] op(2) n1 by (simp add: o_def)
  ultimately show ?thesis using s'(3) t(4)
    by (intro exI [of _ ?s'] exI [of _ "map (slow_byte op ?srcs) [0..<longest ?srcs]"]) simp
qed

theorem bitop_exact_witness:
  "\<exists>s' res. bitopCommand 0 ([[], [110, 111, 116], [116]] @ [[107]]) sample_counter = Some s' \<and>
    string_at s' 0 [116] = Some res \<and> length res = 2 \<and>
    (\<forall>j. get_bit res j = (j < 16 \<and> \<not> get_bit [49, 50] j)) \<and> c_reply (client_of s' 0) = [IntReply 2]"
proof -
  have "string_at sample_counter 0 [107] = Some [49, 50]" by (simp add: string_at_def sdec_12)
  moreover have "parse_bitop [110, 111, 116] = Some BITOP_NOT" by code_simp
  ultimately show ?thesis
    using bitop_exact [OF sample_counter_ok, of "[[107]]" 0 "\<lambda>_. [49, 50]" "[110, 111, 116]" BITOP_NOT "[]" "[116]"]
    by (simp add: is_expired_def new_client_def sample_config_def longest_def numeral_2_eq_2)
qed

end
