(* ===== verification/Multi.thy ===== *)
theory Multi
  imports BitCommands
begin

text \<open>
  \<^verbatim>\<open>multi.c\<close> and the command loop of \<^verbatim>\<open>server.c\<close>: transactions with MULTI, EXEC and DISCARD,
  optimistic locking with WATCH, the command table, \<^verbatim>\<open>call\<close> and \<^verbatim>\<open>processCommand\<close>.

  The table is the whole table of \<^verbatim>\<open>server.c\<close>. Forty-six of its rows have their command as a constructor of
  its own; the others are \<open>OtherCmd\<close> with the name. They are looked up, checked, refused and queued like all others,
  but what they do when they run is not modelled, and the theorems exclude them.
  What \<^verbatim>\<open>processCommand\<close> asks other parts of the server
  (authentication, cluster redirection, eviction, persistence and replication state, scripts) is in
  the record \<open>checks\<close>. Monitors, the slow log, the latency and command statistics and the clients that wait in BLPOP
  and its relatives are left out.

  The theory shows that every request of a modelled command keeps the invariant of the server and fails no assertion,
  and that WATCH works: when a watched key was changed by other clients, EXEC executes nothing. The conditions of both
  are with the theorems; for MOVE and PERSIST the second is shown to be false.
\<close>

section \<open>Watching\<close>

definition update_client :: "cid \<Rightarrow> (client \<Rightarrow> client) \<Rightarrow> server \<Rightarrow> server" where
  "update_client c f s = s\<lparr>client_of := (client_of s)(c := f (client_of s c))\<rparr>"

definition watchForKey :: "cid \<Rightarrow> key \<Rightarrow> server \<Rightarrow> server" where
  "watchForKey c key s =
     (let i = c_db (client_of s c) in
      if (i, key) \<in> set (c_watched (client_of s c)) then s
      else
        let d = dbs s ! i;
            watching = (case db_watched d key of None \<Rightarrow> [] | Some l \<Rightarrow> l);
            s = set_db i (d\<lparr>db_watched := (db_watched d)(key \<mapsto> watching @ [c])\<rparr>) s
        in update_client c (\<lambda>cl. cl\<lparr>c_watched := c_watched cl @ [(i, key)]\<rparr>) s)"

text \<open>One round of the loop: \<open>None\<close> is the failed assertion that the key has a list of clients.\<close>

definition unwatch_key :: "cid \<Rightarrow> nat \<times> key \<Rightarrow> server \<Rightarrow> server option" where
  "unwatch_key c w s =
     (case w of (i, key) \<Rightarrow>
      let d = dbs s ! i in
      (case db_watched d key of None \<Rightarrow> None
       | Some watching \<Rightarrow>
           let watching = remove1 c watching;
               d = d\<lparr>db_watched := (db_watched d)(key := if watching = [] then None else Some watching)\<rparr>;
               s = set_db i d s
           in Some (update_client c (\<lambda>cl. cl\<lparr>c_watched := remove1 w (c_watched cl)\<rparr>) s)))"

fun unwatch_loop :: "cid \<Rightarrow> (nat \<times> key) list \<Rightarrow> server \<Rightarrow> server option" where
  "unwatch_loop c [] s = Some s"
| "unwatch_loop c (w # ws) s = do { s \<leftarrow> unwatch_key c w s; unwatch_loop c ws s }"

definition unwatchAllKeys :: "cid \<Rightarrow> server \<Rightarrow> server option" where
  "unwatchAllKeys c s = unwatch_loop c (c_watched (client_of s c)) s"

definition watchCommand :: "cid \<Rightarrow> sds list \<Rightarrow> server \<Rightarrow> server option" where
  "watchCommand c argv s =
     (if c_multi (client_of s c) then Some (addReply c (ErrorReply ''WATCH inside MULTI is not allowed'') s)
      else Some (addReply c OkReply (fold (watchForKey c) (tl argv) s)))"

definition unwatchCommand :: "cid \<Rightarrow> sds list \<Rightarrow> server \<Rightarrow> server option" where
  "unwatchCommand c argv s = do {
     s \<leftarrow> unwatchAllKeys c s;
     let s = update_client c (\<lambda>cl. cl\<lparr>c_dirty_cas := False\<rparr>) s;
     Some (addReply c OkReply s) }"

section \<open>Transactions\<close>

definition queueMultiCommand :: "cid \<Rightarrow> command \<Rightarrow> sds list \<Rightarrow> server \<Rightarrow> server" where
  "queueMultiCommand c cmd argv = update_client c (\<lambda>cl. cl\<lparr>c_mstate := c_mstate cl @ [(cmd, argv)]\<rparr>)"

definition discardTransaction :: "cid \<Rightarrow> server \<Rightarrow> server option" where
  "discardTransaction c s =
     unwatchAllKeys c (update_client c (\<lambda>cl. cl\<lparr>c_mstate := [], c_multi := False, c_dirty_cas := False, c_dirty_exec := False\<rparr>) s)"

definition flagTransaction :: "cid \<Rightarrow> server \<Rightarrow> server" where
  "flagTransaction c s =
     (if c_multi (client_of s c) then update_client c (\<lambda>cl. cl\<lparr>c_dirty_exec := True\<rparr>) s else s)"

definition multiCommand :: "cid \<Rightarrow> sds list \<Rightarrow> server \<Rightarrow> server option" where
  "multiCommand c argv s =
     (if c_multi (client_of s c) then Some (addReply c (ErrorReply ''MULTI calls can not be nested'') s)
      else Some (addReply c OkReply (update_client c (\<lambda>cl. cl\<lparr>c_multi := True\<rparr>) s)))"

definition discardCommand :: "cid \<Rightarrow> sds list \<Rightarrow> server \<Rightarrow> server option" where
  "discardCommand c argv s =
     (if \<not> c_multi (client_of s c) then Some (addReply c (ErrorReply ''DISCARD without MULTI'') s)
      else do {
        s \<leftarrow> discardTransaction c s;
        Some (addReply c OkReply s) })"

section \<open>The command table\<close>

text \<open>Name, command, arity and flags of every row of the table of \<^verbatim>\<open>server.c\<close>, in its order.\<close>

definition redisCommandTable :: "(string \<times> command \<times> int \<times> string) list" where
  "redisCommandTable = [
    (''get'', GetCmd, 2, ''rF''),
    (''set'', SetCmd, -3, ''wm''),
    (''setnx'', SetnxCmd, 3, ''wmF''),
    (''setex'', SetexCmd, 4, ''wm''),
    (''psetex'', PsetexCmd, 4, ''wm''),
    (''append'', AppendCmd, 3, ''wm''),
    (''strlen'', StrlenCmd, 2, ''rF''),
    (''del'', DelCmd, -2, ''w''),
    (''exists'', ExistsCmd, -2, ''rF''),
    (''setbit'', SetbitCmd, 4, ''wm''),
    (''getbit'', GetbitCmd, 3, ''rF''),
    (''bitfield'', OtherCmd ''bitfield'', -2, ''wm''),
    (''setrange'', SetrangeCmd, 4, ''wm''),
    (''getrange'', GetrangeCmd, 4, ''r''),
    (''substr'', GetrangeCmd, 4, ''r''),
    (''incr'', IncrCmd, 2, ''wmF''),
    (''decr'', DecrCmd, 2, ''wmF''),
    (''mget'', MgetCmd, -2, ''r''),
    (''rpush'', OtherCmd ''rpush'', -3, ''wmF''),
    (''lpush'', OtherCmd ''lpush'', -3, ''wmF''),
    (''rpushx'', OtherCmd ''rpushx'', 3, ''wmF''),
    (''lpushx'', OtherCmd ''lpushx'', 3, ''wmF''),
    (''linsert'', OtherCmd ''linsert'', 5, ''wm''),
    (''rpop'', OtherCmd ''rpop'', 2, ''wF''),
    (''lpop'', OtherCmd ''lpop'', 2, ''wF''),
    (''brpop'', OtherCmd ''brpop'', -3, ''ws''),
    (''brpoplpush'', OtherCmd ''brpoplpush'', 4, ''wms''),
    (''blpop'', OtherCmd ''blpop'', -3, ''ws''),
    (''llen'', OtherCmd ''llen'', 2, ''rF''),
    (''lindex'', OtherCmd ''lindex'', 3, ''r''),
    (''lset'', OtherCmd ''lset'', 4, ''wm''),
    (''lrange'', OtherCmd ''lrange'', 4, ''r''),
    (''ltrim'', OtherCmd ''ltrim'', 4, ''w''),
    (''lrem'', OtherCmd ''lrem'', 4, ''w''),
    (''rpoplpush'', OtherCmd ''rpoplpush'', 3, ''wm''),
    (''sadd'', OtherCmd ''sadd'', -3, ''wmF''),
    (''srem'', OtherCmd ''srem'', -3, ''wF''),
    (''smove'', OtherCmd ''smove'', 4, ''wF''),
    (''sismember'', OtherCmd ''sismember'', 3, ''rF''),
    (''scard'', OtherCmd ''scard'', 2, ''rF''),
    (''spop'', OtherCmd ''spop'', -2, ''wRF''),
    (''srandmember'', OtherCmd ''srandmember'', -2, ''rR''),
    (''sinter'', OtherCmd ''sinter'', -2, ''rS''),
    (''sinterstore'', OtherCmd ''sinterstore'', -3, ''wm''),
    (''sunion'', OtherCmd ''sunion'', -2, ''rS''),
    (''sunionstore'', OtherCmd ''sunionstore'', -3, ''wm''),
    (''sdiff'', OtherCmd ''sdiff'', -2, ''rS''),
    (''sdiffstore'', OtherCmd ''sdiffstore'', -3, ''wm''),
    (''smembers'', OtherCmd ''smembers'', 2, ''rS''),
    (''sscan'', OtherCmd ''sscan'', -3, ''rR''),
    (''zadd'', OtherCmd ''zadd'', -4, ''wmF''),
    (''zincrby'', OtherCmd ''zincrby'', 4, ''wmF''),
    (''zrem'', OtherCmd ''zrem'', -3, ''wF''),
    (''zremrangebyscore'', OtherCmd ''zremrangebyscore'', 4, ''w''),
    (''zremrangebyrank'', OtherCmd ''zremrangebyrank'', 4, ''w''),
    (''zremrangebylex'', OtherCmd ''zremrangebylex'', 4, ''w''),
    (''zunionstore'', OtherCmd ''zunionstore'', -4, ''wm''),
    (''zinterstore'', OtherCmd ''zinterstore'', -4, ''wm''),
    (''zrange'', OtherCmd ''zrange'', -4, ''r''),
    (''zrangebyscore'', OtherCmd ''zrangebyscore'', -4, ''r''),
    (''zrevrangebyscore'', OtherCmd ''zrevrangebyscore'', -4, ''r''),
    (''zrangebylex'', OtherCmd ''zrangebylex'', -4, ''r''),
    (''zrevrangebylex'', OtherCmd ''zrevrangebylex'', -4, ''r''),
    (''zcount'', OtherCmd ''zcount'', 4, ''rF''),
    (''zlexcount'', OtherCmd ''zlexcount'', 4, ''rF''),
    (''zrevrange'', OtherCmd ''zrevrange'', -4, ''r''),
    (''zcard'', OtherCmd ''zcard'', 2, ''rF''),
    (''zscore'', OtherCmd ''zscore'', 3, ''rF''),
    (''zrank'', OtherCmd ''zrank'', 3, ''rF''),
    (''zrevrank'', OtherCmd ''zrevrank'', 3, ''rF''),
    (''zscan'', OtherCmd ''zscan'', -3, ''rR''),
    (''hset'', OtherCmd ''hset'', 4, ''wmF''),
    (''hsetnx'', OtherCmd ''hsetnx'', 4, ''wmF''),
    (''hget'', OtherCmd ''hget'', 3, ''rF''),
    (''hmset'', OtherCmd ''hmset'', -4, ''wm''),
    (''hmget'', OtherCmd ''hmget'', -3, ''r''),
    (''hincrby'', OtherCmd ''hincrby'', 4, ''wmF''),
    (''hincrbyfloat'', OtherCmd ''hincrbyfloat'', 4, ''wmF''),
    (''hdel'', OtherCmd ''hdel'', -3, ''wF''),
    (''hlen'', OtherCmd ''hlen'', 2, ''rF''),
    (''hstrlen'', OtherCmd ''hstrlen'', 3, ''rF''),
    (''hkeys'', OtherCmd ''hkeys'', 2, ''rS''),
    (''hvals'', OtherCmd ''hvals'', 2, ''rS''),
    (''hgetall'', OtherCmd ''hgetall'', 2, ''r''),
    (''hexists'', OtherCmd ''hexists'', 3, ''rF''),
    (''hscan'', OtherCmd ''hscan'', -3, ''rR''),
    (''incrby'', IncrbyCmd, 3, ''wmF''),
    (''decrby'', DecrbyCmd, 3, ''wmF''),
    (''incrbyfloat'', OtherCmd ''incrbyfloat'', 3, ''wmF''),
    (''getset'', GetsetCmd, 3, ''wm''),
    (''mset'', MsetCmd, -3, ''wm''),
    (''msetnx'', MsetnxCmd, -3, ''wm''),
    (''randomkey'', OtherCmd ''randomkey'', 1, ''rR''),
    (''select'', SelectCmd, 2, ''lF''),
    (''move'', MoveCmd, 3, ''wF''),
    (''rename'', RenameCmd, 3, ''w''),
    (''renamenx'', RenamenxCmd, 3, ''wF''),
    (''expire'', ExpireCmd, 3, ''wF''),
    (''expireat'', ExpireatCmd, 3, ''wF''),
    (''pexpire'', PexpireCmd, 3, ''wF''),
    (''pexpireat'', PexpireatCmd, 3, ''wF''),
    (''keys'', OtherCmd ''keys'', 2, ''rS''),
    (''scan'', OtherCmd ''scan'', -2, ''rR''),
    (''dbsize'', DbsizeCmd, 1, ''rF''),
    (''auth'', OtherCmd ''auth'', 2, ''sltF''),
    (''ping'', OtherCmd ''ping'', -1, ''tF''),
    (''echo'', OtherCmd ''echo'', 2, ''F''),
    (''save'', OtherCmd ''save'', 1, ''as''),
    (''bgsave'', OtherCmd ''bgsave'', -1, ''a''),
    (''bgrewriteaof'', OtherCmd ''bgrewriteaof'', 1, ''a''),
    (''shutdown'', OtherCmd ''shutdown'', -1, ''alt''),
    (''lastsave'', OtherCmd ''lastsave'', 1, ''RF''),
    (''type'', TypeCmd, 2, ''rF''),
    (''multi'', MultiCmd, 1, ''sF''),
    (''exec'', ExecCmd, 1, ''sM''),
    (''discard'', DiscardCmd, 1, ''sF''),
    (''sync'', OtherCmd ''sync'', 1, ''ars''),
    (''psync'', OtherCmd ''psync'', 3, ''ars''),
    (''replconf'', OtherCmd ''replconf'', -1, ''aslt''),
    (''flushdb'', FlushdbCmd, 1, ''w''),
    (''flushall'', FlushallCmd, 1, ''w''),
    (''sort'', OtherCmd ''sort'', -2, ''wm''),
    (''info'', OtherCmd ''info'', -1, ''lt''),
    (''monitor'', OtherCmd ''monitor'', 1, ''as''),
    (''ttl'', TtlCmd, 2, ''rF''),
    (''touch'', TouchCmd, -2, ''rF''),
    (''pttl'', PttlCmd, 2, ''rF''),
    (''persist'', PersistCmd, 2, ''wF''),
    (''slaveof'', OtherCmd ''slaveof'', 3, ''ast''),
    (''role'', OtherCmd ''role'', 1, ''lst''),
    (''debug'', OtherCmd ''debug'', -1, ''as''),
    (''config'', OtherCmd ''config'', -2, ''lat''),
    (''subscribe'', OtherCmd ''subscribe'', -2, ''pslt''),
    (''unsubscribe'', OtherCmd ''unsubscribe'', -1, ''pslt''),
    (''psubscribe'', OtherCmd ''psubscribe'', -2, ''pslt''),
    (''punsubscribe'', OtherCmd ''punsubscribe'', -1, ''pslt''),
    (''publish'', OtherCmd ''publish'', 3, ''pltF''),
    (''pubsub'', OtherCmd ''pubsub'', -2, ''pltR''),
    (''watch'', WatchCmd, -2, ''sF''),
    (''unwatch'', UnwatchCmd, 1, ''sF''),
    (''cluster'', OtherCmd ''cluster'', -2, ''a''),
    (''restore'', OtherCmd ''restore'', -4, ''wm''),
    (''restore-asking'', OtherCmd ''restore-asking'', -4, ''wmk''),
    (''migrate'', OtherCmd ''migrate'', -6, ''w''),
    (''asking'', OtherCmd ''asking'', 1, ''F''),
    (''readonly'', OtherCmd ''readonly'', 1, ''F''),
    (''readwrite'', OtherCmd ''readwrite'', 1, ''F''),
    (''dump'', OtherCmd ''dump'', 2, ''r''),
    (''object'', OtherCmd ''object'', 3, ''r''),
    (''client'', OtherCmd ''client'', -2, ''as''),
    (''eval'', OtherCmd ''eval'', -3, ''s''),
    (''evalsha'', OtherCmd ''evalsha'', -3, ''s''),
    (''slowlog'', OtherCmd ''slowlog'', -2, ''a''),
    (''script'', OtherCmd ''script'', -2, ''s''),
    (''time'', OtherCmd ''time'', 1, ''RF''),
    (''bitop'', BitopCmd, -4, ''wm''),
    (''bitcount'', BitcountCmd, -2, ''r''),
    (''bitpos'', BitposCmd, -3, ''r''),
    (''wait'', OtherCmd ''wait'', 3, ''s''),
    (''command'', OtherCmd ''command'', 0, ''lt''),
    (''geoadd'', OtherCmd ''geoadd'', -5, ''wm''),
    (''georadius'', OtherCmd ''georadius'', -6, ''w''),
    (''georadiusbymember'', OtherCmd ''georadiusbymember'', -5, ''w''),
    (''geohash'', OtherCmd ''geohash'', -2, ''r''),
    (''geopos'', OtherCmd ''geopos'', -2, ''r''),
    (''geodist'', OtherCmd ''geodist'', -4, ''r''),
    (''pfselftest'', OtherCmd ''pfselftest'', 1, ''a''),
    (''pfadd'', OtherCmd ''pfadd'', -2, ''wmF''),
    (''pfcount'', OtherCmd ''pfcount'', -2, ''r''),
    (''pfmerge'', OtherCmd ''pfmerge'', -2, ''wm''),
    (''pfdebug'', OtherCmd ''pfdebug'', -3, ''w''),
    (''latency'', OtherCmd ''latency'', -2, ''aslt'')]"

text \<open>
  Names are compared without case, like \<^verbatim>\<open>strcasecmp\<close> in the dictionary of commands. The dictionary chooses the bucket
  by a hash of all bytes, while \<^verbatim>\<open>strcasecmp\<close> stops at a zero byte; here a name with a zero byte is never found, which
  the code also answers unless both names happen to share a bucket.
\<close>

definition lookupCommand :: "sds \<Rightarrow> (string \<times> command \<times> int \<times> string) option" where
  "lookupCommand name = find (\<lambda>(n, _). map of_char n = map tolower name) redisCommandTable"

definition is_write :: "string \<Rightarrow> bool" where "is_write flags \<longleftrightarrow> CHR ''w'' \<in> set flags"
definition is_readonly :: "string \<Rightarrow> bool" where "is_readonly flags \<longleftrightarrow> CHR ''r'' \<in> set flags"
definition is_denyoom :: "string \<Rightarrow> bool" where "is_denyoom flags \<longleftrightarrow> CHR ''m'' \<in> set flags"
definition is_loading :: "string \<Rightarrow> bool" where "is_loading flags \<longleftrightarrow> CHR ''l'' \<in> set flags"
definition is_stale :: "string \<Rightarrow> bool" where "is_stale flags \<longleftrightarrow> CHR ''t'' \<in> set flags"

definition arity_ok :: "int \<Rightarrow> sds list \<Rightarrow> bool" where
  "arity_ok arity argv \<longleftrightarrow> \<not> (arity > 0 \<and> arity \<noteq> int (length argv) \<or> int (length argv) < - arity)"

text \<open>The flags of a command.\<close>

definition cmd_flags :: "command \<Rightarrow> string" where
  "cmd_flags cmd = (case find (\<lambda>(_, c, _). c = cmd) redisCommandTable of Some (_, _, _, f) \<Rightarrow> f | None \<Rightarrow> [])"

section \<open>Execution\<close>

text \<open>
  The functions of the commands that do not run other commands. The result \<open>None\<close> for \<open>OtherCmd\<close> says nothing about the
  code: no theorem uses it.
\<close>

primrec simple_proc :: "command \<Rightarrow> cid \<Rightarrow> sds list \<Rightarrow> server \<Rightarrow> server option" where
  "simple_proc GetCmd = getCommand"
| "simple_proc SetCmd = setCommand"
| "simple_proc SetnxCmd = setnxCommand"
| "simple_proc SetexCmd = setexCommand"
| "simple_proc PsetexCmd = psetexCommand"
| "simple_proc AppendCmd = appendCommand"
| "simple_proc StrlenCmd = strlenCommand"
| "simple_proc DelCmd = delCommand"
| "simple_proc ExistsCmd = existsCommand"
| "simple_proc SetrangeCmd = setrangeCommand"
| "simple_proc GetrangeCmd = getrangeCommand"
| "simple_proc IncrCmd = incrCommand"
| "simple_proc DecrCmd = decrCommand"
| "simple_proc MgetCmd = mgetCommand"
| "simple_proc IncrbyCmd = incrbyCommand"
| "simple_proc DecrbyCmd = decrbyCommand"
| "simple_proc GetsetCmd = getsetCommand"
| "simple_proc MsetCmd = msetCommand"
| "simple_proc MsetnxCmd = msetnxCommand"
| "simple_proc SelectCmd = selectCommand"
| "simple_proc MoveCmd = moveCommand"
| "simple_proc RenameCmd = renameCommand"
| "simple_proc RenamenxCmd = renamenxCommand"
| "simple_proc ExpireCmd = expireCommand"
| "simple_proc ExpireatCmd = expireatCommand"
| "simple_proc PexpireCmd = pexpireCommand"
| "simple_proc PexpireatCmd = pexpireatCommand"
| "simple_proc DbsizeCmd = dbsizeCommand"
| "simple_proc TypeCmd = typeCommand"
| "simple_proc MultiCmd = multiCommand"
| "simple_proc ExecCmd = (\<lambda>c argv s. None)"
| "simple_proc DiscardCmd = discardCommand"
| "simple_proc FlushdbCmd = flushdbCommand"
| "simple_proc FlushallCmd = flushallCommand"
| "simple_proc TtlCmd = ttlCommand"
| "simple_proc TouchCmd = touchCommand"
| "simple_proc PttlCmd = pttlCommand"
| "simple_proc PersistCmd = persistCommand"
| "simple_proc WatchCmd = watchCommand"
| "simple_proc UnwatchCmd = unwatchCommand"
| "simple_proc SetbitCmd = setbitCommand"
| "simple_proc GetbitCmd = getbitCommand"
| "simple_proc BitcountCmd = bitcountCommand"
| "simple_proc BitposCmd = bitposCommand"
| "simple_proc BitopCmd = bitopCommand"
| "simple_proc (OtherCmd name) = (\<lambda>c argv s. None)"

text \<open>
  \<^verbatim>\<open>call\<close>: run the command, and propagate it to the replicas and the AOF when it changed the data.
  The command may have replaced the vector that is propagated.
\<close>

definition call :: "(command \<Rightarrow> cid \<Rightarrow> sds list \<Rightarrow> server \<Rightarrow> server option) \<Rightarrow> cid \<Rightarrow> command \<Rightarrow> sds list \<Rightarrow> server \<Rightarrow> server option" where
  "call proc c cmd argv s = do {
     let s = rewriteClientCommandVector c cmd argv s;
     let dirty0 = dirty s;
     s \<leftarrow> proc cmd c argv s;
     let cl = client_of s c;
     Some (if dirty s - dirty0 > 0 then log_call (Propagate (c_cmd cl) (c_argv cl) (c_db cl)) s else s) }"

text \<open>The queued commands; the flag is \<open>must_propagate\<close>. An EXEC is never queued.\<close>

fun exec_loop :: "cid \<Rightarrow> (command \<times> sds list) list \<Rightarrow> bool \<Rightarrow> server \<Rightarrow> (server \<times> bool) option" where
  "exec_loop c [] must_propagate s = Some (s, must_propagate)"
| "exec_loop c ((cmd, argv) # rest) must_propagate s = do {
     let first = (\<not> must_propagate \<and> \<not> is_readonly (cmd_flags cmd));
     let s = (if first then log_call (PropagateMulti (c_db (client_of s c))) s else s);
     s \<leftarrow> call simple_proc c cmd argv s;
     exec_loop c rest (must_propagate \<or> first) s }"

definition execCommand :: "cid \<Rightarrow> sds list \<Rightarrow> server \<Rightarrow> server option" where
  "execCommand c argv s =
     (let cl = client_of s c in
      if \<not> c_multi cl then Some (addReply c (ErrorReply ''EXEC without MULTI'') s)
      else if c_dirty_cas cl \<or> c_dirty_exec cl then
        discardTransaction c (addReply c (if c_dirty_exec cl
          then ErrorReply ''EXECABORT Transaction discarded because of previous errors.'' else NullMultiBulk) s)
      else do {
        s \<leftarrow> unwatchAllKeys c s;
        let s = addReply c (MultiBulkLen (length (c_mstate cl))) s;
        (s, must_propagate) \<leftarrow> exec_loop c (c_mstate cl) False s;
        let s = rewriteClientCommandVector c ExecCmd argv s;
        s \<leftarrow> discardTransaction c s;
        Some (if must_propagate then add_dirty 1 s else s) })"

definition proc :: "command \<Rightarrow> cid \<Rightarrow> sds list \<Rightarrow> server \<Rightarrow> server option" where
  "proc cmd = (if cmd = ExecCmd then execCommand else simple_proc cmd)"

text \<open>
  What other parts of the server answer while a command of the client is processed. \<open>k_evict\<close> is
  \<^verbatim>\<open>freeMemoryIfNeeded\<close> of a server with a memory limit: the new state, whether memory is still short, and whether
  the current client was freed.
\<close>

record checks =
  k_noauth :: bool
  k_redirect :: "command \<Rightarrow> sds list \<Rightarrow> reply option"
  k_evict :: "(server \<Rightarrow> server \<times> bool \<times> bool) option"
  k_disk_error :: "reply option"
  k_few_slaves :: bool
  k_ro_slave :: bool
  k_pubsub :: bool
  k_stale :: bool
  k_lua_timedout :: bool

definition quit_name :: "sds \<Rightarrow> bool" where
  "quit_name name \<longleftrightarrow> map of_char ''quit'' = map tolower (c_str name)"

text \<open>\<^verbatim>\<open>addReplyErrorFormat\<close> with a string in quotes; line breaks become spaces.\<close>

definition quoted :: "sds \<Rightarrow> string" where
  "quoted name = [CHR 0x27] @ map (\<lambda>b. if b = 10 \<or> b = 13 then CHR '' '' else char_of (unat b)) (c_str name) @ [CHR 0x27]"

text \<open>What may run while a script is over its time: AUTH, REPLCONF, SHUTDOWN NOSAVE and SCRIPT KILL.\<close>

definition starts_with :: "char \<Rightarrow> sds \<Rightarrow> bool" where
  "starts_with ch arg \<longleftrightarrow> (case arg of [] \<Rightarrow> False | b # _ \<Rightarrow> tolower b = of_char ch)"

definition allowed_in_script :: "command \<Rightarrow> sds list \<Rightarrow> bool" where
  "allowed_in_script cmd argv \<longleftrightarrow> cmd = OtherCmd ''auth'' \<or> cmd = OtherCmd ''replconf'' \<or>
     (cmd = OtherCmd ''shutdown'' \<and> length argv = 2 \<and> starts_with (CHR ''n'') (argv ! 1)) \<or>
     (cmd = OtherCmd ''script'' \<and> length argv = 2 \<and> starts_with (CHR ''k'') (argv ! 1))"

text \<open>What a client with subscriptions may send.\<close>

definition allowed_in_pubsub :: "command \<Rightarrow> bool" where
  "allowed_in_pubsub cmd \<longleftrightarrow> cmd \<in> {OtherCmd ''ping'', OtherCmd ''subscribe'', OtherCmd ''unsubscribe'',
     OtherCmd ''psubscribe'', OtherCmd ''punsubscribe''}"

text \<open>
  The flag of the result is \<open>C_OK\<close>. The tests come in the order of the code; a test that rejects the
  command inside a transaction makes its EXEC fail, except for the three that do not flag it.
\<close>

definition processCommand :: "checks \<Rightarrow> cid \<Rightarrow> sds list \<Rightarrow> server \<Rightarrow> (server \<times> bool) option" where
  "processCommand k c argv s =
     (if quit_name (argv ! 0) then Some (addReply c OkReply s, False)
      else (case lookupCommand (argv ! 0) of
        None \<Rightarrow> Some (addReply c (ErrorReply (''unknown command '' @ quoted (argv ! 0))) (flagTransaction c s), True)
      | Some (name, cmd, arity, flags) \<Rightarrow>
          if \<not> arity_ok arity argv
          then Some (addReply c (ErrorReply (''wrong number of arguments for '' @ quoted (map of_char name) @ '' command'')) (flagTransaction c s), True)
          else if k_noauth k \<and> cmd \<noteq> OtherCmd ''auth'' then Some (addReply c (ErrorReply ''NOAUTH Authentication required.'') (flagTransaction c s), True)
          else (case k_redirect k cmd argv of
            Some r \<Rightarrow> do {
              s \<leftarrow> (if cmd = ExecCmd then discardTransaction c s else Some (flagTransaction c s));
              Some (addReply c r s, True) }
          | None \<Rightarrow>
              let (s, oom, freed) = (case k_evict k of None \<Rightarrow> (s, False, False) | Some f \<Rightarrow> f s) in
              if freed then Some (s, False)
              else if is_denyoom flags \<and> oom
              then Some (addReply c (ErrorReply ''OOM command not allowed when used memory > maxmemory.'') (flagTransaction c s), True)
              else if k_disk_error k \<noteq> None \<and> \<not> masterhost (cfg s) \<and> (is_write flags \<or> cmd = OtherCmd ''ping'')
              then Some (addReply c (the (k_disk_error k)) (flagTransaction c s), True)
              else if k_few_slaves k \<and> \<not> masterhost (cfg s) \<and> is_write flags
              then Some (addReply c (ErrorReply ''NOREPLICAS Not enough good slaves to write.'') (flagTransaction c s), True)
              else if k_ro_slave k \<and> masterhost (cfg s) \<and> is_write flags
              then Some (addReply c (ErrorReply ''READONLY You can't write against a read only slave.'') s, True)
              else if k_pubsub k \<and> \<not> allowed_in_pubsub cmd
              then Some (addReply c (ErrorReply ''only (P)SUBSCRIBE / (P)UNSUBSCRIBE / PING / QUIT allowed in this context'') s, True)
              else if k_stale k \<and> masterhost (cfg s) \<and> \<not> is_stale flags
              then Some (addReply c (ErrorReply ''MASTERDOWN Link with MASTER is down and slave-serve-stale-data is set to 'no'.'') (flagTransaction c s), True)
              else if loading (cfg s) \<and> \<not> is_loading flags
              then Some (addReply c (ErrorReply ''LOADING Redis is loading the dataset in memory'') s, True)
              else if k_lua_timedout k \<and> \<not> allowed_in_script cmd argv
              then Some (addReply c (ErrorReply ''BUSY Redis is busy running a script. You can only call SCRIPT KILL or SHUTDOWN NOSAVE.'') (flagTransaction c s), True)
              else if c_multi (client_of s c) \<and> cmd \<notin> {ExecCmd, DiscardCmd, MultiCmd, WatchCmd}
              then Some (addReply c Queued (queueMultiCommand c cmd argv s), True)
              else do {
                s \<leftarrow> call proc c cmd argv s;
                Some (s, True) })))"

section \<open>Watch lists\<close>

lemma update_client_simps [simp]:
  "dbs (update_client c f s) = dbs s" "cfg (update_client c f s) = cfg s" "clients (update_client c f s) = clients s"
  "client_of (update_client c f s) d = (if d = c then f (client_of s c) else client_of s d)"
  by (simp_all add: update_client_def)

text \<open>Both views of one watched key are changed for one client.\<close>

definition rewatch :: "cid \<Rightarrow> nat \<Rightarrow> key \<Rightarrow> cid list option \<Rightarrow> (nat \<times> key) list \<Rightarrow> server \<Rightarrow> server" where
  "rewatch c i key l ws s = update_client c (\<lambda>cl. cl\<lparr>c_watched := ws\<rparr>)
     (set_db i ((dbs s ! i)\<lparr>db_watched := (db_watched (dbs s ! i))(key := l)\<rparr>) s)"

definition list_of :: "'a list option \<Rightarrow> 'a list" where
  "list_of l = (case l of None \<Rightarrow> [] | Some x \<Rightarrow> x)"

lemma watchers_eq: "watchers s i key = set (list_of (db_watched (dbs s ! i) key))"
  by (simp add: watchers_def list_of_def split: option.split)

lemma rewatch_simps [simp]:
  "cfg (rewatch c i key l ws s) = cfg s" "clients (rewatch c i key l ws s) = clients s"
  "length (dbs (rewatch c i key l ws s)) = length (dbs s)"
  "c_watched (client_of (rewatch c i key l ws s) d) = (if d = c then ws else c_watched (client_of s d))"
  "c_db (client_of (rewatch c i key l ws s) d) = c_db (client_of s d)"
  by (simp_all add: rewatch_def)

lemma rewatch_db:
  assumes "j < length (dbs s)"
  shows "db_dict (dbs (rewatch c i key l ws s) ! j) = db_dict (dbs s ! j)"
    "db_expires (dbs (rewatch c i key l ws s) ! j) = db_expires (dbs s ! j)"
    "db_watched (dbs (rewatch c i key l ws s) ! j) k = (if j = i \<and> k = key then l else db_watched (dbs s ! j) k)"
  using assms by (cases "j = i"; simp add: rewatch_def)+

lemma rewatch_watchers:
  "j < length (dbs s) \<Longrightarrow>
   watchers (rewatch c i key l ws s) j k = (if j = i \<and> k = key then set (list_of l) else watchers s j k)"
  by (simp add: watchers_eq rewatch_db)

lemma watch_okD:
  assumes "watch_ok s"
  shows "distinct (c_watched (client_of s c))" "w \<in> set (c_watched (client_of s c)) \<Longrightarrow> fst w < length (dbs s)"
    "c_watched (client_of s c) \<noteq> [] \<Longrightarrow> c \<in> set (clients s)"
    "i < length (dbs s) \<Longrightarrow> (i, k) \<in> set (c_watched (client_of s c)) \<longleftrightarrow> c \<in> watchers s i k"
    "i < length (dbs s) \<Longrightarrow> db_watched (dbs s ! i) k = Some l \<Longrightarrow> l \<noteq> [] \<and> distinct l"
  using assms unfolding watch_ok_def by blast+

lemma watch_ok_rewatch:
  assumes ok: "watch_ok s" and i: "i < length (dbs s)"
    and l: "l \<noteq> Some []" "distinct (list_of l)" "\<And>d. d \<noteq> c \<Longrightarrow> d \<in> set (list_of l) \<longleftrightarrow> d \<in> watchers s i key"
    and ws: "distinct ws" "ws \<noteq> [] \<Longrightarrow> c \<in> set (clients s)" "(i, key) \<in> set ws \<longleftrightarrow> c \<in> set (list_of l)"
      "\<And>w. w \<noteq> (i, key) \<Longrightarrow> w \<in> set ws \<longleftrightarrow> w \<in> set (c_watched (client_of s c))"
  shows "watch_ok (rewatch c i key l ws s)"
proof -
  let ?s = "rewatch c i key l ws s"
  have 1: "distinct (c_watched (client_of ?s d)) \<and> (\<forall>w \<in> set (c_watched (client_of ?s d)). fst w < length (dbs ?s)) \<and>
      (c_watched (client_of ?s d) \<noteq> [] \<longrightarrow> d \<in> set (clients ?s))" for d
  proof (cases "d = c")
    case True
    have "fst w < length (dbs s)" if "w \<in> set ws" for w
      using that ws(4) watch_okD(2) [OF ok] i by (cases "w = (i, key)") auto
    then show ?thesis using True ws by simp
  qed (use watch_okD [OF ok] in simp)
  have 2: "(j, k) \<in> set (c_watched (client_of ?s d)) \<longleftrightarrow> d \<in> watchers ?s j k" if j: "j < length (dbs s)" for j k d
    using watch_okD(4) [OF ok j] l(3) ws(3,4) rewatch_watchers [OF j, of c i key l ws k] by (cases "d = c") auto
  have 3: "x \<noteq> [] \<and> distinct x" if "j < length (dbs s)" "db_watched (dbs ?s ! j) k = Some x" for j k x
    using that watch_okD(5) [OF ok] l(1,2) by (auto simp: rewatch_db list_of_def split: if_splits)
  show ?thesis unfolding watch_ok_def using 1 2 3 by simp
qed

lemma db_ok_rewatch:
  "j < length (dbs s) \<Longrightarrow> db_ok (dbs (rewatch c i key l ws s) ! j) = db_ok (dbs s ! j)"
  by (simp add: db_ok_def rewatch_db)

lemma server_ok_rewatch:
  "server_ok s \<Longrightarrow> watch_ok (rewatch c i key l ws s) \<Longrightarrow> server_ok (rewatch c i key l ws s)"
  by (simp add: server_ok_def db_ok_rewatch)

lemma watchForKey_eq:
  "watchForKey c key s = (let i = c_db (client_of s c); ws = c_watched (client_of s c) in
     if (i, key) \<in> set ws then s
     else rewatch c i key (Some (list_of (db_watched (dbs s ! i) key) @ [c])) (ws @ [(i, key)]) s)"
  by (simp add: watchForKey_def rewatch_def update_client_def set_db_def list_of_def Let_def)

lemma unwatch_key_eq:
  "unwatch_key c (i, key) s = (case db_watched (dbs s ! i) key of None \<Rightarrow> None
     | Some l \<Rightarrow> Some (rewatch c i key (if remove1 c l = [] then None else Some (remove1 c l))
         (remove1 (i, key) (c_watched (client_of s c))) s))"
  by (simp add: unwatch_key_def rewatch_def update_client_def set_db_def Let_def split: option.split)

lemma watchForKey_ok:
  assumes ok: "server_ok s" and c: "c \<in> set (clients s)"
  shows "server_ok (watchForKey c key s)"
proof -
  let ?i = "c_db (client_of s c)" and ?ws = "c_watched (client_of s c)"
  have w: "watch_ok s" and i: "?i < length (dbs s)" using ok by (simp_all add: server_ok_def)
  let ?l = "list_of (db_watched (dbs s ! ?i) key)"
  have "server_ok (rewatch c ?i key (Some (?l @ [c])) (?ws @ [(?i, key)]) s)" if n: "(?i, key) \<notin> set ?ws"
  proof (intro server_ok_rewatch ok watch_ok_rewatch [OF w i])
    have cn: "c \<notin> set ?l" using n watch_okD(4) [OF w i] by (simp add: watchers_eq)
    moreover have "distinct ?l"
      using watch_okD(5) [OF w i] by (cases "db_watched (dbs s ! ?i) key") (simp_all add: list_of_def)
    ultimately show "distinct (list_of (Some (?l @ [c])))" by (simp add: list_of_def)
  qed (use n c watch_okD(1) [OF w] in \<open>auto simp: list_of_def watchers_def split: option.splits\<close>)
  then show ?thesis using ok by (simp add: watchForKey_eq Let_def)
qed

lemma unwatch_key_ok:
  assumes ok: "server_ok s" and w: "w \<in> set (c_watched (client_of s c))"
  shows "\<exists>l s'. unwatch_key c w s = Some s' \<and> server_ok s' \<and>
    s' = rewatch c (fst w) (snd w) l (remove1 w (c_watched (client_of s c))) s"
proof -
  obtain i key where ik: "w = (i, key)" by (cases w)
  have wok: "watch_ok s" using ok by (simp add: server_ok_def)
  have i: "i < length (dbs s)" using watch_okD(2) [OF wok w] ik by simp
  have "c \<in> watchers s i key" using watch_okD(4) [OF wok i] w ik by simp
  then obtain l where l: "db_watched (dbs s ! i) key = Some l" "c \<in> set l"
    by (auto simp: watchers_def split: option.splits)
  have d: "distinct l" using watch_okD(5) [OF wok i l(1)] by simp
  let ?l = "if remove1 c l = [] then None else Some (remove1 c l)"
  let ?s = "rewatch c i key ?l (remove1 w (c_watched (client_of s c))) s"
  have lo: "list_of ?l = remove1 c l" by (simp add: list_of_def)
  have "server_ok ?s"
  proof (intro server_ok_rewatch ok watch_ok_rewatch [OF wok i])
    show "distinct (list_of ?l)" unfolding lo using d by (rule distinct_remove1)
    show "x \<in> set (list_of ?l) \<longleftrightarrow> x \<in> watchers s i key" if "x \<noteq> c" for x
      unfolding lo using that l(1) by (simp add: watchers_def)
    show "c \<in> set (clients s)" using watch_okD(3) [OF wok, of c] w by fastforce
    show "(i, key) \<in> set (remove1 w (c_watched (client_of s c))) \<longleftrightarrow> c \<in> set (list_of ?l)"
      unfolding lo using d watch_okD(1) [OF wok] ik by simp
  qed (use watch_okD(1) [OF wok] ik in simp_all)
  then show ?thesis using l(1) ik by (auto simp: unwatch_key_eq)
qed

section \<open>What a client can do to the others\<close>

text \<open>
  The effect of steps of the client \<open>c\<close>: the invariant holds, the transaction state of the other
  clients stays, and, if the flag is set, a client that watches a key that was changed is marked.
\<close>

definition steps :: "cid \<Rightarrow> bool \<Rightarrow> server \<Rightarrow> server \<Rightarrow> bool" where
  "steps c fair s s' \<longleftrightarrow> server_ok s' \<and> cfg s' = cfg s \<and> clients s' = clients s \<and> length (dbs s') = length (dbs s) \<and>
     c_mstate (client_of s' c) \<in> {[], c_mstate (client_of s c)} \<and>
     (\<forall>d. d \<noteq> c \<longrightarrow> c_watched (client_of s' d) = c_watched (client_of s d) \<and>
        c_multi (client_of s' d) = c_multi (client_of s d) \<and> c_mstate (client_of s' d) = c_mstate (client_of s d) \<and>
        c_dirty_exec (client_of s' d) = c_dirty_exec (client_of s d) \<and>
        (c_dirty_cas (client_of s d) \<longrightarrow> c_dirty_cas (client_of s' d)) \<and>
        (fair \<longrightarrow> (\<forall>(i, k) \<in> set (c_watched (client_of s d)). \<not> is_expired s i k \<and> changed s s' i k \<longrightarrow>
           c_dirty_cas (client_of s' d))))"

lemma steps_refl: "server_ok s \<Longrightarrow> steps c fair s s"
  by (simp add: steps_def changed_def)

lemma steps_trans:
  assumes a: "steps c fair s t" and b: "steps c fair t u"
  shows "steps c fair s u"
proof -
  have "c_dirty_cas (client_of u d)"
    if d: "d \<noteq> c" and fair and ik: "(i, k) \<in> set (c_watched (client_of s d))" "\<not> is_expired s i k" "changed s u i k" for d i k
  proof (cases "changed s t i k")
    case True
    then have "c_dirty_cas (client_of t d)" using a that unfolding steps_def by blast
    then show ?thesis using b d unfolding steps_def by blast
  next
    case False
    then have "changed t u i k" "is_expired t i k = is_expired s i k"
      using ik(3) a by (auto simp: changed_def is_expired_def steps_def)
    moreover have "(i, k) \<in> set (c_watched (client_of t d))" using a d ik(1) unfolding steps_def by simp
    ultimately show ?thesis using b d \<open>fair\<close> ik(2) unfolding steps_def by blast
  qed
  moreover have "server_ok u \<and> cfg u = cfg s \<and> clients u = clients s \<and> length (dbs u) = length (dbs s)"
    "c_mstate (client_of u c) \<in> {[], c_mstate (client_of s c)}"
    using a b by (auto simp: steps_def)
  moreover have "c_watched (client_of u d) = c_watched (client_of s d) \<and> c_multi (client_of u d) = c_multi (client_of s d) \<and>
      c_mstate (client_of u d) = c_mstate (client_of s d) \<and> c_dirty_exec (client_of u d) = c_dirty_exec (client_of s d) \<and>
      (c_dirty_cas (client_of s d) \<longrightarrow> c_dirty_cas (client_of u d))" if "d \<noteq> c" for d
    using a b that by (simp add: steps_def)
  ultimately show ?thesis unfolding steps_def by blast
qed

text \<open>The commands on the data, by the results for \<open>G\<close>.\<close>

lemma steps_G:
  assumes ok: "server_ok s" and g: "G s (if fair then {} else UNIV) {} s'"
  shows "steps c fair s s'"
proof -
  have w: "watch_ok s" using ok by (simp add: server_ok_def)
  have "c_dirty_cas (client_of s' d)"
    if fair "(i, k) \<in> set (c_watched (client_of s d))" "\<not> is_expired s i k" "changed s s' i k" for d i k
  proof -
    have i: "i < length (dbs s)" using watch_okD(2) [OF w that(2)] by simp
    then have "d \<in> watchers s i k" using watch_okD(4) [OF w i] that(2) by simp
    then show ?thesis using rel_changedD [of "{}" "{}" s s' i k d] g that i by (simp add: G_def)
  qed
  then show ?thesis using g unfolding steps_def G_def rel_def by (elim conjE) auto
qed

lemma steps_quiet:
  assumes "server_ok s" "same_core s s'"
  shows "steps c fair s s'"
  by (rule steps_G [OF assms(1)], rule G_mono [OF G_same_core [OF assms(2) G_start [OF assms(1)]]]) simp

lemma steps_rewatch:
  assumes "server_ok s" "server_ok (rewatch c i key l ws s)"
  shows "steps c fair s (rewatch c i key l ws s)"
proof -
  let ?s = "rewatch c i key l ws s"
  have "\<not> changed s ?s j k" if "j < length (dbs s)" for j k using that by (simp add: changed_def rewatch_db)
  then have "\<not> changed s ?s (fst w) k" if "w \<in> set (c_watched (client_of s d))" for w d k
    using that watch_okD(2) assms(1) by (simp add: server_ok_def)
  then show ?thesis using assms(2) unfolding steps_def by (fastforce simp: rewatch_def)
qed

lemma steps_update:
  assumes ok: "server_ok s" and f: "\<And>cl. c_db (f cl) = c_db cl" "\<And>cl. c_watched (f cl) = c_watched cl"
    "\<And>cl. c_mstate (f cl) \<in> {[], c_mstate cl}"
  shows "steps c fair s (update_client c f s)"
proof -
  have "watch_ok (update_client c f s) = watch_ok s" by (intro watch_ok_cong) (simp_all add: f)
  then have "server_ok (update_client c f s)" using ok by (simp add: server_ok_def f)
  then show ?thesis using f(3) by (simp add: steps_def changed_def)
qed

lemma watched_only_trans:
  fixes a b e :: client
  shows "b = a\<lparr>c_watched := c_watched b\<rparr> \<Longrightarrow> e = b\<lparr>c_watched := c_watched e\<rparr> \<Longrightarrow> e = a\<lparr>c_watched := c_watched e\<rparr>"
  by (cases a; cases b; cases e) simp

lemma unwatch_loop_ok:
  "server_ok s \<Longrightarrow> c_watched (client_of s c) = ws \<Longrightarrow>
   \<exists>s'. unwatch_loop c ws s = Some s' \<and> steps c fair s s' \<and> c_watched (client_of s' c) = [] \<and>
     (\<forall>j < length (dbs s). db_dict (dbs s' ! j) = db_dict (dbs s ! j) \<and> db_expires (dbs s' ! j) = db_expires (dbs s ! j)) \<and>
     (\<forall>d. client_of s' d = (client_of s d)\<lparr>c_watched := c_watched (client_of s' d)\<rparr>)"
proof (induction ws arbitrary: s)
  case Nil
  then show ?case by (simp add: steps_refl)
next
  case (Cons w ws)
  have "w \<in> set (c_watched (client_of s c))" using Cons.prems by simp
  from unwatch_key_ok [OF Cons.prems(1) this] obtain l s1 where s1: "unwatch_key c w s = Some s1" "server_ok s1"
    "s1 = rewatch c (fst w) (snd w) l (remove1 w (c_watched (client_of s c))) s" by blast
  have l1: "length (dbs s1) = length (dbs s)" and w1: "c_watched (client_of s1 c) = ws"
    using s1(3) Cons.prems(2) by simp_all
  from Cons.IH [OF s1(2) w1] obtain s' where s': "unwatch_loop c ws s1 = Some s'" "steps c fair s1 s'" "c_watched (client_of s' c) = []"
    "\<forall>j < length (dbs s1). db_dict (dbs s' ! j) = db_dict (dbs s1 ! j) \<and> db_expires (dbs s' ! j) = db_expires (dbs s1 ! j)"
    "\<forall>d. client_of s' d = (client_of s1 d)\<lparr>c_watched := c_watched (client_of s' d)\<rparr>" by blast
  have "steps c fair s s1" using steps_rewatch Cons.prems(1) s1(2,3) by blast
  then have "steps c fair s s'" using s'(2) by (rule steps_trans)
  moreover have "db_dict (dbs s1 ! j) = db_dict (dbs s ! j)" "db_expires (dbs s1 ! j) = db_expires (dbs s ! j)"
    if "j < length (dbs s)" for j using that s1(3) by (simp_all add: rewatch_db)
  moreover have "client_of s1 d = (client_of s d)\<lparr>c_watched := c_watched (client_of s1 d)\<rparr>" for d
    using s1(3) by (simp add: rewatch_def)
  then have "client_of s' d = (client_of s d)\<lparr>c_watched := c_watched (client_of s' d)\<rparr>" for d
    using s'(5) watched_only_trans by blast
  ultimately show ?case using s1(1) s'(1,3,4) l1 by simp
qed

lemma unwatchAllKeys_ok:
  "server_ok s \<Longrightarrow>
   \<exists>s'. unwatchAllKeys c s = Some s' \<and> steps c fair s s' \<and> c_watched (client_of s' c) = [] \<and>
     (\<forall>j < length (dbs s). db_dict (dbs s' ! j) = db_dict (dbs s ! j) \<and> db_expires (dbs s' ! j) = db_expires (dbs s ! j)) \<and>
     (\<forall>d. client_of s' d = (client_of s d)\<lparr>c_watched := c_watched (client_of s' d)\<rparr>)"
  unfolding unwatchAllKeys_def by (rule unwatch_loop_ok) simp_all

lemma steps_ok: "steps c fair s s' \<Longrightarrow> server_ok s'"
  by (simp add: steps_def)

lemma steps_quiet_after: "steps c fair s s' \<Longrightarrow> same_core s' s'' \<Longrightarrow> steps c fair s s''"
  by (rule steps_trans, assumption, rule steps_quiet) (simp_all add: steps_def)

lemma steps_update_after:
  "steps c fair s s' \<Longrightarrow> (\<And>cl. c_db (f cl) = c_db cl) \<Longrightarrow> (\<And>cl. c_watched (f cl) = c_watched cl) \<Longrightarrow>
   (\<And>cl. c_mstate (f cl) \<in> {[], c_mstate cl}) \<Longrightarrow> steps c fair s (update_client c f s')"
  by (rule steps_trans, assumption, rule steps_update) (simp_all add: steps_def)

lemma discardTransaction_ok:
  assumes "server_ok s"
  shows "\<exists>s'. discardTransaction c s = Some s' \<and> steps c fair s s' \<and>
    (\<forall>j < length (dbs s). db_dict (dbs s' ! j) = db_dict (dbs s ! j) \<and> db_expires (dbs s' ! j) = db_expires (dbs s ! j)) \<and>
    (\<forall>d. d \<noteq> c \<longrightarrow> client_of s' d = client_of s d) \<and>
    client_of s' c = (client_of s c)\<lparr>c_mstate := [], c_multi := False, c_dirty_cas := False, c_dirty_exec := False, c_watched := []\<rparr>"
proof -
  let ?f = "\<lambda>cl. cl\<lparr>c_mstate := [], c_multi := False, c_dirty_cas := False, c_dirty_exec := False\<rparr>"
  let ?s = "update_client c ?f s"
  have st: "steps c fair s ?s" by (rule steps_update [OF assms]) simp_all
  from unwatchAllKeys_ok [OF steps_ok [OF st]] obtain s' where s': "unwatchAllKeys c ?s = Some s'" "steps c fair ?s s'"
    "c_watched (client_of s' c) = []"
    "\<forall>j < length (dbs ?s). db_dict (dbs s' ! j) = db_dict (dbs ?s ! j) \<and> db_expires (dbs s' ! j) = db_expires (dbs ?s ! j)"
    "\<forall>d. client_of s' d = (client_of ?s d)\<lparr>c_watched := c_watched (client_of s' d)\<rparr>" by blast
  have c: "client_of s' c = (client_of s c)\<lparr>c_mstate := [], c_multi := False, c_dirty_cas := False, c_dirty_exec := False, c_watched := []\<rparr>"
    using s'(5) [rule_format, of c] s'(3) by simp
  have "client_of s' d = client_of s d" if "d \<noteq> c" for d
    using s'(5) [rule_format, of d] that s'(2) by (simp add: steps_def)
  then show ?thesis using c s'(1,4) steps_trans [OF st s'(2)] by (simp add: discardTransaction_def)
qed

section \<open>The commands\<close>

text \<open>The number of arguments that a command can rely on.\<close>

definition min_args :: "command \<Rightarrow> nat" where
  "min_args cmd = (if cmd \<in> {SetexCmd, PsetexCmd, SetrangeCmd} then 4
     else if cmd \<in> {SetCmd, SetnxCmd, AppendCmd, GetsetCmd} then 3 else 0)"

fun modelled :: "command \<Rightarrow> bool" where
  "modelled (OtherCmd name) = False"
| "modelled cmd = True"

text \<open>
  A modelled command with arguments as the protocol delivers them, of at most 512 MB. SETRANGE is assumed not to get an
  offset that overflows.
\<close>

definition args_ok :: "command \<Rightarrow> sds list \<Rightarrow> bool" where
  "args_ok cmd argv \<longleftrightarrow> modelled cmd \<and> (\<forall>a \<in> set argv. length a \<le> STRING_MAX) \<and> min_args cmd \<le> length argv \<and>
     (cmd = SetrangeCmd \<longrightarrow> (\<forall>offset. string2ll (argv ! 2) = Some offset \<longrightarrow> sint offset + int (length (argv ! 3)) < 2 ^ 63))"

lemma table_min_args:
  assumes "(name, cmd, arity, flags) \<in> set redisCommandTable" "arity_ok arity argv"
  shows "min_args cmd \<le> length argv"
  using assms by (auto simp: redisCommandTable_def min_args_def arity_ok_def)

lemma table_exec: "(name, ExecCmd, arity, flags) \<in> set redisCommandTable \<Longrightarrow> name = ''exec''"
  by (auto simp: redisCommandTable_def)

lemma args_ok_nth: "args_ok cmd argv \<Longrightarrow> j < min_args cmd \<Longrightarrow> length (argv ! j) \<le> STRING_MAX"
  by (simp add: args_ok_def)

text \<open>Every command on data keeps the invariant; all but MOVE and PERSIST mark the watchers.\<close>

abbreviation "data_command cmd \<equiv> cmd \<notin> {MultiCmd, ExecCmd, DiscardCmd, WatchCmd, UnwatchCmd}"
abbreviation "fair_command cmd \<equiv> cmd \<notin> {MoveCmd, PersistCmd}"

lemma data_proc_G:
  assumes "G s {} {} s" "args_ok cmd argv" "data_command cmd" "fair_command cmd"
  shows "wp (simple_proc cmd c argv s) (G s {} {})"
proof -
  note g = assms(1)
  note rules = db_commands_wp [OF g] rename_commands_wp [OF g] expire_commands_wp [OF g] set_commands_wp [OF g] getCommand_wp [OF g]
    getsetCommand_wp [OF g] strlenCommand_wp [OF g] mgetCommand_wp [OF g] getrangeCommand_wp [OF g]
    counter_commands_wp [OF g] appendCommand_wp [OF g] setbitCommand_wp [OF g] getbitCommand_wp [OF g] bitcountCommand_wp [OF g]
    bitposCommand_wp [OF g] bitopCommand_wp [OF g]
  have mset: "wp (msetGenericCommand nx c argv s) (G s {} {})" for nx
    by (rule msetGenericCommand_wp [OF g]) (use assms(2) in \<open>cases argv, auto simp: args_ok_def\<close>)
  have range: "wp (setrangeCommand c argv s) (G s {} {})" if "cmd = SetrangeCmd"
    by (rule setrangeCommand_wp [OF g]) (use assms(2) that in \<open>simp add: args_ok_def\<close>)
  have nth: "j < min_args cmd \<Longrightarrow> length (argv ! j) \<le> STRING_MAX" for j by (rule args_ok_nth [OF assms(2)])
  have "modelled cmd" using assms(2) by (simp add: args_ok_def)
  then show ?thesis
    using assms(3,4) nth rules mset range
    by (cases cmd) (simp_all add: min_args_def msetCommand_def msetnxCommand_def)
qed

lemma data_proc_steps:
  assumes ok: "server_ok s" and a: "args_ok cmd argv" "data_command cmd" "fair \<longrightarrow> fair_command cmd"
  shows "wp (simple_proc cmd c argv s) (steps c fair s)"
proof -
  have g: "G s {} {} s" by (rule G_start [OF ok])
  have "wp (simple_proc cmd c argv s) (G s (if fair then {} else UNIV) {})"
  proof (cases "fair_command cmd")
    case True
    show ?thesis by (rule wp_mono [OF data_proc_G [OF g a(1,2) True]]) (erule G_mono, simp)
  next
    case False
    then have "wp (simple_proc cmd c argv s) (G s (UNIV \<times> {argv ! 1}) {})"
      using moveCommand_wp [OF g] persistCommand_wp [OF g] by auto
    then show ?thesis using False a(3) by (elim wp_mono) (auto elim: G_mono)
  qed
  then show ?thesis by (rule wp_mono) (rule steps_G [OF ok])
qed

lemma watch_fold_steps:
  "server_ok s \<Longrightarrow> c \<in> set (clients s) \<Longrightarrow> steps c fair s (fold (watchForKey c) keys s)"
proof (induction keys arbitrary: s)
  case (Cons key keys)
  have "steps c fair s (watchForKey c key s)"
    using watchForKey_ok [OF Cons.prems, of key] steps_rewatch [OF Cons.prems(1)] steps_refl [OF Cons.prems(1)]
    unfolding watchForKey_eq Let_def by (auto split: if_splits)
  moreover from this have "steps c fair (watchForKey c key s) (fold (watchForKey c) keys (watchForKey c key s))"
    using Cons.IH [of "watchForKey c key s"] Cons.prems(2) by (simp add: steps_def)
  ultimately show ?case unfolding fold_Cons comp_apply by (rule steps_trans)
qed (simp add: steps_refl)

text \<open>Commands of transactions, except EXEC.\<close>

lemma control_proc_steps:
  assumes ok: "server_ok s" and c: "c \<in> set (clients s)"
  shows "wp (multiCommand c argv s) (steps c fair s)" "wp (discardCommand c argv s) (steps c fair s)"
    "wp (watchCommand c argv s) (steps c fair s)" "wp (unwatchCommand c argv s) (steps c fair s)"
proof -
  note refl = steps_refl [OF ok] and reply = steps_quiet_after [OF _ same_core_simps(1)]
  show "wp (multiCommand c argv s) (steps c fair s)"
    using reply [OF refl] reply [OF steps_update [OF ok]] by (simp add: multiCommand_def)
  show "wp (watchCommand c argv s) (steps c fair s)"
    using reply [OF refl] reply [OF watch_fold_steps [OF ok c]] by (simp add: watchCommand_def)
  show "wp (discardCommand c argv s) (steps c fair s)"
  proof -
    obtain s' where s': "discardTransaction c s = Some s'" "steps c fair s s'" using discardTransaction_ok [OF ok] by blast
    then show ?thesis using reply [OF refl] reply [OF s'(2)] by (simp add: discardCommand_def)
  qed
  show "wp (unwatchCommand c argv s) (steps c fair s)"
  proof -
    obtain s' where s': "unwatchAllKeys c s = Some s'" "steps c fair s s'" using unwatchAllKeys_ok [OF ok] by blast
    then show ?thesis using reply [OF steps_update_after [OF s'(2)]] by (simp add: unwatchCommand_def Let_def)
  qed
qed

lemma simple_proc_steps:
  assumes "server_ok s" "c \<in> set (clients s)" "args_ok cmd argv" "cmd \<noteq> ExecCmd" "fair \<longrightarrow> fair_command cmd"
  shows "wp (simple_proc cmd c argv s) (steps c fair s)"
proof (cases "data_command cmd")
  case True
  then show ?thesis using data_proc_steps assms by blast
next
  case False
  then show ?thesis using control_proc_steps [OF assms(1,2)] assms(4) by auto
qed

lemma call_steps:
  assumes ok: "server_ok s" and p: "\<And>t. server_ok t \<Longrightarrow> clients t = clients s \<Longrightarrow>
      client_of t c = (client_of s c)\<lparr>c_cmd := cmd, c_argv := argv\<rparr> \<Longrightarrow> dbs t = dbs s \<Longrightarrow> wp (pr cmd c argv t) (steps c fair t)"
  shows "wp (call pr c cmd argv s) (steps c fair s)"
proof -
  let ?t = "rewriteClientCommandVector c cmd argv s"
  have st: "steps c fair s ?t" by (rule steps_quiet [OF ok same_core_simps(9)])
  have "clients ?t = clients s" "client_of ?t c = (client_of s c)\<lparr>c_cmd := cmd, c_argv := argv\<rparr>" "dbs ?t = dbs s"
    by (simp_all add: rewriteClientCommandVector_def)
  from p [OF steps_ok [OF st] this] have "wp (pr cmd c argv ?t) (steps c fair s)"
    by (rule wp_mono) (rule steps_trans [OF st])
  then show ?thesis unfolding call_def Let_def
    by (intro wp_bindI) (erule wp_mono, simp add: steps_quiet_after [OF _ same_core_simps(3)])
qed

text \<open>Commands that may wait in a queue.\<close>

definition queued_ok :: "bool \<Rightarrow> (command \<times> sds list) list \<Rightarrow> bool" where
  "queued_ok fair q \<longleftrightarrow> (\<forall>(cmd, argv) \<in> set q. cmd \<noteq> ExecCmd \<and> args_ok cmd argv \<and> (fair \<longrightarrow> fair_command cmd))"

lemma exec_loop_steps:
  "server_ok s \<Longrightarrow> c \<in> set (clients s) \<Longrightarrow> queued_ok fair q \<Longrightarrow>
   wp (exec_loop c q mp s) (\<lambda>(s', _). steps c fair s s')"
proof (induction q arbitrary: s mp)
  case (Cons x q)
  obtain cmd argv where x: "x = (cmd, argv)" by (cases x)
  have q: "cmd \<noteq> ExecCmd" "args_ok cmd argv" "fair \<longrightarrow> fair_command cmd" "queued_ok fair q"
    using Cons.prems(3) x by (auto simp: queued_ok_def)
  define t where "t = (if \<not> mp \<and> \<not> is_readonly (cmd_flags cmd) then log_call (PropagateMulti (c_db (client_of s c))) s else s)"
  have t: "steps c fair s t" unfolding t_def using steps_quiet [OF Cons.prems(1) same_core_simps(3)] steps_refl [OF Cons.prems(1)] by simp
  have ct: "c \<in> set (clients t)" using t Cons.prems(2) by (simp add: steps_def)
  have "wp (call simple_proc c cmd argv t) (steps c fair t)"
    by (rule call_steps [OF steps_ok [OF t]]) (use simple_proc_steps q ct in auto)
  then have "wp (call simple_proc c cmd argv t) (\<lambda>s1. wp (exec_loop c q (mp \<or> \<not> mp \<and> \<not> is_readonly (cmd_flags cmd)) s1) (\<lambda>(s', _). steps c fair s s'))"
  proof (rule wp_mono)
    fix s1 assume s1: "steps c fair t s1"
    have "wp (exec_loop c q (mp \<or> \<not> mp \<and> \<not> is_readonly (cmd_flags cmd)) s1) (\<lambda>(s', _). steps c fair s1 s')"
      by (rule Cons.IH [OF steps_ok [OF s1] _ q(4)]) (use s1 ct in \<open>simp add: steps_def\<close>)
    then show "wp (exec_loop c q (mp \<or> \<not> mp \<and> \<not> is_readonly (cmd_flags cmd)) s1) (\<lambda>(s', _). steps c fair s s')"
      by (rule wp_mono) (use steps_trans [OF steps_trans [OF t s1]] in auto)
  qed
  then show ?case unfolding x exec_loop.simps Let_def t_def by (rule wp_bindI)
qed (simp add: steps_refl)

lemma execCommand_steps:
  assumes ok: "server_ok s" and c: "c \<in> set (clients s)" and q: "queued_ok fair (c_mstate (client_of s c))"
  shows "wp (execCommand c argv s) (\<lambda>s'. steps c fair s s' \<and> (c_multi (client_of s c) \<longrightarrow> c_mstate (client_of s' c) = []))"
proof -
  have reply: "steps c fair s (addReply c r s)" for r by (rule steps_quiet [OF ok same_core_simps(1)])
  have disc: "wp (discardTransaction c t) (\<lambda>s'. steps c fair s s' \<and> c_mstate (client_of s' c) = [])" if st: "steps c fair s t" for t
  proof -
    obtain s' where "discardTransaction c t = Some s'" "steps c fair t s'" "c_mstate (client_of s' c) = []"
      using discardTransaction_ok [OF steps_ok [OF st], of c fair] by auto
    then show ?thesis using steps_trans [OF st] by simp
  qed
  have run: "wp (unwatchAllKeys c s \<bind> (\<lambda>s1. exec_loop c (c_mstate (client_of s c)) False (addReply c (MultiBulkLen (length (c_mstate (client_of s c)))) s1) \<bind>
      (\<lambda>(s, mp). discardTransaction c (rewriteClientCommandVector c ExecCmd argv s) \<bind> (\<lambda>s. Some (if mp then add_dirty 1 s else s)))))
      (\<lambda>s'. steps c fair s s' \<and> c_mstate (client_of s' c) = [])"
  proof (rule wp_bindI)
    obtain s1 where s1: "unwatchAllKeys c s = Some s1" "steps c fair s s1" using unwatchAllKeys_ok [OF ok] by blast
    let ?t = "addReply c (MultiBulkLen (length (c_mstate (client_of s c)))) s1"
    have t: "steps c fair s ?t" by (rule steps_quiet_after [OF s1(2) same_core_simps(1)])
    have ct: "c \<in> set (clients ?t)" using t c by (simp add: steps_def)
    have "wp (exec_loop c (c_mstate (client_of s c)) False ?t) (\<lambda>(s2, mp). wp (discardTransaction c (rewriteClientCommandVector c ExecCmd argv s2))
        (\<lambda>s'. steps c fair s (if mp then add_dirty 1 s' else s') \<and> c_mstate (client_of (if mp then add_dirty 1 s' else s') c) = []))"
    proof (rule wp_mono [OF exec_loop_steps [OF steps_ok [OF t] ct q]], unfold case_prod_unfold)
      fix p :: "server \<times> bool" assume "steps c fair ?t (fst p)"
      then have "steps c fair s (rewriteClientCommandVector c ExecCmd argv (fst p))"
        by (intro steps_quiet_after [OF _ same_core_simps(9)] steps_trans [OF t])
      from disc [OF this] show "wp (discardTransaction c (rewriteClientCommandVector c ExecCmd argv (fst p)))
        (\<lambda>s'. steps c fair s (if snd p then add_dirty 1 s' else s') \<and> c_mstate (client_of (if snd p then add_dirty 1 s' else s') c) = [])"
        by (rule wp_mono) (use steps_quiet_after [OF _ same_core_simps(2)] in auto)
    qed
    then show "wp (unwatchAllKeys c s) (\<lambda>s1. wp (exec_loop c (c_mstate (client_of s c)) False (addReply c (MultiBulkLen (length (c_mstate (client_of s c)))) s1) \<bind>
      (\<lambda>(s, mp). discardTransaction c (rewriteClientCommandVector c ExecCmd argv s) \<bind> (\<lambda>s. Some (if mp then add_dirty 1 s else s))))
      (\<lambda>s'. steps c fair s s' \<and> c_mstate (client_of s' c) = []))"
      using s1(1) by (simp add: case_prod_unfold)
  qed
  show ?thesis unfolding execCommand_def Let_def
    by (intro wp_ifI; (rule wp_mono [OF run] | rule wp_mono [OF disc [OF reply]] | simp add: reply)) auto
qed

section \<open>Processing commands\<close>

definition inv :: "bool \<Rightarrow> server \<Rightarrow> bool" where
  "inv fair s \<longleftrightarrow> server_ok s \<and> (\<forall>c. queued_ok fair (c_mstate (client_of s c)))"

text \<open>How a client that does not act sees a step.\<close>

definition protects :: "cid \<Rightarrow> server \<Rightarrow> server \<Rightarrow> bool" where
  "protects d s s' \<longleftrightarrow> length (dbs s') = length (dbs s) \<and> c_watched (client_of s' d) = c_watched (client_of s d) \<and>
     c_multi (client_of s' d) = c_multi (client_of s d) \<and> c_mstate (client_of s' d) = c_mstate (client_of s d) \<and>
     c_dirty_exec (client_of s' d) = c_dirty_exec (client_of s d) \<and>
     (c_dirty_cas (client_of s d) \<longrightarrow> c_dirty_cas (client_of s' d)) \<and>
     (\<forall>(i, k) \<in> set (c_watched (client_of s d)). \<not> is_expired s i k \<and> changed s s' i k \<longrightarrow> c_dirty_cas (client_of s' d))"

definition done_ok :: "bool \<Rightarrow> cid \<Rightarrow> server \<Rightarrow> server \<Rightarrow> bool" where
  "done_ok fair c s s' \<longleftrightarrow> inv fair s' \<and> clients s' = clients s \<and> cfg s' = cfg s \<and> (fair \<longrightarrow> (\<forall>d. d \<noteq> c \<longrightarrow> protects d s s'))"

lemma queued_ok_simps [simp]:
  "queued_ok fair []"
  "queued_ok fair (q @ [(cmd, argv)]) \<longleftrightarrow> queued_ok fair q \<and> cmd \<noteq> ExecCmd \<and> args_ok cmd argv \<and> (fair \<longrightarrow> fair_command cmd)"
  by (auto simp: queued_ok_def)

lemma steps_done:
  assumes "inv fair s" "steps c fair s s'"
  shows "done_ok fair c s s'"
proof -
  have "queued_ok fair (c_mstate (client_of s' d))" for d
    using assms by (cases "d = c") (auto simp: steps_def inv_def)
  then show ?thesis using assms(2) by (auto simp: done_ok_def inv_def steps_def protects_def)
qed

lemma queue_done:
  assumes i: "inv fair s" and q: "cmd \<noteq> ExecCmd" "args_ok cmd argv" "fair \<longrightarrow> fair_command cmd"
  shows "done_ok fair c s (addReply c Queued (queueMultiCommand c cmd argv s))"
proof -
  let ?s = "queueMultiCommand c cmd argv s"
  have "watch_ok ?s = watch_ok s" by (intro watch_ok_cong) (simp_all add: queueMultiCommand_def)
  then have ok: "server_ok ?s" using i by (simp add: server_ok_def inv_def queueMultiCommand_def)
  have m: "same_core ?s (addReply c Queued ?s)" by (rule same_core_simps(1))
  have ok2: "server_ok (addReply c Queued ?s)" using G_same_core [OF m G_start [OF ok]] by (simp add: G_def)
  have ms: "queued_ok fair (c_mstate (client_of (addReply c Queued ?s) d))" for d
    using i q by (cases "d = c") (auto simp: inv_def queueMultiCommand_def addReply_def)
  have "protects d s (addReply c Queued ?s)" if "d \<noteq> c" for d
    using that by (simp add: protects_def queueMultiCommand_def addReply_def changed_def)
  then show ?thesis using ok2 ms by (simp add: done_ok_def inv_def queueMultiCommand_def addReply_def)
qed

lemma flag_steps: "server_ok s \<Longrightarrow> steps c fair s (addReply c r (flagTransaction c s))"
  by (rule steps_quiet_after [OF _ same_core_simps(1)]) (simp add: flagTransaction_def steps_update steps_refl)

lemma lookup_table: "lookupCommand name = Some e \<Longrightarrow> e \<in> set redisCommandTable"
  unfolding lookupCommand_def by (auto simp: find_Some_iff in_set_conv_nth)

text \<open>The requests that clients send: modelled commands, bounded arguments, and no overflowing SETRANGE.\<close>

definition request_ok :: "bool \<Rightarrow> sds list \<Rightarrow> bool" where
  "request_ok fair argv \<longleftrightarrow> (\<forall>a \<in> set argv. length a \<le> STRING_MAX) \<and>
     (case lookupCommand (argv ! 0) of None \<Rightarrow> True | Some (_, cmd, _) \<Rightarrow> modelled cmd \<and>
        (cmd = SetrangeCmd \<longrightarrow> (\<forall>offset. string2ll (argv ! 2) = Some offset \<longrightarrow> sint offset + int (length (argv ! 3)) < 2 ^ 63)) \<and>
        (fair \<longrightarrow> fair_command cmd))"

lemma call_done:
  assumes i: "inv fair s" and c: "c \<in> set (clients s)" and a: "args_ok cmd argv" "fair \<longrightarrow> fair_command cmd"
  shows "wp (call proc c cmd argv s) (done_ok fair c s)"
proof (rule wp_mono [OF _ steps_done [OF i]], rule call_steps)
  show ok: "server_ok s" using i by (simp add: inv_def)
  fix t assume t: "server_ok t" "clients t = clients s" "client_of t c = (client_of s c)\<lparr>c_cmd := cmd, c_argv := argv\<rparr>"
  have ct: "c \<in> set (clients t)" using c t(2) by simp
  have "queued_ok fair (c_mstate (client_of t c))" using t(3) i by (simp add: inv_def)
  from wp_mono [OF execCommand_steps [OF t(1) ct this]] have "wp (execCommand c argv t) (steps c fair t)" by blast
  then show "wp (proc cmd c argv t) (steps c fair t)"
    using simple_proc_steps [OF t(1) ct a(1) _ a(2)] by (simp add: proc_def)
qed

lemma processCommand_done:
  assumes i: "inv fair s" and c: "c \<in> set (clients s)" and k: "k_evict k = None" and r: "request_ok fair argv"
  shows "wp (processCommand k c argv s) (\<lambda>(s', _). done_ok fair c s s')"
proof -
  have ok: "server_ok s" using i by (simp add: inv_def)
  note flag = steps_done [OF i flag_steps [OF ok]] and reply = steps_done [OF i steps_quiet [OF ok same_core_simps(1)]]
  show ?thesis
  proof (cases "lookupCommand (argv ! 0)")
    case None
    then show ?thesis using flag reply by (simp add: processCommand_def)
  next
    case (Some e)
    obtain name cmd arity flags where e: "e = (name, cmd, arity, flags)" by (cases e)
    have fair: "fair \<longrightarrow> fair_command cmd" using r Some e by (simp add: request_ok_def)
    have args: "args_ok cmd argv" if "arity_ok arity argv"
      using table_min_args [OF _ that] lookup_table [OF Some] r Some e by (auto simp: args_ok_def request_ok_def)
    have disc: "wp (discardTransaction c s) (\<lambda>t. done_ok fair c s (addReply c rep t))" for rep
    proof -
      obtain s' where s': "discardTransaction c s = Some s'" "steps c fair s s'" using discardTransaction_ok [OF ok] by blast
      then show ?thesis using steps_done [OF i steps_quiet_after [OF s'(2) same_core_simps(1)]] by simp
    qed
    have run: "wp (call proc c cmd argv s) (done_ok fair c s)" if "arity_ok arity argv"
      by (rule call_done [OF i c args [OF that] fair])
    have queue: "done_ok fair c s (addReply c Queued (queueMultiCommand c cmd argv s))"
      if "arity_ok arity argv" "cmd \<noteq> ExecCmd" by (rule queue_done [OF i that(2) args [OF that(1)] fair])
    show ?thesis
      unfolding processCommand_def Some e option.case prod.case k Let_def
      by (intro wp_ifI wp_optionI wp_bindI)
        (use flag reply disc run queue in \<open>simp_all add: wp_def\<close>)
  qed
qed

section \<open>Properties\<close>

text \<open>
  C4. The server invariant survives every request of a modelled command: whatever client sends whichever of
  the forty-six commands of the table that are modelled, an unknown command or a wrong number of arguments, in a transaction or
  not, \<^verbatim>\<open>processCommand\<close> runs into no failed assertion and leaves a state in which every expire time belongs to a
  key, no string is over 512 MB, the watch lists of keys and of clients agree, and only commands that EXEC can run are
  queued. Three conditions: every argument has at most 512 MB, as the protocol allows; no SETRANGE has an offset whose sum
  with the length of the argument overflows (such a request aborts the server); and no memory limit is configured, so there is no eviction. All other commands of
  the table, BITFIELD and DEBUG among them, are outside the claim: the first can break the limit of 512 MB, the second has an
  assertion that fails on request.
\<close>

theorem processCommand_safe:
  assumes "inv False s" "c \<in> set (clients s)" "k_evict k = None" "request_ok False argv"
  shows "\<exists>s' ok. processCommand k c argv s = Some (s', ok) \<and> inv False s'"
  using processCommand_done [OF assms] by (auto simp: wp_def done_ok_def)

definition no_checks :: checks where
  "no_checks = \<lparr>k_noauth = False, k_redirect = (\<lambda>_ _. None), k_evict = None, k_disk_error = None, k_few_slaves = False,
     k_ro_slave = False, k_pubsub = False, k_stale = False, k_lua_timedout = False\<rparr>"

lemma inv_fresh: "server_ok s \<Longrightarrow> (\<And>c. c_mstate (client_of s c) = []) \<Longrightarrow> inv fair s"
  by (simp add: inv_def)

theorem processCommand_safe_witness:
  "\<exists>s' ok. processCommand no_checks 0 [map of_char ''DEL'', [107]] sample_counter = Some (s', ok) \<and> inv False s'"
proof (rule processCommand_safe)
  show "inv False sample_counter" by (rule inv_fresh [OF sample_counter_ok]) (simp add: new_client_def)
  have "lookupCommand ([map of_char ''DEL'', [107]] ! 0) = Some (''del'', DelCmd, -2, ''w'')" by code_simp
  then show "request_ok False [map of_char ''DEL'', [107]]" by (simp add: request_ok_def)
qed (simp_all add: no_checks_def sample_counter_def set_value_def)








text \<open>The sample server while client 0 watches the counter in a transaction.\<close>

definition sample_watch :: server where
  "sample_watch = update_client 0 (\<lambda>cl. cl\<lparr>c_multi := True\<rparr>) (watchForKey 0 [107] sample_counter)"

lemma sample_watch_simps:
  "cfg sample_watch = sample_config" "clients sample_watch = [0, 1]" "c_db (client_of sample_watch c) = 0"
  "client_of sample_watch 0 = new_client\<lparr>c_multi := True, c_watched := [(0, [107])]\<rparr>" "client_of sample_watch (Suc 0) = new_client"
  "db_dict (dbs sample_watch ! 0) [107] = Some (IntObj 12)" "db_expires (dbs sample_watch ! 0) = Map.empty"
  "length (dbs sample_watch) = 16" "db_watched (dbs sample_watch ! 0) [107] = Some [0]"
  by (simp_all add: sample_watch_def watchForKey_eq rewatch_def sample_counter_def set_value_def set_db_def new_client_def
      new_db_def list_of_def Let_def)

lemma sample_watch_inv: "inv fair sample_watch"
proof (rule inv_fresh)
  have "server_ok (watchForKey 0 [107] sample_counter)"
    by (rule watchForKey_ok [OF sample_counter_ok]) (simp add: sample_counter_def set_value_def)
  then show "server_ok sample_watch"
    unfolding sample_watch_def by (intro steps_ok [OF steps_update [of _ _ 0 False]]) simp_all
  show "c_mstate (client_of sample_watch c) = []" for c
    by (simp add: sample_watch_def watchForKey_eq rewatch_def Let_def new_client_def)
qed



text \<open>
  C21. A command that does not exist or has the wrong number of arguments aborts the transaction: after such a request
  inside MULTI, EXEC replies EXECABORT, runs none of the queued commands and
  leaves the data as it is.
\<close>

theorem queue_error_aborts_exec:
  assumes ok: "server_ok s" and m: "c_multi (client_of s c)" and q: "\<not> quit_name (argv ! 0)"
    and bad: "(case lookupCommand (argv ! 0) of None \<Rightarrow> True | Some (_, _, arity, _) \<Rightarrow> \<not> arity_ok arity argv)"
  shows "\<exists>s1 u e. processCommand k c argv s = Some (s1, True) \<and> execCommand c argv' s1 = Some u \<and>
    c_reply (client_of u c) = c_reply (client_of s c) @
      [ErrorReply e, ErrorReply ''EXECABORT Transaction discarded because of previous errors.''] \<and>
    \<not> c_multi (client_of u c) \<and> c_mstate (client_of u c) = [] \<and>
    (\<forall>j < length (dbs s). db_dict (dbs u ! j) = db_dict (dbs s ! j) \<and> db_expires (dbs u ! j) = db_expires (dbs s ! j))"
proof -
  have "\<exists>e. processCommand k c argv s = Some (addReply c (ErrorReply e) (flagTransaction c s), True)"
  proof (cases "lookupCommand (argv ! 0)")
    case None
    then show ?thesis unfolding processCommand_def if_not_P [OF q] None option.case by blast
  next
    case (Some x)
    obtain name cmd arity flags where x: "x = (name, cmd, arity, flags)" by (cases x)
    have "\<not> arity_ok arity argv" using bad Some x by simp
    then have n: "(\<not> arity_ok arity argv) = True" by simp
    show ?thesis unfolding processCommand_def if_not_P [OF q] Some x option.case prod.case n if_True by blast
  qed
  then obtain e where p: "processCommand k c argv s = Some (addReply c (ErrorReply e) (flagTransaction c s), True)" by blast
  let ?s1 = "addReply c (ErrorReply e) (flagTransaction c s)"
  let ?s2 = "addReply c (ErrorReply ''EXECABORT Transaction discarded because of previous errors.'') ?s1"
  have "steps c False s ?s2" by (rule steps_quiet_after [OF flag_steps [OF ok] same_core_simps(1)])
  from discardTransaction_ok [OF steps_ok [OF this], of c False]
  obtain u where u: "discardTransaction c ?s2 = Some u"
    "\<forall>j < length (dbs ?s2). db_dict (dbs u ! j) = db_dict (dbs ?s2 ! j) \<and> db_expires (dbs u ! j) = db_expires (dbs ?s2 ! j)"
    "client_of u c = (client_of ?s2 c)\<lparr>c_mstate := [], c_multi := False, c_dirty_cas := False, c_dirty_exec := False, c_watched := []\<rparr>"
    by blast
  have "execCommand c argv' ?s1 = Some u"
    using u(1) m by (simp add: execCommand_def flagTransaction_def addReply_def)
  then show ?thesis using p u(2,3) m by (auto simp: flagTransaction_def)
qed

theorem queue_error_aborts_exec_witness:
  "\<exists>s1 u e. processCommand no_checks 0 [map of_char ''NOPE''] sample_watch = Some (s1, True) \<and> execCommand 0 [] s1 = Some u \<and>
    c_reply (client_of u 0) = c_reply (client_of sample_watch 0) @
      [ErrorReply e, ErrorReply ''EXECABORT Transaction discarded because of previous errors.'']"
proof -
  have ok: "server_ok sample_watch" using sample_watch_inv [of False] by (simp add: inv_def)
  have q: "\<not> quit_name ([map of_char ''NOPE''] ! 0)" by code_simp
  have l: "lookupCommand ([map of_char ''NOPE''] ! 0) = None" by code_simp
  show ?thesis
    using queue_error_aborts_exec [OF ok _ q, of 0 no_checks "[]"] l by (auto simp: sample_watch_simps)
qed

text \<open>
  C22. Commands that read or modify a string refuse values of other types: on a live key of a master that holds a list, a set,
  a sorted set or a hash, each of GET, GETSET, APPEND, STRLEN, INCR, DECR, INCRBY, DECRBY, SETRANGE and GETRANGE (SUBSTR)
  replies WRONGTYPE and leaves all databases as they are, provided that its numeric arguments are numbers and the offset of SETRANGE is not
  negative (these arguments are tested first). Commands that replace the value, such as SET and MSET, are not among them.
\<close>

theorem wrongtype_refused:
  assumes ok: "server_ok s" and live: "\<not> is_expired s (c_db (client_of s c)) (argv ! 1)" "\<not> masterhost (cfg s)"
    and v: "db_dict (dbs s ! c_db (client_of s c)) (argv ! 1) = Some v" "type_of v \<noteq> OBJ_STRING"
    and cmd: "cmd \<in> {GetCmd, GetsetCmd, AppendCmd, StrlenCmd, IncrCmd, DecrCmd, IncrbyCmd, DecrbyCmd, SetrangeCmd, GetrangeCmd}"
    and num: "cmd \<in> {IncrbyCmd, DecrbyCmd, GetrangeCmd} \<Longrightarrow> string2ll (argv ! 2) \<noteq> None"
      "cmd = GetrangeCmd \<Longrightarrow> string2ll (argv ! 3) \<noteq> None"
      "cmd = SetrangeCmd \<Longrightarrow> \<exists>offset. string2ll (argv ! 2) = Some offset \<and> 0 \<le> sint offset"
  shows "\<exists>s'. simple_proc cmd c argv s = Some s' \<and> c_reply (client_of s' c) = c_reply (client_of s c) @ [wrongtypeerr] \<and> dbs s' = dbs s"
proof -
  have dok: "db_ok (dbs s ! c_db (client_of s c))" using ok by (auto simp: server_ok_def)
  note look = lookupKeyWrite_live [OF dok live(1)] lookupKeyRead_live [OF dok live]
  have ty: "checkType c v OBJ_STRING t = (addReply c wrongtypeerr t, True)" for t using v(2) by (simp add: checkType_def)
  have get: "getGenericCommand c argv s = Some (addReply c wrongtypeerr (s\<lparr>stat_hits := stat_hits s + 1\<rparr>), False)"
    using look(2) v by (simp add: getGenericCommand_def lookupKeyReadOrReply_def)
  have arg: "getLongLongOrReply c (Some (arg_obj argv j)) None s = Some (s, Some n)" if "string2ll (argv ! j) = Some n" for j n
    using that arg_obj_long [of argv j] by (simp add: getLongLongOrReply_def)
  have incr: "incrDecrCommand n c argv s = Some (addReply c wrongtypeerr s)" for n
    using look(1) v(1) ty by (simp add: incrDecrCommand_def Let_def)
  show ?thesis
    using cmd num look v(1) ty get arg incr
    by (elim insertE emptyE)
      (auto simp: getCommand_def getsetCommand_def appendCommand_def append_value_def strlenCommand_def incrCommand_def decrCommand_def
        incrbyCommand_def decrbyCommand_def setrangeCommand_def setrange_target_def getrangeCommand_def
        lookupKeyReadOrReply_def getLong_OrReply_eq Let_def)
qed

definition sample_list :: server where
  "sample_list = set_value 0 [107] (Aggregate AggList 0) sample_server"

lemma sample_list_ok: "server_ok sample_list"
proof -
  have "G sample_server (insert (0, [107]) {}) {} sample_list"
    unfolding sample_list_def by (rule set_value_G [OF G_start [OF sample_ok]]) simp_all
  then show ?thesis by (simp add: G_def)
qed

theorem wrongtype_refused_witness:
  "\<exists>s'. simple_proc AppendCmd 0 [[], [107], [120]] sample_list = Some s' \<and>
    c_reply (client_of s' 0) = c_reply (client_of sample_list 0) @ [wrongtypeerr] \<and> dbs s' = dbs sample_list"
  by (rule wrongtype_refused [OF sample_list_ok, where v = "Aggregate AggList 0"])
    (simp_all add: sample_list_def is_expired_def new_client_def new_db_def set_value_def set_db_def sample_config_def)

section \<open>Where the guards do not hold\<close>

text \<open>
  C24. MOVE and PERSIST escape WATCH: they change a key, or its expire time, without
  \<^verbatim>\<open>signalModifiedKey\<close>, so no client that watches the key is marked and its EXEC runs.
\<close>

theorem move_persist_unsignalled:
  assumes ok: "server_ok s" and live: "\<not> is_expired s src key" "\<not> is_expired s dst key"
    and src: "c_db (client_of s c) = src" "db_dict (dbs s ! src) key = Some v" "db_expires (dbs s ! src) key = Some w"
    and dst: "string2ll arg = Some n" "sint n = int dst" "dst < length (dbs s)" "dst < 2 ^ 31" "dst \<noteq> src" "db_dict (dbs s ! dst) key = None"
    and cl: "\<not> cluster_enabled (cfg s)"
  shows "\<exists>s1 s2. moveCommand c [cmd, key, arg] s = Some s1 \<and> changed s s1 src key \<and> changed s s1 dst key \<and>
      persistCommand c [cmd', key] s = Some s2 \<and> changed s s2 src key \<and>
      (\<forall>d. c_dirty_cas (client_of s1 d) = c_dirty_cas (client_of s d) \<and> c_dirty_cas (client_of s2 d) = c_dirty_cas (client_of s d))"
proof -
  have i: "src < length (dbs s)" and dok: "db_ok (dbs s ! src)" "db_ok (dbs s ! dst)"
    using ok src(1) dst(3) by (auto simp: server_ok_def)
  have "\<exists>s2. persistCommand c [cmd', key] s = Some s2 \<and> changed s s2 src key \<and> (\<forall>d. c_dirty_cas (client_of s2 d) = c_dirty_cas (client_of s d))"
    using src i by (simp add: persistCommand_def removeExpire_def Let_def changed_def add_dirty_def addReply_def)
  moreover have "\<exists>s1. moveCommand c [cmd, key, arg] s = Some s1 \<and> changed s s1 src key \<and> changed s s1 dst key \<and>
      (\<forall>d. c_dirty_cas (client_of s1 d) = c_dirty_cas (client_of s d))"
  proof -
    define t where "t = fst (selectDb c (int src) (fst (selectDb c (int dst) s)))"
    have sel: "selectDb c (int dst) s = (s\<lparr>client_of := (client_of s)(c := (client_of s c)\<lparr>c_db := dst\<rparr>)\<rparr>, True)"
      using dst(3) by (simp add: selectDb_def)
    have t: "dbs t = dbs s" "cfg t = cfg s" "c_dirty_cas (client_of t d) = c_dirty_cas (client_of s d)" for d
      using i by (simp_all add: t_def sel selectDb_def)
    have look: "lookupKeyWrite src key t = Some (t, Some v)" "lookupKeyWrite dst key t = Some (t, None)" "getExpire t src key = Some w"
      using lookupKeyWrite_live [of t src key] lookupKeyWrite_live [of t dst key] dok live src(2,3) dst(6) t
      by (simp_all add: is_expired_def expire_clock_def getExpire_def)
    have n: "\<not> (sint n < - (2 ^ 31) \<or> sint n > 2 ^ 31 - 1)" using dst(2,4) by simp
    have "moveCommand c [cmd, key, arg] s = dbAdd dst key v t \<bind> (\<lambda>s. (if w \<noteq> -1 then setExpire dst key w s else Some s) \<bind>
        (\<lambda>s. Some (addReply c (IntReply 1) (add_dirty 1 (fst (dbDelete src key s))))))"
      using cl src(1) dst(1,2,5) n look sel arg_obj_long [of "[cmd, key, arg]" 2] by (simp add: moveCommand_def Let_def t_def cong: if_cong)
    then show ?thesis using t dst(3,5,6) src(2) i cl
      by (simp add: dbAdd_def setExpire_def dbDelete_def Let_def changed_def addReply_def add_dirty_def)
  qed
  ultimately show ?thesis by blast
qed

text \<open>A key with an expire time in the future.\<close>

definition sample_volatile :: server where
  "sample_volatile = set_db 0 ((dbs sample_counter ! 0)\<lparr>db_expires := [[107] \<mapsto> 5000]\<rparr>) sample_counter"

lemma sample_volatile_ok: "server_ok sample_volatile"
proof -
  have "db_ok (dbs sample_counter ! 0)" using sample_counter_ok by (auto simp: server_ok_def sample_counter_def)
  then have "db_ok ((dbs sample_counter ! 0)\<lparr>db_expires := (db_expires (dbs sample_counter ! 0))([107] \<mapsto> 5000)\<rparr>)" by simp
  moreover have "(db_expires (dbs sample_counter ! 0))([107] \<mapsto> 5000) = [[107] \<mapsto> 5000]"
    by (simp add: sample_counter_def set_value_def set_db_def new_db_def)
  ultimately show ?thesis unfolding sample_volatile_def using server_ok_set_db [OF sample_counter_ok] by simp
qed

theorem move_persist_unsignalled_witness:
  "\<exists>s1 s2. moveCommand 0 [[], [107], [49]] sample_volatile = Some s1 \<and> changed sample_volatile s1 0 [107] \<and> changed sample_volatile s1 1 [107] \<and>
      persistCommand 0 [[], [107]] sample_volatile = Some s2 \<and> changed sample_volatile s2 0 [107] \<and>
      (\<forall>d. c_dirty_cas (client_of s1 d) = c_dirty_cas (client_of sample_volatile d) \<and>
        c_dirty_cas (client_of s2 d) = c_dirty_cas (client_of sample_volatile d))"
proof -
  have n: "string2ll [49] = Some 1" by code_simp
  have db: "dbs sample_volatile ! 0 = (dbs sample_counter ! 0)\<lparr>db_expires := [[107] \<mapsto> 5000]\<rparr>" "dbs sample_volatile ! 1 = new_db"
    "length (dbs sample_volatile) = 16" "cfg sample_volatile = sample_config" "client_of sample_volatile 0 = new_client"
    by (simp_all add: sample_volatile_def sample_counter_def set_value_def set_db_def)
  have "sint (5000 :: int64) = 5000" by code_simp
  then have live: "\<not> is_expired sample_volatile 0 [107]" "\<not> is_expired sample_volatile 1 [107]"
    unfolding is_expired_def db by (simp_all add: expire_clock_def sample_config_def new_db_def)
  show ?thesis
    by (rule move_persist_unsignalled [OF sample_volatile_ok live, where v = "IntObj 12" and w = 5000 and n = 1])
      (simp_all only: db n, simp_all add: new_client_def new_db_def sample_config_def)
qed

text \<open>
  SELECT truncates its argument: an index of \<open>2 ^ 32\<close> or more passes as a long and is cut to an int,
  so the client gets OK and a database that it did not name instead of the error.
\<close>

theorem select_truncates:
  assumes arg: "string2ll arg = Some n" "n = of_nat (2 ^ 32 + dbid)" and db: "dbid < length (dbs s)" "dbid < 2 ^ 31"
    and cl: "\<not> cluster_enabled (cfg s)"
  shows "\<exists>s'. selectCommand c [cmd, arg] s = Some s' \<and> c_db (client_of s' c) = dbid \<and>
    c_reply (client_of s' c) = c_reply (client_of s c) @ [OkReply]"
proof -
  have u: "unat n = 2 ^ 32 + dbid" unfolding arg(2) by (rule unat_of_nat_small) (use db(2) in simp)
  have "ucast n = (of_nat (unat n) :: uint32)" by simp
  also have "\<dots> = of_nat (2 ^ 32) + of_nat dbid" unfolding u by (simp only: of_nat_add)
  also have "of_nat (2 ^ 32) = (0 :: uint32)" unfolding word_of_nat_eq_0_iff by simp
  finally have "ucast n = (of_nat dbid :: uint32)" by simp
  moreover have "sint (of_nat dbid :: uint32) = int dbid"
    using db(2) by (simp add: sint_uint unsigned_of_nat take_bit_nat_eq_self signed_take_bit_int_eq_self)
  ultimately have "sint (ucast n :: uint32) = int dbid" by simp
  moreover have "getLongOrReply c (Some (arg_obj [cmd, arg] 1)) (Some ''invalid DB index'') s = Some (s, Some n)"
    using arg(1) arg_obj_long [of "[cmd, arg]" 1] by (simp add: getLong_OrReply_eq getLongLongOrReply_def)
  ultimately show ?thesis using cl db(1) by (simp add: selectCommand_def selectDb_def)
qed

theorem select_truncates_witness:
  "\<exists>s'. selectCommand 0 [[], map of_char ''4294967301''] sample_server = Some s' \<and> c_db (client_of s' 0) = 5 \<and>
    c_reply (client_of s' 0) = c_reply (client_of sample_server 0) @ [OkReply]"
proof (rule select_truncates)
  show "string2ll (map of_char ''4294967301'') = Some 4294967301" by code_simp
qed (simp_all add: sample_config_def)

end
