(* ===== verification/Connection.thy ===== *)
theory Connection
  imports ProtocolSafety Multi
begin

text \<open>
  A connection and the server together: the bytes that a client sends are read by the parsers of
  \<^verbatim>\<open>networking.c\<close> and executed by \<^verbatim>\<open>processCommand\<close>. The command table, the commands and the
  transactions meet the contract of request handlers that the reader relies on.
\<close>

text \<open>The reply to a protocol error (\<^verbatim>\<open>addReplyError\<close>).\<close>

definition report_error :: "cid \<Rightarrow> string \<Rightarrow> server \<Rightarrow> server" where
  "report_error c msg s = addReply c (ErrorReply msg) s"

text \<open>
  The requests that the theorem covers: unknown commands and the modelled ones, without the SETRANGE offsets that overflow.
\<close>

definition covered :: "sds list \<Rightarrow> bool" where
  "covered r \<longleftrightarrow> (case lookupCommand (r ! 0) of None \<Rightarrow> True | Some (_, cmd, _) \<Rightarrow> modelled cmd \<and>
     (cmd = SetrangeCmd \<longrightarrow> (case string2ll (r ! 2) of None \<Rightarrow> True
       | Some offset \<Rightarrow> sint offset + int (length (r ! 3)) < 2 ^ 63)))"

text \<open>The server while the client is connected.\<close>

definition serving :: "cid \<Rightarrow> server \<Rightarrow> bool" where
  "serving c s \<longleftrightarrow> inv False s \<and> c \<in> set (clients s)"

lemma bounded_request_ok: "bounded r \<Longrightarrow> covered r \<Longrightarrow> request_ok False r"
  by (auto simp: request_ok_def covered_def list_all_iff split: option.splits)

lemma processCommand_serving:
  assumes "serving c s" "bounded r" "covered r"
  shows "\<exists>s' ok. processCommand (k\<lparr>k_evict := None\<rparr>) c r s = Some (s', ok) \<and> serving c s'"
  using processCommand_done [of False s c "k\<lparr>k_evict := None\<rparr>" r] bounded_request_ok [OF assms(2,3)] assms(1)
  by (auto simp: wp_def done_ok_def serving_def split: option.splits)

lemma report_error_serving: "serving c s \<Longrightarrow> serving c (report_error c msg s)"
  using steps_done [OF _ steps_quiet [OF _ same_core_simps(1)], of False s c c "ErrorReply msg"]
  by (auto simp: serving_def report_error_def done_ok_def inv_def)

interpretation server: request_handler "processCommand (k\<lparr>k_evict := None\<rparr>) c" "report_error c" "serving c" covered for k c
  by unfold_locales (use processCommand_serving report_error_serving in blast)+

text \<open>
  C1. No input whose commands are modelled brings the server down: whatever bytes a client sends, well formed or not, cut into
  whatever reads, the server reads and executes them without a failed assertion and keeps its
  invariant, provided that every request that the parser finds in these bytes is of an unknown command or of one of the forty-six
  modelled ones and is no SETRANGE with an offset whose sum with the length of the argument overflows, and that no memory
  limit is configured (no eviction). The other commands of the table, BITFIELD and DEBUG among them, are outside the
  claim. That arguments have at most 512 MB is no condition: the parser refuses longer ones.
\<close>

theorem any_input_safe:
  assumes "serving c s" "list_all covered (requests_in ns stream)"
  shows "\<exists>conn rest s'. serve (report_error c) (processCommand (k\<lparr>k_evict := None\<rparr>) c) ns stream new_conn s = Some (conn, rest, s') \<and>
    serving c s'"
  using assms by (rule server.stream_safe)

text \<open>DEL of a key, two bytes per event.\<close>

definition sample_request :: "sds list" where
  "sample_request = [[68, 69, 76], [107]]"

theorem any_input_safe_witness:
  "\<exists>conn rest s'. serve (report_error 0) (processCommand (no_checks\<lparr>k_evict := None\<rparr>) 0) (replicate 40 2)
     (concat (map request_bytes [sample_request])) new_conn sample_counter = Some (conn, rest, s') \<and> serving 0 s'"
proof (rule any_input_safe)
  show "serving 0 sample_counter"
    using inv_fresh [OF sample_counter_ok] by (simp add: serving_def new_client_def sample_counter_def set_value_def)
  have "requests_in (replicate 40 2) (concat (map request_bytes [sample_request])) = [sample_request]"
    by (rule requests_in_valid)
      (simp_all add: sample_request_def request_fits_def request_bytes_def bulk_bytes_def dec_small list.pred_set)
  moreover have "covered sample_request" by code_simp
  ultimately show "list_all covered (requests_in (replicate 40 2) (concat (map request_bytes [sample_request])))" by simp
qed

end
