(* ===== verification/Bitfield.thy ===== *)
theory Bitfield
  imports BitCommands
begin

text \<open>
  The command BITFIELD (\<^verbatim>\<open>bitops.c\<close>): the subcommands are parsed into a list of operations, the string is made
  long enough for all of them, and they run one after the other on its bytes.

  The theory shows that no operation reads or writes outside the string and that no shift is undefined, except
  for the type i64, and that the command can make a string longer than the 512 MB that all other commands respect.
  For this reason BITFIELD is one of the commands of the table for which the theorems on the invariant of the server make no claim.
\<close>

definition bitfield_type_err :: reply where
  "bitfield_type_err = ErrorReply ''Invalid bitfield type. Use something like i16 u8. Note that u64 is not supported but i64 is.''"

text \<open>The operations so far, whether all of them are reads, and the largest bit that is written.\<close>

record bitfield_ops =
  bf_ops :: "bitfieldOp list"
  bf_readonly :: bool
  bf_highest :: uint64

definition no_ops :: bitfield_ops where
  "no_ops = \<lparr>bf_ops = [], bf_readonly = True, bf_highest = 0\<rparr>"

text \<open>One operation; \<open>args\<close> are the arguments behind its name. \<open>None\<close> inside is an error that was replied.\<close>

definition parse_op :: "cid \<Rightarrow> opcode \<Rightarrow> owtype \<Rightarrow> sds list \<Rightarrow> bitfield_ops \<Rightarrow> server \<Rightarrow> (server \<times> bitfield_ops option) option" where
  "parse_op c code ow args st s =
     (case getBitfieldTypeFromArgument (args ! 0) of
        None \<Rightarrow> Some (addReply c bitfield_type_err s, None)
      | Some (sgnd, bits) \<Rightarrow>
          (case getBitOffsetFromArgument (args ! 1) True bits of
             None \<Rightarrow> Some (addReply c bit_offset_err s, None)
           | Some bitoffset \<Rightarrow>
               let new = (\<lambda>i64. \<lparr>op_offset = bitoffset, op_i64 = i64, op_opcode = code, op_owtype = ow, op_bits = bits, op_sign = sgnd\<rparr>)
               in if code \<noteq> BITFIELDOP_GET then do {
                    let st = st\<lparr>bf_readonly := False\<rparr>;
                    let st = (if bf_highest st < bitoffset + bits - 1 then st\<lparr>bf_highest := bitoffset + bits - 1\<rparr> else st);
                    (s, r) \<leftarrow> getLongLongOrReply c (Some (createStringObject (args ! 2))) None s;
                    Some (case r of None \<Rightarrow> (s, None) | Some i64 \<Rightarrow> (s, Some (st\<lparr>bf_ops := bf_ops st @ [new i64]\<rparr>))) }
                  else Some (s, Some (st\<lparr>bf_ops := bf_ops st @ [new 0]\<rparr>))))"

fun bitfield_parse :: "cid \<Rightarrow> sds list \<Rightarrow> owtype \<Rightarrow> bitfield_ops \<Rightarrow> server \<Rightarrow> (server \<times> bitfield_ops option) option" where
  "bitfield_parse c [] ow st s = Some (s, Some st)"
| "bitfield_parse c (subcmd # args) ow st s =
     (if strcase_eq subcmd ''get'' \<and> length args \<ge> 2 then do {
        (s, r) \<leftarrow> parse_op c BITFIELDOP_GET ow args st s;
        case r of None \<Rightarrow> Some (s, None) | Some st \<Rightarrow> bitfield_parse c (drop 2 args) ow st s }
      else if strcase_eq subcmd ''set'' \<and> length args \<ge> 3 then do {
        (s, r) \<leftarrow> parse_op c BITFIELDOP_SET ow args st s;
        case r of None \<Rightarrow> Some (s, None) | Some st \<Rightarrow> bitfield_parse c (drop 3 args) ow st s }
      else if strcase_eq subcmd ''incrby'' \<and> length args \<ge> 3 then do {
        (s, r) \<leftarrow> parse_op c BITFIELDOP_INCRBY ow args st s;
        case r of None \<Rightarrow> Some (s, None) | Some st \<Rightarrow> bitfield_parse c (drop 3 args) ow st s }
      else if strcase_eq subcmd ''overflow'' \<and> length args \<ge> 1 then
        (if strcase_eq (args ! 0) ''wrap'' then bitfield_parse c (drop 1 args) BFOVERFLOW_WRAP st s
         else if strcase_eq (args ! 0) ''sat'' then bitfield_parse c (drop 1 args) BFOVERFLOW_SAT st s
         else if strcase_eq (args ! 0) ''fail'' then bitfield_parse c (drop 1 args) BFOVERFLOW_FAIL st s
         else Some (addReply c (ErrorReply ''Invalid OVERFLOW type specified'') s, None))
      else Some (addReply c (ErrorReply ''syntax error'') s, None))"

text \<open>
  The operations on the bytes \<open>p\<close> of the string, with the number of changes. A missing key reads like an
  empty string. \<open>junk\<close> is the value of the variable that is not initialised.
\<close>

fun bitfield_run :: "uint64 \<Rightarrow> cid \<Rightarrow> bitfieldOp list \<Rightarrow> sds \<Rightarrow> nat \<Rightarrow> server \<Rightarrow> (server \<times> sds \<times> nat) option" where
  "bitfield_run junk c [] p changes s = Some (s, p, changes)"
| "bitfield_run junk c (thisop # ops) p changes s =
     (if op_opcode thisop = BITFIELDOP_SET \<or> op_opcode thisop = BITFIELDOP_INCRBY then do {
        (p, r) \<leftarrow> write_op junk thisop p;
        let s = addReply c (case r of Some retval \<Rightarrow> IntReply retval | None \<Rightarrow> NullBulk) s;
        bitfield_run junk c ops p (changes + 1) s }
      else do {
        val \<leftarrow> get_op thisop p;
        bitfield_run junk c ops p changes (addReply c (IntReply val) s) })"

text \<open>The bytes that the operations work on, or \<open>None\<close> when the command is over.\<close>

definition bitfield_target :: "cid \<Rightarrow> key \<Rightarrow> bitfield_ops \<Rightarrow> server \<Rightarrow> (server \<times> sds option) option" where
  "bitfield_target c key st s =
     (if bf_readonly st then do {
        (s, obj) \<leftarrow> lookupKeyRead (c_db (client_of s c)) key s;
        case obj of None \<Rightarrow> Some (s, Some [])
        | Some v \<Rightarrow>
            (case checkType c v OBJ_STRING s of
                (s, True) \<Rightarrow> Some (s, None)
              | (s, False) \<Rightarrow> do { p \<leftarrow> getObjectReadOnlyString v; Some (s, Some p) }) }
      else lookupStringForBitCommand c key (bf_highest st) s)"

definition bitfieldCommand :: "uint64 \<Rightarrow> cid \<Rightarrow> sds list \<Rightarrow> server \<Rightarrow> server option" where
  "bitfieldCommand junk c argv s = do {
     let i = c_db (client_of s c);
     (s, r) \<leftarrow> bitfield_parse c (drop 2 argv) BFOVERFLOW_WRAP no_ops s;
     case r of None \<Rightarrow> Some s
     | Some st \<Rightarrow> do {
         (s, r) \<leftarrow> bitfield_target c (argv ! 1) st s;
         case r of None \<Rightarrow> Some s
         | Some p \<Rightarrow> do {
             let s = addReply c (MultiBulkLen (length (bf_ops st))) s;
             (s, p, changes) \<leftarrow> bitfield_run junk c (bf_ops st) p 0 s;
             let s = (if bf_readonly st then s else set_value i (argv ! 1) (Raw p) s);
             if changes \<noteq> 0 then do {
               let s = signalModifiedKey i (argv ! 1) s;
               let s = notifyKeyspaceEvent NOTIFY_STRING ''setbit'' (argv ! 1) i s;
               Some (add_dirty (int changes) s) }
             else Some s } } }"

section \<open>The operations stay inside the string\<close>

text \<open>What the parser guarantees of an operation, with the largest bit that is written.\<close>

definition op_ok :: "uint64 \<Rightarrow> bitfieldOp \<Rightarrow> bool" where
  "op_ok hi op \<longleftrightarrow> 0 < unat (op_bits op) \<and> unat (op_bits op) < 64 \<and> unat (op_offset op) < 2 ^ 32 \<and>
     (op_opcode op \<noteq> BITFIELDOP_GET \<longrightarrow> unat (op_offset op) + unat (op_bits op) - 1 \<le> unat hi)"

definition ops_ok :: "bitfield_ops \<Rightarrow> bool" where
  "ops_ok st \<longleftrightarrow> list_all (op_ok (bf_highest st)) (bf_ops st) \<and> unat (bf_highest st) < 2 ^ 32 + 63 \<and>
     (bf_readonly st \<longrightarrow> list_all (\<lambda>op. op_opcode op = BITFIELDOP_GET) (bf_ops st))"

lemma offset_hash_bound:
  assumes "getBitOffsetFromArgument p h bits = Some offset"
  shows "unat offset < 2 ^ 32"
proof -
  have "unat (drop_bit 3 offset) < 2 ^ 29"
    using assms by (auto simp: getBitOffsetFromArgument_def Let_def word_le_nat_alt not_le split: option.splits if_splits)
  then have "unat offset div 8 < 2 ^ 29" using offset_position(1) by simp
  then show ?thesis by simp
qed

lemma type_bits:
  assumes "getBitfieldTypeFromArgument a = Some (sgnd, bits)" "\<not> (sgnd \<and> bits = 64)"
  shows "0 < unat bits" "unat bits < 64"
proof -
  have s: "1 \<le> sint bits" "sint bits \<le> 64" "sint bits = 64 \<longrightarrow> sgnd"
    using assms(1) by (auto simp: getBitfieldTypeFromArgument_def Let_def split: if_splits option.splits)
  have u: "sint bits = int (unat bits)" using nonneg_int64 [of bits] s(1) by simp
  have "unat bits \<noteq> 64"
  proof
    assume 64: "unat bits = 64"
    then have "bits = 64" by (simp add: word_unat_eq_iff)
    moreover have sgnd using s(3) u 64 by simp
    ultimately show False using assms(2) by simp
  qed
  then show "0 < unat bits" "unat bits < 64" using s(1,2) unfolding u by linarith+
qed

lemma highest_bit:
  assumes "unat offset < 2 ^ 32" "0 < unat bits" "unat bits < 64"
  shows "unat (offset + bits - 1 :: uint64) = unat offset + unat bits - 1"
proof -
  have s: "unat (offset + bits) = unat offset + unat bits" using assms by (intro unat_add_lem [THEN iffD1]) simp
  have "1 \<le> offset + bits" unfolding word_le_nat_alt s using assms(2) by simp
  then show ?thesis using s by (simp add: unat_sub)
qed

lemma op_ok_mono: "op_ok hi op \<Longrightarrow> hi \<le> hi' \<Longrightarrow> op_ok hi' op"
  by (auto simp: op_ok_def word_le_nat_alt)

text \<open>No argument is the type of 64 bits.\<close>

definition no_i64 :: "sds list \<Rightarrow> bool" where
  "no_i64 args \<longleftrightarrow> list_all (\<lambda>a. getBitfieldTypeFromArgument a \<noteq> Some (True, 64)) args"

lemma parse_op_wp:
  assumes g: "G s0 {} {} s" and st: "ops_ok st" and a: "no_i64 args" "2 \<le> length args"
    and Q: "\<And>s'. G s0 {} {} s' \<Longrightarrow> Q (s', None)" "\<And>s' st'. G s0 {} {} s' \<Longrightarrow> ops_ok st' \<Longrightarrow> Q (s', Some st')"
  shows "wp (parse_op c code ow args st s) Q"
  unfolding parse_op_def
proof (rule wp_optionI, (use g in \<open>auto intro!: Q(1)\<close>)[1])
  fix x assume x: "getBitfieldTypeFromArgument (args ! 0) = Some x"
  obtain sgnd bits where x': "x = (sgnd, bits)" by (cases x)
  have "getBitfieldTypeFromArgument (args ! 0) \<noteq> Some (True, 64)" using a(1) nth_mem [of 0 args] a(2) unfolding no_i64_def list_all_iff by (metis less_le_trans zero_less_numeral)
  then have bits: "0 < unat bits" "unat bits < 64" using type_bits [of "args ! 0" sgnd bits] x x' by auto
  let ?new = "\<lambda>offset i64. \<lparr>op_offset = offset, op_i64 = i64, op_opcode = code, op_owtype = ow, op_bits = bits, op_sign = sgnd\<rparr>"
  have ok: "ops_ok (st\<lparr>bf_readonly := False, bf_highest := hi, bf_ops := bf_ops st @ [?new offset i64]\<rparr>)"
    if "unat offset < 2 ^ 32" "hi = max (bf_highest st) (offset + bits - 1)" for offset i64 hi
  proof -
    have "bf_highest st \<le> hi" "offset + bits - 1 \<le> hi" using that(2) by auto
    moreover have "unat hi < 2 ^ 32 + 63" using st highest_bit [OF that(1) bits] that bits by (auto simp: ops_ok_def max_def)
    ultimately show ?thesis
      using st highest_bit [OF that(1) bits] that(1) bits op_ok_mono by (auto simp: ops_ok_def list_all_iff op_ok_def word_le_nat_alt)
  qed
  have get: "ops_ok (st\<lparr>bf_ops := bf_ops st @ [?new offset 0]\<rparr>)" if "unat offset < 2 ^ 32" "code = BITFIELDOP_GET" for offset
    using st that bits by (auto simp: ops_ok_def op_ok_def)
  show "wp (case x of (sgnd, bits) \<Rightarrow> (case getBitOffsetFromArgument (args ! 1) True bits of
             None \<Rightarrow> Some (addReply c bit_offset_err s, None)
           | Some bitoffset \<Rightarrow>
               let new = (\<lambda>i64. \<lparr>op_offset = bitoffset, op_i64 = i64, op_opcode = code, op_owtype = ow, op_bits = bits, op_sign = sgnd\<rparr>)
               in if code \<noteq> BITFIELDOP_GET then do {
                    let st = st\<lparr>bf_readonly := False\<rparr>;
                    let st = (if bf_highest st < bitoffset + bits - 1 then st\<lparr>bf_highest := bitoffset + bits - 1\<rparr> else st);
                    (s, r) \<leftarrow> getLongLongOrReply c (Some (createStringObject (args ! 2))) None s;
                    Some (case r of None \<Rightarrow> (s, None) | Some i64 \<Rightarrow> (s, Some (st\<lparr>bf_ops := bf_ops st @ [new i64]\<rparr>))) }
                  else Some (s, Some (st\<lparr>bf_ops := bf_ops st @ [new 0]\<rparr>)))) Q"
    unfolding x' prod.case Let_def
  proof (rule wp_optionI, (use g in \<open>auto intro!: Q(1)\<close>)[1], rule wp_ifI)
    fix offset assume o: "getBitOffsetFromArgument (args ! 1) True bits = Some offset"
    note off = offset_hash_bound [OF o]
    have long: "getLongLongFromObject (Some (createStringObject (args ! 2))) = Some (string2ll (args ! 2))"
      using arg_obj_long [of args 2] by (simp add: arg_obj_def)
    have st': "(if bf_highest (st\<lparr>bf_readonly := False\<rparr>) < offset + bits - 1
         then st\<lparr>bf_readonly := False, bf_highest := offset + bits - 1\<rparr> else st\<lparr>bf_readonly := False\<rparr>) =
       st\<lparr>bf_readonly := False, bf_highest := max (bf_highest st) (offset + bits - 1)\<rparr>" by (simp add: max_def)
    show "wp (getLongLongOrReply c (Some (createStringObject (args ! 2))) None s \<bind> (\<lambda>(s, r). Some (case r of None \<Rightarrow> (s, None)
      | Some i64 \<Rightarrow> (s, Some ((if bf_highest (st\<lparr>bf_readonly := False\<rparr>) < offset + bits - 1
         then st\<lparr>bf_readonly := False, bf_highest := offset + bits - 1\<rparr> else st\<lparr>bf_readonly := False\<rparr>)\<lparr>bf_ops :=
           bf_ops (if bf_highest (st\<lparr>bf_readonly := False\<rparr>) < offset + bits - 1
         then st\<lparr>bf_readonly := False, bf_highest := offset + bits - 1\<rparr> else st\<lparr>bf_readonly := False\<rparr>) @ [?new offset i64]\<rparr>))))) Q"
      unfolding st' by (rule wp_bindI, rule getLongLong_wp [OF g long]) (use Q ok [OF off refl] in \<open>auto split: option.splits\<close>)
    assume "\<not> code \<noteq> BITFIELDOP_GET"
    then show "wp (Some (s, Some (st\<lparr>bf_ops := bf_ops st @ [?new offset 0]\<rparr>))) Q" using Q(2) [OF g get [OF off]] by simp
  qed
qed

lemma no_i64_drop: "no_i64 args \<Longrightarrow> no_i64 (drop n args)" "no_i64 (a # args) \<Longrightarrow> no_i64 args"
  by (auto simp: no_i64_def list_all_iff dest: in_set_dropD)

lemma bitfield_parse_wp:
  assumes "G s0 {} {} s" "ops_ok st" "no_i64 args"
    and Q: "\<And>s'. G s0 {} {} s' \<Longrightarrow> Q (s', None)" "\<And>s' st'. G s0 {} {} s' \<Longrightarrow> ops_ok st' \<Longrightarrow> Q (s', Some st')"
  shows "wp (bitfield_parse c args ow st s) Q"
  using assms(1-3)
proof (induction args arbitrary: ow st s rule: length_induct)
  case (1 args)
  show ?case
  proof (cases args)
    case (Cons subcmd rest)
    have a: "no_i64 rest" using "1.prems"(3) Cons no_i64_drop(2) by blast
    have IH: "wp (bitfield_parse c (drop n rest) ow' st' s') Q" if "G s0 {} {} s'" "ops_ok st'" for n ow' st' s'
      using "1.IH" [rule_format, of "drop n rest" s' st'] Cons no_i64_drop(1) [OF a, of n] that by simp
    have err: "wp (Some (addReply c r s, None)) Q" for r using "1.prems"(1) Q(1) [of "addReply c r s"] by auto
    have one: "wp (parse_op c code ow rest st s \<bind> (\<lambda>(s, r). case r of None \<Rightarrow> Some (s, None)
        | Some st \<Rightarrow> bitfield_parse c (drop n rest) ow st s)) Q" if "2 \<le> length rest" for code n
      by (rule wp_bindI, rule parse_op_wp [OF "1.prems"(1,2) a that]) (use IH Q in auto)
    show ?thesis
      unfolding Cons bitfield_parse.simps
      by (intro wp_ifI one err IH "1.prems"(1,2)) simp_all
  qed (use "1.prems" Q(2) in simp)
qed

lemma write_op_total:
  assumes "op_ok hi op" "op_opcode op \<noteq> BITFIELDOP_GET" "unat hi < 8 * length p" "8 * length p < 2 ^ 64"
  shows "\<exists>p' r. write_op junk op p = Some (p', r) \<and> length p' = length p"
proof -
  have b: "0 < unat (op_bits op)" "unat (op_bits op) < 64" and o: "unat (op_offset op) + unat (op_bits op) \<le> 8 * length p"
    using assms by (auto simp: op_ok_def)
  have bw: "op_bits op < 64" "op_bits op - 1 < 64" "op_bits op \<noteq> 64"
  proof -
    show "op_bits op < 64" using b(2) by (simp add: word_less_nat_alt)
    have "1 \<le> op_bits op" using b(1) by (simp add: word_le_nat_alt)
    then show "op_bits op - 1 < 64" using b(2) by (simp add: word_less_nat_alt unat_sub)
    show "op_bits op \<noteq> 64" using b(2) by auto
  qed
  obtain old where old: "read_field (op_sign op) p (op_offset op) (op_bits op) = Some old" using read_field_range [OF b o assms(4)] by blast
  have set: "\<exists>p'. (\<exists>r. setUnsignedBitfield p (op_offset op) (op_bits op) w \<bind> (\<lambda>p. Some (p, v)) = Some (p', r)) \<and> length p' = length p"
    for w and v :: "int64 option" using bitfield_set_get [OF o assms(4), of w] b(2) by fastforce
  have cu: "\<exists>x y. checkUnsignedBitfieldOverflow v i (op_bits op) ow l = Some (x, y)" for v i ow l
    using bw by (cases ow) (simp_all add: checkUnsignedBitfieldOverflow_def shl_def Let_def)
  have cs: "\<exists>x y. checkSignedBitfieldOverflow v i (op_bits op) ow l = Some (x, y)" for v i ow l
    using bw by (cases ow) (simp_all add: checkSignedBitfieldOverflow_def shl_def Let_def)
  show ?thesis
  proof (cases "op_sign op")
    case True
    then have g: "getSignedBitfield p (op_offset op) (op_bits op) = Some old" using old by (simp add: read_field_def)
    let ?v = "if op_opcode op = BITFIELDOP_INCRBY then old else op_i64 op" and ?i = "if op_opcode op = BITFIELDOP_INCRBY then op_i64 op else 0"
    obtain x y where "checkSignedBitfieldOverflow ?v ?i (op_bits op) (op_owtype op) junk = Some (x, y)" using cs by blast
    then show ?thesis using True g set by (auto simp: write_op_def Let_def setSignedBitfield_def split: if_splits)
  next
    case False
    then have g: "getUnsignedBitfield p (op_offset op) (op_bits op) = Some old" using old by (simp add: read_field_def)
    let ?v = "if op_opcode op = BITFIELDOP_INCRBY then old else op_i64 op" and ?i = "if op_opcode op = BITFIELDOP_INCRBY then op_i64 op else 0"
    obtain x y where "checkUnsignedBitfieldOverflow ?v ?i (op_bits op) (op_owtype op) junk = Some (x, y)" using cu by blast
    then show ?thesis using False g set by (auto simp: write_op_def Let_def split: if_splits)
  qed
qed

lemma get_op_total:
  assumes "op_ok hi op"
  shows "\<exists>v. get_op op p = Some v"
proof -
  let ?j = "drop_bit 3 (op_offset op)" and ?o = "unat (op_offset op)"
  let ?buf = "take 9 (drop (unat ?j) p) @ replicate (9 - length (take 9 (drop (unat ?j) p))) 0"
  have b: "0 < unat (op_bits op)" "unat (op_bits op) < 64" "?o < 2 ^ 32" using assms by (auto simp: op_ok_def)
  have len: "length ?buf = 9" by simp
  have j: "unat ?j = ?o div 8" using b(3) offset_byte [of ?o] by simp
  have "unat (?j * 8) = ?o div 8 * 8" using j b(3) unat_mult_lem [of ?j 8, THEN iffD1] by simp
  moreover from this have "?j * 8 \<le> op_offset op" by (simp add: word_le_nat_alt)
  ultimately have "unat (op_offset op - ?j * 8) = ?o mod 8" by (simp add: unat_sub minus_div_mult_eq_mod)
  then have "unat (op_offset op - ?j * 8) + unat (op_bits op) \<le> 8 * length ?buf" using b(2) unfolding len by simp
  from read_field_range [OF b(1,2) this, of "op_sign op"] show ?thesis
    by (auto simp: get_op_def Let_def read_field_def split: if_splits)
qed

lemma bitfield_run_total:
  assumes "list_all (op_ok hi) ops" "list_all (\<lambda>op. op_opcode op = BITFIELDOP_GET) ops \<or> unat hi < 8 * length p" "8 * length p < 2 ^ 64"
  shows "\<exists>s' p' n'. bitfield_run junk c ops p n s = Some (s', p', n') \<and> length p' = length p \<and> same_core s s'"
  using assms
proof (induction ops arbitrary: p n s)
  case Nil
  then show ?case by (simp add: same_core_def)
next
  case (Cons op ops)
  have core: "same_core s t" if "same_core (addReply c r s) t" for r t
    using that same_core_simps(1) [of s c r] by (simp add: same_core_def)
  show ?case
  proof (cases "op_opcode op = BITFIELDOP_GET")
    case True
    obtain v where v: "get_op op p = Some v" using get_op_total [of hi op p] Cons.prems(1) by auto
    have "\<exists>s' p' n'. bitfield_run junk c ops p n (addReply c (IntReply v) s) = Some (s', p', n') \<and> length p' = length p \<and>
        same_core (addReply c (IntReply v) s) s'"
      by (rule Cons.IH) (use Cons.prems in auto)
    then show ?thesis using True v core by auto
  next
    case False
    then obtain p1 r where w: "write_op junk op p = Some (p1, r)" "length p1 = length p"
      using write_op_total [of hi op p junk] Cons.prems by auto
    let ?r = "case r of Some retval \<Rightarrow> IntReply retval | None \<Rightarrow> NullBulk"
    have "\<exists>s' p' n'. bitfield_run junk c ops p1 (n + 1) (addReply c ?r s) = Some (s', p', n') \<and> length p' = length p1 \<and>
        same_core (addReply c ?r s) s'"
      by (rule Cons.IH) (use Cons.prems w(2) False in auto)
    moreover have "op_opcode op = BITFIELDOP_SET \<or> op_opcode op = BITFIELDOP_INCRBY" using False by (cases "op_opcode op") auto
    ultimately show ?thesis using w core by (auto simp: Let_def)
  qed
qed

abbreviation "BITFIELD_MAX \<equiv> STRING_MAX + 8"

lemma lookupString_total:
  assumes g: "G s0 {} {} s" and al: "BITFIELD_MAX \<le> max_alloc (cfg s)" and hi: "unat hi < 2 ^ 32 + 63"
  shows "wp (lookupStringForBitCommand c key hi s) (\<lambda>(s', r). case r of None \<Rightarrow> True
    | Some str \<Rightarrow> unat hi < 8 * length str \<and> length str \<le> BITFIELD_MAX)"
proof -
  let ?i = "c_db (client_of s c)" and ?n = "unat hi div 8 + 1"
  have h: "unat (drop_bit 3 hi) = unat hi div 8" using offset_byte [of "unat hi"] hi by simp
  then have "unat (drop_bit 3 hi + 1) = ?n" using hi unat_add_lem [of "drop_bit 3 hi" 1, THEN iffD1] by simp
  note n = this and bound = div_le_mono [of "unat hi" "2 ^ 32 + 62" 8]
  have n8: "?n \<le> BITFIELD_MAX" "unat hi < 8 * ?n" using bound hi by simp_all
  show ?thesis
    unfolding lookupStringForBitCommand_def Let_def n
  proof (rule wp_bindI, rule lookupKeyWrite_wp [OF g G_db(2) [OF g]], unfold prod.case)
    fix s1 assume g1: "G s0 {} {} s1" and l1: "looked ?i key s s1"
    have i1: "?i < length (dbs s1)" using l1 G_db(2) [OF g] by simp
    have al1: "BITFIELD_MAX \<le> max_alloc (cfg s1)" using al G_db(3) [OF g1] G_db(3) [OF g] by simp
    show "wp (case db_dict (dbs s1 ! ?i) key of None \<Rightarrow> sdsnewlen_zero (cfg s1) ?n \<bind> (\<lambda>zeros. dbAdd ?i key (Raw zeros) s1 \<bind> (\<lambda>s. Some (s, Some zeros)))
     | Some v \<Rightarrow> (case checkType c v OBJ_STRING s1 of (s, True) \<Rightarrow> Some (s, None)
       | (s, False) \<Rightarrow> dbUnshareStringValue ?i key v s \<bind> (\<lambda>(s, o1). ptr_sds o1 \<bind> (\<lambda>str. sdsgrowzero (cfg s) str ?n \<bind>
           (\<lambda>str. Some (set_value ?i key (Raw str) s, Some str)))))) (\<lambda>(s', r). case r of None \<Rightarrow> True
         | Some str \<Rightarrow> unat hi < 8 * length str \<and> length str \<le> BITFIELD_MAX)"
    proof (rule wp_optionI)
      assume "db_dict (dbs s1 ! ?i) key = None"
      then show "wp (sdsnewlen_zero (cfg s1) ?n \<bind> (\<lambda>zeros. dbAdd ?i key (Raw zeros) s1 \<bind> (\<lambda>s. Some (s, Some zeros)))) (\<lambda>(s', r). case r of None \<Rightarrow> True
         | Some str \<Rightarrow> unat hi < 8 * length str \<and> length str \<le> BITFIELD_MAX)"
        using al1 n8 by (simp add: sdsnewlen_zero_def dbAdd_def Let_def)
    next
      fix v assume k: "db_dict (dbs s1 ! ?i) key = Some v"
      show "wp (case checkType c v OBJ_STRING s1 of (s, True) \<Rightarrow> Some (s, None)
       | (s, False) \<Rightarrow> dbUnshareStringValue ?i key v s \<bind> (\<lambda>(s, o1). ptr_sds o1 \<bind> (\<lambda>str. sdsgrowzero (cfg s) str ?n \<bind>
           (\<lambda>str. Some (set_value ?i key (Raw str) s, Some str))))) (\<lambda>(s', r). case r of None \<Rightarrow> True
         | Some str \<Rightarrow> unat hi < 8 * length str \<and> length str \<le> BITFIELD_MAX)"
      proof (cases "obj_bytes v")
        case None
        then show ?thesis using checkType_string(2) [of v] by auto
      next
        case (Some b)
        have b: "length b \<le> STRING_MAX" using val_ok_bytes [OF db_ok_val [OF G_db(1) [OF g1 i1] k] Some] .
        have "wp (dbUnshareStringValue ?i key v s1) (\<lambda>(s, o1). o1 = Raw b \<and> cfg s = cfg s1)"
          by (rule dbUnshareStringValue_wp [OF g1 i1 k Some]) simp
        then show ?thesis using checkType_string(1) [OF Some] al1 n8 b
          by (auto simp: sdsgrowzero_def case_prod_unfold elim!: wp_mono)
      qed
    qed
  qed
qed

lemma target_total:
  assumes g: "G s0 {} {} s" and al: "BITFIELD_MAX \<le> max_alloc (cfg s)" and st: "ops_ok st"
  shows "wp (bitfield_target c key st s) (\<lambda>(s', r). case r of None \<Rightarrow> True
    | Some p \<Rightarrow> (list_all (\<lambda>op. op_opcode op = BITFIELDOP_GET) (bf_ops st) \<or> unat (bf_highest st) < 8 * length p) \<and> length p \<le> BITFIELD_MAX)"
  unfolding bitfield_target_def
proof (rule wp_ifI)
  assume ro: "bf_readonly st"
  let ?i = "c_db (client_of s c)"
  show "wp (lookupKeyRead ?i key s \<bind> (\<lambda>(s, obj). case obj of None \<Rightarrow> Some (s, Some [])
        | Some v \<Rightarrow> (case checkType c v OBJ_STRING s of (s, True) \<Rightarrow> Some (s, None)
              | (s, False) \<Rightarrow> getObjectReadOnlyString v \<bind> (\<lambda>p. Some (s, Some p))))) (\<lambda>(s', r). case r of None \<Rightarrow> True
    | Some p \<Rightarrow> (list_all (\<lambda>op. op_opcode op = BITFIELDOP_GET) (bf_ops st) \<or> unat (bf_highest st) < 8 * length p) \<and> length p \<le> BITFIELD_MAX)"
  proof (rule wp_bindI, rule lookupKeyRead_wp [OF g G_db(2) [OF g]], unfold prod.case, rule wp_optionI)
    show "wp (Some (s1, Some [])) (\<lambda>(s', r). case r of None \<Rightarrow> True
      | Some p \<Rightarrow> (list_all (\<lambda>op. op_opcode op = BITFIELDOP_GET) (bf_ops st) \<or> unat (bf_highest st) < 8 * length p) \<and> length p \<le> BITFIELD_MAX)" for s1 :: server
      using st ro by (simp add: ops_ok_def)
    fix s1 val v assume g1: "G s0 {} {} s1" and l1: "looked ?i key s s1" and v: "val = db_dict (dbs s1 ! ?i) key \<or> val = None \<and> masterhost (cfg s)" "val = Some v"
    have i1: "?i < length (dbs s1)" using l1 G_db(2) [OF g] by simp
    have k: "db_dict (dbs s1 ! ?i) key = Some v" using v by simp
    show "wp (case checkType c v OBJ_STRING s1 of (s, True) \<Rightarrow> Some (s, None)
              | (s, False) \<Rightarrow> getObjectReadOnlyString v \<bind> (\<lambda>p. Some (s, Some p))) (\<lambda>(s', r). case r of None \<Rightarrow> True
      | Some p \<Rightarrow> (list_all (\<lambda>op. op_opcode op = BITFIELDOP_GET) (bf_ops st) \<or> unat (bf_highest st) < 8 * length p) \<and> length p \<le> BITFIELD_MAX)"
    proof (cases "obj_bytes v")
      case None
      then show ?thesis using checkType_string(2) [of v] by auto
    next
      case (Some b)
      have "length b \<le> STRING_MAX" using val_ok_bytes [OF db_ok_val [OF G_db(1) [OF g1 i1] k] Some] .
      then show ?thesis using checkType_string(1) [OF Some] readOnlyString_bytes [OF Some] st ro by (simp add: ops_ok_def)
    qed
  qed
next
  have hi: "unat (bf_highest st) < 2 ^ 32 + 63" using st by (simp add: ops_ok_def)
  show "wp (lookupStringForBitCommand c key (bf_highest st) s) (\<lambda>(s', r). case r of None \<Rightarrow> True
    | Some p \<Rightarrow> (list_all (\<lambda>op. op_opcode op = BITFIELDOP_GET) (bf_ops st) \<or> unat (bf_highest st) < 8 * length p) \<and> length p \<le> BITFIELD_MAX)"
    by (rule wp_mono [OF lookupString_total [OF g al hi]]) (auto split: option.splits)
qed

text \<open>
  C40. BITFIELD stays inside the string: for every list of arguments without the type i64 the command runs to
  its end, so no subcommand reads or writes outside the bytes of the string and no shift is undefined.
\<close>

theorem bitfield_safe:
  assumes "server_ok s" "BITFIELD_MAX \<le> max_alloc (cfg s)" "no_i64 argv"
  shows "\<exists>s'. bitfieldCommand junk c argv s = Some s'"
proof -
  have "wp (bitfieldCommand junk c argv s) (\<lambda>_. True)"
    unfolding bitfieldCommand_def Let_def
  proof (rule wp_bindI, rule bitfield_parse_wp [OF G_start [OF assms(1)] _ no_i64_drop(1) [OF assms(3)]])
    show "ops_ok no_ops" by (simp add: ops_ok_def no_ops_def)
    fix s1 st assume g1: "G s {} {} s1" and st: "ops_ok st"
    have al: "BITFIELD_MAX \<le> max_alloc (cfg s1)" using assms(2) G_db(3) [OF g1] by simp
    obtain s2 r where t: "bitfield_target c (argv ! 1) st s1 = Some (s2, r)" "case r of None \<Rightarrow> True
      | Some p \<Rightarrow> (list_all (\<lambda>op. op_opcode op = BITFIELDOP_GET) (bf_ops st) \<or> unat (bf_highest st) < 8 * length p) \<and> length p \<le> BITFIELD_MAX"
      using target_total [OF g1 al st, of c "argv ! 1"] unfolding wp_def by (elim exE conjE case_prodE) blast
    have run: "\<exists>s' p' n'. bitfield_run junk c (bf_ops st) p 0 s3 = Some (s', p', n')" if "r = Some p" for p s3
      using bitfield_run_total [of "bf_highest st" "bf_ops st" p junk c 0 s3] t(2) that st by (auto simp: ops_ok_def)
    show "wp (case (s1, Some st) of (s', r) \<Rightarrow> (case r of None \<Rightarrow> Some s'
     | Some st \<Rightarrow> bitfield_target c (argv ! 1) st s' \<bind> (\<lambda>(s', r). case r of None \<Rightarrow> Some s'
         | Some p \<Rightarrow> bitfield_run junk c (bf_ops st) p 0 (addReply c (MultiBulkLen (length (bf_ops st))) s') \<bind> (\<lambda>(s', p, changes).
             if changes \<noteq> 0 then Some (add_dirty (int changes) (notifyKeyspaceEvent NOTIFY_STRING ''setbit'' (argv ! 1) (c_db (client_of s c))
               (signalModifiedKey (c_db (client_of s c)) (argv ! 1) (if bf_readonly st then s' else set_value (c_db (client_of s c)) (argv ! 1) (Raw p) s'))))
             else Some (if bf_readonly st then s' else set_value (c_db (client_of s c)) (argv ! 1) (Raw p) s'))))) (\<lambda>_. True)"
    proof (cases r)
      case (Some p)
      then obtain s' p' n' where "bitfield_run junk c (bf_ops st) p 0 (addReply c (MultiBulkLen (length (bf_ops st))) s2) = Some (s', p', n')"
        using run by blast
      then show ?thesis using t(1) Some by simp
    qed (use t(1) in simp)
  qed simp
  then show ?thesis by (auto simp: wp_def)
qed

theorem bitfield_safe_witness:
  "\<exists>s'. bitfieldCommand 0 0 [[], [107], map of_char ''SET'', [117, 56], [55], [50, 48, 48], map of_char ''get'', [105, 53], [35, 51]] sample_server = Some s'"
  by (rule bitfield_safe [OF sample_ok]) (simp add: sample_config_def, code_simp)

text \<open>
  BITFIELD can exceed the limit on strings: the offset of a field is checked and the end of the field is not.
  Setting the field u63 at the largest offset on a missing key creates a string of 512 MB and 8 bytes, so the
  invariant that every other command keeps is lost.
\<close>

definition far_set :: "sds \<Rightarrow> key \<Rightarrow> sds list" where
  "far_set cmd key = [cmd, key, map of_char ''set'', map of_char ''u63'', map of_char ''4294967295'', [48]]"

theorem bitfield_exceeds_limit:
  assumes ok: "server_ok s" and al: "BITFIELD_MAX \<le> max_alloc (cfg s)" and live: "\<not> is_expired s (c_db (client_of s c)) key"
    and none: "db_dict (dbs s ! c_db (client_of s c)) key = None"
  shows "\<exists>s' b. bitfieldCommand junk c (far_set cmd key) s = Some s' \<and>
    db_dict (dbs s' ! c_db (client_of s c)) key = Some (Raw b) \<and> length b = BITFIELD_MAX \<and> \<not> server_ok s'"
proof -
  let ?i = "c_db (client_of s c)"
  let ?op = "\<lparr>op_offset = 4294967295, op_i64 = 0, op_opcode = BITFIELDOP_SET, op_owtype = BFOVERFLOW_WRAP, op_bits = 63, op_sign = False\<rparr>"
  let ?st = "\<lparr>bf_ops = [?op], bf_readonly = False, bf_highest = 4294967357\<rparr>"
  have i: "?i < length (dbs s)" and dok: "db_ok (dbs s ! ?i)" using ok by (auto simp: server_ok_def)
  have a: "getBitfieldTypeFromArgument (map of_char ''u63'') = Some (False, 63)"
    "getBitOffsetFromArgument (map of_char ''4294967295'') True 63 = Some 4294967295" "string2ll [48] = Some 0"
    "strcase_eq (map of_char ''set'') ''set''" "\<not> strcase_eq (map of_char ''set'') ''get''" by code_simp+
  have "getLongLongFromObject (Some (createStringObject [48])) = Some (string2ll [48])"
    using arg_obj_long [of "[[48]]" 0] by (simp add: arg_obj_def)
  then have "getLongLongOrReply c (Some (createStringObject [48])) None s = Some (s, Some 0)"
    using a(3) by (simp add: getLongLongOrReply_def)
  then have p: "bitfield_parse c (drop 2 (far_set cmd key)) BFOVERFLOW_WRAP no_ops s = Some (s, Some ?st)"
    using a by (simp add: far_set_def parse_op_def no_ops_def Let_def numeral_2_eq_2 numeral_3_eq_3 del: list.map)
  let ?b = "replicate BITFIELD_MAX 0 :: byte list"
  have "unat (drop_bit 3 (4294967357 :: uint64) + 1) = BITFIELD_MAX" by simp
  then obtain t where t: "bitfield_target c key ?st s = Some (t, Some ?b)" "length (dbs t) = length (dbs s)"
    using lookupKeyWrite_live [OF dok live] none al
    by (auto simp: bitfield_target_def lookupStringForBitCommand_def sdsnewlen_zero_def dbAdd_def Let_def set_db_def log_call_def)
  have r: "list_all (op_ok 4294967357) [?op]" "unat (4294967357 :: uint64) < 8 * length ?b" "8 * length ?b < 2 ^ 64"
    by (simp_all add: op_ok_def)
  obtain s1 b n where run: "bitfield_run junk c [?op] ?b 0 (addReply c (MultiBulkLen 1) t) = Some (s1, b, n)" "length b = BITFIELD_MAX"
    "same_core (addReply c (MultiBulkLen 1) t) s1"
    using bitfield_run_total [OF r(1) disjI2 [OF r(2)] r(3), of junk c 0 "addReply c (MultiBulkLen 1) t"] by auto
  have i1: "?i < length (dbs s1)" using run(3) t(2) i by (simp add: same_core_def)
  let ?s2 = "set_value ?i key (Raw b) s1"
  define s' where "s' = (if n \<noteq> 0 then add_dirty (int n) (notifyKeyspaceEvent NOTIFY_STRING ''setbit'' key ?i (signalModifiedKey ?i key ?s2)) else ?s2)"
  have "far_set cmd key ! 1 = key" by (simp add: far_set_def)
  then have "bitfieldCommand junk c (far_set cmd key) s = Some s'"
    using p t(1) run(1) unfolding bitfieldCommand_def by (simp add: Let_def s'_def del: bitfield_run.simps)
  moreover have d: "db_dict (dbs s' ! ?i) key = Some (Raw b)" "length (dbs s') = length (dbs s1)" using i1 by (simp_all add: s'_def)
  moreover have "\<not> server_ok s'"
  proof
    assume "server_ok s'"
    then have "db_ok (dbs s' ! ?i)" using i1 d(2) by (simp add: server_ok_def)
    from db_ok_val [OF this d(1)] show False using run(2) by simp
  qed
  ultimately show ?thesis using run(2) by blast
qed

theorem bitfield_exceeds_limit_witness:
  "\<exists>s' b. bitfieldCommand 0 0 (far_set [] [107]) sample_server = Some s' \<and>
    db_dict (dbs s' ! 0) [107] = Some (Raw b) \<and> length b = BITFIELD_MAX \<and> \<not> server_ok s'"
  using bitfield_exceeds_limit [OF sample_ok, of 0 "[107]" 0 "[]"]
  by (simp add: is_expired_def new_client_def sample_config_def new_db_def)

end
