(* ===== verification/Adlist.thy ===== *)
theory Adlist
  imports Prelude
begin

text \<open>
  \<^verbatim>\<open>adlist.c\<close>: the doubly linked lists of the server, in a memory of nodes. A pointer is a word of 64 bits
  and \<open>NULL\<close> is 0; following a pointer that is \<open>NULL\<close> or freed is \<open>None\<close>. The allocator is a parameter that
  returns an address, \<open>NULL\<close> when it fails, and the indeterminate contents of the new node. The
  theorems show that every operation follows only valid pointers and refines an operation on lists, and
  that iterations end, also when the current node is deleted on the way.
\<close>

section \<open>Nodes, lists and iterators\<close>

type_synonym ptr = "64 word"

abbreviation NULL :: ptr where "NULL \<equiv> 0"

record 'v listNode =
  n_prev :: ptr
  n_next :: ptr
  n_value :: 'v

text \<open>The methods are \<open>None\<close> when they are not set; for \<open>free\<close> only its presence matters.\<close>

record 'v adlist =
  l_head :: ptr
  l_tail :: ptr
  l_dup :: "('v \<Rightarrow> 'v option) option"
  l_free :: bool
  l_match :: "('v \<Rightarrow> 'v \<Rightarrow> bool) option"
  l_len :: uint64

datatype direction = AL_START_HEAD | AL_START_TAIL

record listIter =
  it_next :: ptr
  it_direction :: direction

text \<open>The nodes that are allocated, and the values that were passed to a \<open>free\<close> method.\<close>

record 'v memory =
  nodes :: "ptr \<rightharpoonup> 'v listNode"
  freed :: "'v list"

type_synonym 'v allocator = "'v memory \<Rightarrow> ptr \<times> 'v listNode"

definition load :: "ptr \<Rightarrow> 'v memory \<Rightarrow> 'v listNode option" where
  "load p m = (if p = NULL then None else nodes m p)"

definition update_node :: "ptr \<Rightarrow> ('v listNode \<Rightarrow> 'v listNode) \<Rightarrow> 'v memory \<Rightarrow> 'v memory option" where
  "update_node p f m = do { n \<leftarrow> load p m; Some (m\<lparr>nodes := (nodes m)(p \<mapsto> f n)\<rparr>) }"

definition set_prev :: "ptr \<Rightarrow> ptr \<Rightarrow> 'v memory \<Rightarrow> 'v memory option" where
  "set_prev p q = update_node p (n_prev_update (\<lambda>_. q))"

definition set_next :: "ptr \<Rightarrow> ptr \<Rightarrow> 'v memory \<Rightarrow> 'v memory option" where
  "set_next p q = update_node p (n_next_update (\<lambda>_. q))"

text \<open>\<^verbatim>\<open>zfree\<close> of a node, and the call of the \<open>free\<close> method of a list when it has one.\<close>

definition zfree :: "ptr \<Rightarrow> 'v memory \<Rightarrow> 'v memory option" where
  "zfree p m = do { _ \<leftarrow> load p m; Some (m\<lparr>nodes := (nodes m)(p := None)\<rparr>) }"

definition free_value :: "'v adlist \<Rightarrow> 'v \<Rightarrow> 'v memory \<Rightarrow> 'v memory" where
  "free_value l v m = (if l_free l then m\<lparr>freed := freed m @ [v]\<rparr> else m)"

section \<open>Operations\<close>

definition listCreate :: "'v adlist" where
  "listCreate = \<lparr>l_head = NULL, l_tail = NULL, l_dup = None, l_free = False, l_match = None, l_len = 0\<rparr>"

primrec release_loop :: "nat \<Rightarrow> 'v adlist \<Rightarrow> ptr \<Rightarrow> 'v memory \<Rightarrow> 'v memory option" where
  "release_loop 0 l current m = Some m"
| "release_loop (Suc len) l current m = do {
     n \<leftarrow> load current m;
     let m = free_value l (n_value n) m;
     m \<leftarrow> zfree current m;
     release_loop len l (n_next n) m }"

definition listRelease :: "'v adlist \<Rightarrow> 'v memory \<Rightarrow> 'v memory option" where
  "listRelease l m = release_loop (unat (l_len l)) l (l_head l) m"

text \<open>The flag is \<open>False\<close> when the functions return \<open>NULL\<close>.\<close>

definition listAddNodeHead :: "'v allocator \<Rightarrow> 'v adlist \<Rightarrow> 'v \<Rightarrow> 'v memory \<Rightarrow> ('v memory \<times> 'v adlist \<times> bool) option" where
  "listAddNodeHead alloc l v m =
     (case alloc m of (node, junk) \<Rightarrow>
      if node = NULL then Some (m, l, False)
      else do {
        let m = m\<lparr>nodes := (nodes m)(node \<mapsto> junk\<lparr>n_value := v\<rparr>)\<rparr>;
        (m, l) \<leftarrow> (if l_len l = 0 then do {
            let l = l\<lparr>l_head := node, l_tail := node\<rparr>;
            m \<leftarrow> set_next node NULL m;
            m \<leftarrow> set_prev node NULL m;
            Some (m, l) }
          else do {
            m \<leftarrow> set_prev node NULL m;
            m \<leftarrow> set_next node (l_head l) m;
            m \<leftarrow> set_prev (l_head l) node m;
            Some (m, l\<lparr>l_head := node\<rparr>) });
        Some (m, l\<lparr>l_len := l_len l + 1\<rparr>, True) })"

definition listAddNodeTail :: "'v allocator \<Rightarrow> 'v adlist \<Rightarrow> 'v \<Rightarrow> 'v memory \<Rightarrow> ('v memory \<times> 'v adlist \<times> bool) option" where
  "listAddNodeTail alloc l v m =
     (case alloc m of (node, junk) \<Rightarrow>
      if node = NULL then Some (m, l, False)
      else do {
        let m = m\<lparr>nodes := (nodes m)(node \<mapsto> junk\<lparr>n_value := v\<rparr>)\<rparr>;
        (m, l) \<leftarrow> (if l_len l = 0 then do {
            let l = l\<lparr>l_head := node, l_tail := node\<rparr>;
            m \<leftarrow> set_next node NULL m;
            m \<leftarrow> set_prev node NULL m;
            Some (m, l) }
          else do {
            m \<leftarrow> set_prev node (l_tail l) m;
            m \<leftarrow> set_next node NULL m;
            m \<leftarrow> set_next (l_tail l) node m;
            Some (m, l\<lparr>l_tail := node\<rparr>) });
        Some (m, l\<lparr>l_len := l_len l + 1\<rparr>, True) })"

definition listInsertNode :: "'v allocator \<Rightarrow> 'v adlist \<Rightarrow> ptr \<Rightarrow> 'v \<Rightarrow> bool \<Rightarrow> 'v memory \<Rightarrow> ('v memory \<times> 'v adlist \<times> bool) option" where
  "listInsertNode alloc l old_node v after m =
     (case alloc m of (node, junk) \<Rightarrow>
      if node = NULL then Some (m, l, False)
      else do {
        let m = m\<lparr>nodes := (nodes m)(node \<mapsto> junk\<lparr>n_value := v\<rparr>)\<rparr>;
        old \<leftarrow> load old_node m;
        (m, l) \<leftarrow> (if after then do {
            m \<leftarrow> set_prev node old_node m;
            m \<leftarrow> set_next node (n_next old) m;
            Some (m, if l_tail l = old_node then l\<lparr>l_tail := node\<rparr> else l) }
          else do {
            m \<leftarrow> set_next node old_node m;
            m \<leftarrow> set_prev node (n_prev old) m;
            Some (m, if l_head l = old_node then l\<lparr>l_head := node\<rparr> else l) });
        n \<leftarrow> load node m;
        m \<leftarrow> (if n_prev n \<noteq> NULL then set_next (n_prev n) node m else Some m);
        m \<leftarrow> (if n_next n \<noteq> NULL then set_prev (n_next n) node m else Some m);
        Some (m, l\<lparr>l_len := l_len l + 1\<rparr>, True) })"

definition listDelNode :: "'v adlist \<Rightarrow> ptr \<Rightarrow> 'v memory \<Rightarrow> ('v memory \<times> 'v adlist) option" where
  "listDelNode l node m = do {
     n \<leftarrow> load node m;
     (m, l) \<leftarrow> (if n_prev n \<noteq> NULL then do { m \<leftarrow> set_next (n_prev n) (n_next n) m; Some (m, l) }
       else Some (m, l\<lparr>l_head := n_next n\<rparr>));
     (m, l) \<leftarrow> (if n_next n \<noteq> NULL then do { m \<leftarrow> set_prev (n_next n) (n_prev n) m; Some (m, l) }
       else Some (m, l\<lparr>l_tail := n_prev n\<rparr>));
     let m = free_value l (n_value n) m;
     m \<leftarrow> zfree node m;
     Some (m, l\<lparr>l_len := l_len l - 1\<rparr>) }"

text \<open>\<^verbatim>\<open>listGetIterator\<close> without the allocation of the iterator; \<^verbatim>\<open>listRewind\<close> and \<^verbatim>\<open>listRewindTail\<close> set the same fields.\<close>

definition listGetIterator :: "'v adlist \<Rightarrow> direction \<Rightarrow> listIter" where
  "listGetIterator l dir = \<lparr>it_next = (if dir = AL_START_HEAD then l_head l else l_tail l), it_direction = dir\<rparr>"

definition listRewind :: "'v adlist \<Rightarrow> listIter" where
  "listRewind l = \<lparr>it_next = l_head l, it_direction = AL_START_HEAD\<rparr>"

definition listRewindTail :: "'v adlist \<Rightarrow> listIter" where
  "listRewindTail l = \<lparr>it_next = l_tail l, it_direction = AL_START_TAIL\<rparr>"

definition listNext :: "listIter \<Rightarrow> 'v memory \<Rightarrow> (listIter \<times> ptr) option" where
  "listNext it m =
     (let current = it_next it in
      if current \<noteq> NULL then do {
        n \<leftarrow> load current m;
        Some (if it_direction it = AL_START_HEAD then it\<lparr>it_next := n_next n\<rparr> else it\<lparr>it_next := n_prev n\<rparr>, current) }
      else Some (it, current))"

text \<open>The value of a copied node, \<open>None\<close> when the method returns \<open>NULL\<close>.\<close>

definition dup_value :: "'v adlist \<Rightarrow> 'v \<Rightarrow> 'v option" where
  "dup_value l v = (case l_dup l of Some f \<Rightarrow> f v | None \<Rightarrow> Some v)"

text \<open>The loop of \<^verbatim>\<open>listDup\<close>; a result \<open>None\<close> inside is \<open>NULL\<close>, after the copy was released.\<close>

partial_function (option) dup_loop :: "'v allocator \<Rightarrow> listIter \<Rightarrow> 'v adlist \<Rightarrow> 'v memory \<Rightarrow> ('v memory \<times> 'v adlist option) option" where
  "dup_loop alloc it copy m = do {
     (it, node) \<leftarrow> listNext it m;
     if node = NULL then Some (m, Some copy)
     else do {
       n \<leftarrow> load node m;
       case dup_value copy (n_value n) of
         None \<Rightarrow> do { m \<leftarrow> listRelease copy m; Some (m, None) }
       | Some v \<Rightarrow> do {
           (m, copy, ok) \<leftarrow> listAddNodeTail alloc copy v m;
           if ok then dup_loop alloc it copy m
           else do { m \<leftarrow> listRelease copy m; Some (m, None) } } } }"

definition listDup :: "'v allocator \<Rightarrow> 'v adlist \<Rightarrow> 'v memory \<Rightarrow> ('v memory \<times> 'v adlist option) option" where
  "listDup alloc orig m =
     dup_loop alloc (listRewind orig) (listCreate\<lparr>l_dup := l_dup orig, l_free := l_free orig, l_match := l_match orig\<rparr>) m"

partial_function (option) search_loop :: "'v adlist \<Rightarrow> 'v \<Rightarrow> listIter \<Rightarrow> 'v memory \<Rightarrow> ptr option" where
  "search_loop l key it m = do {
     (it, node) \<leftarrow> listNext it m;
     if node = NULL then Some NULL
     else do {
       n \<leftarrow> load node m;
       if (case l_match l of Some f \<Rightarrow> f (n_value n) key | None \<Rightarrow> key = n_value n) then Some node
       else search_loop l key it m } }"

definition listSearchKey :: "'v adlist \<Rightarrow> 'v \<Rightarrow> 'v memory \<Rightarrow> ptr option" where
  "listSearchKey l key m = search_loop l key (listRewind l) m"

text \<open>\<^verbatim>\<open>while(index-- && n) n = n->next\<close>, or \<open>prev\<close>.\<close>

primrec walk :: "('v listNode \<Rightarrow> ptr) \<Rightarrow> nat \<Rightarrow> ptr \<Rightarrow> 'v memory \<Rightarrow> ptr option" where
  "walk link 0 n m = Some n"
| "walk link (Suc index) n m =
     (if n = NULL then Some n else do { node \<leftarrow> load n m; walk link index (link node) m })"

definition listIndex :: "'v adlist \<Rightarrow> int64 \<Rightarrow> 'v memory \<Rightarrow> ptr option" where
  "listIndex l index m =
     (if sint index < 0 then walk n_prev (unat ((- index) - 1)) (l_tail l) m
      else walk n_next (unat index) (l_head l) m)"

definition listRotate :: "'v adlist \<Rightarrow> 'v memory \<Rightarrow> ('v memory \<times> 'v adlist) option" where
  "listRotate l m =
     (let tail = l_tail l in
      if l_len l \<le> 1 then Some (m, l)
      else do {
        n \<leftarrow> load tail m;
        let l = l\<lparr>l_tail := n_prev n\<rparr>;
        m \<leftarrow> set_next (l_tail l) NULL m;
        m \<leftarrow> set_prev (l_head l) tail m;
        m \<leftarrow> set_prev tail NULL m;
        m \<leftarrow> set_next tail (l_head l) m;
        Some (m, l\<lparr>l_head := tail\<rparr>) })"

section \<open>Lists in memory\<close>

text \<open>
  The address of the first and of the last node of a stretch, and the stretch itself between two
  neighbours: the nodes with their values, linked in both directions.
\<close>

definition first_of :: "(ptr \<times> 'v) list \<Rightarrow> ptr \<Rightarrow> ptr" where
  "first_of xs e = (case xs of [] \<Rightarrow> e | x # _ \<Rightarrow> fst x)"

definition last_of :: "ptr \<Rightarrow> (ptr \<times> 'v) list \<Rightarrow> ptr" where
  "last_of b xs = (if xs = [] then b else fst (last xs))"

fun seg :: "(ptr \<rightharpoonup> 'v listNode) \<Rightarrow> ptr \<Rightarrow> (ptr \<times> 'v) list \<Rightarrow> ptr \<Rightarrow> bool" where
  "seg h b [] e = True"
| "seg h b ((a, v) # xs) e = (a \<noteq> NULL \<and> h a = Some \<lparr>n_prev = b, n_next = first_of xs e, n_value = v\<rparr> \<and> seg h a xs e)"

definition list_ok :: "'v memory \<Rightarrow> 'v adlist \<Rightarrow> (ptr \<times> 'v) list \<Rightarrow> bool" where
  "list_ok m l xs \<longleftrightarrow> distinct (map fst xs) \<and> seg (nodes m) NULL xs NULL \<and> l_head l = first_of xs NULL \<and>
     l_tail l = last_of NULL xs \<and> unat (l_len l) = length xs"

lemma first_of_simps [simp]:
  "first_of [] e = e" "first_of (x # xs) e = fst x" "first_of (xs @ ys) e = first_of xs (first_of ys e)"
  by (auto simp: first_of_def split: list.split)

lemma last_of_simps [simp]:
  "last_of b [] = b" "last_of b (x # xs) = last_of (fst x) xs" "last_of b (xs @ ys) = last_of (last_of b xs) ys"
  by (simp_all add: last_of_def)

lemma seg_append [simp]: "seg h b (xs @ ys) e \<longleftrightarrow> seg h b xs (first_of ys e) \<and> seg h (last_of b xs) ys e"
proof (induction xs arbitrary: b)
  case (Cons x xs)
  then show ?case by (cases x) simp
qed simp

lemma seg_frame: "(\<And>a. a \<in> fst ` set xs \<Longrightarrow> h' a = h a) \<Longrightarrow> seg h' b xs e = seg h b xs e"
  by (induction h b xs e rule: seg.induct) simp_all

lemma seg_upd [simp]: "a \<notin> fst ` set xs \<Longrightarrow> seg (h(a := n)) b xs e = seg h b xs e"
  by (rule seg_frame) auto

lemma seg_in: "seg h b xs e \<Longrightarrow> x \<in> set xs \<Longrightarrow> fst x \<noteq> NULL \<and> h (fst x) \<noteq> None"
  by (induction h b xs e rule: seg.induct) auto

text \<open>The last node of a stretch gets a new successor, the first one a new predecessor.\<close>

lemma seg_relink_next:
  assumes "seg h b (xs @ [(a, v)]) e" "distinct (map fst (xs @ [(a, v)]))"
  shows "seg (h(a \<mapsto> \<lparr>n_prev = last_of b xs, n_next = e', n_value = v\<rparr>)) b (xs @ [(a, v)]) e'"
  using assms by simp

lemma seg_relink_prev:
  assumes "seg h b ((a, v) # xs) e" "distinct (map fst ((a, v) # xs))"
  shows "seg (h(a \<mapsto> \<lparr>n_prev = b', n_next = first_of xs e, n_value = v\<rparr>)) b' ((a, v) # xs) e"
  using assms by simp

text \<open>Addresses are finite, so the length never overflows.\<close>

lemma addresses_bound:
  assumes "distinct (map fst xs)" "\<And>x. x \<in> set xs \<Longrightarrow> fst x \<noteq> (0 :: 64 word)"
  shows "length xs < 2 ^ 64"
proof -
  have "length xs = card (fst ` set xs)" using distinct_card [OF assms(1)] by simp
  also have "\<dots> < card (UNIV :: 64 word set)"
  proof (rule psubset_card_mono)
    have "0 \<notin> fst ` set xs" using assms(2) by force
    then show "fst ` set xs \<subset> UNIV" by blast
  qed simp
  finally show ?thesis by (simp add: card_word)
qed

section \<open>The operations on lists in memory\<close>

text \<open>
  \<open>step_ok m l A frees xs (m', l')\<close>: after the step the list holds \<open>xs\<close>, its methods are the same, the values
  \<open>frees\<close> were freed and only nodes at the addresses \<open>A\<close> have changed.
\<close>

definition step_ok :: "'v memory \<Rightarrow> 'v adlist \<Rightarrow> ptr set \<Rightarrow> 'v list \<Rightarrow> (ptr \<times> 'v) list \<Rightarrow> 'v memory \<Rightarrow> 'v adlist \<Rightarrow> bool" where
  "step_ok m l A frees xs m' l' \<longleftrightarrow> list_ok m' l' xs \<and> l_dup l' = l_dup l \<and> l_free l' = l_free l \<and> l_match l' = l_match l \<and>
     freed m' = freed m @ frees \<and> (\<forall>p. p \<notin> A \<longrightarrow> nodes m' p = nodes m p)"

abbreviation addrs :: "(ptr \<times> 'v) list \<Rightarrow> ptr set" where
  "addrs xs \<equiv> fst ` set xs"

lemmas node_defs = load_def update_node_def set_prev_def set_next_def zfree_def free_value_def

lemma list_ok_bound: "list_ok m l xs \<Longrightarrow> length xs < 2 ^ 64"
  using addresses_bound [of xs] seg_in [of "nodes m" NULL xs NULL] unfolding list_ok_def by blast

lemma list_ok_len:
  assumes "list_ok m l xs"
  shows "l_len l = of_nat (length xs)" "l_len l = 0 \<longleftrightarrow> xs = []" "l_len l \<le> 1 \<longleftrightarrow> length xs \<le> 1"
proof -
  have u: "unat (l_len l) = length xs" using assms by (simp add: list_ok_def)
  show "l_len l = of_nat (length xs)" unfolding u [symmetric] by simp
  show "l_len l = 0 \<longleftrightarrow> xs = []" using u by (metis length_0_conv unat_eq_zero unsigned_0)
  show "l_len l \<le> 1 \<longleftrightarrow> length xs \<le> 1" using u by (simp add: word_le_nat_alt)
qed

lemma len_grows:
  assumes "seg h NULL xs NULL" "distinct (map fst xs)" "unat (len :: uint64) + 1 = length xs"
  shows "unat (len + 1) = length xs"
proof -
  have "length xs < 2 ^ 64" using addresses_bound [OF assms(2)] seg_in [OF assms(1)] by blast
  then have "unat len + unat (1 :: uint64) < 2 ^ LENGTH(64)" using assms by simp
  then show ?thesis using assms unat_add_lem [of len 1] by simp
qed

lemma ends_nonempty: "xs \<noteq> [] \<Longrightarrow> first_of xs e = first_of xs e'" "xs \<noteq> [] \<Longrightarrow> last_of b xs = last_of b' xs"
  by (auto simp: first_of_def last_of_def split: list.split)

lemma first_of_in: "xs \<noteq> [] \<Longrightarrow> first_of xs e \<in> addrs xs"
  by (cases xs) auto

lemma last_of_in: "xs \<noteq> [] \<Longrightarrow> last_of b xs \<in> addrs xs"
  by (simp add: last_of_def)

text \<open>A list is not disturbed by changes elsewhere.\<close>

lemma list_ok_frame: "list_ok m l xs \<Longrightarrow> (\<And>p. p \<in> addrs xs \<Longrightarrow> nodes m' p = nodes m p) \<Longrightarrow> list_ok m' l xs"
  using seg_frame [of xs "nodes m'" "nodes m"] by (simp add: list_ok_def)

lemma list_ok_dom: "list_ok m l xs \<Longrightarrow> addrs xs \<subseteq> dom (nodes m)"
  using seg_in [of "nodes m" NULL xs NULL] unfolding list_ok_def by blast

lemma alloc_fresh: "list_ok m l xs \<Longrightarrow> nodes m a = None \<Longrightarrow> a \<notin> addrs xs"
  using seg_in [of "nodes m" NULL xs NULL] unfolding list_ok_def by blast

text \<open>A new node between two stretches, and the end of a node.\<close>

lemma link_in:
  assumes ok: "seg (nodes m) NULL (pre @ post) NULL" "distinct (map fst (pre @ post))"
    and a: "a \<noteq> NULL" "a \<notin> addrs (pre @ post)"
    and m1: "m1 = m\<lparr>nodes := (nodes m)(a \<mapsto> \<lparr>n_prev = last_of NULL pre, n_next = first_of post NULL, n_value = v\<rparr>)\<rparr>"
  shows "\<exists>m2 m'. (if last_of NULL pre \<noteq> NULL then set_next (last_of NULL pre) a m1 else Some m1) = Some m2 \<and>
    (if first_of post NULL \<noteq> NULL then set_prev (first_of post NULL) a m2 else Some m2) = Some m' \<and>
    seg (nodes m') NULL (pre @ (a, v) # post) NULL \<and> distinct (map fst (pre @ (a, v) # post)) \<and> freed m' = freed m \<and>
    (\<forall>p. p \<notin> insert a (addrs (pre @ post)) \<longrightarrow> nodes m' p = nodes m p)"
proof (cases pre rule: rev_cases)
  case Nil
  show ?thesis
  proof (cases post)
    case (Cons y post')
    then show ?thesis using Nil ok a unfolding m1 by (cases y) (auto simp: node_defs)
  qed (use Nil ok a m1 in auto)
next
  case (snoc pre' x)
  show ?thesis
  proof (cases post)
    case Nil
    then show ?thesis using snoc ok a unfolding m1 by (cases x) (auto simp: node_defs)
  next
    case (Cons y post')
    then show ?thesis using snoc ok a unfolding m1 by (cases x, cases y) (auto simp: node_defs image_Un)
  qed
qed

lemma link_out:
  assumes ok: "seg (nodes m) NULL (pre @ (a, v) # post) NULL" "distinct (map fst (pre @ (a, v) # post))"
  shows "\<exists>m2 m'. (if last_of NULL pre \<noteq> NULL then set_next (last_of NULL pre) (first_of post NULL) m else Some m) = Some m2 \<and>
    (if first_of post NULL \<noteq> NULL then set_prev (first_of post NULL) (last_of NULL pre) m2 else Some m2) = Some m' \<and>
    seg (nodes m') NULL (pre @ post) NULL \<and> nodes m' a = nodes m a \<and> freed m' = freed m \<and>
    (\<forall>p. p \<notin> addrs (pre @ post) \<longrightarrow> nodes m' p = nodes m p)"
proof (cases pre rule: rev_cases)
  case Nil
  show ?thesis
  proof (cases post)
    case (Cons y post')
    then show ?thesis using Nil ok by (cases y) (auto simp: node_defs)
  qed (use Nil ok in auto)
next
  case (snoc pre' x)
  show ?thesis
  proof (cases post)
    case Nil
    then show ?thesis using snoc ok by (cases x) (auto simp: node_defs)
  next
    case (Cons y post')
    then show ?thesis using snoc ok by (cases x, cases y) (auto simp: node_defs)
  qed
qed

text \<open>Where the ends of the list are.\<close>

lemma first_of_last_of_NULL [simp]:
  assumes "seg h b xs e" "xs \<noteq> []"
  shows "first_of xs c \<noteq> NULL" "last_of c xs \<noteq> NULL"
  using seg_in [OF assms(1)] first_of_in [OF assms(2)] last_of_in [OF assms(2)] by fastforce+

lemma first_of_neq: "a \<notin> addrs xs \<Longrightarrow> a \<noteq> e \<Longrightarrow> first_of xs e \<noteq> a"
  using first_of_in [of xs e] by (cases "xs = []") auto

lemma last_of_neq: "a \<notin> addrs xs \<Longrightarrow> a \<noteq> e \<Longrightarrow> last_of e xs \<noteq> a"
  using last_of_in [of xs e] by (cases "xs = []") auto

lemma list_ok_nodes:
  assumes "list_ok m l (pre @ (a, v) # post)"
  shows "load a m = Some \<lparr>n_prev = last_of NULL pre, n_next = first_of post NULL, n_value = v\<rparr>"
    and "a \<noteq> NULL" and "l_head l = a \<longleftrightarrow> pre = []" and "l_tail l = a \<longleftrightarrow> post = []"
    and "l_head l = first_of pre a" and "l_tail l = last_of a post"
    and "last_of NULL pre = NULL \<longleftrightarrow> pre = []" and "first_of post NULL = NULL \<longleftrightarrow> post = []"
  using assms first_of_in [of pre a] last_of_in [of post a] by (auto simp: list_ok_def load_def)

text \<open>The fields of a new node.\<close>

lemma set_new [simp]:
  assumes "a \<noteq> NULL"
  shows "set_prev a p (m\<lparr>nodes := (nodes m)(a \<mapsto> n)\<rparr>) = Some (m\<lparr>nodes := (nodes m)(a \<mapsto> n\<lparr>n_prev := p\<rparr>)\<rparr>)"
    and "set_next a p (m\<lparr>nodes := (nodes m)(a \<mapsto> n)\<rparr>) = Some (m\<lparr>nodes := (nodes m)(a \<mapsto> n\<lparr>n_next := p\<rparr>)\<rparr>)"
  using assms by (simp_all add: node_defs)

lemma node_init [simp]:
  fixes n :: "'v listNode"
  shows "n\<lparr>n_value := v, n_prev := p, n_next := q\<rparr> = \<lparr>n_prev = p, n_next = q, n_value = v\<rparr>"
    and "n\<lparr>n_value := v, n_next := q, n_prev := p\<rparr> = \<lparr>n_prev = p, n_next = q, n_value = v\<rparr>"
  by (cases n; simp)+

text \<open>The header of the list after a step.\<close>

definition ends_ok :: "'v adlist \<Rightarrow> (ptr \<times> 'v) list \<Rightarrow> uint64 \<Rightarrow> 'v adlist \<Rightarrow> bool" where
  "ends_ok l xs n l' \<longleftrightarrow> l_head l' = first_of xs NULL \<and> l_tail l' = last_of NULL xs \<and> l_len l' = n \<and>
     l_dup l' = l_dup l \<and> l_free l' = l_free l \<and> l_match l' = l_match l"

lemma step_okI:
  assumes "seg (nodes m') NULL xs' NULL" "distinct (map fst xs')" "unat (l_len l) + 1 = length xs'"
    and "ends_ok l xs' (l_len l + 1) l'"
    and "freed m' = freed m" "\<forall>p. p \<notin> A \<longrightarrow> nodes m' p = nodes m p"
  shows "step_ok m l A [] xs' m' l'"
  using assms len_grows [OF assms(1-3)] by (simp add: step_ok_def list_ok_def ends_ok_def)

lemma listAddNodeHead_ok:
  assumes ok: "list_ok m l xs" and alloc: "alloc m = (a, junk)" "a \<noteq> NULL" "nodes m a = None"
  shows "\<exists>m' l'. listAddNodeHead alloc l v m = Some (m', l', True) \<and> step_ok m l (insert a (addrs xs)) [] ((a, v) # xs) m' l'"
proof -
  let ?m1 = "m\<lparr>nodes := (nodes m)(a \<mapsto> \<lparr>n_prev = NULL, n_next = first_of xs NULL, n_value = v\<rparr>)\<rparr>"
  obtain m' where m': "(if first_of xs NULL \<noteq> NULL then set_prev (first_of xs NULL) a ?m1 else Some ?m1) = Some m'"
    and s: "seg (nodes m') NULL ((a, v) # xs) NULL" and d: "distinct (map fst ((a, v) # xs))"
    and f: "freed m' = freed m" "\<forall>p. p \<notin> insert a (addrs xs) \<longrightarrow> nodes m' p = nodes m p"
    using link_in [of m "[]" xs a ?m1 v] ok alloc alloc_fresh [OF ok alloc(3)] by (auto simp: list_ok_def)
  have "\<exists>l'. listAddNodeHead alloc l v m = Some (m', l', True) \<and> ends_ok l ((a, v) # xs) (l_len l + 1) l'"
    using m' alloc list_ok_len(2) [OF ok] ok ends_nonempty(2) [of xs a NULL]
    by (cases "xs = []") (auto simp: listAddNodeHead_def Let_def list_ok_def ends_ok_def)
  then show ?thesis using step_okI [OF s d _ _ f, of l] ok by (auto simp: list_ok_def)
qed

lemma listAddNodeTail_ok:
  assumes ok: "list_ok m l xs" and alloc: "alloc m = (a, junk)" "a \<noteq> NULL" "nodes m a = None"
  shows "\<exists>m' l'. listAddNodeTail alloc l v m = Some (m', l', True) \<and> step_ok m l (insert a (addrs xs)) [] (xs @ [(a, v)]) m' l'"
proof -
  let ?m1 = "m\<lparr>nodes := (nodes m)(a \<mapsto> \<lparr>n_prev = last_of NULL xs, n_next = NULL, n_value = v\<rparr>)\<rparr>"
  obtain m' where m': "(if last_of NULL xs \<noteq> NULL then set_next (last_of NULL xs) a ?m1 else Some ?m1) = Some m'"
    and s: "seg (nodes m') NULL (xs @ [(a, v)]) NULL" and d: "distinct (map fst (xs @ [(a, v)]))"
    and f: "freed m' = freed m" "\<forall>p. p \<notin> insert a (addrs xs) \<longrightarrow> nodes m' p = nodes m p"
    using link_in [of m xs "[]" a ?m1 v] ok alloc alloc_fresh [OF ok alloc(3)] by (auto simp: list_ok_def)
  have "\<exists>l'. listAddNodeTail alloc l v m = Some (m', l', True) \<and> ends_ok l (xs @ [(a, v)]) (l_len l + 1) l'"
    using m' alloc list_ok_len(2) [OF ok] ok ends_nonempty(1) [of xs a NULL]
    by (cases "xs = []") (auto simp: listAddNodeTail_def Let_def list_ok_def ends_ok_def)
  then show ?thesis using step_okI [OF s d _ _ f, of l] ok by (auto simp: list_ok_def)
qed

lemma listInsertNode_ok:
  assumes ok: "list_ok m l (pre @ (b, w) # post)" and alloc: "alloc m = (a, junk)" "a \<noteq> NULL" "nodes m a = None"
  shows "\<exists>m' l'. listInsertNode alloc l b v after m = Some (m', l', True) \<and>
    step_ok m l (insert a (addrs (pre @ (b, w) # post))) []
      (pre @ (if after then [(b, w), (a, v)] else [(a, v), (b, w)]) @ post) m' l'"
proof -
  note nodes = list_ok_nodes [OF ok]
  have fresh: "a \<notin> addrs (pre @ (b, w) # post)" by (rule alloc_fresh [OF ok alloc(3)])
  define before behind where "before = (if after then pre @ [(b, w)] else pre)" and "behind = (if after then post else (b, w) # post)"
  have xs: "before @ behind = pre @ (b, w) # post"
    "before @ (a, v) # behind = pre @ (if after then [(b, w), (a, v)] else [(a, v), (b, w)]) @ post"
    by (simp_all add: before_def behind_def)
  have e: "last_of NULL before = (if after then b else last_of NULL pre)" "first_of behind NULL = (if after then first_of post NULL else b)"
    by (simp_all add: before_def behind_def)
  let ?m1 = "m\<lparr>nodes := (nodes m)(a \<mapsto> \<lparr>n_prev = last_of NULL before, n_next = first_of behind NULL, n_value = v\<rparr>)\<rparr>"
  obtain m2 m' where m': "(if last_of NULL before \<noteq> NULL then set_next (last_of NULL before) a ?m1 else Some ?m1) = Some m2"
      "(if first_of behind NULL \<noteq> NULL then set_prev (first_of behind NULL) a m2 else Some m2) = Some m'"
    and s: "seg (nodes m') NULL (before @ (a, v) # behind) NULL" and d: "distinct (map fst (before @ (a, v) # behind))"
    and f: "freed m' = freed m" "\<forall>p. p \<notin> insert a (addrs (before @ behind)) \<longrightarrow> nodes m' p = nodes m p"
    using link_in [of m before behind a ?m1 v] ok alloc fresh unfolding xs(1) by (auto simp: list_ok_def)
  have old: "load b (m\<lparr>nodes := (nodes m)(a \<mapsto> n)\<rparr>) = Some \<lparr>n_prev = last_of NULL pre, n_next = first_of post NULL, n_value = w\<rparr>" for n
    using nodes(1) fresh by (auto simp: load_def)
  have new: "load a ?m1 = Some \<lparr>n_prev = last_of NULL before, n_next = first_of behind NULL, n_value = v\<rparr>"
    using alloc by (simp add: load_def)
  have "\<exists>l'. listInsertNode alloc l b v after m = Some (m', l', True) \<and> ends_ok l (before @ (a, v) # behind) (l_len l + 1) l'"
    using m' new alloc nodes(2-) fresh old ends_nonempty(1) [of pre a b] ends_nonempty(2) [of post a b] unfolding e before_def behind_def
    by (cases after) (auto simp: listInsertNode_def Let_def ends_ok_def split: if_splits)
  then show ?thesis using step_okI [OF s d _ _ f, of l] ok unfolding xs by (auto simp: list_ok_def)
qed

lemma listDelNode_ok:
  assumes ok: "list_ok m l (pre @ (a, v) # post)"
  shows "\<exists>m' l'. listDelNode l a m = Some (m', l') \<and>
    step_ok m l (addrs (pre @ (a, v) # post)) (if l_free l then [v] else []) (pre @ post) m' l' \<and> nodes m' a = None"
proof -
  note nodes = list_ok_nodes [OF ok]
  obtain m2 m3 where m3: "(if last_of NULL pre \<noteq> NULL then set_next (last_of NULL pre) (first_of post NULL) m else Some m) = Some m2"
      "(if first_of post NULL \<noteq> NULL then set_prev (first_of post NULL) (last_of NULL pre) m2 else Some m2) = Some m3"
    and s: "seg (nodes m3) NULL (pre @ post) NULL" and f: "nodes m3 a = nodes m a" "freed m3 = freed m"
      "\<forall>p. p \<notin> addrs (pre @ post) \<longrightarrow> nodes m3 p = nodes m p"
    using link_out [of m pre a v post] ok unfolding list_ok_def by blast
  define m' where "m' = (free_value l v m3)\<lparr>nodes := (nodes m3)(a := None)\<rparr>"
  have d: "a \<notin> addrs (pre @ post)" using ok by (auto simp: list_ok_def)
  have len: "unat (l_len l - 1) = length (pre @ post)"
    using ok list_ok_len(2) [OF ok] by (auto simp: list_ok_def unat_minus_one)
  have free: "free_value (l\<lparr>l_head := p\<rparr>) v m3 = free_value l v m3" "free_value (l\<lparr>l_tail := p\<rparr>) v m3 = free_value l v m3"
    "free_value (l\<lparr>l_head := p, l_tail := q\<rparr>) v m3 = free_value l v m3" for p q
    by (simp_all add: free_value_def)
  have z: "zfree a (free_value l v m3) = Some m'"
    using nodes(1,2) f(1) by (simp add: m'_def zfree_def load_def free_value_def)
  have "\<exists>l'. listDelNode l a m = Some (m', l') \<and> ends_ok l (pre @ post) (l_len l - 1) l'"
    using m3 z nodes(1,5-) ends_nonempty(1) [of pre a "first_of post NULL"] ends_nonempty(2) [of post a "last_of NULL pre"]
    by (cases "pre = []"; cases "post = []") (simp_all add: listDelNode_def ends_ok_def free)
  moreover have "seg (nodes m') NULL (pre @ post) NULL" using s d by (simp add: m'_def image_Un)
  then have "step_ok m l (addrs (pre @ (a, v) # post)) (if l_free l then [v] else []) (pre @ post) m' l'"
    if "ends_ok l (pre @ post) (l_len l - 1) l'" for l'
    using ok len f that by (auto simp: step_ok_def list_ok_def m'_def free_value_def ends_ok_def)
  moreover have "nodes m' a = None" by (simp add: m'_def)
  ultimately show ?thesis by blast
qed

lemma listRotate_ok:
  assumes ok: "list_ok m l xs"
  shows "\<exists>m' l'. listRotate l m = Some (m', l') \<and>
    step_ok m l (addrs xs) [] (if xs = [] then [] else last xs # butlast xs) m' l'"
proof (cases "length xs \<le> 1")
  case True
  then have "xs = [] \<or> (\<exists>x. xs = [x])" by (cases xs) auto
  then show ?thesis using ok True list_ok_len(3) [OF ok] by (auto simp: listRotate_def step_ok_def)
next
  case False
  then obtain y ys where "xs = y # ys" "ys \<noteq> []" by (cases xs) auto
  then obtain mid z where "xs = y # mid @ [z]" by (metis append_butlast_last_id)
  then obtain a v b w where xs: "xs = (a, v) # mid @ [(b, w)]" by (cases y, cases z) auto
  show ?thesis
  proof (cases mid rule: rev_cases)
    case Nil
    then show ?thesis using ok list_ok_len(3) [OF ok] unfolding xs list_ok_def
      by (auto simp: listRotate_def node_defs step_ok_def list_ok_def)
  next
    case (snoc mid' x)
    then show ?thesis using ok list_ok_len(3) [OF ok] unfolding xs list_ok_def
      by (cases x) (auto simp: listRotate_def node_defs step_ok_def list_ok_def butlast_append)
  qed
qed

text \<open>Releasing a list frees its nodes, and its values in order.\<close>

lemma release_loop_ok:
  assumes "seg (nodes m) b xs NULL" "distinct (map fst xs)"
  shows "release_loop (length xs) l (first_of xs NULL) m =
    Some \<lparr>nodes = nodes m |` (- addrs xs), freed = freed m @ (if l_free l then map snd xs else [])\<rparr>"
  using assms
proof (induction xs arbitrary: b m)
  case (Cons x xs)
  obtain a v where x: "x = (a, v)" by force
  let ?m = "(free_value l v m)\<lparr>nodes := (nodes m)(a := None)\<rparr>"
  have "seg (nodes ?m) a xs NULL \<longleftrightarrow> seg (nodes m) a xs NULL" by (rule seg_frame) (use Cons.prems in \<open>auto simp: x\<close>)
  then have m: "seg (nodes ?m) a xs NULL" and d: "distinct (map fst xs)" using Cons.prems by (simp_all only: x seg.simps list.map distinct.simps)
  have "release_loop (length xs) l (first_of xs NULL) ?m =
    Some \<lparr>nodes = nodes ?m |` (- addrs xs), freed = freed ?m @ (if l_free l then map snd xs else [])\<rparr>"
    by (rule Cons.IH [OF m d])
  moreover have "release_loop (length (x # xs)) l (first_of (x # xs) NULL) m = release_loop (length xs) l (first_of xs NULL) ?m"
    using Cons.prems by (auto simp: x node_defs)
  ultimately show ?case by (auto simp: x free_value_def fun_eq_iff restrict_map_def)
qed (simp add: restrict_map_def)

lemma listRelease_ok:
  assumes "list_ok m l xs"
  shows "listRelease l m =
    Some \<lparr>nodes = nodes m |` (- addrs xs), freed = freed m @ (if l_free l then map snd xs else [])\<rparr>"
  using assms release_loop_ok [of m NULL xs l] by (simp add: listRelease_def list_ok_def)

section \<open>Iterators\<close>

text \<open>The iterator is in front of \<open>ys\<close>.\<close>

lemma listNext_ok:
  assumes "seg (nodes m) b xs NULL" "it = \<lparr>it_next = first_of xs NULL, it_direction = AL_START_HEAD\<rparr>"
  shows "listNext it m = Some (case xs of [] \<Rightarrow> (it, NULL) | x # ys \<Rightarrow> (it\<lparr>it_next := first_of ys NULL\<rparr>, fst x))"
  using assms by (cases xs) (auto simp: listNext_def load_def)

lemma search_loop_ok:
  assumes "seg (nodes m) b xs NULL"
  shows "search_loop l key \<lparr>it_next = first_of xs NULL, it_direction = AL_START_HEAD\<rparr> m =
    Some (case find (\<lambda>(a, v). case l_match l of Some f \<Rightarrow> f v key | None \<Rightarrow> key = v) xs of None \<Rightarrow> NULL | Some (a, v) \<Rightarrow> a)"
  using assms
proof (induction xs arbitrary: b)
  case Nil
  then show ?case by (subst search_loop.simps) (simp add: listNext_def)
next
  case (Cons x xs)
  obtain a v where x: "x = (a, v)" by force
  then have "seg (nodes m) a xs NULL" using Cons.prems by simp
  note IH = Cons.IH [OF this]
  have "listNext \<lparr>it_next = a, it_direction = AL_START_HEAD\<rparr> m = Some (\<lparr>it_next = first_of xs NULL, it_direction = AL_START_HEAD\<rparr>, a)"
    "load a m = Some \<lparr>n_prev = b, n_next = first_of xs NULL, n_value = v\<rparr>" "a \<noteq> NULL"
    using Cons.prems by (auto simp: x listNext_def load_def)
  then show ?case by (subst search_loop.simps) (cases "l_match l"; simp add: x IH)
qed

lemma listSearchKey_ok:
  assumes "list_ok m l xs"
  shows "listSearchKey l key m =
    Some (case find (\<lambda>(a, v). case l_match l of Some f \<Rightarrow> f v key | None \<Rightarrow> key = v) xs of None \<Rightarrow> NULL | Some (a, v) \<Rightarrow> a)"
  using assms search_loop_ok [of m NULL xs l key] by (simp add: listSearchKey_def listRewind_def list_ok_def)

lemma walk_next:
  assumes "seg (nodes m) b xs NULL"
  shows "walk n_next i (first_of xs NULL) m = Some (if i < length xs then fst (xs ! i) else NULL)"
  using assms
proof (induction i arbitrary: b xs)
  case 0
  then show ?case by (cases xs) auto
next
  case (Suc i)
  then show ?case by (cases xs) (auto simp: load_def)
qed

lemma walk_prev:
  assumes "seg (nodes m) NULL xs e"
  shows "walk n_prev i (last_of NULL xs) m = Some (if i < length xs then fst (rev xs ! i) else NULL)"
  using assms
proof (induction i arbitrary: e xs)
  case 0
  then show ?case by (cases xs rule: rev_cases) auto
next
  case (Suc i)
  show ?case
  proof (cases xs rule: rev_cases)
    case (snoc ys x)
    then show ?thesis using Suc.prems Suc.IH [of ys "fst x"] by (cases x) (auto simp: load_def)
  qed simp
qed

text \<open>The position that a signed index means in a list of length \<open>n\<close>.\<close>

definition position :: "nat \<Rightarrow> int \<Rightarrow> nat option" where
  "position n i = (if 0 \<le> i \<and> i < int n then Some (nat i) else if i < 0 \<and> - i \<le> int n then Some (n - nat (- i)) else None)"

lemma neg_index:
  fixes index :: int64
  assumes "sint index < 0"
  shows "int (unat ((- index) - 1)) = - sint index - 1"
proof -
  have "sint index \<ge> - (2 ^ 63)" using sint_ge [of index] by simp
  moreover have "(- index) - 1 = word_of_int (- sint index - 1)" by simp
  ultimately show ?thesis using assms unat_word_of_int_small [of "- sint index - 1", where 'a = 64] by simp
qed

lemma listIndex_ok:
  assumes ok: "list_ok m l xs"
  shows "listIndex l index m = Some (case position (length xs) (sint index) of Some i \<Rightarrow> fst (xs ! i) | None \<Rightarrow> NULL)"
proof (cases "sint index < 0")
  case True
  note neg = True
  define k where "k = unat ((- index) - 1)"
  have i: "int k = - sint index - 1" unfolding k_def by (rule neg_index [OF neg])
  have "listIndex l index m = walk n_prev k (l_tail l) m" using True by (simp add: listIndex_def k_def)
  also have "\<dots> = Some (if k < length xs then fst (rev xs ! k) else NULL)"
    using ok walk_prev [of m xs NULL k] by (simp add: list_ok_def)
  also have "\<dots> = Some (case position (length xs) (sint index) of Some i \<Rightarrow> fst (xs ! i) | None \<Rightarrow> NULL)"
  proof (cases "k < length xs")
    case inside: True
    then have "position (length xs) (sint index) = Some (length xs - Suc k)"
      using neg i by (auto simp: position_def)
    then show ?thesis using inside by (simp add: rev_nth)
  qed (use neg i in \<open>auto simp: position_def\<close>)
  finally show ?thesis .
next
  case False
  define k where "k = unat index"
  have i: "sint index = int k" unfolding k_def
    using False unat_word_of_int_small [of "sint index", where 'a = 64] sint_lt [of index] by simp
  have "listIndex l index m = walk n_next k (l_head l) m" using False by (simp add: listIndex_def k_def)
  then show ?thesis using ok walk_next [of m NULL xs k] by (simp add: list_ok_def position_def i)
qed

section \<open>Copies, removal during an iteration, and runs of operations\<close>

text \<open>
  What the code relies on: the allocator returns \<open>NULL\<close> or an address that is not in use, and it
  succeeds while fewer than \<open>cap\<close> nodes are in use.
\<close>

definition alloc_ok :: "nat \<Rightarrow> 'v allocator \<Rightarrow> bool" where
  "alloc_ok cap alloc \<longleftrightarrow> (\<forall>m. (fst (alloc m) = NULL \<or> nodes m (fst (alloc m)) = None) \<and>
     (card (dom (nodes m)) < cap \<longrightarrow> fst (alloc m) \<noteq> NULL))"

lemma alloc_cases:
  assumes "alloc_ok cap alloc"
  obtains (fail) junk where "alloc m = (NULL, junk)" "cap \<le> card (dom (nodes m))"
  | (fresh) a junk where "alloc m = (a, junk)" "a \<noteq> NULL" "nodes m a = None"
proof -
  obtain a junk where a: "alloc m = (a, junk)" by force
  have "a = NULL \<or> nodes m a = None" "card (dom (nodes m)) < cap \<longrightarrow> a \<noteq> NULL"
    using assms [unfolded alloc_ok_def, rule_format, of m] a by auto
  then show ?thesis using that a by (cases "a = NULL") auto
qed

text \<open>
  \<open>xs\<close> is what is still to be copied, \<open>ys\<close> what was copied. The copy shares no node with the original, and
  when it fails the nodes are as before.
\<close>

definition copied :: "'v adlist \<Rightarrow> 'v list \<Rightarrow> 'v list option" where
  "copied l vs = those (map (dup_value l) vs)"

lemma dom_step:
  assumes "list_ok m l ys" "list_ok m' l' (ys @ [(c, w)])" "\<And>p. p \<notin> insert c (addrs ys) \<Longrightarrow> nodes m' p = nodes m p"
  shows "dom (nodes m') = insert c (dom (nodes m))"
proof -
  have ys: "addrs ys \<subseteq> dom (nodes m)" "insert c (addrs ys) \<subseteq> dom (nodes m')"
    using list_ok_dom [OF assms(1)] list_ok_dom [OF assms(2)] by simp_all
  show ?thesis
  proof (rule set_eqI)
    fix p
    show "p \<in> dom (nodes m') \<longleftrightarrow> p \<in> insert c (dom (nodes m))"
      using ys assms(3) [of p] by (cases "p \<in> insert c (addrs ys)") (blast, simp add: domIff)
  qed
qed

definition dup_ok :: "nat \<Rightarrow> 'v memory \<Rightarrow> 'v adlist \<Rightarrow> (ptr \<times> 'v) list \<Rightarrow> 'v list option \<Rightarrow> nat \<Rightarrow> ('v memory \<times> 'v adlist option) option \<Rightarrow> bool" where
  "dup_ok cap m copy ys vs n res \<longleftrightarrow> (\<exists>m' r. res = Some (m', r) \<and>
    (\<forall>p \<in> dom (nodes m) - addrs ys. nodes m' p = nodes m p) \<and>
    (case r of None \<Rightarrow> nodes m' = nodes m |` (- addrs ys) \<and> (vs = None \<or> cap < card (dom (nodes m)) + n)
     | Some l' \<Rightarrow> \<exists>zs ws. vs = Some zs \<and> list_ok m' l' ws \<and> map snd ws = map snd ys @ zs \<and>
        l_dup l' = l_dup copy \<and> l_free l' = l_free copy \<and> l_match l' = l_match copy \<and>
        freed m' = freed m \<and> addrs ws \<inter> dom (nodes m) \<subseteq> addrs ys))"

lemma dup_step:
  assumes IH: "dup_ok cap m1 l1 (ys @ [(c, w)]) vs n res" and c: "nodes m c = None"
    and same: "\<And>p. p \<notin> insert c (addrs ys) \<Longrightarrow> nodes m1 p = nodes m p" and dom: "dom (nodes m1) = insert c (dom (nodes m))"
    and l1: "l_dup l1 = l_dup copy" "l_free l1 = l_free copy" "l_match l1 = l_match copy" "freed m1 = freed m"
  shows "dup_ok cap m copy ys (map_option ((#) w) vs) (Suc n) res"
proof -
  obtain m' r where res: "res = Some (m', r)"
    and keep: "\<And>p. p \<in> dom (nodes m1) - addrs (ys @ [(c, w)]) \<Longrightarrow> nodes m' p = nodes m1 p"
    and r: "case r of None \<Rightarrow> nodes m' = nodes m1 |` (- addrs (ys @ [(c, w)])) \<and> (vs = None \<or> cap < card (dom (nodes m1)) + n)
     | Some l' \<Rightarrow> \<exists>zs ws. vs = Some zs \<and> list_ok m' l' ws \<and> map snd ws = map snd (ys @ [(c, w)]) @ zs \<and>
        l_dup l' = l_dup l1 \<and> l_free l' = l_free l1 \<and> l_match l' = l_match l1 \<and>
        freed m' = freed m1 \<and> addrs ws \<inter> dom (nodes m1) \<subseteq> addrs (ys @ [(c, w)])"
    using IH unfolding dup_ok_def by blast
  have keep': "nodes m' p = nodes m p" if "p \<in> dom (nodes m) - addrs ys" for p
  proof -
    have p: "p \<notin> insert c (addrs ys)" using that c by (auto simp: domIff)
    then have "p \<in> dom (nodes m1) - addrs (ys @ [(c, w)])" using that dom by simp
    then show ?thesis using keep same [OF p] by simp
  qed
  moreover have "nodes m1 |` (- addrs (ys @ [(c, w)])) = nodes m |` (- addrs ys)"
    using same c by (auto simp: restrict_map_def fun_eq_iff)
  moreover have "card (dom (nodes m1)) = Suc (card (dom (nodes m)))"
    using dom c by (subst dom, subst card_insert_disjoint) (auto simp: domIff)
  ultimately show ?thesis
  proof (cases r)
    case (Some l')
    with r l1 obtain zs ws where "vs = Some zs" "list_ok m' l' ws" "map snd ws = map snd ys @ w # zs"
      "l_dup l' = l_dup copy" "l_free l' = l_free copy" "l_match l' = l_match copy" "freed m' = freed m" and ws: "addrs ws \<inter> dom (nodes m1) \<subseteq> addrs (ys @ [(c, w)])"
      by auto
    moreover have "addrs ws \<inter> dom (nodes m) \<subseteq> addrs ys" using ws dom c by (auto simp: domIff)
    ultimately show ?thesis using keep' Some unfolding dup_ok_def res by auto
  qed (use r in \<open>auto simp: dup_ok_def res\<close>)
qed

lemma dup_same: "l_dup l' = l_dup l \<Longrightarrow> dup_value l' = dup_value l"
  by (simp add: fun_eq_iff dup_value_def)

lemma dup_loop_ok:
  assumes al: "alloc_ok cap alloc" and "list_ok m copy ys" "seg (nodes m) b xs NULL" "addrs xs \<inter> addrs ys = {}"
  shows "dup_ok cap m copy ys (copied copy (map snd xs)) (length xs)
    (dup_loop alloc \<lparr>it_next = first_of xs NULL, it_direction = AL_START_HEAD\<rparr> copy m)"
  using assms(2-)
proof (induction xs arbitrary: b ys copy m)
  case Nil
  then show ?case
    by (subst dup_loop.simps) (auto simp: listNext_def copied_def dup_ok_def intro!: exI [of _ ys])
next
  case (Cons x xs)
  obtain a v where x: "x = (a, v)" by force
  have step: "listNext \<lparr>it_next = a, it_direction = AL_START_HEAD\<rparr> m = Some (\<lparr>it_next = first_of xs NULL, it_direction = AL_START_HEAD\<rparr>, a)"
    "load a m = Some \<lparr>n_prev = b, n_next = first_of xs NULL, n_value = v\<rparr>" "a \<noteq> NULL"
    using Cons.prems by (auto simp: x listNext_def load_def)
  have rel: "listRelease copy m = Some \<lparr>nodes = nodes m |` (- addrs ys), freed = freed m @ (if l_free copy then map snd ys else [])\<rparr>"
    by (rule listRelease_ok [OF Cons.prems(1)])
  note unfold = dup_loop.simps [of alloc "\<lparr>it_next = a, it_direction = AL_START_HEAD\<rparr>" copy m]
  show ?case
  proof (cases "dup_value copy v")
    case None
    then show ?thesis using step rel by (auto simp: x unfold copied_def dup_ok_def)
  next
    case (Some w)
    show ?thesis
      using al
    proof (cases rule: alloc_cases [where m = m])
      case (fail junk)
      then show ?thesis using step rel Some by (auto simp: x unfold listAddNodeTail_def dup_ok_def)
    next
      case (fresh c junk)
      obtain m1 l1 where add: "listAddNodeTail alloc copy w m = Some (m1, l1, True)"
        and ok: "step_ok m copy (insert c (addrs ys)) [] (ys @ [(c, w)]) m1 l1"
        using listAddNodeTail_ok [where alloc = alloc, OF Cons.prems(1) fresh] by blast
      have l1: "list_ok m1 l1 (ys @ [(c, w)])" "l_dup l1 = l_dup copy" "l_free l1 = l_free copy" "l_match l1 = l_match copy" "freed m1 = freed m"
        and same: "\<And>p. p \<notin> insert c (addrs ys) \<Longrightarrow> nodes m1 p = nodes m p"
        using ok by (auto simp: step_ok_def)
      have c: "c \<notin> addrs (x # xs)" using seg_in [OF Cons.prems(2)] fresh(3) by fastforce
      have "seg (nodes m1) a xs NULL \<longleftrightarrow> seg (nodes m) a xs NULL"
        by (rule seg_frame, rule same) (use Cons.prems(3) c in auto)
      then have xs: "seg (nodes m1) a xs NULL" using Cons.prems(2) by (simp add: x)
      have dis: "addrs xs \<inter> addrs (ys @ [(c, w)]) = {}" using Cons.prems(3) c by auto
      have dom: "dom (nodes m1) = insert c (dom (nodes m))"
        by (rule dom_step [OF Cons.prems(1) l1(1) same])
      have loop: "dup_loop alloc \<lparr>it_next = first_of (x # xs) NULL, it_direction = AL_START_HEAD\<rparr> copy m =
        dup_loop alloc \<lparr>it_next = first_of xs NULL, it_direction = AL_START_HEAD\<rparr> l1 m1"
        using step Some add by (simp add: x unfold)
      have copied: "copied copy (map snd (x # xs)) = map_option ((#) w) (copied l1 (map snd xs))"
        using Some dup_same [OF l1(2)] by (simp add: x copied_def)
      show ?thesis unfolding loop copied list.size add_0_right add_Suc_right
        by (rule dup_step [OF Cons.IH [OF l1(1) xs dis] fresh(3) same dom l1(2-)])
    qed
  qed
qed

lemma listDup_ok:
  assumes "alloc_ok cap alloc" "list_ok m l xs"
  shows "dup_ok cap m l [] (copied l (map snd xs)) (length xs) (listDup alloc l m)"
proof -
  let ?copy = "listCreate\<lparr>l_dup := l_dup l, l_free := l_free l, l_match := l_match l\<rparr>"
  have "list_ok m ?copy []" by (simp add: list_ok_def listCreate_def)
  then have "dup_ok cap m ?copy [] (copied ?copy (map snd xs)) (length xs) (listDup alloc l m)"
    using dup_loop_ok [OF assms(1), of m ?copy "[]" NULL xs] assms(2) by (simp add: listDup_def listRewind_def list_ok_def)
  moreover have "copied ?copy = copied l" using dup_same [of ?copy l] by (intro ext) (simp add: copied_def)
  ultimately show ?thesis by (simp add: dup_ok_def cong: option.case_cong)
qed

text \<open>The documented use of an iterator that removes nodes on its way, here those whose value satisfies \<open>P\<close>.\<close>

partial_function (option) remove_loop :: "('v \<Rightarrow> bool) \<Rightarrow> listIter \<Rightarrow> 'v adlist \<Rightarrow> 'v memory \<Rightarrow> ('v memory \<times> 'v adlist) option" where
  "remove_loop P it l m = do {
     (it, node) \<leftarrow> listNext it m;
     if node = NULL then Some (m, l)
     else do {
       n \<leftarrow> load node m;
       (m, l) \<leftarrow> (if P (n_value n) then listDelNode l node m else Some (m, l));
       remove_loop P it l m } }"

lemma step_ok_refl: "list_ok m l xs \<Longrightarrow> step_ok m l A [] xs m l"
  by (simp add: step_ok_def)

lemma step_ok_trans:
  "step_ok m l A vs xs m1 l1 \<Longrightarrow> step_ok m1 l1 B ws ys m2 l2 \<Longrightarrow> B \<subseteq> A \<Longrightarrow> step_ok m l A (vs @ ws) ys m2 l2"
  unfolding step_ok_def by (metis append_assoc subsetD)

lemma remove_loop_ok:
  assumes "list_ok m l (pre @ xs)"
  shows "\<exists>m' l'. remove_loop P \<lparr>it_next = first_of xs NULL, it_direction = AL_START_HEAD\<rparr> l m = Some (m', l') \<and>
    step_ok m l (addrs (pre @ xs)) (if l_free l then filter P (map snd xs) else []) (pre @ filter (\<lambda>x. \<not> P (snd x)) xs) m' l'"
  using assms
proof (induction xs arbitrary: pre l m)
  case Nil
  then show ?case by (subst remove_loop.simps) (simp add: listNext_def step_ok_refl)
next
  case (Cons x xs)
  obtain a v where x: "x = (a, v)" by force
  note nodes = list_ok_nodes [OF Cons.prems [unfolded x]]
  have "listNext \<lparr>it_next = a, it_direction = AL_START_HEAD\<rparr> m = Some (\<lparr>it_next = first_of xs NULL, it_direction = AL_START_HEAD\<rparr>, a)"
    using nodes(1,2) by (simp add: listNext_def)
  note unfold = remove_loop.simps [of P "\<lparr>it_next = a, it_direction = AL_START_HEAD\<rparr>" l m, unfolded this]
  show ?case
  proof (cases "P v")
    case True
    obtain m1 l1 where del: "listDelNode l a m = Some (m1, l1)"
      and ok: "step_ok m l (addrs (pre @ x # xs)) (if l_free l then [v] else []) (pre @ xs) m1 l1"
      using listDelNode_ok [OF Cons.prems [unfolded x]] unfolding x by blast
    have ok1: "list_ok m1 l1 (pre @ xs)" "l_free l1 = l_free l" using ok by (simp_all add: step_ok_def)
    obtain m' l' where loop: "remove_loop P \<lparr>it_next = first_of xs NULL, it_direction = AL_START_HEAD\<rparr> l1 m1 = Some (m', l')"
      and ok': "step_ok m1 l1 (addrs (pre @ xs)) (if l_free l1 then filter P (map snd xs) else []) (pre @ filter (\<lambda>x. \<not> P (snd x)) xs) m' l'"
      using Cons.IH [OF ok1(1)] by blast
    have "step_ok m l (addrs (pre @ x # xs)) ((if l_free l then [v] else []) @ (if l_free l1 then filter P (map snd xs) else []))
        (pre @ filter (\<lambda>x. \<not> P (snd x)) xs) m' l'"
      by (rule step_ok_trans [OF ok ok']) auto
    then show ?thesis using True nodes(1,2) del loop ok1(2) by (simp add: x unfold if_distrib cong: if_cong)
  next
    case False
    then show ?thesis using Cons.IH [of m l "pre @ [x]"] Cons.prems nodes(1,2) by (cases "l_free l") (simp_all add: x unfold)
  qed
qed

section \<open>Runs of operations\<close>

text \<open>The nodes to insert at and to delete are found by their index.\<close>

datatype 'v list_op = AddHead 'v | AddTail 'v | Insert int64 'v bool | Delete int64 | Rotate

fun run_op :: "'v allocator \<Rightarrow> 'v list_op \<Rightarrow> 'v memory \<times> 'v adlist \<Rightarrow> ('v memory \<times> 'v adlist) option" where
  "run_op alloc (AddHead v) (m, l) = do { (m, l, _) \<leftarrow> listAddNodeHead alloc l v m; Some (m, l) }"
| "run_op alloc (AddTail v) (m, l) = do { (m, l, _) \<leftarrow> listAddNodeTail alloc l v m; Some (m, l) }"
| "run_op alloc (Insert i v after) (m, l) = do {
     node \<leftarrow> listIndex l i m;
     if node = NULL then Some (m, l) else do { (m, l, _) \<leftarrow> listInsertNode alloc l node v after m; Some (m, l) } }"
| "run_op alloc (Delete i) (m, l) = do {
     node \<leftarrow> listIndex l i m;
     if node = NULL then Some (m, l) else listDelNode l node m }"
| "run_op alloc Rotate (m, l) = listRotate l m"

fun list_run :: "'v allocator \<Rightarrow> 'v list_op list \<Rightarrow> 'v memory \<times> 'v adlist \<Rightarrow> ('v memory \<times> 'v adlist) option" where
  "list_run alloc [] s = Some s"
| "list_run alloc (op # ops) s = do { s \<leftarrow> run_op alloc op s; list_run alloc ops s }"

text \<open>The same operations on a list of values.\<close>

fun spec_op :: "'v list_op \<Rightarrow> 'v list \<Rightarrow> 'v list" where
  "spec_op (AddHead v) vs = v # vs"
| "spec_op (AddTail v) vs = vs @ [v]"
| "spec_op (Insert i v after) vs =
     (case position (length vs) (sint i) of None \<Rightarrow> vs
      | Some k \<Rightarrow> let k = (if after then Suc k else k) in take k vs @ v # drop k vs)"
| "spec_op (Delete i) vs = (case position (length vs) (sint i) of None \<Rightarrow> vs | Some k \<Rightarrow> take k vs @ drop (Suc k) vs)"
| "spec_op Rotate vs = (if vs = [] then [] else last vs # butlast vs)"

lemma position_less: "position n i = Some k \<Longrightarrow> k < n"
  by (auto simp: position_def split: if_splits)

text \<open>What a step means for the rest of the memory.\<close>

lemma step_frame:
  assumes st: "step_ok m l A f xs' m' l'" and ok: "list_ok m l xs" and A: "A \<subseteq> insert a (addrs xs)"
    and a: "nodes m a = None \<or> a \<in> addrs xs" and xs': "addrs xs' \<subseteq> insert a (addrs xs)"
  shows "list_ok m' l' xs'" "card (dom (nodes m')) \<le> Suc (card (dom (nodes m)))"
    "\<forall>p \<in> dom (nodes m) - addrs xs. p \<notin> addrs xs' \<and> nodes m' p = nodes m p"
proof -
  have same: "nodes m' p = nodes m p" if "p \<notin> insert a (addrs xs)" for p using st A that by (auto simp: step_ok_def)
  have dom: "addrs xs \<subseteq> dom (nodes m)" by (rule list_ok_dom [OF ok])
  show "list_ok m' l' xs'" using st by (simp add: step_ok_def)
  have "p \<in> insert a (dom (nodes m))" if "p \<in> dom (nodes m')" for p
    using that dom same [of p] by (cases "p \<in> insert a (addrs xs)") (auto simp: domIff)
  then have "card (dom (nodes m')) \<le> card (insert a (dom (nodes m)))" by (intro card_mono) auto
  also have "\<dots> \<le> Suc (card (dom (nodes m)))" by (rule card_insert_le_m1) simp_all
  finally show "card (dom (nodes m')) \<le> Suc (card (dom (nodes m)))" .
  show "\<forall>p \<in> dom (nodes m) - addrs xs. p \<notin> addrs xs' \<and> nodes m' p = nodes m p"
  proof
    fix p assume p: "p \<in> dom (nodes m) - addrs xs"
    then have "p \<notin> insert a (addrs xs)" using a by (auto simp: domIff)
    then show "p \<notin> addrs xs' \<and> nodes m' p = nodes m p" using xs' same by blast
  qed
qed

definition list_op_ok :: "'v memory \<Rightarrow> (ptr \<times> 'v) list \<Rightarrow> 'v list \<Rightarrow> ('v memory \<times> 'v adlist) option \<Rightarrow> bool" where
  "list_op_ok m xs vs res \<longleftrightarrow> (\<exists>m' l' xs'. res = Some (m', l') \<and> list_ok m' l' xs' \<and> map snd xs' = vs \<and>
     card (dom (nodes m')) \<le> Suc (card (dom (nodes m))) \<and> (\<forall>p \<in> dom (nodes m) - addrs xs. p \<notin> addrs xs' \<and> nodes m' p = nodes m p))"

lemma list_op_okI:
  assumes "step_ok m l A f xs' m' l'" "list_ok m l xs" "A \<subseteq> insert a (addrs xs)" "nodes m a = None \<or> a \<in> addrs xs"
    "addrs xs' \<subseteq> insert a (addrs xs)" "vs = map snd xs'"
  shows "list_op_ok m xs vs (Some (m', l'))"
  unfolding list_op_ok_def
  by (rule exI [of _ m'], rule exI [of _ l'], rule exI [of _ xs']) (use step_frame [OF assms(1-5)] assms(6) in auto)

lemma list_op_ok_refl: "list_ok m l xs \<Longrightarrow> list_op_ok m xs (map snd xs) (Some (m, l))"
  unfolding list_op_ok_def by (rule exI [of _ m], rule exI [of _ l], rule exI [of _ xs]) simp

text \<open>The node at an index splits the list.\<close>

lemma at_index:
  assumes "list_ok m l xs" "position (length xs) (sint i) = Some k"
  obtains a v where "listIndex l i m = Some a" "a \<noteq> NULL" "xs = take k xs @ (a, v) # drop (Suc k) xs"
proof -
  have k: "k < length xs" using assms(2) by (rule position_less)
  then have xs: "xs = take k xs @ (fst (xs ! k), snd (xs ! k)) # drop (Suc k) xs" by (simp add: id_take_nth_drop)
  have "list_ok m l (take k xs @ (fst (xs ! k), snd (xs ! k)) # drop (Suc k) xs)" using assms(1) by (subst (asm) xs)
  then have "fst (xs ! k) \<noteq> NULL" by (rule list_ok_nodes(2))
  moreover have "listIndex l i m = Some (fst (xs ! k))" using listIndex_ok [OF assms(1), of i] assms(2) by simp
  ultimately show ?thesis using that xs by blast
qed

lemma run_op_ok:
  assumes al: "alloc_ok cap alloc" and ok: "list_ok m l xs" and room: "card (dom (nodes m)) < cap"
  shows "list_op_ok m xs (spec_op op (map snd xs)) (run_op alloc op (m, l))"
proof -
  obtain c junk where new: "alloc m = (c, junk)" "c \<noteq> NULL" "nodes m c = None"
    using al room by (cases rule: alloc_cases [where m = m]) auto
  show ?thesis
  proof (cases op)
    case (AddHead v)
    obtain m' l' where r: "run_op alloc op (m, l) = Some (m', l')" and st: "step_ok m l (insert c (addrs xs)) [] ((c, v) # xs) m' l'"
      using listAddNodeHead_ok [where alloc = alloc, OF ok new, of v] AddHead by auto
    show ?thesis unfolding r by (rule list_op_okI [OF st ok, where a = c]) (use AddHead new in auto)
  next
    case (AddTail v)
    obtain m' l' where r: "run_op alloc op (m, l) = Some (m', l')" and st: "step_ok m l (insert c (addrs xs)) [] (xs @ [(c, v)]) m' l'"
      using listAddNodeTail_ok [where alloc = alloc, OF ok new, of v] AddTail by auto
    show ?thesis unfolding r by (rule list_op_okI [OF st ok, where a = c]) (use AddTail new in auto)
  next
    case (Insert i v after)
    show ?thesis
    proof (cases "position (length xs) (sint i)")
      case None
      then show ?thesis using Insert ok listIndex_ok [OF ok, of i] list_op_ok_refl [OF ok] by simp
    next
      case (Some k)
      obtain a w where a: "listIndex l i m = Some a" "a \<noteq> NULL" "xs = take k xs @ (a, w) # drop (Suc k) xs"
        using at_index [OF ok Some] .
      define pre post where "pre = take k xs" and "post = drop (Suc k) xs"
      have k: "length pre = k" using position_less [OF Some] by (simp add: pre_def)
      have xs: "xs = pre @ (a, w) # post" using a(3) by (simp only: pre_def post_def)
      obtain m' l' where r: "run_op alloc op (m, l) = Some (m', l')" and st: "step_ok m l (insert c (addrs (pre @ (a, w) # post))) []
          (pre @ (if after then [(a, w), (c, v)] else [(c, v), (a, w)]) @ post) m' l'"
        using listInsertNode_ok [where alloc = alloc, OF ok [unfolded xs] new, of v after] Insert a(1,2) by auto
      have "position (Suc (length pre + length post)) (sint i) = Some (length pre)" using Some k unfolding xs by simp
      then show ?thesis unfolding r by (intro list_op_okI [OF st ok, where a = c]) (use Insert new in \<open>auto simp: xs\<close>)
    qed
  next
    case (Delete i)
    show ?thesis
    proof (cases "position (length xs) (sint i)")
      case None
      then show ?thesis using Delete ok listIndex_ok [OF ok, of i] list_op_ok_refl [OF ok] by simp
    next
      case (Some k)
      obtain a w where a: "listIndex l i m = Some a" "a \<noteq> NULL" "xs = take k xs @ (a, w) # drop (Suc k) xs"
        using at_index [OF ok Some] .
      define pre post where "pre = take k xs" and "post = drop (Suc k) xs"
      have k: "length pre = k" using position_less [OF Some] by (simp add: pre_def)
      have xs: "xs = pre @ (a, w) # post" using a(3) by (simp only: pre_def post_def)
      obtain m' l' f where r: "run_op alloc op (m, l) = Some (m', l')" and st: "step_ok m l (addrs (pre @ (a, w) # post)) f (pre @ post) m' l'"
        using listDelNode_ok [OF ok [unfolded xs]] Delete a(1,2) by auto
      have "position (Suc (length pre + length post)) (sint i) = Some (length pre)" using Some k unfolding xs by simp
      then show ?thesis unfolding r by (intro list_op_okI [OF st ok, where a = a]) (use Delete in \<open>auto simp: xs\<close>)
    qed
  next
    case Rotate
    obtain m' l' where r: "run_op alloc op (m, l) = Some (m', l')" and st: "step_ok m l (addrs xs) [] (if xs = [] then [] else last xs # butlast xs) m' l'"
      using listRotate_ok [OF ok] Rotate by auto
    show ?thesis unfolding r
      by (rule list_op_okI [OF st ok, where a = c]) (use Rotate new in \<open>auto simp: map_butlast last_map dest: in_set_butlastD\<close>)
  qed
qed

text \<open>
  C15. Whatever sequence of operations runs on a list (adding at either end, inserting next to a node and
  deleting a node found by a signed index, rotating), only valid pointers are followed, the links and the
  length stay right, the values are those that the same operations give on a list, and no node of
  anything else in memory is touched. The allocator is assumed to return unused addresses and to have
  room for the operations.
\<close>

theorem list_run_refines:
  assumes al: "alloc_ok cap alloc" and "list_ok m l xs" "card (dom (nodes m)) + length ops \<le> cap"
  shows "\<exists>m' l' xs'. list_run alloc ops (m, l) = Some (m', l') \<and> list_ok m' l' xs' \<and>
    map snd xs' = fold spec_op ops (map snd xs) \<and> (\<forall>p \<in> dom (nodes m) - addrs xs. p \<notin> addrs xs' \<and> nodes m' p = nodes m p)"
  using assms(2-)
proof (induction ops arbitrary: m l xs)
  case (Cons op ops)
  have room: "card (dom (nodes m)) < cap" using Cons.prems(2) by simp
  obtain m1 l1 xs1 where r1: "run_op alloc op (m, l) = Some (m1, l1)" "list_ok m1 l1 xs1" "map snd xs1 = spec_op op (map snd xs)"
      "card (dom (nodes m1)) \<le> Suc (card (dom (nodes m)))"
    and f1: "\<forall>p \<in> dom (nodes m) - addrs xs. p \<notin> addrs xs1 \<and> nodes m1 p = nodes m p"
    using run_op_ok [OF al Cons.prems(1) room, of op] unfolding list_op_ok_def by (elim exE conjE)
  obtain m' l' xs' where r2: "list_run alloc ops (m1, l1) = Some (m', l')" "list_ok m' l' xs'" "map snd xs' = fold spec_op ops (map snd xs1)"
    and f2: "\<forall>p \<in> dom (nodes m1) - addrs xs1. p \<notin> addrs xs' \<and> nodes m' p = nodes m1 p"
    using Cons.IH [OF r1(2)] r1(4) Cons.prems(2) by auto
  have "p \<notin> addrs xs' \<and> nodes m' p = nodes m p" if "p \<in> dom (nodes m) - addrs xs" for p
    using bspec [OF f1 that] bspec [OF f2, of p] that by (auto simp: domIff)
  then have "\<forall>p \<in> dom (nodes m) - addrs xs. p \<notin> addrs xs' \<and> nodes m' p = nodes m p" ..
  moreover have "list_run alloc (op # ops) (m, l) = Some (m', l')" "map snd xs' = fold spec_op (op # ops) (map snd xs)" using r1 r2 by simp_all
  ultimately show ?case using r2(2) by blast
qed auto

text \<open>An allocator with eight addresses.\<close>

definition pool :: "ptr list" where
  "pool = [1, 2, 3, 4, 5, 6, 7, 8]"

definition pool_alloc :: "nat allocator" where
  "pool_alloc m = (case find (\<lambda>a. nodes m a = None) pool of
     None \<Rightarrow> (NULL, \<lparr>n_prev = NULL, n_next = NULL, n_value = 0\<rparr>) | Some a \<Rightarrow> (a, \<lparr>n_prev = 7, n_next = a, n_value = 99\<rparr>))"

lemma pool_alloc_ok: "alloc_ok 8 pool_alloc"
  unfolding alloc_ok_def
proof (rule allI)
  fix m :: "nat memory"
  show "(fst (pool_alloc m) = NULL \<or> nodes m (fst (pool_alloc m)) = None) \<and> (card (dom (nodes m)) < 8 \<longrightarrow> fst (pool_alloc m) \<noteq> NULL)"
  proof (cases "find (\<lambda>a. nodes m a = None) pool")
    case None
    then have "set pool \<subseteq> dom (nodes m)" by (auto simp: find_None_iff)
    then have "card (set pool) \<le> card (dom (nodes m))" by (intro card_mono) auto
    moreover have "card (set pool) = 8" by (simp add: pool_def)
    ultimately show ?thesis using None by (simp add: pool_alloc_def)
  next
    case (Some a)
    then have "nodes m a = None" "a \<in> set pool" by (auto simp: find_Some_iff)
    then show ?thesis using Some by (auto simp: pool_alloc_def pool_def)
  qed
qed

definition empty_memory :: "nat memory" where
  "empty_memory = \<lparr>nodes = Map.empty, freed = []\<rparr>"

lemma empty_list_ok: "list_ok m listCreate []"
  by (simp add: list_ok_def listCreate_def)

theorem list_run_refines_witness:
  "\<exists>m' l' xs'. list_run pool_alloc [AddTail 10, AddTail 20, AddHead 5, Insert 1 7 True, Delete (-1), Rotate] (empty_memory, listCreate) = Some (m', l') \<and>
    list_ok m' l' xs' \<and> map snd xs' = [7, 5, 10]"
proof -
  have "fold spec_op [AddTail 10, AddTail 20, AddHead 5, Insert 1 7 True, Delete (-1), Rotate] (map snd ([] :: (ptr \<times> nat) list)) = [7, 5, 10]"
    by code_simp
  then show ?thesis
    using list_run_refines [OF pool_alloc_ok empty_list_ok, of empty_memory "[AddTail 10, AddTail 20, AddHead 5, Insert 1 7 True, Delete (-1), Rotate]"]
    by (simp add: empty_memory_def)
qed

text \<open>
  Copying a list gives a list with the copied values in a part of memory that was not in use, and
  leaves everything else as it is; when the copy of a value or an allocation fails, every node that was
  allocated for the copy has been released. It always ends.
\<close>

theorem listDup_exact:
  assumes "alloc_ok cap alloc" "list_ok m l xs"
  shows "\<exists>m' r. listDup alloc l m = Some (m', r) \<and> list_ok m' l xs \<and>
    (case r of None \<Rightarrow> nodes m' = nodes m \<and> (copied l (map snd xs) = None \<or> cap < card (dom (nodes m)) + length xs)
     | Some copy \<Rightarrow> \<exists>ys. list_ok m' copy ys \<and> copied l (map snd xs) = Some (map snd ys) \<and> addrs ys \<inter> dom (nodes m) = {} \<and>
        (\<forall>p \<in> dom (nodes m). nodes m' p = nodes m p) \<and> l_dup copy = l_dup l \<and> l_free copy = l_free l \<and> l_match copy = l_match l)"
proof -
  obtain m' r where dup: "listDup alloc l m = Some (m', r)" and keep: "\<forall>p \<in> dom (nodes m). nodes m' p = nodes m p"
    and r: "case r of None \<Rightarrow> nodes m' = nodes m \<and> (copied l (map snd xs) = None \<or> cap < card (dom (nodes m)) + length xs)
     | Some l' \<Rightarrow> \<exists>zs ws. copied l (map snd xs) = Some zs \<and> list_ok m' l' ws \<and> map snd ws = zs \<and>
        l_dup l' = l_dup l \<and> l_free l' = l_free l \<and> l_match l' = l_match l \<and> freed m' = freed m \<and> addrs ws \<inter> dom (nodes m) \<subseteq> {}"
    using listDup_ok [OF assms] by (auto simp: dup_ok_def restrict_map_def cong: option.case_cong)
  have "list_ok m' l xs" by (rule list_ok_frame [OF assms(2)]) (use keep list_ok_dom [OF assms(2)] in blast)
  then show ?thesis using dup r keep by (cases r) auto
qed

definition sample_adlist :: "nat memory \<times> nat adlist" where
  "sample_adlist = the (list_run pool_alloc [AddTail 10, AddTail 20] (empty_memory, listCreate))"

lemma sample_adlist_ok: "list_ok (fst sample_adlist) (snd sample_adlist) [(1, 10), (2, 20)]" "dom (nodes (fst sample_adlist)) = {1, 2}"
  by (auto simp: sample_adlist_def pool_alloc_def pool_def empty_memory_def listCreate_def listAddNodeTail_def node_defs list_ok_def
      dom_def split: if_splits)

theorem listDup_exact_witness:
  "\<exists>m' copy a b. listDup pool_alloc (snd sample_adlist) (fst sample_adlist) = Some (m', Some copy) \<and>
     list_ok m' copy [(a, 10), (b, 20)]"
proof -
  have "copied (snd sample_adlist) (map snd [(1 :: ptr, 10), (2, 20)]) = Some [10, 20]"
    by (simp add: copied_def dup_value_def sample_adlist_def pool_alloc_def pool_def empty_memory_def listCreate_def listAddNodeTail_def node_defs)
  then show ?thesis
    using listDup_exact [OF pool_alloc_ok sample_adlist_ok(1)] sample_adlist_ok(2) by (auto split: option.splits) blast+
qed

text \<open>
  C16. The removal of nodes while an iterator walks over the list, as the comment of \<^verbatim>\<open>listNext\<close> allows it, visits
  every node once, ends, and leaves the list of the values that were kept, in their order; the removed
  values are passed to the free method in order.
\<close>

theorem iterate_and_remove:
  assumes "list_ok m l xs"
  shows "\<exists>m' l'. remove_loop P (listRewind l) l m = Some (m', l') \<and> list_ok m' l' (filter (\<lambda>x. \<not> P (snd x)) xs) \<and>
    freed m' = freed m @ (if l_free l then filter P (map snd xs) else []) \<and> (\<forall>p. p \<notin> addrs xs \<longrightarrow> nodes m' p = nodes m p)"
  using remove_loop_ok [of m l "[]" xs P] assms
  by (cases "l_free l") (auto simp: listRewind_def list_ok_def step_ok_def)

theorem iterate_and_remove_witness:
  "\<exists>m' l'. remove_loop (\<lambda>v. v = 10) (listRewind (snd sample_adlist)) (snd sample_adlist) (fst sample_adlist) = Some (m', l') \<and>
     list_ok m' l' [(2, 20)]"
  using iterate_and_remove [OF sample_adlist_ok(1), of "\<lambda>v. v = 10"] by auto

end
