(* ===== verification/Glob.thy ===== *)
theory Glob
  imports Prelude
begin

text \<open>
  Glob matching (\<^verbatim>\<open>stringmatchlen\<close> of \<^verbatim>\<open>util.c\<close>), as KEYS, SCAN and pattern subscriptions use it. The pattern and the string
  are read through their addresses: the byte behind each of them is its terminator, and a read further
  on is \<open>None\<close>. \<^verbatim>\<open>pattern\<close> and \<^verbatim>\<open>patternLen\<close> move together, so the index \<open>i\<close> of the next byte of the pattern stands
  for both of them (\<^verbatim>\<open>patternLen\<close> is \<open>length pat - i\<close>, negative behind the end); the same holds for \<open>j\<close> and the string.
  The theorems give the meaning of patterns as lists of tokens and show where the code reads too far.
\<close>

section \<open>The code\<close>

definition rd :: "byte list \<Rightarrow> nat \<Rightarrow> byte option" where
  "rd xs i = (if i < length xs then Some (xs ! i) else if i = length xs then Some 0 else None)"

text \<open>The characters \<^verbatim>\<open>* ? [ ] ^ - \\<close>.\<close>

abbreviation "STAR \<equiv> (42 :: byte)"
abbreviation "QUESTION \<equiv> (63 :: byte)"
abbreviation "OPEN \<equiv> (91 :: byte)"
abbreviation "BACKSLASH \<equiv> (92 :: byte)"
abbreviation "CLOSE \<equiv> (93 :: byte)"
abbreviation "CARET \<equiv> (94 :: byte)"
abbreviation "DASH \<equiv> (45 :: byte)"

text \<open>Equality of two characters, and whether a character is in a range; a char is signed.\<close>

definition char_eq :: "bool \<Rightarrow> byte \<Rightarrow> byte \<Rightarrow> bool" where
  "char_eq nocase a b = (if \<not> nocase then a = b else tolower a = tolower b)"

definition in_range :: "bool \<Rightarrow> byte \<Rightarrow> byte \<Rightarrow> byte \<Rightarrow> bool" where
  "in_range nocase start finish c =
     (let (start, finish) = (if sint start > sint finish then (finish, start) else (start, finish));
          start = (if nocase then tolower start else start);
          finish = (if nocase then tolower finish else finish);
          c = (if nocase then tolower c else c)
      in sint c \<ge> sint start \<and> sint c \<le> sint finish)"

text \<open>The loop over the members of a class: the index where it stops, and \<^verbatim>\<open>match\<close>.\<close>

function class_loop :: "bool \<Rightarrow> byte list \<Rightarrow> byte list \<Rightarrow> nat \<Rightarrow> nat \<Rightarrow> bool \<Rightarrow> (nat \<times> bool) option" where
  "class_loop nocase pat s j i found =
     (case rd pat i of None \<Rightarrow> None
      | Some c \<Rightarrow>
          if c = BACKSLASH then
            (case rd pat (i + 1) of None \<Rightarrow> None
             | Some c' \<Rightarrow>
                 (case rd s j of None \<Rightarrow> None
                  | Some sc \<Rightarrow> class_loop nocase pat s j (i + 2) (found \<or> c' = sc)))
          else if c = CLOSE then Some (i, found)
          else if i = length pat then Some (i - 1, found)
          else
            (case rd pat (i + 1) of None \<Rightarrow> None
             | Some c1 \<Rightarrow>
                 if c1 = DASH \<and> length pat \<ge> i + 3 then
                   (case (rd pat (i + 2), rd s j) of
                      (Some c2, Some sc) \<Rightarrow> class_loop nocase pat s j (i + 3) (found \<or> in_range nocase c c2 sc)
                    | _ \<Rightarrow> None)
                 else
                   (case rd s j of None \<Rightarrow> None
                    | Some sc \<Rightarrow> class_loop nocase pat s j (i + 1) (found \<or> char_eq nocase c sc))))"
  by pat_completeness auto
termination
  by (relation "measure (\<lambda>(_, pat, _, _, i, _). length pat + 1 - i)") (auto simp: rd_def split: if_splits)

declare class_loop.simps [simp del]

text \<open>
  One round of the outer loop for a character other than \<^verbatim>\<open>*\<close>: \<open>None\<close> inside is \<^verbatim>\<open>return 0\<close>, otherwise the indices
  where the pattern and the string go on.
\<close>

definition match_char :: "bool \<Rightarrow> byte list \<Rightarrow> byte list \<Rightarrow> nat \<Rightarrow> nat \<Rightarrow> (nat \<times> nat) option option" where
  "match_char nocase pat s i j = do {
     c \<leftarrow> rd pat i;
     if c = QUESTION then Some (if j = length s then None else Some (i + 1, j + 1))
     else if c = OPEN then do {
       c \<leftarrow> rd pat (i + 1);
       let neg = (c = CARET);
       (i, found) \<leftarrow> class_loop nocase pat s j (if neg then i + 2 else i + 1) False;
       let found = (if neg then \<not> found else found);
       Some (if \<not> found then None else Some (i + 1, j + 1)) }
     else do {
       let i = (if c = BACKSLASH \<and> length pat \<ge> i + 2 then i + 1 else i);
       c \<leftarrow> rd pat i;
       sc \<leftarrow> rd s j;
       Some (if \<not> char_eq nocase c sc then None else Some (i + 1, j + 1)) } }"

text \<open>\<^verbatim>\<open>while (pattern[0] == '*')\<close> from an index on.\<close>

function skip_stars :: "byte list \<Rightarrow> nat \<Rightarrow> nat option" where
  "skip_stars pat i =
     (case rd pat i of None \<Rightarrow> None | Some c \<Rightarrow> if c = STAR then skip_stars pat (i + 1) else Some i)"
  by pat_completeness auto
termination
  by (relation "measure (\<lambda>(pat, i). length pat + 1 - i)") (auto simp: rd_def split: if_splits)

declare skip_stars.simps [simp del]

text \<open>
  The function itself; with \<open>star\<close> it is inside the loop that tries the rest of the pattern, from \<open>i + 1\<close>
  on, at every position of the string.
\<close>

partial_function (option) match_loop :: "bool \<Rightarrow> byte list \<Rightarrow> byte list \<Rightarrow> bool \<Rightarrow> nat \<Rightarrow> nat \<Rightarrow> bool option" where
  "match_loop nocase pat s star i j =
     (if star then
        (if j = length s then Some False
         else do {
           r \<leftarrow> match_loop nocase pat s False (i + 1) j;
           if r then Some True else match_loop nocase pat s True i (j + 1) })
      else if i = length pat then Some (j = length s)
      else do {
        c \<leftarrow> rd pat i;
        if c = STAR then do {
          i \<leftarrow> map_option (\<lambda>i. i - 1) (skip_stars pat (i + 1));
          if length pat = i + 1 then Some True else match_loop nocase pat s True i j }
        else do {
          r \<leftarrow> match_char nocase pat s i j;
          case r of None \<Rightarrow> Some False
          | Some (i, j) \<Rightarrow>
              if j = length s then do { i \<leftarrow> skip_stars pat i; Some (i = length pat) }
              else match_loop nocase pat s False i j } })"

definition stringmatchlen :: "byte list \<Rightarrow> byte list \<Rightarrow> bool \<Rightarrow> bool option" where
  "stringmatchlen pat s nocase = match_loop nocase pat s False 0 0"

text \<open>\<^verbatim>\<open>stringmatch\<close> takes the lengths of C strings.\<close>

definition stringmatch :: "byte list \<Rightarrow> byte list \<Rightarrow> bool \<Rightarrow> bool option" where
  "stringmatch pat s nocase = stringmatchlen (c_str pat) (c_str s) nocase"

section \<open>The meaning of a pattern\<close>

text \<open>
  A pattern is a list of tokens. \<open>Escaped\<close> members of a class are compared with regard to case always.
  A class whose last backslash has nothing behind it is no pattern.
\<close>

datatype member = Escaped byte | Single byte | Range byte byte

datatype token = Lit byte | AnyChar | Star | Class bool "member list"

definition first_member :: "byte list \<Rightarrow> (member \<times> byte list) option" where
  "first_member xs =
     (let c = hd xs; rest = tl xs in
      if c = BACKSLASH then (if rest = [] then None else Some (Escaped (hd rest), tl rest))
      else if length rest \<ge> 2 \<and> hd rest = DASH then Some (Range c (rest ! 1), drop 2 rest)
      else Some (Single c, rest))"

lemma first_member_shorter: "first_member xs = Some (m, rest) \<Longrightarrow> xs \<noteq> [] \<Longrightarrow> length rest < length xs"
  by (auto simp: first_member_def Let_def split: if_splits)

lemma first_member_suffix: "first_member xs = Some (m, rest) \<Longrightarrow> \<exists>ys. xs = ys @ rest"
  unfolding first_member_def Let_def
  by (metis (no_types, lifting) append_take_drop_id drop_Suc drop_drop list.sel(2) option.discI option.inject prod.inject tl_drop take0 drop0 append_Nil)

function parse_class :: "byte list \<Rightarrow> (member list \<times> byte list) option" where
  "parse_class xs =
     (if xs = [] then Some ([], [])
      else if hd xs = CLOSE then Some ([], tl xs)
      else (case first_member xs of None \<Rightarrow> None
            | Some (m, rest) \<Rightarrow> map_option (map_prod ((#) m) id) (parse_class rest)))"
  by pat_completeness auto
termination
  by (relation "measure length") (auto dest: first_member_shorter)

declare parse_class.simps [simp del]

lemma parse_class_suffix: "parse_class xs = Some (ms, rest) \<Longrightarrow> \<exists>ys. xs = ys @ rest"
proof (induction xs arbitrary: ms rest rule: parse_class.induct)
  case (1 xs)
  show ?case
  proof (cases "xs = [] \<or> hd xs = CLOSE")
    case True
    then show ?thesis using 1(2) unfolding parse_class.simps [of xs] by (cases xs) auto
  next
    case False
    then obtain m zs where m: "first_member xs = Some (m, zs)" using 1(2) by (subst (asm) parse_class.simps) (auto split: option.splits)
    then have "\<exists>ms'. parse_class zs = Some (ms', rest)" using 1(2) False by (subst (asm) parse_class.simps) auto
    then obtain us where us: "zs = us @ rest" using 1(1) [OF _ _ m refl] False by blast
    obtain vs where "xs = vs @ zs" using first_member_suffix [OF m] by blast
    then show ?thesis using us by (metis append_assoc)
  qed
qed

definition class_body :: "byte list \<Rightarrow> bool \<times> byte list" where
  "class_body xs = (case xs of c # rest \<Rightarrow> if c = CARET then (True, rest) else (False, xs) | [] \<Rightarrow> (False, []))"

lemma class_body_shorter: "class_body xs = (neg, ys) \<Longrightarrow> length ys \<le> length xs"
  by (auto simp: class_body_def split: list.splits if_splits)

function parse_pattern :: "byte list \<Rightarrow> token list option" where
  "parse_pattern [] = Some []"
| "parse_pattern (c # rest) =
     (if c = STAR then map_option ((#) Star) (parse_pattern rest)
      else if c = QUESTION then map_option ((#) AnyChar) (parse_pattern rest)
      else if c = OPEN then
        (case class_body rest of (neg, body) \<Rightarrow>
         (case parse_class body of None \<Rightarrow> None | Some (ms, rest') \<Rightarrow> map_option ((#) (Class neg ms)) (parse_pattern rest')))
      else if c = BACKSLASH then
        (case rest of [] \<Rightarrow> Some [Lit c] | d # rest' \<Rightarrow> map_option ((#) (Lit d)) (parse_pattern rest'))
      else map_option ((#) (Lit c)) (parse_pattern rest))"
  by pat_completeness auto
termination
  by (relation "measure length") (auto dest!: parse_class_suffix class_body_shorter [OF sym])

declare parse_pattern.simps(2) [simp del]

fun member_ok :: "bool \<Rightarrow> byte \<Rightarrow> member \<Rightarrow> bool" where
  "member_ok nocase sc (Escaped c) = (c = sc)"
| "member_ok nocase sc (Single c) = char_eq nocase c sc"
| "member_ok nocase sc (Range a b) = in_range nocase a b sc"

fun token_ok :: "bool \<Rightarrow> token \<Rightarrow> byte \<Rightarrow> bool" where
  "token_ok nocase (Lit c) sc = char_eq nocase c sc"
| "token_ok nocase AnyChar sc = True"
| "token_ok nocase Star sc = True"
| "token_ok nocase (Class neg ms) sc = (list_ex (member_ok nocase sc) ms \<noteq> neg)"

text \<open>A star matches any stretch of the string, every other token one character.\<close>

fun matches :: "bool \<Rightarrow> token list \<Rightarrow> byte list \<Rightarrow> bool" where
  "matches nocase [] s = (s = [])"
| "matches nocase (t # ts) s =
     (if t = Star then (\<exists>n \<le> length s. matches nocase ts (drop n s))
      else (case s of [] \<Rightarrow> False | c # s' \<Rightarrow> token_ok nocase t c \<and> matches nocase ts s'))"

section \<open>The code follows the meaning\<close>

lemma rd_drop: "rd xs i = (case drop i xs of c # _ \<Rightarrow> Some c | [] \<Rightarrow> if i = length xs then Some 0 else None)"
  by (cases "i < length xs") (auto simp: rd_def Cons_nth_drop_Suc [symmetric])

text \<open>The members of a class.\<close>

lemma class_step:
  assumes i: "i < length pat" "pat ! i \<noteq> CLOSE" and sc: "rd s j = Some sc" and m: "first_member (drop i pat) = Some (m, rest)"
  shows "\<exists>k. i < k \<and> k \<le> length pat \<and> rest = drop k pat \<and>
    class_loop nocase pat s j i found = class_loop nocase pat s j k (found \<or> member_ok nocase sc m)"
proof -
  have d: "drop i pat = pat ! i # drop (Suc i) pat" using i by (simp add: Cons_nth_drop_Suc)
  have t: "tl (drop k pat) = drop (Suc k) pat" for k by (simp add: drop_Suc tl_drop)
  have rd: "rd pat i = Some (pat ! i)" using i by (simp add: rd_def)
  note unfold = class_loop.simps [of nocase pat s j i found, unfolded rd sc option.case]
  consider (esc) "pat ! i = BACKSLASH" "Suc i < length pat" "m = Escaped (pat ! Suc i)" "rest = drop (i + 2) pat"
    | (range) "pat ! i \<noteq> BACKSLASH" "i + 3 \<le> length pat" "pat ! Suc i = DASH" "m = Range (pat ! i) (pat ! (i + 2))" "rest = drop (i + 3) pat"
    | (single) "pat ! i \<noteq> BACKSLASH" "\<not> (i + 3 \<le> length pat \<and> pat ! Suc i = DASH)" "m = Single (pat ! i)" "rest = drop (i + 1) pat"
    using m unfolding first_member_def d Let_def
    by (auto simp: hd_drop_conv_nth t numeral_3_eq_3 split: if_splits)
  then show ?thesis
  proof cases
    case esc
    then show ?thesis by (intro exI [of _ "i + 2"]) (simp add: unfold rd_def)
  next
    case range
    then show ?thesis using i by (intro exI [of _ "i + 3"]) (simp add: unfold rd_def)
  next
    case single
    then show ?thesis using i by (intro exI [of _ "i + 1"]) (auto simp: unfold rd_def)
  qed
qed

lemma class_loop_parse:
  assumes "i \<le> length pat" "rd s j = Some sc" "parse_class (drop i pat) = Some (ms, rest)"
  shows "class_loop nocase pat s j i found = Some (length pat - length rest - 1, found \<or> list_ex (member_ok nocase sc) ms)"
  using assms
proof (induction "length pat - i" arbitrary: i found ms rest rule: less_induct)
  case less
  note parse_pattern = less.prems(3) [unfolded parse_class.simps [of "drop i pat"]]
  consider "i = length pat" | "i < length pat" "pat ! i = CLOSE" | "i < length pat" "pat ! i \<noteq> CLOSE" using less.prems(1) by linarith
  then show ?case
  proof cases
    case 1
    then show ?thesis using parse_pattern by (subst class_loop.simps) (auto simp: rd_def)
  next
    case 2
    then show ?thesis using parse_pattern by (subst class_loop.simps) (auto simp: rd_def hd_drop_conv_nth tl_drop)
  next
    case 3
    then obtain m ys ms' where m: "first_member (drop i pat) = Some (m, ys)" "parse_class ys = Some (ms', rest)" "ms = m # ms'"
      using parse_pattern by (auto simp: hd_drop_conv_nth split: option.splits)
    then obtain k where k: "i < k" "k \<le> length pat" "ys = drop k pat"
      "class_loop nocase pat s j i found = class_loop nocase pat s j k (found \<or> member_ok nocase sc m)"
      using class_step [OF 3 less.prems(2) m(1)] by blast
    then show ?thesis using less.hyps [of k] m k less.prems(2) by simp
  qed
qed

lemma rd_inside [simp]: "i < length xs \<Longrightarrow> rd xs i = Some (xs ! i)"
  by (simp add: rd_def)

lemma drop_next: "i < length xs \<Longrightarrow> drop i xs = xs ! i # drop (Suc i) xs"
  by (simp add: Cons_nth_drop_Suc)

text \<open>A class in the pattern.\<close>

lemma class_body_drop:
  assumes "class_body (drop (Suc i) pat) = (neg, body)" "i < length pat"
  shows "\<exists>k. k \<le> length pat \<and> i < k \<and> body = drop k pat \<and> k = (if neg then i + 2 else i + 1) \<and>
    rd pat (i + 1) \<noteq> None \<and> (rd pat (i + 1) = Some CARET \<longleftrightarrow> neg)"
proof (cases "Suc i < length pat")
  case True
  then show ?thesis using assms unfolding drop_next [OF True] by (auto simp: class_body_def split: if_splits) (metis Cons_nth_drop_Suc True)
qed (use assms in \<open>auto simp: class_body_def rd_def\<close>)

text \<open>One token that is not a star takes one character.\<close>

lemma match_char_token:
  assumes i: "i < length pat" "pat ! i \<noteq> STAR" and j: "j < length s" and ts: "parse_pattern (drop i pat) = Some ts"
  shows "\<exists>t us k. ts = t # us \<and> t \<noteq> Star \<and> i < k \<and> k \<le> length pat \<and> parse_pattern (drop k pat) = Some us \<and>
    match_char nocase pat s i j = Some (if token_ok nocase t (s ! j) then Some (k, j + 1) else None)"
proof -
  note parse_pattern = ts [unfolded drop_next [OF i(1)] parse_pattern.simps(2)]
  consider (any) "pat ! i = QUESTION" | (cls) "pat ! i = OPEN" | (esc) "pat ! i = BACKSLASH" "Suc i < length pat"
    | (lit) "pat ! i \<noteq> QUESTION" "pat ! i \<noteq> OPEN" "pat ! i \<noteq> BACKSLASH \<or> Suc i = length pat" using i(1) by linarith
  then show ?thesis
  proof cases
    case any
    then show ?thesis using parse_pattern i j by (auto simp: match_char_def)
  next
    case cls
    obtain neg body where b: "class_body (drop (Suc i) pat) = (neg, body)" by force
    obtain ms rest us where m: "parse_class body = Some (ms, rest)" "parse_pattern rest = Some us" "ts = Class neg ms # us"
      using parse_pattern cls b by (auto split: option.splits)
    obtain k where k: "k \<le> length pat" "i < k" "body = drop k pat" "k = (if neg then i + 2 else i + 1)"
      "rd pat (i + 1) \<noteq> None" "rd pat (i + 1) = Some CARET \<longleftrightarrow> neg" using class_body_drop [OF b i(1)] by blast
    obtain ys where ys: "body = ys @ rest" using parse_class_suffix [OF m(1)] by blast
    define n where "n = k + length ys"
    have n: "rest = drop n pat" "n \<le> length pat" "i < n" "length pat - length rest - 1 = n - 1" "Suc (n - 1) = n"
    proof -
      have len: "length pat - k = length ys + length rest" using ys k(3) by (metis length_append length_drop)
      show "rest = drop n pat" using ys k(3) unfolding n_def by (metis add.commute append_eq_conv_conj drop_drop)
      show "n \<le> length pat" "i < n" "length pat - length rest - 1 = n - 1" "Suc (n - 1) = n" using len k(1,2) unfolding n_def by auto
    qed
    have "class_loop nocase pat s j k False = Some (length pat - length rest - 1, list_ex (member_ok nocase (s ! j)) ms)"
      using class_loop_parse [OF k(1), of s j "s ! j" ms rest nocase False] j m(1) k(3) by simp
    then show ?thesis using m n k(4-) i(1) cls by (auto simp: match_char_def)
  next
    case esc
    then show ?thesis using parse_pattern i j
      by (auto simp: match_char_def drop_next [of "Suc i"] intro!: exI [of _ "Suc (Suc i)"])
  next
    case lit
    then show ?thesis using parse_pattern i j by (auto simp: match_char_def intro!: exI [of _ "Suc i"] split: if_splits)
  qed
qed

text \<open>Stars.\<close>

lemma skip_stars_parse:
  assumes "i \<le> length pat" "parse_pattern (drop i pat) = Some ts"
  shows "\<exists>k us. i \<le> k \<and> k \<le> length pat \<and> skip_stars pat i = Some k \<and> parse_pattern (drop k pat) = Some us \<and>
    (k < length pat \<longrightarrow> pat ! k \<noteq> STAR) \<and> us = dropWhile ((=) Star) ts"
  using assms
proof (induction "length pat - i" arbitrary: i ts rule: less_induct)
  case less
  show ?case
  proof (cases "i < length pat \<and> pat ! i = STAR")
    case True
    then obtain us where us: "ts = Star # us" "parse_pattern (drop (Suc i) pat) = Some us"
      using less.prems(2) by (auto simp: drop_next parse_pattern.simps(2))
    then show ?thesis using less.hyps [of "Suc i" us] True by (subst skip_stars.simps) (force intro: Suc_leD)
  next
    case False
    have "skip_stars pat i = Some i" using False less.prems(1) by (subst skip_stars.simps) (auto simp: rd_def)
    moreover have "dropWhile ((=) Star) ts = ts"
    proof (cases "i < length pat")
      case True
      then obtain t us where "ts = t # us" "t \<noteq> Star"
        using match_char_token [of i pat 0 "[0]" ts False] False less.prems(2) by auto
      then show ?thesis by simp
    qed (use less.prems in auto)
    ultimately show ?thesis using less.prems False by auto
  qed
qed

lemma parse_nonempty: "xs \<noteq> [] \<Longrightarrow> parse_pattern xs \<noteq> Some []"
  by (cases xs) (auto simp: parse_pattern.simps(2) split: list.splits option.splits prod.splits)

lemma matches_star: "matches nocase (Star # ts) s \<longleftrightarrow> matches nocase ts s \<or> s \<noteq> [] \<and> matches nocase (Star # ts) (tl s)"
proof (cases s)
  case (Cons c s')
  have "(\<exists>n \<le> length s. matches nocase ts (drop n s)) \<longleftrightarrow> matches nocase ts s \<or> (\<exists>n \<le> length s'. matches nocase ts (drop n s'))"
    unfolding Cons by (metis Suc_le_mono drop0 drop_Suc_Cons length_Cons not0_implies_Suc zero_le)
  then show ?thesis by (simp add: Cons)
qed simp

lemma matches_star_star: "matches nocase (Star # Star # ts) s = matches nocase (Star # ts) s"
proof (induction s)
  case (Cons c s)
  then show ?case using matches_star [of nocase "Star # ts" "c # s"] matches_star [of nocase ts "c # s"] by auto
qed simp

lemma matches_stars: "matches nocase (Star # ts) s = matches nocase (Star # dropWhile ((=) Star) ts) s"
proof (induction ts)
  case (Cons t ts)
  then show ?case by (cases "t = Star") (simp_all add: matches_star_star del: matches.simps)
qed simp

lemma matches_empty: "matches nocase ts [] \<longleftrightarrow> dropWhile ((=) Star) ts = []"
  by (induction ts) auto

text \<open>The loop behind a star tries every position.\<close>

lemma match_loop_star:
  assumes rest: "\<And>j. j < length s \<Longrightarrow> match_loop nocase pat s False (i + 1) j = Some (matches nocase ts (drop j s))"
    and ts: "\<not> matches nocase ts []" and "j \<le> length s"
  shows "match_loop nocase pat s True i j = Some (matches nocase (Star # ts) (drop j s))"
  using assms(3)
proof (induction "length s - j" arbitrary: j)
  case 0
  then show ?case using ts by (subst match_loop.simps) simp
next
  case (Suc n)
  then have j: "j < length s" by simp
  have "match_loop nocase pat s True i (j + 1) = Some (matches nocase (Star # ts) (drop (j + 1) s))"
    using Suc.hyps j by (intro Suc.hyps(1)) auto
  moreover have "tl (drop j s) = drop (j + 1) s" by (simp add: drop_Suc tl_drop)
  ultimately show ?case using rest [OF j] j matches_star [of nocase ts "drop j s"]
    by (subst match_loop.simps) (simp del: matches.simps)
qed

lemma match_loop_parse:
  assumes "i \<le> length pat" "parse_pattern (drop i pat) = Some ts" "j < length s"
  shows "match_loop nocase pat s False i j = Some (matches nocase ts (drop j s))"
  using assms
proof (induction "length pat - i" arbitrary: i ts j rule: less_induct)
  case less
  consider (stop) "i = length pat" | (star) "i < length pat" "pat ! i = STAR" | (char) "i < length pat" "pat ! i \<noteq> STAR"
    using less.prems(1) by linarith
  then show ?case
  proof cases
    case stop
    then show ?thesis using less.prems by (subst match_loop.simps) auto
  next
    case star
    then obtain vs where vs: "ts = Star # vs" "parse_pattern (drop (i + 1) pat) = Some vs"
      using less.prems(2) by (auto simp: drop_next parse_pattern.simps(2))
    obtain k us where k: "i + 1 \<le> k" "k \<le> length pat" "skip_stars pat (i + 1) = Some k" "parse_pattern (drop k pat) = Some us" "us = dropWhile ((=) Star) vs"
      using skip_stars_parse [OF _ vs(2)] star(1) by auto
    have m: "matches nocase ts (drop j s) = matches nocase (Star # us) (drop j s)" unfolding vs(1) k(5) by (rule matches_stars)
    show ?thesis
    proof (cases "k = length pat")
      case True
      then have "matches nocase (Star # us) (drop j s)" using k(4) by auto
      moreover have "length pat = k - 1 + 1" using True k(1) by simp
      ultimately show ?thesis unfolding m using star k(3) by (subst match_loop.simps) (simp del: matches.simps)
    next
      case False
      then have "us \<noteq> []" using k(2,4) parse_nonempty [of "drop k pat"] by auto
      then have "\<not> matches nocase us []" unfolding matches_empty k(5) by (simp add: dropWhile_idem)
      then have "match_loop nocase pat s True (k - 1) j = Some (matches nocase (Star # us) (drop j s))"
        using k less.hyps [of k us] star(1) less.prems(3) by (intro match_loop_star) auto
      then show ?thesis unfolding m using star k False by (subst match_loop.simps) (simp del: matches.simps)
    qed
  next
    case char
    obtain t us k where t: "ts = t # us" "t \<noteq> Star" "i < k" "k \<le> length pat" "parse_pattern (drop k pat) = Some us"
      "match_char nocase pat s i j = Some (if token_ok nocase t (s ! j) then Some (k, j + 1) else None)"
      using match_char_token [OF char less.prems(3,2)] by blast
    have m: "matches nocase ts (drop j s) \<longleftrightarrow> token_ok nocase t (s ! j) \<and> matches nocase us (drop (j + 1) s)"
      using t(1,2) less.prems(3) by (simp add: drop_next)
    note unfold = match_loop.simps [of nocase pat s False i j]
    show ?thesis
    proof (cases "token_ok nocase t (s ! j) \<and> j + 1 = length s")
      case True
      obtain n ws where n: "n \<le> length pat" "skip_stars pat k = Some n" "parse_pattern (drop n pat) = Some ws" "ws = dropWhile ((=) Star) us"
        using skip_stars_parse [OF t(4,5)] by blast
      have "n = length pat \<longleftrightarrow> ws = []" using n(1,3) parse_nonempty [of "drop n pat"] by fastforce
      then show ?thesis using True m n(2,4) t(6) char unfolding unfold by (simp add: matches_empty)
    next
      case False
      have "match_loop nocase pat s False k (j + 1) = Some (matches nocase us (drop (j + 1) s))" if "j + 1 < length s"
        by (rule less.hyps) (use t(3-5) that in auto)
      then show ?thesis using False m t(6) char less.prems(3) unfolding unfold by auto
    qed
  qed
qed

text \<open>The tokens that the code does not handle on the empty string.\<close>

definition no_empty_trap :: "token list \<Rightarrow> bool" where
  "no_empty_trap ts \<longleftrightarrow> list_all (\<lambda>t. case t of Class _ _ \<Rightarrow> False | Lit c \<Rightarrow> c \<noteq> 0 | _ \<Rightarrow> True) ts"

text \<open>On the empty string.\<close>

lemma char_eq_zero: "char_eq nocase c 0 \<longleftrightarrow> c = 0"
proof -
  have "c + 32 \<noteq> 0" if "c \<le> 90"
  proof
    assume "c + 32 = 0"
    then have "c = - 32" by (simp add: eq_neg_iff_add_eq_0)
    then show False using that by simp
  qed
  then show ?thesis by (auto simp: char_eq_def tolower_def)
qed

lemma match_empty_string:
  assumes "parse_pattern pat = Some ts" "no_empty_trap ts"
  shows "match_loop nocase pat [] False 0 0 = Some (matches nocase ts [])"
proof (cases pat)
  case Nil
  then show ?thesis using assms by (subst match_loop.simps) auto
next
  case (Cons c rest)
  show ?thesis
  proof (cases "c = STAR")
    case True
    then obtain vs where vs: "ts = Star # vs" "parse_pattern (drop 1 pat) = Some vs" using assms(1) Cons by (auto simp: parse_pattern.simps(2))
    obtain k us where k: "1 \<le> k" "k \<le> length pat" "skip_stars pat 1 = Some k" "parse_pattern (drop k pat) = Some us" "us = dropWhile ((=) Star) vs"
      using skip_stars_parse [OF _ vs(2)] Cons by auto
    have "k = length pat \<longleftrightarrow> us = []" using k(2,4) parse_nonempty [of "drop k pat"] by fastforce
    moreover have "length pat = k - 1 + 1 \<longleftrightarrow> k = length pat" using k(1) by auto
    moreover have "match_loop nocase pat [] True i 0 = Some False" for i by (subst match_loop.simps) simp
    ultimately show ?thesis using True Cons k(3,5) vs(1) by (subst match_loop.simps) (simp add: matches_empty)
  next
    case False
    have "match_char nocase pat [] 0 0 = Some None"
      using assms False Cons
      by (auto simp: match_char_def no_empty_trap_def parse_pattern.simps(2) rd_def char_eq_zero split: if_splits list.splits option.splits prod.splits)
    moreover have "\<not> matches nocase ts []"
      using assms(1) False Cons by (auto simp: parse_pattern.simps(2) split: if_splits list.splits option.splits prod.splits)
    ultimately show ?thesis using False Cons by (subst match_loop.simps) auto
  qed
qed

lemma stringmatchlen_parse:
  assumes "parse_pattern pat = Some ts" "s \<noteq> [] \<or> no_empty_trap ts"
  shows "stringmatchlen pat s nocase = Some (matches nocase ts s)"
  using assms match_loop_parse [of 0 pat ts 0 s nocase] match_empty_string [of pat ts nocase]
  unfolding stringmatchlen_def by (cases "s = []") auto

text \<open>
  C14. Glob matching: for every pattern the code returns, reads only the pattern and the string with
  their terminators, and answers whether the string matches the tokens of the pattern; excluded are
  patterns with a class that ends in a single backslash, and for the empty string patterns with a class
  or a zero byte.
\<close>

theorem stringmatchlen_exact:
  assumes "parse_pattern pat = Some ts" "s \<noteq> [] \<or> no_empty_trap ts"
  shows "stringmatchlen pat s nocase = Some (matches nocase ts s)"
  using assms by (rule stringmatchlen_parse)

text \<open>The pattern \<^verbatim>\<open>h[a-e]*l?\<close> and the string \<^verbatim>\<open>hello\<close>.\<close>

theorem stringmatchlen_exact_witness:
  "stringmatchlen [104, OPEN, 97, DASH, 101, CLOSE, STAR, 108, QUESTION] [104, 101, 108, 108, 111] False = Some True"
proof -
  have p: "parse_pattern [104, OPEN, 97, DASH, 101, CLOSE, STAR, 108, QUESTION] = Some [Lit 104, Class False [Range 97 101], Star, Lit 108, AnyChar]"
    by code_simp
  have "matches False [Lit 104, Class False [Range 97 101], Star, Lit 108, AnyChar] [104, 101, 108, 108, 111]" by code_simp
  then show ?thesis using stringmatchlen_exact [OF p, of "[104, 101, 108, 108, 111]" False] by simp
qed

text \<open>
  C17. The two cases that the matching does not handle: with the pattern \<^verbatim>\<open>[\\<close>, which a client can send, every
  non-empty string makes the code read behind the terminator of the pattern, and with a pattern such
  as \<^verbatim>\<open>[^a]b\<close> the empty string makes it read behind the terminator of the string.
\<close>

theorem glob_reads_too_far:
  "stringmatchlen [OPEN, BACKSLASH] (c # s) nocase = None \<and> stringmatchlen [OPEN, CARET, 97, CLOSE, 98] [] nocase = None"
proof
  have "class_loop nocase [OPEN, BACKSLASH] (c # s) 0 3 found = None" for found
    by (subst class_loop.simps) (simp add: rd_def)
  then have "class_loop nocase [OPEN, BACKSLASH] (c # s) 0 1 False = None"
    by (subst class_loop.simps) (simp add: rd_def numeral_3_eq_3)
  then show "stringmatchlen [OPEN, BACKSLASH] (c # s) nocase = None"
    unfolding stringmatchlen_def by (subst match_loop.simps) (simp add: match_char_def rd_def)
  let ?pat = "[OPEN, CARET, 97, CLOSE, 98]"
  have "class_loop nocase ?pat [] 0 3 False = Some (3, False)" by (subst class_loop.simps) (simp add: rd_def)
  then have "class_loop nocase ?pat [] 0 2 False = Some (3, False)"
    by (subst class_loop.simps) (simp add: rd_def char_eq_zero)
  then have "class_loop nocase ?pat [] 0 (Suc (Suc 0)) False = Some (3, False)" by (metis numeral_2_eq_2)
  then have "match_char nocase ?pat [] 0 0 = Some (Some (4, 1))" by (simp add: match_char_def rd_def)
  moreover have "match_loop nocase ?pat [] False 4 1 = None"
    by (subst match_loop.simps) (simp add: match_char_def rd_def)
  ultimately show "stringmatchlen ?pat [] nocase = None"
    unfolding stringmatchlen_def by (subst match_loop.simps) (simp add: rd_def)
qed

end
