(* ===== verification/Pubsub.thy ===== *)
theory Pubsub
  imports Glob "HOL-Library.List_Lexorder"
begin

text \<open>
  Publish and subscribe (\<^verbatim>\<open>pubsub.c\<close>): the channels and patterns of every client, the subscribers of every
  channel and the list of all pattern subscriptions, kept consistent by four commands, and the
  delivery of messages. Tables are maps and sets; the order in which one is iterated is a parameter
  \<open>enum\<close>. The theorems show that the two views of the subscriptions always agree, that no assertion fails
  and that a message reaches exactly the clients that asked for it.
\<close>

section \<open>State\<close>

type_synonym ps_client = nat
type_synonym str = "byte list"

datatype push_msg = Subscribed str nat | Unsubscribed "str option" nat | PSubscribed str nat | PUnsubscribed "str option" nat
  | Message str str | PMessage str str str | Number nat | Channels "str list" | Numsub "(str \<times> nat) list" | PubsubError str

datatype effect = ClusterPublish str str | ForcePropagation ps_client

record subscriber =
  sub_channels :: "str set"
  sub_patterns :: "str list"
  sub_flag :: bool

record pubsub =
  channels :: "str \<rightharpoonup> ps_client list"
  patterns :: "(ps_client \<times> str) list"
  subs :: "ps_client \<Rightarrow> subscriber"
  ps_cluster :: bool
  out :: "(ps_client \<times> push_msg) list"
  effects :: "effect list"

definition push :: "ps_client \<Rightarrow> push_msg \<Rightarrow> pubsub \<Rightarrow> pubsub" where
  "push c r s = s\<lparr>out := out s @ [(c, r)]\<rparr>"

definition update_sub :: "ps_client \<Rightarrow> (subscriber \<Rightarrow> subscriber) \<Rightarrow> pubsub \<Rightarrow> pubsub" where
  "update_sub c f s = s\<lparr>subs := (subs s)(c := f (subs s c))\<rparr>"

definition clientSubscriptionsCount :: "ps_client \<Rightarrow> pubsub \<Rightarrow> nat" where
  "clientSubscriptionsCount c s = card (sub_channels (subs s c)) + length (sub_patterns (subs s c))"

section \<open>Subscriptions\<close>

definition pubsubSubscribeChannel :: "ps_client \<Rightarrow> str \<Rightarrow> pubsub \<Rightarrow> pubsub \<times> bool" where
  "pubsubSubscribeChannel c channel s =
     (let (s, retval) =
        (if channel \<in> sub_channels (subs s c) then (s, False)
         else
           let s = update_sub c (\<lambda>u. u\<lparr>sub_channels := insert channel (sub_channels u)\<rparr>) s;
               clients = (case channels s channel of None \<Rightarrow> [] | Some clients \<Rightarrow> clients)
           in (s\<lparr>channels := (channels s)(channel \<mapsto> clients @ [c])\<rparr>, True))
      in (push c (Subscribed channel (clientSubscriptionsCount c s)) s, retval))"

text \<open>\<open>None\<close> is a failed assertion.\<close>

definition pubsubUnsubscribeChannel :: "ps_client \<Rightarrow> str \<Rightarrow> bool \<Rightarrow> pubsub \<Rightarrow> (pubsub \<times> bool) option" where
  "pubsubUnsubscribeChannel c channel notify s = do {
     (s, retval) \<leftarrow>
       (if channel \<in> sub_channels (subs s c) then
          let s = update_sub c (\<lambda>u. u\<lparr>sub_channels := sub_channels u - {channel}\<rparr>) s in
          (case channels s channel of None \<Rightarrow> None
           | Some clients \<Rightarrow>
               if c \<notin> set clients then None
               else
                 let clients = remove1 c clients
                 in Some (s\<lparr>channels := (channels s)(channel := if clients = [] then None else Some clients)\<rparr>, True))
        else Some (s, False));
     Some (if notify then push c (Unsubscribed (Some channel) (clientSubscriptionsCount c s)) s else s, retval) }"

definition pubsubSubscribePattern :: "ps_client \<Rightarrow> str \<Rightarrow> pubsub \<Rightarrow> pubsub \<times> bool" where
  "pubsubSubscribePattern c pattern s =
     (let (s, retval) =
        (if pattern \<notin> set (sub_patterns (subs s c)) then
           let s = update_sub c (\<lambda>u. u\<lparr>sub_patterns := sub_patterns u @ [pattern]\<rparr>) s
           in (s\<lparr>patterns := patterns s @ [(c, pattern)]\<rparr>, True)
         else (s, False))
      in (push c (PSubscribed pattern (clientSubscriptionsCount c s)) s, retval))"

text \<open>\<open>None\<close>: \<^verbatim>\<open>listDelNode\<close> would get a null pointer.\<close>

definition pubsubUnsubscribePattern :: "ps_client \<Rightarrow> str \<Rightarrow> bool \<Rightarrow> pubsub \<Rightarrow> (pubsub \<times> bool) option" where
  "pubsubUnsubscribePattern c pattern notify s = do {
     (s, retval) \<leftarrow>
       (if pattern \<in> set (sub_patterns (subs s c)) then
          let s = update_sub c (\<lambda>u. u\<lparr>sub_patterns := remove1 pattern (sub_patterns u)\<rparr>) s in
          if (c, pattern) \<notin> set (patterns s) then None
          else Some (s\<lparr>patterns := remove1 (c, pattern) (patterns s)\<rparr>, True)
        else Some (s, False));
     Some (if notify then push c (PUnsubscribed (Some pattern) (clientSubscriptionsCount c s)) s else s, retval) }"

text \<open>The loops over channels, with the number of successes.\<close>

fun unsubscribe_each :: "(str \<Rightarrow> pubsub \<Rightarrow> (pubsub \<times> bool) option) \<Rightarrow> str list \<Rightarrow> nat \<Rightarrow> pubsub \<Rightarrow> (pubsub \<times> nat) option" where
  "unsubscribe_each f [] count s = Some (s, count)"
| "unsubscribe_each f (x # xs) count s = do {
     (s, r) \<leftarrow> f x s;
     unsubscribe_each f xs (if r then count + 1 else count) s }"

definition pubsubUnsubscribeAllChannels :: "(str set \<Rightarrow> str list) \<Rightarrow> ps_client \<Rightarrow> bool \<Rightarrow> pubsub \<Rightarrow> (pubsub \<times> nat) option" where
  "pubsubUnsubscribeAllChannels enum c notify s = do {
     (s, count) \<leftarrow> unsubscribe_each (\<lambda>channel. pubsubUnsubscribeChannel c channel notify) (enum (sub_channels (subs s c))) 0 s;
     Some (if notify \<and> count = 0 then push c (Unsubscribed None (clientSubscriptionsCount c s)) s else s, count) }"

definition pubsubUnsubscribeAllPatterns :: "ps_client \<Rightarrow> bool \<Rightarrow> pubsub \<Rightarrow> (pubsub \<times> nat) option" where
  "pubsubUnsubscribeAllPatterns c notify s = do {
     (s, count) \<leftarrow> unsubscribe_each (\<lambda>pattern. pubsubUnsubscribePattern c pattern notify) (sub_patterns (subs s c)) 0 s;
     Some (if notify \<and> count = 0 then push c (PUnsubscribed None (clientSubscriptionsCount c s)) s else s, count) }"

section \<open>Messages\<close>

text \<open>\<open>None\<close> is a read outside a pattern or the name of the channel.\<close>

fun publish_patterns :: "(ps_client \<times> str) list \<Rightarrow> str \<Rightarrow> str \<Rightarrow> nat \<Rightarrow> pubsub \<Rightarrow> (pubsub \<times> nat) option" where
  "publish_patterns [] channel message receivers s = Some (s, receivers)"
| "publish_patterns ((c, pattern) # pats) channel message receivers s = do {
     m \<leftarrow> stringmatchlen pattern channel False;
     if m then publish_patterns pats channel message (receivers + 1) (push c (PMessage pattern channel message) s)
     else publish_patterns pats channel message receivers s }"

definition pubsubPublishMessage :: "str \<Rightarrow> str \<Rightarrow> pubsub \<Rightarrow> (pubsub \<times> nat) option" where
  "pubsubPublishMessage channel message s =
     (let (s, receivers) =
        (case channels s channel of None \<Rightarrow> (s, 0)
         | Some clients \<Rightarrow> (fold (\<lambda>c. push c (Message channel message)) clients s, length clients))
      in publish_patterns (patterns s) channel message receivers s)"

section \<open>Commands\<close>

definition set_flag :: "ps_client \<Rightarrow> bool \<Rightarrow> pubsub \<Rightarrow> pubsub" where
  "set_flag c b = update_sub c (\<lambda>u. u\<lparr>sub_flag := b\<rparr>)"

definition subscribeCommand :: "ps_client \<Rightarrow> str list \<Rightarrow> pubsub \<Rightarrow> pubsub" where
  "subscribeCommand c argv s = set_flag c True (fold (\<lambda>channel s. fst (pubsubSubscribeChannel c channel s)) (tl argv) s)"

definition unsubscribeCommand :: "(str set \<Rightarrow> str list) \<Rightarrow> ps_client \<Rightarrow> str list \<Rightarrow> pubsub \<Rightarrow> pubsub option" where
  "unsubscribeCommand enum c argv s = do {
     (s, _) \<leftarrow> (if length argv = 1 then pubsubUnsubscribeAllChannels enum c True s
        else unsubscribe_each (\<lambda>channel. pubsubUnsubscribeChannel c channel True) (tl argv) 0 s);
     Some (if clientSubscriptionsCount c s = 0 then set_flag c False s else s) }"

definition psubscribeCommand :: "ps_client \<Rightarrow> str list \<Rightarrow> pubsub \<Rightarrow> pubsub" where
  "psubscribeCommand c argv s = set_flag c True (fold (\<lambda>pattern s. fst (pubsubSubscribePattern c pattern s)) (tl argv) s)"

definition punsubscribeCommand :: "ps_client \<Rightarrow> str list \<Rightarrow> pubsub \<Rightarrow> pubsub option" where
  "punsubscribeCommand c argv s = do {
     (s, _) \<leftarrow> (if length argv = 1 then pubsubUnsubscribeAllPatterns c True s
        else unsubscribe_each (\<lambda>pattern. pubsubUnsubscribePattern c pattern True) (tl argv) 0 s);
     Some (if clientSubscriptionsCount c s = 0 then set_flag c False s else s) }"

definition publishCommand :: "ps_client \<Rightarrow> str list \<Rightarrow> pubsub \<Rightarrow> pubsub option" where
  "publishCommand c argv s = do {
     (s, receivers) \<leftarrow> pubsubPublishMessage (argv ! 1) (argv ! 2) s;
     let s = (if ps_cluster s then s\<lparr>effects := effects s @ [ClusterPublish (argv ! 1) (argv ! 2)]\<rparr>
       else s\<lparr>effects := effects s @ [ForcePropagation c]\<rparr>);
     Some (push c (Number receivers) s) }"

fun select_channels :: "str option \<Rightarrow> str list \<Rightarrow> str list option" where
  "select_channels pat [] = Some []"
| "select_channels pat (channel # chs) = do {
     m \<leftarrow> (case pat of None \<Rightarrow> Some True | Some p \<Rightarrow> stringmatchlen p channel False);
     chs \<leftarrow> select_channels pat chs;
     Some (if m then channel # chs else chs) }"

definition pubsubCommand :: "(str set \<Rightarrow> str list) \<Rightarrow> ps_client \<Rightarrow> str list \<Rightarrow> pubsub \<Rightarrow> pubsub option" where
  "pubsubCommand enum c argv s =
     (if strcase_eq (argv ! 1) ''channels'' \<and> (length argv = 2 \<or> length argv = 3) then do {
        chs \<leftarrow> select_channels (if length argv = 2 then None else Some (argv ! 2)) (enum (dom (channels s)));
        Some (push c (Channels chs) s) }
      else if strcase_eq (argv ! 1) ''numsub'' \<and> length argv \<ge> 2 then
        Some (push c (Numsub (map (\<lambda>ch. (ch, case channels s ch of None \<Rightarrow> 0 | Some l \<Rightarrow> length l)) (drop 2 argv))) s)
      else if strcase_eq (argv ! 1) ''numpat'' \<and> length argv = 2 then Some (push c (Number (length (patterns s))) s)
      else Some (push c (PubsubError (argv ! 1)) s))"

text \<open>What \<^verbatim>\<open>freeClient\<close> does with the subscriptions of a client.\<close>

definition free_subscriptions :: "(str set \<Rightarrow> str list) \<Rightarrow> ps_client \<Rightarrow> pubsub \<Rightarrow> pubsub option" where
  "free_subscriptions enum c s = do {
     (s, _) \<leftarrow> pubsubUnsubscribeAllChannels enum c False s;
     (s, _) \<leftarrow> pubsubUnsubscribeAllPatterns c False s;
     Some s }"

section \<open>The invariant\<close>

text \<open>
  The two views of the subscriptions agree, no list of clients is empty or has a client twice, and the
  names are such that matching is defined: patterns parse and no channel has the empty name.
\<close>

definition subscribers :: "pubsub \<Rightarrow> str \<Rightarrow> ps_client list" where
  "subscribers s ch = (case channels s ch of None \<Rightarrow> [] | Some clients \<Rightarrow> clients)"

definition views_ok :: "pubsub \<Rightarrow> bool" where
  "views_ok s \<longleftrightarrow> (\<forall>ch. channels s ch \<noteq> Some []) \<and> finite (dom (channels s)) \<and> channels s [] = None \<and> (\<forall>ch. distinct (subscribers s ch)) \<and>
     (\<forall>c ch. c \<in> set (subscribers s ch) \<longleftrightarrow> ch \<in> sub_channels (subs s c)) \<and>
     distinct (patterns s) \<and> (\<forall>c p. (c, p) \<in> set (patterns s) \<longleftrightarrow> p \<in> set (sub_patterns (subs s c))) \<and>
     (\<forall>c. finite (sub_channels (subs s c)) \<and> distinct (sub_patterns (subs s c))) \<and> (\<forall>(c, p) \<in> set (patterns s). parse_pattern p \<noteq> None)"

definition flags_ok :: "pubsub \<Rightarrow> bool" where
  "flags_ok s \<longleftrightarrow> (\<forall>c. clientSubscriptionsCount c s \<noteq> 0 \<longrightarrow> sub_flag (subs s c))"

definition ps_ok :: "pubsub \<Rightarrow> bool" where
  "ps_ok s \<longleftrightarrow> views_ok s \<and> flags_ok s"

lemma push_simps [simp]:
  "channels (push c r s) = channels s" "patterns (push c r s) = patterns s" "subs (push c r s) = subs s"
  "ps_cluster (push c r s) = ps_cluster s" "effects (push c r s) = effects s" "out (push c r s) = out s @ [(c, r)]"
  by (simp_all add: push_def)

lemma update_sub_simps [simp]:
  "channels (update_sub c f s) = channels s" "patterns (update_sub c f s) = patterns s"
  "subs (update_sub c f s) = (subs s)(c := f (subs s c))" "ps_cluster (update_sub c f s) = ps_cluster s"
  "effects (update_sub c f s) = effects s" "out (update_sub c f s) = out s"
  by (simp_all add: update_sub_def)

text \<open>\<open>same_tables\<close>: nothing but the output and the flags differs.\<close>

definition same_tables :: "pubsub \<Rightarrow> pubsub \<Rightarrow> bool" where
  "same_tables s s' \<longleftrightarrow> channels s' = channels s \<and> patterns s' = patterns s \<and>
     (\<forall>c. sub_channels (subs s' c) = sub_channels (subs s c) \<and> sub_patterns (subs s' c) = sub_patterns (subs s c))"

lemma views_ok_same: "same_tables s s' \<Longrightarrow> views_ok s \<Longrightarrow> views_ok s'"
  by (simp add: same_tables_def views_ok_def subscribers_def)

lemma same_push [simp]: "same_tables s (push c r s)" "same_tables s (set_flag c b s)" "same_tables s s"
  by (simp_all add: same_tables_def set_flag_def)

lemma views_ok_push [simp]: "views_ok s \<Longrightarrow> views_ok (push c r s)"
  by (rule views_ok_same [OF same_push(1)])

text \<open>Each of the four changes keeps the views in agreement.\<close>

lemma subscribe_views:
  assumes "views_ok s" "ch \<noteq> []"
  shows "views_ok (fst (pubsubSubscribeChannel c ch s))"
proof (cases "ch \<in> sub_channels (subs s c)")
  case False
  let ?s = "(update_sub c (\<lambda>u. u\<lparr>sub_channels := insert ch (sub_channels u)\<rparr>) s)\<lparr>channels := (channels s)(ch \<mapsto> subscribers s ch @ [c])\<rparr>"
  have "subscribers ?s x = (if x = ch then subscribers s ch @ [c] else subscribers s x)" for x
    by (simp add: subscribers_def)
  then have "views_ok ?s" using assms False unfolding views_ok_def by auto
  then show ?thesis using False
    by (simp add: pubsubSubscribeChannel_def Let_def subscribers_def cong: option.case_cong)
qed (use assms in \<open>simp add: pubsubSubscribeChannel_def\<close>)

lemma unsubscribe_views:
  assumes "views_ok s"
  shows "\<exists>s' r. pubsubUnsubscribeChannel c ch notify s = Some (s', r) \<and> views_ok s' \<and>
    sub_channels (subs s' c) = sub_channels (subs s c) - {ch} \<and> sub_patterns (subs s' c) = sub_patterns (subs s c) \<and>
    sub_flag (subs s' c) = sub_flag (subs s c) \<and> (\<forall>d. d \<noteq> c \<longrightarrow> subs s' d = subs s d) \<and> ps_cluster s' = ps_cluster s"
proof (cases "ch \<in> sub_channels (subs s c)")
  case True
  then have "c \<in> set (subscribers s ch)" using assms by (simp add: views_ok_def)
  then obtain cl where cl: "channels s ch = Some cl" "c \<in> set cl" by (cases "channels s ch") (auto simp: subscribers_def)
  let ?s = "(update_sub c (\<lambda>u. u\<lparr>sub_channels := sub_channels u - {ch}\<rparr>) s)
    \<lparr>channels := (channels s)(ch := if remove1 c cl = [] then None else Some (remove1 c cl))\<rparr>"
  have sub: "subscribers ?s x = (if x = ch then remove1 c cl else subscribers s x)" for x
    by (simp add: subscribers_def)
  have old: "subscribers s ch = cl" by (simp add: subscribers_def cl)
  have mem: "x \<in> set cl \<longleftrightarrow> ch \<in> sub_channels (subs s x)" for x using assms old by (auto simp: views_ok_def)
  have d: "distinct cl" "set (remove1 c cl) = set cl - {c}" using assms old by (auto simp: views_ok_def)
  have last: "x = c" if "remove1 c cl = []" "ch \<in> sub_channels (subs s x)" for x
    using d(2) mem that by (metis Diff_iff empty_iff empty_set insertE insertCI)
  have "views_ok ?s" unfolding views_ok_def sub using assms cl(1) d mem last unfolding views_ok_def by auto
  then show ?thesis using True cl by (auto simp: pubsubUnsubscribeChannel_def Let_def)
qed (use assms in \<open>auto simp: pubsubUnsubscribeChannel_def\<close>)

lemma psubscribe_views:
  assumes "views_ok s" "parse_pattern p \<noteq> None"
  shows "views_ok (fst (pubsubSubscribePattern c p s))"
  using assms by (auto simp: pubsubSubscribePattern_def Let_def views_ok_def subscribers_def)

lemma punsubscribe_views:
  assumes "views_ok s"
  shows "\<exists>s' r. pubsubUnsubscribePattern c p notify s = Some (s', r) \<and> views_ok s' \<and>
    sub_channels (subs s' c) = sub_channels (subs s c) \<and> sub_patterns (subs s' c) = remove1 p (sub_patterns (subs s c)) \<and>
    sub_flag (subs s' c) = sub_flag (subs s c) \<and> (\<forall>d. d \<noteq> c \<longrightarrow> subs s' d = subs s d) \<and> ps_cluster s' = ps_cluster s"
proof (cases "p \<in> set (sub_patterns (subs s c))")
  case True
  then have in_all: "(c, p) \<in> set (patterns s)" using assms by (simp add: views_ok_def)
  let ?s = "(update_sub c (\<lambda>u. u\<lparr>sub_patterns := remove1 p (sub_patterns u)\<rparr>) s)\<lparr>patterns := remove1 (c, p) (patterns s)\<rparr>"
  have "distinct (patterns s)" "distinct (sub_patterns (subs s c))" using assms by (simp_all add: views_ok_def)
  then have "views_ok ?s" using assms unfolding views_ok_def subscribers_def by auto
  then show ?thesis using True in_all by (auto simp: pubsubUnsubscribePattern_def Let_def)
qed (use assms in \<open>auto simp: pubsubUnsubscribePattern_def remove1_idem\<close>)

text \<open>The loops: \<open>shrinks c s s'\<close> says that only client \<open>c\<close> has changed, and has lost subscriptions.\<close>

definition shrinks :: "ps_client \<Rightarrow> pubsub \<Rightarrow> pubsub \<Rightarrow> bool" where
  "shrinks c s s' \<longleftrightarrow> sub_channels (subs s' c) \<subseteq> sub_channels (subs s c) \<and> set (sub_patterns (subs s' c)) \<subseteq> set (sub_patterns (subs s c)) \<and>
     sub_flag (subs s' c) = sub_flag (subs s c) \<and> (\<forall>d. d \<noteq> c \<longrightarrow> subs s' d = subs s d)"

lemma shrinks_refl: "shrinks c s s"
  by (simp add: shrinks_def)

lemma shrinks_trans: "shrinks c s s1 \<Longrightarrow> shrinks c s1 s2 \<Longrightarrow> shrinks c s s2"
  unfolding shrinks_def by (metis (no_types, lifting) subset_trans)

lemma unsubscribe_channels_ok:
  assumes "views_ok s"
  shows "\<exists>s' n. unsubscribe_each (\<lambda>ch. pubsubUnsubscribeChannel c ch notify) chs count s = Some (s', n) \<and> views_ok s' \<and> shrinks c s s' \<and>
    sub_channels (subs s' c) = sub_channels (subs s c) - set chs \<and> sub_patterns (subs s' c) = sub_patterns (subs s c)"
  using assms
proof (induction chs arbitrary: count s)
  case (Cons ch chs)
  obtain s1 r where s1: "pubsubUnsubscribeChannel c ch notify s = Some (s1, r)" "views_ok s1" "shrinks c s s1"
    "sub_channels (subs s1 c) = sub_channels (subs s c) - {ch}" "sub_patterns (subs s1 c) = sub_patterns (subs s c)"
    using unsubscribe_views [OF Cons.prems, of c ch notify] unfolding shrinks_def by auto
  obtain s' n where s': "unsubscribe_each (\<lambda>ch. pubsubUnsubscribeChannel c ch notify) chs (if r then count + 1 else count) s1 = Some (s', n)"
    "views_ok s'" "shrinks c s1 s'" "sub_channels (subs s' c) = sub_channels (subs s1 c) - set chs" "sub_patterns (subs s' c) = sub_patterns (subs s1 c)"
    using Cons.IH [OF s1(2)] by blast
  show ?case using s1 s' shrinks_trans [OF s1(3) s'(3)] by auto
qed (auto simp: shrinks_refl)

lemma unsubscribe_patterns_ok:
  assumes "views_ok s"
  shows "\<exists>s' n. unsubscribe_each (\<lambda>p. pubsubUnsubscribePattern c p notify) ps count s = Some (s', n) \<and> views_ok s' \<and> shrinks c s s' \<and>
    set (sub_patterns (subs s' c)) = set (sub_patterns (subs s c)) - set ps \<and> sub_channels (subs s' c) = sub_channels (subs s c)"
  using assms
proof (induction ps arbitrary: count s)
  case (Cons p ps)
  have "distinct (sub_patterns (subs s c))" using Cons.prems by (simp add: views_ok_def)
  then obtain s1 r where s1: "pubsubUnsubscribePattern c p notify s = Some (s1, r)" "views_ok s1" "shrinks c s s1"
    "set (sub_patterns (subs s1 c)) = set (sub_patterns (subs s c)) - {p}" "sub_channels (subs s1 c) = sub_channels (subs s c)"
    using punsubscribe_views [OF Cons.prems, of c p notify] unfolding shrinks_def by auto
  obtain s' n where s': "unsubscribe_each (\<lambda>p. pubsubUnsubscribePattern c p notify) ps (if r then count + 1 else count) s1 = Some (s', n)"
    "views_ok s'" "shrinks c s1 s'" "set (sub_patterns (subs s' c)) = set (sub_patterns (subs s1 c)) - set ps" "sub_channels (subs s' c) = sub_channels (subs s1 c)"
    using Cons.IH [OF s1(2)] by blast
  show ?case using s1 s' shrinks_trans [OF s1(3) s'(3)] by auto
qed (auto simp: shrinks_refl)

definition enum_ok :: "(str set \<Rightarrow> str list) \<Rightarrow> bool" where
  "enum_ok enum \<longleftrightarrow> (\<forall>A. finite A \<longrightarrow> set (enum A) = A \<and> distinct (enum A))"

lemma same_shrinks: "shrinks c s (push c r s)"
  by (simp add: shrinks_def)

lemma unsubscribe_all_channels_ok:
  assumes "views_ok s" "enum_ok enum"
  shows "\<exists>s' n. pubsubUnsubscribeAllChannels enum c notify s = Some (s', n) \<and> views_ok s' \<and> shrinks c s s' \<and> sub_channels (subs s' c) = {}"
proof -
  let ?chs = "enum (sub_channels (subs s c))"
  have "set ?chs = sub_channels (subs s c)" using assms by (auto simp: views_ok_def enum_ok_def)
  then obtain s1 n where s1: "unsubscribe_each (\<lambda>ch. pubsubUnsubscribeChannel c ch notify) ?chs 0 s = Some (s1, n)" "views_ok s1" "shrinks c s s1"
    "sub_channels (subs s1 c) = {}"
    using unsubscribe_channels_ok [OF assms(1), of c notify ?chs 0] by auto
  then show ?thesis using shrinks_trans [OF s1(3) same_shrinks] by (auto simp: pubsubUnsubscribeAllChannels_def)
qed

lemma unsubscribe_all_patterns_ok:
  assumes "views_ok s"
  shows "\<exists>s' n. pubsubUnsubscribeAllPatterns c notify s = Some (s', n) \<and> views_ok s' \<and> shrinks c s s' \<and> sub_patterns (subs s' c) = [] \<and>
    sub_channels (subs s' c) = sub_channels (subs s c)"
proof -
  let ?ps = "sub_patterns (subs s c)"
  obtain s1 n where s1: "unsubscribe_each (\<lambda>p. pubsubUnsubscribePattern c p notify) ?ps 0 s = Some (s1, n)" "views_ok s1" "shrinks c s s1"
    "sub_patterns (subs s1 c) = []" "sub_channels (subs s1 c) = sub_channels (subs s c)"
    using unsubscribe_patterns_ok [OF assms(1), of c notify ?ps 0] by auto
  then show ?thesis using shrinks_trans [OF s1(3) same_shrinks] by (auto simp: pubsubUnsubscribeAllPatterns_def)
qed

section \<open>Commands keep the invariant\<close>

lemma count_zero: "views_ok s \<Longrightarrow> clientSubscriptionsCount c s = 0 \<longleftrightarrow> sub_channels (subs s c) = {} \<and> sub_patterns (subs s c) = []"
  by (auto simp: clientSubscriptionsCount_def views_ok_def)

lemma ps_ok_shrinks:
  assumes "ps_ok s" "views_ok s'" "shrinks c s s'"
  shows "ps_ok s'"
  unfolding ps_ok_def flags_ok_def
proof (intro conjI allI impI assms(2))
  fix d assume d: "clientSubscriptionsCount d s' \<noteq> 0"
  show "sub_flag (subs s' d)"
  proof (cases "d = c")
    case True
    have "clientSubscriptionsCount c s \<noteq> 0"
      using d True assms count_zero [of s] count_zero [of s'] unfolding ps_ok_def shrinks_def by auto
    then show ?thesis using assms True unfolding ps_ok_def flags_ok_def shrinks_def by simp
  next
    case False
    then have "clientSubscriptionsCount d s \<noteq> 0" using d assms(3) by (simp add: shrinks_def clientSubscriptionsCount_def)
    then show ?thesis using assms(1,3) False unfolding ps_ok_def flags_ok_def shrinks_def by simp
  qed
qed

lemma ps_ok_clear: "ps_ok s \<Longrightarrow> clientSubscriptionsCount c s = 0 \<Longrightarrow> ps_ok (set_flag c False s)"
  using views_ok_same [OF same_push(2)] by (auto simp: ps_ok_def flags_ok_def set_flag_def clientSubscriptionsCount_def)

lemma ps_ok_set:
  assumes "ps_ok s" "views_ok s'" "\<forall>d. d \<noteq> c \<longrightarrow> subs s' d = subs s d"
  shows "ps_ok (set_flag c True s')"
  using assms views_ok_same [OF same_push(2)]
  by (auto simp: ps_ok_def flags_ok_def set_flag_def clientSubscriptionsCount_def)

lemma subscribe_all_views:
  assumes "views_ok s" "list_all (\<lambda>ch. ch \<noteq> []) chs"
  shows "views_ok (fold (\<lambda>ch s. fst (pubsubSubscribeChannel c ch s)) chs s) \<and>
    (\<forall>d. d \<noteq> c \<longrightarrow> subs (fold (\<lambda>ch s. fst (pubsubSubscribeChannel c ch s)) chs s) d = subs s d)"
  using assms
proof (induction chs arbitrary: s)
  case (Cons ch chs)
  have "subs (fst (pubsubSubscribeChannel c ch s)) d = subs s d" if "d \<noteq> c" for d
    using that by (simp add: pubsubSubscribeChannel_def Let_def)
  then show ?case using Cons.IH [OF subscribe_views] Cons.prems by simp
qed simp

lemma psubscribe_all_views:
  assumes "views_ok s" "list_all (\<lambda>p. parse_pattern p \<noteq> None) ps"
  shows "views_ok (fold (\<lambda>p s. fst (pubsubSubscribePattern c p s)) ps s) \<and>
    (\<forall>d. d \<noteq> c \<longrightarrow> subs (fold (\<lambda>p s. fst (pubsubSubscribePattern c p s)) ps s) d = subs s d)"
  using assms
proof (induction ps arbitrary: s)
  case (Cons p ps)
  have "subs (fst (pubsubSubscribePattern c p s)) d = subs s d" if "d \<noteq> c" for d
    using that by (simp add: pubsubSubscribePattern_def Let_def)
  then show ?case using Cons.IH [OF psubscribe_views] Cons.prems by simp
qed simp

lemma finish_unsubscribe:
  assumes "ps_ok s" "views_ok s'" "shrinks c s s'"
  shows "ps_ok (if clientSubscriptionsCount c s' = 0 then set_flag c False s' else s')"
  using ps_ok_shrinks [OF assms] ps_ok_clear by simp

lemma unsubscribeCommand_ok:
  assumes "ps_ok s" "enum_ok enum"
  shows "\<exists>s'. unsubscribeCommand enum c argv s = Some s' \<and> ps_ok s'"
proof -
  have "\<exists>s' n. (if length argv = 1 then pubsubUnsubscribeAllChannels enum c True s
      else unsubscribe_each (\<lambda>ch. pubsubUnsubscribeChannel c ch True) (tl argv) 0 s) = Some (s', n) \<and> views_ok s' \<and> shrinks c s s'"
    using unsubscribe_all_channels_ok [of s enum c True] unsubscribe_channels_ok [of s c True "tl argv" 0] assms unfolding ps_ok_def by auto
  then show ?thesis using finish_unsubscribe [OF assms(1)] unfolding unsubscribeCommand_def by fastforce
qed

lemma punsubscribeCommand_ok:
  assumes "ps_ok s"
  shows "\<exists>s'. punsubscribeCommand c argv s = Some s' \<and> ps_ok s'"
proof -
  have "\<exists>s' n. (if length argv = 1 then pubsubUnsubscribeAllPatterns c True s
      else unsubscribe_each (\<lambda>p. pubsubUnsubscribePattern c p True) (tl argv) 0 s) = Some (s', n) \<and> views_ok s' \<and> shrinks c s s'"
    using unsubscribe_all_patterns_ok [of s c True] unsubscribe_patterns_ok [of s c True "tl argv" 0] assms unfolding ps_ok_def by auto
  then show ?thesis using finish_unsubscribe [OF assms(1)] unfolding punsubscribeCommand_def by fastforce
qed

lemma free_subscriptions_ok:
  assumes "ps_ok s" "enum_ok enum"
  shows "\<exists>s'. free_subscriptions enum c s = Some s' \<and> ps_ok s' \<and> sub_channels (subs s' c) = {} \<and> sub_patterns (subs s' c) = []"
proof -
  obtain s1 n1 where s1: "pubsubUnsubscribeAllChannels enum c False s = Some (s1, n1)" "views_ok s1" "shrinks c s s1" "sub_channels (subs s1 c) = {}"
    using unsubscribe_all_channels_ok assms unfolding ps_ok_def by blast
  obtain s2 n2 where s2: "pubsubUnsubscribeAllPatterns c False s1 = Some (s2, n2)" "views_ok s2" "shrinks c s1 s2" "sub_patterns (subs s2 c) = []"
    "sub_channels (subs s2 c) = sub_channels (subs s1 c)"
    using unsubscribe_all_patterns_ok [OF s1(2)] by blast
  then show ?thesis using s1 ps_ok_shrinks [OF assms(1) s2(2) shrinks_trans [OF s1(3) s2(3)]] by (simp add: free_subscriptions_def)
qed

section \<open>Delivery\<close>

definition glob_matches :: "str \<Rightarrow> str \<Rightarrow> bool" where
  "glob_matches p ch = (case parse_pattern p of None \<Rightarrow> False | Some ts \<Rightarrow> matches False ts ch)"

lemma publish_patterns_ok:
  assumes "\<forall>(c, p) \<in> set pats. parse_pattern p \<noteq> None" "ch \<noteq> []"
  shows "publish_patterns pats ch msg n s =
    (let ms = map (\<lambda>(c, p). (c, PMessage p ch msg)) (filter (\<lambda>(c, p). glob_matches p ch) pats) in Some (s\<lparr>out := out s @ ms\<rparr>, n + length ms))"
  using assms
proof (induction pats arbitrary: n s)
  case (Cons x pats)
  obtain c p where x: "x = (c, p)" by force
  obtain ts where ts: "parse_pattern p = Some ts" using Cons.prems x by auto
  have "stringmatchlen p ch False = Some (glob_matches p ch)" using stringmatchlen_parse [OF ts] Cons.prems(2) ts by (simp add: glob_matches_def)
  then show ?case using Cons.IH Cons.prems by (simp add: x push_def Let_def)
qed simp

lemma fold_push: "fold (\<lambda>c. push c r) cl s = s\<lparr>out := out s @ map (\<lambda>c. (c, r)) cl\<rparr>"
  by (induction cl arbitrary: s) (simp_all add: push_def)

text \<open>The messages that a publication sends, in their order.\<close>

definition deliveries :: "pubsub \<Rightarrow> str \<Rightarrow> str \<Rightarrow> (ps_client \<times> push_msg) list" where
  "deliveries s ch msg = map (\<lambda>c. (c, Message ch msg)) (subscribers s ch) @
     map (\<lambda>(c, p). (c, PMessage p ch msg)) (filter (\<lambda>(c, p). glob_matches p ch) (patterns s))"

lemma publish_message_ok:
  assumes "views_ok s" "ch \<noteq> []"
  shows "pubsubPublishMessage ch msg s = Some (s\<lparr>out := out s @ deliveries s ch msg\<rparr>, length (deliveries s ch msg))"
  using assms publish_patterns_ok [of "patterns s" ch msg]
  by (auto simp: pubsubPublishMessage_def deliveries_def subscribers_def fold_push views_ok_def Let_def split: option.splits)

lemma deliveries_distinct: "views_ok s \<Longrightarrow> distinct (deliveries s ch msg)"
  by (auto simp: deliveries_def views_ok_def distinct_map inj_on_def)

lemma set_deliveries:
  "views_ok s \<Longrightarrow> set (deliveries s ch msg) = {(d, Message ch msg) | d. ch \<in> sub_channels (subs s d)} \<union>
     {(d, PMessage p ch msg) | d p. p \<in> set (sub_patterns (subs s d)) \<and> glob_matches p ch}"
  by (auto simp: deliveries_def views_ok_def)

lemma ps_ok_tables:
  assumes "ps_ok s" "same_tables s s'" "subs s' = subs s"
  shows "ps_ok s'"
  using assms views_ok_same [OF assms(2)] by (simp add: ps_ok_def flags_ok_def clientSubscriptionsCount_def)

lemma publishCommand_eq:
  assumes "ps_ok s" "argv ! 1 \<noteq> []"
  shows "\<exists>s'. publishCommand c argv s = Some s' \<and> ps_ok s' \<and>
    out s' = out s @ deliveries s (argv ! 1) (argv ! 2) @ [(c, Number (length (deliveries s (argv ! 1) (argv ! 2))))]"
proof -
  let ?ms = "deliveries s (argv ! 1) (argv ! 2)"
  obtain s' where s': "publishCommand c argv s = Some s'" "subs s' = subs s" "channels s' = channels s" "patterns s' = patterns s"
    "out s' = out s @ ?ms @ [(c, Number (length ?ms))]"
    using publish_message_ok [of s "argv ! 1" "argv ! 2"] assms unfolding ps_ok_def publishCommand_def by auto
  then show ?thesis using ps_ok_tables [OF assms(1), of s'] by (auto simp: same_tables_def)
qed

lemma select_channels_ok:
  assumes "case pat of None \<Rightarrow> True | Some p \<Rightarrow> parse_pattern p \<noteq> None" "[] \<notin> set chs"
  shows "select_channels pat chs = Some (filter (\<lambda>ch. case pat of None \<Rightarrow> True | Some p \<Rightarrow> glob_matches p ch) chs)"
  using assms
proof (induction chs)
  case (Cons ch chs)
  show ?case
  proof (cases pat)
    case (Some p)
    then obtain ts where ts: "parse_pattern p = Some ts" using Cons.prems by auto
    have "stringmatchlen p ch False = Some (glob_matches p ch)"
      using stringmatchlen_parse [OF ts, of ch False] Cons.prems(2) ts by (auto simp: glob_matches_def)
    then show ?thesis using Some Cons by simp
  qed (use Cons in simp)
qed simp

lemma pubsubCommand_ok:
  assumes "ps_ok s" "enum_ok enum" "length argv = 3 \<longrightarrow> parse_pattern (argv ! 2) \<noteq> None"
  shows "\<exists>s'. pubsubCommand enum c argv s = Some s' \<and> ps_ok s'"
proof -
  have "[] \<notin> set (enum (dom (channels s)))" using assms(1,2) by (auto simp: ps_ok_def views_ok_def enum_ok_def)
  then have "\<exists>chs. select_channels (if length argv = 2 then None else Some (argv ! 2)) (enum (dom (channels s))) = Some chs"
    if "length argv = 2 \<or> length argv = 3"
    using select_channels_ok [of "if length argv = 2 then None else Some (argv ! 2)"] that assms(3) by auto
  moreover have "ps_ok (push c r s)" for r by (rule ps_ok_tables [OF assms(1)]) simp_all
  ultimately show ?thesis by (auto simp: pubsubCommand_def)
qed

section \<open>Runs of commands\<close>

datatype ps_cmd = Subscribe "str list" | Unsubscribe "str list" | Psubscribe "str list" | Punsubscribe "str list"
  | Publish "str list" | PubsubInfo "str list" | Disconnect

fun ps_exec :: "(str set \<Rightarrow> str list) \<Rightarrow> ps_client \<Rightarrow> ps_cmd \<Rightarrow> pubsub \<Rightarrow> pubsub option" where
  "ps_exec enum c (Subscribe argv) s = Some (subscribeCommand c argv s)"
| "ps_exec enum c (Unsubscribe argv) s = unsubscribeCommand enum c argv s"
| "ps_exec enum c (Psubscribe argv) s = Some (psubscribeCommand c argv s)"
| "ps_exec enum c (Punsubscribe argv) s = punsubscribeCommand c argv s"
| "ps_exec enum c (Publish argv) s = publishCommand c argv s"
| "ps_exec enum c (PubsubInfo argv) s = pubsubCommand enum c argv s"
| "ps_exec enum c Disconnect s = free_subscriptions enum c s"

fun ps_run :: "(str set \<Rightarrow> str list) \<Rightarrow> (ps_client \<times> ps_cmd) list \<Rightarrow> pubsub \<Rightarrow> pubsub option" where
  "ps_run enum [] s = Some s"
| "ps_run enum ((c, cmd) # cmds) s = do { s \<leftarrow> ps_exec enum c cmd s; ps_run enum cmds s }"

text \<open>The commands that keep within the names for which matching is defined.\<close>

fun names_ok :: "ps_cmd \<Rightarrow> bool" where
  "names_ok (Subscribe argv) = list_all (\<lambda>ch. ch \<noteq> []) (tl argv)"
| "names_ok (Psubscribe argv) = list_all (\<lambda>p. parse_pattern p \<noteq> None) (tl argv)"
| "names_ok (Publish argv) = (argv ! 1 \<noteq> [])"
| "names_ok (PubsubInfo argv) = (length argv = 3 \<longrightarrow> parse_pattern (argv ! 2) \<noteq> None)"
| "names_ok _ = True"

lemma ps_exec_ok:
  assumes "ps_ok s" "enum_ok enum" "names_ok cmd"
  shows "\<exists>s'. ps_exec enum c cmd s = Some s' \<and> ps_ok s'"
proof (cases cmd)
  case (Subscribe argv)
  then show ?thesis using assms ps_ok_set [OF assms(1)] subscribe_all_views [of s "tl argv" c]
    by (auto simp: subscribeCommand_def ps_ok_def [of s])
next
  case (Psubscribe argv)
  then show ?thesis using assms ps_ok_set [OF assms(1)] psubscribe_all_views [of s "tl argv" c]
    by (auto simp: psubscribeCommand_def ps_ok_def [of s])
next
  case (Publish argv)
  then show ?thesis using publishCommand_eq [OF assms(1), of argv c] assms(3) by auto
next
  case Disconnect
  then show ?thesis using free_subscriptions_ok [OF assms(1,2), of c] by auto
qed (use assms unsubscribeCommand_ok punsubscribeCommand_ok pubsubCommand_ok in auto)

text \<open>
  C12. Whatever sequence of subscriptions, unsubscriptions, publications, queries and disconnections with names in the
  scope of the matcher the clients send, no assertion fails and the two views of the subscriptions stay in agreement: a client
  is in the list of a channel exactly when the channel is in its own table, never twice, no list is left
  empty, and the same holds for patterns. The scope: no channel of SUBSCRIBE or PUBLISH is the empty name, and the patterns of
  PSUBSCRIBE and of PUBSUB with one argument parse, that is, they have no open class that ends in a backslash. For other names
  the matcher may read too far.
\<close>

theorem pubsub_run_safe:
  assumes "ps_ok s" "enum_ok enum" "list_all (\<lambda>(c, cmd). names_ok cmd) cmds"
  shows "\<exists>s'. ps_run enum cmds s = Some s' \<and> ps_ok s'"
  using assms
proof (induction cmds arbitrary: s)
  case (Cons x cmds)
  obtain c cmd where x: "x = (c, cmd)" by force
  obtain s1 where "ps_exec enum c cmd s = Some s1" "ps_ok s1" using ps_exec_ok [OF Cons.prems(1,2), of cmd c] Cons.prems(3) x by auto
  then show ?case using Cons.IH [of s1] Cons.prems x by simp
qed simp

text \<open>Two clients without subscriptions.\<close>

definition no_subscriptions :: pubsub where
  "no_subscriptions = \<lparr>channels = Map.empty, patterns = [], subs = (\<lambda>_. \<lparr>sub_channels = {}, sub_patterns = [], sub_flag = False\<rparr>),
     ps_cluster = False, out = [], effects = []\<rparr>"

lemma no_subscriptions_ok: "ps_ok no_subscriptions"
  by (simp add: ps_ok_def views_ok_def flags_ok_def no_subscriptions_def subscribers_def clientSubscriptionsCount_def)

lemma sorted_enum_ok: "enum_ok sorted_list_of_set"
  by (simp add: enum_ok_def)

text \<open>\<^verbatim>\<open>SUBSCRIBE n\<close>, \<^verbatim>\<open>PSUBSCRIBE n*\<close>, \<^verbatim>\<open>PUBLISH n m\<close>, \<^verbatim>\<open>UNSUBSCRIBE\<close>, and the end of the connection.\<close>

definition sample_commands :: "(ps_client \<times> ps_cmd) list" where
  "sample_commands = [(1, Subscribe [[83], [110]]), (2, Psubscribe [[80], [110, STAR]]), (3, Publish [[80], [110], [109]]), (1, Unsubscribe [[85]]), (2, Disconnect)]"

theorem pubsub_run_safe_witness:
  "\<exists>s'. ps_run sorted_list_of_set sample_commands no_subscriptions = Some s' \<and> ps_ok s'"
proof (rule pubsub_run_safe [OF no_subscriptions_ok sorted_enum_ok])
  have "parse_pattern [110, STAR] = Some [Lit 110, Star]" by code_simp
  then show "list_all (\<lambda>(c, cmd). names_ok cmd) sample_commands" by (simp add: sample_commands_def)
qed

text \<open>
  C13. A message published on a channel whose name is not empty, while all subscribed patterns parse (this is part of
  \<open>ps_ok\<close>), is sent once to every client that subscribes to the channel and once for every
  pattern subscription that matches the name of the channel, to nobody else, and the publisher is told
  how many messages were sent.
\<close>

theorem publish_exact:
  assumes "ps_ok s" "ch \<noteq> []"
  shows "\<exists>s' ms. publishCommand c [cmd, ch, msg] s = Some s' \<and> out s' = out s @ ms @ [(c, Number (length ms))] \<and> distinct ms \<and>
    set ms = {(d, Message ch msg) | d. ch \<in> sub_channels (subs s d)} \<union>
      {(d, PMessage p ch msg) | d p. p \<in> set (sub_patterns (subs s d)) \<and> glob_matches p ch}"
proof -
  have "views_ok s" using assms(1) by (simp add: ps_ok_def)
  then show ?thesis
    using publishCommand_eq [OF assms(1), of "[cmd, ch, msg]" c] assms(2) deliveries_distinct [of s ch msg] set_deliveries [of s ch msg] by auto
qed

text \<open>Client 1 subscribes to the channel \<^verbatim>\<open>n\<close>.\<close>

definition one_subscriber :: pubsub where
  "one_subscriber = subscribeCommand 1 [[83], [110]] no_subscriptions"

lemma one_subscriber_ok: "ps_ok one_subscriber"
  using ps_exec_ok [OF no_subscriptions_ok sorted_enum_ok, of "Subscribe [[83], [110]]" 1] by (simp add: one_subscriber_def)

lemma one_subscriber_subs: "ch \<in> sub_channels (subs one_subscriber d) \<longleftrightarrow> ch = [110] \<and> d = 1" "sub_patterns (subs one_subscriber d) = []"
  by (auto simp: one_subscriber_def subscribeCommand_def no_subscriptions_def pubsubSubscribeChannel_def set_flag_def Let_def)

theorem publish_exact_witness:
  "\<exists>s' ms. publishCommand 3 [[80], [110], [109]] one_subscriber = Some s' \<and>
     out s' = out one_subscriber @ ms @ [(3, Number (length ms))] \<and> set ms = {(1, Message [110] [109])}"
  using publish_exact [OF one_subscriber_ok, of "[110]" 3 "[80]" "[109]"] by (auto simp: one_subscriber_subs)

text \<open>A client that is gone receives nothing.\<close>

lemma disconnected_gets_nothing:
  assumes "ps_ok s" "enum_ok enum" "ch \<noteq> []" "d \<noteq> c"
  shows "\<exists>s1 s2. free_subscriptions enum c s = Some s1 \<and> publishCommand d [cmd, ch, msg] s1 = Some s2 \<and>
    (\<forall>r. (c, r) \<in> set (out s2) \<longrightarrow> (c, r) \<in> set (out s1))"
proof -
  obtain s1 where s1: "free_subscriptions enum c s = Some s1" "ps_ok s1" "sub_channels (subs s1 c) = {}" "sub_patterns (subs s1 c) = []"
    using free_subscriptions_ok [OF assms(1,2)] by blast
  have v: "views_ok s1" using s1(2) by (simp add: ps_ok_def)
  obtain s2 where "publishCommand d [cmd, ch, msg] s1 = Some s2"
    "out s2 = out s1 @ deliveries s1 ch msg @ [(d, Number (length (deliveries s1 ch msg)))]"
    using publishCommand_eq [OF s1(2), of "[cmd, ch, msg]" d] assms(3) by auto
  moreover have "(c, r) \<notin> set (deliveries s1 ch msg)" for r using s1(3,4) unfolding set_deliveries [OF v] by auto
  ultimately show ?thesis using s1(1) assms(4) by auto
qed

end
