(* ===== verification/Lzf.thy ===== *)
theory Lzf
  imports Prelude
begin

text \<open>
  The compression of strings and list nodes (\<^verbatim>\<open>lzf_c.c\<close>, \<^verbatim>\<open>lzf_d.c\<close>). Both functions work on a buffer that the caller
  provides; a read or a write outside a buffer is \<open>None\<close>. The hash table of the compressor is not
  initialised: its contents are a parameter. The theorems show that decompression inverts
  compression whatever the table held, that the compressor stays inside its buffers, and that the
  decompressor does so on every input, also a corrupt one.
\<close>

section \<open>Compression\<close>

abbreviation "MAX_LIT \<equiv> (32 :: nat)"
abbreviation "MAX_OFF \<equiv> (8192 :: uint64)"
abbreviation "MAX_REF \<equiv> (264 :: nat)"

definition FRST :: "byte list \<Rightarrow> nat \<Rightarrow> uint32 option" where
  "FRST xs p = do { a \<leftarrow> mem_get xs p; b \<leftarrow> mem_get xs (p + 1); Some (push_bit 8 (ucast a) OR ucast b) }"

definition NEXT :: "uint32 \<Rightarrow> byte list \<Rightarrow> nat \<Rightarrow> uint32 option" where
  "NEXT v xs p = do { c \<leftarrow> mem_get xs (p + 2); Some (push_bit 8 v OR ucast c) }"

definition IDX :: "uint32 \<Rightarrow> nat" where
  "IDX h = unat ((drop_bit 8 h - h * 5) AND 0xFFFF)"

text \<open>The pointers are indices; the table holds offsets into the input.\<close>

record lzf =
  z_ip :: nat
  z_op :: nat
  z_lit :: nat
  z_hval :: uint32
  z_htab :: "nat \<Rightarrow> uint32"
  z_out :: "byte list"

text \<open>\<^verbatim>\<open>off\<close> is an unsigned long: it is huge when \<^verbatim>\<open>ref\<close> is not before \<^verbatim>\<open>ip\<close>.\<close>

definition ref_off :: "nat \<Rightarrow> uint32 \<Rightarrow> uint64" where
  "ref_off ip ref = of_nat ip - ucast ref - 1"

definition same_at :: "byte list \<Rightarrow> nat \<Rightarrow> nat \<Rightarrow> nat \<Rightarrow> bool option" where
  "same_at xs ref ip k = do { a \<leftarrow> mem_get xs (ref + k); b \<leftarrow> mem_get xs (ip + k); Some (a = b) }"

definition match_found :: "byte list \<Rightarrow> nat \<Rightarrow> uint32 \<Rightarrow> bool option" where
  "match_found xs ip ref =
     (if ref_off ip ref < MAX_OFF \<and> ref > 0 then do {
        e2 \<leftarrow> same_at xs (unat ref) ip 2;
        if \<not> e2 then Some False
        else do { e0 \<leftarrow> same_at xs (unat ref) ip 0; e1 \<leftarrow> same_at xs (unat ref) ip 1; Some (e0 \<and> e1) } }
      else Some False)"

text \<open>The comparisons that are unrolled, and the loop behind them; the flag says that the bytes differed.\<close>

primrec unrolled :: "nat \<Rightarrow> byte list \<Rightarrow> nat \<Rightarrow> nat \<Rightarrow> nat \<Rightarrow> (bool \<times> nat) option" where
  "unrolled 0 xs ref ip len = Some (False, len)"
| "unrolled (Suc n) xs ref ip len = do {
     let len = len + 1;
     e \<leftarrow> same_at xs ref ip len;
     if \<not> e then Some (True, len) else unrolled n xs ref ip len }"

function do_len :: "byte list \<Rightarrow> nat \<Rightarrow> nat \<Rightarrow> nat \<Rightarrow> nat \<Rightarrow> nat option" where
  "do_len xs ref ip maxlen len =
     (let len = len + 1 in
      if len < maxlen then
        (case same_at xs ref ip len of None \<Rightarrow> None | Some e \<Rightarrow> if e then do_len xs ref ip maxlen len else Some len)
      else Some len)"
  by pat_completeness auto
termination
  by (relation "measure (\<lambda>(_, _, _, maxlen, len). maxlen - len)") auto

declare do_len.simps [simp del]

definition match_len :: "byte list \<Rightarrow> nat \<Rightarrow> nat \<Rightarrow> nat option" where
  "match_len xs ref ip =
     (let maxlen = length xs - ip - 2;
          maxlen = (if maxlen > MAX_REF then MAX_REF else maxlen)
      in if maxlen > 16 then do {
           (stop, len) \<leftarrow> unrolled 16 xs ref ip 2;
           if stop then Some len else do_len xs ref ip maxlen len }
         else do_len xs ref ip maxlen 2)"

text \<open>Ending a run of literals: \<^verbatim>\<open>op [- lit - 1] = lit - 1\<close>.\<close>

definition stop_run :: "lzf \<Rightarrow> lzf option" where
  "stop_run st = do {
     out \<leftarrow> (if z_op st \<ge> z_lit st + 1 then mem_set (z_out st) (z_op st - z_lit st - 1) (of_nat (z_lit st) - 1) else None);
     Some (st\<lparr>z_out := out\<rparr>) }"

text \<open>\<^verbatim>\<open>*op++ = b\<close>\<close>

definition put :: "byte \<Rightarrow> lzf \<Rightarrow> lzf option" where
  "put b st = do { out \<leftarrow> mem_set (z_out st) (z_op st) b; Some (st\<lparr>z_out := out, z_op := z_op st + 1\<rparr>) }"

definition start_run :: "lzf \<Rightarrow> lzf" where
  "start_run st = st\<lparr>z_lit := 0, z_op := z_op st + 1\<rparr>"

text \<open>One literal byte: \<^verbatim>\<open>lit++; *op++ = *ip++\<close>, and the end of a full run.\<close>

definition copy_literal :: "byte list \<Rightarrow> lzf \<Rightarrow> lzf option" where
  "copy_literal xs st = do {
     b \<leftarrow> mem_get xs (z_ip st);
     st \<leftarrow> put b (st\<lparr>z_lit := z_lit st + 1, z_ip := z_ip st + 1\<rparr>);
     if z_lit st = MAX_LIT then do { st \<leftarrow> stop_run st; Some (start_run st) } else Some st }"

text \<open>The code of a back reference of \<open>len\<close> octets.\<close>

definition put_ref :: "uint64 \<Rightarrow> nat \<Rightarrow> lzf \<Rightarrow> lzf option" where
  "put_ref off len st =
     (let len = len - 2 in do {
        st \<leftarrow> (if len < 7 then put (ucast (drop_bit 8 off + push_bit 5 (of_nat len))) st
               else do { st \<leftarrow> put (ucast (drop_bit 8 off + push_bit 5 7)) st; put (of_nat (len - 7)) st });
        put (ucast off) st })"

text \<open>\<^verbatim>\<open>--ip; --ip\<close> and the two entries of the table for the end of the match.\<close>

definition rehash :: "byte list \<Rightarrow> lzf \<Rightarrow> lzf option" where
  "rehash xs st = do {
     p \<leftarrow> (if z_ip st \<ge> 2 then Some (z_ip st - 2) else None);
     h \<leftarrow> FRST xs p;
     h \<leftarrow> NEXT h xs p;
     let tab = (z_htab st)(IDX h := of_nat p);
     h \<leftarrow> NEXT h xs (p + 1);
     let tab = tab(IDX h := of_nat (p + 1));
     Some (st\<lparr>z_hval := h, z_htab := tab, z_ip := p + 2\<rparr>) }"

text \<open>A match at \<open>ref\<close>: \<open>None\<close> inside is \<^verbatim>\<open>return 0\<close>, the flag is the \<^verbatim>\<open>break\<close> out of the loop.\<close>

definition emit_match :: "byte list \<Rightarrow> nat \<Rightarrow> uint64 \<Rightarrow> lzf \<Rightarrow> (lzf \<times> bool) option option" where
  "emit_match xs ref off st =
     (let undo = (if z_lit st = 0 then 1 else 0) in
      if z_op st + 3 + 1 \<ge> length (z_out st) \<and> z_op st - undo + 3 + 1 \<ge> length (z_out st) then Some None
      else do {
        st \<leftarrow> stop_run st;
        let st = st\<lparr>z_op := z_op st - undo\<rparr>;
        len \<leftarrow> match_len xs ref (z_ip st);
        st \<leftarrow> put_ref off len st;
        let st = start_run st;
        let st = st\<lparr>z_ip := z_ip st + len\<rparr>;
        if z_ip st + 2 \<ge> length xs then Some (Some (st, True))
        else do { st \<leftarrow> rehash xs st; Some (Some (st, False)) } })"

definition comp_step :: "byte list \<Rightarrow> lzf \<Rightarrow> (lzf \<times> bool) option option" where
  "comp_step xs st = do {
     h \<leftarrow> NEXT (z_hval st) xs (z_ip st);
     let ref = z_htab st (IDX h);
     let st = st\<lparr>z_hval := h, z_htab := (z_htab st)(IDX h := of_nat (z_ip st))\<rparr>;
     found \<leftarrow> match_found xs (z_ip st) ref;
     if found then emit_match xs (unat ref) (ref_off (z_ip st) ref) st
     else if z_op st \<ge> length (z_out st) then Some None
     else do { st \<leftarrow> copy_literal xs st; Some (Some (st, False)) } }"

text \<open>Every step takes input, so the loop ends.\<close>

lemma put_ip: "put b st = Some st' \<Longrightarrow> z_ip st' = z_ip st"
  by (auto simp: put_def split: Option.bind_splits)

lemma stop_run_ip: "stop_run st = Some st' \<Longrightarrow> z_ip st' = z_ip st"
  by (auto simp: stop_run_def split: Option.bind_splits if_splits)

lemma put_ref_ip: "put_ref off len st = Some st' \<Longrightarrow> z_ip st' = z_ip st"
  by (auto simp: put_ref_def Let_def put_ip split: Option.bind_splits if_splits dest!: put_ip)

lemma rehash_ip: "rehash xs st = Some st' \<Longrightarrow> z_ip st' = z_ip st"
  by (auto simp: rehash_def Let_def split: Option.bind_splits if_splits)

lemma do_len_progress: "do_len xs ref ip maxlen len = Some n \<Longrightarrow> len < n"
proof (induction xs ref ip maxlen len arbitrary: n rule: do_len.induct)
  case (1 xs ref ip maxlen len)
  show ?case using 1(2) 1(1) [OF refl] unfolding do_len.simps [of xs ref ip maxlen len]
    by (fastforce simp: Let_def split: if_splits option.splits)
qed

lemma unrolled_progress: "unrolled n xs ref ip len = Some (b, m) \<Longrightarrow> len \<le> m"
  by (induction n arbitrary: len) (fastforce simp: Let_def split: Option.bind_splits if_splits)+

lemma match_len_progress: "match_len xs ref ip = Some len \<Longrightarrow> 0 < len"
  by (auto simp: match_len_def Let_def split: Option.bind_splits if_splits dest!: do_len_progress unrolled_progress)

lemma comp_step_progress:
  assumes "comp_step xs st = Some (Some (st', b))"
  shows "z_ip st < z_ip st'"
  using assms
  by (auto simp: comp_step_def emit_match_def copy_literal_def start_run_def Let_def split: Option.bind_splits if_splits
      dest!: put_ip stop_run_ip put_ref_ip rehash_ip match_len_progress)

text \<open>\<open>None\<close> inside is \<^verbatim>\<open>return 0\<close>.\<close>

function comp_loop :: "byte list \<Rightarrow> lzf \<Rightarrow> lzf option option" where
  "comp_loop xs st =
     (if z_ip st + 2 < length xs then
        (case comp_step xs st of None \<Rightarrow> None | Some None \<Rightarrow> Some None
         | Some (Some (st, stop)) \<Rightarrow> if stop then Some (Some st) else comp_loop xs st)
      else Some (Some st))"
  by pat_completeness auto
termination
  by (relation "measure (\<lambda>(xs, st). length xs - z_ip st)") (auto dest!: comp_step_progress [OF sym] comp_step_progress)

declare comp_loop.simps [simp del]

lemma copy_literal_progress: "copy_literal xs st = Some st' \<Longrightarrow> z_ip st' = z_ip st + 1"
  by (auto simp: copy_literal_def start_run_def Let_def split: Option.bind_splits if_splits dest!: put_ip stop_run_ip)

function tail_loop :: "byte list \<Rightarrow> lzf \<Rightarrow> lzf option" where
  "tail_loop xs st =
     (if z_ip st < length xs then (case copy_literal xs st of None \<Rightarrow> None | Some st \<Rightarrow> tail_loop xs st)
      else Some st)"
  by pat_completeness auto
termination
  by (relation "measure (\<lambda>(xs, st). length xs - z_ip st)") (auto dest!: copy_literal_progress)

declare tail_loop.simps [simp del]

text \<open>The result is the length that is returned and the buffer, or \<open>None\<close> inside for \<^verbatim>\<open>return 0\<close>.\<close>

definition lzf_compress :: "(nat \<Rightarrow> uint32) \<Rightarrow> byte list \<Rightarrow> byte list \<Rightarrow> (nat \<times> byte list) option option" where
  "lzf_compress tab xs out =
     (if length xs = 0 \<or> length out = 0 then Some None
      else do {
        h \<leftarrow> FRST xs 0;
        r \<leftarrow> comp_loop xs \<lparr>z_ip = 0, z_op = 1, z_lit = 0, z_hval = h, z_htab = tab, z_out = out\<rparr>;
        case r of None \<Rightarrow> Some None
        | Some st \<Rightarrow>
            if z_op st + 3 > length (z_out st) then Some None
            else do {
              st \<leftarrow> tail_loop xs st;
              st \<leftarrow> stop_run st;
              let st = (if z_lit st = 0 then st\<lparr>z_op := z_op st - 1\<rparr> else st);
              Some (Some (z_op st, z_out st)) } })"

section \<open>Decompression\<close>

text \<open>Octet by octet, from \<open>ref\<close> to \<open>op\<close>; the areas may overlap.\<close>

primrec copy_ref :: "nat \<Rightarrow> nat \<Rightarrow> nat \<Rightarrow> byte list \<Rightarrow> byte list option" where
  "copy_ref 0 ref op out = Some out"
| "copy_ref (Suc n) ref op out = do { b \<leftarrow> mem_get out ref; out \<leftarrow> mem_set out op b; copy_ref n (ref + 1) (op + 1) out }"

text \<open>One round: \<open>None\<close> inside is \<^verbatim>\<open>return 0\<close>, otherwise \<^verbatim>\<open>ip\<close>, \<^verbatim>\<open>op\<close> and the buffer.\<close>

definition lzf_step :: "byte list \<Rightarrow> nat \<Rightarrow> nat \<Rightarrow> byte list \<Rightarrow> (nat \<times> nat \<times> byte list) option option" where
  "lzf_step xs ip op out = do {
     ctrl \<leftarrow> mem_get xs ip;
     let ip = ip + 1;
     if ctrl < 32 then
       (let n = unat ctrl + 1 in
        if op + n > length out \<or> ip + n > length xs then Some None
        else do { bs \<leftarrow> mem_read xs ip n; out \<leftarrow> mem_write out op bs; Some (Some (ip + n, op + n, out)) })
     else
       (let len = unat (drop_bit 5 ctrl); ref = int op - int (unat (ctrl AND 0x1F) * 256) - 1 in
        if ip \<ge> length xs then Some None
        else do {
          r \<leftarrow> (if len = 7 then do {
                   l \<leftarrow> mem_get xs ip;
                   Some (if ip + 1 \<ge> length xs then None else Some (len + unat l, ip + 1)) }
                 else Some (Some (len, ip)));
          case r of None \<Rightarrow> Some None
          | Some (len, ip) \<Rightarrow> do {
              b \<leftarrow> mem_get xs ip;
              let ref = ref - int (unat b);
              let ip = ip + 1;
              if op + len + 2 > length out then Some None
              else if ref < 0 then Some None
              else do { out \<leftarrow> copy_ref (len + 2) (nat ref) op out; Some (Some (ip, op + len + 2, out)) } } }) }"

lemma lzf_step_progress: "lzf_step xs i op out = Some (Some (i', op', out')) \<Longrightarrow> i < i' \<and> i < length xs"
  by (auto simp: lzf_step_def Let_def mem_get_def split: Option.bind_splits if_splits option.splits)

function lzf_loop :: "byte list \<Rightarrow> nat \<Rightarrow> nat \<Rightarrow> byte list \<Rightarrow> (nat \<times> byte list) option option" where
  "lzf_loop xs ip op out =
     (case lzf_step xs ip op out of None \<Rightarrow> None | Some None \<Rightarrow> Some None
      | Some (Some (ip, op, out)) \<Rightarrow> if ip < length xs then lzf_loop xs ip op out else Some (Some (op, out)))"
  by pat_completeness auto
termination
  by (relation "measure (\<lambda>(xs, ip, _). length xs - ip)") (auto dest!: lzf_step_progress [OF sym] lzf_step_progress)

declare lzf_loop.simps [simp del]

definition lzf_decompress :: "byte list \<Rightarrow> byte list \<Rightarrow> (nat \<times> byte list) option option" where
  "lzf_decompress xs out = lzf_loop xs 0 0 out"

section \<open>What compressed data mean\<close>

text \<open>Repeating the bytes from a distance, one after the other.\<close>

primrec extend :: "nat \<Rightarrow> nat \<Rightarrow> byte list \<Rightarrow> byte list" where
  "extend 0 dist ys = ys"
| "extend (Suc n) dist ys = extend n dist (ys @ [ys ! (length ys - dist)])"

definition ref_code :: "uint64 \<Rightarrow> nat \<Rightarrow> byte list" where
  "ref_code off len =
     (if len - 2 < 7 then [ucast (drop_bit 8 off + push_bit 5 (of_nat (len - 2))), ucast off]
      else [ucast (drop_bit 8 off + push_bit 5 7), of_nat (len - 2 - 7), ucast off])"

inductive decodes :: "byte list \<Rightarrow> byte list \<Rightarrow> bool" where
  start: "decodes [] []"
| literals: "decodes cs ys \<Longrightarrow> bs \<noteq> [] \<Longrightarrow> length bs \<le> MAX_LIT \<Longrightarrow> decodes (cs @ (of_nat (length bs) - 1) # bs) (ys @ bs)"
| backref: "decodes cs ys \<Longrightarrow> 3 \<le> len \<Longrightarrow> len \<le> MAX_REF \<Longrightarrow> off < MAX_OFF \<Longrightarrow> unat off < length ys \<Longrightarrow>
    decodes (cs @ ref_code off len) (extend len (unat off + 1) ys)"

lemma length_extend [simp]: "length (extend n dist ys) = length ys + n"
  by (induction n arbitrary: ys) auto

lemma ctrl_code:
  fixes off :: uint64
  assumes off: "off < MAX_OFF" and n: "n < 8"
  defines "c \<equiv> (ucast (drop_bit 8 off + push_bit 5 (of_nat n)) :: byte)"
  shows "unat c = unat off div 256 + 32 * n" "unat (drop_bit 5 c) = n" "unat (c AND 0x1F) = unat off div 256"
proof -
  have o: "unat off < 8192" using off by (simp add: word_less_nat_alt)
  then have d: "unat off div 256 < 32" by (simp add: less_mult_imp_div_less)
  have "unat (drop_bit 8 off + push_bit 5 (of_nat n)) = unat off div 256 + 32 * n"
    using d n by (simp add: unat_word_ariths unat_drop_bit_eq drop_bit_eq_div push_bit_eq_mult unat_of_nat_small)
  then show u: "unat c = unat off div 256 + 32 * n"
    using d n unfolding c_def by (simp add: unsigned_ucast_eq take_bit_eq_mod)
  show "unat (drop_bit 5 c) = n" using d u by (simp add: drop_bit_eq_div unat_div)
  have "c AND 0x1F = take_bit 5 c" by (simp add: take_bit_eq_mask mask_eq_exp_minus_1)
  then show "unat (c AND 0x1F) = unat off div 256" using d u by (simp add: take_bit_eq_mod unat_mod)
qed

lemma copy_ref_extend:
  assumes "length ys + n \<le> length out" "take (length ys) out = ys" "0 < dist" "dist \<le> length ys"
  shows "\<exists>out'. copy_ref n (length ys - dist) (length ys) out = Some out' \<and> length out' = length out \<and>
    take (length ys + n) out' = extend n dist ys"
  using assms
proof (induction n arbitrary: ys out)
  case (Suc n)
  let ?b = "ys ! (length ys - dist)"
  have "out ! (length ys - dist) = ?b" using Suc.prems by (metis diff_less nth_take order_less_le_trans)
  moreover have "take (length (ys @ [?b])) (out[length ys := ?b]) = ys @ [?b]"
    using Suc.prems by (simp add: take_Suc_conv_app_nth)
  ultimately show ?case using Suc.IH [of "ys @ [?b]" "out[length ys := ?b]"] Suc.prems
    by (auto simp: mem_get_def mem_set_def Suc_diff_le)
qed auto

text \<open>The decompressor reads one code, behind \<open>cs\<close> and with \<open>ys\<close> written.\<close>

lemma dec_literals:
  assumes "bs \<noteq> []" "length bs \<le> MAX_LIT" "length ys + length bs \<le> length out" "take (length ys) out = ys"
  shows "\<exists>out'. lzf_step (cs @ ((of_nat (length bs) - 1) # bs) @ rest) (length cs) (length ys) out =
      Some (Some (length cs + 1 + length bs, length ys + length bs, out')) \<and>
    length out' = length out \<and> take (length ys + length bs) out' = ys @ bs"
proof -
  have "length bs < 2 ^ LENGTH(8)" using assms(2) by simp
  then have "unat (of_nat (length bs) :: byte) = length bs" by (rule unat_of_nat_small)
  then have u: "unat (of_nat (length bs) - 1 :: byte) = length bs - 1"
    using assms(1) by (subst unat_minus_one) (auto simp: word_eq_iff_unsigned)
  then have "of_nat (length bs) - 1 < (32 :: byte)" using assms(2) by (simp add: word_less_nat_alt)
  moreover have "length bs - 1 + 1 = length bs" using assms(1) by (cases bs) auto
  ultimately show ?thesis using u assms
    by (auto simp: lzf_step_def Let_def mem_get_def mem_read_def mem_write_def nth_append min_absorb1)
qed

lemma dec_backref:
  assumes len: "3 \<le> len" "len \<le> MAX_REF" and off: "off < MAX_OFF" "unat off < length ys"
    and out: "length ys + len \<le> length out" "take (length ys) out = ys"
  shows "\<exists>out'. lzf_step (cs @ ref_code off len @ rest) (length cs) (length ys) out =
      Some (Some (length cs + length (ref_code off len), length ys + len, out')) \<and>
    length out' = length out \<and> take (length ys + len) out' = extend len (unat off + 1) ys"
proof -
  define b where "b = (ucast off :: byte)"
  have b: "int (unat b) = int (unat off mod 256)" unfolding b_def by (simp add: unsigned_ucast_eq take_bit_eq_mod)
  have r: "int (length ys) - int (unat off div 256 * 256) - 1 - int (unat off mod 256) = int (length ys - (unat off + 1))"
    using off(2) div_mult_mod_eq [of "unat off" 256] by linarith
  obtain out' where out': "copy_ref len (length ys - (unat off + 1)) (length ys) out = Some out'" "length out' = length out"
    "take (length ys + len) out' = extend len (unat off + 1) ys"
    using copy_ref_extend [of ys len out "unat off + 1"] out off(2) by auto
  show ?thesis
  proof (cases "len - 2 < 7")
    case True
    define c where "c = (ucast (drop_bit 8 off + push_bit 5 (of_nat (len - 2))) :: byte)"
    have c: "unat c = unat off div 256 + 32 * (len - 2)" "unat (drop_bit 5 c) = len - 2" "unat (c AND 0x1F) = unat off div 256"
      unfolding c_def using ctrl_code [OF off(1), of "len - 2"] True by auto
    have "\<not> c < 32" using c(1) len(1) by (simp add: word_less_nat_alt)
    moreover have "ref_code off len = [c, b]" using True by (simp add: ref_code_def c_def b_def)
    moreover have "len - 2 + 2 = len" "len - 2 \<noteq> 7" "Suc (Suc (length ys + len - 2)) = length ys + len" using len(1) True by auto
    ultimately show ?thesis using out' c(2,3) b r out
      by (auto simp: lzf_step_def Let_def mem_get_def nth_append simp del: uint_nat of_nat_unat)
  next
    case False
    define c where "c = (ucast (drop_bit 8 off + push_bit 5 7) :: byte)"
    have c: "unat c = unat off div 256 + 32 * 7" "unat (drop_bit 5 c) = 7" "unat (c AND 0x1F) = unat off div 256"
      unfolding c_def using ctrl_code [OF off(1), of 7] by auto
    have ge: "\<not> c < 32" using c(1) by (simp add: word_less_nat_alt)
    define l where "l = (of_nat (len - 2 - 7) :: byte)"
    have "ref_code off len = [c, l, b]" using False by (simp add: ref_code_def c_def b_def l_def)
    moreover have "9 + unat l = len" using False len unfolding l_def by (subst unat_of_nat_small) auto
    moreover from this have "9 + (length ys + unat l) = length ys + len" by simp
    ultimately show ?thesis using ge out' c(2,3) b r out
      by (auto simp: lzf_step_def Let_def mem_get_def nth_append simp del: uint_nat of_nat_unat)
  qed
qed

text \<open>So it writes what the codes mean; \<open>dec_cont\<close> is the loop after its test.\<close>

definition dec_cont :: "byte list \<Rightarrow> nat \<Rightarrow> nat \<Rightarrow> byte list \<Rightarrow> (nat \<times> byte list) option option" where
  "dec_cont xs i n out = (if i < length xs then lzf_loop xs i n out else Some (Some (n, out)))"

lemma lzf_loop_step: "lzf_step xs i n out = Some (Some (i', n', out')) \<Longrightarrow> lzf_loop xs i n out = dec_cont xs i' n' out'"
  by (subst lzf_loop.simps) (simp add: dec_cont_def)

lemma ref_code_nonempty [simp]: "ref_code off len \<noteq> []"
  by (simp add: ref_code_def)

lemma decodes_Nil: "decodes [] ys \<Longrightarrow> ys = []"
  by (erule decodes.cases) auto

lemma decodes_dec:
  assumes "decodes cs ys" "length ys \<le> length out" "cs @ rest \<noteq> []"
  shows "\<exists>out'. length out' = length out \<and> take (length ys) out' = ys \<and>
    lzf_loop (cs @ rest) 0 0 out = (if cs = [] then lzf_loop (cs @ rest) 0 0 out' else dec_cont (cs @ rest) (length cs) (length ys) out')"
  using assms
proof (induction arbitrary: rest rule: decodes.induct)
  case start
  then show ?case by (intro exI [of _ out]) simp
next
  case (literals cs ys bs)
  let ?tok = "(of_nat (length bs) - 1) # bs :: byte list"
  obtain out1 where o1: "length out1 = length out" "take (length ys) out1 = ys"
    "lzf_loop (cs @ ?tok @ rest) 0 0 out = lzf_loop (cs @ ?tok @ rest) (length cs) (length ys) out1"
    using literals.IH [of "?tok @ rest"] literals.prems decodes_Nil [of ys] literals.hyps(1) by (auto simp: dec_cont_def split: if_splits)
  obtain out2 where o2: "lzf_step (cs @ ?tok @ rest) (length cs) (length ys) out1 =
      Some (Some (length cs + 1 + length bs, length ys + length bs, out2))" "length out2 = length out1" "take (length ys + length bs) out2 = ys @ bs"
    using dec_literals [OF literals.hyps(2,3), of ys out1 cs rest] o1 literals.prems(1) by auto
  show ?case using o1 o2 lzf_loop_step [OF o2(1)] by (intro exI [of _ out2]) simp
next
  case (backref cs ys len off)
  obtain out1 where o1: "length out1 = length out" "take (length ys) out1 = ys"
    "lzf_loop (cs @ ref_code off len @ rest) 0 0 out = lzf_loop (cs @ ref_code off len @ rest) (length cs) (length ys) out1"
    using backref.IH [of "ref_code off len @ rest"] backref.prems decodes_Nil [of ys] backref.hyps(1) by (auto simp: dec_cont_def split: if_splits)
  obtain out2 where o2: "lzf_step (cs @ ref_code off len @ rest) (length cs) (length ys) out1 =
      Some (Some (length cs + length (ref_code off len), length ys + len, out2))" "length out2 = length out1"
      "take (length ys + len) out2 = extend len (unat off + 1) ys"
    using dec_backref [OF backref.hyps(2-5), of out1 cs rest] o1 backref.prems(1) by auto
  show ?case using o1 o2 lzf_loop_step [OF o2(1)] by (intro exI [of _ out2]) simp
qed

section \<open>The decompressor stays inside its buffers\<close>

lemma copy_ref_safe:
  assumes "ref < n" "n + k \<le> length out"
  shows "\<exists>out'. copy_ref k ref n out = Some out' \<and> length out' = length out"
  using assms
proof (induction k arbitrary: ref n out)
  case (Suc k)
  then show ?case using Suc.IH [of "ref + 1" "n + 1" "out[n := out ! ref]"] by (simp add: mem_get_def mem_set_def)
qed simp

lemma lzf_step_safe:
  assumes "i < length xs" "n \<le> length out"
  shows "lzf_step xs i n out = Some None \<or>
    (\<exists>i' n' out'. lzf_step xs i n out = Some (Some (i', n', out')) \<and> n' \<le> length out' \<and> length out' = length out)"
proof -
  have copy: "\<exists>out'. copy_ref (len + 2) (nat ref) n out = Some out' \<and> length out' = length out"
    if "\<not> length out < n + len + 2" "\<not> ref < 0" "ref < int n" for len ref
    using copy_ref_safe [of "nat ref" n "len + 2" out] that by (simp add: nat_less_iff)
  show ?thesis
  proof (cases "xs ! i < 32")
    case True
    then show ?thesis using assms by (auto simp: lzf_step_def Let_def mem_get_def mem_read_def mem_write_def)
  next
    case False
    have ref: "int n - int (unat (xs ! i AND 0x1F) * 256) - 1 - int (unat b) < int n" for b :: byte by linarith
    define ref where "ref b = int n - int (unat (xs ! i AND 0x1F) * 256) - 1 - int (unat b)" for b :: byte
    define F where "F len k b = (if n + len + 2 > length out then Some None else if ref b < 0 then Some None
      else do { out \<leftarrow> copy_ref (len + 2) (nat (ref b)) n out; Some (Some (k, n + len + 2, out)) })" for len b and k :: nat
    have F: "F len k b = Some None \<or> (\<exists>i' n' out'. F len k b = Some (Some (i', n', out')) \<and> n' \<le> length out' \<and> length out' = length out)" for len k b
      using copy [of len "ref b"] ref [of b] unfolding F_def ref_def [symmetric] by (cases "n + len + 2 > length out \<or> ref b < 0") (auto simp del: copy_ref.simps)
    have "lzf_step xs i n out = (if i + 1 \<ge> length xs then Some None
      else if unat (drop_bit 5 (xs ! i)) = 7 then (if i + 1 + 1 \<ge> length xs then Some None else F (7 + unat (xs ! (i + 1))) (i + 1 + 1 + 1) (xs ! (i + 1 + 1)))
      else F (unat (drop_bit 5 (xs ! i))) (i + 1 + 1) (xs ! (i + 1)))"
      using False assms(1) unfolding lzf_step_def F_def ref_def Let_def mem_get_def by (simp del: copy_ref.simps)
    then show ?thesis using F by (simp only: split: if_split) blast
  qed
qed

lemma lzf_loop_safe:
  assumes "i < length xs" "n \<le> length out"
  shows "\<exists>r. lzf_loop xs i n out = Some r \<and> (case r of None \<Rightarrow> True | Some (n, out') \<Rightarrow> n \<le> length out' \<and> length out' = length out)"
  using assms
proof (induction xs i n out rule: lzf_loop.induct)
  case (1 xs i n out)
  consider "lzf_step xs i n out = Some None"
    | i' n' out' where "lzf_step xs i n out = Some (Some (i', n', out'))" "n' \<le> length out'" "length out' = length out"
    using lzf_step_safe [OF 1(2,3)] by blast
  then show ?case
  proof cases
    case 1
    then show ?thesis by (subst lzf_loop.simps) simp
  next
    case 2
    show ?thesis
    proof (cases "i' < length xs")
      case True
      then show ?thesis using 1(1) [OF 2(1) refl refl refl True True] 2 by (subst lzf_loop.simps) (auto split: option.splits)
    qed (use 2 in \<open>subst lzf_loop.simps, simp\<close>)
  qed
qed

section \<open>The compressor writes codes of its input\<close>

text \<open>
  Between two steps: the codes up to the open run mean the input up to the open run, and the open run
  holds the literals behind them. Its first byte is reserved for the length.
\<close>

definition comp_inv :: "byte list \<Rightarrow> lzf \<Rightarrow> bool" where
  "comp_inv xs st \<longleftrightarrow> z_lit st < MAX_LIT \<and> z_lit st \<le> z_ip st \<and> z_ip st \<le> length xs \<and> z_lit st + 1 \<le> z_op st \<and>
     (z_op st \<le> length (z_out st) \<or> z_lit st = 0 \<and> z_op st = length (z_out st) + 1) \<and>
     decodes (take (z_op st - z_lit st - 1) (z_out st)) (take (z_ip st - z_lit st) xs) \<and>
     take (z_lit st) (drop (z_op st - z_lit st) (z_out st)) = take (z_lit st) (drop (z_ip st - z_lit st) xs)"

text \<open>The end of a run that is not empty.\<close>

lemma close_run:
  assumes d: "decodes (take (n - l - 1) out) (take (i - l) xs)" and run: "take l (drop (n - l) out) = take l (drop (i - l) xs)"
    and l: "0 < l" "l \<le> MAX_LIT" "l \<le> i" "i \<le> length xs" "l + 1 \<le> n" "n \<le> length out"
  shows "decodes (take n (out[n - l - 1 := of_nat l - 1])) (take i xs)"
proof -
  let ?bs = "take l (drop (i - l) xs)"
  have "length ?bs = l" using l by simp
  then have "decodes (take (n - l - 1) out @ (of_nat l - 1) # ?bs) (take (i - l) xs @ ?bs)"
    using decodes.literals [OF d, of ?bs] l by (auto simp: length_greater_0_conv [symmetric] simp del: length_greater_0_conv)
  moreover have "take (i - l) xs @ ?bs = take i xs" using l by (simp flip: take_add)
  moreover have "take n (out[n - l - 1 := of_nat l - 1]) = take (n - l - 1) out @ (of_nat l - 1) # ?bs"
  proof -
    have "take n (out[n - l - 1 := of_nat l - 1]) = take (n - l - 1) out @ take (l + 1) (drop (n - l - 1) (out[n - l - 1 := of_nat l - 1]))"
      using l by (metis (no_types, lifting) add.commute diff_diff_left le_add_diff_inverse take_add take_update_cancel order_refl)
    moreover have "drop (n - l - 1) (out[n - l - 1 := of_nat l - 1]) = (of_nat l - 1) # drop (n - l) out"
      using l by (subst Cons_nth_drop_Suc [symmetric]) (auto simp: Suc_diff_Suc drop_update_cancel)
    ultimately show ?thesis using run by simp
  qed
  ultimately show ?thesis by simp
qed

text \<open>Literals.\<close>

lemma copy_literal_ok:
  assumes inv: "comp_inv xs st" and i: "z_ip st < length xs" and n: "z_op st < length (z_out st)"
  shows "\<exists>st'. copy_literal xs st = Some st' \<and> comp_inv xs st' \<and> z_ip st' = z_ip st + 1 \<and> length (z_out st') = length (z_out st) \<and>
    (if z_lit st + 1 < MAX_LIT then z_op st' = z_op st + 1 else z_op st' = z_op st + 2 \<and> z_lit st' = 0)"
proof -
  let ?l = "z_lit st" and ?i = "z_ip st" and ?n = "z_op st" and ?out = "z_out st"
  let ?out1 = "?out[?n := xs ! ?i]"
  have l: "?l < MAX_LIT" "?l \<le> ?i" "?l + 1 \<le> ?n" using inv by (simp_all add: comp_inv_def)
  have d: "decodes (take (?n - ?l - 1) ?out1) (take (?i - ?l) xs)" using inv by (simp add: comp_inv_def)
  have old: "take ?l (drop (?n - ?l) ?out) = take ?l (drop (?i - ?l) xs)" using inv by (simp add: comp_inv_def)
  have run: "take (Suc ?l) (drop (?n - ?l) ?out1) = take (Suc ?l) (drop (?i - ?l) xs)"
  proof -
    have "take (Suc ?l) (drop (?n - ?l) ?out1) = take ?l (drop (?n - ?l) ?out1) @ [drop (?n - ?l) ?out1 ! ?l]"
      using n l by (intro take_Suc_conv_app_nth) simp
    also have "take ?l (drop (?n - ?l) ?out1) = take ?l (drop (?n - ?l) ?out)"
      using l by (simp add: take_drop)
    also have "drop (?n - ?l) ?out1 ! ?l = xs ! ?i" using n l by simp
    also have "take ?l (drop (?n - ?l) ?out) @ [xs ! ?i] = take (Suc ?l) (drop (?i - ?l) xs)"
      unfolding old using i l by (subst take_Suc_conv_app_nth) auto
    finally show ?thesis .
  qed
  show ?thesis
  proof (cases "?l + 1 < MAX_LIT")
    case True
    let ?st = "st\<lparr>z_lit := ?l + 1, z_ip := ?i + 1, z_out := ?out1, z_op := ?n + 1\<rparr>"
    have "copy_literal xs st = Some ?st" using True i n by (simp add: copy_literal_def put_def mem_get_def mem_set_def)
    moreover have "comp_inv xs ?st" using True i n l d run by (simp add: comp_inv_def)
    ultimately show ?thesis using True by simp
  next
    case False
    then have full: "?l = 31" using l by simp
    let ?out2 = "?out1[?n - ?l - 1 := 31]"
    let ?st = "st\<lparr>z_lit := 0, z_ip := ?i + 1, z_out := ?out2, z_op := ?n + 2\<rparr>"
    have "copy_literal xs st = Some ?st" using full i n l
      by (simp add: copy_literal_def put_def mem_get_def mem_set_def stop_run_def start_run_def)
    moreover have "decodes (take (?n + 1) ?out2) (take (?i + 1) xs)"
      using close_run [of "?n + 1" "?l + 1" ?out1 "?i + 1" xs] d run i n l full by simp
    then have "comp_inv xs ?st" using i n by (auto simp: comp_inv_def)
    ultimately show ?thesis using False by simp
  qed
qed

text \<open>The end of the run in front of a match or of the end.\<close>

lemma stop_run_ok:
  assumes inv: "comp_inv xs st" and n: "z_op st \<le> length (z_out st)"
  shows "\<exists>out. stop_run st = Some (st\<lparr>z_out := out\<rparr>) \<and> length out = length (z_out st) \<and>
    decodes (take (z_op st - (if z_lit st = 0 then 1 else 0)) out) (take (z_ip st) xs)"
proof -
  let ?out = "(z_out st)[z_op st - z_lit st - 1 := of_nat (z_lit st) - 1]"
  have l: "z_lit st < MAX_LIT" "z_lit st \<le> z_ip st" "z_lit st + 1 \<le> z_op st" "z_ip st \<le> length xs" using inv by (simp_all add: comp_inv_def)
  have "stop_run st = Some (st\<lparr>z_out := ?out\<rparr>)" using l n by (simp add: stop_run_def mem_set_def)
  moreover have "decodes (take (z_op st - (if z_lit st = 0 then 1 else 0)) ?out) (take (z_ip st) xs)"
  proof (cases "z_lit st = 0")
    case False
    then show ?thesis using close_run [of "z_op st" "z_lit st" "z_out st" "z_ip st" xs] inv n by (simp add: comp_inv_def)
  qed (use inv in \<open>simp add: comp_inv_def\<close>)
  ultimately show ?thesis by auto
qed

text \<open>Matches: the reference lies before, and the bytes up to the length agree.\<close>

definition agree :: "byte list \<Rightarrow> nat \<Rightarrow> nat \<Rightarrow> nat \<Rightarrow> bool" where
  "agree xs ref i n \<longleftrightarrow> (\<forall>k < n. xs ! (ref + k) = xs ! (i + k))"

lemma agree_Suc: "agree xs ref i (Suc n) \<longleftrightarrow> agree xs ref i n \<and> xs ! (ref + n) = xs ! (i + n)"
  by (auto simp: agree_def less_Suc_eq)

lemma same_at_inside: "ref < i \<Longrightarrow> i + k < length xs \<Longrightarrow> same_at xs ref i k = Some (xs ! (ref + k) = xs ! (i + k))"
  by (simp add: same_at_def mem_get_def)

lemma ref_off_small:
  assumes "i < 2 ^ 32" "ref_off i ref < MAX_OFF"
  shows "unat ref < i \<and> unat (ref_off i ref) = i - unat ref - 1"
proof -
  have r: "unat ref < 2 ^ 32" using unat_less_exp [of ref] by simp
  have i: "unat (of_nat i :: uint64) = i" using assms(1) by (intro unat_of_nat_small) simp
  have u: "unat (ucast ref :: uint64) = unat ref" by (simp add: unsigned_ucast_eq take_bit_nat_eq_self unsigned_less less_trans [OF r])
  have eq: "ref_off i ref = word_of_int (int i - int (unat ref) - 1)" by (simp add: ref_off_def)
  show ?thesis
  proof (cases "unat ref < i")
    case True
    have "int (unat ref) < int i" "int i < 2 ^ 32" using True assms(1) by (simp_all only: of_nat_less_iff of_nat_power of_nat_numeral of_nat_less_numeral_power_cancel_iff)
    then have "unat (ref_off i ref) = nat (int i - int (unat ref) - 1)" unfolding eq by (intro unat_word_of_int_small) (simp_all del: of_nat_unat uint_nat)
    also have "\<dots> = i - unat ref - 1" using True by linarith
    finally show ?thesis using True by simp
  next
    case False
    define v where "v = int i - int (unat ref) - 1 + 2 ^ 64"
    have b: "2 ^ 64 - 2 ^ 32 - 1 < v" "v < 2 ^ 64"
      using False r unfolding v_def by (simp_all del: of_nat_unat uint_nat)
    have "ref_off i ref = word_of_int v" unfolding eq v_def by (simp add: word_of_int_eq_iff take_bit_eq_mod)
    then have "unat (ref_off i ref) = nat v" using b by (simp add: unat_word_of_int_small)
    then have "\<not> ref_off i ref < MAX_OFF" using b by (simp add: word_less_nat_alt)
    then show ?thesis using assms(2) by simp
  qed
qed

lemma match_found_ok:
  assumes "i < 2 ^ 32" "i + 2 < length xs"
  shows "\<exists>b. match_found xs i ref = Some b \<and>
    (b \<longrightarrow> unat ref < i \<and> ref_off i ref < MAX_OFF \<and> unat (ref_off i ref) = i - unat ref - 1 \<and> 0 < unat ref \<and> agree xs (unat ref) i 3)"
proof (cases "ref_off i ref < MAX_OFF \<and> ref > 0")
  case True
  then have r: "unat ref < i" "unat (ref_off i ref) = i - unat ref - 1" using ref_off_small [OF assms(1)] by auto
  moreover have "0 < unat ref" using True by (simp add: word_less_nat_alt)
  ultimately show ?thesis using True assms(2)
    by (auto simp: match_found_def same_at_inside numeral_3_eq_3 agree_Suc) (simp add: agree_def)
qed (auto simp: match_found_def)

lemma do_len_ok:
  assumes "ref < i" "agree xs ref i (len + 1)" "max maxlen (len + 1) + i \<le> length xs"
  shows "\<exists>n. do_len xs ref i maxlen len = Some n \<and> len < n \<and> n \<le> max maxlen (len + 1) \<and> agree xs ref i n"
  using assms
proof (induction xs ref i maxlen len rule: do_len.induct)
  case (1 xs ref i maxlen len)
  show ?case
  proof (cases "len + 1 < maxlen")
    case True
    then have same: "same_at xs ref i (len + 1) = Some (xs ! (ref + (len + 1)) = xs ! (i + (len + 1)))"
      using 1(2,4) by (intro same_at_inside) auto
    show ?thesis
    proof (cases "xs ! (ref + (len + 1)) = xs ! (i + (len + 1))")
      case eq: True
      then show ?thesis using 1(1) [OF refl True same] 1(2-) True same by (subst do_len.simps) (auto simp: agree_Suc Let_def)
    next
      case False
      then show ?thesis using True same 1(3) by (subst do_len.simps) (simp add: Let_def)
    qed
  next
    case False
    then show ?thesis using 1(3) by (subst do_len.simps) (simp add: Let_def)
  qed
qed

lemma unrolled_ok:
  assumes "ref < i" "agree xs ref i (len + 1)" "i + len + k < length xs"
  shows "\<exists>b n. unrolled k xs ref i len = Some (b, n) \<and> len \<le> n \<and> n \<le> len + k \<and>
    (if b then len < n \<and> agree xs ref i n else n = len + k \<and> agree xs ref i (n + 1))"
  using assms
proof (induction k arbitrary: len)
  case (Suc k)
  have same: "same_at xs ref i (len + 1) = Some (xs ! (ref + (len + 1)) = xs ! (i + (len + 1)))"
    using Suc.prems by (intro same_at_inside) auto
  show ?case
  proof (cases "xs ! (ref + (len + 1)) = xs ! (i + (len + 1))")
    case True
    then show ?thesis using Suc.IH [of "len + 1"] Suc.prems same by (fastforce simp: agree_Suc Let_def)
  qed (use Suc.prems same in \<open>auto simp: Let_def\<close>)
qed auto

lemma match_len_ok:
  assumes "ref < i" "agree xs ref i 3" "i + 2 < length xs"
  shows "\<exists>len. match_len xs ref i = Some len \<and> 3 \<le> len \<and> len \<le> MAX_REF \<and> i + len \<le> length xs \<and> agree xs ref i len"
proof -
  define maxlen where "maxlen = (if length xs - i - 2 > MAX_REF then MAX_REF else length xs - i - 2)"
  have m: "maxlen \<le> MAX_REF" "maxlen + 2 + i \<le> length xs" using assms(3) unfolding maxlen_def by auto
  have a3: "agree xs ref i (2 + 1)" using assms(2) by simp
  show ?thesis
  proof (cases "maxlen > 16")
    case True
    then obtain b n where n: "unrolled 16 xs ref i 2 = Some (b, n)" "n \<le> 18" "2 \<le> n"
      "if b then 2 < n \<and> agree xs ref i n else n = 2 + 16 \<and> agree xs ref i (n + 1)"
      using unrolled_ok [OF assms(1) a3, of 16] m by auto
    show ?thesis
    proof (cases b)
      case b: True
      then show ?thesis using n True m unfolding match_len_def Let_def maxlen_def [symmetric] by auto
    next
      case False
      then have "n = 18" "agree xs ref i (18 + 1)" using n(4) by auto
      moreover have "max maxlen (18 + 1) + i \<le> length xs" "max maxlen (18 + 1) \<le> MAX_REF" using True m by auto
      ultimately show ?thesis using do_len_ok [OF assms(1), of xs 18 maxlen] n(1) False True
        unfolding match_len_def Let_def maxlen_def [symmetric] by fastforce
    qed
  next
    case False
    moreover have "max maxlen (2 + 1) + i \<le> length xs" "max maxlen (2 + 1) \<le> MAX_REF" using False m assms(3) by auto
    ultimately show ?thesis using do_len_ok [OF assms(1) a3, of maxlen]
      unfolding match_len_def Let_def maxlen_def [symmetric] by fastforce
  qed
qed

lemma extend_agree:
  assumes "ref < i" "agree xs ref i n" "i + n \<le> length xs"
  shows "extend n (i - ref) (take i xs) = take (i + n) xs"
  using assms
proof (induction n arbitrary: ref i)
  case (Suc n)
  have "xs ! ref = xs ! i" using Suc.prems(2) unfolding agree_def by force
  then have "take i xs @ [take i xs ! (i - (i - ref))] = take (Suc i) xs"
    using Suc.prems by (simp add: take_Suc_conv_app_nth)
  moreover have "agree xs (Suc ref) (Suc i) n" using Suc.prems(2) unfolding agree_def by fastforce
  ultimately show ?case using Suc.IH [of "Suc ref" "Suc i"] Suc.prems by simp
qed simp

text \<open>Writing the code of a match.\<close>

lemma put_ok: "z_op st < length (z_out st) \<Longrightarrow> put b st = Some (st\<lparr>z_out := (z_out st)[z_op st := b], z_op := z_op st + 1\<rparr>)"
  by (simp add: put_def mem_set_def)

lemma take_put: "n < length out \<Longrightarrow> take (Suc n) (out[n := b]) = take n out @ [b]"
  by (simp add: take_Suc_conv_app_nth)

lemma put_ref_ok:
  assumes "z_op st + 3 \<le> length (z_out st)"
  shows "\<exists>out n. put_ref off len st = Some (st\<lparr>z_out := out, z_op := n\<rparr>) \<and> z_op st < n \<and> n \<le> z_op st + 3 \<and> length out = length (z_out st) \<and>
    take n out = take (z_op st) (z_out st) @ ref_code off len"
proof (cases "len - 2 < 7")
  case True
  let ?out = "(z_out st)[z_op st := ucast (drop_bit 8 off + push_bit 5 (of_nat (len - 2))), Suc (z_op st) := ucast off]"
  show ?thesis using assms True
    by (intro exI [of _ ?out] exI [of _ "z_op st + 2"]) (simp add: put_ref_def Let_def put_ok ref_code_def take_put)
next
  case False
  let ?out = "(z_out st)[z_op st := ucast (drop_bit 8 off + push_bit 5 7), Suc (z_op st) := of_nat (len - 2 - 7), Suc (Suc (z_op st)) := ucast off]"
  show ?thesis using assms False
    by (intro exI [of _ ?out] exI [of _ "z_op st + 3"]) (simp add: put_ref_def Let_def put_ok ref_code_def take_put numeral_3_eq_3)
qed

lemma rehash_table_ok:
  assumes "2 \<le> z_ip st" "z_ip st + 2 < length xs"
  shows "\<exists>h tab. rehash xs st = Some (st\<lparr>z_hval := h, z_htab := tab\<rparr>)"
proof -
  have "z_ip st - 2 + 2 = z_ip st" using assms(1) by simp
  moreover have "z_ip st - 2 + 1 + 2 < length xs" "z_ip st - 2 + 2 < length xs" "z_ip st - 2 + 1 < length xs" using assms by auto
  ultimately show ?thesis using assms by (auto simp: rehash_def FRST_def NEXT_def mem_get_def Let_def)
qed

lemma emit_match_ok:
  assumes inv: "comp_inv xs st" and i: "z_ip st + 2 < length xs"
    and ref: "ref < z_ip st" "0 < ref" "off < MAX_OFF" "unat off = z_ip st - ref - 1" "agree xs ref (z_ip st) 3"
  shows "emit_match xs ref off st = Some None \<or>
    (\<exists>st' b. emit_match xs ref off st = Some (Some (st', b)) \<and> comp_inv xs st' \<and> length (z_out st') = length (z_out st) \<and> (b \<longrightarrow> length xs \<le> z_ip st' + 2))"
proof -
  define undo :: nat where "undo = (if z_lit st = 0 then 1 else 0)"
  show ?thesis
  proof (cases "z_op st - undo + 3 + 1 \<ge> length (z_out st)")
    case True
    then have "z_op st + 3 + 1 \<ge> length (z_out st)" by simp
    then show ?thesis using True by (simp add: emit_match_def undo_def Let_def)
  next
    case room: False
    have op: "z_op st \<le> length (z_out st)" "1 \<le> z_op st" using room inv unfolding comp_inv_def undo_def by auto
    obtain out where out: "stop_run st = Some (st\<lparr>z_out := out\<rparr>)" "length out = length (z_out st)"
      "decodes (take (z_op st - undo) out) (take (z_ip st) xs)"
      using stop_run_ok [OF inv op(1)] unfolding undo_def by auto
    obtain len where len: "match_len xs ref (z_ip st) = Some len" "3 \<le> len" "len \<le> MAX_REF" "z_ip st + len \<le> length xs" "agree xs ref (z_ip st) len"
      using match_len_ok [OF ref(1,5) i] by blast
    obtain out2 n where p: "put_ref off len (st\<lparr>z_out := out, z_op := z_op st - undo\<rparr>) = Some (st\<lparr>z_out := out2, z_op := n\<rparr>)"
      "n \<le> z_op st - undo + 3" "length out2 = length out" "take n out2 = take (z_op st - undo) out @ ref_code off len"
      using put_ref_ok [of "st\<lparr>z_out := out, z_op := z_op st - undo\<rparr>" off len] room out(2) by auto
    define st2 where "st2 = st\<lparr>z_out := out2, z_lit := 0, z_op := n + 1, z_ip := z_ip st + len\<rparr>"
    have "decodes (take n out2) (extend len (unat off + 1) (take (z_ip st) xs))"
      unfolding p(4) by (rule decodes.backref [OF out(3) len(2,3) ref(3)]) (use ref(1,4) i in auto)
    moreover have "unat off + 1 = z_ip st - ref" using ref(1,4) by simp
    ultimately have "decodes (take n out2) (take (z_ip st + len) xs)"
      using extend_agree [OF ref(1) len(5,4)] by simp
    then have inv2: "comp_inv xs st2" using len(4) p(2,3) out(2) room by (auto simp: comp_inv_def st2_def)
    have eq: "emit_match xs ref off st = (if z_ip st2 + 2 \<ge> length xs then Some (Some (st2, True))
        else do { st \<leftarrow> rehash xs st2; Some (Some (st, False)) })"
      using room out(1) len(1) p(1) unfolding emit_match_def undo_def [symmetric] Let_def st2_def
      by (simp add: start_run_def)
    show ?thesis
    proof (cases "z_ip st2 + 2 \<ge> length xs")
      case True
      then show ?thesis using eq inv2 p(3) out(2) by (auto simp: st2_def)
    next
      case False
      obtain h tab where "rehash xs st2 = Some (st2\<lparr>z_hval := h, z_htab := tab\<rparr>)"
        using rehash_table_ok [of st2 xs] False len(2) by (auto simp: st2_def)
      moreover have "comp_inv xs (st2\<lparr>z_hval := h, z_htab := tab\<rparr>)" using inv2 by (simp add: comp_inv_def)
      ultimately show ?thesis using eq False p(3) out(2) by (auto simp: st2_def)
    qed
  qed
qed

lemma comp_step_ok:
  assumes inv: "comp_inv xs st" and i: "z_ip st + 2 < length xs" and xs: "length xs < 2 ^ 32"
  shows "comp_step xs st = Some None \<or>
    (\<exists>st' b. comp_step xs st = Some (Some (st', b)) \<and> comp_inv xs st' \<and> length (z_out st') = length (z_out st) \<and> (b \<longrightarrow> length xs \<le> z_ip st' + 2))"
proof -
  obtain h where h: "NEXT (z_hval st) xs (z_ip st) = Some h" using i by (simp add: NEXT_def mem_get_def)
  define ref where "ref = z_htab st (IDX h)"
  define st1 where "st1 = st\<lparr>z_hval := h, z_htab := (z_htab st)(IDX h := of_nat (z_ip st))\<rparr>"
  have inv1: "comp_inv xs st1" using inv by (simp add: comp_inv_def st1_def)
  have s1: "z_ip st1 = z_ip st" "z_out st1 = z_out st" "z_op st1 = z_op st" by (simp_all add: st1_def)
  obtain b where b: "match_found xs (z_ip st) ref = Some b" "b \<longrightarrow> unat ref < z_ip st \<and> ref_off (z_ip st) ref < MAX_OFF \<and>
      unat (ref_off (z_ip st) ref) = z_ip st - unat ref - 1 \<and> 0 < unat ref \<and> agree xs (unat ref) (z_ip st) 3"
    using match_found_ok [of "z_ip st" xs ref] i xs by auto
  have eq: "comp_step xs st = (if b then emit_match xs (unat ref) (ref_off (z_ip st) ref) st1
      else if z_op st \<ge> length (z_out st) then Some None else do { st \<leftarrow> copy_literal xs st1; Some (Some (st, False)) })"
    using h b(1) unfolding comp_step_def Let_def ref_def st1_def by simp
  show ?thesis
  proof (cases b)
    case True
    then show ?thesis using eq emit_match_ok [OF inv1, of "unat ref" "ref_off (z_ip st) ref"] b(2) i by (simp add: s1)
  next
    case False
    show ?thesis
    proof (cases "z_op st \<ge> length (z_out st)")
      case True
      then show ?thesis using eq False by simp
    next
      case op: False
      then show ?thesis using eq False copy_literal_ok [OF inv1] i by (auto simp: s1)
    qed
  qed
qed

lemma comp_loop_ok:
  assumes "comp_inv xs st" "length xs < 2 ^ 32"
  shows "comp_loop xs st = Some None \<or>
    (\<exists>st'. comp_loop xs st = Some (Some st') \<and> comp_inv xs st' \<and> length (z_out st') = length (z_out st) \<and> length xs \<le> z_ip st' + 2)"
  using assms
proof (induction xs st rule: comp_loop.induct)
  case (1 xs st)
  show ?case
  proof (cases "z_ip st + 2 < length xs")
    case i: True
    consider "comp_step xs st = Some None"
      | st' b where "comp_step xs st = Some (Some (st', b))" "comp_inv xs st'" "length (z_out st') = length (z_out st)" "b \<longrightarrow> length xs \<le> z_ip st' + 2"
      using comp_step_ok [OF 1(2) i 1(3)] by blast
    then show ?thesis
    proof cases
      case 1
      then show ?thesis using i by (subst comp_loop.simps) simp
    next
      case 2
      show ?thesis
      proof (cases b)
        case True
        then show ?thesis using 2 i by (subst comp_loop.simps) simp
      next
        case False
        then show ?thesis using 1(1) [OF i 2(1) refl refl False 2(2) 1(3)] 2 i by (simp add: comp_loop.simps [of xs st])
      qed
    qed
  next
    case False
    then show ?thesis using 1(2) by (subst comp_loop.simps) simp
  qed
qed

text \<open>The last bytes, at most two.\<close>

lemma tail_loop_ok:
  assumes "comp_inv xs st" "z_op st + 3 \<le> length (z_out st)" "length xs \<le> z_ip st + 2"
  shows "\<exists>st'. tail_loop xs st = Some st' \<and> comp_inv xs st' \<and> z_ip st' = length xs \<and> z_op st' \<le> length (z_out st') \<and>
    length (z_out st') = length (z_out st)"
proof -
  have stop: "tail_loop xs st = Some st" if "length xs \<le> z_ip st" for st using that by (subst tail_loop.simps) simp
  have go: "tail_loop xs st = tail_loop xs st'" if "z_ip st < length xs" "copy_literal xs st = Some st'" for st st'
    using that by (subst tail_loop.simps) simp
  have le: "z_ip st \<le> length xs" using assms(1) by (simp add: comp_inv_def)
  consider "z_ip st = length xs" | "z_ip st + 1 = length xs" | "z_ip st + 2 = length xs" using le assms(3) by linarith
  then show ?thesis
  proof cases
    case 1
    then show ?thesis using assms stop [of st] by auto
  next
    case 2
    then obtain st1 where "copy_literal xs st = Some st1" "comp_inv xs st1" "z_ip st1 = z_ip st + 1" "length (z_out st1) = length (z_out st)" "z_op st1 \<le> z_op st + 2"
      using copy_literal_ok [OF assms(1)] assms(2) by (auto split: if_splits)
    then show ?thesis using go [of st st1] stop [of st1] 2 assms(2) by auto
  next
    case 3
    then obtain st1 where s1: "copy_literal xs st = Some st1" "comp_inv xs st1" "z_ip st1 = z_ip st + 1" "length (z_out st1) = length (z_out st)"
      and o1: "if z_lit st + 1 < MAX_LIT then z_op st1 = z_op st + 1 else z_op st1 = z_op st + 2 \<and> z_lit st1 = 0"
      using copy_literal_ok [OF assms(1)] assms(2) by auto
    have "z_op st1 < length (z_out st1)" using o1 s1(4) assms(2) by (auto split: if_splits)
    then obtain st2 where s2: "copy_literal xs st1 = Some st2" "comp_inv xs st2" "z_ip st2 = z_ip st1 + 1" "length (z_out st2) = length (z_out st1)"
      and o2: "if z_lit st1 + 1 < MAX_LIT then z_op st2 = z_op st1 + 1 else z_op st2 = z_op st1 + 2 \<and> z_lit st2 = 0"
      using copy_literal_ok [OF s1(2)] s1(3) 3 by auto
    have "z_op st2 \<le> length (z_out st2)" using o1 o2 s1(4) s2(4) assms(2) by (auto split: if_splits)
    then show ?thesis using go [of st st1] go [of st1 st2] stop [of st2] s1 s2 3 by auto
  qed
qed

lemma lzf_compress_ok:
  assumes "2 \<le> length xs" "length xs < 2 ^ 32"
  shows "lzf_compress tab xs out = Some None \<or>
    (\<exists>n out'. lzf_compress tab xs out = Some (Some (n, out')) \<and> length out' = length out \<and> n \<le> length out \<and> decodes (take n out') xs)"
proof (cases "out = []")
  case False
  obtain h where h: "FRST xs 0 = Some h" using assms(1) by (cases xs; cases "tl xs") (auto simp: FRST_def mem_get_def)
  let ?st = "\<lparr>z_ip = 0, z_op = 1, z_lit = 0, z_hval = h, z_htab = tab, z_out = out\<rparr>"
  have "comp_inv xs ?st" using False decodes.start by (cases out) (auto simp: comp_inv_def)
  from comp_loop_ok [OF this assms(2)] consider "comp_loop xs ?st = Some None"
    | st where "comp_loop xs ?st = Some (Some st)" "comp_inv xs st" "length (z_out st) = length out" "length xs \<le> z_ip st + 2" by auto
  then show ?thesis
  proof cases
    case 1
    then show ?thesis using h by (simp add: lzf_compress_def)
  next
    case 2
    show ?thesis
    proof (cases "z_op st + 3 > length (z_out st)")
      case True
      then show ?thesis using 2 h assms(1) False by (auto simp: lzf_compress_def)
    next
      case room: False
      obtain st2 where s2: "tail_loop xs st = Some st2" "comp_inv xs st2" "z_ip st2 = length xs" "z_op st2 \<le> length (z_out st2)" "length (z_out st2) = length (z_out st)"
        using tail_loop_ok [OF 2(2) _ 2(4)] room by auto
      obtain out3 where s3: "stop_run st2 = Some (st2\<lparr>z_out := out3\<rparr>)" "length out3 = length (z_out st2)"
        "decodes (take (z_op st2 - (if z_lit st2 = 0 then 1 else 0)) out3) (take (z_ip st2) xs)"
        using stop_run_ok [OF s2(2,4)] by blast
      have "lzf_compress tab xs out = Some (Some (z_op st2 - (if z_lit st2 = 0 then 1 else 0), out3))"
        using 2 h assms(1) False room s2(1) s3(1) by (auto simp: lzf_compress_def)
      moreover have "z_op st2 - (if z_lit st2 = 0 then 1 else 0) \<le> length out" using s2(4,5) 2(3) by simp
      ultimately show ?thesis using s3(2,3) s2(3,5) 2(3) by auto
    qed
  qed
qed (simp add: lzf_compress_def)

text \<open>Twelve equal bytes: a literal run, a back reference that overlaps itself, and another run.\<close>

lemmas compress_simps = lzf_compress_def FRST_def NEXT_def mem_get_def comp_loop.simps tail_loop.simps copy_literal_def put_def mem_set_def
  stop_run_def start_run_def comp_step_def IDX_def match_found_def ref_off_def same_at_def emit_match_def match_len_def do_len.simps
  put_ref_def rehash_def Let_def

lemma sample_compressed:
  "lzf_compress (\<lambda>_. 77) [7, 7, 7, 7, 7, 7, 7, 7, 7, 7, 7, 7] [9, 9, 9, 9, 9, 9, 9, 9, 9, 9, 9, 9] =
     Some (Some (8, [1, 7, 7, 192, 0, 1, 7, 7, 9, 9, 9, 9]))"
  by (simp add: compress_simps)

lemma lzf_back:
  assumes "2 \<le> length xs" "length xs < 2 ^ 32" "lzf_compress tab xs out = Some (Some (n, out'))" "length buf = length xs"
  shows "lzf_decompress (take n out') buf = Some (Some (length xs, xs))"
proof -
  have d: "decodes (take n out') xs" using lzf_compress_ok [OF assms(1,2), of tab out] assms(3) by auto
  then have ne: "take n out' \<noteq> []" using decodes_Nil [of xs] assms(1) by fastforce
  obtain buf' where "length buf' = length buf" "take (length xs) buf' = xs" "lzf_loop (take n out') 0 0 buf = dec_cont (take n out') (length (take n out')) (length xs) buf'"
    using decodes_dec [OF d, of buf "[]"] ne assms(4) by auto
  then show ?thesis using assms(4) by (simp add: lzf_decompress_def dec_cont_def)
qed

text \<open>
  What a user of the compressor relies on: it ends inside its buffer, and what it has packed can be
  unpacked.
\<close>

locale block_codec =
  fixes pack :: "byte list \<Rightarrow> byte list \<Rightarrow> (nat \<times> byte list) option option"
    and unpack :: "byte list \<Rightarrow> byte list \<Rightarrow> (nat \<times> byte list) option option"
    and limit :: nat
  assumes pack_total: "2 \<le> length xs \<Longrightarrow> length xs < limit \<Longrightarrow> \<exists>r. pack xs out = Some r"
    and pack_inside: "2 \<le> length xs \<Longrightarrow> length xs < limit \<Longrightarrow> pack xs out = Some (Some (n, out')) \<Longrightarrow> length out' = length out \<and> n \<le> length out"
    and unpack_pack: "2 \<le> length xs \<Longrightarrow> length xs < limit \<Longrightarrow> pack xs out = Some (Some (n, out')) \<Longrightarrow> length buf = length xs \<Longrightarrow>
      unpack (take n out') buf = Some (Some (length xs, xs))"
begin

text \<open>The codes of a packed block have the length that was returned and can be unpacked.\<close>

lemma pack_cases:
  assumes "2 \<le> length xs" "length xs < limit"
  obtains (refused) "pack xs out = Some None"
  | (packed) n out' where "pack xs out = Some (Some (n, out'))" "length (take n out') = n" "n \<le> length out"
      "\<And>buf. length buf = length xs \<Longrightarrow> unpack (take n out') buf = Some (Some (length xs, xs))"
proof -
  obtain r where r: "pack xs out = Some r" using pack_total [OF assms] by blast
  then show thesis
  proof (cases r)
    case (Some a)
    obtain n out' where p: "pack xs out = Some (Some (n, out'))" using r Some by (cases a) auto
    then show thesis using packed [OF p] pack_inside [OF assms p] unpack_pack [OF assms p] by simp
  qed (use refused in simp)
qed

end

interpretation lz: block_codec "lzf_compress tab" lzf_decompress "2 ^ 32" for tab
proof unfold_locales
  fix xs out :: "byte list" assume a: "2 \<le> length xs" "length xs < 2 ^ 32"
  show "\<exists>r. lzf_compress tab xs out = Some r" using lzf_compress_ok [OF a, of tab out] by auto
  show "lzf_compress tab xs out = Some (Some (n, out')) \<Longrightarrow> length out' = length out \<and> n \<le> length out" for n out'
    using lzf_compress_ok [OF a, of tab out] by auto
  show "lzf_compress tab xs out = Some (Some (n, out')) \<Longrightarrow> length buf = length xs \<Longrightarrow>
      lzf_decompress (take n out') buf = Some (Some (length xs, xs))" for n out' buf
    by (rule lzf_back [OF a])
qed

text \<open>
  C10. Decompression inverts compression: whatever the hash table and the output buffer held before, when
  the compressor accepts an input, the codes it returns decompress to exactly that input, in a buffer
  of its length.
\<close>

theorem lzf_roundtrip:
  assumes "2 \<le> length xs" "length xs < 2 ^ 32" "lzf_compress tab xs out = Some (Some (n, out'))" "length buf = length xs"
  shows "lzf_decompress (take n out') buf = Some (Some (length xs, xs))"
  by (rule lzf_back [OF assms])

theorem lzf_roundtrip_witness:
  "lzf_decompress [1, 7, 7, 192, 0, 1, 7, 7] (replicate 12 0) = Some (Some (12, [7, 7, 7, 7, 7, 7, 7, 7, 7, 7, 7, 7]))"
  using lzf_roundtrip [OF _ _ sample_compressed, of "replicate 12 0"] by simp

text \<open>
  Memory safety: the compressor reads and writes only inside its buffers, for every input of at
  least two bytes and every size of the output buffer.
\<close>

theorem lzf_compress_safe:
  assumes "2 \<le> length xs" "length xs < 2 ^ 32"
  shows "\<exists>r. lzf_compress tab xs out = Some r \<and> (case r of None \<Rightarrow> True | Some (n, out') \<Rightarrow> 0 < n \<and> n \<le> length out \<and> length out' = length out)"
proof -
  have "0 < n" if "decodes (take n out') xs" for n out' using that decodes_Nil [of xs] assms(1) by (cases n) auto
  then show ?thesis using lzf_compress_ok [OF assms, of tab out] by fastforce
qed

theorem lzf_compress_safe_witness:
  "\<exists>r. lzf_compress (\<lambda>_. 77) [7, 7, 7, 7, 7] [9, 9] = Some r"
  using lzf_compress_safe [of "[7, 7, 7, 7, 7]" "\<lambda>_. 77" "[9, 9]"] by auto

text \<open>
  C11. The decompressor reads and writes only inside its buffers and ends, for every input that is not
  empty, also one that no compressor has written.
\<close>

theorem lzf_decompress_safe:
  assumes "xs \<noteq> []"
  shows "\<exists>r. lzf_decompress xs out = Some r \<and> (case r of None \<Rightarrow> True | Some (n, out') \<Rightarrow> n \<le> length out' \<and> length out' = length out)"
  using lzf_loop_safe [of 0 xs 0 out] assms by (simp add: lzf_decompress_def)

theorem lzf_decompress_safe_witness:
  "\<exists>r. lzf_decompress [255, 255, 255, 0] [9, 9] = Some r"
  using lzf_decompress_safe [of "[255, 255, 255, 0]" "[9, 9]"] by auto

end
