(* ===== verification/Rdb.thy ===== *)
theory Rdb
  imports Sds Lzf
begin

text \<open>
  The encoding of lengths, integers and strings in snapshot files and DUMP payloads (\<^verbatim>\<open>rdb.c\<close>). A file that is written
  is the list of its bytes with the room that is left: a write of more bytes than that fails. A file
  that is read is the list of the bytes to come. The theorems show that every string comes back from
  what was saved for it, in whichever of the three forms, and one file that makes the reader leave its
  buffer.
\<close>

section \<open>Writing\<close>

record rio =
  rio_data :: "byte list"
  rio_room :: nat

text \<open>
  \<open>None\<close> is the result \<open>-1\<close>, otherwise the number of bytes written is returned, converted to an int. For some lengths of
  \<open>2 ^ 31\<close> and more it is negative, and for one of them it is \<open>-1\<close> although the bytes were written.
\<close>

definition rdbWriteRaw :: "byte list \<Rightarrow> rio \<Rightarrow> (rio \<times> int) option" where
  "rdbWriteRaw p rdb =
     (let n = c_int (int (length p)) in
      if length p \<le> rio_room rdb \<and> n \<noteq> -1
      then Some (\<lparr>rio_data = rio_data rdb @ p, rio_room = rio_room rdb - length p\<rparr>, n) else None)"

definition rdbSaveType :: "byte \<Rightarrow> rio \<Rightarrow> (rio \<times> int) option" where
  "rdbSaveType type rdb = rdbWriteRaw [type] rdb"

definition rdbSaveMillisecondTime :: "int64 \<Rightarrow> rio \<Rightarrow> (rio \<times> int) option" where
  "rdbSaveMillisecondTime t rdb = rdbWriteRaw (le_bytes 8 (sint t)) rdb"

abbreviation "RDB_6BITLEN \<equiv> (0 :: byte)"
abbreviation "RDB_14BITLEN \<equiv> (1 :: byte)"
abbreviation "RDB_32BITLEN \<equiv> (2 :: byte)"
abbreviation "RDB_ENCVAL \<equiv> (3 :: byte)"
abbreviation "RDB_LENERR \<equiv> (0xFFFFFFFF :: uint32)"
abbreviation "RDB_ENC_INT8 \<equiv> (0 :: uint32)"
abbreviation "RDB_ENC_INT16 \<equiv> (1 :: uint32)"
abbreviation "RDB_ENC_INT32 \<equiv> (2 :: uint32)"
abbreviation "RDB_ENC_LZF \<equiv> (3 :: uint32)"

text \<open>\<^verbatim>\<open>htonl\<close>: the bytes of the value, most significant first.\<close>

definition be_bytes :: "uint32 \<Rightarrow> byte list" where
  "be_bytes w = [ucast (drop_bit 24 w), ucast (drop_bit 16 w), ucast (drop_bit 8 w), ucast w]"

definition rdbSaveLen :: "uint32 \<Rightarrow> rio \<Rightarrow> (rio \<times> int) option" where
  "rdbSaveLen len rdb =
     (if len < 0x40 then rdbWriteRaw [ucast (len AND 0xFF) OR push_bit 6 RDB_6BITLEN] rdb
      else if len < 0x4000 then
        rdbWriteRaw [ucast (drop_bit 8 len AND 0xFF) OR push_bit 6 RDB_14BITLEN, ucast (len AND 0xFF)] rdb
      else do {
        (rdb, _) \<leftarrow> rdbWriteRaw [push_bit 6 RDB_32BITLEN] rdb;
        (rdb, _) \<leftarrow> rdbWriteRaw (be_bytes len) rdb;
        Some (rdb, 1 + 4) })"

text \<open>The bytes of an integer, empty for the result 0.\<close>

definition rdbEncodeInteger :: "int64 \<Rightarrow> byte list" where
  "rdbEncodeInteger v =
     (if sint v \<ge> - (2 ^ 7) \<and> sint v \<le> 2 ^ 7 - 1 then [push_bit 6 RDB_ENCVAL OR ucast RDB_ENC_INT8, ucast (v AND 0xFF)]
      else if sint v \<ge> - (2 ^ 15) \<and> sint v \<le> 2 ^ 15 - 1 then
        [push_bit 6 RDB_ENCVAL OR ucast RDB_ENC_INT16, ucast (v AND 0xFF), ucast (drop_bit 8 v AND 0xFF)]
      else if sint v \<ge> - (2 ^ 31) \<and> sint v \<le> 2 ^ 31 - 1 then
        [push_bit 6 RDB_ENCVAL OR ucast RDB_ENC_INT32, ucast (v AND 0xFF), ucast (drop_bit 8 v AND 0xFF),
         ucast (drop_bit 16 v AND 0xFF), ucast (drop_bit 24 v AND 0xFF)]
      else [])"

text \<open>The C function \<^verbatim>\<open>strtoll\<close> for base 10: the value, and the string behind the number.\<close>

fun strtoll_digits :: "nat \<Rightarrow> byte list \<Rightarrow> nat \<times> byte list" where
  "strtoll_digits n (c # p) = (if 48 \<le> c \<and> c \<le> 57 then strtoll_digits (10 * n + unat (c - 48)) p else (n, c # p))"
| "strtoll_digits n [] = (n, [])"

definition strtoll :: "byte list \<Rightarrow> int64 \<times> byte list" where
  "strtoll s =
     (let p = dropWhile (\<lambda>c. c = 32 \<or> (9 \<le> c \<and> c \<le> 13)) s;
          neg = (p \<noteq> [] \<and> hd p = 45);
          p = (if p \<noteq> [] \<and> (hd p = 45 \<or> hd p = 43) then tl p else p)
      in if p = [] \<or> \<not> (48 \<le> hd p \<and> hd p \<le> 57) then (0, s)
         else (case strtoll_digits 0 p of (n, p) \<Rightarrow>
           (if neg then (if n > 2 ^ 63 then LLONG_MIN else - of_nat n) else (if n > 2 ^ 63 - 1 then LLONG_MAX else of_nat n), p)))"

text \<open>\<open>None\<close> is a write outside \<open>buf\<close>, the uninitialised buffer of 32 bytes.\<close>

definition rdbTryIntegerEncoding :: "byte list \<Rightarrow> sds \<Rightarrow> byte list option" where
  "rdbTryIntegerEncoding buf s =
     (case strtoll (c_str s) of (v, endptr) \<Rightarrow>
      if endptr \<noteq> [] then Some []
      else do {
        (buf, _) \<leftarrow> ll2string buf 32 v;
        if c_str buf \<noteq> s then Some [] else Some (rdbEncodeInteger v) })"

text \<open>The sum is a \<^verbatim>\<open>ssize_t\<close>; when it is \<open>-1\<close> the caller takes it for an error.\<close>

definition rdbSaveLzfBlob :: "byte list \<Rightarrow> nat \<Rightarrow> nat \<Rightarrow> rio \<Rightarrow> (rio \<times> int) option" where
  "rdbSaveLzfBlob data compress_len original_len rdb = do {
     (rdb, n1) \<leftarrow> rdbWriteRaw [push_bit 6 RDB_ENCVAL OR ucast RDB_ENC_LZF] rdb;
     (rdb, n2) \<leftarrow> rdbSaveLen (of_nat compress_len) rdb;
     (rdb, n3) \<leftarrow> rdbSaveLen (of_nat original_len) rdb;
     (rdb, n4) \<leftarrow> rdbWriteRaw (take compress_len data) rdb;
     if n1 + n2 + n3 + n4 = -1 then None else Some (rdb, n1 + n2 + n3 + n4) }"

text \<open>
  What the memory and the machine contribute: the uninitialised hash table of the compressor, and the
  uninitialised contents of an allocation of a given size.
\<close>

record machine =
  mc_tab :: "nat \<Rightarrow> uint32"
  mc_junk :: "nat \<Rightarrow> byte list"
  mc_compression :: bool

text \<open>\<open>None\<close> outside is an access outside a buffer, \<open>None\<close> inside the result \<open>-1\<close>.\<close>

definition rdbSaveLzfStringObject :: "machine \<Rightarrow> sds \<Rightarrow> rio \<Rightarrow> (rio \<times> int) option option" where
  "rdbSaveLzfStringObject mc s rdb =
     (if length s \<le> 4 then Some (Some (rdb, 0))
      else do {
        r \<leftarrow> lzf_compress (mc_tab mc) s (take (length s - 4) (mc_junk mc (length s - 4 + 1)));
        case r of None \<Rightarrow> Some (Some (rdb, 0))
        | Some (comprlen, out) \<Rightarrow> Some (rdbSaveLzfBlob out comprlen (length s) rdb) })"

definition save_verbatim :: "sds \<Rightarrow> rio \<Rightarrow> (rio \<times> int) option" where
  "save_verbatim s rdb = do {
     (rdb, n) \<leftarrow> rdbSaveLen (of_nat (length s)) rdb;
     if length s > 0 then do { (rdb, _) \<leftarrow> rdbWriteRaw s rdb; Some (rdb, n + int (length s)) } else Some (rdb, n) }"

definition rdbSaveRawString :: "machine \<Rightarrow> sds \<Rightarrow> rio \<Rightarrow> (rio \<times> int) option option" where
  "rdbSaveRawString mc s rdb = do {
     enc \<leftarrow> (if length s \<le> 11 then rdbTryIntegerEncoding (mc_junk mc 32) s else Some []);
     if enc \<noteq> [] then Some (rdbWriteRaw enc rdb)
     else do {
       r \<leftarrow> (if mc_compression mc \<and> length s > 20 then rdbSaveLzfStringObject mc s rdb else Some (Some (rdb, 0)));
       case r of None \<Rightarrow> Some None
       | Some (rdb, n) \<Rightarrow> if n > 0 then Some (Some (rdb, n)) else Some (save_verbatim s rdb) } }"

definition rdbSaveLongLongAsStringObject :: "machine \<Rightarrow> int64 \<Rightarrow> rio \<Rightarrow> (rio \<times> int) option option" where
  "rdbSaveLongLongAsStringObject mc v rdb =
     (if rdbEncodeInteger v \<noteq> [] then Some (rdbWriteRaw (rdbEncodeInteger v) rdb)
      else do {
        (buf, enclen) \<leftarrow> ll2string (mc_junk mc 32) 32 v;
        if \<not> enclen < 32 then None
        else Some (do {
          (rdb, n) \<leftarrow> rdbSaveLen enclen rdb;
          (rdb, m) \<leftarrow> rdbWriteRaw (take (unat enclen) buf) rdb;
          Some (rdb, n + m) }) })"

text \<open>A \<^verbatim>\<open>ssize_t\<close> that is returned as an int.\<close>

definition int_result :: "(rio \<times> int) option \<Rightarrow> (rio \<times> int) option" where
  "int_result r = (case r of None \<Rightarrow> None | Some (rdb, n) \<Rightarrow> if c_int n = -1 then None else Some (rdb, c_int n))"

definition rdbSaveStringObject :: "machine \<Rightarrow> robj \<Rightarrow> rio \<Rightarrow> (rio \<times> int) option option" where
  "rdbSaveStringObject mc obj rdb =
     (case obj of IntObj v \<Rightarrow> map_option int_result (rdbSaveLongLongAsStringObject mc v rdb)
      | Raw s \<Rightarrow> map_option int_result (rdbSaveRawString mc s rdb)
      | Embstr s \<Rightarrow> map_option int_result (rdbSaveRawString mc s rdb)
      | Aggregate _ _ \<Rightarrow> None)"

section \<open>Reading\<close>

definition rioRead :: "nat \<Rightarrow> byte list \<Rightarrow> (byte list \<times> byte list) option" where
  "rioRead n file = (if n \<le> length file then Some (take n file, drop n file) else None)"

definition rdbLoadType :: "byte list \<Rightarrow> (byte \<times> byte list) option" where
  "rdbLoadType file = map_option (\<lambda>(b, file). (hd b, file)) (rioRead 1 file)"

definition rdbLoadMillisecondTime :: "byte list \<Rightarrow> int64 \<times> byte list" where
  "rdbLoadMillisecondTime file =
     (case rioRead 8 file of None \<Rightarrow> (-1, file) | Some (t64, file) \<Rightarrow> (of_int (le_sint t64), file))"

definition ntohl :: "byte list \<Rightarrow> uint32" where
  "ntohl bs = push_bit 24 (ucast (bs ! 0)) OR push_bit 16 (ucast (bs ! 1)) OR push_bit 8 (ucast (bs ! 2)) OR ucast (bs ! 3)"

text \<open>The length, \<^verbatim>\<open>isencoded\<close>, and the rest; the type has two bits, so the last branch of the function is dead.\<close>

definition rdbLoadLen :: "byte list \<Rightarrow> uint32 \<times> bool \<times> byte list" where
  "rdbLoadLen file =
     (case rioRead 1 file of None \<Rightarrow> (RDB_LENERR, False, file)
      | Some (buf, file) \<Rightarrow>
          let type = drop_bit 6 (buf ! 0 AND 0xC0) in
          if type = RDB_ENCVAL then (ucast (buf ! 0 AND 0x3F), True, file)
          else if type = RDB_6BITLEN then (ucast (buf ! 0 AND 0x3F), False, file)
          else if type = RDB_14BITLEN then
            (case rioRead 1 file of None \<Rightarrow> (RDB_LENERR, False, file)
             | Some (buf1, file) \<Rightarrow> (push_bit 8 (ucast (buf ! 0 AND 0x3F)) OR ucast (buf1 ! 0), False, file))
          else
            (case rioRead 4 file of None \<Rightarrow> (RDB_LENERR, False, file)
             | Some (len, file) \<Rightarrow> (ntohl len, False, file)))"

datatype flags = RDB_LOAD_NONE | RDB_LOAD_ENC | RDB_LOAD_PLAIN

datatype loaded = Obj robj | Plain "byte list"

text \<open>\<open>Failed\<close> is the result \<open>NULL\<close>, \<open>Exit\<close> the end of the process with a report of the corruption.\<close>

datatype load_result = Loaded loaded "byte list" | Failed | Exit

definition read_int :: "uint32 \<Rightarrow> byte list \<Rightarrow> (int64 \<times> byte list) option" where
  "read_int enctype file =
     (if enctype = RDB_ENC_INT8 then
        map_option (\<lambda>(enc, file). (scast (enc ! 0), file)) (rioRead 1 file)
      else if enctype = RDB_ENC_INT16 then
        map_option (\<lambda>(enc, file). (scast ((ucast (enc ! 0) :: 16 word) OR push_bit 8 (ucast (enc ! 1))), file)) (rioRead 2 file)
      else
        map_option (\<lambda>(enc, file). (scast ((ucast (enc ! 0) :: 32 word) OR push_bit 8 (ucast (enc ! 1)) OR
          push_bit 16 (ucast (enc ! 2)) OR push_bit 24 (ucast (enc ! 3))), file)) (rioRead 4 file))"

definition rdbLoadIntegerObject :: "machine \<Rightarrow> uint32 \<Rightarrow> flags \<Rightarrow> byte list \<Rightarrow> load_result option" where
  "rdbLoadIntegerObject mc enctype fl file =
     (if enctype \<notin> {RDB_ENC_INT8, RDB_ENC_INT16, RDB_ENC_INT32} then Some Exit
      else (case read_int enctype file of None \<Rightarrow> Some Failed
        | Some (v, file) \<Rightarrow>
            (case fl of
               RDB_LOAD_PLAIN \<Rightarrow> do {
                 (buf, len) \<leftarrow> ll2string (mc_junk mc 21) 21 v;
                 Some (Loaded (Plain (take (unat len) buf)) file) }
             | RDB_LOAD_ENC \<Rightarrow> Some (Loaded (Obj (createStringObjectFromLongLong v)) file)
             | RDB_LOAD_NONE \<Rightarrow> do {
                 s \<leftarrow> sdsfromlonglong (mc_junk mc 21) v;
                 Some (Loaded (Obj (Raw s)) file) })))"

definition rdbLoadLzfStringObject :: "machine \<Rightarrow> flags \<Rightarrow> byte list \<Rightarrow> load_result option" where
  "rdbLoadLzfStringObject mc fl file =
     (case rdbLoadLen file of (clen, _, file) \<Rightarrow>
      if clen = RDB_LENERR then Some Failed
      else (case rdbLoadLen file of (len, _, file) \<Rightarrow>
        if len = RDB_LENERR then Some Failed
        else
          let val = (if fl = RDB_LOAD_PLAIN then mc_junk mc (unat len) else replicate (unat len) 0) in
          (case rioRead (unat clen) file of None \<Rightarrow> Some Failed
           | Some (c, file) \<Rightarrow> do {
               r \<leftarrow> lzf_decompress c val;
               case r of None \<Rightarrow> Some Failed
               | Some (n, val) \<Rightarrow>
                   if n = 0 then Some Failed
                   else Some (Loaded (if fl = RDB_LOAD_PLAIN then Plain val else Obj (Raw val)) file) })))"

definition rdbGenericLoadStringObject :: "machine \<Rightarrow> flags \<Rightarrow> byte list \<Rightarrow> load_result option" where
  "rdbGenericLoadStringObject mc fl file =
     (case rdbLoadLen file of (len, isencoded, file) \<Rightarrow>
      if isencoded then
        (if len = RDB_ENC_INT8 \<or> len = RDB_ENC_INT16 \<or> len = RDB_ENC_INT32 then rdbLoadIntegerObject mc len fl file
         else if len = RDB_ENC_LZF then rdbLoadLzfStringObject mc fl file
         else Some Exit)
      else if len = RDB_LENERR then Some Failed
      else
        (case (if len \<noteq> 0 then rioRead (unat len) file else Some ([], file)) of None \<Rightarrow> Some Failed
         | Some (s, file) \<Rightarrow>
             Some (Loaded (case fl of RDB_LOAD_PLAIN \<Rightarrow> Plain s | RDB_LOAD_ENC \<Rightarrow> Obj (createStringObject s)
               | RDB_LOAD_NONE \<Rightarrow> Obj (createRawStringObject s)) file)))"

definition rdbLoadStringObject :: "machine \<Rightarrow> byte list \<Rightarrow> load_result option" where
  "rdbLoadStringObject mc file = rdbGenericLoadStringObject mc RDB_LOAD_NONE file"

definition rdbLoadEncodedStringObject :: "machine \<Rightarrow> byte list \<Rightarrow> load_result option" where
  "rdbLoadEncodedStringObject mc file = rdbGenericLoadStringObject mc RDB_LOAD_ENC file"

section \<open>Lengths come back\<close>

definition len_code :: "uint32 \<Rightarrow> byte list" where
  "len_code len =
     (if len < 0x40 then [ucast len]
      else if len < 0x4000 then [ucast (drop_bit 8 len) OR 0x40, ucast len]
      else 0x80 # be_bytes len)"

lemma ucast_low_byte: "8 \<le> LENGTH('a) \<Longrightarrow> (ucast (w AND 0xFF) :: byte) = ucast w" for w :: "'a::len word"
proof -
  have m: "(0xFF :: 'a word) = mask 8" by (simp add: mask_eq_exp_minus_1)
  show "8 \<le> LENGTH('a) \<Longrightarrow> (ucast (w AND 0xFF) :: byte) = ucast w"
    unfolding m by (rule bit_word_eqI) (auto simp: bit_simps)
qed

lemma low_six: "b AND 0x3F = take_bit 6 b" "drop_bit 6 (b AND 0xC0) = drop_bit 6 b" for b :: byte
proof -
  have m: "(0x3F :: byte) = mask 6" "(0xC0 :: byte) = NOT (mask 6)" by (simp_all add: mask_eq_exp_minus_1)
  show "b AND 0x3F = take_bit 6 b" unfolding m by (simp add: take_bit_eq_mask)
  show "drop_bit 6 (b AND 0xC0) = drop_bit 6 b" unfolding m
    by (rule bit_word_eqI) (use bit_imp_le_length [of b] in \<open>fastforce simp: bit_simps\<close>)
qed

text \<open>A write of less than \<open>2 ^ 31\<close> bytes returns their number.\<close>

lemma write_short:
  "length p < 2 ^ 31 \<Longrightarrow> rdbWriteRaw p rdb = (if length p \<le> rio_room rdb
     then Some (\<lparr>rio_data = rio_data rdb @ p, rio_room = rio_room rdb - length p\<rparr>, int (length p)) else None)"
  unfolding rdbWriteRaw_def c_int_of_nat by simp

lemma rdbSaveLen_eq: "rdbSaveLen len rdb = rdbWriteRaw (len_code len) rdb"
  by (auto simp: rdbSaveLen_def len_code_def write_short be_bytes_def ucast_low_byte)

lemma length_len_code: "0 < length (len_code len)" "length (len_code len) \<le> 5"
  by (auto simp: len_code_def be_bytes_def)

lemma take_bit_small: "uint len < 2 ^ n \<Longrightarrow> take_bit n len = len" for len :: uint32
  by (rule word_eqI_uint) (simp add: unsigned_take_bit_eq take_bit_int_eq_self)

lemma high_bits: "take_bit n len = len \<Longrightarrow> bit len k \<Longrightarrow> k < n" for len :: uint32
  by (metis bit_take_bit_iff)

lemma ntohl_be_bytes: "ntohl (be_bytes len) = len"
proof (rule bit_word_eqI)
  fix n assume "n < LENGTH(32)"
  then consider "n < 8" | "8 \<le> n" "n < 16" | "16 \<le> n" "n < 24" | "24 \<le> n" "n < 32" by fastforce
  then show "bit (ntohl (be_bytes len)) n \<longleftrightarrow> bit len n"
    by cases (auto simp: ntohl_def be_bytes_def bit_simps)
qed

lemma rdbLoadLen_code: "rdbLoadLen (len_code len @ rest) = (len, False, rest)"
proof -
  consider "len < 0x40" | "\<not> len < 0x40" "len < 0x4000" | "\<not> len < 0x4000" by blast
  then show ?thesis
  proof cases
    case 1
    then have t: "take_bit 6 len = len" by (intro take_bit_small) (simp add: word_less_def)
    have "drop_bit 6 (ucast len :: byte) = 0" "ucast (take_bit 6 (ucast len :: byte)) = len"
      by (rule bit_word_eqI; use high_bits [OF t] in \<open>fastforce simp: bit_simps\<close>)+
    then show ?thesis using 1 by (simp add: rdbLoadLen_def len_code_def rioRead_def low_six)
  next
    case 2
    have t: "take_bit 14 len = len" using 2 by (intro take_bit_small) (simp add: word_less_def)
    have six: "(0x40 :: byte) = push_bit 6 1" by simp
    have "drop_bit 6 (ucast (drop_bit 8 len) OR 0x40 :: byte) = 1"
      unfolding six by (rule bit_word_eqI) (use high_bits [OF t] in \<open>fastforce simp: bit_simps bit_1_iff\<close>)
    moreover have "push_bit 8 (ucast (take_bit 6 (ucast (drop_bit 8 len) OR 0x40 :: byte))) OR ucast (ucast len :: byte) = len"
      unfolding six by (rule bit_word_eqI) (use high_bits [OF t] in \<open>fastforce simp: bit_simps bit_1_iff\<close>)
    ultimately show ?thesis using 2 by (simp add: rdbLoadLen_def len_code_def rioRead_def low_six)
  next
    case 3
    have "\<not> len < 0x40" using 3 by (simp add: word_less_nat_alt)
    then show ?thesis using 3 ntohl_be_bytes [of len]
      by (simp add: rdbLoadLen_def len_code_def rioRead_def low_six be_bytes_def)
  qed
qed

section \<open>Integers come back\<close>

lemma sint_ucast_range:
  fixes v :: int64
  assumes "- (2 ^ (LENGTH('b) - 1)) \<le> sint v" "sint v < 2 ^ (LENGTH('b) - 1)" "LENGTH('b::len) \<le> 64"
  shows "scast (ucast v :: 'b word) = v"
proof -
  have "sint (ucast v :: 'b word) = signed_take_bit (LENGTH('b) - 1) (uint v)" by (simp add: signed_ucast_eq)
  also have "uint v = take_bit 64 (sint v)" using uint_sint [of v] by simp
  also have "signed_take_bit (LENGTH('b) - 1) (take_bit 64 (sint v)) = signed_take_bit (LENGTH('b) - 1) (sint v)"
    using assms(3) by (simp add: signed_take_bit_take_bit)
  also have "\<dots> = sint v" using assms(1,2) by (intro signed_take_bit_int_eq_self) auto
  finally show ?thesis by (simp add: scast_eq)
qed

lemma int_code:
  assumes "rdbEncodeInteger v = c # enc"
  shows "\<exists>t. rdbLoadLen (c # enc @ rest) = (t, True, enc @ rest) \<and> t \<in> {RDB_ENC_INT8, RDB_ENC_INT16, RDB_ENC_INT32} \<and>
    read_int t (enc @ rest) = Some (v, rest)"
proof -
  note low = ucast_low_byte [where 'a = 64, simplified]
  consider (a) "- (2 ^ 7) \<le> sint v" "sint v < 2 ^ 7" "c = 0xC0" "enc = [ucast v]"
    | (b) "- (2 ^ 15) \<le> sint v" "sint v < 2 ^ 15" "c = 0xC1" "enc = [ucast v, ucast (drop_bit 8 v)]"
    | (c) "- (2 ^ 31) \<le> sint v" "sint v < 2 ^ 31" "c = 0xC2" "enc = [ucast v, ucast (drop_bit 8 v), ucast (drop_bit 16 v), ucast (drop_bit 24 v)]"
    using assms by (auto simp: rdbEncodeInteger_def low split: if_splits)
  then show ?thesis
  proof cases
    case a
    have "scast (ucast v :: byte) = v" using a(1,2) by (intro sint_ucast_range) auto
    then show ?thesis using a by (simp add: rdbLoadLen_def rioRead_def read_int_def)
  next
    case b
    have "(ucast (ucast v :: byte) :: 16 word) OR push_bit 8 (ucast (ucast (drop_bit 8 v) :: byte)) = ucast v"
      by (rule bit_word_eqI) (auto simp: bit_simps)
    moreover have "scast (ucast v :: 16 word) = v" using b(1,2) by (intro sint_ucast_range) auto
    ultimately show ?thesis using b by (simp add: rdbLoadLen_def rioRead_def read_int_def)
  next
    case c
    have "(ucast (ucast v :: byte) :: 32 word) OR push_bit 8 (ucast (ucast (drop_bit 8 v) :: byte)) OR
        push_bit 16 (ucast (ucast (drop_bit 16 v) :: byte)) OR push_bit 24 (ucast (ucast (drop_bit 24 v) :: byte)) = ucast v"
    proof (rule bit_word_eqI)
      fix n assume "n < LENGTH(32)"
      then consider "n < 8" | "8 \<le> n" "n < 16" | "16 \<le> n" "n < 24" | "24 \<le> n" "n < 32" by fastforce
      then show "bit ((ucast (ucast v :: byte) :: 32 word) OR push_bit 8 (ucast (ucast (drop_bit 8 v) :: byte)) OR
        push_bit 16 (ucast (ucast (drop_bit 16 v) :: byte)) OR push_bit 24 (ucast (ucast (drop_bit 24 v) :: byte))) n = bit (ucast v :: 32 word) n"
        by cases (auto simp: bit_simps)
    qed
    moreover have "scast (ucast v :: 32 word) = v" using c(1,2) by (intro sint_ucast_range) auto
    ultimately show ?thesis using c by (simp add: rdbLoadLen_def rioRead_def read_int_def)
  qed
qed

section \<open>Strings come back\<close>

fun loaded_bytes :: "loaded \<Rightarrow> byte list option" where
  "loaded_bytes (Obj obj) = obj_bytes obj"
| "loaded_bytes (Plain s) = Some s"

text \<open>A sound machine returns blocks of the size that was asked for.\<close>

definition machine_ok :: "machine \<Rightarrow> bool" where
  "machine_ok mc \<longleftrightarrow> (\<forall>n. length (mc_junk mc n) = n)"

text \<open>The bytes are read back as the string, for every kind of result and on every machine.\<close>

definition readable :: "byte list \<Rightarrow> sds \<Rightarrow> bool" where
  "readable w s \<longleftrightarrow> (\<forall>mc fl rest. machine_ok mc \<longrightarrow>
     (\<exists>x. rdbGenericLoadStringObject mc fl (w @ rest) = Some (Loaded x rest) \<and> loaded_bytes x = Some s))"

lemma int_readable:
  assumes "rdbEncodeInteger v \<noteq> []"
  shows "readable (rdbEncodeInteger v) (sdec v)"
  unfolding readable_def
proof (intro allI impI)
  fix mc fl rest assume mc: "machine_ok mc"
  obtain c enc where e: "rdbEncodeInteger v = c # enc" using assms by (cases "rdbEncodeInteger v") auto
  obtain t where t: "rdbLoadLen (c # enc @ rest) = (t, True, enc @ rest)" "t = 0 \<or> t = 1 \<or> t = 2"
    "read_int t (enc @ rest) = Some (v, rest)" using int_code [OF e, of rest] by auto
  have l: "length (sdec v) \<le> 20" "length (mc_junk mc 21) = 21" using mc by (simp_all add: length_sdec machine_ok_def)
  then have "unat (of_nat (length (sdec v)) :: uint32) = length (sdec v)" by (simp add: unsigned_of_nat take_bit_nat_eq_self)
  then have "\<exists>x. rdbLoadIntegerObject mc t fl (enc @ rest) = Some (Loaded x rest) \<and> loaded_bytes x = Some (sdec v)"
    using t(2,3) l by (cases fl) (auto simp: rdbLoadIntegerObject_def ll2string_eq sdsfromlonglong_eq Let_def)
  then show "\<exists>x. rdbGenericLoadStringObject mc fl (rdbEncodeInteger v @ rest) = Some (Loaded x rest) \<and> loaded_bytes x = Some (sdec v)"
    using t(1,2) e by (auto simp: rdbGenericLoadStringObject_def)
qed

lemma len_not_err:
  assumes "n < 2 ^ 32 - 1"
  shows "(of_nat n :: uint32) \<noteq> RDB_LENERR" "unat (of_nat n :: uint32) = n"
proof -
  show u: "unat (of_nat n :: uint32) = n" using assms by (simp add: unsigned_of_nat take_bit_nat_eq_self)
  show "(of_nat n :: uint32) \<noteq> RDB_LENERR"
  proof
    assume "(of_nat n :: uint32) = RDB_LENERR"
    then have "n = unat (0xFFFFFFFF :: uint32)" using u by simp
    then show False using assms by simp
  qed
qed

lemma verbatim_readable:
  assumes "length s < 2 ^ 32 - 1"
  shows "readable (len_code (of_nat (length s)) @ s) s"
proof -
  note l = len_not_err [OF assms]
  have z: "(of_nat (length s) :: uint32) = 0 \<longleftrightarrow> s = []" using l(2) by (metis length_0_conv unat_0 unat_eq_zero)
  have "\<exists>x. rdbGenericLoadStringObject mc fl (len_code (of_nat (length s)) @ s @ rest) = Some (Loaded x rest) \<and> loaded_bytes x = Some s"
    for mc fl rest
    using l z by (cases fl; cases "s = []") (auto simp: rdbGenericLoadStringObject_def rdbLoadLen_code rioRead_def createRawStringObject_def)
  then show ?thesis by (simp add: readable_def)
qed

lemma lzf_readable:
  assumes "2 \<le> length s" "length s < 2 ^ 32 - 1" "length c < length s"
    and d: "\<And>buf. length buf = length s \<Longrightarrow> lzf_decompress c buf = Some (Some (length s, s))"
  shows "readable (0xC3 # len_code (of_nat (length c)) @ len_code (of_nat (length s)) @ c) s"
proof -
  have "length c < 2 ^ 32 - 1" using assms(2,3) by linarith
  note l = len_not_err [OF this] len_not_err [OF assms(2)]
  have c3: "rdbLoadLen (0xC3 # xs) = (3, True, xs)" for xs by (simp add: rdbLoadLen_def rioRead_def low_six)
  have "\<exists>x. rdbGenericLoadStringObject mc fl (0xC3 # len_code (of_nat (length c)) @ len_code (of_nat (length s)) @ c @ rest) = Some (Loaded x rest) \<and>
    loaded_bytes x = Some s" if "machine_ok mc" for mc fl rest
    using that assms(1) l by (cases "fl = RDB_LOAD_PLAIN")
      (auto simp: rdbGenericLoadStringObject_def c3 rdbLoadLzfStringObject_def rdbLoadLen_code rioRead_def d machine_ok_def)
  then show ?thesis by (simp add: readable_def)
qed

section \<open>What is written\<close>

text \<open>Consecutive writes are one write.\<close>

lemma write_append:
  "length a + length b < 2 ^ 31 \<Longrightarrow> Option.bind (rdbWriteRaw a rdb) (\<lambda>(rdb, n). Option.bind (rdbWriteRaw b rdb) (\<lambda>(rdb, m). Some (rdb, n + m))) = rdbWriteRaw (a @ b) rdb"
  by (auto simp: write_short)

lemma lzfBlob_eq:
  assumes "length (0xC3 # len_code (of_nat n) @ len_code (of_nat m) @ take n data) < 2 ^ 31"
  shows "rdbSaveLzfBlob data n m rdb = rdbWriteRaw (0xC3 # len_code (of_nat n) @ len_code (of_nat m) @ take n data) rdb"
  using assms by (auto simp: rdbSaveLzfBlob_def rdbSaveLen_eq write_short add.assoc)

lemma save_verbatim_eq:
  assumes "length s < 2 ^ 31 - 7"
  shows "save_verbatim s rdb = rdbWriteRaw (len_code (of_nat (length s)) @ s) rdb"
  using assms length_len_code [of "of_nat (length s)"] by (auto simp: save_verbatim_def rdbSaveLen_eq write_short)

lemma length_encodeInteger: "length (rdbEncodeInteger v) \<le> 5"
  by (simp add: rdbEncodeInteger_def)

lemma tryInteger:
  assumes "length buf = 32"
  shows "\<exists>enc. rdbTryIntegerEncoding buf s = Some enc \<and> (enc = [] \<or> (\<exists>v. enc = rdbEncodeInteger v \<and> s = sdec v))"
proof -
  obtain v endptr where "strtoll (c_str s) = (v, endptr)" by fastforce
  then show ?thesis using assms length_sdec [of v] by (auto simp: rdbTryIntegerEncoding_def ll2string_eq Let_def c_str_sdec)
qed

text \<open>A string that is written as \<open>w\<close>, and how much longer that is.\<close>

definition saved :: "(rio \<Rightarrow> (rio \<times> int) option option) \<Rightarrow> sds \<Rightarrow> byte list \<Rightarrow> bool" where
  "saved save s w \<longleftrightarrow> (\<forall>rdb. save rdb = Some (rdbWriteRaw w rdb)) \<and> readable w s \<and> 0 < length w \<and> length w \<le> length s + 7"

lemma longlong_saved:
  assumes "machine_ok mc"
  shows "\<exists>w. saved (rdbSaveLongLongAsStringObject mc v) (sdec v) w"
proof (cases "rdbEncodeInteger v = []")
  case False
  then show ?thesis using int_readable [OF False] length_encodeInteger [of v]
    by (intro exI [of _ "rdbEncodeInteger v"]) (auto simp: saved_def rdbSaveLongLongAsStringObject_def)
next
  case True
  have l: "length (sdec v) \<le> 20" "length (mc_junk mc 32) = 32" using assms by (simp_all add: length_sdec machine_ok_def)
  then have u: "unat (of_nat (length (sdec v)) :: uint32) = length (sdec v)" by (simp add: unsigned_of_nat take_bit_nat_eq_self)
  then have "(of_nat (length (sdec v)) :: uint32) < 32" using l by (simp add: word_less_nat_alt)
  then have "rdbSaveLongLongAsStringObject mc v rdb = Some (rdbWriteRaw (len_code (of_nat (length (sdec v))) @ sdec v) rdb)" for rdb
    using True l u length_len_code(2) [of "of_nat (length (sdec v))"] write_append [of "len_code (of_nat (length (sdec v)))" "sdec v" rdb]
    by (simp add: rdbSaveLongLongAsStringObject_def ll2string_eq rdbSaveLen_eq Let_def)
  moreover have "readable (len_code (of_nat (length (sdec v))) @ sdec v) (sdec v)" using l by (intro verbatim_readable) simp
  moreover note length_len_code [of "of_nat (length (sdec v))"]
  ultimately show ?thesis unfolding saved_def by (intro exI [of _ "len_code (of_nat (length (sdec v))) @ sdec v"]) auto
qed

lemma lzf_saved:
  assumes "machine_ok mc" "20 < length s" "length s < 2 ^ 31 - 7"
  shows "(\<forall>rdb. rdbSaveLzfStringObject mc s rdb = Some (Some (rdb, 0))) \<or>
    (\<exists>w. saved (rdbSaveLzfStringObject mc s) s w)"
proof -
  let ?out = "take (length s - 4) (mc_junk mc (length s - 4 + 1))"
  have l: "length ?out = length s - 4" using assms(1) by (simp add: machine_ok_def)
  have s: "2 \<le> length s" "length s < 2 ^ 32" using assms(2,3) by simp_all
  show ?thesis
    using s
  proof (cases rule: lz.pack_cases [where tab = "mc_tab mc" and out = ?out])
    case refused
    then show ?thesis using assms(2) by (simp add: rdbSaveLzfStringObject_def)
  next
    case (packed n out')
    let ?c = "take n out'"
    let ?w = "0xC3 # len_code (of_nat (length ?c)) @ len_code (of_nat (length s)) @ ?c"
    have n: "n \<le> length s - 4" using packed(3) l by simp
    then have "readable ?w s" using packed(2,4) assms(2,3) by (intro lzf_readable) auto
    moreover have "length ?w = 1 + length (len_code (of_nat (length ?c))) + length (len_code (of_nat (length s))) + n"
      using packed(2) by simp
    then have "length ?w \<le> length s + 7"
      using n assms(2) length_len_code(2) [of "of_nat (length ?c)"] length_len_code(2) [of "of_nat (length s)"] by linarith
    moreover from this have "length ?w < 2 ^ 31" using assms(3) by linarith
    then have "rdbSaveLzfBlob out' n (length s) rdb = rdbWriteRaw ?w rdb" for rdb
      using packed(2) lzfBlob_eq [of n "length s" out' rdb] by simp
    ultimately have "saved (rdbSaveLzfStringObject mc s) s ?w"
      using packed(1) assms(2) by (simp add: saved_def rdbSaveLzfStringObject_def)
    then show ?thesis by blast
  qed
qed

lemma write_positive: "0 < length w \<Longrightarrow> length w < 2 ^ 31 \<Longrightarrow> rdbWriteRaw w rdb = None \<or> (\<exists>rdb' n. rdbWriteRaw w rdb = Some (rdb', n) \<and> 0 < n)"
  by (auto simp: write_short)

lemma int_result_short: "length w < 2 ^ 31 \<Longrightarrow> int_result (rdbWriteRaw w rdb) = rdbWriteRaw w rdb"
  by (auto simp: int_result_def write_short c_int_of_nat)

lemma raw_saved:
  assumes "machine_ok mc" "length s < 2 ^ 31 - 7"
  shows "\<exists>w. saved (rdbSaveRawString mc s) s w"
proof -
  have junk: "length (mc_junk mc 32) = 32" using assms(1) by (simp add: machine_ok_def)
  consider (int) v where "length s \<le> 11" "s = sdec v" "rdbEncodeInteger v \<noteq> []" "rdbTryIntegerEncoding (mc_junk mc 32) s = Some (rdbEncodeInteger v)"
    | (chars) "(if length s \<le> 11 then rdbTryIntegerEncoding (mc_junk mc 32) s else Some []) = Some []"
    using tryInteger [OF junk, of s] by (cases "length s \<le> 11") fastforce+
  then show ?thesis
  proof cases
    case int
    then show ?thesis using int_readable [OF int(3)] length_encodeInteger [of v]
      by (intro exI [of _ "rdbEncodeInteger v"]) (simp add: saved_def rdbSaveRawString_def)
  next
    case chars
    let ?w = "len_code (of_nat (length s)) @ s"
    have plain: "\<exists>w. saved (rdbSaveRawString mc s) s w"
      if "\<forall>rdb. (if mc_compression mc \<and> length s > 20 then rdbSaveLzfStringObject mc s rdb else Some (Some (rdb, 0))) = Some (Some (rdb, 0))"
      using that chars verbatim_readable [of s] assms(2) length_len_code [of "of_nat (length s)"]
      by (intro exI [of _ ?w]) (simp add: saved_def rdbSaveRawString_def save_verbatim_eq [OF assms(2)])
    show ?thesis
    proof (cases "mc_compression mc \<and> length s > 20")
      case True
      show ?thesis
        using lzf_saved [OF assms(1) conjunct2 [OF True] assms(2)]
      proof
        assume "\<exists>w. saved (rdbSaveLzfStringObject mc s) s w"
        then obtain w where w: "saved (rdbSaveLzfStringObject mc s) s w" by blast
        then have "0 < length w" "length w < 2 ^ 31" using assms(2) by (auto simp: saved_def)
        then have "rdbSaveRawString mc s rdb = Some (rdbWriteRaw w rdb)" for rdb
          using w True chars write_positive [of w rdb] by (auto simp: saved_def rdbSaveRawString_def)
        then have "saved (rdbSaveRawString mc s) s w" using w by (simp add: saved_def)
        then show ?thesis by blast
      qed (use plain True in simp)
    qed (use plain in auto)
  qed
qed

text \<open>
  C9. Saving and loading strings: a string object of less than \<open>2 ^ 31 - 7\<close> bytes is saved as bytes
  \<open>w\<close>, at most seven more than it has, and the save only fails when the file has no room for them.
  Whatever follows them in the file, all three loaders read back exactly the bytes of the string, whether
  it was saved as an integer, compressed or as it is, and whatever uninitialised memory held. From \<open>2 ^ 31\<close> bytes on
  the counts of written bytes, which are ints, are wrong; strings of the server have at most 512 MB.
\<close>

theorem rdb_string_roundtrip:
  assumes "machine_ok mc" "obj_bytes obj = Some s" "length s < 2 ^ 31 - 7"
  shows "\<exists>w. (\<forall>rdb. rdbSaveStringObject mc obj rdb = Some (rdbWriteRaw w rdb)) \<and> 0 < length w \<and> length w \<le> length s + 7 \<and>
    readable w s"
proof -
  obtain save w where save: "saved save s w" "\<And>rdb. rdbSaveStringObject mc obj rdb = map_option int_result (save rdb)"
  proof (cases obj)
    case (IntObj v)
    then show ?thesis
      using that [of "rdbSaveLongLongAsStringObject mc v"] longlong_saved [OF assms(1), of v] assms(2) by (auto simp: rdbSaveStringObject_def)
  qed (use that [of "rdbSaveRawString mc s"] raw_saved [OF assms(1,3)] assms(2) in \<open>auto simp: rdbSaveStringObject_def\<close>)
  then have "length w < 2 ^ 31" using assms(3) by (simp add: saved_def)
  then show ?thesis using save by (auto simp: saved_def int_result_short)
qed

definition sample_machine :: machine where
  "sample_machine = \<lparr>mc_tab = (\<lambda>_. 5), mc_junk = (\<lambda>n. replicate n 7), mc_compression = True\<rparr>"

theorem rdb_string_roundtrip_witness:
  "\<exists>w. rdbSaveStringObject sample_machine (Raw [49, 50, 51]) \<lparr>rio_data = [], rio_room = 100\<rparr> = Some (rdbWriteRaw w \<lparr>rio_data = [], rio_room = 100\<rparr>) \<and>
     readable w [49, 50, 51]"
proof -
  have "machine_ok sample_machine" by (simp add: machine_ok_def sample_machine_def)
  then show ?thesis using rdb_string_roundtrip [of sample_machine "Raw [49, 50, 51]" "[49, 50, 51]"] by auto
qed

text \<open>
  A file in which a compressed string has the compressed length 0 makes the loader read a byte of the
  block of zero bytes it has allocated: the decompressor looks at its first code before it has
  tested that there is one. The same file is refused when the compressed length is 1.
\<close>

theorem rdb_empty_lzf:
  "rdbGenericLoadStringObject mc fl (0xC3 # 0 # 5 # rest) = None"
  "rdbGenericLoadStringObject mc fl [0xC3, 1, 5, 255] = Some Failed"
  by (auto simp: rdbGenericLoadStringObject_def rdbLoadLen_def rioRead_def rdbLoadLzfStringObject_def low_six lzf_decompress_def
    lzf_loop.simps lzf_step_def mem_get_def)

end
