(* ===== verification/Backlog.thy ===== *)
theory Backlog
  imports Protocol "HOL-Library.Signed_Division"
begin

text \<open>
  The replication stream of a master (\<^verbatim>\<open>replication.c\<close>): the commands that are propagated go, as requests of
  the protocol, into a circular buffer and to every slave, and a slave that comes back asks for the
  part of the stream it has missed. The numbers of the state are integers; none exceeds the size of the buffer or the
  length of the stream, so no \<^verbatim>\<open>long long\<close> overflows. The theorems show that the buffer always holds the
  end of the stream, that all slaves receive the same bytes, and that a partial resynchronization leaves no gap.
\<close>

section \<open>State\<close>

datatype slave_state = WAIT_BGSAVE_START | WAIT_BGSAVE_END | SEND_BULK | ONLINE

record slave =
  sl_id :: nat
  replstate :: slave_state
  repl_ack_time :: int
  repl_put_online_on_ack :: bool
  is_slave :: bool
  closing :: bool
  sent :: "byte list"

record repl =
  runid :: sds
  master_repl_offset :: int
  repl_backlog :: "byte list option"
  repl_backlog_size :: int
  repl_backlog_histlen :: int
  repl_backlog_idx :: int
  repl_backlog_off :: int
  slaves :: "slave list"
  slaveseldb :: int64
  unixtime :: int
  min_slaves_to_write :: int
  min_slaves_max_lag :: int
  good_slaves_count :: nat

abbreviation "BACKLOG_MIN_SIZE \<equiv> (1024 * 16 :: int)"

section \<open>The circular buffer\<close>

text \<open>\<open>None\<close> is a failed assertion or an access outside a buffer; \<open>junk\<close> gives the contents of a new block.\<close>

definition createReplicationBacklog :: "(nat \<Rightarrow> byte list) \<Rightarrow> repl \<Rightarrow> repl option" where
  "createReplicationBacklog junk r =
     (if repl_backlog r \<noteq> None then None
      else Some (r\<lparr>repl_backlog := Some (junk (nat (repl_backlog_size r))), repl_backlog_histlen := 0, repl_backlog_idx := 0,
        master_repl_offset := master_repl_offset r + 1, repl_backlog_off := master_repl_offset r + 1 + 1\<rparr>))"

definition resizeReplicationBacklog :: "(nat \<Rightarrow> byte list) \<Rightarrow> int \<Rightarrow> repl \<Rightarrow> repl" where
  "resizeReplicationBacklog junk newsize r =
     (let newsize = (if newsize < BACKLOG_MIN_SIZE then BACKLOG_MIN_SIZE else newsize) in
      if repl_backlog_size r = newsize then r
      else
        let r = r\<lparr>repl_backlog_size := newsize\<rparr> in
        if repl_backlog r \<noteq> None then
          r\<lparr>repl_backlog := Some (junk (nat newsize)), repl_backlog_histlen := 0, repl_backlog_idx := 0,
            repl_backlog_off := master_repl_offset r + 1\<rparr>
        else r)"

definition freeReplicationBacklog :: "repl \<Rightarrow> repl option" where
  "freeReplicationBacklog r = (if slaves r \<noteq> [] then None else Some (r\<lparr>repl_backlog := None\<rparr>))"

text \<open>\<^verbatim>\<open>thislen\<close> is a \<^verbatim>\<open>size_t\<close>, so a negative difference would be a huge one.\<close>

definition this_len :: "int \<Rightarrow> nat \<Rightarrow> nat" where
  "this_len space len = (if space < 0 \<or> space > int len then len else nat space)"

partial_function (option) feed_loop :: "byte list \<Rightarrow> repl \<Rightarrow> repl option" where
  "feed_loop p r =
     (if p = [] then Some r
      else do {
        buf \<leftarrow> repl_backlog r;
        let thislen = this_len (repl_backlog_size r - repl_backlog_idx r) (length p);
        buf \<leftarrow> mem_write buf (nat (repl_backlog_idx r)) (take thislen p);
        let idx = repl_backlog_idx r + int thislen;
        let idx = (if idx = repl_backlog_size r then 0 else idx);
        feed_loop (drop thislen p) (r\<lparr>repl_backlog := Some buf, repl_backlog_idx := idx,
          repl_backlog_histlen := repl_backlog_histlen r + int thislen\<rparr>) })"

definition feedReplicationBacklog :: "byte list \<Rightarrow> repl \<Rightarrow> repl option" where
  "feedReplicationBacklog p r = do {
     r \<leftarrow> feed_loop p (r\<lparr>master_repl_offset := master_repl_offset r + int (length p)\<rparr>);
     let r = (if repl_backlog_histlen r > repl_backlog_size r then r\<lparr>repl_backlog_histlen := repl_backlog_size r\<rparr> else r);
     Some (r\<lparr>repl_backlog_off := master_repl_offset r - repl_backlog_histlen r + 1\<rparr>) }"

text \<open>\<open>llstr\<close> is the uninitialised buffer of 21 bytes.\<close>

definition feedReplicationBacklogWithObject :: "byte list \<Rightarrow> robj \<Rightarrow> repl \<Rightarrow> repl option" where
  "feedReplicationBacklogWithObject llstr obj r =
     (case obj of
        IntObj v \<Rightarrow> do { (buf, len) \<leftarrow> ll2string llstr 21 v; feedReplicationBacklog (take (unat len) buf) r }
      | Raw s \<Rightarrow> feedReplicationBacklog s r
      | Embstr s \<Rightarrow> feedReplicationBacklog s r
      | Aggregate _ _ \<Rightarrow> None)"

section \<open>Replies to slaves\<close>

definition addReplyString :: "byte list \<Rightarrow> slave \<Rightarrow> slave" where
  "addReplyString s c = c\<lparr>sent := sent c @ s\<rparr>"

text \<open>A prefix, a number and a line end in \<open>buf\<close>; the length is the one of the number.\<close>

definition print_header :: "byte \<Rightarrow> int64 \<Rightarrow> byte list \<Rightarrow> (byte list \<times> nat) option" where
  "print_header c n buf = do {
     buf \<leftarrow> mem_set buf 0 c;
     (rest, len) \<leftarrow> ll2string (tl buf) (length buf - 1) n;
     buf \<leftarrow> mem_set (hd buf # rest) (unat len + 1) 13;
     buf \<leftarrow> mem_set buf (unat len + 2) 10;
     Some (buf, unat len) }"

text \<open>The shared objects hold the text that is printed otherwise.\<close>

definition shared_hdr :: "byte \<Rightarrow> nat \<Rightarrow> byte list" where
  "shared_hdr c n = c # dec n @ [13, 10]"

definition addReplyLongLongWithPrefix :: "byte list \<Rightarrow> int64 \<Rightarrow> byte \<Rightarrow> slave \<Rightarrow> slave option" where
  "addReplyLongLongWithPrefix buf ll prefix c =
     (if prefix = 42 \<and> sint ll < 32 \<and> sint ll \<ge> 0 then Some (addReplyString (shared_hdr 42 (unat ll)) c)
      else if prefix = 36 \<and> sint ll < 32 \<and> sint ll \<ge> 0 then Some (addReplyString (shared_hdr 36 (unat ll)) c)
      else do { (buf, len) \<leftarrow> print_header prefix ll buf; Some (addReplyString (take (len + 3) buf) c) })"

text \<open>\<open>None\<close> for a negative length, an index outside the table of shared headers.\<close>

definition addReplyMultiBulkLen :: "byte list \<Rightarrow> int64 \<Rightarrow> slave \<Rightarrow> slave option" where
  "addReplyMultiBulkLen buf len c =
     (if sint len < 32 then (if sint len < 0 then None else Some (addReplyString (shared_hdr 42 (unat len)) c))
      else addReplyLongLongWithPrefix buf len 42 c)"

text \<open>\<^verbatim>\<open>while((n = n/10) != 0) len++\<close>; the division of C rounds towards zero.\<close>

function radix_len :: "int \<Rightarrow> nat \<Rightarrow> nat" where
  "radix_len n len = (let n = n sdiv 10 in if n \<noteq> 0 then radix_len n (len + 1) else len)"
  by pat_completeness auto
termination
  by (relation "measure (\<lambda>(n, len). nat \<bar>n\<bar>)") (auto simp: signed_divide_int_def abs_mult)

declare radix_len.simps [simp del]

definition bulk_len :: "robj \<Rightarrow> nat option" where
  "bulk_len obj =
     (case obj of
        IntObj v \<Rightarrow> Some (if sint v < 0 then radix_len (sint (- v)) 2 else radix_len (sint v) 1)
      | Raw s \<Rightarrow> Some (length s)
      | Embstr s \<Rightarrow> Some (length s)
      | Aggregate _ _ \<Rightarrow> None)"

definition addReplyBulkLen :: "byte list \<Rightarrow> robj \<Rightarrow> slave \<Rightarrow> slave option" where
  "addReplyBulkLen buf obj c = do {
     len \<leftarrow> bulk_len obj;
     if len < 32 then Some (addReplyString (shared_hdr 36 len) c)
     else addReplyLongLongWithPrefix buf (of_nat len) 36 c }"

text \<open>\<^verbatim>\<open>addReply\<close> of a string object; an integer is printed into a buffer of 32 bytes.\<close>

definition addReply_obj :: "byte list \<Rightarrow> robj \<Rightarrow> slave \<Rightarrow> slave option" where
  "addReply_obj buf obj c =
     (case obj of
        IntObj v \<Rightarrow> do { (buf, len) \<leftarrow> ll2string (take 32 buf) 32 v; Some (addReplyString (take (unat len) buf) c) }
      | Raw s \<Rightarrow> Some (addReplyString s c)
      | Embstr s \<Rightarrow> Some (addReplyString s c)
      | Aggregate _ _ \<Rightarrow> None)"

definition addReplyBulk_obj :: "byte list \<Rightarrow> robj \<Rightarrow> slave \<Rightarrow> slave option" where
  "addReplyBulk_obj buf obj c = do {
     c \<leftarrow> addReplyBulkLen buf obj c;
     c \<leftarrow> addReply_obj buf obj c;
     Some (addReplyString [13, 10] c) }"

section \<open>Feeding the stream\<close>

text \<open>The SELECT command, shared for the first databases, with the same text.\<close>

definition select_text :: "int64 \<Rightarrow> sds" where
  "select_text dictid =
     [42, 50, 13, 10, 36, 54, 13, 10, 83, 69, 76, 69, 67, 84, 13, 10, 36] @ dec (length (sdec dictid)) @ [13, 10] @ sdec dictid @ [13, 10]"

fun map_slaves :: "(slave \<Rightarrow> slave option) \<Rightarrow> slave list \<Rightarrow> slave list option" where
  "map_slaves f [] = Some []"
| "map_slaves f (c # cs) = do {
     c \<leftarrow> (if replstate c = WAIT_BGSAVE_START then Some c else f c);
     cs \<leftarrow> map_slaves f cs;
     Some (c # cs) }"

definition feed_select :: "int64 \<Rightarrow> repl \<Rightarrow> repl option" where
  "feed_select dictid r =
     (if slaveseldb r \<noteq> dictid then do {
        r \<leftarrow> (if repl_backlog r \<noteq> None then feedReplicationBacklogWithObject [] (Raw (select_text dictid)) r else Some r);
        cs \<leftarrow> map_slaves (\<lambda>c. Some (addReplyString (select_text dictid) c)) (slaves r);
        Some (r\<lparr>slaves := cs\<rparr>) }
      else Some r)"

fun feed_args :: "byte list \<Rightarrow> byte list \<Rightarrow> robj list \<Rightarrow> repl \<Rightarrow> repl option" where
  "feed_args aux llstr [] r = Some r"
| "feed_args aux llstr (a # args) r = do {
     objlen \<leftarrow> stringObjectLen a;
     (aux, len) \<leftarrow> print_header 36 (of_nat objlen) aux;
     r \<leftarrow> feedReplicationBacklog (take (len + 3) aux) r;
     r \<leftarrow> feedReplicationBacklogWithObject llstr a r;
     r \<leftarrow> feedReplicationBacklog (take 2 (drop (len + 1) aux)) r;
     feed_args aux llstr args r }"

fun reply_args :: "byte list \<Rightarrow> robj list \<Rightarrow> slave \<Rightarrow> slave option" where
  "reply_args buf [] c = Some c"
| "reply_args buf (a # args) c = do { c \<leftarrow> addReplyBulk_obj buf a c; reply_args buf args c }"

text \<open>
  \<open>junk\<close> gives the contents of uninitialised buffers: \<^verbatim>\<open>aux\<close> has 24 bytes, \<^verbatim>\<open>buf\<close> of the replies 128. The
  argument \<^verbatim>\<open>slaves\<close> is always the list of the server.
\<close>

definition replicationFeedSlaves :: "(nat \<Rightarrow> byte list) \<Rightarrow> int64 \<Rightarrow> robj list \<Rightarrow> repl \<Rightarrow> repl option" where
  "replicationFeedSlaves junk dictid args r =
     (if repl_backlog r = None \<and> slaves r = [] then Some r
      else if slaves r \<noteq> [] \<and> repl_backlog r = None then None
      else do {
        r \<leftarrow> feed_select dictid r;
        let r = r\<lparr>slaveseldb := dictid\<rparr>;
        r \<leftarrow> (if repl_backlog r \<noteq> None then do {
                (aux, len) \<leftarrow> print_header 42 (of_nat (length args)) (junk 24);
                r \<leftarrow> feedReplicationBacklog (take (len + 3) aux) r;
                feed_args aux (junk 21) args r }
              else Some r);
        cs \<leftarrow> map_slaves (\<lambda>c. do {
                c \<leftarrow> addReplyMultiBulkLen (junk 128) (of_nat (length args)) c;
                reply_args (junk 128) args c }) (slaves r);
        Some (r\<lparr>slaves := cs\<rparr>) })"

section \<open>Partial resynchronization\<close>

text \<open>The loop of \<^verbatim>\<open>addReplyReplicationBacklog\<close>.\<close>

partial_function (option) reply_loop :: "byte list \<Rightarrow> int \<Rightarrow> int \<Rightarrow> int \<Rightarrow> slave \<Rightarrow> slave option" where
  "reply_loop buf bsize j len c =
     (if len = 0 then Some c
      else do {
        let thislen = (if bsize - j < len then bsize - j else len);
        s \<leftarrow> (if j < 0 \<or> thislen < 0 then None else mem_read buf (nat j) (nat thislen));
        reply_loop buf bsize 0 (len - thislen) (addReplyString s c) })"

definition addReplyReplicationBacklog :: "slave \<Rightarrow> int \<Rightarrow> repl \<Rightarrow> (slave \<times> int) option" where
  "addReplyReplicationBacklog c offset r =
     (if repl_backlog_histlen r = 0 then Some (c, 0)
      else do {
        let skip = offset - repl_backlog_off r;
        let j = (repl_backlog_idx r + (repl_backlog_size r - repl_backlog_histlen r)) smod repl_backlog_size r;
        let j = (j + skip) smod repl_backlog_size r;
        buf \<leftarrow> repl_backlog r;
        c \<leftarrow> reply_loop buf (repl_backlog_size r) j (repl_backlog_histlen r - skip) c;
        Some (c, repl_backlog_histlen r - skip) })"

definition getPsyncInitialOffset :: "repl \<Rightarrow> int" where
  "getPsyncInitialOffset r = (if repl_backlog r = None then master_repl_offset r + 1 else master_repl_offset r)"

definition refreshGoodSlavesCount :: "repl \<Rightarrow> repl" where
  "refreshGoodSlavesCount r =
     (if min_slaves_to_write r = 0 \<or> min_slaves_max_lag r = 0 then r
      else r\<lparr>good_slaves_count :=
        length (filter (\<lambda>c. replstate c = ONLINE \<and> unixtime r - repl_ack_time c \<le> min_slaves_max_lag r) (slaves r))\<rparr>)"

text \<open>
  The client \<open>c\<close> sends the arguments \<open>args\<close>; \<open>written\<close> says whether the write of the first line to its socket was
  complete. The result is whether the function returns \<^verbatim>\<open>C_OK\<close>, the client and the server. An offset that is no
  number is answered with an error.
\<close>

definition CONTINUE :: "byte list" where
  "CONTINUE = [43, 67, 79, 78, 84, 73, 78, 85, 69, 13, 10]"

definition not_an_integer :: "byte list" where
  "not_an_integer = map of_char ''-ERR value is not an integer or out of range'' @ [13, 10]"

definition masterTryPartialResynchronization :: "bool \<Rightarrow> slave \<Rightarrow> sds list \<Rightarrow> repl \<Rightarrow> (bool \<times> slave \<times> repl) option" where
  "masterTryPartialResynchronization written c args r =
     (if map tolower (c_str (args ! 1)) \<noteq> map tolower (c_str (runid r)) then Some (False, c, r)
      else (case string2ll (args ! 2) of
          None \<Rightarrow> Some (False, addReplyString not_an_integer c, r)
        | Some psync_offset \<Rightarrow>
            if repl_backlog r = None \<or> sint psync_offset < repl_backlog_off r \<or>
               sint psync_offset > repl_backlog_off r + repl_backlog_histlen r then Some (False, c, r)
            else
              let c = c\<lparr>is_slave := True, replstate := ONLINE, repl_ack_time := unixtime r, repl_put_online_on_ack := False\<rparr> in
              if \<not> written then
                let c = c\<lparr>closing := True\<rparr> in Some (True, c, r\<lparr>slaves := slaves r @ [c]\<rparr>)
              else do {
                let c = addReplyString CONTINUE c;
                (c, psync_len) \<leftarrow> addReplyReplicationBacklog c (sint psync_offset) r;
                Some (True, c, refreshGoodSlavesCount (r\<lparr>slaves := slaves r @ [c]\<rparr>)) }))"

section \<open>The ring\<close>

text \<open>
  The ring of \<open>n\<close> bytes after the bytes \<open>ws\<close> were written to it: the next index, and the bytes that are still
  there at their places.
\<close>

definition ring :: "nat \<Rightarrow> byte list \<Rightarrow> nat \<Rightarrow> byte list \<Rightarrow> bool" where
  "ring n buf idx ws \<longleftrightarrow> 0 < n \<and> length buf = n \<and> idx = length ws mod n \<and>
     (\<forall>j < length ws. length ws \<le> j + n \<longrightarrow> buf ! (j mod n) = ws ! j)"

lemma old_place:
  fixes n w j t :: nat
  assumes "0 < n" "j < w" "w + t \<le> j + n" "w mod n + t \<le> n"
  shows "j mod n < w mod n \<or> w mod n + t \<le> j mod n"
proof -
  define q where "q = w div n"
  have w: "w = q * n + w mod n" by (simp add: q_def)
  show ?thesis
  proof (cases "q * n \<le> j")
    case True
    then have "j = q * n + (j - q * n)" "j - q * n < n" using assms(2) w assms(1) mod_less_divisor [OF assms(1), of w] by linarith+
    then have "j mod n = j - q * n" by (metis mod_less mod_mult_self3)
    then show ?thesis using True assms(2) w by linarith
  next
    case False
    then obtain q' where q: "q = Suc q'" by (cases q) auto
    have w': "w = n + q' * n + w mod n" using w q by simp
    have "q' * n \<le> j" using assms(3) w' by linarith
    moreover have "j < n + q' * n" using False q by simp
    ultimately have "j = q' * n + (j - q' * n)" "j - q' * n < n" by linarith+
    then have "j mod n = j - q' * n" by (metis mod_less mod_mult_self3)
    then show ?thesis using assms(3) w' by linarith
  qed
qed

lemma ring_write:
  assumes r: "ring n buf idx ws" and t: "length p \<le> n - idx"
  shows "\<exists>buf'. mem_write buf idx p = Some buf' \<and> ring n buf' (if idx + length p = n then 0 else idx + length p) (ws @ p)"
proof -
  have n: "0 < n" "length buf = n" "idx = length ws mod n" using r by (simp_all add: ring_def)
  then have lt: "idx < n" by simp
  then have fit: "idx + length p \<le> n" using t by simp
  let ?b = "take idx buf @ p @ drop (idx + length p) buf"
  have w: "mem_write buf idx p = Some ?b" using fit n(2) by (simp add: mem_write_def)
  have "(length ws + length p) mod n = (idx + length p) mod n" unfolding n(3) by (simp add: mod_add_left_eq)
  also have "\<dots> = (if idx + length p = n then 0 else idx + length p)" using fit by simp
  finally have i: "(if idx + length p = n then 0 else idx + length p) = length (ws @ p) mod n" by simp
  have "?b ! (j mod n) = (ws @ p) ! j" if j: "j < length (ws @ p)" "length (ws @ p) \<le> j + n" for j
  proof (cases "j < length ws")
    case True
    then have "j mod n < idx \<or> idx + length p \<le> j mod n" using old_place [OF n(1) True, of "length p"] j(2) fit n(3) by simp
    then have "?b ! (j mod n) = buf ! (j mod n)" using fit lt n(1,2) by (auto simp: nth_append min_def)
    also have "buf ! (j mod n) = ws ! j" using r True j by (simp add: ring_def)
    also have "ws ! j = (ws @ p) ! j" using True by (simp add: nth_append)
    finally show ?thesis .
  next
    case False
    define k where "k = j - length ws"
    have k: "k < length p" "j = length ws + k" using False j(1) by (simp_all add: k_def)
    have "j mod n = (idx + k) mod n" unfolding k(2) n(3) by (simp add: mod_add_left_eq)
    then have "j mod n = idx + k" using fit k(1) by simp
    then show ?thesis using k n(2) lt by (simp add: nth_append)
  qed
  then have "ring n ?b (if idx + length p = n then 0 else idx + length p) (ws @ p)" using n fit i unfolding ring_def by simp
  then show ?thesis using w by blast
qed

text \<open>The state of the server around the ring.\<close>

definition ring_state :: "byte list \<Rightarrow> repl \<Rightarrow> bool" where
  "ring_state ws r \<longleftrightarrow> (\<exists>buf. repl_backlog r = Some buf \<and> 0 \<le> repl_backlog_idx r \<and>
     ring (nat (repl_backlog_size r)) buf (nat (repl_backlog_idx r)) ws)"

abbreviation same_rest :: "repl \<Rightarrow> repl \<Rightarrow> bool" where
  "same_rest r r' \<equiv> r' = r\<lparr>repl_backlog := repl_backlog r', repl_backlog_idx := repl_backlog_idx r', repl_backlog_histlen := repl_backlog_histlen r'\<rparr>"

lemma feed_loop_ok:
  assumes "ring_state ws r"
  shows "\<exists>r'. feed_loop p r = Some r' \<and> ring_state (ws @ p) r' \<and> repl_backlog_histlen r' = repl_backlog_histlen r + int (length p) \<and> same_rest r r'"
  using assms
proof (induction "length p" arbitrary: p ws r rule: less_induct)
  case less
  show ?case
  proof (cases "p = []")
    case True
    then show ?thesis using less.prems by (subst feed_loop.simps) simp
  next
    case False
    obtain buf where b: "repl_backlog r = Some buf" "0 \<le> repl_backlog_idx r" "ring (nat (repl_backlog_size r)) buf (nat (repl_backlog_idx r)) ws"
      using less.prems by (auto simp: ring_state_def)
    let ?n = "nat (repl_backlog_size r)" and ?i = "nat (repl_backlog_idx r)"
    define t where "t = min (length p) (?n - ?i)"
    have lt: "?i < ?n" using b(3) by (auto simp: ring_def)
    have t: "0 < t" "t \<le> length p" using False lt by (auto simp: t_def min_def)
    have tl: "length (take t p) = t" "t \<le> ?n - ?i" using t(2) by (simp_all add: t_def)
    have len: "this_len (repl_backlog_size r - repl_backlog_idx r) (length p) = t"
      using lt b(2) by (auto simp: t_def min_def this_len_def)
    obtain buf' where w: "mem_write buf ?i (take t p) = Some buf'" "ring ?n buf' (if ?i + t = ?n then 0 else ?i + t) (ws @ take t p)"
      using ring_write [OF b(3), of "take t p", unfolded tl(1)] tl(2) by blast
    define idx where "idx = (if repl_backlog_idx r + int t = repl_backlog_size r then 0 else repl_backlog_idx r + int t)"
    have idx: "0 \<le> idx" "nat idx = (if ?i + t = ?n then 0 else ?i + t)" using b(2) lt by (auto simp: idx_def nat_add_distrib)
    define r1 where "r1 = r\<lparr>repl_backlog := Some buf', repl_backlog_idx := idx, repl_backlog_histlen := repl_backlog_histlen r + int t\<rparr>"
    have "ring_state (ws @ take t p) r1" using w(2) idx by (simp add: ring_state_def r1_def)
    moreover have "length (drop t p) < length p" using t by simp
    ultimately obtain r' where r': "feed_loop (drop t p) r1 = Some r'" "ring_state ((ws @ take t p) @ drop t p) r'"
      "repl_backlog_histlen r' = repl_backlog_histlen r1 + int (length (drop t p))" "same_rest r1 r'"
      using less.hyps by blast
    have "feed_loop p r = feed_loop (drop t p) r1"
      using False b(1) w(1) unfolding feed_loop.simps [of p r] r1_def idx_def by (simp add: len Let_def)
    moreover have "same_rest r r'" using r'(4) by (simp add: r1_def)
    moreover have "repl_backlog_histlen r' = repl_backlog_histlen r + int (length p)" using r'(3) t(2) by (simp add: r1_def)
    ultimately show ?thesis using r'(1,2) by simp
  qed
qed

text \<open>
  The backlog of a stream: \<open>st\<close> are all bytes that were fed since the backlog was created at the offset
  \<open>base\<close>, and the buffer holds the last of them.
\<close>

definition backlog_ok :: "int \<Rightarrow> byte list \<Rightarrow> repl \<Rightarrow> bool" where
  "backlog_ok base st r \<longleftrightarrow> (\<exists>old ws. st = old @ ws \<and> ring_state ws r \<and>
     repl_backlog_histlen r = min (repl_backlog_size r) (int (length ws))) \<and>
     master_repl_offset r = base + int (length st) \<and>
     repl_backlog_off r = master_repl_offset r - repl_backlog_histlen r + 1"

text \<open>What feeding leaves alone.\<close>

abbreviation kept :: "repl \<Rightarrow> repl \<Rightarrow> bool" where
  "kept r r' \<equiv> slaves r' = slaves r \<and> slaveseldb r' = slaveseldb r \<and> runid r' = runid r \<and> repl_backlog_size r' = repl_backlog_size r"

lemma feed_ok:
  assumes "backlog_ok base st r"
  shows "\<exists>r'. feedReplicationBacklog p r = Some r' \<and> backlog_ok base (st @ p) r' \<and> kept r r'"
proof -
  obtain old ws where o: "st = old @ ws" "ring_state ws r" "repl_backlog_histlen r = min (repl_backlog_size r) (int (length ws))"
    and m: "master_repl_offset r = base + int (length st)" using assms by (auto simp: backlog_ok_def)
  let ?r = "r\<lparr>master_repl_offset := master_repl_offset r + int (length p)\<rparr>"
  have "ring_state ws ?r" using o(2) by (simp add: ring_state_def)
  from feed_loop_ok [OF this, of p] obtain r1 where r1: "feed_loop p ?r = Some r1" "ring_state (ws @ p) r1"
    "repl_backlog_histlen r1 = repl_backlog_histlen r + int (length p)" "same_rest ?r r1" by auto
  have k: "repl_backlog_size r1 = repl_backlog_size r" "master_repl_offset r1 = master_repl_offset r + int (length p)" "slaves r1 = slaves r"
    "slaveseldb r1 = slaveseldb r" "runid r1 = runid r" by (subst r1(4); simp)+
  define r2 where "r2 = (if repl_backlog_histlen r1 > repl_backlog_size r1 then r1\<lparr>repl_backlog_histlen := repl_backlog_size r1\<rparr> else r1)"
  have pos: "0 < repl_backlog_size r" using o(2) by (auto simp: ring_state_def ring_def)
  have h: "repl_backlog_histlen r2 = min (repl_backlog_size r) (int (length (ws @ p)))"
    using o(3) r1(3) k(1) pos by (auto simp: r2_def min_def)
  let ?r2 = "r2\<lparr>repl_backlog_off := master_repl_offset r2 - repl_backlog_histlen r2 + 1\<rparr>"
  have "feedReplicationBacklog p r = Some (r2\<lparr>repl_backlog_off := master_repl_offset r2 - repl_backlog_histlen r2 + 1\<rparr>)"
    using r1(1) by (simp add: feedReplicationBacklog_def r2_def Let_def)
  moreover have "ring_state (ws @ p) r2" using r1(2) by (simp add: r2_def ring_state_def)
  then have "ring_state (ws @ p) (r2\<lparr>repl_backlog_off := master_repl_offset r2 - repl_backlog_histlen r2 + 1\<rparr>)" by (simp add: ring_state_def)
  moreover have "repl_backlog_size r2 = repl_backlog_size r" "master_repl_offset r2 = master_repl_offset r + int (length p)" "slaves r2 = slaves r"
    "slaveseldb r2 = slaveseldb r" "runid r2 = runid r" using k by (simp_all add: r2_def)
  moreover have "st @ p = old @ (ws @ p)" using o(1) by simp
  ultimately have f: "feedReplicationBacklog p r = Some ?r2" "kept r ?r2" "ring_state (ws @ p) ?r2" "st @ p = old @ (ws @ p)"
    "master_repl_offset ?r2 = base + int (length (st @ p))" using m by simp_all
  then have "backlog_ok base (st @ p) ?r2"
    unfolding backlog_ok_def using h by (intro conjI exI [of _ old] exI [of _ "ws @ p"]) simp_all
  then show ?thesis using f by blast
qed

section \<open>Requests in the stream\<close>

lemma print_header_eq:
  assumes "length (sdec n) + 3 \<le> length buf"
  shows "\<exists>rest. print_header c n buf = Some (c # sdec n @ [13, 10] @ rest, length (sdec n)) \<and> length rest = length buf - length (sdec n) - 3"
proof -
  obtain b bs where b: "buf = b # bs" using assms by (cases buf) auto
  let ?k = "length (sdec n)"
  have k: "?k \<le> 20" by (rule length_sdec)
  obtain y z rest where d: "drop ?k bs = y # z # rest"
    using assms b by (cases "drop ?k bs"; cases "tl (drop ?k bs)") (auto simp: drop_eq_Nil dest: arg_cong [of _ _ length])
  then have d1: "drop (Suc ?k) bs = z # rest" by (metis drop_Suc list.sel(3) tl_drop)
  have "ll2string bs (length bs) n = Some (sdec n @ 0 # z # rest, of_nat ?k)"
    using assms b d1 by (simp add: ll2string_eq Let_def)
  moreover have "unat (of_nat ?k :: uint32) = ?k" using k by (simp add: unsigned_of_nat take_bit_nat_eq_self)
  moreover have "mem_set (c # sdec n @ 0 # z # rest) (?k + 1) 13 = Some (c # sdec n @ 13 # z # rest)"
    using mem_set_middle [of "c # sdec n" "?k + 1" 0 "z # rest" 13] by simp
  moreover have "mem_set (c # sdec n @ 13 # z # rest) (?k + 2) 10 = Some (c # sdec n @ 13 # 10 # rest)"
    using mem_set_middle [of "c # sdec n @ [13]" "?k + 2" z rest 10] by simp
  moreover have "length rest = length buf - ?k - 3" using arg_cong [OF d, of length] b by simp
  ultimately show ?thesis unfolding print_header_def b by (simp add: mem_set_def)
qed

lemma feed_obj_eq:
  assumes "obj_bytes a = Some s" "length llstr = 21"
  shows "feedReplicationBacklogWithObject llstr a r = feedReplicationBacklog s r"
proof (cases a)
  case (IntObj v)
  have k: "length (sdec v) \<le> 20" by (rule length_sdec)
  then have "unat (of_nat (length (sdec v)) :: uint32) = length (sdec v)" by (simp add: unat_of_nat_small)
  then show ?thesis using assms k IntObj by (simp add: feedReplicationBacklogWithObject_def ll2string_eq Let_def)
qed (use assms in \<open>auto simp: feedReplicationBacklogWithObject_def\<close>)

abbreviation small :: "sds \<Rightarrow> bool" where
  "small s \<equiv> length s < 2 ^ 63"

abbreviation objs :: "robj list \<Rightarrow> sds list \<Rightarrow> bool" where
  "objs args bs \<equiv> list_all2 (\<lambda>a s. obj_bytes a = Some s \<and> small s) args bs"

lemma feed_args_ok:
  assumes "backlog_ok base st r" "objs args bs" "length aux = 24" "length llstr = 21"
  shows "\<exists>r'. feed_args aux llstr args r = Some r' \<and> backlog_ok base (st @ concat (map bulk_bytes bs)) r' \<and> kept r r'"
  using assms(2,1,3)
proof (induction args bs arbitrary: st r aux rule: list_all2_induct)
  case (Cons a args s bs)
  have l: "stringObjectLen a = Some (length s)" using Cons.hyps(1) stringObjectLen_bytes by blast
  have d: "sdec (of_nat (length s)) = dec (length s)" using Cons.hyps(1) by (intro sdec_of_nat(1)) simp
  have k: "length (dec (length s)) \<le> 20" using length_sdec [of "of_nat (length s)"] d by simp
  obtain rest where h: "print_header 36 (of_nat (length s)) aux = Some (36 # dec (length s) @ [13, 10] @ rest, length (dec (length s)))"
    "length rest = length aux - length (dec (length s)) - 3"
    using print_header_eq [of "of_nat (length s)" aux 36] d k Cons.prems(2) by auto
  let ?aux = "36 # dec (length s) @ [13, 10] @ rest" and ?k = "length (dec (length s))"
  have parts: "take (?k + 3) ?aux = 36 # dec (length s) @ [13, 10]" "take 2 (drop (?k + 1) ?aux) = [13, 10]" "length ?aux = 24"
    using append_eq_conv_conj [of "36 # dec (length s) @ [13, 10]" rest ?aux] h(2) k Cons.prems(2) by (simp_all add: numeral_3_eq_3)
  obtain r1 where r1: "feedReplicationBacklog (36 # dec (length s) @ [13, 10]) r = Some r1"
    "backlog_ok base (st @ 36 # dec (length s) @ [13, 10]) r1" "kept r r1" using feed_ok [OF Cons.prems(1)] by blast
  obtain r2 where r2: "feedReplicationBacklog s r1 = Some r2" "backlog_ok base ((st @ 36 # dec (length s) @ [13, 10]) @ s) r2" "kept r1 r2"
    using feed_ok [OF r1(2)] by blast
  obtain r3 where r3: "feedReplicationBacklog [13, 10] r2 = Some r3"
    "backlog_ok base (((st @ 36 # dec (length s) @ [13, 10]) @ s) @ [13, 10]) r3" "kept r2 r3" using feed_ok [OF r2(2)] by blast
  have st: "((st @ 36 # dec (length s) @ [13, 10]) @ s) @ [13, 10] = st @ bulk_bytes s" by (simp add: bulk_bytes_def)
  obtain r4 where r4: "feed_args ?aux llstr args r3 = Some r4" "backlog_ok base ((st @ bulk_bytes s) @ concat (map bulk_bytes bs)) r4" "kept r3 r4"
    using Cons.IH [OF r3(2) [unfolded st] parts(3)] by blast
  have "feedReplicationBacklogWithObject llstr a r1 = Some r2" using feed_obj_eq [OF _ assms(4)] Cons.hyps(1) r2(1) by simp
  then have "feed_args aux llstr (a # args) r = Some r4"
    using l h(1) parts(1,2) r1(1) r3(1) r4(1) by (simp del: append_Cons take_Suc_Cons drop_Suc_Cons)
  then show ?case using r1(3) r2(3) r3(3) r4(2,3) by simp
qed simp

lemma radix_len_eq: "radix_len n k = k + length (dec (nat \<bar>n\<bar>)) - 1"
proof (induction n k rule: radix_len.induct)
  case (1 n len)
  have q: "nat \<bar>n sdiv 10\<bar> = nat \<bar>n\<bar> div 10" by (simp add: signed_divide_int_def abs_mult nat_div_distrib)
  show ?case
  proof (cases "n sdiv 10 = 0")
    case True
    then have "nat \<bar>n\<bar> < 10" using q by simp
    then show ?thesis using True by (simp add: radix_len.simps [of n] dec_small)
  next
    case False
    then have "10 \<le> nat \<bar>n\<bar>" using q by (metis div_less nat_0_iff abs_le_zero_iff linorder_not_le)
    then have "length (dec (nat \<bar>n\<bar>)) = Suc (length (dec (nat \<bar>n\<bar> div 10)))" by (simp add: dec_step)
    then show ?thesis using False "1.IH" [OF refl] q by (simp add: radix_len.simps [of n] Let_def)
  qed
qed

lemma bulk_len_eq:
  assumes "obj_bytes a = Some s"
  shows "bulk_len a = Some (length s)"
proof (cases a)
  case (IntObj v)
  have "0 \<le> uint v" "uint v < 2 ^ 64" using uint_lt2p [of v] by simp_all
  then have "\<bar>sint (- v)\<bar> = \<bar>sint v\<bar>" unfolding sint_uint_64 uint_minus_64 by (auto simp: not_less)
  then show ?thesis using assms IntObj by (auto simp: bulk_len_def radix_len_eq sdec_def)
qed (use assms in \<open>auto simp: bulk_len_def\<close>)

lemma addReplyString_Nil [simp]: "addReplyString [] c = c"
  by (simp add: addReplyString_def)

lemma addReplyString_append [simp]: "addReplyString y (addReplyString x c) = addReplyString (x @ y) c"
  by (simp add: addReplyString_def)

lemma prefix_reply:
  assumes "n < 2 ^ 63" "length buf = 128"
  shows "addReplyLongLongWithPrefix buf (of_nat n) p c = Some (addReplyString (shared_hdr p n) c)"
proof -
  have u: "unat (of_nat n :: int64) = n" using assms(1) by (simp add: unat_of_nat_small)
  have d: "sdec (of_nat n) = dec n" by (rule sdec_of_nat(1) [OF assms(1)])
  have k: "length (dec n) \<le> 20" using length_sdec [of "of_nat n"] d by simp
  obtain rest where h: "print_header p (of_nat n) buf = Some (p # dec n @ [13, 10] @ rest, length (dec n))"
    using print_header_eq [of "of_nat n" buf p] d k assms(2) by auto
  have "take (length (dec n) + 3) (p # dec n @ [13, 10] @ rest) = p # dec n @ [13, 10]"
    using append_eq_conv_conj [of "p # dec n @ [13, 10]" rest "p # dec n @ [13, 10] @ rest"] by (simp add: numeral_3_eq_3)
  then show ?thesis using u h by (simp add: addReplyLongLongWithPrefix_def shared_hdr_def del: append_Cons take_Suc_Cons)
qed

lemma multibulk_reply:
  assumes "n < 2 ^ 63" "length buf = 128"
  shows "addReplyMultiBulkLen buf (of_nat n) c = Some (addReplyString (shared_hdr 42 n) c)"
proof -
  have "unat (of_nat n :: int64) = n" "sint (of_nat n :: int64) = int n"
    using assms(1) sint_of_int_small [of "int n"] by (simp_all add: unat_of_nat_small)
  then show ?thesis using prefix_reply [OF assms] by (simp add: addReplyMultiBulkLen_def)
qed

lemma bulk_reply:
  assumes "obj_bytes a = Some s" "small s" "length buf = 128"
  shows "addReplyBulk_obj buf a c = Some (addReplyString (bulk_bytes s) c)"
proof -
  have "addReplyBulkLen buf a c = Some (addReplyString (shared_hdr 36 (length s)) c)"
    using prefix_reply [OF assms(2,3)] by (simp add: addReplyBulkLen_def bulk_len_eq [OF assms(1)])
  moreover have "addReply_obj buf a d = Some (addReplyString s d)" for d
  proof (cases a)
    case (IntObj v)
    have k: "length (sdec v) \<le> 20" by (rule length_sdec)
    then have "unat (of_nat (length (sdec v)) :: uint32) = length (sdec v)" by (simp add: unat_of_nat_small)
    then show ?thesis using assms k IntObj by (simp add: addReply_obj_def ll2string_eq Let_def)
  qed (use assms in \<open>auto simp: addReply_obj_def\<close>)
  ultimately show ?thesis by (simp add: addReplyBulk_obj_def bulk_bytes_def shared_hdr_def)
qed

lemma reply_args_eq:
  assumes "objs args bs" "length buf = 128"
  shows "reply_args buf args c = Some (addReplyString (concat (map bulk_bytes bs)) c)"
  using assms(1)
proof (induction args bs arbitrary: c rule: list_all2_induct)
  case (Cons a args s bs)
  then show ?case using bulk_reply [OF _ _ assms(2)] by simp
qed simp

text \<open>What reaches a slave.\<close>

definition deliver :: "byte list \<Rightarrow> slave \<Rightarrow> slave" where
  "deliver x c = (if replstate c = WAIT_BGSAVE_START then c else addReplyString x c)"

lemma deliver_Nil [simp]: "deliver [] c = c"
  by (simp add: deliver_def)

lemma deliver_append [simp]: "deliver y (deliver x c) = deliver (x @ y) c"
  by (simp add: deliver_def) (simp add: addReplyString_def)

lemma map_slaves_eq: "(\<And>c. f c = Some (addReplyString x c)) \<Longrightarrow> map_slaves f cs = Some (map (deliver x) cs)"
  by (induction cs) (simp_all add: deliver_def)

text \<open>The SELECT command is a request like any other.\<close>

lemma select_text_request: "select_text dictid = request_bytes [[83, 69, 76, 69, 67, 84], sdec dictid]"
  by (simp add: select_text_def request_bytes_def bulk_bytes_def dec_small)

definition feed_text :: "int64 \<Rightarrow> int64 \<Rightarrow> sds list \<Rightarrow> byte list" where
  "feed_text seldb dictid bs = (if seldb \<noteq> dictid then select_text dictid else []) @ request_bytes bs"

lemma backlog_ok_slaves [simp]:
  "backlog_ok base st (r\<lparr>slaves := cs\<rparr>) = backlog_ok base st r" "backlog_ok base st (r\<lparr>slaveseldb := d\<rparr>) = backlog_ok base st r"
  by (simp_all add: backlog_ok_def ring_state_def)

lemma backlog_ok_backlog: "backlog_ok base st r \<Longrightarrow> repl_backlog r \<noteq> None"
  by (auto simp: backlog_ok_def ring_state_def)

lemma feed_select_ok:
  assumes "backlog_ok base st r"
  shows "\<exists>r'. feed_select dictid r = Some r' \<and> (let x = (if slaveseldb r \<noteq> dictid then select_text dictid else []) in
    backlog_ok base (st @ x) r' \<and> slaves r' = map (deliver x) (slaves r) \<and> runid r' = runid r \<and> repl_backlog_size r' = repl_backlog_size r)"
proof (cases "slaveseldb r = dictid")
  case False
  obtain r1 where r1: "feedReplicationBacklog (select_text dictid) r = Some r1" "backlog_ok base (st @ select_text dictid) r1" "kept r r1"
    using feed_ok [OF assms] by blast
  then show ?thesis using False backlog_ok_backlog [OF assms] map_slaves_eq [of "\<lambda>c. Some (addReplyString (select_text dictid) c)" "select_text dictid"]
    by (simp add: feed_select_def feedReplicationBacklogWithObject_def)
next
  case True
  have "map (deliver []) cs = cs" for cs by (induction cs) simp_all
  then show ?thesis using True assms by (simp add: feed_select_def)
qed

lemma feedSlaves_ok:
  assumes "backlog_ok base st r" "\<And>n. length (junk n) = n" "objs args bs" "length args < 2 ^ 63"
  shows "\<exists>r'. replicationFeedSlaves junk dictid args r = Some r' \<and> backlog_ok base (st @ feed_text (slaveseldb r) dictid bs) r' \<and>
    slaves r' = map (deliver (feed_text (slaveseldb r) dictid bs)) (slaves r) \<and> slaveseldb r' = dictid \<and> runid r' = runid r \<and>
    repl_backlog_size r' = repl_backlog_size r"
proof -
  let ?x = "if slaveseldb r \<noteq> dictid then select_text dictid else []"
  have n: "length bs = length args" using assms(3) by (simp add: list_all2_lengthD)
  obtain r1 where r1: "feed_select dictid r = Some r1" "backlog_ok base (st @ ?x) r1" "slaves r1 = map (deliver ?x) (slaves r)" "runid r1 = runid r"
    "repl_backlog_size r1 = repl_backlog_size r" using feed_select_ok [OF assms(1), of dictid] by (auto simp: Let_def)
  let ?r1 = "r1\<lparr>slaveseldb := dictid\<rparr>"
  have d: "sdec (of_nat (length args)) = dec (length args)" by (rule sdec_of_nat(1) [OF assms(4)])
  have k: "length (dec (length args)) \<le> 20" using length_sdec [of "of_nat (length args)"] d by simp
  obtain rest where h: "print_header 42 (of_nat (length args)) (junk 24) = Some (42 # dec (length args) @ [13, 10] @ rest, length (dec (length args)))"
    "length rest = 24 - length (dec (length args)) - 3"
    using print_header_eq [of "of_nat (length args)" "junk 24" 42] d k assms(2) by auto
  let ?h = "42 # dec (length args) @ [13, 10]"
  have hd: "take (length (dec (length args)) + 3) (42 # dec (length args) @ [13, 10] @ rest) = ?h" "length (42 # dec (length args) @ [13, 10] @ rest) = 24"
    using append_eq_conv_conj [of ?h rest "42 # dec (length args) @ [13, 10] @ rest"] h(2) k by (simp_all add: numeral_3_eq_3)
  have ok1: "backlog_ok base (st @ ?x) ?r1" using r1(2) by simp
  obtain r2 where r2: "feedReplicationBacklog ?h ?r1 = Some r2" "backlog_ok base ((st @ ?x) @ ?h) r2" "kept ?r1 r2"
    using feed_ok [OF ok1] by blast
  obtain r3 where r3: "feed_args (42 # dec (length args) @ [13, 10] @ rest) (junk 21) args r2 = Some r3"
    "backlog_ok base (((st @ ?x) @ ?h) @ concat (map bulk_bytes bs)) r3" "kept r2 r3"
    using feed_args_ok [OF r2(2) assms(3) hd(2)] assms(2) by blast
  have q: "?h @ concat (map bulk_bytes bs) = request_bytes bs" using n by (simp add: request_bytes_def)
  have "map_slaves (\<lambda>c. do { c \<leftarrow> addReplyMultiBulkLen (junk 128) (of_nat (length args)) c; reply_args (junk 128) args c }) (slaves r3) =
      Some (map (deliver (request_bytes bs)) (slaves r3))"
    by (rule map_slaves_eq) (use q n in \<open>simp add: multibulk_reply [OF assms(4) assms(2) [of 128]] assms(2) reply_args_eq [OF assms(3)] shared_hdr_def request_bytes_def\<close>)
  then have "replicationFeedSlaves junk dictid args r = Some (r3\<lparr>slaves := map (deliver (request_bytes bs)) (slaves r3)\<rparr>)"
    using r1(1) h(1) hd(1) r2(1) r3(1) backlog_ok_backlog [OF assms(1)] backlog_ok_backlog [OF r1(2)]
    by (auto simp add: replicationFeedSlaves_def Let_def simp del: append_Cons take_Suc_Cons)
  moreover have "((st @ ?x) @ ?h) @ concat (map bulk_bytes bs) = st @ feed_text (slaveseldb r) dictid bs" using q by (simp add: feed_text_def)
  moreover have "map (deliver (request_bytes bs)) (slaves r3) = map (deliver (feed_text (slaveseldb r) dictid bs)) (slaves r)"
    using r1(3) r2(3) r3(3) by (simp add: feed_text_def comp_def)
  ultimately show ?thesis using r1(4,5) r2(3) r3(2,3) by simp
qed

section \<open>Reading the ring\<close>

lemma ring_read:
  assumes "ring n buf idx ws" "length ws \<le> a + n" "a mod n + t \<le> n" "a + t \<le> length ws"
  shows "mem_read buf (a mod n) t = Some (take t (drop a ws))"
proof -
  have n: "0 < n" "length buf = n" using assms(1) by (simp_all add: ring_def)
  have "take t (drop (a mod n) buf) = take t (drop a ws)"
  proof (rule nth_equalityI)
    fix k assume "k < length (take t (drop (a mod n) buf))"
    then have k: "k < t" by simp
    have "(a + k) mod n = (a mod n + k) mod n" by (simp add: mod_add_left_eq)
    then have "(a + k) mod n = a mod n + k" using k assms(3) by simp
    moreover have "buf ! ((a + k) mod n) = ws ! (a + k)" using assms(1,2,4) k by (simp add: ring_def)
    ultimately show "take t (drop (a mod n) buf) ! k = take t (drop a ws) ! k" using k n assms(3,4) by simp
  qed (use n assms(3,4) in simp)
  then show ?thesis using n assms(3) by (simp add: mem_read_def)
qed

lemma reply_loop_eq:
  assumes "ring n buf idx ws" "a \<le> length ws" "length ws \<le> a + n"
  shows "reply_loop buf (int n) (int (a mod n)) (int (length ws - a)) c = Some (addReplyString (drop a ws) c)"
  using assms(2,3)
proof (induction "length ws - a" arbitrary: a c rule: less_induct)
  case less
  have n: "0 < n" "a mod n < n" using assms(1) by (simp_all add: ring_def)
  show ?case
  proof (cases "a = length ws")
    case True
    then show ?thesis by (subst reply_loop.simps) simp
  next
    case False
    define t where "t = min (n - a mod n) (length ws - a)"
    have "t \<le> n - a mod n" "t \<le> length ws - a" "0 < t" using n False less.prems by (simp_all add: t_def)
    then have t: "0 < t" "a mod n + t \<le> n" "a + t \<le> length ws" using n(2) less.prems(1) by linarith+
    have tl: "(if int n - int (a mod n) < int (length ws - a) then int n - int (a mod n) else int (length ws - a)) = int t"
      using n(2) by (auto simp: t_def min_def)
    have rd: "mem_read buf (a mod n) t = Some (take t (drop a ws))" by (rule ring_read [OF assms(1) less.prems(2) t(2,3)])
    have step: "reply_loop buf (int n) (int (a mod n)) (int (length ws - a)) c =
        reply_loop buf (int n) 0 (int (length ws - a) - int t) (addReplyString (take t (drop a ws)) c)"
      using False less.prems(1) rd unfolding reply_loop.simps [of buf "int n" "int (a mod n)"] tl by simp
    have rest: "int (length ws - a) - int t = int (length ws - (a + t))" using t(3) by simp
    show ?thesis
    proof (cases "a + t = length ws")
      case True
      then have "reply_loop buf (int n) 0 (int (length ws - (a + t))) d = Some d" for d by (subst reply_loop.simps) simp
      moreover have "take t (drop a ws) = drop a ws" using True by simp
      ultimately show ?thesis unfolding step rest by simp
    next
      case False
      then have "a mod n + t = n" using n(2) t(3) by (auto simp: t_def min_def split: if_splits)
      then have "(a + t) mod n = 0" by (metis mod_add_left_eq mod_self)
      moreover have "reply_loop buf (int n) (int ((a + t) mod n)) (int (length ws - (a + t))) d = Some (addReplyString (drop (a + t) ws) d)" for d
        using less.hyps [of "a + t"] t less.prems False by simp
      moreover have "take t (drop a ws) @ drop (a + t) ws = drop a ws" by (metis add.commute append_take_drop_id drop_drop)
      ultimately show ?thesis unfolding step rest by simp
    qed
  qed
qed

lemma resync_ok:
  assumes "backlog_ok base st r" "repl_backlog_off r \<le> offset" "offset \<le> repl_backlog_off r + repl_backlog_histlen r"
  shows "\<exists>n. addReplyReplicationBacklog c offset r = Some (addReplyString (drop (nat (offset - base - 1)) st) c, n)"
proof -
  obtain old ws buf where o: "st = old @ ws" "repl_backlog r = Some buf" "0 \<le> repl_backlog_idx r"
    "ring (nat (repl_backlog_size r)) buf (nat (repl_backlog_idx r)) ws"
    and h: "repl_backlog_histlen r = min (repl_backlog_size r) (int (length ws))"
    and m: "master_repl_offset r = base + int (length st)" "repl_backlog_off r = master_repl_offset r - repl_backlog_histlen r + 1"
    using assms(1) unfolding backlog_ok_def ring_state_def by blast
  define n where "n = nat (repl_backlog_size r)"
  have n: "0 < n" "int n = repl_backlog_size r" "nat (repl_backlog_idx r) = length ws mod n" using o(4) by (auto simp: ring_def n_def)
  define hl where "hl = min n (length ws)"
  have hl: "repl_backlog_histlen r = int hl" using h n(2) by (simp add: hl_def)
  define skip where "skip = nat (offset - repl_backlog_off r)"
  have skip: "offset - repl_backlog_off r = int skip" "skip \<le> hl" using assms(2,3) hl by (simp_all add: skip_def)
  define a where "a = length ws - hl + skip"
  have a: "a \<le> length ws" "length ws \<le> a + n" using skip(2) by (auto simp: a_def hl_def)
  have pos: "nat (offset - base - 1) = length old + a" using skip m hl o(1) by (simp add: a_def hl_def)
  then have dr: "drop (nat (offset - base - 1)) st = drop a ws" using o(1) by simp
  show ?thesis
  proof (cases "hl = 0")
    case True
    then have "ws = []" using n(1) by (simp add: hl_def min_def split: if_splits)
    then show ?thesis using True hl dr by (simp add: addReplyReplicationBacklog_def)
  next
    case False
    have sm: "x smod int n = x mod int n" if "0 \<le> x" for x using that n(1) by (simp add: smod_int_alt_def sgn_if)
    have idx: "repl_backlog_idx r = int (length ws mod n)" using o(3) n(3) by (metis int_nat_eq)
    have "(repl_backlog_idx r + (repl_backlog_size r - repl_backlog_histlen r)) smod repl_backlog_size r = int ((length ws mod n + (n - hl)) mod n)"
    proof -
      have "int (length ws mod n) + (int n - int hl) = int (length ws mod n + (n - hl))" by (simp add: hl_def of_nat_diff)
      then show ?thesis unfolding n(2) [symmetric] idx hl by (simp only: sm of_nat_0_le_iff zmod_int)
    qed
    moreover have "(int ((length ws mod n + (n - hl)) mod n) + int skip) smod repl_backlog_size r = int (((length ws mod n + (n - hl)) mod n + skip) mod n)"
      unfolding n(2) [symmetric] of_nat_add [symmetric] by (simp only: sm of_nat_0_le_iff zmod_int)
    moreover have "((length ws mod n + (n - hl)) mod n + skip) mod n = a mod n"
    proof -
      have "((length ws mod n + (n - hl)) mod n + skip) mod n = (length ws + (n - hl) + skip) mod n" by (simp add: mod_add_left_eq)
      also have "length ws + (n - hl) + skip = a + n" by (auto simp: a_def hl_def)
      finally show ?thesis by simp
    qed
    moreover have "repl_backlog_histlen r - int skip = int (length ws - a)" using hl skip(2) by (auto simp: a_def hl_def)
    ultimately show ?thesis
      using reply_loop_eq [OF o(4) a(1), of c] a(2) False hl o(2) dr skip(1) n(2) unfolding n_def [symmetric]
      by (simp add: addReplyReplicationBacklog_def Let_def)
  qed
qed

section \<open>Creating and resizing\<close>

text \<open>A buffer that was just allocated.\<close>

lemma emptied_ok:
  assumes "repl_backlog r = Some buf" "length buf = nat (repl_backlog_size r)" "0 < repl_backlog_size r" "repl_backlog_idx r = 0"
    "repl_backlog_histlen r = 0" "master_repl_offset r = base + int (length st)" "repl_backlog_off r = master_repl_offset r + 1"
  shows "backlog_ok base st r"
proof -
  have "ring_state [] r" using assms(1-4) by (simp add: ring_state_def ring_def)
  then show ?thesis using assms unfolding backlog_ok_def by (intro conjI exI [of _ st] exI [of _ "[]"]) simp_all
qed

lemma create_ok:
  assumes "repl_backlog r = None" "0 < repl_backlog_size r" "\<And>n. length (junk n) = n"
  shows "\<exists>r'. createReplicationBacklog junk r = Some r' \<and> backlog_ok (master_repl_offset r + 1) [] r' \<and> slaves r' = slaves r"
  using assms by (auto simp: createReplicationBacklog_def intro!: emptied_ok)

text \<open>Resizing drops the contents: then only a slave that has missed nothing can go on.\<close>

lemma resize_ok:
  assumes "backlog_ok base st r" "\<And>n. length (junk n) = n"
  shows "backlog_ok base st (resizeReplicationBacklog junk newsize r)"
    "repl_backlog_size (resizeReplicationBacklog junk newsize r) = repl_backlog_size r \<or>
      repl_backlog_histlen (resizeReplicationBacklog junk newsize r) = 0"
proof -
  define sz where "sz = (if newsize < BACKLOG_MIN_SIZE then BACKLOG_MIN_SIZE else newsize)"
  let ?r = "r\<lparr>repl_backlog_size := sz, repl_backlog := Some (junk (nat sz)), repl_backlog_histlen := 0, repl_backlog_idx := 0,
      repl_backlog_off := master_repl_offset r + 1\<rparr>"
  have e: "resizeReplicationBacklog junk newsize r = (if repl_backlog_size r = sz then r else ?r)"
    using backlog_ok_backlog [OF assms(1)] unfolding resizeReplicationBacklog_def sz_def [symmetric] by (simp add: Let_def)
  have "backlog_ok base st ?r" by (rule emptied_ok) (use assms in \<open>auto simp: sz_def backlog_ok_def\<close>)
  then show "backlog_ok base st (resizeReplicationBacklog junk newsize r)" using e assms(1) by simp
  show "repl_backlog_size (resizeReplicationBacklog junk newsize r) = repl_backlog_size r \<or>
      repl_backlog_histlen (resizeReplicationBacklog junk newsize r) = 0" unfolding e by simp
qed

section \<open>A slave comes back\<close>

text \<open>The commands that the master propagates, and the stream they make.\<close>

fun feed_all :: "(nat \<Rightarrow> byte list) \<Rightarrow> (int64 \<times> robj list) list \<Rightarrow> repl \<Rightarrow> repl option" where
  "feed_all junk [] r = Some r"
| "feed_all junk ((dictid, args) # cmds) r = do { r \<leftarrow> replicationFeedSlaves junk dictid args r; feed_all junk cmds r }"

fun stream_text :: "int64 \<Rightarrow> (int64 \<times> sds list) list \<Rightarrow> byte list" where
  "stream_text seldb [] = []"
| "stream_text seldb ((dictid, bs) # cmds) = feed_text seldb dictid bs @ stream_text dictid cmds"

definition cmd_bytes :: "int64 \<times> robj list \<Rightarrow> int64 \<times> sds list \<Rightarrow> bool" where
  "cmd_bytes c d \<longleftrightarrow> fst c = fst d \<and> objs (snd c) (snd d) \<and> length (snd c) < 2 ^ 63"

lemma feed_all_ok:
  assumes "list_all2 cmd_bytes cmds texts" "backlog_ok base st r" "\<And>n. length (junk n) = n"
  shows "\<exists>r'. feed_all junk cmds r = Some r' \<and> backlog_ok base (st @ stream_text (slaveseldb r) texts) r' \<and>
    slaves r' = map (deliver (stream_text (slaveseldb r) texts)) (slaves r)"
  using assms(1,2)
proof (induction cmds texts arbitrary: st r rule: list_all2_induct)
  case Nil
  have "map (deliver []) cs = cs" for cs by (induction cs) simp_all
  then show ?case using Nil by simp
next
  case (Cons c cmds d texts)
  obtain dictid args bs where c: "c = (dictid, args)" "d = (dictid, bs)" "objs args bs" "length args < 2 ^ 63"
    using Cons.hyps(1) by (cases c; cases d) (auto simp: cmd_bytes_def)
  obtain r1 where r1: "replicationFeedSlaves junk dictid args r = Some r1" "backlog_ok base (st @ feed_text (slaveseldb r) dictid bs) r1"
    "slaves r1 = map (deliver (feed_text (slaveseldb r) dictid bs)) (slaves r)" "slaveseldb r1 = dictid"
    using feedSlaves_ok [where junk = junk and dictid = dictid, OF Cons.prems assms(3) c(3,4)] by blast
  show ?case using Cons.IH [OF r1(2)] r1(1,3,4) c(1,2) by (auto simp: comp_def)
qed

text \<open>
  C8. A partial resynchronization leaves no gap. Let \<open>st\<close> be the stream since the offset \<open>base\<close>, and let a
  client ask for an offset that the backlog still reaches. It is accepted and becomes a slave, and after
  any further commands it has been sent, behind the answer \<^verbatim>\<open>+CONTINUE\<close>, exactly the bytes of the stream from this
  offset to the end, while every other slave was sent exactly the new part. No read or write
  leaves the circular buffer, however often it has wrapped.
\<close>

theorem partial_resync_complete:
  assumes "backlog_ok base st r" "\<And>n. length (junk n) = n"
    and "map tolower (c_str rid) = map tolower (c_str (runid r))" "string2ll off = Some offset"
    and "repl_backlog_off r \<le> sint offset" "sint offset \<le> repl_backlog_off r + repl_backlog_histlen r"
    and "list_all2 cmd_bytes cmds texts"
  shows "\<exists>c1 r1 r2 c2. masterTryPartialResynchronization True c [cmd, rid, off] r = Some (True, c1, r1) \<and> feed_all junk cmds r1 = Some r2 \<and>
    (let new = stream_text (slaveseldb r) texts in
      slaves r2 = map (deliver new) (slaves r) @ [c2] \<and> sl_id c2 = sl_id c \<and>
      sent c2 = sent c @ CONTINUE @ drop (nat (sint offset - base - 1)) (st @ new) \<and> backlog_ok base (st @ new) r2)"
proof -
  let ?c = "addReplyString CONTINUE (c\<lparr>is_slave := True, replstate := ONLINE, repl_ack_time := unixtime r, repl_put_online_on_ack := False\<rparr>)"
  let ?miss = "drop (nat (sint offset - base - 1)) st"
  obtain n where n: "addReplyReplicationBacklog ?c (sint offset) r = Some (addReplyString ?miss ?c, n)"
    using resync_ok [OF assms(1,5,6), of ?c] by blast
  let ?c1 = "addReplyString ?miss ?c"
  define r1 where "r1 = refreshGoodSlavesCount (r\<lparr>slaves := slaves r @ [?c1]\<rparr>)"
  have r1: "slaves r1 = slaves r @ [?c1]" "slaveseldb r1 = slaveseldb r" "backlog_ok base st r1"
    using assms(1) by (auto simp: r1_def refreshGoodSlavesCount_def backlog_ok_def ring_state_def)
  have acc: "masterTryPartialResynchronization True c [cmd, rid, off] r = Some (True, ?c1, r1)"
    using assms(3-6) backlog_ok_backlog [OF assms(1)] n by (auto simp: masterTryPartialResynchronization_def Let_def r1_def)
  let ?new = "stream_text (slaveseldb r) texts"
  obtain r2 where r2: "feed_all junk cmds r1 = Some r2" "backlog_ok base (st @ ?new) r2" "slaves r2 = map (deliver ?new) (slaves r1)"
    using feed_all_ok [OF assms(7) r1(3) assms(2)] r1(2) by auto
  have pos: "nat (sint offset - base - 1) \<le> length st"
    using assms(1,6) by (auto simp: backlog_ok_def)
  have "sl_id (deliver ?new ?c1) = sl_id c" "sent (deliver ?new ?c1) = sent c @ CONTINUE @ drop (nat (sint offset - base - 1)) (st @ ?new)"
    using pos by (simp_all add: deliver_def addReplyString_def)
  then show ?thesis using acc r2 r1(1) by (intro exI [of _ ?c1] exI [of _ r1] exI [of _ r2] exI [of _ "deliver ?new ?c1"]) (simp add: Let_def)
qed

text \<open>A master with a buffer of five bytes that has sent seven.\<close>

definition sample_repl :: repl where
  "sample_repl = \<lparr>runid = [97], master_repl_offset = 17, repl_backlog = Some [6, 7, 3, 4, 5], repl_backlog_size = 5, repl_backlog_histlen = 5,
     repl_backlog_idx = 2, repl_backlog_off = 13, slaves = [], slaveseldb = 0, unixtime = 0, min_slaves_to_write = 0,
     min_slaves_max_lag = 10, good_slaves_count = 0\<rparr>"

definition sample_slave :: slave where
  "sample_slave = \<lparr>sl_id = 7, replstate = ONLINE, repl_ack_time = 0, repl_put_online_on_ack = False, is_slave = False, closing = False, sent = []\<rparr>"

lemma sample_repl_ok: "backlog_ok 10 [1, 2, 3, 4, 5, 6, 7] sample_repl"
proof -
  have "ring 5 [6, 7, 3, 4, 5] 2 [1, 2, 3, 4, 5, 6, 7]"
    unfolding ring_def
  proof (intro conjI allI impI)
    fix j :: nat assume "j < length [1, 2, 3, 4, 5, 6, 7 :: byte]" "length [1, 2, 3, 4, 5, 6, 7 :: byte] \<le> j + 5"
    then have "j = 2 \<or> j = 3 \<or> j = 4 \<or> j = 5 \<or> j = 6" by simp arith
    then show "[6, 7, 3, 4, 5 :: byte] ! (j mod 5) = [1, 2, 3, 4, 5, 6, 7] ! j" by (elim disjE) simp_all
  qed simp_all
  then have "ring_state [1, 2, 3, 4, 5, 6, 7] sample_repl" by (simp add: ring_state_def sample_repl_def)
  then show ?thesis unfolding backlog_ok_def
    by (intro conjI exI [of _ "[]"] exI [of _ "[1, 2, 3, 4, 5, 6, 7]"]) (simp_all add: sample_repl_def)
qed

theorem partial_resync_complete_witness:
  "\<exists>c1 r1 r2 c2. masterTryPartialResynchronization True sample_slave [[], [65], [49, 52]] sample_repl = Some (True, c1, r1) \<and>
     feed_all (\<lambda>n. replicate n 0) [(0, [Raw [88]])] r1 = Some r2 \<and> slaves r2 = [c2] \<and>
     sent c2 = CONTINUE @ [4, 5, 6, 7] @ request_bytes [[88]]"
proof -
  have o: "string2ll [49, 52] = Some (14 :: int64)" unfolding string2ll_iff by (simp add: sdec_def dec_step dec_small)
  have m: "list_all2 cmd_bytes [(0, [Raw [88]])] [(0, [[88]])]" by (simp add: cmd_bytes_def)
  have t: "stream_text (slaveseldb sample_repl) [(0, [[88]])] = request_bytes [[88]]" by (simp add: sample_repl_def feed_text_def)
  have id: "map tolower (c_str [65]) = map tolower (c_str (runid sample_repl))" by (simp add: sample_repl_def c_str_def tolower_def)
  have r: "repl_backlog_off sample_repl \<le> sint (14 :: int64)"
    "sint (14 :: int64) \<le> repl_backlog_off sample_repl + repl_backlog_histlen sample_repl" "slaves sample_repl = []" "sent sample_slave = []"
    by (simp_all add: sample_repl_def sample_slave_def)
  show ?thesis using partial_resync_complete [where junk = "\<lambda>n. replicate n 0" and c = sample_slave and cmd = "[]",
      OF sample_repl_ok _ id o r(1,2) m, unfolded t] r(3,4) by (auto simp: Let_def)
qed

end
