(* ===== verification/Spec2Isabelle.thy ===== *)
theory Spec2Isabelle
  imports Endianconv Intset Util Dict DictScan Crc Connection Bitfield Adlist Pubsub Rdb Backlog
begin

text \<open>
  A verification library for the core of the Redis 3.2 server. All paths below are relative to
  \<^verbatim>\<open>src/Aufgabe3/backup/root/redis-stable/src\<close>.

  \<^bold>\<open>The program.\<close> A client sends bytes over a connection. \<^verbatim>\<open>networking.c\<close> collects them in a query buffer and
  cuts them into requests; \<^verbatim>\<open>server.c\<close> looks the command up, checks it and calls it, or queues it inside a
  transaction of \<^verbatim>\<open>multi.c\<close>. The commands (\<^verbatim>\<open>db.c\<close>, \<^verbatim>\<open>t_string.c\<close>, \<^verbatim>\<open>bitops.c\<close>) work on databases that map keys to
  objects (\<^verbatim>\<open>object.c\<close>) through the hash tables of \<^verbatim>\<open>dict.c\<close>, and every change of a key marks the clients that
  watch it. \<^verbatim>\<open>pubsub.c\<close> delivers messages to subscribers. \<^verbatim>\<open>rdb.c\<close> writes strings to snapshots and compresses
  them with LZF, and \<^verbatim>\<open>replication.c\<close> sends the commands that changed something to slaves. Below all of this are linked lists, integer sets, dynamic strings, conversions of
  integers, glob patterns, checksums and byte swaps.

  \<^bold>\<open>Conventions.\<close> Machine integers are words of their width, read with \<^const>\<open>uint\<close> and \<^const>\<open>sint\<close>; signed arithmetic
  that overflows in the code wraps in the models. Memory is a list of bytes whose accesses are checked
  (\<^theory_text>\<open>mem_get\<close>, \<^theory_text>\<open>mem_set\<close>, \<^theory_text>\<open>mem_read\<close>, \<^theory_text>\<open>mem_write\<close> in Prelude): an access outside, a failed assertion, an abort
  and an undefined shift are the result \<open>None\<close> of the option monad, so that a theorem with a result
  \<open>Some\<close> is also a theorem about safety. Where C returns an error this is an inner option, a sum or a
  reply value. Loops are total functions with a measure where the code always ends; where that
  rests on the state they are partial functions in the option monad, and the theorems show that they return. What the
  environment decides is a parameter: the clock, hash functions, allocators, uninitialised memory, the
  order in which a table is iterated, the configuration.

  \<^bold>\<open>Theories, sources and results.\<close>

  \<^item> Prelude: integer types, checked memory, little endian encodings, lemmas on them, the conversion to int, and the C
    functions \<^verbatim>\<open>tolower\<close> and \<^verbatim>\<open>strcasecmp\<close>.
  \<^item> Endianconv (\<^verbatim>\<open>endianconv.c\<close>): the swaps reverse bytes and are involutions.
  \<^item> Util (\<^verbatim>\<open>util.c\<close>): \<^const>\<open>ll2string\<close> writes exactly the decimal form and stays inside its buffer; \<^const>\<open>string2ll\<close>
    accepts exactly these forms.
  \<^item> Intset (\<^verbatim>\<open>intset.c\<close>): the sorted array in one allocation, with upgrades of its width. The locale
    \<open>bounded_set\<close> is the interface; its interpretation gives the refinement of mathematical sets.
  \<^item> Dict and DictScan (\<^verbatim>\<open>dict.c\<close>): every operation on the two tables refines a finite map through resizes
    and incremental rehashing (locale \<open>map_store\<close>); rehashing ends; \<^const>\<open>dictScan\<close> returns every element that
    stays, under a condition on shrinking tables without which it does not.
  \<^item> Adlist (\<^verbatim>\<open>adlist.c\<close>): lists of nodes in a memory with an allocator. Sequences of operations refine
    mathematical lists, copies are separate, and the current node may be deleted during an iteration.
  \<^item> Glob (\<^verbatim>\<open>stringmatchlen\<close> of \<^verbatim>\<open>util.c\<close>): the matcher decides the language of a parsed pattern; on which
    inputs it reads too far.
  \<^item> Sds (\<^verbatim>\<open>sds.c\<close>): ranges, splitting and joining, printing integers, and the round trip of quoted arguments.
  \<^item> Crc (\<^verbatim>\<open>crc16.c\<close>, \<^verbatim>\<open>crc64.c\<close>, \<^verbatim>\<open>keyHashSlot\<close> of \<^verbatim>\<open>cluster.c\<close>): the tables compute the bitwise checksums; hash tags.
  \<^item> Object (\<^verbatim>\<open>object.c\<close>): string objects; their three encodings cannot be observed.
  \<^item> Keyspace and DbCommands (\<^verbatim>\<open>db.c\<close>, the watch lists of \<^verbatim>\<open>multi.c\<close>): the state of the server as the record
    \<open>server\<close>, lookups with expiration, the primitive changes and the commands on keys. The invariant \<open>server_ok\<close>
    and the frame condition \<open>G\<close> say what each step keeps and whom it marks; rules for \<open>wp\<close> drive the proofs
    of the commands.
  \<^item> TString (\<^verbatim>\<open>t_string.c\<close>): the string commands, with their exact results.
  \<^item> Bitops, Bitcount, BitCommands and Bitfield (\<^verbatim>\<open>bitops.c\<close>): fields of any width with their overflow rules,
    counting and searching by words, the commands SETBIT, GETBIT, BITOP, BITCOUNT, BITPOS and
    BITFIELD; the fast paths agree with bytewise definitions.
  \<^item> Multi (\<^verbatim>\<open>multi.c\<close>, \<^verbatim>\<open>call\<close> and \<^verbatim>\<open>processCommand\<close> of \<^verbatim>\<open>server.c\<close>): the command table; every request of a modelled command
    keeps the invariant and fails no assertion; a change of a watched key makes EXEC fail; unknown commands and wrong numbers of
    arguments abort EXEC.
  \<^item> Protocol and ProtocolSafety (\<^verbatim>\<open>networking.c\<close>): the reader serves every complete request once and in
    order however the bytes are cut; arbitrary bytes are harmless. The locale \<open>request_handler\<close> is the contract
    between the reader and the code that executes requests.
  \<^item> Connection: this contract holds for \<^const>\<open>processCommand\<close>, so no input of a client whose commands are modelled fails an assertion
    of the parsers, the loop or the commands.
  \<^item> Pubsub (\<^verbatim>\<open>pubsub.c\<close>): the two views of the subscriptions agree after any sequence of commands whose channel names are not empty and whose
    patterns parse, and a message on such a channel reaches exactly its subscribers.
  \<^item> Lzf (\<^verbatim>\<open>lzf_c.c\<close>, \<^verbatim>\<open>lzf_d.c\<close>): decompression inverts compression with an uninitialised hash table, and both
    stay inside their buffers. The locale \<open>block_codec\<close> is what its users rely on.
  \<^item> Rdb (\<^verbatim>\<open>rdb.c\<close>): lengths, integers and strings come back from what was saved for them.
  \<^item> Backlog (\<^verbatim>\<open>replication.c\<close>, replies of \<^verbatim>\<open>networking.c\<close>): the circular backlog holds the end of the replication
    stream, every slave is sent the same requests, and a partial resynchronization leaves no gap.

  \<^bold>\<open>Bounds and assumptions.\<close> The host is little endian with 64 bit longs, except in Endianconv where the
  byte order is a parameter. An allocation of at most \<open>max_alloc\<close> bytes succeeds and a larger one
  aborts; the theorems ask for enough room for the strings of 512 MB that the code allows. Arguments have at most
  512 MB and a query buffer at most 1 GB, which the code enforces and ProtocolSafety proves. The
  command table has all rows of the code. Forty-six of them are the modelled commands; the functions of the others are not
  part of \<open>simple_proc\<close>, and the theorems on requests, connections and WATCH make no claim about them (the condition \<open>modelled\<close>). BITFIELD is among
  these although it is modelled, because it may
  create a string beyond 512 MB (\<open>bitfield_exceeds_limit\<close>) and the invariant of the server would
  be lost; DEBUG has an assertion that fails on request. The same theorems exclude eviction (\<open>k_evict = None\<close>, the server has no memory limit) and SETRANGE with an offset
  near $2^{63}$, which aborts the server (\<open>setrange_offset_aborts\<close>); the theorem on WATCH also excludes MOVE and PERSIST and
  keys with an expire time. The alignment of a string is the
  function \<open>addr_of\<close>. Lists of clients in Multi and Pubsub are lists of HOL and databases are maps: Adlist and Dict
  show that the code implements these. Counters in Pubsub are natural numbers, and output buffers have no limits. Where
  the code keeps a size in an int (\<^const>\<open>c_int\<close>) the models convert it; the theorem on strings of Rdb is therefore restricted to less than
  $2^{31} - 7$ bytes, and equality of objects to strings below $2^{31}$ bytes. The offsets of Backlog are integers.

  \<^bold>\<open>Not modelled.\<close> Lists, sets, hashes and sorted sets with their compact encodings are opaque aggregates of the
  key space. Floating point (INCRBYFLOAT, scores, geo, hyperloglog) has no place in the word models. AOF,
  full synchronization and the slave side of replication, the cluster bus and Sentinel are protocols between processes
  over files, sockets and timers; the propagation that commands ask for is recorded as an effect. Scripting embeds an
  interpreter, and the event loop, background threads, configuration, logging and the
  command line tools are wrappers of the operating system or separate programs. Reference counts and the layout of
  dynamic strings are below the level of the models.
\<close>

end
